(* ===== verification/Sgl_Prelude.thy ===== *)
theory Sgl_Prelude
  imports Main "HOL-Library.Multiset" "HOL-Library.Product_Lexorder"
begin

text \<open>
  What every component of the development shares: the Python exceptions as a datatype and the
  error sum with its \<open>rbind\<close>, Python and numpy primitives the sources call (slices, fancy
  indexing and assignment, \<open>arange\<close>, \<open>unique\<close>, \<open>setdiff1d\<close>, ceiling division), folds and loops
  that may raise, and the generic list and arithmetic lemmas the component proofs rest on.
\<close>

named_theorems result_simps \<open>rewrite rules of the error sum\<close>
named_theorems np_simps \<open>lengths and element sets of the numpy primitives\<close>

section \<open>Exceptions as values\<close>

text \<open>\<open>NonTermination\<close> is not an exception: it is the value of a loop model that ran out of fuel.\<close>

datatype py_error =
    AssertionError | ValueError | IndexError | KeyError | TypeError
  | AttributeError | RuntimeError | NotImplementedError | ZeroDivisionError | NameError | StopIteration
  | NonTermination

type_synonym 'a result = "py_error + 'a"

definition rbind :: "'a result \<Rightarrow> ('a \<Rightarrow> 'b result) \<Rightarrow> 'b result" where
  "rbind r f = (case r of Inl e \<Rightarrow> Inl e | Inr x \<Rightarrow> f x)"

lemma rbind_Inl [simp, result_simps]: "rbind (Inl e) f = Inl e"
  by (simp add: rbind_def)

lemma rbind_Inr [simp, result_simps]: "rbind (Inr x) f = f x"
  by (simp add: rbind_def)

lemma rbind_eq_Inr_iff [result_simps]:
  "rbind r f = Inr y \<longleftrightarrow> (\<exists>x. r = Inr x \<and> f x = Inr y)"
  by (cases r) auto

lemma Inr_eq_rbind_iff [result_simps]:
  "Inr y = rbind r f \<longleftrightarrow> (\<exists>x. r = Inr x \<and> f x = Inr y)"
  by (cases r) auto

lemma rbind_cong [fundef_cong]:
  "r = r' \<Longrightarrow> (\<And>x. r' = Inr x \<Longrightarrow> f x = f' x) \<Longrightarrow> rbind r f = rbind r' f'"
  by (cases r') auto

text \<open>\<open>assert c\<close> and the other guarded raises.\<close>

definition raise_unless :: "py_error \<Rightarrow> bool \<Rightarrow> unit result" where
  "raise_unless e c = (if c then Inr () else Inl e)"

lemma raise_unless_simps [simp]:
  "raise_unless e True = Inr ()" "raise_unless e False = Inl e"
  "raise_unless e c = Inr u \<longleftrightarrow> c"
  by (auto simp: raise_unless_def)

text \<open>A \<open>for\<close> loop whose body may raise: it stops at the first exception.\<close>

fun for_m :: "('a \<Rightarrow> 's \<Rightarrow> 's result) \<Rightarrow> 'a list \<Rightarrow> 's \<Rightarrow> 's result" where
  "for_m f [] s = Inr s"
| "for_m f (x # xs) s = rbind (f x s) (for_m f xs)"

lemma for_m_append: "for_m f (xs @ ys) s = rbind (for_m f xs s) (for_m f ys)"
  by (induction xs arbitrary: s) (auto simp: rbind_def split: sum.splits)

text \<open>The loop rule: an invariant every iteration keeps holds when the loop ends.\<close>

lemma for_m_invariant:
  assumes "for_m f xs s = Inr t" "P s"
    and "\<And>x s t. x \<in> set xs \<Longrightarrow> P s \<Longrightarrow> f x s = Inr t \<Longrightarrow> P t"
  shows "P t"
  using assms
proof (induction xs arbitrary: s)
  case (Cons x xs)
  then obtain u where "f x s = Inr u" "for_m f xs u = Inr t"
    by (auto simp: rbind_eq_Inr_iff)
  with Cons show ?case by (metis list.set_intros)
qed simp

lemma for_m_fixpoint: "(\<And>x. x \<in> set xs \<Longrightarrow> f x s = Inr s) \<Longrightarrow> for_m f xs s = Inr s"
  by (induction xs) auto

text \<open>A list comprehension whose body may raise.\<close>

fun map_m :: "('a \<Rightarrow> 'b result) \<Rightarrow> 'a list \<Rightarrow> 'b list result" where
  "map_m f [] = Inr []"
| "map_m f (x # xs) = rbind (f x) (\<lambda>y. rbind (map_m f xs) (\<lambda>ys. Inr (y # ys)))"

lemma map_m_total: "(\<And>x. x \<in> set xs \<Longrightarrow> f x = Inr (g x)) \<Longrightarrow> map_m f xs = Inr (map g xs)"
  by (induction xs) auto

lemma replicate_update_same [simp]: "(replicate n x)[k := x] = replicate n x"
  by (induction n arbitrary: k) (auto split: nat.split)

section \<open>Python slices and numpy arrays\<close>

text \<open>\<open>xs[a:b]\<close>: negative bounds count from the end and both are clamped to the list.\<close>

definition py_bound :: "nat \<Rightarrow> int \<Rightarrow> nat" where
  "py_bound n i = nat (if i < 0 then max 0 (i + int n) else min i (int n))"

definition py_slice :: "'a list \<Rightarrow> int \<Rightarrow> int \<Rightarrow> 'a list" where
  "py_slice xs a b = take (py_bound (length xs) b - py_bound (length xs) a)
     (drop (py_bound (length xs) a) xs)"

lemma py_bound_nonneg [simp]: "0 \<le> i \<Longrightarrow> py_bound n i = min (nat i) n"
  by (auto simp: py_bound_def)

lemma py_slice_nonneg:
  "0 \<le> a \<Longrightarrow> 0 \<le> b \<Longrightarrow> py_slice xs a b = take (nat b - nat a) (drop (nat a) xs)"
  by (auto simp: py_slice_def min_def take_all_iff)

lemma py_slice_prefix: "0 \<le> b \<Longrightarrow> py_slice xs 0 b = take (nat b) xs"
  by (simp add: py_slice_nonneg)

lemma set_py_slice_subset: "set (py_slice xs a b) \<subseteq> set xs"
  by (auto simp: py_slice_def dest: in_set_takeD in_set_dropD)

text \<open>\<open>a[i]\<close> on an array: negative indices wrap once, anything else out of range raises.\<close>

definition np_pos :: "nat \<Rightarrow> int \<Rightarrow> nat option" where
  "np_pos n i = (if 0 \<le> i \<and> i < int n then Some (nat i)
     else if - int n \<le> i \<and> i < 0 then Some (nat (i + int n)) else None)"

definition np_get :: "'a list \<Rightarrow> int \<Rightarrow> 'a result" where
  "np_get xs i = (case np_pos (length xs) i of None \<Rightarrow> Inl IndexError | Some k \<Rightarrow> Inr (xs ! k))"

text \<open>Fancy indexing \<open>a[idx]\<close> and fancy assignment \<open>a[idx] = vals\<close> (the last write to a repeated
  index stays).\<close>

fun np_take :: "'a list \<Rightarrow> int list \<Rightarrow> 'a list result" where
  "np_take xs [] = Inr []"
| "np_take xs (i # is) = rbind (np_get xs i) (\<lambda>v. rbind (np_take xs is) (\<lambda>vs. Inr (v # vs)))"

definition np_set :: "'a list \<Rightarrow> int \<Rightarrow> 'a \<Rightarrow> 'a list result" where
  "np_set xs i v = (case np_pos (length xs) i of None \<Rightarrow> Inl IndexError | Some k \<Rightarrow> Inr (xs[k := v]))"

fun np_put :: "'a list \<Rightarrow> int list \<Rightarrow> 'a list \<Rightarrow> 'a list result" where
  "np_put xs [] [] = Inr xs"
| "np_put xs (i # is) (v # vs) = rbind (np_set xs i v) (\<lambda>ys. np_put ys is vs)"
| "np_put xs _ _ = Inl ValueError"

lemma np_pos_in_range [simp]: "0 \<le> i \<Longrightarrow> i < int n \<Longrightarrow> np_pos n i = Some (nat i)"
  by (simp add: np_pos_def)

lemma np_pos_less: "np_pos n i = Some k \<Longrightarrow> k < n"
  by (auto simp: np_pos_def split: if_splits)

lemma np_get_in_range [simp]: "0 \<le> i \<Longrightarrow> i < int (length xs) \<Longrightarrow> np_get xs i = Inr (xs ! nat i)"
  by (simp add: np_get_def)

lemma np_set_in_range [simp]:
  "0 \<le> i \<Longrightarrow> i < int (length xs) \<Longrightarrow> np_set xs i v = Inr (xs[nat i := v])"
  by (simp add: np_set_def)

lemma length_np_set: "np_set xs i v = Inr ys \<Longrightarrow> length ys = length xs"
  by (auto simp: np_set_def split: option.splits)

lemma np_take_in_range:
  "(\<forall>i\<in>set is. 0 \<le> i \<and> i < int (length xs)) \<Longrightarrow> np_take xs is = Inr (map (\<lambda>i. xs ! nat i) is)"
  by (induction "is") auto

lemma length_np_take: "np_take xs is = Inr vs \<Longrightarrow> length vs = length is"
  by (induction "is" arbitrary: vs) (auto simp: rbind_eq_Inr_iff)

lemma length_np_put: "np_put xs is vs = Inr ys \<Longrightarrow> length ys = length xs"
  by (induction xs "is" vs rule: np_put.induct) (auto simp: rbind_eq_Inr_iff length_np_set)

lemma np_put_total:
  "(\<forall>i\<in>set is. 0 \<le> i \<and> i < int (length xs)) \<Longrightarrow> length vs = length is \<Longrightarrow> \<exists>ys. np_put xs is vs = Inr ys"
  by (induction xs "is" vs rule: np_put.induct) auto

text \<open>Outside the written indices the array is unchanged, inside a distinct index list it holds the
  value at the same place.\<close>

lemma np_put_frame:
  assumes "np_put xs is vs = Inr ys" "\<forall>i\<in>set is. 0 \<le> i \<and> i < int (length xs)" "int k \<notin> set is"
  shows "ys ! k = xs ! k"
  using assms
  by (induction xs "is" vs rule: np_put.induct) (auto simp: rbind_eq_Inr_iff nth_list_update)

lemma np_put_nth:
  assumes "np_put xs is vs = Inr ys" "\<forall>i\<in>set is. 0 \<le> i \<and> i < int (length xs)" "distinct is"
    and "j < length is"
  shows "ys ! nat (is ! j) = vs ! j"
  using assms
proof (induction xs "is" vs arbitrary: j rule: np_put.induct)
  case (2 xs i "is" v vs)
  then have put: "np_put (xs[nat i := v]) is vs = Inr ys" and i: "0 \<le> i" "i < int (length xs)"
    by (auto simp: rbind_eq_Inr_iff)
  show ?case
  proof (cases j)
    case 0
    have "ys ! nat i = xs[nat i := v] ! nat i"
      by (rule np_put_frame [OF put]) (use 2 in auto)
    with 0 i show ?thesis by simp
  next
    case (Suc j')
    with 2 put i show ?thesis by simp
  qed
qed auto

text \<open>\<open>out[a : a + len(vals)] = vals\<close>: the slice is clipped to the array, and numpy then refuses a
  length that differs, except that a single value broadcasts to the empty slice.\<close>

definition np_set_slice :: "'a list \<Rightarrow> nat \<Rightarrow> 'a list \<Rightarrow> 'a list result" where
  "np_set_slice out a vals =
     (let k = length vals; m = min (a + k) (length out) - min a (length out) in
      if m = k then Inr (take a out @ vals @ drop (a + k) out)
      else if k = 1 then Inr out
      else Inl ValueError)"

lemma np_set_slice_fits:
  "a + length vals \<le> length out \<Longrightarrow>
     np_set_slice out a vals = Inr (take a out @ vals @ drop (a + length vals) out)"
  by (simp add: np_set_slice_def min_absorb1)

text \<open>\<open>np.arange(a, b)\<close>, \<open>np.unique\<close>, \<open>np.setdiff1d\<close>.\<close>

definition np_arange :: "int \<Rightarrow> int \<Rightarrow> int list" where
  "np_arange a b = map (\<lambda>k. a + int k) [0..<nat (b - a)]"

definition np_unique :: "int list \<Rightarrow> int list" where
  "np_unique xs = sort (remdups xs)"

definition np_setdiff1d :: "int list \<Rightarrow> int list \<Rightarrow> int list" where
  "np_setdiff1d xs ys = filter (\<lambda>x. x \<notin> set ys) (np_unique xs)"

lemma np_arange_simps [simp, np_simps]:
  "length (np_arange a b) = nat (b - a)"
  "distinct (np_arange a b)"
  by (auto simp: np_arange_def distinct_map inj_on_def)

lemma set_np_arange [simp, np_simps]: "set (np_arange a b) = {a..<b}"
proof -
  have "x \<in> (\<lambda>k. a + int k) ` {0..<nat (b - a)}" if "a \<le> x" "x < b" for x
    by (rule image_eqI [where x = "nat (x - a)"]) (use that in auto)
  then show ?thesis by (auto simp: np_arange_def)
qed

lemma nth_np_arange [simp]: "k < nat (b - a) \<Longrightarrow> np_arange a b ! k = a + int k"
  by (simp add: np_arange_def)

lemma np_arange_empty [simp]: "b \<le> a \<Longrightarrow> np_arange a b = []"
  by (simp add: np_arange_def)

text \<open>For evaluation on literals.\<close>

lemma np_arange_rec: "np_arange a b = (if a < b then a # np_arange (a + 1) b else [])"
proof (cases "a < b")
  case True
  then have "nat (b - a) = Suc (nat (b - (a + 1)))" by simp
  then have "[0..<nat (b - a)] = 0 # map Suc [0..<nat (b - (a + 1))]"
    by (simp only: upt_conv_Cons map_Suc_upt)
  with True show ?thesis by (simp add: np_arange_def comp_def add.assoc)
qed simp

lemma np_unique_simps [simp, np_simps]:
  "set (np_unique xs) = set xs" "distinct (np_unique xs)" "sorted (np_unique xs)"
  by (auto simp: np_unique_def)

lemma np_setdiff1d_simps [simp, np_simps]:
  "set (np_setdiff1d xs ys) = set xs - set ys" "distinct (np_setdiff1d xs ys)"
  by (auto simp: np_setdiff1d_def)

lemma np_setdiff1d_disjoint:
  assumes "distinct xs" "sorted xs" "set xs \<inter> set ys = {}"
  shows "np_setdiff1d xs ys = xs"
proof -
  have "np_unique xs = xs"
    using assms by (simp add: np_unique_def distinct_remdups_id sorted_sort_id)
  with assms(3) show ?thesis by (auto simp: np_setdiff1d_def filter_id_conv)
qed

lemma np_unique_eq_sort: "distinct ys \<Longrightarrow> set xs = set ys \<Longrightarrow> np_unique xs = sort ys"
  unfolding np_unique_def
  by (metis distinct_remdups_id sorted_list_of_set_sort_remdups)

section \<open>Ceiling division and page arithmetic\<close>

text \<open>\<open>(x + p - 1) // p\<close>, the page count of \<open>x\<close> tokens.\<close>

definition num_pages_of :: "int \<Rightarrow> int \<Rightarrow> int" where
  "num_pages_of p x = (x + p - 1) div p"

definition cdiv :: "int \<Rightarrow> int \<Rightarrow> int" where
  "cdiv a b = - (- a div b)"

lemma num_pages_of_bounds:
  assumes "0 < p"
  shows "x \<le> num_pages_of p x * p" "num_pages_of p x * p < x + p"
proof -
  have *: "num_pages_of p x * p = (x + p - 1) - (x + p - 1) mod p"
    by (simp add: num_pages_of_def minus_mod_eq_div_mult [symmetric])
  have "0 \<le> (x + p - 1) mod p" "(x + p - 1) mod p < p"
    using assms by auto
  with * show "x \<le> num_pages_of p x * p" "num_pages_of p x * p < x + p" by linarith+
qed

lemma num_pages_of_unique:
  assumes "0 < p" "x \<le> k * p" "k * p < x + p"
  shows "num_pages_of p x = k"
proof -
  let ?m = "num_pages_of p x"
  note b = num_pages_of_bounds [OF assms(1), of x]
  have "?m * p < (k + 1) * p" "k * p < (?m + 1) * p"
    using b assms by (simp_all add: distrib_right)
  then have "?m < k + 1" "k < ?m + 1"
    using assms(1) by (simp_all add: mult_less_cancel_right)
  then show ?thesis by simp
qed

lemma num_pages_of_mono: "0 < p \<Longrightarrow> x \<le> y \<Longrightarrow> num_pages_of p x \<le> num_pages_of p y"
  by (simp add: num_pages_of_def zdiv_mono1)

lemma num_pages_of_mult [simp]: "0 < p \<Longrightarrow> num_pages_of p (k * p) = k"
  by (rule num_pages_of_unique) auto

lemma cdiv_eq_num_pages_of: "0 < p \<Longrightarrow> cdiv x p = num_pages_of p x"
proof -
  assume p: "0 < p"
  have "cdiv x p * p = - (p * (- x div p))" by (simp add: cdiv_def mult.commute)
  with mult_div_mod_eq [of p "- x"] have "cdiv x p * p = x + - x mod p" by linarith
  moreover have "0 \<le> - x mod p" "- x mod p < p" using p by auto
  ultimately have "x \<le> cdiv x p * p" "cdiv x p * p < x + p" by linarith+
  from num_pages_of_unique [OF p this] show ?thesis by simp
qed

section \<open>Generic list lemmas\<close>

lemma replicate_numeral_unfold [simp]: "replicate (numeral k) x = x # replicate (pred_numeral k) x"
  by (simp add: numeral_eq_Suc)

lemma distinct_concat_append_iff:
  "distinct (xs @ concat (yss @ [ys])) \<longleftrightarrow>
     distinct (xs @ concat yss) \<and> distinct ys \<and> set ys \<inter> (set xs \<union> set (concat yss)) = {}"
  by auto

lemma length_eq_card_set: "distinct xs \<Longrightarrow> length xs = card (set xs)"
  by (simp add: distinct_card)

lemma sum_list_map_nth_update:
  fixes f :: "'a \<Rightarrow> nat"
  assumes "k < length xs"
  shows "sum_list (map f (xs[k := v])) + f (xs ! k) = sum_list (map f xs) + f v"
  using assms
proof (induction xs arbitrary: k)
  case (Cons x xs)
  then show ?case by (cases k) (auto simp: add.commute add.left_commute)
qed simp

text \<open>\<open>min(xs, key=f)\<close> returns the first element with the least key: the library's
  \<^term>\<open>arg_min_list\<close>.\<close>

lemma arg_min_list_least: "xs \<noteq> [] \<Longrightarrow> y \<in> set xs \<Longrightarrow> f (arg_min_list f xs) \<le> f y"
proof (induction f xs rule: arg_min_list.induct)
  case (2 f x y' zs)
  then show ?case by (auto simp: Let_def intro: order.trans)
qed auto

text \<open>Multiples of a page size are a page apart.\<close>

lemma dvd_less_add_le:
  fixes x y p :: nat
  assumes "p dvd x" "p dvd y" "x < y"
  shows "x + p \<le> y"
proof -
  obtain i j where ij: "x = p * i" "y = p * j" using assms by (metis dvdE)
  with assms(3) have "Suc i \<le> j" by auto
  then have "p * Suc i \<le> p * j" by (rule mult_le_mono2)
  with ij show ?thesis by simp
qed

end
