(* ===== verification/Kv_Interface.thy ===== *)
theory Kv_Interface
  imports Sgl_Prelude
begin

text \<open>
  The contract between the KV slot allocators (\<open>mem_cache/allocator.py\<close>) and their clients (the
  prefix caches and the scheduler): what \<open>alloc\<close> and \<open>free\<close> of one DP rank promise about the set of
  free token slots. The locale states it once over abstract operations; every allocator of the
  program that implements \<open>BaseTokenToKVPoolAllocator.alloc\<close>/\<open>free\<close> interprets it, and the
  conservation theorem of a client that holds several extents is proved here once.
\<close>

section \<open>A client of an allocator\<close>

text \<open>A client of one DP rank: it asks for extents and gives back extents it holds. \<open>live\<close> is the list
  of the extents it holds, in the order it got them.\<close>

datatype kv_op = Op_Alloc nat | Op_Free nat

fun kv_client_step ::
  "(nat \<Rightarrow> nat \<Rightarrow> 's \<Rightarrow> (int list option \<times> 's) result) \<Rightarrow> (int list \<Rightarrow> nat \<Rightarrow> 's \<Rightarrow> 's result) \<Rightarrow>
   nat \<Rightarrow> kv_op \<Rightarrow> 's \<times> int list list \<Rightarrow> ('s \<times> int list list) result" where
  "kv_client_step alloc free r (Op_Alloc n) (s, live) =
     rbind (alloc n r s) (\<lambda>(out, s'). Inr (s', case out of None \<Rightarrow> live | Some xs \<Rightarrow> live @ [xs]))"
| "kv_client_step alloc free r (Op_Free i) (s, live) =
     (if i < length live
      then rbind (free (live ! i) r s) (\<lambda>s'. Inr (s', take i live @ drop (Suc i) live))
      else Inr (s, live))"

fun op_ok :: "(nat \<Rightarrow> bool) \<Rightarrow> kv_op \<Rightarrow> bool" where
  "op_ok aligned (Op_Alloc n) = aligned n"
| "op_ok aligned (Op_Free i) = True"

lemma concat_remove_nth:
  assumes "i < length xss"
  shows "mset (concat (take i xss @ drop (Suc i) xss)) + mset (xss ! i) = mset (concat xss)"
proof -
  have "concat xss = concat (take i xss @ xss ! i # drop (Suc i) xss)"
    using assms by (simp add: id_take_nth_drop [symmetric])
  then show ?thesis by simp
qed

section \<open>The interface\<close>

text \<open>\<open>avail s r\<close> is the list of free token slots of rank \<open>r\<close>, \<open>ok s r\<close> the allocator's own
  well-formedness outside a free group, \<open>aligned\<close> the sizes it serves, \<open>whole s xs\<close> says that an
  extent is made of whole allocation units (any extent for the token allocator, whole pages for the
  paged one).\<close>

locale kv_pool =
  fixes alloc :: "nat \<Rightarrow> nat \<Rightarrow> 's \<Rightarrow> (int list option \<times> 's) result"
    and free :: "int list \<Rightarrow> nat \<Rightarrow> 's \<Rightarrow> 's result"
    and avail :: "'s \<Rightarrow> nat \<Rightarrow> int list"
    and ok :: "'s \<Rightarrow> nat \<Rightarrow> bool"
    and aligned :: "'s \<Rightarrow> nat \<Rightarrow> bool"
    and whole :: "'s \<Rightarrow> int list \<Rightarrow> bool"
    and slots :: "'s \<Rightarrow> nat \<Rightarrow> int set"
  assumes avail_distinct: "ok s r \<Longrightarrow> distinct (avail s r)"
    and avail_slots: "ok s r \<Longrightarrow> set (avail s r) \<subseteq> slots s r"
    and alloc_total: "ok s r \<Longrightarrow> aligned s n \<Longrightarrow> \<exists>out s'. alloc n r s = Inr (out, s')"
    and alloc_keeps: "ok s r \<Longrightarrow> aligned s n \<Longrightarrow> alloc n r s = Inr (out, s') \<Longrightarrow>
      ok s' r \<and> slots s' = slots s \<and> aligned s' = aligned s \<and> whole s' = whole s"
    and alloc_some: "ok s r \<Longrightarrow> aligned s n \<Longrightarrow> alloc n r s = Inr (Some xs, s') \<Longrightarrow>
      length xs = n \<and> whole s xs \<and> mset (avail s r) = mset (avail s' r) + mset xs"
    and alloc_none: "ok s r \<Longrightarrow> aligned s n \<Longrightarrow> alloc n r s = Inr (None, s') \<Longrightarrow>
      length (avail s r) < n \<and> mset (avail s' r) = mset (avail s r)"
    and free_law: "ok s r \<Longrightarrow> whole s xs \<Longrightarrow> distinct (avail s r @ xs) \<Longrightarrow> set xs \<subseteq> slots s r \<Longrightarrow>
      \<exists>s'. free xs r s = Inr s' \<and> ok s' r \<and> slots s' = slots s \<and> aligned s' = aligned s \<and>
        whole s' = whole s \<and> mset (avail s' r) = mset (avail s r) + mset xs"
begin

text \<open>An allocation succeeds exactly when enough slots are free.\<close>

lemma alloc_succeeds_iff:
  assumes "ok s r" "aligned s n"
  shows "(\<exists>xs s'. alloc n r s = Inr (Some xs, s')) \<longleftrightarrow> n \<le> length (avail s r)"
proof
  assume "\<exists>xs s'. alloc n r s = Inr (Some xs, s')"
  then obtain xs s' where "alloc n r s = Inr (Some xs, s')" by blast
  from alloc_some [OF assms this] show "n \<le> length (avail s r)"
    by (metis mset_append size_mset length_append add.commute le_add1)
next
  assume n: "n \<le> length (avail s r)"
  obtain out s' where o: "alloc n r s = Inr (out, s')" using alloc_total [OF assms] by blast
  with n alloc_none [OF assms] show "\<exists>xs s'. alloc n r s = Inr (Some xs, s')"
    by (cases out) auto
qed

text \<open>What a client and the pool hold together is what the pool held at the start. Every step keeps
  this ledger, and no step raises.\<close>

definition ledger :: "'s \<Rightarrow> nat \<Rightarrow> 's \<times> int list list \<Rightarrow> bool" where
  "ledger s0 r st \<longleftrightarrow> (case st of (s, live) \<Rightarrow>
     ok s r \<and> slots s = slots s0 \<and> aligned s = aligned s0 \<and> whole s = whole s0 \<and>
     (\<forall>xs\<in>set live. whole s0 xs) \<and> mset (avail s r) + mset (concat live) = mset (avail s0 r))"

lemma ledger_distinct:
  assumes "ok s0 r" "ledger s0 r (s, live)"
  shows "distinct (avail s r @ concat live)" "set (avail s r @ concat live) = set (avail s0 r)"
proof -
  from assms(2) have m: "mset (avail s r @ concat live) = mset (avail s0 r)"
    by (simp add: ledger_def)
  with avail_distinct [OF assms(1)] show "distinct (avail s r @ concat live)"
    by (metis mset_eq_imp_distinct_iff)
  from m show "set (avail s r @ concat live) = set (avail s0 r)" by (rule mset_eq_setD)
qed

lemma ledger_alloc:
  assumes l: "ledger s0 r (s, live)" and n: "aligned s0 n"
  shows "\<exists>st. kv_client_step alloc free r (Op_Alloc n) (s, live) = Inr st \<and> ledger s0 r st"
proof -
  from l have ok: "ok s r" and al: "aligned s n" using n by (auto simp: ledger_def)
  obtain out s' where a: "alloc n r s = Inr (out, s')" using alloc_total [OF ok al] by blast
  note k = alloc_keeps [OF ok al a]
  show ?thesis
  proof (cases out)
    case None
    with alloc_none [OF ok al] a k l show ?thesis by (auto simp: ledger_def)
  next
    case (Some xs)
    with alloc_some [OF ok al] a k l show ?thesis
      by (auto simp: ledger_def union_ac split: prod.splits)
  qed
qed

lemma ledger_free:
  assumes s0: "ok s0 r" and l: "ledger s0 r (s, live)"
  shows "\<exists>st. kv_client_step alloc free r (Op_Free i) (s, live) = Inr st \<and> ledger s0 r st"
proof (cases "i < length live")
  case True
  let ?rest = "take i live @ drop (Suc i) live"
  from True have x: "live ! i \<in> set live" by simp
  from l x have ok: "ok s r" and w: "whole s (live ! i)" and sl: "slots s = slots s0"
    by (auto simp: ledger_def)
  note d = ledger_distinct [OF s0 l]
  from d(1) x have dist: "distinct (avail s r @ live ! i)"
    by (auto simp: distinct_concat_iff)
  from d(2) x avail_slots [OF s0] have sub: "set (live ! i) \<subseteq> slots s r"
    unfolding sl by auto
  obtain s' where f: "free (live ! i) r s = Inr s'" and k: "ok s' r" "slots s' = slots s"
      "aligned s' = aligned s" "whole s' = whole s" "mset (avail s' r) = mset (avail s r) + mset (live ! i)"
    using free_law [OF ok w dist sub] by blast
  have "mset (avail s' r) + mset (concat ?rest) = mset (avail s r) + (mset (concat ?rest) + mset (live ! i))"
    unfolding k(5) by (simp only: add.assoc add.commute add.left_commute)
  also have "\<dots> = mset (avail s0 r)"
    unfolding concat_remove_nth [OF True] using l by (simp add: ledger_def)
  finally have "ledger s0 r (s', ?rest)"
    using l k by (auto simp: ledger_def dest: in_set_takeD in_set_dropD)
  with True f show ?thesis by simp
qed (use l in auto)

lemma client_conserves:
  assumes s0: "ok s0 r" and ops: "\<forall>op\<in>set ops. op_ok (aligned s0) op"
  shows "\<exists>s live. for_m (kv_client_step alloc free r) ops (s0, []) = Inr (s, live) \<and>
    ok s r \<and> distinct (avail s r @ concat live) \<and> set (avail s r @ concat live) = set (avail s0 r)"
proof -
  have "\<exists>st. for_m (kv_client_step alloc free r) ops st0 = Inr st \<and> ledger s0 r st"
    if "ledger s0 r st0" for st0
    using that ops
  proof (induction ops arbitrary: st0)
    case (Cons op ops)
    obtain s live where st0: "st0 = (s, live)" by force
    have "\<exists>st. kv_client_step alloc free r op st0 = Inr st \<and> ledger s0 r st"
      using Cons.prems st0 ledger_alloc ledger_free [OF s0] by (cases op) auto
    with Cons show ?case by auto
  qed auto
  moreover have "ledger s0 r (s0, [])" using s0 by (simp add: ledger_def)
  ultimately obtain s live where "for_m (kv_client_step alloc free r) ops (s0, []) = Inr (s, live)"
    and l: "ledger s0 r (s, live)" by fastforce
  with ledger_distinct [OF s0 l] show ?thesis
    by (intro exI [of _ s] exI [of _ live]) (auto simp: ledger_def)
qed

end

end
