(* ===== verification/Kv_Allocator.thy ===== *)
theory Kv_Allocator
  imports Kv_Interface
begin

text \<open>
  \<open>mem_cache/allocator.py\<close>: the base allocator record, the token-granular allocator
  (\<open>TokenToKVPoolAllocator\<close>) and the page-granular one (\<open>PagedTokenToKVPoolAllocator\<close>), with their
  free groups, their invariants, the reference definition of where an extended sequence's tokens go,
  and the interpretation of the allocator interface for both. Token slots and page numbers are
  unbounded integers (the arrays are int32 and the pool sizes bound every index, see
  \<open>paged_alloc_indices_bound\<close>).
\<close>

section \<open>The base class\<close>

record base_allocator =
  pool_size :: nat
  page_size :: nat
  dp_size :: nat
  size_per_rank :: nat
  is_not_in_free_group :: bool
  free_group :: "int list list list"

section \<open>TokenToKVPoolAllocator\<close>

record token_allocator = base_allocator +
  free_slots :: "int list list"
  origin_size :: nat

definition token_init :: "nat \<Rightarrow> nat \<Rightarrow> token_allocator result" where
  "token_init n_slots dp =
     (if dp = 0 then Inl ZeroDivisionError
      else let per_rank = n_slots div dp; slots = np_arange 1 (int per_rank + 1) in
        Inr \<lparr>pool_size = n_slots, page_size = 1, dp_size = dp, size_per_rank = per_rank,
             is_not_in_free_group = True, free_group = replicate dp [],
             free_slots = replicate dp slots, origin_size = length slots\<rparr>)"

definition token_alloc :: "nat \<Rightarrow> nat \<Rightarrow> token_allocator \<Rightarrow> (int list option \<times> token_allocator) result" where
  "token_alloc need_size dp_rank a =
     (if length (free_slots a) \<le> dp_rank then Inl IndexError
      else let slots = free_slots a ! dp_rank in
        if length slots < need_size then Inr (None, a)
        else Inr (Some (take need_size slots),
                  a\<lparr>free_slots := (free_slots a)[dp_rank := drop need_size slots]\<rparr>))"

definition token_free :: "int list \<Rightarrow> nat \<Rightarrow> token_allocator \<Rightarrow> token_allocator result" where
  "token_free free_index dp_rank a =
     (if free_index = [] then Inr a
      else if is_not_in_free_group a then
        (if length (free_slots a) \<le> dp_rank then Inl IndexError
         else Inr (a\<lparr>free_slots := (free_slots a)[dp_rank := free_slots a ! dp_rank @ free_index]\<rparr>))
      else if length (free_group a) \<le> dp_rank then Inl IndexError
      else Inr (a\<lparr>free_group := (free_group a)[dp_rank := free_group a ! dp_rank @ [free_index]]\<rparr>))"

definition token_available_size :: "nat \<Rightarrow> token_allocator \<Rightarrow> nat result" where
  "token_available_size dp_rank a =
     (if length (free_slots a) \<le> dp_rank then Inl IndexError
      else Inr (length (free_slots a ! dp_rank)))"

text \<open>\<open>clear(None)\<close> resets every rank, \<open>clear(r)\<close> one.\<close>

definition token_clear_rank :: "nat \<Rightarrow> token_allocator \<Rightarrow> token_allocator result" where
  "token_clear_rank rank a =
     (if length (free_slots a) \<le> rank \<or> length (free_group a) \<le> rank then Inl IndexError
      else Inr (a\<lparr>free_slots := (free_slots a)[rank := np_arange 1 (int (size_per_rank a) + 1)],
                  free_group := (free_group a)[rank := []]\<rparr>))"

definition token_clear :: "nat option \<Rightarrow> token_allocator \<Rightarrow> token_allocator result" where
  "token_clear dp_rank a =
     rbind (for_m token_clear_rank (case dp_rank of None \<Rightarrow> [0..<dp_size a] | Some r \<Rightarrow> [r]) a)
       (\<lambda>a. Inr (a\<lparr>is_not_in_free_group := True\<rparr>))"

definition token_free_group_begin :: "token_allocator \<Rightarrow> token_allocator" where
  "token_free_group_begin a = a\<lparr>is_not_in_free_group := False\<rparr>"

definition token_flush_rank :: "nat \<Rightarrow> token_allocator \<Rightarrow> token_allocator result" where
  "token_flush_rank rank a =
     (if length (free_group a) \<le> rank then Inl IndexError
      else if free_group a ! rank = [] then Inr a
      else if length (free_slots a) \<le> rank then Inl IndexError
      else Inr (a\<lparr>free_slots := (free_slots a)[rank := concat (free_slots a ! rank # free_group a ! rank)],
                  free_group := (free_group a)[rank := []]\<rparr>))"

definition token_free_group_end :: "token_allocator \<Rightarrow> token_allocator result" where
  "token_free_group_end a =
     for_m token_flush_rank [0..<dp_size a] (a\<lparr>is_not_in_free_group := True\<rparr>)"

text \<open>The base class's \<open>alloc_extend\<close> and \<open>alloc_decode\<close>, which this class inherits.\<close>

definition base_alloc_extend :: "'s \<Rightarrow> (int list option \<times> 's) result" where
  "base_alloc_extend a = Inl NotImplementedError"

definition base_alloc_decode :: "'s \<Rightarrow> (int list option \<times> 's) result" where
  "base_alloc_decode a = Inl NotImplementedError"

text \<open>A backup copies the free lists; \<open>release_pages\<close> of this class stays \<open>None\<close>.\<close>

definition token_backup_state :: "token_allocator \<Rightarrow> int list list" where
  "token_backup_state a = free_slots a"

definition token_restore_state :: "int list list \<Rightarrow> token_allocator \<Rightarrow> token_allocator" where
  "token_restore_state state a = a\<lparr>free_slots := state\<rparr>"

section \<open>PagedTokenToKVPoolAllocator\<close>

record paged_allocator = base_allocator +
  num_pages :: nat
  pages_per_rank :: nat
  debug_mode :: bool
  free_pages :: "int list list"
  release_pages :: "int list list"

definition paged_init :: "nat \<Rightarrow> nat \<Rightarrow> bool \<Rightarrow> nat \<Rightarrow> paged_allocator result" where
  "paged_init n_slots psize debug dp =
     (if dp = 0 \<or> psize = 0 then Inl ZeroDivisionError
      else let n = n_slots div psize; per_rank = n div dp in
        Inr \<lparr>pool_size = n_slots, page_size = psize, dp_size = dp, size_per_rank = n_slots div dp,
             is_not_in_free_group = True, free_group = replicate dp [],
             num_pages = n, pages_per_rank = per_rank, debug_mode = debug,
             free_pages = replicate dp (np_arange 1 (int per_rank + 1)),
             release_pages = replicate dp []\<rparr>)"

definition paged_available_size :: "nat \<Rightarrow> paged_allocator \<Rightarrow> nat result" where
  "paged_available_size dp_rank a =
     (if length (free_pages a) \<le> dp_rank \<or> length (release_pages a) \<le> dp_rank then Inl IndexError
      else Inr ((length (free_pages a ! dp_rank) + length (release_pages a ! dp_rank)) * page_size a))"

definition merge_and_sort_free :: "nat \<Rightarrow> paged_allocator \<Rightarrow> paged_allocator result" where
  "merge_and_sort_free dp_rank a =
     (if length (release_pages a) \<le> dp_rank then Inl IndexError
      else let released = release_pages a ! dp_rank in
        if released = [] then Inr a
        else if length (free_pages a) \<le> dp_rank then Inl IndexError
        else Inr (a\<lparr>free_pages := (free_pages a)[dp_rank := sort (free_pages a ! dp_rank @ released)],
                    release_pages := (release_pages a)[dp_rank := []]\<rparr>))"

text \<open>The first half of every allocation: merge the released pages only when the free list is short.\<close>

definition ensure_free_pages :: "int \<Rightarrow> nat \<Rightarrow> paged_allocator \<Rightarrow> paged_allocator result" where
  "ensure_free_pages n dp_rank a =
     (if length (free_pages a) \<le> dp_rank then Inl IndexError
      else if int (length (free_pages a ! dp_rank)) < n then merge_and_sort_free dp_rank a
      else Inr a)"

text \<open>The token slots of one page, \<open>page * page_size + arange(page_size)\<close>.\<close>

definition page_tokens :: "nat \<Rightarrow> int \<Rightarrow> int list" where
  "page_tokens psize page = np_arange (page * int psize) (page * int psize + int psize)"

definition paged_alloc :: "nat \<Rightarrow> nat \<Rightarrow> paged_allocator \<Rightarrow> (int list option \<times> paged_allocator) result" where
  "paged_alloc need_size dp_rank a =
     (if need_size mod page_size a \<noteq> 0 then Inl AssertionError
      else let n = need_size div page_size a in
        rbind (ensure_free_pages (int n) dp_rank a) (\<lambda>a.
          let pages = free_pages a ! dp_rank in
          if length pages < n then Inr (None, a)
          else Inr (Some (concat (map (page_tokens (page_size a)) (take n pages))),
                    a\<lparr>free_pages := (free_pages a)[dp_rank := drop n pages]\<rparr>)))"

text \<open>\<open>_alloc_extend_impl\<close>: the inner loop over complete pages, one sequence, the whole batch. The
  loop state is \<open>(out_indices, current_output_idx, page_idx)\<close>.\<close>

fun extend_complete_pages ::
  "nat \<Rightarrow> int list \<Rightarrow> nat \<Rightarrow> int list \<times> nat \<times> nat \<Rightarrow> (int list \<times> nat \<times> nat) result" where
  "extend_complete_pages psize pages 0 st = Inr st"
| "extend_complete_pages psize pages (Suc n) (out, cur, pidx) =
     rbind (np_get pages (int pidx)) (\<lambda>page.
       let page_start = page * int psize in
       rbind (np_set_slice out cur (np_arange page_start (page_start + int psize))) (\<lambda>out.
         extend_complete_pages psize pages n (out, cur + psize, Suc pidx)))"

definition extend_part1 :: "int \<Rightarrow> int \<Rightarrow> int list \<times> nat \<times> nat \<Rightarrow> (int list \<times> nat \<times> nat) result" where
  "extend_part1 last_loc part1_size st = (case st of (out, cur, pidx) \<Rightarrow>
     if 0 < part1_size then
       rbind (np_set_slice out cur (np_arange (last_loc + 1) (last_loc + 1 + part1_size)))
         (\<lambda>out. Inr (out, cur + nat part1_size, pidx))
     else Inr st)"

definition extend_part3 :: "nat \<Rightarrow> int list \<Rightarrow> int \<Rightarrow> int list \<times> nat \<times> nat \<Rightarrow> (int list \<times> nat \<times> nat) result" where
  "extend_part3 psize pages remaining st = (case st of (out, cur, pidx) \<Rightarrow>
     if 0 < remaining then
       rbind (np_get pages (int pidx)) (\<lambda>page.
         let page_start = page * int psize in
         rbind (np_set_slice out cur (np_arange page_start (page_start + remaining)))
           (\<lambda>out. Inr (out, cur + nat remaining, Suc pidx)))
     else Inr st)"

definition extend_seq ::
  "nat \<Rightarrow> int list \<Rightarrow> int \<times> int \<times> int \<Rightarrow> int list \<times> nat \<times> nat \<Rightarrow> (int list \<times> nat \<times> nat) result" where
  "extend_seq psize pages seq st = (case seq of (pre_len, last_loc, extend_len) \<Rightarrow>
     if extend_len = 0 then Inr st
     else
       let current_page_capacity = num_pages_of (int psize) pre_len * int psize;
           part1_size = min extend_len (current_page_capacity - pre_len);
           remaining = extend_len - part1_size;
           complete_pages = remaining div int psize;
           part2_size = complete_pages * int psize
       in rbind (extend_part1 last_loc part1_size st) (\<lambda>st.
            if remaining = 0 then Inr st
            else rbind (if 0 < part2_size then extend_complete_pages psize pages (nat complete_pages) st
                        else Inr st)
                   (extend_part3 psize pages (remaining - part2_size))))"

definition alloc_extend_impl ::
  "nat \<Rightarrow> int list \<Rightarrow> (int \<times> int \<times> int) list \<Rightarrow> nat \<Rightarrow> (int list \<times> nat) result" where
  "alloc_extend_impl psize pages seqs extend_num_tokens =
     rbind (for_m (extend_seq psize pages) seqs (replicate extend_num_tokens 0, 0, 0))
       (\<lambda>(out, cur, pidx). Inr (out, pidx))"

text \<open>\<open>alloc_extend\<close>. On an empty batch \<open>np.sum\<close> of the empty float array is \<open>0.0\<close>, which is not a
  slice bound; sequences and prefixes of different lengths do not subtract.\<close>

definition paged_alloc_extend ::
  "int list \<Rightarrow> int list \<Rightarrow> int list \<Rightarrow> nat \<Rightarrow> nat \<Rightarrow> paged_allocator \<Rightarrow> (int list option \<times> paged_allocator) result" where
  "paged_alloc_extend prefix_lens seq_lens last_loc extend_num_tokens dp_rank a =
     (let psize = int (page_size a);
          total_new_pages = sum_list (map2 (\<lambda>s p. num_pages_of psize s - num_pages_of psize p) seq_lens prefix_lens)
      in
      if length seq_lens \<noteq> length prefix_lens then Inl ValueError
      else if debug_mode a \<and> length last_loc \<noteq> length prefix_lens then Inl ValueError
      else if debug_mode a \<and> \<not> list_all2 (\<lambda>l p. (l + 1) mod psize = p mod psize) last_loc prefix_lens
        then Inl AssertionError
      else rbind (ensure_free_pages total_new_pages dp_rank a) (\<lambda>a.
        let pages = free_pages a ! dp_rank in
        if int (length pages) < total_new_pages then Inr (None, a)
        else if prefix_lens = [] then Inl TypeError
        else if length last_loc < length prefix_lens then Inl IndexError
        else rbind (alloc_extend_impl (page_size a) (py_slice pages 0 total_new_pages)
                     (zip prefix_lens (zip last_loc (map2 (-) seq_lens prefix_lens))) extend_num_tokens)
          (\<lambda>(out, pages_used).
             Inr (Some out, a\<lparr>free_pages := (free_pages a)[dp_rank := drop pages_used pages]\<rparr>))))"

text \<open>\<open>_alloc_decode_impl\<close> and \<open>alloc_decode\<close>: one token per sequence. \<open>last_loc\<close> is read only for the sequences that
  need no new page, so a shorter list raises only when one of those lies beyond its end.\<close>

fun alloc_decode_impl :: "nat \<Rightarrow> int list \<Rightarrow> (bool \<times> int) list \<Rightarrow> nat \<Rightarrow> (int list \<times> nat) result" where
  "alloc_decode_impl psize pages [] pidx = Inr ([], pidx)"
| "alloc_decode_impl psize pages ((needs_new, last_loc) # seqs) pidx =
     (if needs_new then
        rbind (np_get pages (int pidx)) (\<lambda>page.
          rbind (alloc_decode_impl psize pages seqs (Suc pidx)) (\<lambda>(out, n).
            Inr ((page * int psize) # out, n)))
      else rbind (alloc_decode_impl psize pages seqs pidx) (\<lambda>(out, n). Inr ((last_loc + 1) # out, n)))"

definition paged_alloc_decode ::
  "int list \<Rightarrow> int list \<Rightarrow> nat \<Rightarrow> paged_allocator \<Rightarrow> (int list option \<times> paged_allocator) result" where
  "paged_alloc_decode seq_lens last_loc dp_rank a =
     (let psize = int (page_size a);
          needs_new_page = map (\<lambda>s. num_pages_of psize (s - 1) < num_pages_of psize s) seq_lens;
          total_new_pages = length (filter id needs_new_page)
      in
      if debug_mode a \<and> length last_loc \<noteq> length seq_lens then Inl ValueError
      else if debug_mode a \<and> \<not> list_all2 (\<lambda>l s. (l + 2) mod psize = s mod psize) last_loc seq_lens
        then Inl AssertionError
      else rbind (ensure_free_pages (int total_new_pages) dp_rank a) (\<lambda>a.
        let pages = free_pages a ! dp_rank in
        if length pages < total_new_pages then Inr (None, a)
        else if \<not> list_all id (drop (length last_loc) needs_new_page) then Inl IndexError
        else rbind (alloc_decode_impl (page_size a) (take total_new_pages pages)
                     (zip needs_new_page (last_loc @ replicate (length seq_lens - length last_loc) 0)) 0)
          (\<lambda>(out, pages_used).
             Inr (Some out, a\<lparr>free_pages := (free_pages a)[dp_rank := drop pages_used pages]\<rparr>))))"

definition paged_release :: "int list \<Rightarrow> nat \<Rightarrow> paged_allocator \<Rightarrow> paged_allocator result" where
  "paged_release free_index dp_rank a =
     (if length (release_pages a) \<le> dp_rank \<or> length (free_pages a) \<le> dp_rank then Inl IndexError
      else let rel = release_pages a ! dp_rank;
               pages = np_unique (map (\<lambda>i. i div int (page_size a)) free_index);
               new_pages = np_setdiff1d (np_setdiff1d pages rel) (free_pages a ! dp_rank)
           in Inr (if new_pages = [] then a
                   else a\<lparr>release_pages := (release_pages a)[dp_rank := new_pages @ rel]\<rparr>))"

definition paged_free :: "int list \<Rightarrow> nat \<Rightarrow> paged_allocator \<Rightarrow> paged_allocator result" where
  "paged_free free_index dp_rank a =
     (if free_index = [] then Inr a
      else rbind (if is_not_in_free_group a then paged_release free_index dp_rank a
                  else if length (free_group a) \<le> dp_rank then Inl IndexError
                  else Inr (a\<lparr>free_group := (free_group a)[dp_rank := free_group a ! dp_rank @ [free_index]]\<rparr>))
        (\<lambda>a. if debug_mode a \<and> \<not> distinct (free_pages a ! dp_rank) then Inl AssertionError else Inr a))"

definition paged_free_group_begin :: "paged_allocator \<Rightarrow> paged_allocator" where
  "paged_free_group_begin a = a\<lparr>is_not_in_free_group := False\<rparr>"

definition paged_flush_rank :: "nat \<Rightarrow> paged_allocator \<Rightarrow> paged_allocator result" where
  "paged_flush_rank rank a =
     (if length (free_group a) \<le> rank then Inl IndexError
      else if free_group a ! rank = [] then Inr a
      else rbind (paged_free (concat (free_group a ! rank)) rank a)
        (\<lambda>a. Inr (a\<lparr>free_group := (free_group a)[rank := []]\<rparr>)))"

definition paged_free_group_end :: "paged_allocator \<Rightarrow> paged_allocator result" where
  "paged_free_group_end a =
     for_m paged_flush_rank [0..<dp_size a] (a\<lparr>is_not_in_free_group := True\<rparr>)"

definition paged_clear_rank :: "nat \<Rightarrow> paged_allocator \<Rightarrow> paged_allocator result" where
  "paged_clear_rank rank a =
     (if length (free_pages a) \<le> rank \<or> length (release_pages a) \<le> rank \<or> length (free_group a) \<le> rank
      then Inl IndexError
      else Inr (a\<lparr>free_pages := (free_pages a)[rank := np_arange 1 (int (pages_per_rank a) + 1)],
                  release_pages := (release_pages a)[rank := []],
                  free_group := (free_group a)[rank := []]\<rparr>))"

definition paged_clear :: "nat option \<Rightarrow> paged_allocator \<Rightarrow> paged_allocator result" where
  "paged_clear dp_rank a =
     rbind (for_m paged_clear_rank (case dp_rank of None \<Rightarrow> [0..<dp_size a] | Some r \<Rightarrow> [r]) a)
       (\<lambda>a. Inr (a\<lparr>is_not_in_free_group := True\<rparr>))"

definition paged_backup_state :: "paged_allocator \<Rightarrow> int list list \<times> int list list" where
  "paged_backup_state a = (free_pages a, release_pages a)"

definition paged_restore_state :: "int list list \<times> int list list \<Rightarrow> paged_allocator \<Rightarrow> paged_allocator" where
  "paged_restore_state state a = a\<lparr>free_pages := fst state, release_pages := snd state\<rparr>"

section \<open>Invariants\<close>

text \<open>The invariant is a predicate of one rank's lists, required of every rank: the free entries and
  the queued (or released) ones are distinct entries of the pool, and nothing is queued outside a
  free group.\<close>

definition rank_ok :: "nat \<Rightarrow> int list \<Rightarrow> int list \<Rightarrow> bool" where
  "rank_ok n free other \<longleftrightarrow> distinct (free @ other) \<and> set (free @ other) \<subseteq> {1..int n}"

definition token_inv :: "token_allocator \<Rightarrow> bool" where
  "token_inv a \<longleftrightarrow>
     length (free_slots a) = dp_size a \<and> length (free_group a) = dp_size a \<and>
     (\<forall>r<dp_size a. rank_ok (size_per_rank a) (free_slots a ! r) (concat (free_group a ! r))) \<and>
     (is_not_in_free_group a \<longrightarrow> (\<forall>r<dp_size a. free_group a ! r = []))"

definition paged_inv :: "paged_allocator \<Rightarrow> bool" where
  "paged_inv a \<longleftrightarrow>
     0 < page_size a \<and> length (free_pages a) = dp_size a \<and> length (release_pages a) = dp_size a \<and>
     length (free_group a) = dp_size a \<and>
     (\<forall>r<dp_size a. rank_ok (pages_per_rank a) (free_pages a ! r) (release_pages a ! r)) \<and>
     (is_not_in_free_group a \<longrightarrow> (\<forall>r<dp_size a. free_group a ! r = []))"

lemma rank_ok_arange [simp]: "rank_ok n (np_arange 1 (int n + 1)) []"
  by (auto simp: rank_ok_def)

lemma rank_ok_drop: "rank_ok n free other \<Longrightarrow> rank_ok n (drop k free) other"
  by (auto simp: rank_ok_def dest: in_set_dropD)

lemma rank_ok_mset:
  "mset free + mset other = mset free' + mset other' \<Longrightarrow> rank_ok n free other \<Longrightarrow> rank_ok n free' other'"
  unfolding rank_ok_def mset_append [symmetric]
  by (metis mset_eq_imp_distinct_iff mset_eq_setD)

lemma rank_ok_distinct: "rank_ok n free other \<Longrightarrow> distinct free \<and> distinct other"
  by (simp add: rank_ok_def)

lemma token_inv_init: "token_init n dp = Inr a \<Longrightarrow> token_inv a"
  by (auto simp: token_init_def token_inv_def Let_def split: if_splits)

lemma token_alloc_inv:
  "token_inv a \<Longrightarrow> token_alloc n r a = Inr (out, a') \<Longrightarrow> token_inv a'"
  by (auto simp: token_inv_def token_alloc_def Let_def nth_list_update rank_ok_drop split: if_splits)

text \<open>Freeing slots that are neither free nor already queued keeps the invariant, inside and outside
  a free group.\<close>

lemma token_free_inv:
  assumes "token_inv a" "r < dp_size a" "token_free xs r a = Inr a'"
    and "rank_ok (size_per_rank a) (free_slots a ! r) (concat (free_group a ! r) @ xs)"
  shows "token_inv a'"
proof (cases "is_not_in_free_group a")
  case True
  with assms have "rank_ok (size_per_rank a) (free_slots a ! r @ xs) []"
    by (auto simp: token_inv_def rank_ok_def)
  with True assms show ?thesis
    by (auto simp: token_inv_def token_free_def nth_list_update split: if_splits)
next
  case False
  with assms show ?thesis
    by (auto simp: token_inv_def token_free_def nth_list_update split: if_splits)
qed

lemma token_flush_rank_inv:
  assumes "token_inv (a\<lparr>is_not_in_free_group := False\<rparr>)" "token_flush_rank r a = Inr a'"
  shows "token_inv (a'\<lparr>is_not_in_free_group := False\<rparr>)"
proof -
  have "rank_ok n fs (concat gs) \<Longrightarrow> rank_ok n (fs @ concat gs) []" for n fs gs
    by (simp add: rank_ok_def)
  with assms show ?thesis
    by (auto simp: token_inv_def token_flush_rank_def nth_list_update split: if_splits)
qed

text \<open>Ending a free group: every rank's queue is appended to its free list and emptied.\<close>

definition flushed_slots :: "nat \<Rightarrow> token_allocator \<Rightarrow> int list list" where
  "flushed_slots k a = map (\<lambda>r. if r < k then free_slots a ! r @ concat (free_group a ! r) else free_slots a ! r)
     [0..<dp_size a]"

definition flushed_group :: "nat \<Rightarrow> token_allocator \<Rightarrow> int list list list" where
  "flushed_group k a = map (\<lambda>r. if r < k then [] else free_group a ! r) [0..<dp_size a]"

lemma token_flush_upto:
  assumes "length (free_slots a) = dp_size a" "length (free_group a) = dp_size a" "k \<le> dp_size a"
  shows "for_m token_flush_rank [0..<k] a =
    Inr (a\<lparr>free_slots := flushed_slots k a, free_group := flushed_group k a\<rparr>)"
  using assms(3)
proof (induction k)
  case 0
  have "flushed_slots 0 a = free_slots a" "flushed_group 0 a = free_group a"
    using assms by (auto simp: flushed_slots_def flushed_group_def intro: nth_equalityI)
  then show ?case by simp
next
  case (Suc k)
  let ?b = "a\<lparr>free_slots := flushed_slots k a, free_group := flushed_group k a\<rparr>"
  have *: "flushed_slots (Suc k) a = (flushed_slots k a)[k := free_slots a ! k @ concat (free_group a ! k)]"
    "flushed_group (Suc k) a = (flushed_group k a)[k := []]"
    using Suc.prems by (auto simp: flushed_slots_def flushed_group_def nth_list_update less_Suc_eq intro!: nth_equalityI)
  have nth: "flushed_slots k a ! k = free_slots a ! k" "flushed_group k a ! k = free_group a ! k"
    "k < length (flushed_slots k a)" "k < length (flushed_group k a)"
    using Suc.prems by (auto simp: flushed_slots_def flushed_group_def)
  have "token_flush_rank k ?b = Inr (a\<lparr>free_slots := flushed_slots (Suc k) a, free_group := flushed_group (Suc k) a\<rparr>)"
  proof (cases "free_group a ! k = []")
    case True
    then show ?thesis using nth * by (simp add: token_flush_rank_def) (metis list_update_id)
  next
    case False
    then show ?thesis using nth * by (simp add: token_flush_rank_def)
  qed
  with Suc show ?case by (simp add: for_m_append)
qed

lemma token_free_group_end_eq:
  assumes "token_inv a"
  shows "token_free_group_end a = Inr (a\<lparr>is_not_in_free_group := True,
    free_slots := map2 (\<lambda>fs g. fs @ concat g) (free_slots a) (free_group a),
    free_group := replicate (dp_size a) []\<rparr>)"
proof -
  have len: "length (free_slots a) = dp_size a" "length (free_group a) = dp_size a"
    using assms by (auto simp: token_inv_def)
  let ?b = "a\<lparr>is_not_in_free_group := True\<rparr>"
  have "flushed_slots (dp_size a) ?b = map2 (\<lambda>fs g. fs @ concat g) (free_slots a) (free_group a)"
    "flushed_group (dp_size a) ?b = replicate (dp_size a) []"
    using len by (auto simp: flushed_slots_def flushed_group_def intro!: nth_equalityI)
  with token_flush_upto [of ?b "dp_size a"] len show ?thesis
    by (simp add: token_free_group_end_def)
qed

lemma token_free_group_end_inv:
  assumes "token_inv a" "token_free_group_end a = Inr a'"
  shows "token_inv a'"
proof -
  have "rank_ok n fs (concat g) \<Longrightarrow> rank_ok n (fs @ concat g) []" for n fs g
    by (simp add: rank_ok_def)
  with assms show ?thesis
    by (auto simp: token_free_group_end_eq) (auto simp: token_inv_def)
qed

section \<open>The allocator interface\<close>

interpretation token: kv_pool token_alloc token_free "\<lambda>a r. free_slots a ! r"
  "\<lambda>a r. token_inv a \<and> r < dp_size a \<and> is_not_in_free_group a" "\<lambda>a n. True" "\<lambda>a xs. True"
  "\<lambda>a r. {1..int (size_per_rank a)}"
proof (unfold_locales, goal_cases)
  case (4 s r n out s')
  then show ?case
    by (auto intro: token_alloc_inv simp: token_alloc_def Let_def fun_eq_iff split: if_splits)
next
  case (5 s r n xs s')
  then have "mset (take n (free_slots s ! r)) + mset (drop n (free_slots s ! r)) = mset (free_slots s ! r)"
    by (metis append_take_drop_id mset_append)
  with 5 show ?case
    by (auto simp: token_alloc_def Let_def token_inv_def union_ac split: if_splits)
next
  case (7 s r xs)
  then have "\<exists>s'. token_free xs r s = Inr s'"
    by (auto simp: token_free_def token_inv_def)
  then obtain s' where s': "token_free xs r s = Inr s'" ..
  have "rank_ok (size_per_rank s) (free_slots s ! r) (concat (free_group s ! r) @ xs)"
    using 7 by (auto simp: token_inv_def rank_ok_def)
  with 7 s' token_free_inv [of s r xs s'] show ?case
    by (auto simp: token_free_def token_inv_def fun_eq_iff split: if_splits)
qed (auto simp: token_inv_def rank_ok_def token_alloc_def Let_def split: if_splits)

section \<open>The paged allocator: pages and tokens\<close>

lemma mset_concat_map_eq:
  assumes "mset xs = mset ys"
  shows "mset (concat (map f xs)) = mset (concat (map f ys))"
proof -
  have "mset (concat (map f zs)) = sum_mset (image_mset (\<lambda>z. mset (f z)) (mset zs))" for zs
    by (induction zs) auto
  with assms show ?thesis by simp
qed

lemma page_tokens_simps [simp]:
  "length (page_tokens p x) = p" "distinct (page_tokens p x)"
  by (auto simp: page_tokens_def)

lemma set_page_tokens: "0 < p \<Longrightarrow> set (page_tokens p x) = {i. i div int p = x}"
proof -
  assume p: "0 < p"
  have eq: "i div int p = x \<longleftrightarrow> x * int p \<le> i \<and> i < x * int p + int p" for i
  proof
    assume "i div int p = x"
    then have "x * int p + i mod int p = i" using div_mult_mod_eq [of i "int p"] by simp
    moreover have "0 \<le> i mod int p" "i mod int p < int p" using p by simp_all
    ultimately show "x * int p \<le> i \<and> i < x * int p + int p" by linarith
  next
    assume *: "x * int p \<le> i \<and> i < x * int p + int p"
    show "i div int p = x"
      by (rule int_div_pos_eq [where r = "i - x * int p"]) (use * in \<open>auto simp: mult.commute\<close>)
  qed
  show ?thesis unfolding page_tokens_def set_np_arange eq by auto
qed

lemma nth_page_tokens: "k < p \<Longrightarrow> page_tokens p x ! k = x * int p + int k"
  by (simp add: page_tokens_def)

lemma length_concat_page_tokens: "length (concat (map (page_tokens p) xs)) = length xs * p"
  by (induction xs) auto

lemma set_concat_page_tokens:
  "0 < p \<Longrightarrow> set (concat (map (page_tokens p) xs)) = {i. i div int p \<in> set xs}"
  by (auto simp: set_page_tokens)

lemma distinct_concat_page_tokens:
  "0 < p \<Longrightarrow> distinct (concat (map (page_tokens p) xs)) \<longleftrightarrow> distinct xs"
proof (induction xs)
  case (Cons x xs)
  have "{i. i div int p = x} \<inter> {i. i div int p \<in> set xs} = (if x \<in> set xs then {i. i div int p = x} else {})"
    by auto
  moreover have "x * int p \<in> {i. i div int p = x}" using Cons.prems by simp
  ultimately have "{i. i div int p = x} \<inter> {i. i div int p \<in> set xs} = {} \<longleftrightarrow> x \<notin> set xs"
    by (metis empty_iff)
  then have "set (page_tokens p x) \<inter> set (concat (map (page_tokens p) xs)) = {} \<longleftrightarrow> x \<notin> set xs"
    by (simp only: set_concat_page_tokens [OF Cons.prems] set_page_tokens [OF Cons.prems])
  with Cons show ?case by auto
qed auto

text \<open>The free token slots of a rank: the tokens of its free and released pages.\<close>

definition paged_avail :: "paged_allocator \<Rightarrow> nat \<Rightarrow> int list" where
  "paged_avail a r = concat (map (page_tokens (page_size a)) (free_pages a ! r @ release_pages a ! r))"

lemma paged_invD:
  assumes "paged_inv a" "r < dp_size a"
  shows "r < length (free_pages a)" "r < length (release_pages a)" "r < length (free_group a)"
    "rank_ok (pages_per_rank a) (free_pages a ! r) (release_pages a ! r)" "0 < page_size a"
  using assms by (auto simp: paged_inv_def)

lemma paged_inv_init: "paged_init n p d dp = Inr a \<Longrightarrow> paged_inv a"
  by (auto simp: paged_init_def paged_inv_def Let_def split: if_splits)

lemma length_paged_avail:
  "length (paged_avail a r) = (length (free_pages a ! r) + length (release_pages a ! r)) * page_size a"
  by (simp only: paged_avail_def length_concat_page_tokens length_append)

text \<open>Merging the released pages only reorders what is free.\<close>

lemma merge_and_sort_free_eq:
  assumes "r < length (free_pages a)" "r < length (release_pages a)"
  shows "\<exists>fs. merge_and_sort_free r a = Inr (a\<lparr>free_pages := (free_pages a)[r := fs],
      release_pages := (release_pages a)[r := []]\<rparr>) \<and> mset fs = mset (free_pages a ! r @ release_pages a ! r)"
proof (cases "release_pages a ! r = []")
  case True
  then have "(release_pages a)[r := []] = release_pages a" by (metis list_update_id)
  then have "merge_and_sort_free r a = Inr (a\<lparr>free_pages := (free_pages a)[r := free_pages a ! r],
      release_pages := (release_pages a)[r := []]\<rparr>)"
    using assms True by (simp add: merge_and_sort_free_def)
  with True show ?thesis by (intro exI [of _ "free_pages a ! r"]) simp
next
  case False
  with assms show ?thesis
    by (intro exI [of _ "sort (free_pages a ! r @ release_pages a ! r)"])
      (simp add: merge_and_sort_free_def Let_def)
qed

text \<open>After \<open>ensure_free_pages n\<close> either the free list is long enough, or it holds every page that was
  free or released.\<close>

lemma ensure_free_pages_spec:
  assumes "r < length (free_pages a)" "r < length (release_pages a)"
  shows "\<exists>fs rs. ensure_free_pages n r a = Inr (a\<lparr>free_pages := (free_pages a)[r := fs],
      release_pages := (release_pages a)[r := rs]\<rparr>) \<and>
      mset (fs @ rs) = mset (free_pages a ! r @ release_pages a ! r) \<and>
      (int (length fs) < n \<longrightarrow> rs = [])"
proof (cases "int (length (free_pages a ! r)) < n")
  case True
  with merge_and_sort_free_eq [OF assms] assms show ?thesis
    by (fastforce simp: ensure_free_pages_def)
next
  case False
  with assms show ?thesis
    by (intro exI [of _ "free_pages a ! r"] exI [of _ "release_pages a ! r"])
      (simp add: ensure_free_pages_def)
qed

lemma paged_inv_update:
  assumes "paged_inv a" "r < dp_size a" "rank_ok (pages_per_rank a) fs rs"
  shows "paged_inv (a\<lparr>free_pages := (free_pages a)[r := fs], release_pages := (release_pages a)[r := rs]\<rparr>)"
  using assms by (auto simp: paged_inv_def nth_list_update)

lemma paged_inv_update_free:
  assumes "paged_inv a" "r < dp_size a" "rank_ok (pages_per_rank a) fs (release_pages a ! r)"
  shows "paged_inv (a\<lparr>free_pages := (free_pages a)[r := fs]\<rparr>)"
  using assms by (auto simp: paged_inv_def nth_list_update)

text \<open>What an operation of rank \<open>r\<close> leaves alone.\<close>

definition paged_frame :: "nat \<Rightarrow> paged_allocator \<Rightarrow> paged_allocator \<Rightarrow> bool" where
  "paged_frame r a b \<longleftrightarrow> page_size b = page_size a \<and> dp_size b = dp_size a \<and>
     pages_per_rank b = pages_per_rank a \<and> is_not_in_free_group b = is_not_in_free_group a \<and>
     free_group b = free_group a \<and> debug_mode b = debug_mode a \<and>
     (\<forall>q. q \<noteq> r \<longrightarrow> free_pages b ! q = free_pages a ! q \<and> release_pages b ! q = release_pages a ! q)"

lemma paged_frameD:
  assumes "paged_frame r a b"
  shows "page_size b = page_size a" "dp_size b = dp_size a" "pages_per_rank b = pages_per_rank a"
    "is_not_in_free_group b = is_not_in_free_group a"
  using assms by (auto simp: paged_frame_def)

text \<open>The common shape of the three allocating operations.\<close>

lemma ensure_free_pages_inv:
  assumes "paged_inv a" "r < dp_size a"
  obtains b where "ensure_free_pages n r a = Inr b" "paged_inv b" "r < dp_size b"
    "paged_frame r a b"
    "mset (free_pages b ! r @ release_pages b ! r) = mset (free_pages a ! r @ release_pages a ! r)"
    "int (length (free_pages b ! r)) < n \<Longrightarrow> release_pages b ! r = []"
proof -
  note i = paged_invD [OF assms]
  obtain fs rs where e: "ensure_free_pages n r a = Inr (a\<lparr>free_pages := (free_pages a)[r := fs],
      release_pages := (release_pages a)[r := rs]\<rparr>)"
    and m: "mset (fs @ rs) = mset (free_pages a ! r @ release_pages a ! r)"
    and l: "int (length fs) < n \<longrightarrow> rs = []"
    using ensure_free_pages_spec [OF i(1,2)] by blast
  have "rank_ok (pages_per_rank a) fs rs"
    by (rule rank_ok_mset [OF _ i(4)]) (use m in simp)
  from paged_inv_update [OF assms this] show ?thesis
    by (rule that [OF e]) (use m l i assms in \<open>auto simp: paged_frame_def\<close>)
qed

section \<open>The paged allocator: alloc and free\<close>

text \<open>\<open>alloc\<close> hands out the tokens of the first pages of the free list.\<close>

lemma paged_alloc_cases:
  assumes "paged_inv a" "r < dp_size a" "n mod page_size a = 0"
  obtains (Short) b where "paged_alloc n r a = Inr (None, b)" "paged_inv b" "r < dp_size b"
      "paged_frame r a b"
      "mset (paged_avail b r) = mset (paged_avail a r)" "length (paged_avail a r) < n"
  | (Given) b pages where "paged_alloc n r a = Inr (Some (concat (map (page_tokens (page_size a)) pages)), b)"
      "paged_inv b" "r < dp_size b" "paged_frame r a b"
      "length pages * page_size a = n" "distinct pages"
      "mset pages + mset (free_pages b ! r @ release_pages b ! r) = mset (free_pages a ! r @ release_pages a ! r)"
proof -
  let ?k = "n div page_size a"
  note i = paged_invD [OF assms(1,2)]
  obtain b where e: "ensure_free_pages (int ?k) r a = Inr b" and b: "paged_inv b" "r < dp_size b"
    "paged_frame r a b"
    and m: "mset (free_pages b ! r @ release_pages b ! r) = mset (free_pages a ! r @ release_pages a ! r)"
    and l: "int (length (free_pages b ! r)) < int ?k \<Longrightarrow> release_pages b ! r = []"
    using ensure_free_pages_inv [OF assms(1,2)] by blast
  have k: "?k * page_size a = n" using assms(3) by auto
  note ps = paged_frameD [OF b(3)]
  show thesis
  proof (cases "length (free_pages b ! r) < ?k")
    case True
    with l have "length (free_pages a ! r) + length (release_pages a ! r) < ?k"
      using m by (metis length_append size_mset of_nat_less_iff add.right_neutral list.size(3))
    then have "(length (free_pages a ! r) + length (release_pages a ! r)) * page_size a < ?k * page_size a"
      using i(5) by simp
    then have "length (paged_avail a r) < n" by (simp only: length_paged_avail k)
    moreover have "mset (paged_avail b r) = mset (paged_avail a r)"
      unfolding paged_avail_def ps by (rule mset_concat_map_eq [OF m])
    ultimately show thesis
      using True e b assms(3) by (intro Short [of b]) (auto simp: paged_alloc_def Let_def)
  next
    case False
    let ?pages = "take ?k (free_pages b ! r)"
    let ?c = "b\<lparr>free_pages := (free_pages b)[r := drop ?k (free_pages b ! r)]\<rparr>"
    note ib = paged_invD [OF b(1,2)]
    have a: "paged_alloc n r a = Inr (Some (concat (map (page_tokens (page_size a)) ?pages)), ?c)"
      using False e assms(3) ps by (simp add: paged_alloc_def Let_def)
    have c: "paged_inv ?c"
      by (rule paged_inv_update_free [OF b(1,2) rank_ok_drop [OF ib(4)]])
    have "mset ?pages + mset (drop ?k (free_pages b ! r)) = mset (free_pages b ! r)"
      by (metis append_take_drop_id mset_append)
    then have "mset ?pages + mset (free_pages ?c ! r @ release_pages ?c ! r) = mset (free_pages a ! r @ release_pages a ! r)"
      using m ib(1) by (simp add: union_ac)
    moreover have "distinct ?pages" using ib(4) by (simp add: rank_ok_def)
    moreover have "paged_frame r a ?c" using b(3) by (auto simp: paged_frame_def)
    ultimately show thesis
      using a c b(2) False k by (intro Given [of ?pages ?c]) (auto simp: min_absorb2)
  qed
qed

lemma paged_free_whole:
  assumes "paged_inv a" "r < dp_size a" "is_not_in_free_group a"
    and xs: "xs = concat (map (page_tokens (page_size a)) pages)"
    and d: "distinct (free_pages a ! r @ release_pages a ! r @ pages)"
    and sub: "set pages \<subseteq> {1..int (pages_per_rank a)}"
  shows "\<exists>b. paged_free xs r a = Inr b \<and> paged_inv b \<and> paged_frame r a b \<and>
    mset (free_pages b ! r @ release_pages b ! r) = mset (free_pages a ! r @ release_pages a ! r) + mset pages"
proof (cases "pages = []")
  case True
  with assms(1) xs show ?thesis by (intro exI [of _ a]) (simp add: paged_free_def paged_frame_def)
next
  case False
  let ?new = "sort pages"
  note i = paged_invD [OF assms(1,2)]
  have ne: "xs \<noteq> []" using False i(5) unfolding xs by (cases pages) (auto simp: page_tokens_def np_arange_def)
  have "set (map (\<lambda>x. x div int (page_size a)) xs) = set pages"
  proof -
    have "(\<lambda>x. x div int (page_size a)) ` {x. x div int (page_size a) \<in> set pages} = set pages"
    proof (intro set_eqI iffI)
      fix q assume "q \<in> set pages"
      then show "q \<in> (\<lambda>x. x div int (page_size a)) ` {x. x div int (page_size a) \<in> set pages}"
        using i(5) by (intro image_eqI [of _ _ "q * int (page_size a)"]) auto
    qed auto
    then show ?thesis unfolding xs by (simp only: set_map set_concat_page_tokens [OF i(5)])
  qed
  then have u: "np_unique (map (\<lambda>x. x div int (page_size a)) xs) = ?new"
    using d by (intro np_unique_eq_sort) auto
  have "np_setdiff1d ?new (release_pages a ! r) = ?new" "np_setdiff1d ?new (free_pages a ! r) = ?new"
    by (rule np_setdiff1d_disjoint; use d in auto)+
  then have s: "np_setdiff1d (np_setdiff1d ?new (release_pages a ! r)) (free_pages a ! r) = ?new" by simp
  let ?b = "a\<lparr>release_pages := (release_pages a)[r := ?new @ release_pages a ! r]\<rparr>"
  have "rank_ok (pages_per_rank a) (free_pages a ! r) (?new @ release_pages a ! r)"
    using d sub i(4) by (auto simp: rank_ok_def)
  then have b: "paged_inv ?b"
    using assms(1,2) by (auto simp: paged_inv_def nth_list_update)
  have "?new \<noteq> []" using False by (metis set_sort set_empty)
  moreover have "distinct (free_pages a ! r)" using i(4) by (simp add: rank_ok_def)
  ultimately have "paged_free xs r a = Inr ?b"
    using ne u s i assms(3) by (simp add: paged_free_def paged_release_def Let_def)
  with b i show ?thesis by (intro exI [of _ ?b]) (simp add: union_ac paged_frame_def)
qed

text \<open>Extents made of whole pages.\<close>

definition whole_pages :: "paged_allocator \<Rightarrow> int list \<Rightarrow> bool" where
  "whole_pages a xs \<longleftrightarrow> (\<exists>pages. xs = concat (map (page_tokens (page_size a)) pages))"

interpretation paged: kv_pool paged_alloc paged_free paged_avail
  "\<lambda>a r. paged_inv a \<and> r < dp_size a \<and> is_not_in_free_group a" "\<lambda>a n. n mod page_size a = 0" whole_pages
  "\<lambda>a r. {i. 1 \<le> i div int (page_size a) \<and> i div int (page_size a) \<le> int (pages_per_rank a)}"
proof (unfold_locales, goal_cases)
  case (1 s r)
  then show ?case
    using paged_invD [of s r] by (simp only: paged_avail_def distinct_concat_page_tokens) (simp add: rank_ok_def)
next
  case (2 s r)
  then show ?case
    using paged_invD [of s r] by (simp only: paged_avail_def set_concat_page_tokens) (auto simp: rank_ok_def)
next
  case (3 s r n)
  then show ?case by (metis paged_alloc_cases)
next
  case (4 s r n out s')
  from 4(1,2) have pre: "paged_inv s" "r < dp_size s" "n mod page_size s = 0" by auto
  then have "paged_inv s' \<and> paged_frame r s s'"
    by (cases rule: paged_alloc_cases) (use 4(3) in auto)
  with 4(1) show ?case by (auto simp: paged_frame_def whole_pages_def fun_eq_iff)
next
  case (5 s r n xs s')
  from 5(1,2) have pre: "paged_inv s" "r < dp_size s" "n mod page_size s = 0" by auto
  from pre show ?case
  proof (cases rule: paged_alloc_cases)
    case (Given b pages)
    then have eq: "xs = concat (map (page_tokens (page_size s)) pages)" "s' = b" using 5(3) by auto
    have m: "mset (free_pages s ! r @ release_pages s ! r) = mset (pages @ free_pages b ! r @ release_pages b ! r)"
      using Given(7) by simp
    have "mset (paged_avail s r) = mset (paged_avail b r) + mset xs"
      unfolding eq paged_avail_def mset_concat_map_eq [OF m] paged_frameD(1) [OF Given(4)] by (simp add: union_ac)
    with Given eq show ?thesis by (auto simp: whole_pages_def length_concat_page_tokens simp del: length_concat)
  qed (use 5(3) in auto)
next
  case (6 s r n s')
  from 6(1,2) have pre: "paged_inv s" "r < dp_size s" "n mod page_size s = 0" by auto
  from pre show ?case by (cases rule: paged_alloc_cases) (use 6(3) in auto)
next
  case (7 s r xs)
  then obtain pages where xs: "xs = concat (map (page_tokens (page_size s)) pages)"
    by (auto simp: whole_pages_def)
  from 7(1) have i: "0 < page_size s" by (simp add: paged_inv_def)
  from 7(3) have "distinct (concat (map (page_tokens (page_size s)) (free_pages s ! r @ release_pages s ! r @ pages)))"
    by (simp add: paged_avail_def xs)
  then have d: "distinct (free_pages s ! r @ release_pages s ! r @ pages)"
    by (simp only: distinct_concat_page_tokens [OF i])
  have "{i. i div int (page_size s) \<in> set pages} \<subseteq>
      {i. 1 \<le> i div int (page_size s) \<and> i div int (page_size s) \<le> int (pages_per_rank s)}"
    using 7(4) unfolding xs set_concat_page_tokens [OF i] .
  then have "set pages \<subseteq> {1..int (pages_per_rank s)}"
    using i by (auto dest!: subsetD [where c = "q * int (page_size s)" for q])
  with paged_free_whole [OF _ _ _ xs d] 7(1) obtain b where b: "paged_free xs r s = Inr b" "paged_inv b"
    "paged_frame r s b"
    "mset (free_pages b ! r @ release_pages b ! r) = mset (free_pages s ! r @ release_pages s ! r) + mset pages"
    by blast
  from b(4) have m: "mset (free_pages b ! r @ release_pages b ! r) = mset (free_pages s ! r @ release_pages s ! r @ pages)"
    by simp
  note b' = paged_frameD [OF b(3)]
  have "mset (paged_avail b r) = mset (paged_avail s r) + mset xs"
    unfolding paged_avail_def xs b' mset_concat_map_eq [OF m] by simp
  with b b' 7(1) show ?case by (auto simp: whole_pages_def fun_eq_iff)
qed

section \<open>The paged allocator: where the tokens of an extended sequence go\<close>

text \<open>The reference definition. A sequence of \<open>pre_len\<close> tokens whose last token is at \<open>last_loc\<close> is
  extended by \<open>extend_len\<close> tokens: they fill the rest of its last page and then the given fresh pages
  one after the other. A batch takes the fresh pages in the order of its sequences.\<close>

definition seq_slots :: "nat \<Rightarrow> int list \<Rightarrow> int \<times> int \<times> int \<Rightarrow> int list" where
  "seq_slots p pages seq = (case seq of (pre_len, last_loc, extend_len) \<Rightarrow>
     take (nat extend_len)
       (np_arange (last_loc + 1) (last_loc + 1 + (num_pages_of (int p) pre_len * int p - pre_len)) @
        concat (map (page_tokens p) pages)))"

definition seq_pages :: "nat \<Rightarrow> int \<times> int \<times> int \<Rightarrow> nat" where
  "seq_pages p seq = (case seq of (pre_len, last_loc, extend_len) \<Rightarrow>
     nat (num_pages_of (int p) (pre_len + extend_len) - num_pages_of (int p) pre_len))"

fun batch_slots :: "nat \<Rightarrow> int list \<Rightarrow> (int \<times> int \<times> int) list \<Rightarrow> int list" where
  "batch_slots p pages [] = []"
| "batch_slots p pages (seq # seqs) = seq_slots p pages seq @ batch_slots p (drop (seq_pages p seq) pages) seqs"

definition seq_tokens :: "int \<times> int \<times> int \<Rightarrow> nat" where
  "seq_tokens seq = nat (snd (snd seq))"

text \<open>Writing \<open>vals\<close> at \<open>cur\<close>.\<close>

definition blit :: "'a list \<Rightarrow> nat \<Rightarrow> 'a list \<Rightarrow> 'a list" where
  "blit out cur vals = take cur out @ vals @ drop (cur + length vals) out"

lemma np_set_slice_blit: "cur + length vals \<le> length out \<Longrightarrow> np_set_slice out cur vals = Inr (blit out cur vals)"
  by (simp add: np_set_slice_fits blit_def)

lemma length_blit [simp]: "cur + length vals \<le> length out \<Longrightarrow> length (blit out cur vals) = length out"
  by (simp add: blit_def)

lemma blit_blit:
  "cur + length xs + length ys \<le> length out \<Longrightarrow>
     blit (blit out cur xs) (cur + length xs) ys = blit out cur (xs @ ys)"
  by (simp add: blit_def ac_simps)

lemma blit_Nil [simp]: "blit out cur [] = out"
  by (simp add: blit_def)

lemma extend_complete_pages_eq:
  assumes "cur + n * p \<le> length out" "pidx + n \<le> length pages"
  shows "extend_complete_pages p pages n (out, cur, pidx) =
    Inr (blit out cur (concat (map (page_tokens p) (take n (drop pidx pages)))), cur + n * p, pidx + n)"
  using assms
proof (induction n arbitrary: out cur pidx)
  case (Suc n)
  let ?t = "page_tokens p (pages ! pidx)"
  have g: "np_get pages (int pidx) = Inr (pages ! pidx)" using Suc.prems by simp
  have s: "np_set_slice out cur ?t = Inr (blit out cur ?t)"
    by (rule np_set_slice_blit) (use Suc.prems in simp)
  have rest: "take (Suc n) (drop pidx pages) = pages ! pidx # take n (drop (Suc pidx) pages)"
    using Suc.prems by (simp add: Cons_nth_drop_Suc [symmetric])
  have "length (concat (map (page_tokens p) (take n (drop (Suc pidx) pages)))) = n * p"
    unfolding length_concat_page_tokens using Suc.prems by simp
  then have "blit (blit out cur ?t) (cur + p) (concat (map (page_tokens p) (take n (drop (Suc pidx) pages))))
      = blit out cur (concat (map (page_tokens p) (take (Suc n) (drop pidx pages))))"
    unfolding rest using blit_blit [of cur ?t _ out] Suc.prems by simp
  with Suc.IH [of "cur + p" "blit out cur ?t" "Suc pidx"] Suc.prems g s show ?case
    by (simp add: page_tokens_def [symmetric] Let_def add.assoc)
qed simp

lemma take_concat_page_tokens:
  assumes "k \<le> length pages"
  shows "take (k * p) (concat (map (page_tokens p) pages)) = concat (map (page_tokens p) (take k pages))"
proof -
  have "concat (map (page_tokens p) pages) =
      concat (map (page_tokens p) (take k pages)) @ concat (map (page_tokens p) (drop k pages))"
    by (metis append_take_drop_id concat_append map_append)
  moreover have "length (concat (map (page_tokens p) (take k pages))) = k * p"
    unfolding length_concat_page_tokens using assms by simp
  ultimately show ?thesis by simp
qed

lemma take_concat_page_tokens_partial:
  assumes "k < length pages" "m \<le> p"
  shows "take (k * p + m) (concat (map (page_tokens p) pages)) =
    concat (map (page_tokens p) (take k pages)) @ take m (page_tokens p (pages ! k))"
proof -
  have "pages = take k pages @ pages ! k # drop (Suc k) pages"
    using assms by (simp add: id_take_nth_drop)
  then have "concat (map (page_tokens p) pages) =
      concat (map (page_tokens p) (take k pages)) @ page_tokens p (pages ! k) @ concat (map (page_tokens p) (drop (Suc k) pages))"
    by (metis concat_append map_append list.simps(9) concat.simps(2))
  moreover have "length (concat (map (page_tokens p) (take k pages))) = k * p"
    unfolding length_concat_page_tokens using assms by simp
  ultimately show ?thesis using assms by simp
qed

lemma take_page_tokens: "0 \<le> m \<Longrightarrow> m \<le> int p \<Longrightarrow>
  take (nat m) (page_tokens p x) = np_arange (x * int p) (x * int p + m)"
  by (rule nth_equalityI) (auto simp: page_tokens_def)

text \<open>How many pages a sequence takes, by the two cases of the loop body.\<close>

lemma seq_pages_within:
  assumes "0 < p" "0 \<le> ext" "ext \<le> num_pages_of (int p) pre * int p - pre"
  shows "seq_pages p (pre, loc, ext) = 0"
proof -
  have "num_pages_of (int p) (pre + ext) = num_pages_of (int p) pre"
    using assms num_pages_of_bounds [of "int p" pre] by (intro num_pages_of_unique) auto
  then show ?thesis by (simp add: seq_pages_def)
qed

lemma seq_pages_beyond:
  assumes "0 < p" "num_pages_of (int p) pre * int p - pre < ext"
    and rem: "rem = ext - (num_pages_of (int p) pre * int p - pre)"
  shows "seq_pages p (pre, loc, ext) = nat (rem div int p) + (if rem mod int p = 0 then 0 else 1)"
proof -
  define q m where "q = rem div int p" and "m = rem mod int p"
  let ?k = "q + (if m = 0 then 0 else 1)"
  have m: "0 \<le> m" "m < int p" and e: "rem = q * int p + m"
    using assms(1) by (auto simp: q_def m_def)
  have pre: "pre + ext = num_pages_of (int p) pre * int p + (q * int p + m)" using rem e by simp
  have "num_pages_of (int p) (pre + ext) = num_pages_of (int p) pre + ?k"
  proof (rule num_pages_of_unique)
    show "pre + ext \<le> (num_pages_of (int p) pre + ?k) * int p"
      unfolding pre using m by (auto simp: distrib_right)
    show "(num_pages_of (int p) pre + ?k) * int p < pre + ext + int p"
      unfolding pre using m by (auto simp: distrib_right)
  qed (use assms in simp)
  moreover have "0 \<le> q" unfolding q_def using assms by (simp add: pos_imp_zdiv_nonneg_iff)
  ultimately show ?thesis
    unfolding q_def [symmetric] m_def [symmetric] by (auto simp: seq_pages_def nat_add_distrib)
qed

text \<open>One sequence: the loop body writes exactly the reference slots.\<close>

lemma extend_seq_eq:
  assumes p: "0 < p" and ext: "0 \<le> ext" and out: "cur + nat ext \<le> length out"
    and pages: "pidx + seq_pages p (pre, loc, ext) \<le> length pages"
  shows "extend_seq p pages (pre, loc, ext) (out, cur, pidx) =
    Inr (blit out cur (seq_slots p (drop pidx pages) (pre, loc, ext)), cur + nat ext, pidx + seq_pages p (pre, loc, ext))"
proof -
  define c where "c = num_pages_of (int p) pre * int p - pre"
  have c: "0 \<le> c" "c < int p" using num_pages_of_bounds [of "int p" pre] p by (auto simp: c_def)
  let ?slots = "\<lambda>n. np_arange (loc + 1) (loc + 1 + n)"
  consider (zero) "ext = 0" | (within) "0 < ext" "ext \<le> c" | (beyond) "c < ext"
    using ext by linarith
  then show ?thesis
  proof cases
    case zero
    then have "seq_pages p (pre, loc, ext) = 0" by (simp add: seq_pages_def)
    with zero show ?thesis by (simp add: extend_seq_def seq_slots_def)
  next
    case within
    then have "seq_pages p (pre, loc, ext) = 0" using seq_pages_within p by (simp add: c_def)
    moreover have "seq_slots p (drop pidx pages) (pre, loc, ext) = ?slots ext"
    proof -
      have "take (nat ext) (?slots c) = ?slots ext" using within by (intro nth_equalityI) auto
      with within show ?thesis by (simp add: seq_slots_def c_def [symmetric])
    qed
    moreover have "extend_part1 loc ext (out, cur, pidx) = Inr (blit out cur (?slots ext), cur + nat ext, pidx)"
      using within out by (simp add: extend_part1_def np_set_slice_blit)
    ultimately show ?thesis
      using within by (simp add: extend_seq_def c_def [symmetric] Let_def)
  next
    case beyond
    define rem q m where "rem = ext - c" and "q = nat (rem div int p)" and "m = rem mod int p"
    have m: "0 \<le> m" "m < int p" and q: "int q = rem div int p" and e: "rem = int q * int p + m"
      using p beyond by (auto simp: q_def m_def rem_def pos_imp_zdiv_nonneg_iff)
    have sp: "seq_pages p (pre, loc, ext) = q + (if m = 0 then 0 else 1)"
      using seq_pages_beyond [of p pre ext rem] p beyond by (simp add: c_def rem_def q_def m_def)
    have ext_eq: "nat ext = nat c + (q * p + nat m)"
      using e c m by (simp add: rem_def nat_add_distrib flip: of_nat_mult)
    let ?P = "drop pidx pages"
    let ?full = "concat (map (page_tokens p) (take q ?P))"
    let ?part = "if m = 0 then [] else np_arange (?P ! q * int p) (?P ! q * int p + m)"
    have lfull: "length ?full = q * p"
      unfolding length_concat_page_tokens using pages sp by (simp add: min_absorb2)
    have "seq_slots p ?P (pre, loc, ext) = ?slots c @ take (q * p + nat m) (concat (map (page_tokens p) ?P))"
      using ext_eq c by (simp add: seq_slots_def c_def [symmetric])
    also have "take (q * p + nat m) (concat (map (page_tokens p) ?P)) = ?full @ ?part"
    proof (cases "m = 0")
      case True
      with pages sp show ?thesis by (simp add: take_concat_page_tokens)
    next
      case False
      then have "q < length ?P" using pages sp by simp
      from take_concat_page_tokens_partial [OF this, of "nat m" p] False m show ?thesis
        by (simp add: take_page_tokens)
    qed
    finally have slots: "seq_slots p ?P (pre, loc, ext) = ?slots c @ ?full @ ?part" .
    have part1: "extend_part1 loc c (out, cur, pidx) = Inr (blit out cur (?slots c), cur + nat c, pidx)"
      using c out ext_eq by (auto simp: extend_part1_def np_set_slice_blit)
    have part2: "(if 0 < rem div int p * int p then extend_complete_pages p pages (nat (rem div int p)) (blit out cur (?slots c), cur + nat c, pidx)
          else Inr (blit out cur (?slots c), cur + nat c, pidx)) =
        Inr (blit out cur (?slots c @ ?full), cur + nat c + q * p, pidx + q)"
    proof (cases "q = 0")
      case True
      with q show ?thesis by simp
    next
      case False
      then have "0 < rem div int p * int p" using q p by (metis of_nat_0_less_iff mult_pos_pos neq0_conv)
      moreover have "extend_complete_pages p pages q (blit out cur (?slots c), cur + nat c, pidx) =
          Inr (blit (blit out cur (?slots c)) (cur + nat c) ?full, cur + nat c + q * p, pidx + q)"
        by (rule extend_complete_pages_eq) (use out ext_eq c pages sp in auto)
      moreover have "blit (blit out cur (?slots c)) (cur + nat c) ?full = blit out cur (?slots c @ ?full)"
        using blit_blit [of cur "?slots c" ?full out] out ext_eq lfull c by simp
      ultimately show ?thesis using q by (simp add: q_def)
    qed
    have part3: "extend_part3 p pages m (blit out cur (?slots c @ ?full), cur + nat c + q * p, pidx + q) =
        Inr (blit out cur (?slots c @ ?full @ ?part), cur + nat ext, pidx + seq_pages p (pre, loc, ext))"
    proof (cases "m = 0")
      case True
      with ext_eq sp show ?thesis by (simp add: extend_part3_def)
    next
      case False
      let ?xs = "?slots c @ ?full"
      have lx: "length ?xs = nat c + q * p" using lfull by simp
      have get: "np_get pages (int pidx + int q) = Inr (?P ! q)"
        using np_get_in_range [of "int (pidx + q)" pages] pages sp False by (simp add: add.commute nth_drop nat_int_add)
      have fit: "cur + length ?xs + length ?part \<le> length out" using lx out ext_eq False m by simp
      have "np_set_slice (blit out cur ?xs) (cur + length ?xs) ?part = Inr (blit (blit out cur ?xs) (cur + length ?xs) ?part)"
        by (rule np_set_slice_blit) (use fit in simp)
      also have "\<dots> = Inr (blit out cur (?xs @ ?part))" using blit_blit [OF fit] by simp
      finally show ?thesis
        using get False m ext_eq sp lx by (simp add: extend_part3_def Let_def add.assoc)
    qed
    have "min ext c = c" "ext \<noteq> c" "ext \<noteq> 0" and m_eq: "rem - rem div int p * int p = m"
      using beyond c by (auto simp: rem_def m_def minus_div_mult_eq_mod)
    then have "extend_seq p pages (pre, loc, ext) (out, cur, pidx) =
        rbind (extend_part1 loc c (out, cur, pidx)) (\<lambda>st.
          rbind (if 0 < rem div int p * int p then extend_complete_pages p pages (nat (rem div int p)) st else Inr st)
            (extend_part3 p pages m))"
      by (simp add: extend_seq_def c_def [symmetric] rem_def [symmetric] Let_def cong: if_cong)
    then show ?thesis unfolding part1 slots rbind_Inr part2 part3 .
  qed
qed

lemma length_seq_slots:
  assumes "0 < p" "0 \<le> ext" "seq_pages p (pre, loc, ext) \<le> length pages"
  shows "length (seq_slots p pages (pre, loc, ext)) = nat ext"
proof -
  let ?c = "num_pages_of (int p) pre * int p - pre"
  have c: "0 \<le> ?c" using num_pages_of_bounds [of "int p" pre] assms by auto
  have "num_pages_of (int p) (pre + ext) - num_pages_of (int p) pre \<le> int (length pages)"
    using assms(3) by (simp add: seq_pages_def)
  then have "(num_pages_of (int p) (pre + ext) - num_pages_of (int p) pre) * int p \<le> int (length pages) * int p"
    by (rule mult_right_mono) simp
  moreover have "pre + ext \<le> num_pages_of (int p) (pre + ext) * int p"
    using num_pages_of_bounds [of "int p" "pre + ext"] assms by simp
  ultimately have "ext \<le> ?c + int (length pages * p)" by (simp add: left_diff_distrib)
  then have "nat ext \<le> nat ?c + length pages * p" using c by linarith
  then show ?thesis
    by (simp add: seq_slots_def min_absorb2 length_concat_page_tokens del: length_concat)
qed

lemma batch_eq:
  assumes p: "0 < p" and ext: "\<forall>s\<in>set seqs. 0 \<le> snd (snd s)"
    and "cur + sum_list (map seq_tokens seqs) \<le> length out"
    and "pidx + sum_list (map (seq_pages p) seqs) \<le> length pages"
  shows "for_m (extend_seq p pages) seqs (out, cur, pidx) =
    Inr (blit out cur (batch_slots p (drop pidx pages) seqs), cur + sum_list (map seq_tokens seqs),
         pidx + sum_list (map (seq_pages p) seqs)) \<and>
    length (batch_slots p (drop pidx pages) seqs) = sum_list (map seq_tokens seqs)"
  using assms(2-)
proof (induction seqs arbitrary: out cur pidx)
  case (Cons s seqs)
  obtain pre loc ext where s: "s = (pre, loc, ext)" by (cases s)
  let ?slots = "seq_slots p (drop pidx pages) s"
  have e: "0 \<le> ext" and t: "seq_tokens s = nat ext" using Cons.prems(1) s by (auto simp: seq_tokens_def)
  have len: "length ?slots = seq_tokens s"
    unfolding s t [unfolded s] by (rule length_seq_slots [OF p e]) (use Cons.prems(3) s in simp)
  have step: "extend_seq p pages s (out, cur, pidx) = Inr (blit out cur ?slots, cur + seq_tokens s, pidx + seq_pages p s)"
    unfolding t unfolding s by (rule extend_seq_eq [OF p e]) (use Cons.prems s t in auto)
  have IH: "for_m (extend_seq p pages) seqs (blit out cur ?slots, cur + seq_tokens s, pidx + seq_pages p s) =
      Inr (blit (blit out cur ?slots) (cur + seq_tokens s) (batch_slots p (drop (pidx + seq_pages p s) pages) seqs),
           cur + seq_tokens s + sum_list (map seq_tokens seqs), pidx + seq_pages p s + sum_list (map (seq_pages p) seqs)) \<and>
      length (batch_slots p (drop (pidx + seq_pages p s) pages) seqs) = sum_list (map seq_tokens seqs)"
    by (rule Cons.IH) (use Cons.prems len in auto)
  have "blit (blit out cur ?slots) (cur + seq_tokens s) (batch_slots p (drop (pidx + seq_pages p s) pages) seqs) =
      blit out cur (?slots @ batch_slots p (drop (pidx + seq_pages p s) pages) seqs)"
    using blit_blit [of cur ?slots _ out] len IH Cons.prems(2) by simp
  with IH step len show ?case by (simp add: add.assoc add.commute)
qed simp

lemma blit_whole: "length out = length vals \<Longrightarrow> blit out 0 vals = vals"
  by (simp add: blit_def)

text \<open>\<open>_alloc_extend_impl\<close> equals the reference definition whenever the caller's \<open>extend_num_tokens\<close>
  is the sum of the extension lengths and enough pages were cut off.\<close>

lemma alloc_extend_impl_eq:
  assumes "0 < p" "\<forall>s\<in>set seqs. 0 \<le> snd (snd s)" "n = sum_list (map seq_tokens seqs)"
    and "sum_list (map (seq_pages p) seqs) \<le> length pages"
  shows "alloc_extend_impl p pages seqs n = Inr (batch_slots p pages seqs, sum_list (map (seq_pages p) seqs))"
  using batch_eq [OF assms(1,2), of 0 "replicate n 0" 0 pages] assms(3,4)
  by (simp add: alloc_extend_impl_def blit_whole)

text \<open>The batch as \<open>alloc_extend\<close> zips it.\<close>

definition extend_batch :: "int list \<Rightarrow> int list \<Rightarrow> int list \<Rightarrow> (int \<times> int \<times> int) list" where
  "extend_batch prefix_lens seq_lens last_loc = zip prefix_lens (zip last_loc (map2 (-) seq_lens prefix_lens))"

lemma extend_batch_facts:
  assumes "0 < p" "list_all2 (\<le>) ps ss" "length ls = length ps"
  shows "\<forall>s\<in>set (extend_batch ps ss ls). 0 \<le> snd (snd s)"
    "sum_list (map2 (\<lambda>s q. num_pages_of (int p) s - num_pages_of (int p) q) ss ps) =
       int (sum_list (map (seq_pages p) (extend_batch ps ss ls)))"
    "int (sum_list (map seq_tokens (extend_batch ps ss ls))) = sum_list ss - sum_list ps"
proof -
  have len: "length ps = length ss" using assms(2) by (rule list_all2_lengthD)
  have *: "(\<forall>s\<in>set (extend_batch ps ss ls). 0 \<le> snd (snd s)) \<and>
    sum_list (map2 (\<lambda>s q. num_pages_of (int p) s - num_pages_of (int p) q) ss ps) =
       int (sum_list (map (seq_pages p) (extend_batch ps ss ls))) \<and>
    int (sum_list (map seq_tokens (extend_batch ps ss ls))) = sum_list ss - sum_list ps"
    using len len [symmetric, folded assms(3)] assms(2)
  proof (induction ps ss ls rule: list_induct3)
    case (Cons q ps s ss l ls)
    then have "num_pages_of (int p) q \<le> num_pages_of (int p) s"
      using assms(1) by (intro num_pages_of_mono) auto
    with Cons show ?case
      by (auto simp: extend_batch_def seq_pages_def seq_tokens_def)
  qed (auto simp: extend_batch_def)
  then show "\<forall>s\<in>set (extend_batch ps ss ls). 0 \<le> snd (snd s)"
    "sum_list (map2 (\<lambda>s q. num_pages_of (int p) s - num_pages_of (int p) q) ss ps) =
       int (sum_list (map (seq_pages p) (extend_batch ps ss ls)))"
    "int (sum_list (map seq_tokens (extend_batch ps ss ls))) = sum_list ss - sum_list ps"
    by blast+
qed

lemma paged_alloc_extend_cases:
  assumes inv: "paged_inv a" "r < dp_size a"
    and le: "list_all2 (\<le>) ps ss" and len: "length ls = length ps" and ne: "ps \<noteq> []"
    and n: "int n = sum_list ss - sum_list ps"
    and dbg: "debug_mode a \<Longrightarrow> list_all2 (\<lambda>l p. (l + 1) mod int (page_size a) = p mod int (page_size a)) ls ps"
  obtains (Short) b where "paged_alloc_extend ps ss ls n r a = Inr (None, b)" "paged_inv b" "paged_frame r a b"
      "mset (free_pages b ! r @ release_pages b ! r) = mset (free_pages a ! r @ release_pages a ! r)"
      "length (free_pages a ! r @ release_pages a ! r) < sum_list (map (seq_pages (page_size a)) (extend_batch ps ss ls))"
  | (Given) b pages where
      "paged_alloc_extend ps ss ls n r a = Inr (Some (batch_slots (page_size a) pages (extend_batch ps ss ls)), b)"
      "paged_inv b" "paged_frame r a b" "distinct pages"
      "length pages = sum_list (map (seq_pages (page_size a)) (extend_batch ps ss ls))"
      "mset pages + mset (free_pages b ! r @ release_pages b ! r) = mset (free_pages a ! r @ release_pages a ! r)"
proof -
  let ?batch = "extend_batch ps ss ls" and ?p = "page_size a"
  define k where "k = sum_list (map (seq_pages ?p) ?batch)"
  note i = paged_invD [OF inv]
  note f = extend_batch_facts [OF i(5) le len]
  have total: "sum_list (map2 (\<lambda>s q. num_pages_of (int ?p) s - num_pages_of (int ?p) q) ss ps) = int k"
    using f(2) by (simp add: k_def)
  have tokens: "n = sum_list (map seq_tokens ?batch)" using f(3) n by linarith
  have ll: "length ss = length ps" using le by (simp add: list_all2_lengthD)
  obtain b where e: "ensure_free_pages (int k) r a = Inr b" and b: "paged_inv b" "r < dp_size b" "paged_frame r a b"
    and m: "mset (free_pages b ! r @ release_pages b ! r) = mset (free_pages a ! r @ release_pages a ! r)"
    and l: "int (length (free_pages b ! r)) < int k \<Longrightarrow> release_pages b ! r = []"
    using ensure_free_pages_inv [OF inv] by blast
  note ib = paged_invD [OF b(1,2)]
  have run: "paged_alloc_extend ps ss ls n r a =
      (let pages = free_pages b ! r in
       if int (length pages) < int k then Inr (None, b)
       else rbind (alloc_extend_impl (page_size b) (py_slice pages 0 (int k)) ?batch n)
          (\<lambda>(out, used). Inr (Some out, b\<lparr>free_pages := (free_pages b)[r := drop used pages]\<rparr>)))"
  proof -
    have "\<not> (debug_mode a \<and> \<not> list_all2 (\<lambda>l p. (l + 1) mod int ?p = p mod int ?p) ls ps)"
      using dbg by blast
    with ll len ne e show ?thesis
      by (cases "debug_mode a") (simp_all add: paged_alloc_extend_def total Let_def extend_batch_def)
  qed
  show thesis
  proof (cases "length (free_pages b ! r) < k")
    case True
    then have "length (free_pages a ! r @ release_pages a ! r) < k"
      using l m by (metis append_Nil2 of_nat_less_iff size_mset)
    with True run b m show thesis by (intro Short [of b]) (auto simp: k_def)
  next
    case False
    let ?pages = "take k (free_pages b ! r)"
    let ?c = "b\<lparr>free_pages := (free_pages b)[r := drop k (free_pages b ! r)]\<rparr>"
    have ps: "page_size b = ?p" using paged_frameD [OF b(3)] by simp
    have "alloc_extend_impl ?p ?pages ?batch n = Inr (batch_slots ?p ?pages ?batch, k)"
      unfolding k_def by (rule alloc_extend_impl_eq [OF i(5) f(1) tokens]) (use False in \<open>simp add: k_def\<close>)
    then have "paged_alloc_extend ps ss ls n r a = Inr (Some (batch_slots ?p ?pages ?batch), ?c)"
      using False run ps by (simp add: py_slice_prefix Let_def)
    moreover have "paged_inv ?c" by (rule paged_inv_update_free [OF b(1,2) rank_ok_drop [OF ib(4)]])
    moreover have "paged_frame r a ?c" using b(3) by (auto simp: paged_frame_def)
    moreover have "mset ?pages + mset (free_pages ?c ! r @ release_pages ?c ! r) = mset (free_pages a ! r @ release_pages a ! r)"
    proof -
      have "mset ?pages + mset (drop k (free_pages b ! r)) = mset (free_pages b ! r)"
        by (metis append_take_drop_id mset_append)
      then show ?thesis using m ib(1) by (simp add: union_ac)
    qed
    moreover have "distinct ?pages" using ib(4) by (simp add: rank_ok_def)
    ultimately show thesis using False by (intro Given [of ?pages ?c]) (auto simp: k_def)
  qed
qed

text \<open>The pages a sequence writes to: the page its last token is in, when that page has room, and
  its share of the fresh pages.\<close>

definition seq_tail :: "nat \<Rightarrow> int \<times> int \<times> int \<Rightarrow> int set" where
  "seq_tail p seq = (case seq of (pre_len, last_loc, extend_len) \<Rightarrow>
     if pre_len mod int p = 0 then {} else {last_loc div int p})"

definition seq_aligned :: "nat \<Rightarrow> int \<times> int \<times> int \<Rightarrow> bool" where
  "seq_aligned p seq = (case seq of (pre_len, last_loc, extend_len) \<Rightarrow>
     0 \<le> extend_len \<and> (last_loc + 1) mod int p = pre_len mod int p)"

lemma tail_room: "0 < p \<Longrightarrow> num_pages_of (int p) pre * int p - pre = (if pre mod int p = 0 then 0 else int p - pre mod int p)"
proof -
  assume p: "0 < p"
  have "num_pages_of (int p) pre = pre div int p + (if pre mod int p = 0 then 0 else 1)"
  proof (rule num_pages_of_unique)
    define q m where "q = pre div int p" and "m = pre mod int p"
    have e: "pre = q * int p + m" "0 \<le> m" "m < int p" using p by (auto simp: q_def m_def)
    show "pre \<le> (pre div int p + (if pre mod int p = 0 then 0 else 1)) * int p"
      "(pre div int p + (if pre mod int p = 0 then 0 else 1)) * int p < pre + int p"
      unfolding q_def [symmetric] m_def [symmetric] using e by (auto simp: distrib_right)
  qed (use p in simp)
  then show ?thesis by (simp add: distrib_right minus_div_mult_eq_mod [symmetric])
qed

lemma tail_page:
  assumes p: "0 < p" and al: "(loc + 1) mod int p = pre mod int p"
    and x: "loc + 1 \<le> x" "x < loc + 1 + (num_pages_of (int p) pre * int p - pre)"
  shows "pre mod int p \<noteq> 0" "x div int p = loc div int p" "x mod int p = (pre + (x - (loc + 1))) mod int p"
proof -
  show nz: "pre mod int p \<noteq> 0" using x tail_room [OF p, of pre] by (auto split: if_splits)
  define m where "m = pre mod int p"
  have m: "0 < m" "m < int p" "x < loc + 1 + (int p - m)"
  proof -
    have "0 \<le> m" "m < int p" "m \<noteq> 0" using p nz by (simp_all add: m_def)
    moreover have "num_pages_of (int p) pre * int p - pre = int p - m"
      using nz tail_room [OF p, of pre] by (simp add: m_def)
    ultimately show "0 < m" "m < int p" "x < loc + 1 + (int p - m)" using x(2) by linarith+
  qed
  define q where "q = (loc + 1) div int p"
  have l: "loc + 1 = int p * q + m"
    using al mult_div_mod_eq [of "int p" "loc + 1"] unfolding m_def q_def by linarith
  have "loc div int p = q" by (rule int_div_pos_eq [of _ _ _ "m - 1"]) (use l m in auto)
  moreover have "x div int p = q" by (rule int_div_pos_eq [of _ _ _ "x - int p * q"]) (use l m x in auto)
  ultimately show "x div int p = loc div int p" by simp
  have "(pre + (x - (loc + 1))) mod int p = (pre mod int p + (x - (loc + 1))) mod int p" by presburger
  also have "\<dots> = ((loc + 1) mod int p + (x - (loc + 1))) mod int p" using al by simp
  also have "\<dots> = x mod int p" by (simp add: mod_add_left_eq)
  finally show "x mod int p = (pre + (x - (loc + 1))) mod int p" by simp
qed

text \<open>A sequence's slots are distinct, lie in its tail page or in its share of the fresh pages, and
  slot \<open>k\<close> sits at the page offset of token \<open>pre_len + k\<close>.\<close>

lemma seq_slots_pages:
  assumes p: "0 < p" and al: "seq_aligned p seq" and len: "seq_pages p seq \<le> length pages"
    and x: "x \<in> set (seq_slots p pages seq)"
  shows "x div int p \<in> seq_tail p seq \<union> set (take (seq_pages p seq) pages)"
proof -
  obtain pre loc ext where seq: "seq = (pre, loc, ext)" by (cases seq)
  let ?c = "num_pages_of (int p) pre * int p - pre" and ?k = "seq_pages p seq"
  let ?tail = "np_arange (loc + 1) (loc + 1 + ?c)"
  have e: "0 \<le> ext" "(loc + 1) mod int p = pre mod int p" using al seq by (auto simp: seq_aligned_def)
  have split: "concat (map (page_tokens p) pages) =
      concat (map (page_tokens p) (take ?k pages)) @ concat (map (page_tokens p) (drop ?k pages))"
    by (metis append_take_drop_id concat_append map_append)
  have c0: "0 \<le> ?c" using num_pages_of_bounds [of "int p" pre] p by simp
  have "pre + ext \<le> num_pages_of (int p) (pre + ext) * int p"
    using num_pages_of_bounds [of "int p"] p by simp
  moreover have "num_pages_of (int p) pre \<le> num_pages_of (int p) (pre + ext)"
    using num_pages_of_mono p e by simp
  ultimately have "ext - ?c \<le> int ?k * int p" by (simp add: seq seq_pages_def left_diff_distrib)
  then have "nat ext - nat ?c \<le> ?k * p" using c0 by (simp flip: of_nat_mult)
  moreover have "length (concat (map (page_tokens p) (take ?k pages))) = ?k * p"
    unfolding length_concat_page_tokens using len by simp
  ultimately have "set (take (nat ext) (?tail @ concat (map (page_tokens p) pages))) \<subseteq>
      set ?tail \<union> set (concat (map (page_tokens p) (take ?k pages)))"
    unfolding split by (auto dest: in_set_takeD simp del: set_concat length_concat)
  with x have "x \<in> set ?tail \<or> x \<in> set (concat (map (page_tokens p) (take ?k pages)))"
    by (auto simp: seq_slots_def seq simp del: set_concat)
  then show ?thesis
  proof
    assume "x \<in> set ?tail"
    with tail_page [OF p e(2), of x] show ?thesis by (simp add: seq_tail_def seq)
  next
    assume "x \<in> set (concat (map (page_tokens p) (take ?k pages)))"
    then show ?thesis unfolding set_concat_page_tokens [OF p] by simp
  qed
qed

lemma distinct_seq_slots:
  assumes p: "0 < p" and al: "seq_aligned p seq" and d: "distinct pages" "seq_tail p seq \<inter> set pages = {}"
  shows "distinct (seq_slots p pages seq)"
proof -
  obtain pre loc ext where seq: "seq = (pre, loc, ext)" by (cases seq)
  let ?tail = "np_arange (loc + 1) (loc + 1 + (num_pages_of (int p) pre * int p - pre))"
  have e: "(loc + 1) mod int p = pre mod int p" using al seq by (auto simp: seq_aligned_def)
  have "x div int p \<in> seq_tail p seq" if "x \<in> set ?tail" for x
    using that tail_page [OF p e, of x] by (simp add: seq_tail_def seq)
  with d have "distinct (?tail @ concat (map (page_tokens p) pages))"
    unfolding distinct_append distinct_concat_page_tokens [OF p] set_concat_page_tokens [OF p] by fastforce
  then show ?thesis by (simp only: seq_slots_def seq prod.case distinct_take)
qed

lemma seq_slots_offset:
  assumes p: "0 < p" and al: "seq_aligned p (pre, loc, ext)" and k: "k < length (seq_slots p pages (pre, loc, ext))"
  shows "seq_slots p pages (pre, loc, ext) ! k mod int p = (pre + int k) mod int p"
proof -
  let ?c = "num_pages_of (int p) pre * int p - pre"
  let ?tail = "np_arange (loc + 1) (loc + 1 + ?c)"
  let ?rest = "concat (map (page_tokens p) pages)"
  have e: "(loc + 1) mod int p = pre mod int p" using al by (auto simp: seq_aligned_def)
  have c0: "0 \<le> ?c" using num_pages_of_bounds [of "int p" pre] p by simp
  have nth: "seq_slots p pages (pre, loc, ext) ! k = (?tail @ ?rest) ! k"
    using k by (simp only: seq_slots_def prod.case length_take min_less_iff_conj nth_take)
  show ?thesis
  proof (cases "k < nat ?c")
    case True
    then have "seq_slots p pages (pre, loc, ext) ! k = loc + 1 + int k" by (simp add: nth nth_append)
    with True tail_page(3) [OF p e, of "loc + 1 + int k"] show ?thesis by simp
  next
    case False
    have rest: "j < length (concat (map (page_tokens p) qs)) \<Longrightarrow>
        concat (map (page_tokens p) qs) ! j mod int p = int j mod int p" for j qs
    proof (induction qs arbitrary: j)
      case (Cons q qs)
      show ?case
      proof (cases "j < p")
        case True
        then show ?thesis by (simp add: nth_append nth_page_tokens)
      next
        case False
        with Cons.IH [of "j - p"] Cons.prems have "concat (map (page_tokens p) (q # qs)) ! j mod int p = int (j - p) mod int p"
          by (simp add: nth_append)
        with False show ?thesis by (simp add: of_nat_diff mod_diff_eq [symmetric])
      qed
    qed simp
    have "k - nat ?c < length ?rest"
      using False k unfolding seq_slots_def prod.case length_take length_append by (simp add: min_def split: if_splits)
    from rest [OF this] False have "seq_slots p pages (pre, loc, ext) ! k mod int p = int (k - nat ?c) mod int p"
      by (simp add: nth nth_append del: length_concat)
    also have "\<dots> = (int k - ?c) mod int p" using False c0 by (simp add: of_nat_diff)
    also have "int k - ?c = pre + int k + int p * (- num_pages_of (int p) pre)" by (simp add: mult.commute)
    finally show ?thesis by (simp only: mod_mult_self2)
  qed
qed

text \<open>No slot is handed out twice: across the batch the slots are distinct when the sequences append
  to different pages, none of them among the fresh ones.\<close>

fun tails_ok :: "nat \<Rightarrow> int set \<Rightarrow> (int \<times> int \<times> int) list \<Rightarrow> bool" where
  "tails_ok p used [] = True"
| "tails_ok p used (s # seqs) = (seq_aligned p s \<and> seq_tail p s \<inter> used = {} \<and> tails_ok p (used \<union> seq_tail p s) seqs)"

lemma batch_slots_pages:
  assumes "0 < p" "tails_ok p U seqs" "sum_list (map (seq_pages p) seqs) \<le> length pages"
    and "x \<in> set (batch_slots p pages seqs)"
  shows "x div int p \<in> \<Union> (seq_tail p ` set seqs) \<union> set pages"
  using assms(2-)
proof (induction seqs arbitrary: U pages)
  case (Cons s seqs)
  show ?case
  proof (cases "x \<in> set (seq_slots p pages s)")
    case True
    with seq_slots_pages [OF assms(1), of s pages x] Cons.prems show ?thesis
      by (auto dest: in_set_takeD)
  next
    case False
    have "x div int p \<in> \<Union> (seq_tail p ` set seqs) \<union> set (drop (seq_pages p s) pages)"
      by (rule Cons.IH [of "U \<union> seq_tail p s"]) (use False Cons.prems in auto)
    then show ?thesis by (auto dest: in_set_dropD)
  qed
qed simp

lemma tails_ok_disjoint: "tails_ok p U seqs \<Longrightarrow> \<Union> (seq_tail p ` set seqs) \<inter> U = {}"
  by (induction seqs arbitrary: U) auto

lemma distinct_batch_slots:
  assumes "0 < p" "tails_ok p U seqs" "set pages \<subseteq> U" "distinct pages"
    and "sum_list (map (seq_pages p) seqs) \<le> length pages"
  shows "distinct (batch_slots p pages seqs)"
  using assms(2-)
proof (induction seqs arbitrary: U pages)
  case (Cons s seqs)
  let ?k = "seq_pages p s" and ?U = "U \<union> seq_tail p s"
  have al: "seq_aligned p s" and t: "seq_tail p s \<inter> U = {}" and rest: "tails_ok p ?U seqs"
    using Cons.prems by auto
  have d: "distinct (seq_slots p pages s)"
    by (rule distinct_seq_slots [OF assms(1) al]) (use Cons.prems t in auto)
  have IH: "distinct (batch_slots p (drop ?k pages) seqs)"
    by (rule Cons.IH [OF rest]) (use Cons.prems in \<open>auto dest: in_set_dropD\<close>)
  have "x \<notin> set (batch_slots p (drop ?k pages) seqs)" if x: "x \<in> set (seq_slots p pages s)" for x
  proof
    assume y: "x \<in> set (batch_slots p (drop ?k pages) seqs)"
    have "x div int p \<in> \<Union> (seq_tail p ` set seqs) \<union> set (drop ?k pages)"
      by (rule batch_slots_pages [OF assms(1) rest _ y]) (use Cons.prems in simp)
    moreover have "x div int p \<in> seq_tail p s \<union> set (take ?k pages)"
      by (rule seq_slots_pages [OF assms(1) al _ x]) (use Cons.prems in simp)
    moreover have "set (take ?k pages) \<inter> set (drop ?k pages) = {}"
      using Cons.prems(3) by (simp add: set_take_disj_set_drop_if_distinct)
    moreover have "\<Union> (seq_tail p ` set seqs) \<inter> ?U = {}" by (rule tails_ok_disjoint [OF rest])
    moreover have "set (take ?k pages) \<subseteq> U" "set (drop ?k pages) \<subseteq> U"
      using Cons.prems(2) by (auto dest: in_set_takeD in_set_dropD)
    ultimately show False using t by blast
  qed
  with d IH show ?case by auto
qed simp

section \<open>The paged allocator: decode is an extension by one token\<close>

lemma pages_step:
  assumes "0 < p"
  shows "num_pages_of (int p) s - num_pages_of (int p) (s - 1) =
    (if num_pages_of (int p) (s - 1) < num_pages_of (int p) s then 1 else 0)"
proof -
  have "num_pages_of (int p) s * int p < s + int p" "s - 1 \<le> num_pages_of (int p) (s - 1) * int p"
    using num_pages_of_bounds [of "int p"] assms by (auto simp: num_pages_of_bounds)
  then have "num_pages_of (int p) s * int p < (num_pages_of (int p) (s - 1) + 2) * int p"
    using assms by (simp add: distrib_right)
  then have "num_pages_of (int p) s < num_pages_of (int p) (s - 1) + 2"
    by (simp add: mult_less_cancel_right)
  moreover have "num_pages_of (int p) (s - 1) \<le> num_pages_of (int p) s"
    using assms by (intro num_pages_of_mono) auto
  ultimately show ?thesis by simp
qed

lemma take_one: "xs \<noteq> [] \<Longrightarrow> take (Suc 0) xs = [xs ! 0]"
  by (cases xs) auto

lemma decode_slots:
  assumes p: "0 < p"
  shows "num_pages_of (int p) (s - 1) < num_pages_of (int p) s \<Longrightarrow> pages \<noteq> [] \<Longrightarrow>
      seq_slots p pages (s - 1, loc, 1) = [pages ! 0 * int p]"
    and "\<not> num_pages_of (int p) (s - 1) < num_pages_of (int p) s \<Longrightarrow> seq_slots p pages (s - 1, loc, 1) = [loc + 1]"
    and "seq_pages p (s - 1, loc, 1) = (if num_pages_of (int p) (s - 1) < num_pages_of (int p) s then 1 else 0)"
proof -
  let ?c = "num_pages_of (int p) (s - 1) * int p - (s - 1)"
  have c: "0 \<le> ?c" "?c < int p" using num_pages_of_bounds [of "int p" "s - 1"] p by auto
  show sp: "seq_pages p (s - 1, loc, 1) = (if num_pages_of (int p) (s - 1) < num_pages_of (int p) s then 1 else 0)"
    using pages_step [OF p, of s] by (simp add: seq_pages_def split: if_splits)
  show "seq_slots p pages (s - 1, loc, 1) = [pages ! 0 * int p]"
    if "num_pages_of (int p) (s - 1) < num_pages_of (int p) s" "pages \<noteq> []"
  proof -
    from that(1) sp have "\<not> 1 \<le> ?c" using seq_pages_within [of p 1 "s - 1" loc] p by auto
    with c have "?c = 0" by simp
    then have "seq_slots p pages (s - 1, loc, 1) = take (Suc 0) (concat (map (page_tokens p) pages))"
      by (simp add: seq_slots_def)
    moreover have "concat (map (page_tokens p) pages) ! 0 = pages ! 0 * int p" "concat (map (page_tokens p) pages) \<noteq> []"
      using that(2) p nth_page_tokens [of 0 p "hd pages"] length_concat_page_tokens [of p pages]
      by (cases pages; auto simp: nth_append)+
    ultimately show ?thesis by (metis take_one)
  qed
  show "seq_slots p pages (s - 1, loc, 1) = [loc + 1]"
    if *: "\<not> num_pages_of (int p) (s - 1) < num_pages_of (int p) s"
  proof -
    have "num_pages_of (int p) (s - 1) = num_pages_of (int p) s" using pages_step [OF p, of s] * by simp
    then have c1: "1 \<le> ?c" using num_pages_of_bounds [of "int p" s] p by simp
    then have "0 < length (np_arange (loc + 1) (loc + 1 + ?c))" by simp
    then have "np_arange (loc + 1) (loc + 1 + ?c) \<noteq> []" unfolding length_greater_0_conv .
    from take_one [OF this] c1 show ?thesis by (simp add: seq_slots_def)
  qed
qed

lemma decode_impl_eq:
  assumes p: "0 < p" and len: "length ls = length ss"
    and "pidx + sum_list (map (seq_pages p) (extend_batch (map (\<lambda>s. s - 1) ss) ss ls)) \<le> length pages"
  shows "alloc_decode_impl p pages (zip (map (\<lambda>s. num_pages_of (int p) (s - 1) < num_pages_of (int p) s) ss) ls) pidx =
    Inr (batch_slots p (drop pidx pages) (extend_batch (map (\<lambda>s. s - 1) ss) ss ls),
         pidx + sum_list (map (seq_pages p) (extend_batch (map (\<lambda>s. s - 1) ss) ss ls)))"
  using len [symmetric] assms(3)
proof (induction ss ls arbitrary: pidx rule: list_induct2)
  case (Cons s ss l ls)
  let ?b = "extend_batch (map (\<lambda>s. s - 1) ss) ss ls"
  have b: "extend_batch (map (\<lambda>s. s - 1) (s # ss)) (s # ss) (l # ls) = (s - 1, l, 1) # ?b"
    by (simp add: extend_batch_def)
  note d = decode_slots [OF p, where s = s and loc = l]
  show ?case
  proof (cases "num_pages_of (int p) (s - 1) < num_pages_of (int p) s")
    case True
    then have sp: "seq_pages p (s - 1, l, 1) = 1" using d(3) by simp
    with Cons.prems b have k: "pidx < length pages" by simp
    then have "seq_slots p (drop pidx pages) (s - 1, l, 1) = [pages ! pidx * int p]"
      using d(1) [OF True, of "drop pidx pages"] by simp
    with Cons.IH [of "Suc pidx"] Cons.prems True sp k show ?thesis unfolding b by simp
  next
    case False
    then have "seq_pages p (s - 1, l, 1) = 0" "seq_slots p (drop pidx pages) (s - 1, l, 1) = [l + 1]"
      using d(2,3) by auto
    with Cons.IH [of pidx] Cons.prems False show ?thesis unfolding b by simp
  qed
qed (simp add: extend_batch_def)

lemma decode_total:
  assumes "0 < p" "length ls = length ss"
  shows "length (filter id (map (\<lambda>s. num_pages_of (int p) (s - 1) < num_pages_of (int p) s) ss)) =
    sum_list (map (seq_pages p) (extend_batch (map (\<lambda>s. s - 1) ss) ss ls))"
  using assms(2) [symmetric]
proof (induction ss ls rule: list_induct2)
  case (Cons s ss l ls)
  then show ?case
    using decode_slots(3) [OF assms(1), of s l] by (simp add: extend_batch_def)
qed (simp add: extend_batch_def)

lemma decode_eq_extend:
  assumes inv: "paged_inv a" "r < dp_size a" and len: "length ls = length ss" and ne: "ss \<noteq> []"
  shows "paged_alloc_decode ss ls r a = paged_alloc_extend (map (\<lambda>s. s - 1) ss) ss ls (length ss) r a"
proof -
  let ?p = "page_size a" and ?pre = "map (\<lambda>s. s - 1) ss"
  let ?batch = "extend_batch ?pre ss ls"
  define k where "k = sum_list (map (seq_pages ?p) ?batch)"
  note i = paged_invD [OF inv]
  have le: "list_all2 (\<le>) ?pre ss" by (simp add: list_all2_conv_all_nth)
  note f = extend_batch_facts [OF i(5) le, of ls]
  have total: "sum_list (map2 (\<lambda>s q. num_pages_of (int ?p) s - num_pages_of (int ?p) q) ss ?pre) = int k"
    using f(2) len by (simp add: k_def)
  have dtotal: "length (filter id (map (\<lambda>s. num_pages_of (int ?p) (s - 1) < num_pages_of (int ?p) s) ss)) = k"
    using decode_total [OF i(5) len] by (simp add: k_def)
  have tokens: "length ss = sum_list (map seq_tokens ?batch)"
  proof -
    have "sum_list ?pre = sum_list ss - int (length ss)" by (induction ss) auto
    with f(3) len show ?thesis by simp
  qed
  have dbg: "list_all2 (\<lambda>l s. (l + 2) mod int ?p = s mod int ?p) ls ss \<longleftrightarrow>
      list_all2 (\<lambda>l q. (l + 1) mod int ?p = q mod int ?p) ls ?pre"
  proof -
    have "(l + 2) mod int ?p = s mod int ?p \<longleftrightarrow> (l + 1) mod int ?p = (s - 1) mod int ?p" for l s :: int
      by (simp add: mod_eq_dvd_iff algebra_simps)
    then show ?thesis by (auto simp: list_all2_conv_all_nth)
  qed
  obtain b where e: "ensure_free_pages (int k) r a = Inr b" and b: "paged_frame r a b"
    using ensure_free_pages_inv [OF inv] by metis
  have ps: "page_size b = ?p" using paged_frameD [OF b] by simp
  have impl: "alloc_decode_impl ?p pages (zip (map (\<lambda>s. num_pages_of (int ?p) (s - 1) < num_pages_of (int ?p) s) ss) ls) 0 =
      alloc_extend_impl ?p pages ?batch (length ss)" if "length pages = k" for pages
    using decode_impl_eq [OF i(5) len, of 0 pages] alloc_extend_impl_eq [OF i(5) f(1) tokens, of pages] that len
    by (simp add: k_def)
  show ?thesis
    using e impl [of "take k (free_pages b ! r)"] len ne
    unfolding paged_alloc_decode_def paged_alloc_extend_def Let_def total dtotal dbg extend_batch_def [symmetric]
    by (simp add: ps py_slice_prefix cong: if_cong)
qed

section \<open>Free groups\<close>

text \<open>What a run of frees \<open>(indices, rank)\<close> gives back to rank \<open>r\<close>.\<close>

definition frees_of :: "(int list \<times> nat) list \<Rightarrow> nat \<Rightarrow> int list" where
  "frees_of fs r = concat (map fst (filter (\<lambda>f. snd f = r) fs))"

lemma frees_of_simps [simp]:
  "frees_of [] r = []"
  "frees_of ((xs, q) # fs) r = (if q = r then xs @ frees_of fs r else frees_of fs r)"
  by (auto simp: frees_of_def)

lemma token_frees_immediate:
  assumes "length (free_slots a) = dp_size a" "is_not_in_free_group a" "\<forall>(xs, r)\<in>set fs. r < dp_size a"
  shows "for_m (\<lambda>(xs, r). token_free xs r) fs a =
    Inr (a\<lparr>free_slots := map (\<lambda>r. free_slots a ! r @ frees_of fs r) [0..<dp_size a]\<rparr>)"
  using assms
proof (induction fs arbitrary: a)
  case Nil
  then have "map (\<lambda>r. free_slots a ! r) [0..<dp_size a] = free_slots a" by (metis map_nth)
  then show ?case by simp
next
  case (Cons f fs)
  obtain xs q where f: "f = (xs, q)" by force
  let ?b = "a\<lparr>free_slots := (free_slots a)[q := free_slots a ! q @ xs]\<rparr>"
  have "token_free xs q a = Inr ?b"
    using Cons.prems f by (auto simp: token_free_def)
  moreover have "map (\<lambda>r. free_slots ?b ! r @ frees_of fs r) [0..<dp_size a] =
      map (\<lambda>r. free_slots a ! r @ frees_of (f # fs) r) [0..<dp_size a]"
    using Cons.prems f by (auto simp: nth_list_update)
  ultimately show ?case using Cons.IH [of ?b] Cons.prems f by simp
qed

lemma token_frees_grouped:
  assumes "length (free_group a) = dp_size a" "\<not> is_not_in_free_group a" "\<forall>(xs, r)\<in>set fs. r < dp_size a"
  shows "\<exists>g. for_m (\<lambda>(xs, r). token_free xs r) fs a = Inr (a\<lparr>free_group := g\<rparr>) \<and> length g = dp_size a \<and>
    (\<forall>r<dp_size a. concat (g ! r) = concat (free_group a ! r) @ frees_of fs r)"
  using assms
proof (induction fs arbitrary: a)
  case (Cons f fs)
  obtain xs q where f: "f = (xs, q)" by force
  show ?case
  proof (cases "xs = []")
    case True
    then have "token_free xs q a = Inr a" by (simp add: token_free_def)
    moreover have "frees_of (f # fs) = frees_of fs" using f True by (simp add: fun_eq_iff)
    ultimately show ?thesis using Cons.IH [of a] Cons.prems f by simp
  next
    case False
    let ?b = "a\<lparr>free_group := (free_group a)[q := free_group a ! q @ [xs]]\<rparr>"
    have "token_free xs q a = Inr ?b" using Cons.prems f False by (auto simp: token_free_def)
    moreover obtain g where "for_m (\<lambda>(xs, r). token_free xs r) fs ?b = Inr (?b\<lparr>free_group := g\<rparr>)"
      "length g = dp_size a" and g: "\<And>r. r < dp_size a \<Longrightarrow> concat (g ! r) = concat (free_group ?b ! r) @ frees_of fs r"
      using Cons.IH [of ?b] Cons.prems by auto
    moreover have "concat (g ! r) = concat (free_group a ! r) @ frees_of (f # fs) r" if "r < dp_size a" for r
      using g [OF that] Cons.prems(1) f that by (simp add: nth_list_update)
    ultimately show ?thesis using f by (intro exI [of _ g]) simp
  qed
qed (intro exI, auto)

lemma token_free_group_eq_immediate:
  assumes inv: "token_inv a" "is_not_in_free_group a" and fs: "\<forall>(xs, r)\<in>set fs. r < dp_size a"
  shows "rbind (for_m (\<lambda>(xs, r). token_free xs r) fs (token_free_group_begin a)) token_free_group_end =
    for_m (\<lambda>(xs, r). token_free xs r) fs a"
proof -
  let ?b = "token_free_group_begin a"
  have len: "length (free_slots a) = dp_size a" "length (free_group a) = dp_size a"
    and g0: "\<forall>r<dp_size a. free_group a ! r = []"
    using inv by (auto simp: token_inv_def)
  have "\<exists>g. for_m (\<lambda>(xs, r). token_free xs r) fs ?b = Inr (?b\<lparr>free_group := g\<rparr>) \<and> length g = dp_size ?b \<and>
      (\<forall>r<dp_size ?b. concat (g ! r) = concat (free_group ?b ! r) @ frees_of fs r)"
    by (rule token_frees_grouped) (use len fs in \<open>auto simp: token_free_group_begin_def\<close>)
  then obtain g where run: "for_m (\<lambda>(xs, r). token_free xs r) fs ?b = Inr (?b\<lparr>free_group := g\<rparr>)"
    and g: "length g = dp_size a" "\<forall>r<dp_size a. concat (g ! r) = frees_of fs r"
    using g0 by (auto simp: token_free_group_begin_def)
  let ?c = "?b\<lparr>free_group := g, is_not_in_free_group := True\<rparr>"
  have "flushed_slots (dp_size a) ?c = map (\<lambda>r. free_slots a ! r @ frees_of fs r) [0..<dp_size a]"
    using g by (simp add: flushed_slots_def token_free_group_begin_def)
  moreover have "flushed_group (dp_size a) ?c = free_group a"
    using g0 len by (auto simp: flushed_group_def token_free_group_begin_def intro!: nth_equalityI)
  moreover have "for_m token_flush_rank [0..<dp_size a] ?c =
      Inr (?c\<lparr>free_slots := flushed_slots (dp_size a) ?c, free_group := flushed_group (dp_size a) ?c\<rparr>)"
    by (rule token_flush_upto) (use g len in \<open>auto simp: token_free_group_begin_def\<close>)
  ultimately show ?thesis
    using run token_frees_immediate [OF len(1) inv(2) fs] inv(2)
    by (simp add: token_free_group_end_def token_free_group_begin_def)
qed

section \<open>Properties\<close>

text \<open>C1. A client of the token allocator that allocates and frees in any order never sees an exception
  and never shares a slot: at every point the free list and the extents it holds are pairwise disjoint
  and together are exactly the slots \<open>1..size_per_rank\<close> of the rank.\<close>

theorem token_client_conserves:
  assumes "token_init n_slots dp = Inr a" "r < dp"
  shows "\<exists>b live. for_m (kv_client_step token_alloc token_free r) ops (a, []) = Inr (b, live) \<and>
    distinct (free_slots b ! r @ concat live) \<and>
    set (free_slots b ! r @ concat live) = {1..int (n_slots div dp)}"
proof -
  have ok: "token_inv a \<and> r < dp_size a \<and> is_not_in_free_group a"
    using assms token_inv_init [OF assms(1)] by (auto simp: token_init_def Let_def split: if_splits)
  have "\<forall>op\<in>set ops. op_ok (\<lambda>n. True) op" by (metis op_ok.elims(3))
  with token.client_conserves [OF ok, of ops] obtain b live
    where "for_m (kv_client_step token_alloc token_free r) ops (a, []) = Inr (b, live)"
      "distinct (free_slots b ! r @ concat live)" "set (free_slots b ! r @ concat live) = set (free_slots a ! r)"
    by auto
  moreover have "set (free_slots a ! r) = {1..int (n_slots div dp)}"
    using assms by (auto simp: token_init_def Let_def split: if_splits)
  ultimately show ?thesis by blast
qed

theorem token_client_conserves_witness:
  "\<exists>a b live. token_init 8 2 = Inr a \<and>
     for_m (kv_client_step token_alloc token_free 1) [Op_Alloc 2, Op_Alloc 1, Op_Free 0] (a, []) = Inr (b, live) \<and>
     set (free_slots b ! 1 @ concat live) = {1..4}"
proof -
  obtain a where a: "token_init 8 2 = Inr a" by (simp add: token_init_def Let_def)
  with token_client_conserves [OF a, of 1 "[Op_Alloc 2, Op_Alloc 1, Op_Free 0]"] show ?thesis by auto
qed

text \<open>C2. The same for the paged allocator and page-aligned requests: no exception, and the free tokens
  (of free and released pages) together with the held extents are always exactly the tokens of the
  pages \<open>1..pages_per_rank\<close>, each once.\<close>

theorem paged_client_conserves:
  assumes "paged_init n_slots p debug dp = Inr a" "r < dp" "\<forall>op\<in>set ops. op_ok (\<lambda>n. n mod p = 0) op"
  shows "\<exists>b live. for_m (kv_client_step paged_alloc paged_free r) ops (a, []) = Inr (b, live) \<and>
    distinct (paged_avail b r @ concat live) \<and>
    set (paged_avail b r @ concat live) = {i. 1 \<le> i div int p \<and> i div int p \<le> int (n_slots div p div dp)}"
proof -
  have ok: "paged_inv a \<and> r < dp_size a \<and> is_not_in_free_group a" and p: "page_size a = p" "0 < p"
    using assms paged_inv_init [OF assms(1)] by (auto simp: paged_init_def Let_def split: if_splits)
  have "\<forall>op\<in>set ops. op_ok (\<lambda>n. n mod page_size a = 0) op" using assms(3) p by simp
  with paged.client_conserves [OF ok, of ops] obtain b live
    where "for_m (kv_client_step paged_alloc paged_free r) ops (a, []) = Inr (b, live)"
      "distinct (paged_avail b r @ concat live)" "set (paged_avail b r @ concat live) = set (paged_avail a r)"
    by auto
  moreover have "set (paged_avail a r) = {i. 1 \<le> i div int p \<and> i div int p \<le> int (n_slots div p div dp)}"
    unfolding paged_avail_def p set_concat_page_tokens [OF p(2)]
    using assms(1,2) by (auto simp: paged_init_def Let_def split: if_splits)
  ultimately show ?thesis by blast
qed

theorem paged_client_conserves_witness:
  "\<exists>a b live. paged_init 32 4 True 2 = Inr a \<and>
     for_m (kv_client_step paged_alloc paged_free 1) [Op_Alloc 8, Op_Alloc 4, Op_Free 0] (a, []) = Inr (b, live) \<and>
     distinct (paged_avail b 1 @ concat live)"
proof -
  obtain a where a: "paged_init 32 4 True 2 = Inr a" by (simp add: paged_init_def)
  with paged_client_conserves [OF a, of 1 "[Op_Alloc 8, Op_Alloc 4, Op_Free 0]"] show ?thesis by auto
qed

text \<open>C3. \<open>alloc_extend\<close> implements its reference definition: on a well-formed allocator and a
  non-empty batch with \<open>prefix_len \<le> seq_len\<close> and \<open>extend_num_tokens\<close> the sum of the extensions it does
  not raise; it refuses exactly when free and released pages together are too few; otherwise it
  returns the reference slots over pages that were free, each used once, and takes exactly those
  pages out of the pool.\<close>

theorem paged_alloc_extend_correct:
  assumes "paged_inv a" "r < dp_size a" "\<not> debug_mode a"
    and "list_all2 (\<le>) prefix_lens seq_lens" "length last_loc = length prefix_lens" "prefix_lens \<noteq> []"
    and "int n = sum_list seq_lens - sum_list prefix_lens"
  shows "\<exists>out b. paged_alloc_extend prefix_lens seq_lens last_loc n r a = Inr (out, b) \<and> paged_inv b \<and>
    (let batch = extend_batch prefix_lens seq_lens last_loc;
         needed = sum_list (map (seq_pages (page_size a)) batch);
         pool = free_pages a ! r @ release_pages a ! r;
         pool' = free_pages b ! r @ release_pages b ! r
     in (out = None \<longleftrightarrow> length pool < needed) \<and> (out = None \<longrightarrow> mset pool' = mset pool) \<and>
        (\<forall>slots. out = Some slots \<longrightarrow> (\<exists>pages. slots = batch_slots (page_size a) pages batch \<and>
           length pages = needed \<and> distinct pages \<and> mset pool = mset pages + mset pool')))"
proof -
  have dbg: "debug_mode a \<Longrightarrow> list_all2 (\<lambda>l p. (l + 1) mod int (page_size a) = p mod int (page_size a)) last_loc prefix_lens"
    using assms(3) by simp
  show ?thesis
  proof (cases rule: paged_alloc_extend_cases [OF assms(1,2,4-7) dbg, case_names Dbg Short Given])
    case (Short b)
    then show ?thesis by (intro exI [of _ None] exI [of _ b]) (simp add: Let_def)
  next
    case (Given b pages)
    have "length pages \<le> length (free_pages a ! r @ release_pages a ! r)"
      using arg_cong [OF Given(6), of size] by simp
    with Given show ?thesis
      by (intro exI [of _ "Some (batch_slots (page_size a) pages (extend_batch prefix_lens seq_lens last_loc))"] exI [of _ b])
        (auto simp: Let_def union_ac)
  qed
qed

theorem paged_alloc_extend_correct_witness:
  "\<exists>a out b. paged_init 32 4 False 1 = Inr a \<and> paged_inv a \<and>
     paged_alloc_extend [0, 0] [5, 2] [-1, -1] 7 0 a = Inr (out, b) \<and> paged_inv b"
proof -
  obtain a where a: "paged_init 32 4 False 1 = Inr a" and d: "\<not> debug_mode a" "0 < dp_size a"
    by (simp add: paged_init_def)
  show ?thesis
    using paged_alloc_extend_correct [OF paged_inv_init [OF a] d(2,1), of "[0, 0]" "[5, 2]" "[-1, -1]" 7]
      a paged_inv_init [OF a] by auto
qed

text \<open>No slot is handed out twice by an extension: when the sequences append to pages that are in
  use and pairwise different, the slots of the whole batch are distinct, lie in those tail pages or
  in pages that were free, and slot \<open>k\<close> of a sequence has the page offset of its token \<open>pre_len + k\<close>.\<close>

theorem batch_slots_safe:
  assumes "0 < p" "distinct pages" "tails_ok p (set pages) seqs"
    and "sum_list (map (seq_pages p) seqs) \<le> length pages"
  shows "distinct (batch_slots p pages seqs) \<and>
    (\<forall>x\<in>set (batch_slots p pages seqs). x div int p \<in> set pages \<or> (\<exists>s\<in>set seqs. x div int p \<in> seq_tail p s)) \<and>
    (\<forall>pre loc ext k. (pre, loc, ext) \<in> set seqs \<longrightarrow> k < length (seq_slots p pages (pre, loc, ext)) \<longrightarrow>
       seq_slots p pages (pre, loc, ext) ! k mod int p = (pre + int k) mod int p)"
proof (intro conjI ballI allI impI)
  show "distinct (batch_slots p pages seqs)" by (rule distinct_batch_slots [OF assms(1,3) _ assms(2,4)]) simp
  show "x div int p \<in> set pages \<or> (\<exists>s\<in>set seqs. x div int p \<in> seq_tail p s)"
    if "x \<in> set (batch_slots p pages seqs)" for x
    using batch_slots_pages [OF assms(1,3,4) that] by auto
  have al: "tails_ok p U seqs \<Longrightarrow> s \<in> set seqs \<Longrightarrow> seq_aligned p s" for U s
    by (induction seqs arbitrary: U) auto
  show "seq_slots p pages (pre, loc, ext) ! k mod int p = (pre + int k) mod int p"
    if "(pre, loc, ext) \<in> set seqs" "k < length (seq_slots p pages (pre, loc, ext))" for pre loc ext k
    by (rule seq_slots_offset [OF assms(1) al [OF assms(3) that(1)] that(2)])
qed

theorem batch_slots_safe_witness:
  "batch_slots 4 [7, 3] [(2, 9, 3), (0, -1, 2)] = [10, 11, 28, 12, 13] \<and>
   distinct (batch_slots 4 [7, 3] [(2, 9, 3), (0, -1, 2)])"
proof
  let ?seqs = "[(2, 9, 3), (0, -1, 2)] :: (int \<times> int \<times> int) list"
  have t: "tails_ok 4 (set [7, 3]) ?seqs" by (simp add: seq_aligned_def seq_tail_def)
  have n: "sum_list (map (seq_pages 4) ?seqs) \<le> length [7 :: int, 3]"
    by (simp add: seq_pages_def num_pages_of_def)
  show "batch_slots 4 [7, 3] ?seqs = [10, 11, 28, 12, 13]" by code_simp
  show "distinct (batch_slots 4 [7, 3] ?seqs)"
    using batch_slots_safe [OF _ _ t n] by simp
qed

text \<open>C22. \<open>alloc_decode\<close> is \<open>alloc_extend\<close> by one token per sequence: the same result and the same
  allocator, on every branch (out of pages and the debug assertion included).\<close>

theorem paged_decode_is_extend:
  assumes "paged_inv a" "r < dp_size a" "length last_loc = length seq_lens" "seq_lens \<noteq> []"
  shows "paged_alloc_decode seq_lens last_loc r a =
    paged_alloc_extend (map (\<lambda>s. s - 1) seq_lens) seq_lens last_loc (length seq_lens) r a"
  by (rule decode_eq_extend [OF assms])

theorem paged_decode_is_extend_witness:
  "\<exists>a. paged_init 16 4 True 1 = Inr a \<and>
     paged_alloc_decode [5, 7] [7, 9] 0 a = paged_alloc_extend [4, 6] [5, 7] [7, 9] 2 0 a"
proof -
  obtain a where a: "paged_init 16 4 True 1 = Inr a" "0 < dp_size a" by (simp add: paged_init_def)
  from paged_decode_is_extend [OF paged_inv_init [OF a(1)] a(2), of "[7, 9]" "[5, 7]"] a show ?thesis
    by (simp add: numeral_2_eq_2)
qed

text \<open>C23. A free group of the token allocator changes nothing but the time of the frees: begin, any
  frees of any ranks, end gives exactly the allocator that freeing one by one gives.\<close>

theorem token_free_group_transparent:
  assumes "token_inv a" "is_not_in_free_group a" "\<forall>(xs, r)\<in>set frees. r < dp_size a"
  shows "rbind (for_m (\<lambda>(xs, r). token_free xs r) frees (token_free_group_begin a)) token_free_group_end =
    for_m (\<lambda>(xs, r). token_free xs r) frees a"
  by (rule token_free_group_eq_immediate [OF assms])

theorem token_free_group_transparent_witness:
  "\<exists>a b. token_init 6 2 = Inr a \<and> token_alloc 3 0 a = Inr (Some [1, 2, 3], b) \<and>
     rbind (for_m (\<lambda>(xs, r). token_free xs r) [([2], 0), ([1, 3], 0)] (token_free_group_begin b)) token_free_group_end =
     for_m (\<lambda>(xs, r). token_free xs r) [([2], 0), ([1, 3], 0)] b"
proof -
  obtain a where a: "token_init 6 2 = Inr a" by (simp add: token_init_def Let_def)
  let ?b = "a\<lparr>free_slots := [[], [1, 2, 3]]\<rparr>"
  have b: "token_alloc 3 0 a = Inr (Some [1, 2, 3], ?b)" "is_not_in_free_group ?b" "dp_size ?b = 2"
    using a by (auto simp: token_init_def token_alloc_def np_arange_rec Let_def)
  from token_free_group_transparent [OF token_alloc_inv [OF token_inv_init [OF a] b(1)] b(2), of "[([2], 0), ([1, 3], 0)]"]
  show ?thesis using a b(1,3) by (intro exI [of _ a] exI [of _ ?b]) simp
qed

end
