(* ===== verification/Swa_Allocator.thy ===== *)
theory Swa_Allocator
  imports Kv_Allocator
begin

text \<open>
  \<open>mem_cache/allocator.py\<close>, class \<open>SWATokenToKVPoolAllocator\<close>: the hybrid allocator of models with
  sliding-window layers. It owns one allocator for the full-attention pool and one for the window
  pool, and a map from full slots to window slots (0: no window slot). The two inner allocators are
  token or paged ones; the theory lifts the allocator interface to that sum and proves that a client
  that allocates, frees and evicts windows keeps both pools conserved, and that the rollback of a
  failed paged extension does not.
\<close>

section \<open>The inner allocators\<close>

datatype sub_allocator = Tok token_allocator | Pag paged_allocator

fun sub_alloc :: "nat \<Rightarrow> nat \<Rightarrow> sub_allocator \<Rightarrow> (int list option \<times> sub_allocator) result" where
  "sub_alloc n r (Tok a) = rbind (token_alloc n r a) (\<lambda>(out, a). Inr (out, Tok a))"
| "sub_alloc n r (Pag a) = rbind (paged_alloc n r a) (\<lambda>(out, a). Inr (out, Pag a))"

fun sub_free :: "int list \<Rightarrow> nat \<Rightarrow> sub_allocator \<Rightarrow> sub_allocator result" where
  "sub_free xs r (Tok a) = rbind (token_free xs r a) (\<lambda>a. Inr (Tok a))"
| "sub_free xs r (Pag a) = rbind (paged_free xs r a) (\<lambda>a. Inr (Pag a))"

fun sub_available_size :: "nat \<Rightarrow> sub_allocator \<Rightarrow> nat result" where
  "sub_available_size r (Tok a) = token_available_size r a"
| "sub_available_size r (Pag a) = paged_available_size r a"

fun sub_alloc_extend ::
  "int list \<Rightarrow> int list \<Rightarrow> int list \<Rightarrow> nat \<Rightarrow> nat \<Rightarrow> sub_allocator \<Rightarrow> (int list option \<times> sub_allocator) result" where
  "sub_alloc_extend ps ss ls n r (Tok a) = rbind (base_alloc_extend a) (\<lambda>(out, a). Inr (out, Tok a))"
| "sub_alloc_extend ps ss ls n r (Pag a) = rbind (paged_alloc_extend ps ss ls n r a) (\<lambda>(out, a). Inr (out, Pag a))"

fun sub_alloc_decode ::
  "int list \<Rightarrow> int list \<Rightarrow> nat \<Rightarrow> sub_allocator \<Rightarrow> (int list option \<times> sub_allocator) result" where
  "sub_alloc_decode ss ls r (Tok a) = rbind (base_alloc_decode a) (\<lambda>(out, a). Inr (out, Tok a))"
| "sub_alloc_decode ss ls r (Pag a) = rbind (paged_alloc_decode ss ls r a) (\<lambda>(out, a). Inr (out, Pag a))"

fun sub_clear :: "nat option \<Rightarrow> sub_allocator \<Rightarrow> sub_allocator result" where
  "sub_clear r (Tok a) = rbind (token_clear r a) (\<lambda>a. Inr (Tok a))"
| "sub_clear r (Pag a) = rbind (paged_clear r a) (\<lambda>a. Inr (Pag a))"

fun sub_size :: "sub_allocator \<Rightarrow> nat" where
  "sub_size (Tok a) = pool_size a"
| "sub_size (Pag a) = pool_size a"

fun sub_size_per_rank :: "sub_allocator \<Rightarrow> nat" where
  "sub_size_per_rank (Tok a) = size_per_rank a"
| "sub_size_per_rank (Pag a) = size_per_rank a"

section \<open>The hybrid allocator\<close>

text \<open>\<open>full_to_swa_index_mapping\<close> is one array when \<open>dp_size\<close> is 1 and one per rank otherwise; here it is
  always the list of the arrays, and \<open>map_rank\<close> says which one an operation uses.\<close>

record swa_allocator = base_allocator +
  size_full :: nat
  size_swa :: nat
  full_attn_allocator :: sub_allocator
  swa_attn_allocator :: sub_allocator
  full_to_swa_index_mapping :: "int list list"
  free_group_full :: "int list list list"
  free_group_swa :: "int list list list"
  free_group_full_seen :: "int set list"
  free_group_swa_seen :: "int set list"

definition map_rank :: "swa_allocator \<Rightarrow> nat \<Rightarrow> nat" where
  "map_rank a dp_rank = (if dp_size a = 1 then 0 else dp_rank)"

definition get_mapping :: "nat \<Rightarrow> swa_allocator \<Rightarrow> int list result" where
  "get_mapping dp_rank a =
     (if length (full_to_swa_index_mapping a) \<le> map_rank a dp_rank then Inl IndexError
      else Inr (full_to_swa_index_mapping a ! map_rank a dp_rank))"

definition put_mapping :: "nat \<Rightarrow> int list \<Rightarrow> swa_allocator \<Rightarrow> swa_allocator" where
  "put_mapping dp_rank m a =
     a\<lparr>full_to_swa_index_mapping := (full_to_swa_index_mapping a)[map_rank a dp_rank := m]\<rparr>"

definition reset_free_group_state :: "swa_allocator \<Rightarrow> swa_allocator" where
  "reset_free_group_state a =
     a\<lparr>free_group_full := replicate (dp_size a) [], free_group_swa := replicate (dp_size a) [],
       free_group_full_seen := replicate (dp_size a) {}, free_group_swa_seen := replicate (dp_size a) {},
       free_group := replicate (dp_size a) []\<rparr>"

definition clear_free_group_rank :: "nat \<Rightarrow> swa_allocator \<Rightarrow> swa_allocator result" where
  "clear_free_group_rank r a =
     (if length (free_group_full a) \<le> r then Inl IndexError
      else Inr (a\<lparr>free_group_full := (free_group_full a)[r := []], free_group_swa := (free_group_swa a)[r := []],
                  free_group_full_seen := (free_group_full_seen a)[r := {}],
                  free_group_swa_seen := (free_group_swa_seen a)[r := {}],
                  free_group := (free_group_full a)[r := []]\<rparr>))"

text \<open>\<open>clear\<close>: with \<open>dp_size\<close> 1 the single map is reset whatever the rank.\<close>

definition zero_mapping :: "nat \<Rightarrow> swa_allocator \<Rightarrow> swa_allocator result" where
  "zero_mapping r a = rbind (get_mapping r a) (\<lambda>m. Inr (put_mapping r (replicate (length m) 0) a))"

definition swa_clear :: "nat option \<Rightarrow> swa_allocator \<Rightarrow> swa_allocator result" where
  "swa_clear dp_rank a =
     rbind (sub_clear dp_rank (swa_attn_allocator a)) (\<lambda>sw.
     rbind (sub_clear dp_rank (full_attn_allocator a)) (\<lambda>fu.
       let a = a\<lparr>swa_attn_allocator := sw, full_attn_allocator := fu\<rparr> in
       case dp_rank of
         None \<Rightarrow> rbind (for_m zero_mapping [0..<dp_size a] a) (\<lambda>a.
                   Inr (reset_free_group_state (a\<lparr>is_not_in_free_group := True\<rparr>)))
       | Some r \<Rightarrow> rbind (zero_mapping r a) (clear_free_group_rank r)))"

definition swa_init :: "nat \<Rightarrow> nat \<Rightarrow> nat \<Rightarrow> nat \<Rightarrow> swa_allocator result" where
  "swa_init n_full n_swa psize dp =
     rbind (if psize = 1 then rbind (token_init n_full dp) (\<lambda>a. Inr (Tok a))
            else rbind (paged_init n_full psize False dp) (\<lambda>a. Inr (Pag a))) (\<lambda>fu.
     rbind (if psize = 1 then rbind (token_init n_swa dp) (\<lambda>a. Inr (Tok a))
            else rbind (paged_init n_swa psize False dp) (\<lambda>a. Inr (Pag a))) (\<lambda>sw.
       swa_clear None
         \<lparr>pool_size = n_full, page_size = psize, dp_size = dp, size_per_rank = n_full div dp,
          is_not_in_free_group = True, free_group = replicate dp [],
          size_full = n_full, size_swa = n_swa, full_attn_allocator = fu, swa_attn_allocator = sw,
          full_to_swa_index_mapping = replicate dp (replicate (sub_size_per_rank fu + psize) 0),
          free_group_full = replicate dp [], free_group_swa = replicate dp [],
          free_group_full_seen = replicate dp {}, free_group_swa_seen = replicate dp {}\<rparr>))"

definition full_available_size :: "nat \<Rightarrow> swa_allocator \<Rightarrow> nat result" where
  "full_available_size r a = sub_available_size r (full_attn_allocator a)"

definition swa_available_size :: "nat \<Rightarrow> swa_allocator \<Rightarrow> nat result" where
  "swa_available_size r a = sub_available_size r (swa_attn_allocator a)"

definition hybrid_available_size :: "nat \<Rightarrow> swa_allocator \<Rightarrow> nat result" where
  "hybrid_available_size r a =
     rbind (sub_available_size r (full_attn_allocator a)) (\<lambda>x.
     rbind (sub_available_size r (swa_attn_allocator a)) (\<lambda>y. Inr (min x y)))"

text \<open>\<open>alloc\<close>. The rollback after a refused window allocation and the write of a missing full extent
  cannot be reached (see \<open>swa_alloc_given\<close>); the code would read an attribute of \<open>None\<close> there.\<close>

definition swa_alloc :: "nat \<Rightarrow> nat \<Rightarrow> swa_allocator \<Rightarrow> (int list option \<times> swa_allocator) result" where
  "swa_alloc need_size r a =
     rbind (full_available_size r a) (\<lambda>fa. if fa < need_size then Inr (None, a) else
     rbind (swa_available_size r a) (\<lambda>sa. if sa < need_size then Inr (None, a) else
     rbind (sub_alloc need_size r (full_attn_allocator a)) (\<lambda>(fout, fu).
     rbind (sub_alloc need_size r (swa_attn_allocator a)) (\<lambda>(sout, sw).
       let a = a\<lparr>full_attn_allocator := fu, swa_attn_allocator := sw\<rparr> in
       case sout of
         None \<Rightarrow> (case fout of None \<Rightarrow> Inl AttributeError
           | Some xs \<Rightarrow> rbind (sub_free xs r fu) (\<lambda>fu. Inr (None, a\<lparr>full_attn_allocator := fu\<rparr>)))
       | Some ys \<Rightarrow> rbind (get_mapping r a) (\<lambda>m.
           case fout of None \<Rightarrow> Inl AttributeError
           | Some xs \<Rightarrow> rbind (np_put m xs ys) (\<lambda>m. Inr (Some xs, put_mapping r m a)))))))"

text \<open>The tail that \<open>alloc_extend\<close> and \<open>alloc_decode\<close> share: full slots are given, the window slots
  are asked for from the window positions of the last tokens; a refusal frees the full slots again.\<close>

definition swa_pair ::
  "(int list \<Rightarrow> sub_allocator \<Rightarrow> (int list option \<times> sub_allocator) result) \<Rightarrow> int list \<Rightarrow> nat \<Rightarrow>
   int list option \<times> sub_allocator \<Rightarrow> swa_allocator \<Rightarrow> (int list option \<times> swa_allocator) result" where
  "swa_pair ask last_loc r full_result a = (case full_result of (fout, fu) \<Rightarrow>
     let a = a\<lparr>full_attn_allocator := fu\<rparr> in
     case fout of None \<Rightarrow> Inr (None, a)
     | Some xs \<Rightarrow>
         rbind (get_mapping r a) (\<lambda>m.
         rbind (np_take m last_loc) (\<lambda>swa_last_loc.
         rbind (ask swa_last_loc (swa_attn_allocator a)) (\<lambda>(sout, sw).
           let a = a\<lparr>swa_attn_allocator := sw\<rparr> in
           case sout of
             None \<Rightarrow> rbind (sub_free xs r fu) (\<lambda>fu. Inr (None, a\<lparr>full_attn_allocator := fu\<rparr>))
           | Some ys \<Rightarrow> rbind (np_put m xs ys) (\<lambda>m. Inr (Some xs, put_mapping r m a))))))"

definition swa_alloc_extend ::
  "int list \<Rightarrow> int list \<Rightarrow> int list \<Rightarrow> nat \<Rightarrow> nat \<Rightarrow> swa_allocator \<Rightarrow> (int list option \<times> swa_allocator) result" where
  "swa_alloc_extend ps ss ls n r a =
     rbind (sub_alloc_extend ps ss ls n r (full_attn_allocator a)) (\<lambda>res.
       swa_pair (\<lambda>ls'. sub_alloc_extend ps ss ls' n r) ls r res a)"

definition swa_alloc_decode ::
  "int list \<Rightarrow> int list \<Rightarrow> nat \<Rightarrow> swa_allocator \<Rightarrow> (int list option \<times> swa_allocator) result" where
  "swa_alloc_decode ss ls r a =
     rbind (sub_alloc_decode ss ls r (full_attn_allocator a)) (\<lambda>res.
       swa_pair (\<lambda>ls'. sub_alloc_decode ss ls' r) ls r res a)"

definition translate_full_to_swa :: "int list \<Rightarrow> nat \<Rightarrow> bool \<Rightarrow> swa_allocator \<Rightarrow> int list result" where
  "translate_full_to_swa full_indices r require_mapped a =
     rbind (get_mapping r a) (\<lambda>m. rbind (np_take m full_indices) (\<lambda>ys.
       if require_mapped \<and> 0 \<in> set ys then Inl ValueError else Inr ys))"

text \<open>\<open>_queue_group_free\<close>: queue the indices not seen in this group yet.\<close>

fun fresh_indices :: "int list \<Rightarrow> int set \<Rightarrow> int list \<times> int set" where
  "fresh_indices [] seen = ([], seen)"
| "fresh_indices (x # xs) seen =
     (if x \<in> seen then fresh_indices xs seen
      else let (ys, seen') = fresh_indices xs (insert x seen) in (x # ys, seen'))"

definition queue_group_free ::
  "int list \<Rightarrow> nat \<Rightarrow> int list list list \<times> int set list \<Rightarrow> (int list list list \<times> int set list) result" where
  "queue_group_free indices r qs = (case qs of (queues, seen) \<Rightarrow>
     if length seen \<le> r then (if indices = [] then Inr (queues, seen) else Inl IndexError)
     else let (new_indices, seen') = fresh_indices indices (seen ! r) in
       if new_indices = [] then Inr (queues, seen[r := seen'])
       else if length queues \<le> r then Inl IndexError
       else Inr (queues[r := queues ! r @ [new_indices]], seen[r := seen']))"

definition swa_free_full :: "int list \<Rightarrow> nat \<Rightarrow> swa_allocator \<Rightarrow> swa_allocator result" where
  "swa_free_full xs r a =
     (if is_not_in_free_group a
      then rbind (sub_free xs r (full_attn_allocator a)) (\<lambda>fu. Inr (a\<lparr>full_attn_allocator := fu\<rparr>))
      else rbind (queue_group_free xs r (free_group_full a, free_group_full_seen a)) (\<lambda>(q, s).
        Inr (a\<lparr>free_group_full := q, free_group_full_seen := s, free_group := q\<rparr>)))"

definition free_swa :: "int list \<Rightarrow> nat \<Rightarrow> swa_allocator \<Rightarrow> swa_allocator result" where
  "free_swa free_index r a =
     rbind (get_mapping r a) (\<lambda>m.
     rbind (np_take m free_index) (\<lambda>map_vals.
     rbind (np_put m free_index (replicate (length free_index) 0)) (\<lambda>m.
       let swa_indices = filter (\<lambda>y. 0 < y) map_vals; a = put_mapping r m a in
       if is_not_in_free_group a
       then rbind (sub_free swa_indices r (swa_attn_allocator a)) (\<lambda>sw. Inr (a\<lparr>swa_attn_allocator := sw\<rparr>))
       else rbind (queue_group_free swa_indices r (free_group_swa a, free_group_swa_seen a)) (\<lambda>(q, s).
         Inr (a\<lparr>free_group_swa := q, free_group_swa_seen := s\<rparr>)))))"

definition swa_free :: "int list \<Rightarrow> nat \<Rightarrow> swa_allocator \<Rightarrow> swa_allocator result" where
  "swa_free free_index r a =
     (if free_index = [] then Inr a
      else rbind (swa_free_full free_index r a) (\<lambda>a.
        rbind (free_swa free_index r a) (\<lambda>a.
        rbind (full_available_size r a) (\<lambda>fa.
          let fu = full_attn_allocator a; sw = swa_attn_allocator a in
          if \<not> fa \<le> (if 1 < dp_size a then sub_size_per_rank fu else sub_size fu) then Inl AssertionError
          else rbind (swa_available_size r a) (\<lambda>sa.
            if \<not> sa \<le> (if 1 < dp_size a then sub_size_per_rank sw else sub_size sw) then Inl AssertionError
            else Inr a)))))"

definition transfer_swa_mapping :: "int list \<Rightarrow> int list \<Rightarrow> nat \<Rightarrow> swa_allocator \<Rightarrow> swa_allocator result" where
  "transfer_swa_mapping source target r a =
     (if length source \<noteq> length target then Inl ValueError
      else rbind (get_mapping r a) (\<lambda>m.
        rbind (np_take m source) (\<lambda>src_swa.
          if 0 \<in> set src_swa then Inl ValueError
          else rbind (np_take m target) (\<lambda>tgt_swa.
            if \<exists>y\<in>set tgt_swa. y \<noteq> 0 then Inl ValueError
            else rbind (np_put m target src_swa) (\<lambda>m.
              rbind (np_put m source (replicate (length source) 0)) (\<lambda>m.
                swa_free_full source r (put_mapping r m a)))))))"

definition count_swa_mapped :: "int list \<Rightarrow> nat \<Rightarrow> swa_allocator \<Rightarrow> nat result" where
  "count_swa_mapped indices r a =
     rbind (get_mapping r a) (\<lambda>m. rbind (np_take m indices) (\<lambda>ys. Inr (length (filter (\<lambda>y. 0 < y) ys))))"

definition swa_free_group_begin :: "swa_allocator \<Rightarrow> swa_allocator" where
  "swa_free_group_begin a = a\<lparr>is_not_in_free_group := False\<rparr>"

definition swa_flush_rank :: "nat \<Rightarrow> swa_allocator \<Rightarrow> swa_allocator result" where
  "swa_flush_rank rank a =
     (if length (free_group_full a) \<le> rank \<or> length (free_group_swa a) \<le> rank then Inl IndexError
      else rbind (if free_group_full a ! rank = [] then Inr (full_attn_allocator a)
                  else sub_free (concat (free_group_full a ! rank)) rank (full_attn_allocator a)) (\<lambda>fu.
           rbind (if free_group_swa a ! rank = [] then Inr (swa_attn_allocator a)
                  else sub_free (concat (free_group_swa a ! rank)) rank (swa_attn_allocator a)) (\<lambda>sw.
             Inr (a\<lparr>full_attn_allocator := fu, swa_attn_allocator := sw\<rparr>))))"

definition swa_free_group_end :: "swa_allocator \<Rightarrow> swa_allocator result" where
  "swa_free_group_end a =
     rbind (for_m swa_flush_rank [0..<dp_size a] (a\<lparr>is_not_in_free_group := True\<rparr>))
       (\<lambda>a. Inr (reset_free_group_state a))"

section \<open>The allocator interface for the inner allocators\<close>

fun sub_avail :: "sub_allocator \<Rightarrow> nat \<Rightarrow> int list" where
  "sub_avail (Tok a) r = free_slots a ! r"
| "sub_avail (Pag a) r = paged_avail a r"

fun sub_ok :: "sub_allocator \<Rightarrow> nat \<Rightarrow> bool" where
  "sub_ok (Tok a) r = (token_inv a \<and> r < dp_size a \<and> is_not_in_free_group a)"
| "sub_ok (Pag a) r = (paged_inv a \<and> r < dp_size a \<and> is_not_in_free_group a)"

fun sub_aligned :: "sub_allocator \<Rightarrow> nat \<Rightarrow> bool" where
  "sub_aligned (Tok a) n = True"
| "sub_aligned (Pag a) n = (n mod page_size a = 0)"

fun sub_whole :: "sub_allocator \<Rightarrow> int list \<Rightarrow> bool" where
  "sub_whole (Tok a) xs = True"
| "sub_whole (Pag a) xs = whole_pages a xs"

fun sub_slots :: "sub_allocator \<Rightarrow> nat \<Rightarrow> int set" where
  "sub_slots (Tok a) r = {1..int (size_per_rank a)}"
| "sub_slots (Pag a) r = {i. 1 \<le> i div int (page_size a) \<and> i div int (page_size a) \<le> int (pages_per_rank a)}"

interpretation sub: kv_pool sub_alloc sub_free sub_avail sub_ok sub_aligned sub_whole sub_slots
proof (unfold_locales, goal_cases)
  case (1 s r)
  then show ?case by (cases s) (auto intro: token.avail_distinct paged.avail_distinct)
next
  case (2 s r)
  then show ?case
    by (cases s) (use token.avail_slots [of _ r] paged.avail_slots [of _ r] in auto)
next
  case (3 s r n)
  then show ?case
  proof (cases s)
    case (Tok a)
    with 3 token.alloc_total [of a r n] show ?thesis by auto
  next
    case (Pag a)
    with 3 paged.alloc_total [of a r n] show ?thesis by auto
  qed
next
  case (4 s r n out s')
  show ?case
  proof (cases s)
    case (Tok a)
    with 4 obtain b where "token_alloc n r a = Inr (out, b)" "s' = Tok b" by (auto simp: rbind_eq_Inr_iff)
    with 4 Tok token.alloc_keeps [of a r n out b] show ?thesis by (auto simp: fun_eq_iff)
  next
    case (Pag a)
    with 4 obtain b where "paged_alloc n r a = Inr (out, b)" "s' = Pag b" by (auto simp: rbind_eq_Inr_iff)
    with 4 Pag paged.alloc_keeps [of a r n out b] show ?thesis by (auto simp: fun_eq_iff)
  qed
next
  case (5 s r n xs s')
  show ?case
  proof (cases s)
    case (Tok a)
    with 5 obtain b where "token_alloc n r a = Inr (Some xs, b)" "s' = Tok b" by (auto simp: rbind_eq_Inr_iff)
    with 5 Tok token.alloc_some [of a r n xs b] show ?thesis by auto
  next
    case (Pag a)
    with 5 obtain b where "paged_alloc n r a = Inr (Some xs, b)" "s' = Pag b" by (auto simp: rbind_eq_Inr_iff)
    with 5 Pag paged.alloc_some [of a r n xs b] show ?thesis by auto
  qed
next
  case (6 s r n s')
  show ?case
  proof (cases s)
    case (Tok a)
    with 6 obtain b where "token_alloc n r a = Inr (None, b)" "s' = Tok b" by (auto simp: rbind_eq_Inr_iff)
    with 6 Tok token.alloc_none [of a r n b] show ?thesis by auto
  next
    case (Pag a)
    with 6 obtain b where "paged_alloc n r a = Inr (None, b)" "s' = Pag b" by (auto simp: rbind_eq_Inr_iff)
    with 6 Pag paged.alloc_none [of a r n b] show ?thesis by auto
  qed
next
  case (7 s r xs)
  show ?case
  proof (cases s)
    case (Tok a)
    with 7 token.free_law [of a r xs] show ?thesis by (auto simp: fun_eq_iff)
  next
    case (Pag a)
    with 7 paged.free_law [of a r xs] show ?thesis by (auto simp: fun_eq_iff)
  qed
qed

lemma sub_available_size_eq: "sub_ok s r \<Longrightarrow> sub_available_size r s = Inr (length (sub_avail s r))"
  by (cases s) (auto simp: token_available_size_def paged_available_size_def token_inv_def paged_inv_def length_paged_avail)

lemma sub_slots_finite_card:
  "sub_ok s r \<Longrightarrow> length (sub_avail s r) \<le> card (sub_slots s r) \<or> infinite (sub_slots s r)"
  using sub.avail_distinct [of s r] sub.avail_slots [of s r]
  by (metis card_mono distinct_card)

lemma sub_alloc_sizes:
  "sub_alloc n r s = Inr (out, s') \<Longrightarrow> sub_size s' = sub_size s \<and> sub_size_per_rank s' = sub_size_per_rank s"
  by (cases s) (auto simp: rbind_eq_Inr_iff token_alloc_def paged_alloc_def ensure_free_pages_def
      merge_and_sort_free_def Let_def split: if_splits)

lemma sub_free_sizes:
  "sub_free xs r s = Inr s' \<Longrightarrow> sub_size s' = sub_size s \<and> sub_size_per_rank s' = sub_size_per_rank s"
  by (cases s) (auto simp: rbind_eq_Inr_iff token_free_def paged_free_def paged_release_def
      Let_def split: if_splits)

text \<open>How the pool of a constructed allocator lies: its slots are positive, below the size of the map,
  and no more than the sizes the assertions of \<open>free\<close> compare with.\<close>

definition sub_sized :: "nat \<Rightarrow> nat \<Rightarrow> sub_allocator \<Rightarrow> nat \<Rightarrow> bool" where
  "sub_sized dp p s r \<longleftrightarrow> finite (sub_slots s r) \<and> (\<forall>x\<in>sub_slots s r. 0 < x \<and> x < int (sub_size_per_rank s + p)) \<and>
     card (sub_slots s r) \<le> sub_size_per_rank s \<and> sub_size_per_rank s \<le> sub_size s \<and>
     sub_aligned s = (\<lambda>n. n mod p = 0)"

lemma page_slots_eq:
  assumes "0 < p"
  shows "{i. 1 \<le> i div int p \<and> i div int p \<le> int n} = {int p..<int p * (int n + 1)}"
proof -
  have "1 \<le> i div int p \<longleftrightarrow> int p \<le> i" for i
    using pos_imp_zdiv_pos_iff [of "int p" i] assms by linarith
  moreover have "i div int p \<le> int n \<longleftrightarrow> i < int p * (int n + 1)" for i
  proof
    assume "i div int p \<le> int n"
    then have "int p * (i div int p) \<le> int p * int n" by (simp add: mult_left_mono)
    moreover have "i mod int p < int p" using assms by simp
    ultimately show "i < int p * (int n + 1)"
      using mult_div_mod_eq [of "int p" i] by (simp only: distrib_left mult_1_right)
  next
    assume i: "i < int p * (int n + 1)"
    show "i div int p \<le> int n"
    proof (rule ccontr)
      assume "\<not> i div int p \<le> int n"
      then have "int p * (int n + 1) \<le> int p * (i div int p)" by (intro mult_left_mono) auto
      moreover have "0 \<le> i mod int p" using assms by simp
      ultimately show False using i mult_div_mod_eq [of "int p" i] by linarith
    qed
  qed
  ultimately show ?thesis by auto
qed

lemma sub_sized_token:
  assumes "token_init n dp = Inr a" "r < dp"
  shows "sub_sized dp 1 (Tok a) r \<and> sub_ok (Tok a) r \<and> sub_avail (Tok a) r = np_arange 1 (int (n div dp) + 1)
    \<and> sub_slots (Tok a) r = set (sub_avail (Tok a) r) \<and> sub_size_per_rank (Tok a) = n div dp"
  using assms token_inv_init [OF assms(1)]
  by (auto simp: token_init_def sub_sized_def Let_def fun_eq_iff split: if_splits)

lemma sub_sized_paged:
  assumes "paged_init n p d dp = Inr a" "r < dp"
  shows "sub_sized dp p (Pag a) r \<and> sub_ok (Pag a) r \<and> sub_slots (Pag a) r = set (sub_avail (Pag a) r)
    \<and> sub_size_per_rank (Pag a) = n div dp"
proof -
  from assms have p: "0 < p" "0 < dp" and a: "page_size a = p" "pages_per_rank a = n div p div dp"
    "size_per_rank a = n div dp" "pool_size a = n" "dp_size a = dp" "is_not_in_free_group a"
    "free_pages a ! r = np_arange 1 (int (n div p div dp) + 1)" "release_pages a ! r = []"
    by (auto simp: paged_init_def Let_def split: if_splits)
  let ?k = "n div p div dp"
  have k: "?k * p \<le> n div dp"
  proof -
    have "?k = n div dp div p" by (simp add: div_mult2_eq [symmetric] mult.commute)
    then show ?thesis by simp
  qed
  have s: "sub_slots (Pag a) r = {int p..<int p * (int ?k + 1)}"
    using page_slots_eq [OF p(1), of ?k] a by simp
  have "card {int p..<int p * (int ?k + 1)} = ?k * p"
    by (simp add: distrib_left nat_mult_distrib)
  moreover have "int p * (int ?k + 1) \<le> int (n div dp + p)"
    using k by (simp add: distrib_left flip: of_nat_mult) (simp add: mult.commute)
  ultimately have "sub_sized dp p (Pag a) r"
    unfolding sub_sized_def s using k p a by (auto simp: fun_eq_iff div_le_dividend)
  moreover have "sub_slots (Pag a) r = set (sub_avail (Pag a) r)"
    using a p by (simp only: sub_slots.simps sub_avail.simps paged_avail_def set_concat_page_tokens) auto
  ultimately show ?thesis using paged_inv_init [OF assms(1)] a assms(2) by auto
qed


section \<open>A client of the hybrid allocator\<close>

text \<open>Allocate, free a held extent, or give up the window slots of a held extent (what the scheduler does
  when the window has moved past it).\<close>

datatype swa_op = S_Alloc nat | S_Free nat | S_Evict nat

fun swa_client_step :: "nat \<Rightarrow> swa_op \<Rightarrow> swa_allocator \<times> int list list \<Rightarrow> (swa_allocator \<times> int list list) result" where
  "swa_client_step r (S_Alloc n) (a, live) =
     rbind (swa_alloc n r a) (\<lambda>(out, a). Inr (a, case out of None \<Rightarrow> live | Some xs \<Rightarrow> live @ [xs]))"
| "swa_client_step r (S_Free i) (a, live) =
     (if i < length live then rbind (swa_free (live ! i) r a) (\<lambda>a. Inr (a, take i live @ drop (Suc i) live))
      else Inr (a, live))"
| "swa_client_step r (S_Evict i) (a, live) =
     (if i < length live then rbind (free_swa (live ! i) r a) (\<lambda>a. Inr (a, live)) else Inr (a, live))"

fun swa_op_ok :: "nat \<Rightarrow> swa_op \<Rightarrow> bool" where
  "swa_op_ok p (S_Alloc n) = (n mod p = 0)"
| "swa_op_ok p op = True"

text \<open>\<open>win m xs\<close>: the window slots mapped for the full slots \<open>xs\<close>.\<close>

definition win :: "int list \<Rightarrow> int list \<Rightarrow> int list" where
  "win m xs = filter (\<lambda>y. y \<noteq> 0) (map (\<lambda>x. m ! nat x) xs)"

abbreviation the_map :: "swa_allocator \<Rightarrow> nat \<Rightarrow> int list" where
  "the_map a r \<equiv> full_to_swa_index_mapping a ! map_rank a r"

text \<open>The ledger of both pools: free full slots and held extents are exactly the full slots, free window
  slots and the mapped ones exactly the window slots, free full slots are unmapped, and an extent is
  mapped as a whole, onto whole units, or not at all.\<close>

definition swa_holds :: "nat \<Rightarrow> swa_allocator \<Rightarrow> int list list \<Rightarrow> bool" where
  "swa_holds r a live \<longleftrightarrow> (let fu = full_attn_allocator a; sw = swa_attn_allocator a; m = the_map a r in
     is_not_in_free_group a \<and> map_rank a r < length (full_to_swa_index_mapping a) \<and>
     sub_ok fu r \<and> sub_ok sw r \<and>
     sub_sized (dp_size a) (page_size a) fu r \<and> sub_sized (dp_size a) (page_size a) sw r \<and>
     length m = sub_size_per_rank fu + page_size a \<and>
     distinct (sub_avail fu r @ concat live) \<and> set (sub_avail fu r @ concat live) = sub_slots fu r \<and>
     distinct (sub_avail sw r @ win m (concat live)) \<and> set (sub_avail sw r @ win m (concat live)) = sub_slots sw r \<and>
     (\<forall>x\<in>set (sub_avail fu r). m ! nat x = 0) \<and>
     (\<forall>xs\<in>set live. sub_whole fu xs \<and> (win m xs = [] \<or> (win m xs = map (\<lambda>x. m ! nat x) xs \<and> sub_whole sw (win m xs)))))"

lemma swa_holdsD:
  assumes "swa_holds r a live"
  shows "is_not_in_free_group a" "map_rank a r < length (full_to_swa_index_mapping a)"
    "sub_ok (full_attn_allocator a) r" "sub_ok (swa_attn_allocator a) r"
    "sub_sized (dp_size a) (page_size a) (full_attn_allocator a) r"
    "sub_sized (dp_size a) (page_size a) (swa_attn_allocator a) r"
    "length (the_map a r) = sub_size_per_rank (full_attn_allocator a) + page_size a"
    "distinct (sub_avail (full_attn_allocator a) r @ concat live)"
    "set (sub_avail (full_attn_allocator a) r @ concat live) = sub_slots (full_attn_allocator a) r"
    "distinct (sub_avail (swa_attn_allocator a) r @ win (the_map a r) (concat live))"
    "set (sub_avail (swa_attn_allocator a) r @ win (the_map a r) (concat live)) = sub_slots (swa_attn_allocator a) r"
    "\<And>x. x \<in> set (sub_avail (full_attn_allocator a) r) \<Longrightarrow> the_map a r ! nat x = 0"
    "\<And>xs. xs \<in> set live \<Longrightarrow> sub_whole (full_attn_allocator a) xs \<and> (win (the_map a r) xs = [] \<or>
       (win (the_map a r) xs = map (\<lambda>x. the_map a r ! nat x) xs \<and> sub_whole (swa_attn_allocator a) (win (the_map a r) xs)))"
  using assms by (auto simp: swa_holds_def Let_def)

lemma win_append [simp]: "win m (xs @ ys) = win m xs @ win m ys"
  by (simp add: win_def)

lemma win_concat: "win m (concat xss) = concat (map (win m) xss)"
  by (induction xss) (auto simp: win_def)

lemma win_cong: "(\<And>x. x \<in> set xs \<Longrightarrow> m ! nat x = m' ! nat x) \<Longrightarrow> win m xs = win m' xs"
  by (simp add: win_def cong: map_cong)

lemma sub_sized_keep:
  assumes "sub_sized dp p s r" "sub_slots s' = sub_slots s" "sub_aligned s' = sub_aligned s"
    "sub_size s' = sub_size s" "sub_size_per_rank s' = sub_size_per_rank s"
  shows "sub_sized dp p s' r"
  using assms by (simp add: sub_sized_def)

text \<open>In range of the map.\<close>

lemma swa_holds_range:
  assumes "swa_holds r a live" "x \<in> sub_slots (full_attn_allocator a) r"
  shows "0 \<le> x \<and> x < int (length (the_map a r))"
  using swa_holdsD(5,7) [OF assms(1)] assms(2) by (auto simp: sub_sized_def)

lemma swa_holds_extent:
  assumes "swa_holds r a live" "xs \<in> set live"
  shows "\<forall>x\<in>set xs. 0 \<le> x \<and> x < int (length (the_map a r))" "distinct xs" "set xs \<subseteq> sub_slots (full_attn_allocator a) r"
proof -
  show sub: "set xs \<subseteq> sub_slots (full_attn_allocator a) r" using swa_holdsD(9) [OF assms(1)] assms(2) by auto
  then show "\<forall>x\<in>set xs. 0 \<le> x \<and> x < int (length (the_map a r))" using swa_holds_range [OF assms(1)] by blast
  show "distinct xs" using swa_holdsD(8) [OF assms(1)] assms(2) by (auto simp: distinct_concat_iff)
qed

lemma mset_split_live:
  assumes "i < length live"
  shows "mset (concat live) = mset (live ! i) + mset (concat (take i live @ drop (Suc i) live))"
  using concat_remove_nth [OF assms] by (simp add: add.commute)


lemma mset_win: "mset (win m xs) = filter_mset (\<lambda>y. y \<noteq> 0) (image_mset (\<lambda>x. m ! nat x) (mset xs))"
  by (simp add: win_def flip: mset_map mset_filter)

lemma sub_whole_Nil [simp]: "sub_whole s []"
  by (cases s) (auto simp: whole_pages_def intro: exI [of _ "[]"])

lemma win_mset_cong: "mset xs = mset ys \<Longrightarrow> mset (win m xs) = mset (win m ys)"
  by (simp add: mset_win)

lemma win_zero: "(\<And>x. x \<in> set xs \<Longrightarrow> m ! nat x = 0) \<Longrightarrow> win m xs = []"
  by (simp add: win_def)

text \<open>Releasing the window slots of one extent.\<close>

lemma free_swa_step:
  assumes h: "swa_holds r a live" and xs: "xs \<in> set live"
  shows "\<exists>b. free_swa xs r a = Inr b \<and> swa_holds r b live \<and> full_attn_allocator b = full_attn_allocator a \<and> sub_slots (swa_attn_allocator b) = sub_slots (swa_attn_allocator a) \<and>
    dp_size b = dp_size a \<and> page_size b = page_size a \<and> win (the_map b r) xs = [] \<and> (\<forall>x\<in>set xs. the_map b r ! nat x = 0) \<and>
    (\<forall>x. 0 \<le> x \<longrightarrow> x \<notin> set xs \<longrightarrow> the_map b r ! nat x = the_map a r ! nat x)"
proof -
  let ?m = "the_map a r" and ?sw = "swa_attn_allocator a" and ?fu = "full_attn_allocator a"
  note e = swa_holds_extent [OF h xs]
  obtain i where i: "i < length live" "live ! i = xs" using xs by (metis in_set_conv_nth)
  let ?rest = "concat (take i live @ drop (Suc i) live)"
  have split: "mset (concat live) = mset xs + mset ?rest" using mset_split_live [OF i(1)] i(2) by simp
  have dis: "set xs \<inter> set ?rest = {}"
  proof -
    have "distinct (xs @ ?rest)"
      using split swa_holdsD(8) [OF h] by (metis distinct_append mset_append mset_eq_imp_distinct_iff)
    then show ?thesis by auto
  qed
  obtain m' where put: "np_put ?m xs (replicate (length xs) 0) = Inr m'"
    using np_put_total e(1) by (metis length_replicate)
  have m'0: "m' ! nat x = 0" if "x \<in> set xs" for x
    using that np_put_nth [OF put e(1,2)] by (metis in_set_conv_nth nth_replicate)
  have m'_frame: "m' ! nat x = ?m ! nat x" if "x \<notin> set xs" "0 \<le> x" for x
    using np_put_frame [OF put e(1), of "nat x"] that by simp
  have vals: "filter (\<lambda>y. 0 < y) (map (\<lambda>x. ?m ! nat x) xs) = win ?m xs"
  proof -
    have "\<forall>y\<in>set (win ?m xs). 0 < y"
      using swa_holdsD(6,11) [OF h] xs by (auto simp: win_concat sub_sized_def)
    then show ?thesis by (fastforce simp: win_def intro: filter_cong)
  qed
  have wdist: "distinct (sub_avail ?sw r @ win ?m xs)"
    using swa_holdsD(10) [OF h] xs by (auto simp: win_concat distinct_concat_iff)
  have wsub: "set (win ?m xs) \<subseteq> sub_slots ?sw r" using swa_holdsD(11) [OF h] xs by (auto simp: win_concat)
  have "sub_whole ?sw (win ?m xs)" using swa_holdsD(13) [OF h xs] by auto
  then obtain sw' where sw': "sub_free (win ?m xs) r ?sw = Inr sw'" "sub_ok sw' r" "sub_slots sw' = sub_slots ?sw"
    "sub_aligned sw' = sub_aligned ?sw" "sub_whole sw' = sub_whole ?sw"
    "mset (sub_avail sw' r) = mset (sub_avail ?sw r) + mset (win ?m xs)"
    using sub.free_law [OF swa_holdsD(4) [OF h] _ wdist wsub] by blast
  let ?b = "(put_mapping r m' a)\<lparr>swa_attn_allocator := sw'\<rparr>"
  have the: "the_map ?b r = m'" using swa_holdsD(2) [OF h] by (simp add: put_mapping_def map_rank_def)
  have free: "free_swa xs r a = Inr ?b"
    using swa_holdsD(1,2) [OF h] sw'(1) put e(1) vals
    by (simp add: free_swa_def get_mapping_def np_take_in_range put_mapping_def)
  have rest_nonneg: "\<forall>x\<in>set ?rest. 0 \<le> x"
    using swa_holdsD(9) [OF h] swa_holds_range [OF h] split
    by (metis Un_iff set_append mset_eq_setD mset_append)
  have wrest: "win m' ?rest = win ?m ?rest" by (rule win_cong) (use dis rest_nonneg m'_frame in blast)
  have wxs: "win m' xs = []" by (rule win_zero) (use m'0 in auto)
  have wall: "mset (win ?m (concat live)) = mset (win ?m xs) + mset (win m' (concat live))"
  proof -
    have "mset (concat live) = mset (xs @ ?rest)" using split by simp
    note this [THEN win_mset_cong]
    from this [of ?m] this [of m'] show ?thesis
      unfolding win_append wxs wrest mset_append by simp
  qed
  have m_eq: "mset (sub_avail sw' r @ win m' (concat live)) = mset (sub_avail ?sw r @ win ?m (concat live))"
    using wall sw'(6) by simp
  have ext: "win m' ys = [] \<or> win m' ys = map (\<lambda>x. m' ! nat x) ys \<and> sub_whole sw' (win m' ys)" if "ys \<in> set live" for ys
  proof (cases "ys = xs")
    case False
    have "set ys \<inter> set xs = {}"
      using swa_holdsD(8) [OF h] that xs False by (auto simp: distinct_concat_iff)
    then have "m' ! nat x = ?m ! nat x" if "x \<in> set ys" for x
      using m'_frame that swa_holds_extent(1) [OF h \<open>ys \<in> set live\<close>] by blast
    then have "win m' ys = win ?m ys" "map (\<lambda>x. m' ! nat x) ys = map (\<lambda>x. ?m ! nat x) ys"
      by (auto intro: win_cong)
    then show ?thesis using swa_holdsD(13) [OF h that] unfolding sw'(5) by metis
  qed (simp add: wxs)
  have "swa_holds r ?b live"
    unfolding swa_holds_def Let_def the
  proof (intro conjI ballI)
    show "distinct (sub_avail (swa_attn_allocator ?b) r @ win m' (concat live))"
      using mset_eq_imp_distinct_iff [OF m_eq] swa_holdsD(10) [OF h] by simp
    show "set (sub_avail (swa_attn_allocator ?b) r @ win m' (concat live)) = sub_slots (swa_attn_allocator ?b) r"
      using mset_eq_setD [OF m_eq] swa_holdsD(11) [OF h] sw'(3) by simp
    show "m' ! nat x = 0" if "x \<in> set (sub_avail (full_attn_allocator ?b) r)" for x
    proof (cases "x \<in> set xs")
      case False
      moreover have "0 \<le> x" using that swa_holdsD(9) [OF h] swa_holds_range [OF h, of x] by (auto simp: put_mapping_def)
      ultimately show ?thesis using that m'_frame swa_holdsD(12) [OF h, of x] by (simp add: put_mapping_def)
    qed (rule m'0)
    show "sub_sized (dp_size ?b) (page_size ?b) (swa_attn_allocator ?b) r"
      using sub_sized_keep [OF swa_holdsD(6) [OF h] sw'(3,4)] sub_free_sizes [OF sw'(1)] by (simp add: put_mapping_def)
  qed (use swa_holdsD [OF h] length_np_put [OF put] ext sw' in \<open>auto simp: put_mapping_def map_rank_def\<close>)
  moreover have "\<forall>x. 0 \<le> x \<longrightarrow> x \<notin> set xs \<longrightarrow> the_map ?b r ! nat x = ?m ! nat x" unfolding the using m'_frame by blast
  ultimately show ?thesis using free the wxs m'0 sw'(3) by (intro exI [of _ ?b]) (simp add: put_mapping_def)
qed


lemma free_swa_full_commute:
  "free_swa xs r (a\<lparr>full_attn_allocator := fu\<rparr>) = rbind (free_swa xs r a) (\<lambda>b. Inr (b\<lparr>full_attn_allocator := fu\<rparr>))"
  by (simp add: free_swa_def get_mapping_def put_mapping_def map_rank_def rbind_def Let_def split: sum.splits prod.splits)

lemma swa_avail_bounds:
  assumes "sub_sized dp p s r" "sub_ok s r"
  shows "length (sub_avail s r) \<le> sub_size_per_rank s" "length (sub_avail s r) \<le> sub_size s"
proof -
  have "length (sub_avail s r) \<le> card (sub_slots s r)"
    using assms sub.avail_distinct [of s r] sub.avail_slots [of s r]
    by (metis card_mono distinct_card sub_sized_def)
  then show "length (sub_avail s r) \<le> sub_size_per_rank s" "length (sub_avail s r) \<le> sub_size s"
    using assms(1) by (auto simp: sub_sized_def)
qed

text \<open>Freeing an extent that is held.\<close>

lemma swa_free_step:
  assumes h: "swa_holds r a live" and i: "i < length live"
  shows "\<exists>b. swa_free (live ! i) r a = Inr b \<and> swa_holds r b (take i live @ drop (Suc i) live)
    \<and> sub_slots (full_attn_allocator b) = sub_slots (full_attn_allocator a) \<and> sub_slots (swa_attn_allocator b) = sub_slots (swa_attn_allocator a)
    \<and> dp_size b = dp_size a \<and> page_size b = page_size a"
proof (cases "live ! i = []")
  case True
  have "concat live = concat (take i live @ drop (Suc i) live)"
    using i True by (metis append.simps(1) append_Cons concat.simps(2) concat_append id_take_nth_drop)
  then have "swa_holds r a (take i live @ drop (Suc i) live)"
    using h by (auto simp: swa_holds_def Let_def dest: in_set_takeD in_set_dropD)
  with True show ?thesis by (simp add: swa_free_def)
next
  case False
  let ?xs = "live ! i" and ?fu = "full_attn_allocator a" and ?rest = "take i live @ drop (Suc i) live"
  have xs: "?xs \<in> set live" using i by simp
  note split = mset_split_live [OF i]
  note e = swa_holds_extent [OF h xs]
  have "distinct (sub_avail ?fu r @ ?xs)" using swa_holdsD(8) [OF h] xs e(2) by auto
  then obtain fu where fu: "sub_free ?xs r ?fu = Inr fu" "sub_ok fu r" "sub_slots fu = sub_slots ?fu"
    "sub_aligned fu = sub_aligned ?fu" "sub_whole fu = sub_whole ?fu"
    "mset (sub_avail fu r) = mset (sub_avail ?fu r) + mset ?xs"
    using sub.free_law [OF swa_holdsD(3) [OF h] _ _ e(3)] swa_holdsD(13) [OF h xs] by blast
  obtain b where b: "free_swa ?xs r a = Inr b" "swa_holds r b live" "full_attn_allocator b = ?fu"
    "dp_size b = dp_size a" "page_size b = page_size a" "win (the_map b r) ?xs = []" "\<forall>x\<in>set ?xs. the_map b r ! nat x = 0"
    "sub_slots (swa_attn_allocator b) = sub_slots (swa_attn_allocator a)"
    using free_swa_step [OF h xs] by blast
  let ?c = "b\<lparr>full_attn_allocator := fu\<rparr>"
  have m1: "mset (sub_avail fu r @ concat ?rest) = mset (sub_avail (full_attn_allocator b) r @ concat live)"
    using fu(6) split b(3) by simp
  have m2: "mset (win (the_map b r) (concat live)) = mset (win (the_map b r) (concat ?rest))"
    using win_mset_cong [of "concat live" "?xs @ concat ?rest" "the_map b r"] split b(6) by simp
  then have m3: "mset (sub_avail (swa_attn_allocator b) r @ win (the_map b r) (concat live)) =
      mset (sub_avail (swa_attn_allocator b) r @ win (the_map b r) (concat ?rest))" by simp
  have c: "swa_holds r ?c ?rest"
    unfolding swa_holds_def Let_def
  proof (intro conjI ballI)
    show "distinct (sub_avail (full_attn_allocator ?c) r @ concat ?rest)"
      using mset_eq_imp_distinct_iff [OF m1] swa_holdsD(8) [OF b(2)] by simp
    show "set (sub_avail (full_attn_allocator ?c) r @ concat ?rest) = sub_slots (full_attn_allocator ?c) r"
      using mset_eq_setD [OF m1] swa_holdsD(9) [OF b(2)] b(3) fu(3) by simp
    show "distinct (sub_avail (swa_attn_allocator ?c) r @ win (the_map ?c r) (concat ?rest))"
      using mset_eq_imp_distinct_iff [OF m3] swa_holdsD(10) [OF b(2)] by (simp add: map_rank_def)
    show "set (sub_avail (swa_attn_allocator ?c) r @ win (the_map ?c r) (concat ?rest)) = sub_slots (swa_attn_allocator ?c) r"
      using mset_eq_setD [OF m3] swa_holdsD(11) [OF b(2)] by (simp add: map_rank_def)
    show "the_map ?c r ! nat x = 0" if "x \<in> set (sub_avail (full_attn_allocator ?c) r)" for x
      using that b(3,7) swa_holdsD(12) [OF b(2), of x] mset_eq_setD [of "sub_avail fu r" "sub_avail ?fu r @ ?xs"] fu(6)
      by (auto simp: map_rank_def)
    show "sub_sized (dp_size ?c) (page_size ?c) (full_attn_allocator ?c) r"
      using sub_sized_keep [OF swa_holdsD(5) [OF h] fu(3,4)] sub_free_sizes [OF fu(1)] b by simp
    fix ys assume "ys \<in> set ?rest"
    then have ys: "ys \<in> set live" by (auto dest: in_set_takeD in_set_dropD)
    note w = swa_holdsD(13) [OF b(2) ys]
    show "sub_whole (full_attn_allocator ?c) ys" using w fu(5) b(3) by simp
    show "win (the_map ?c r) ys = [] \<or> win (the_map ?c r) ys = map (\<lambda>x. the_map ?c r ! nat x) ys \<and>
        sub_whole (swa_attn_allocator ?c) (win (the_map ?c r) ys)"
      using w by (simp add: map_rank_def)
  qed (use swa_holdsD(1,2,4,6,7) [OF b(2)] b(3) fu(2) sub_free_sizes [OF fu(1)] in \<open>auto simp: map_rank_def\<close>)
  have "swa_free ?xs r a = Inr ?c"
    using False swa_holdsD(1) [OF h] fu(1) b(1) swa_holdsD(3,4) [OF c]
      swa_avail_bounds [OF swa_holdsD(5,3) [OF c]] swa_avail_bounds [OF swa_holdsD(6,4) [OF c]]
    by (simp add: swa_free_def swa_free_full_def free_swa_full_commute full_available_size_def swa_available_size_def
        sub_available_size_eq)
  with c b fu(3) show ?thesis by auto
qed


text \<open>Allocating: the window slots are asked for only when both pools have enough, so the rollback is not
  reached; the new extent is mapped as a whole.\<close>

lemma swa_alloc_given:
  assumes h: "swa_holds r a live" and n: "n mod page_size a = 0"
    and fa: "n \<le> length (sub_avail (full_attn_allocator a) r)" and sa: "n \<le> length (sub_avail (swa_attn_allocator a) r)"
  shows "\<exists>xs b. swa_alloc n r a = Inr (Some xs, b) \<and> length xs = n \<and> swa_holds r b (live @ [xs])
    \<and> sub_slots (full_attn_allocator b) = sub_slots (full_attn_allocator a) \<and> sub_slots (swa_attn_allocator b) = sub_slots (swa_attn_allocator a)
    \<and> length (win (the_map b r) xs) = n \<and> dp_size b = dp_size a \<and> page_size b = page_size a"
proof -
  let ?fu = "full_attn_allocator a" and ?sw = "swa_attn_allocator a" and ?m = "the_map a r"
  have al: "sub_aligned ?fu n" "sub_aligned ?sw n" using swa_holdsD(5,6) [OF h] n by (auto simp: sub_sized_def)
  note okf = swa_holdsD(3) [OF h] and oks = swa_holdsD(4) [OF h]
  obtain xs fu where fu: "sub_alloc n r ?fu = Inr (Some xs, fu)" using sub.alloc_succeeds_iff [OF okf al(1)] fa by blast
  obtain ys sw where sw: "sub_alloc n r ?sw = Inr (Some ys, sw)" using sub.alloc_succeeds_iff [OF oks al(2)] sa by blast
  note f = sub.alloc_some [OF okf al(1) fu] and fk = sub.alloc_keeps [OF okf al(1) fu]
  note s = sub.alloc_some [OF oks al(2) sw] and sk = sub.alloc_keeps [OF oks al(2) sw]
  have xs_avail: "set (sub_avail ?fu r) = set (sub_avail fu r) \<union> set xs" and xs_dist: "distinct (sub_avail fu r @ xs)"
    using f sub.avail_distinct [OF okf] mset_eq_setD [of "sub_avail ?fu r" "sub_avail fu r @ xs"]
      mset_eq_imp_distinct_iff [of "sub_avail ?fu r" "sub_avail fu r @ xs"] by auto
  have ys_slots: "set ys \<subseteq> sub_slots ?sw r"
    using s sub.avail_slots [OF oks] mset_eq_setD [of "sub_avail ?sw r" "sub_avail sw r @ ys"] by auto
  have rng: "\<forall>x\<in>set xs. 0 \<le> x \<and> x < int (length ?m)"
    using xs_avail sub.avail_slots [OF okf] swa_holds_range [OF h] by blast
  obtain m' where put: "np_put ?m xs ys = Inr m'" using np_put_total [OF rng, of ys] f s by auto
  have mxs: "map (\<lambda>x. m' ! nat x) xs = ys"
    by (rule nth_equalityI) (use f s np_put_nth [OF put rng] xs_dist in auto)
  have wxs: "win m' xs = ys"
    unfolding win_def mxs using ys_slots swa_holdsD(6) [OF h] by (auto simp: sub_sized_def intro!: filter_True)
  have frame: "m' ! nat x = ?m ! nat x" if "x \<notin> set xs" "0 \<le> x" for x
    using np_put_frame [OF put rng, of "nat x"] that by simp
  have out: "x \<notin> set xs \<and> 0 \<le> x" if "x \<in> set (concat live)" for x
    using that swa_holdsD(8,9) [OF h] xs_avail swa_holds_range [OF h, of x] by auto
  have wlive: "win m' zs = win ?m zs" "map (\<lambda>x. m' ! nat x) zs = map (\<lambda>x. ?m ! nat x) zs" if "set zs \<subseteq> set (concat live)" for zs
    using that out frame by (auto intro!: win_cong)
  let ?b = "put_mapping r m' (a\<lparr>full_attn_allocator := fu, swa_attn_allocator := sw\<rparr>)"
  have the: "the_map ?b r = m'" using swa_holdsD(2) [OF h] by (simp add: put_mapping_def map_rank_def)
  have run: "swa_alloc n r a = Inr (Some xs, ?b)"
    using fa sa fu sw put okf oks swa_holdsD(2) [OF h]
    by (simp add: swa_alloc_def full_available_size_def swa_available_size_def sub_available_size_eq get_mapping_def map_rank_def)
  have m1: "mset (sub_avail fu r @ concat (live @ [xs])) = mset (sub_avail ?fu r @ concat live)" using f by simp
  have m2: "mset (sub_avail sw r @ win m' (concat (live @ [xs]))) = mset (sub_avail ?sw r @ win ?m (concat live))"
    using s wxs wlive(1) [of "concat live"] by simp
  have ext: "win m' zs = [] \<or> win m' zs = map (\<lambda>x. m' ! nat x) zs \<and> sub_whole sw (win m' zs)" if "zs \<in> set (live @ [xs])" for zs
  proof (cases "zs \<in> set live")
    case True
    then have "set zs \<subseteq> set (concat live)" by auto
    from wlive [OF this] swa_holdsD(13) [OF h True] sk show ?thesis by metis
  next
    case False
    with that wxs mxs s sk show ?thesis by auto
  qed
  have "swa_holds r ?b (live @ [xs])"
    unfolding swa_holds_def Let_def the
  proof (intro conjI ballI)
    show "distinct (sub_avail (full_attn_allocator ?b) r @ concat (live @ [xs]))"
      using mset_eq_imp_distinct_iff [OF m1] swa_holdsD(8) [OF h] by (simp add: put_mapping_def)
    show "set (sub_avail (full_attn_allocator ?b) r @ concat (live @ [xs])) = sub_slots (full_attn_allocator ?b) r"
      using mset_eq_setD [OF m1] swa_holdsD(9) [OF h] fk by (simp add: put_mapping_def)
    show "distinct (sub_avail (swa_attn_allocator ?b) r @ win m' (concat (live @ [xs])))"
      using mset_eq_imp_distinct_iff [OF m2] swa_holdsD(10) [OF h] by (simp add: put_mapping_def)
    show "set (sub_avail (swa_attn_allocator ?b) r @ win m' (concat (live @ [xs]))) = sub_slots (swa_attn_allocator ?b) r"
      using mset_eq_setD [OF m2] swa_holdsD(11) [OF h] sk by (simp add: put_mapping_def)
    show "m' ! nat x = 0" if "x \<in> set (sub_avail (full_attn_allocator ?b) r)" for x
    proof -
      from that have x: "x \<in> set (sub_avail fu r)" by (simp add: put_mapping_def)
      then have "x \<in> set (sub_avail ?fu r)" "x \<notin> set xs" using xs_avail xs_dist by auto
      moreover from this have "0 \<le> x" using swa_holds_range [OF h, of x] sub.avail_slots [OF okf] by blast
      ultimately show ?thesis using frame swa_holdsD(12) [OF h] by metis
    qed
    show "sub_sized (dp_size ?b) (page_size ?b) (full_attn_allocator ?b) r"
      using sub_sized_keep [OF swa_holdsD(5) [OF h], of fu] fk sub_alloc_sizes [OF fu] by (simp add: put_mapping_def)
    show "sub_sized (dp_size ?b) (page_size ?b) (swa_attn_allocator ?b) r"
      using sub_sized_keep [OF swa_holdsD(6) [OF h], of sw] sk sub_alloc_sizes [OF sw] by (simp add: put_mapping_def)
    show "sub_whole (full_attn_allocator ?b) zs" if "zs \<in> set (live @ [xs])" for zs
      using that f fk swa_holdsD(13) [OF h, of zs] by (auto simp: put_mapping_def)
  qed (use swa_holdsD [OF h] length_np_put [OF put] ext fk sk sub_alloc_sizes [OF fu] in \<open>auto simp: put_mapping_def map_rank_def\<close>)
  with run f s the wxs fk sk show ?thesis by (auto simp: put_mapping_def)
qed

lemma swa_alloc_refused:
  assumes h: "swa_holds r a live"
    and "length (sub_avail (full_attn_allocator a) r) < n \<or> length (sub_avail (swa_attn_allocator a) r) < n"
  shows "swa_alloc n r a = Inr (None, a)"
  using assms swa_holdsD(3,4) [OF h]
  by (auto simp: swa_alloc_def full_available_size_def swa_available_size_def sub_available_size_eq)

lemma swa_client_step_holds:
  assumes h: "swa_holds r a live" and ok: "swa_op_ok (page_size a) op"
  shows "\<exists>b live'. swa_client_step r op (a, live) = Inr (b, live') \<and> swa_holds r b live' \<and> sub_slots (full_attn_allocator b) = sub_slots (full_attn_allocator a) \<and> sub_slots (swa_attn_allocator b) = sub_slots (swa_attn_allocator a) \<and> dp_size b = dp_size a \<and> page_size b = page_size a"
proof (cases op)
  case (S_Alloc n)
  show ?thesis
  proof (cases "length (sub_avail (full_attn_allocator a) r) < n \<or> length (sub_avail (swa_attn_allocator a) r) < n")
    case True
    from swa_alloc_refused [OF h True] S_Alloc h show ?thesis by simp
  next
    case False
    with swa_alloc_given [OF h, of n] S_Alloc ok show ?thesis by fastforce
  qed
next
  case (S_Free i)
  with swa_free_step [OF h, of i] h show ?thesis by (cases "i < length live") auto
next
  case (S_Evict i)
  with free_swa_step [OF h, of "live ! i"] h show ?thesis by (cases "i < length live") auto
qed


text \<open>Construction.\<close>

lemma sub_clear_init_token: "token_init n dp = Inr a \<Longrightarrow> sub_clear None (Tok a) = Inr (Tok a)"
  using for_m_fixpoint [of "[0..<dp]" token_clear_rank a]
  by (auto simp: token_init_def token_clear_def Let_def token_clear_rank_def split: if_splits)

lemma sub_clear_init_paged: "paged_init n p d dp = Inr a \<Longrightarrow> sub_clear None (Pag a) = Inr (Pag a)"
  using for_m_fixpoint [of "[0..<dp]" paged_clear_rank a]
  by (auto simp: paged_init_def paged_clear_def Let_def paged_clear_rank_def split: if_splits)

definition sub_made :: "nat \<Rightarrow> nat \<Rightarrow> nat \<Rightarrow> sub_allocator result" where
  "sub_made n p dp = (if p = 1 then rbind (token_init n dp) (\<lambda>a. Inr (Tok a))
     else rbind (paged_init n p False dp) (\<lambda>a. Inr (Pag a)))"

lemma sub_made_facts:
  assumes "sub_made n p dp = Inr s" "r < dp"
  shows "sub_sized dp p s r" "sub_ok s r" "sub_slots s r = set (sub_avail s r)" "sub_clear None s = Inr s"
    "sub_size_per_rank s = n div dp"
proof -
  have "sub_sized dp p s r \<and> sub_ok s r \<and> sub_slots s r = set (sub_avail s r) \<and> sub_clear None s = Inr s
      \<and> sub_size_per_rank s = n div dp"
  proof (cases "p = 1")
    case True
    with assms(1) obtain a where "token_init n dp = Inr a" "s = Tok a" by (auto simp: sub_made_def rbind_eq_Inr_iff)
    with sub_sized_token [of n dp a r] sub_clear_init_token [of n dp a] assms(2) True show ?thesis by (simp del: sub_slots.simps sub_avail.simps)
  next
    case False
    with assms(1) obtain a where "paged_init n p False dp = Inr a" "s = Pag a" by (auto simp: sub_made_def rbind_eq_Inr_iff)
    with sub_sized_paged [of n p False dp a r] sub_clear_init_paged [of n p False dp a] assms(2) show ?thesis by simp
  qed
  then show "sub_sized dp p s r" "sub_ok s r" "sub_slots s r = set (sub_avail s r)" "sub_clear None s = Inr s"
    "sub_size_per_rank s = n div dp" by auto
qed

lemma swa_init_holds:
  assumes "swa_init n_full n_swa p dp = Inr a" "r < dp"
  shows "swa_holds r a [] \<and> page_size a = p \<and> dp_size a = dp \<and>
    sub_slots (full_attn_allocator a) r = set (sub_avail (full_attn_allocator a) r) \<and>
    sub_slots (swa_attn_allocator a) r = set (sub_avail (swa_attn_allocator a) r)"
proof -
  from assms(1) obtain fu sw where fu: "sub_made n_full p dp = Inr fu" and sw: "sub_made n_swa p dp = Inr sw"
    and cl: "swa_clear None
         \<lparr>pool_size = n_full, page_size = p, dp_size = dp, size_per_rank = n_full div dp,
          is_not_in_free_group = True, free_group = replicate dp [],
          size_full = n_full, size_swa = n_swa, full_attn_allocator = fu, swa_attn_allocator = sw,
          full_to_swa_index_mapping = replicate dp (replicate (sub_size_per_rank fu + p) 0),
          free_group_full = replicate dp [], free_group_swa = replicate dp [],
          free_group_full_seen = replicate dp {}, free_group_swa_seen = replicate dp {}\<rparr> = Inr a"
    unfolding swa_init_def sub_made_def [symmetric] rbind_eq_Inr_iff by blast
  note f = sub_made_facts [OF fu assms(2)] and s = sub_made_facts [OF sw assms(2)]
  let ?a = "\<lparr>pool_size = n_full, page_size = p, dp_size = dp, size_per_rank = n_full div dp,
          is_not_in_free_group = True, free_group = replicate dp [],
          size_full = n_full, size_swa = n_swa, full_attn_allocator = fu, swa_attn_allocator = sw,
          full_to_swa_index_mapping = replicate dp (replicate (sub_size_per_rank fu + p) 0),
          free_group_full = replicate dp [], free_group_swa = replicate dp [],
          free_group_full_seen = replicate dp {}, free_group_swa_seen = replicate dp {}\<rparr> :: swa_allocator"
  have "for_m zero_mapping [0..<dp] ?a = Inr ?a"
    by (rule for_m_fixpoint) (auto simp: zero_mapping_def get_mapping_def put_mapping_def map_rank_def)
  with cl f(4) s(4) have a: "a = ?a" by (simp add: swa_clear_def reset_free_group_state_def)
  have rank: "map_rank ?a r < dp" using assms(2) by (simp add: map_rank_def)
  have rng: "nat x < sub_size_per_rank fu + p" if "x \<in> set (sub_avail fu r)" for x
    using f(1,3) that by (auto simp: sub_sized_def)
  show ?thesis
    unfolding a swa_holds_def Let_def using f s rank rng sub.avail_distinct [OF f(2)] sub.avail_distinct [OF s(2)]
    by (simp add: win_def)
qed

lemma swa_client_holds:
  assumes "swa_holds r a live" "\<forall>op\<in>set ops. swa_op_ok (page_size a) op"
  shows "\<exists>b live'. for_m (swa_client_step r) ops (a, live) = Inr (b, live') \<and> swa_holds r b live'
    \<and> sub_slots (full_attn_allocator b) = sub_slots (full_attn_allocator a) \<and> sub_slots (swa_attn_allocator b) = sub_slots (swa_attn_allocator a)
    \<and> dp_size b = dp_size a \<and> page_size b = page_size a"
  using assms
proof (induction ops arbitrary: a live)
  case (Cons op ops)
  then obtain b live' where "swa_client_step r op (a, live) = Inr (b, live')" "swa_holds r b live'"
    "sub_slots (full_attn_allocator b) = sub_slots (full_attn_allocator a)" "sub_slots (swa_attn_allocator b) = sub_slots (swa_attn_allocator a)"
    "dp_size b = dp_size a" "page_size b = page_size a" using swa_client_step_holds [of r a live op] by auto
  with Cons.IH [of b live'] Cons.prems show ?case by auto
qed simp


lemma paged_release_pages:
  assumes "paged_release xs r a = Inr b"
  shows "set (free_pages b ! r @ release_pages b ! r) =
      set (free_pages a ! r @ release_pages a ! r) \<union> (\<lambda>i. i div int (page_size a)) ` set xs" "page_size b = page_size a"
proof -
  let ?new = "np_setdiff1d (np_setdiff1d (np_unique (map (\<lambda>i. i div int (page_size a)) xs)) (release_pages a ! r)) (free_pages a ! r)"
  have "set ?new = (\<lambda>i. i div int (page_size a)) ` set xs - set (release_pages a ! r) - set (free_pages a ! r)"
    by (auto simp: np_setdiff1d_def np_unique_def)
  then have "?new = [] \<Longrightarrow> (\<lambda>i. i div int (page_size a)) ` set xs \<subseteq> set (release_pages a ! r) \<union> set (free_pages a ! r)"
    by auto
  with \<open>set ?new = _\<close> assms show "set (free_pages b ! r @ release_pages b ! r) =
      set (free_pages a ! r @ release_pages a ! r) \<union> (\<lambda>i. i div int (page_size a)) ` set xs" "page_size b = page_size a"
    by (auto simp: paged_release_def Let_def split: if_splits)
qed

lemma swa_pair_rollback:
  assumes np: "map_rank a r < length (full_to_swa_index_mapping a)" "np_take (the_map a r) ls = Inr wl"
    and full: "full_result = (Some xs, Pag f)" and f: "paged_inv f" "r < dp_size f" "is_not_in_free_group f"
    and refused: "ask wl (swa_attn_allocator a) = Inr (None, sw)"
    and run: "swa_pair ask ls r full_result a = Inr (None, b)"
    and x: "x \<in> set xs" "x div int (page_size f) = l div int (page_size f)"
  shows "l \<in> set (sub_avail (full_attn_allocator b) r)"
proof -
  from f have lens: "r < length (free_pages f)" "r < length (release_pages f)" and p: "0 < page_size f"
    by (auto simp: paged_inv_def)
  from full run refused np obtain fu where fu: "sub_free xs r (Pag f) = Inr fu" "full_attn_allocator b = fu"
    by (auto simp: swa_pair_def get_mapping_def rbind_eq_Inr_iff map_rank_def)
  from x(1) fu(1) f(3) obtain g where g: "paged_release xs r f = Inr g" "fu = Pag g"
    by (auto simp: paged_free_def rbind_eq_Inr_iff split: if_splits)
  have "l div int (page_size f) \<in> set (free_pages g ! r @ release_pages g ! r)"
    unfolding paged_release_pages(1) [OF g(1)] x(2) [symmetric] using x(1) by blast
  then have "l \<in> set (paged_avail g r)"
    unfolding paged_avail_def paged_release_pages(2) [OF g(1)] using p by (subst set_concat_page_tokens) auto
  then have "l \<in> set (sub_avail fu r)" using g(2) by simp
  with fu(2) show ?thesis by simp
qed


section \<open>Properties\<close>

text \<open>C10. The hybrid allocator keeps both pools: starting from its constructor, any sequence of
  allocations of whole pages, frees of held extents and releases of their window slots runs without an
  exception; afterwards the free full slots and the held extents are exactly the full slots of the rank,
  each once, and the free window slots and the window slots mapped by the held extents are exactly the
  window slots, each once.\<close>

theorem swa_client_conserves:
  assumes "swa_init n_full n_swa p dp = Inr a" "r < dp" "\<forall>op\<in>set ops. swa_op_ok p op"
  shows "\<exists>b live. for_m (swa_client_step r) ops (a, []) = Inr (b, live) \<and>
    distinct (sub_avail (full_attn_allocator b) r @ concat live) \<and>
    set (sub_avail (full_attn_allocator b) r @ concat live) = set (sub_avail (full_attn_allocator a) r) \<and>
    distinct (sub_avail (swa_attn_allocator b) r @ win (the_map b r) (concat live)) \<and>
    set (sub_avail (swa_attn_allocator b) r @ win (the_map b r) (concat live)) = set (sub_avail (swa_attn_allocator a) r)"
proof -
  note i = swa_init_holds [OF assms(1,2)]
  with swa_client_holds [of r a "[]" ops] assms(3) obtain b live where
    b: "for_m (swa_client_step r) ops (a, []) = Inr (b, live)" "swa_holds r b live"
    "sub_slots (full_attn_allocator b) = sub_slots (full_attn_allocator a)"
    "sub_slots (swa_attn_allocator b) = sub_slots (swa_attn_allocator a)" by auto
  with i swa_holdsD(8-11) [OF b(2)] show ?thesis by (intro exI [of _ b] exI [of _ live]) simp
qed

theorem swa_client_conserves_witness:
  "\<exists>a b live. swa_init 8 4 2 1 = Inr a \<and>
    for_m (swa_client_step 0) [S_Alloc 2, S_Alloc 2, S_Evict 0, S_Alloc 2, S_Free 1, S_Free 0] (a, []) = Inr (b, live) \<and>
    distinct (sub_avail (swa_attn_allocator b) 0 @ win (the_map b 0) (concat live))"
proof -
  obtain a where "swa_init 8 4 2 1 = Inr a"
    by (simp add: swa_init_def paged_init_def swa_clear_def paged_clear_def paged_clear_rank_def zero_mapping_def
        get_mapping_def put_mapping_def map_rank_def)
  with swa_client_conserves [of 8 4 2 1 a 0 "[S_Alloc 2, S_Alloc 2, S_Evict 0, S_Alloc 2, S_Free 1, S_Free 0]"]
  show ?thesis by auto
qed

text \<open>C35. The rollback of a refused extension frees too much: a sequence of \<open>pre\<close> tokens whose last
  token, at slot \<open>l\<close>, does not fill its page is extended; the full pool has the pages, the window pool
  does not. The code then frees the slots just handed out, and freeing a slot frees its whole page: the
  call returns \<open>None\<close> and \<open>l\<close>, which still holds the sequence's last token, is in the free pool, so that
  a later allocation hands it out a second time.\<close>

theorem swa_rollback_frees_live_slot:
  assumes "full_attn_allocator a = Pag f" "paged_inv f" "r < dp_size f" "is_not_in_free_group f" "\<not> debug_mode f"
    and "swa_attn_allocator a = Pag w" "paged_inv w" "r < dp_size w" "\<not> debug_mode w"
    and "page_size w = page_size f"
    and "map_rank a r < length (full_to_swa_index_mapping a)" "0 \<le> l" "l < int (length (the_map a r))"
    and "0 \<le> pre" "pre < seq_len" "pre mod int (page_size f) \<noteq> 0"
    and "(l + 1) mod int (page_size f) = pre mod int (page_size f)"
    and "length (free_pages w ! r @ release_pages w ! r) < seq_pages (page_size f) (pre, l, seq_len - pre)"
    and "seq_pages (page_size f) (pre, l, seq_len - pre) \<le> length (free_pages f ! r @ release_pages f ! r)"
  shows "\<exists>b. swa_alloc_extend [pre] [seq_len] [l] (nat (seq_len - pre)) r a = Inr (None, b) \<and>
    l \<in> set (sub_avail (full_attn_allocator b) r)"
proof -
  let ?n = "nat (seq_len - pre)" and ?p = "page_size f"
  let ?wl = "the_map a r ! nat l"
  have p: "0 < ?p" using assms(2) by (simp add: paged_inv_def)
  have le: "list_all2 (\<le>) [pre] [seq_len]" and n: "int ?n = sum_list [seq_len] - sum_list [pre]"
    using assms(14,15) by simp_all
  obtain xs f' where full: "paged_alloc_extend [pre] [seq_len] [l] ?n r f = Inr (Some xs, f')"
    and f': "paged_inv f'" "paged_frame r f f'" and xs: "\<exists>pages. xs = seq_slots ?p pages (pre, l, seq_len - pre)"
  proof (cases rule: paged_alloc_extend_cases [OF assms(2,3) le, of "[l]" ?n, case_names Len Ne N Dbg Short Given])
    case (Short b)
    with assms(19) show ?thesis by (simp add: extend_batch_def)
  next
    case (Given b pages)
    with that show ?thesis by (auto simp: extend_batch_def)
  qed (use n assms(5) in auto)
  obtain w' where win: "paged_alloc_extend [pre] [seq_len] [?wl] ?n r w = Inr (None, w')"
  proof (cases rule: paged_alloc_extend_cases [OF assms(7,8) le, of "[?wl]" ?n, case_names Len Ne N Dbg Short Given])
    case (Given b pages)
    have "size (mset pages) \<le> length (free_pages w ! r @ release_pages w ! r)"
      using arg_cong [OF Given(6), of size] by simp
    with Given(5) assms(10,18) show ?thesis by (simp add: extend_batch_def seq_pages_def)
  qed (use n assms(9) that in auto)
  have c: "num_pages_of (int ?p) pre * int ?p - pre = int ?p - pre mod int ?p"
    using tail_room [OF p, of pre] assms(16) by simp
  have x: "l + 1 \<in> set xs"
  proof -
    obtain m where m: "nat (seq_len - pre) = Suc m" using assms(15) by (metis Suc_pred zero_less_nat_eq diff_gt_0_iff_gt)
    have "0 < int ?p - pre mod int ?p" using p by simp
    then have "np_arange (l + 1) (l + 1 + (int ?p - pre mod int ?p)) =
        (l + 1) # np_arange (l + 2) (l + 1 + (int ?p - pre mod int ?p))" by (subst np_arange_rec) (simp add: add.commute)
    with xs m show ?thesis by (auto simp: seq_slots_def c)
  qed
  have pg: "(l + 1) div int ?p = l div int ?p"
    by (rule tail_page(2) [OF p assms(17)]) (use c p in simp_all)
  have fr: "page_size f' = ?p" "r < dp_size f'" "is_not_in_free_group f'"
    using paged_frameD [OF f'(2)] assms by simp_all
  have "\<exists>g. paged_free xs r f' = Inr g"
    using paged_invD [OF f'(1) fr(2)] f'(2) fr assms(5) x
    by (auto simp: paged_free_def paged_release_def Let_def paged_frame_def)
  then obtain b where b: "swa_alloc_extend [pre] [seq_len] [l] ?n r a = Inr (None, b)"
    using full win assms(1,6,11-13) by (auto simp: swa_alloc_extend_def swa_pair_def get_mapping_def map_rank_def)
  then have pair: "swa_pair (\<lambda>ls'. sub_alloc_extend [pre] [seq_len] ls' ?n r) [l] r (Some xs, Pag f') a = Inr (None, b)"
    using full assms(1) by (simp add: swa_alloc_extend_def)
  have "l \<in> set (sub_avail (full_attn_allocator b) r)"
    by (rule swa_pair_rollback [OF assms(11) _ refl f'(1) fr(2,3) _ pair x, where wl = "[?wl]" and sw = "Pag w'"])
      (use assms(6,12,13) win fr(1) pg in auto)
  with b show ?thesis by blast
qed

text \<open>Four-token pages, one window page: after three tokens, an extension by three is refused, and the
  page of the three tokens is free.\<close>

theorem swa_rollback_frees_live_slot_witness:
  "\<exists>f w m b. paged_init 16 4 False 1 = Inr f \<and> paged_init 4 4 False 1 = Inr w \<and>
     swa_alloc_extend [3] [6] [6] 3 0
       \<lparr>pool_size = 16, page_size = 4, dp_size = 1, size_per_rank = 16, is_not_in_free_group = True, free_group = [[]],
        size_full = 16, size_swa = 4, full_attn_allocator = Pag (f\<lparr>free_pages := [[2, 3, 4]]\<rparr>),
        swa_attn_allocator = Pag (w\<lparr>free_pages := [[]]\<rparr>), full_to_swa_index_mapping = [m],
        free_group_full = [[]], free_group_swa = [[]], free_group_full_seen = [{}], free_group_swa_seen = [{}]\<rparr> = Inr (None, b) \<and>
     6 \<in> set (sub_avail (full_attn_allocator b) 0)"
proof -
  obtain f w where f: "paged_init 16 4 False 1 = Inr f" and w: "paged_init 4 4 False 1 = Inr w"
    by (simp add: paged_init_def)
  have inv: "paged_inv (f\<lparr>free_pages := [[2, 3, 4]]\<rparr>)" "paged_inv (w\<lparr>free_pages := [[]]\<rparr>)"
    using f w by (auto simp: paged_init_def paged_inv_def rank_ok_def)
  let ?a = "\<lparr>pool_size = 16, page_size = 4, dp_size = 1, size_per_rank = 16, is_not_in_free_group = True, free_group = [[]],
        size_full = 16, size_swa = 4, full_attn_allocator = Pag (f\<lparr>free_pages := [[2, 3, 4]]\<rparr>),
        swa_attn_allocator = Pag (w\<lparr>free_pages := [[]]\<rparr>), full_to_swa_index_mapping = [[0, 0, 0, 0, 4, 5, 6, 0]],
        free_group_full = [[]], free_group_swa = [[]], free_group_full_seen = [{}], free_group_swa_seen = [{}]\<rparr> :: swa_allocator"
  have "\<exists>b. swa_alloc_extend [3] [6] [6] (nat (6 - 3)) 0 ?a = Inr (None, b) \<and> 6 \<in> set (sub_avail (full_attn_allocator b) 0)"
    by (rule swa_rollback_frees_live_slot [of _ "f\<lparr>free_pages := [[2, 3, 4]]\<rparr>" _ "w\<lparr>free_pages := [[]]\<rparr>"])
      (use f w inv in \<open>auto simp: paged_init_def map_rank_def seq_pages_def num_pages_of_def\<close>)
  with f w show ?thesis by auto
qed

end
