(* ===== verification/Radix_Cache.thy ===== *)
theory Radix_Cache
  imports Swa_Allocator
begin

text \<open>
  \<open>mem_cache/radix_cache.py\<close>: the prefix cache. A tree of nodes whose edges carry token runs and whose
  nodes carry the KV slots of these tokens; requests lock the nodes they use, eviction frees unlocked
  leaves, least recently used first. Nodes are objects with identity, so the model is a heap of nodes
  addressed by their ids; a node that is unlinked stays in the heap unreachable, as a Python object does.
  The theory holds the data model and the operations.
\<close>

section \<open>Keys\<close>

text \<open>A token of a key is a token id, or under EAGLE a pair of two adjacent ones.\<close>

datatype tok = Tok_Id int | Bigram tok tok

record radix_key =
  token_ids :: "tok list"
  extra_key :: "string option"
  key_dp_rank :: "nat option"

definition key_len :: "radix_key \<Rightarrow> nat" where
  "key_len k = length (token_ids k)"

text \<open>\<open>key[:n]\<close> and \<open>key[n:]\<close> for the non-negative bounds the cache uses.\<close>

definition key_take :: "nat \<Rightarrow> radix_key \<Rightarrow> radix_key" where
  "key_take n k = k\<lparr>token_ids := take n (token_ids k)\<rparr>"

definition key_drop :: "nat \<Rightarrow> radix_key \<Rightarrow> radix_key" where
  "key_drop n k = k\<lparr>token_ids := drop n (token_ids k)\<rparr>"

definition check_composite_key :: "radix_key \<Rightarrow> radix_key \<Rightarrow> unit result" where
  "check_composite_key key0 key1 =
     (if extra_key key0 \<noteq> extra_key key1 then Inl ValueError
      else if key_dp_rank key0 \<noteq> key_dp_rank key1 then Inl ValueError else Inr ())"

fun match_run :: "tok list \<Rightarrow> tok list \<Rightarrow> nat" where
  "match_run (x # xs) (y # ys) = (if x \<noteq> y then 0 else Suc (match_run xs ys))"
| "match_run _ _ = 0"

definition key_match_page_size1 :: "radix_key \<Rightarrow> radix_key \<Rightarrow> nat result" where
  "key_match_page_size1 key0 key1 =
     rbind (check_composite_key key0 key1) (\<lambda>_. Inr (match_run (token_ids key0) (token_ids key1)))"

text \<open>The loop over \<open>i\<close> compares the pages at \<open>i\<close>; here the two lists are the rests from \<open>i\<close> on. The
  page size is positive (the allocators divide by it).\<close>

function match_pages :: "nat \<Rightarrow> tok list \<Rightarrow> tok list \<Rightarrow> nat" where
  "match_pages p xs ys =
     (if p = 0 \<or> xs = [] \<or> ys = [] then 0
      else if take p xs \<noteq> take p ys then 0
      else p + match_pages p (drop p xs) (drop p ys))"
  by pat_completeness auto
termination
  by (relation "measure (\<lambda>(p, xs, ys). length xs)") auto

declare match_pages.simps [simp del]

definition key_match_paged :: "nat \<Rightarrow> radix_key \<Rightarrow> radix_key \<Rightarrow> nat result" where
  "key_match_paged p key0 key1 =
     rbind (check_composite_key key0 key1) (\<lambda>_. Inr (match_pages p (token_ids key0) (token_ids key1)))"

text \<open>The keys of a node's dictionary of children: the first token or page, tagged with the namespace.\<close>

datatype plain_key = One tok | Page "tok list"

datatype child_key =
    Plain plain_key
  | With_Extra string plain_key
  | With_Rank nat plain_key
  | With_Both string nat plain_key

definition plain_key_of :: "nat \<Rightarrow> tok list \<Rightarrow> plain_key result" where
  "plain_key_of p ts =
     (if p = 1 then (case ts of [] \<Rightarrow> Inl IndexError | t # _ \<Rightarrow> Inr (One t)) else Inr (Page (take p ts)))"

definition get_child_key :: "nat \<Rightarrow> radix_key \<Rightarrow> child_key result" where
  "get_child_key p k = rbind (plain_key_of p (token_ids k)) (\<lambda>pk.
     Inr (case (extra_key k, key_dp_rank k) of
       (None, None) \<Rightarrow> Plain pk
     | (Some e, None) \<Rightarrow> With_Extra e pk
     | (None, Some r) \<Rightarrow> With_Rank r pk
     | (Some e, Some r) \<Rightarrow> With_Both e r pk))"

definition is_pair :: "tok \<Rightarrow> bool" where
  "is_pair t = (case t of Bigram _ _ \<Rightarrow> True | Tok_Id _ \<Rightarrow> False)"

definition convert_to_bigram_key :: "tok list \<Rightarrow> tok list" where
  "convert_to_bigram_key ts =
     (if length ts < 2 then []
      else if is_pair (hd ts) then ts
      else map2 Bigram ts (tl ts))"

section \<open>Nodes and the cache\<close>

text \<open>The attributes \<open>hit_count\<close>, \<open>loading\<close> and \<open>host_value\<close> are written by no operation of this class.
  \<open>children\<close> is a dictionary, which keeps the order of insertion.\<close>

record tree_node =
  children :: "(child_key \<times> nat) list"
  parent :: "nat option"
  node_key :: radix_key
  node_value :: "int list"
  lock_ref :: int
  last_access_time :: int

text \<open>\<open>clock\<close> is the sequence of the readings of \<open>time.monotonic()\<close>, \<open>ticks\<close> how many were taken;
  \<open>evictable_sizes\<close> and \<open>protected_sizes\<close> are dictionaries with default 0.\<close>

record radix_cache =
  nodes :: "nat \<Rightarrow> tree_node"
  next_id :: nat
  root_node :: nat
  cache_page_size :: nat
  disable :: bool
  is_eagle :: bool
  evictable_sizes :: "nat \<Rightarrow> int"
  protected_sizes :: "nat \<Rightarrow> int"
  kv_allocator :: sub_allocator
  clock :: "nat \<Rightarrow> int"
  ticks :: nat

definition upd_node :: "nat \<Rightarrow> (tree_node \<Rightarrow> tree_node) \<Rightarrow> radix_cache \<Rightarrow> radix_cache" where
  "upd_node n f c = c\<lparr>nodes := (nodes c)(n := f (nodes c n))\<rparr>"

text \<open>\<open>TreeNode()\<close>: a fresh object; the caller sets the other attributes.\<close>

definition new_tree_node :: "tree_node \<Rightarrow> radix_cache \<Rightarrow> nat \<times> radix_cache" where
  "new_tree_node nd c =
     (next_id c, c\<lparr>nodes := (nodes c)(next_id c := nd\<lparr>last_access_time := clock c (ticks c)\<rparr>),
                   next_id := Suc (next_id c), ticks := Suc (ticks c)\<rparr>)"

definition touch :: "nat \<Rightarrow> radix_cache \<Rightarrow> radix_cache" where
  "touch n c = (upd_node n (\<lambda>nd. nd\<lparr>last_access_time := clock c (ticks c)\<rparr>) c)\<lparr>ticks := Suc (ticks c)\<rparr>"

definition child_of :: "child_key \<Rightarrow> tree_node \<Rightarrow> nat option" where
  "child_of ck nd = map_of (children nd) ck"

text \<open>\<open>d[k] = v\<close> keeps the place of an existing key.\<close>

definition dict_set :: "'k \<Rightarrow> 'v \<Rightarrow> ('k \<times> 'v) list \<Rightarrow> ('k \<times> 'v) list" where
  "dict_set k v d = (if k \<in> fst ` set d then map (\<lambda>(k', v'). (k', if k' = k then v else v')) d else d @ [(k, v)])"

definition dict_del :: "'k \<Rightarrow> ('k \<times> 'v) list \<Rightarrow> ('k \<times> 'v) list" where
  "dict_del k d = filter (\<lambda>(k', v'). k' \<noteq> k) d"

definition key_match :: "radix_cache \<Rightarrow> radix_key \<Rightarrow> radix_key \<Rightarrow> nat result" where
  "key_match c = (if cache_page_size c = 1 then key_match_page_size1 else key_match_paged (cache_page_size c))"

definition key_convert :: "radix_cache \<Rightarrow> radix_key \<Rightarrow> radix_key" where
  "key_convert c k = (if is_eagle c then k\<lparr>token_ids := convert_to_bigram_key (token_ids k)\<rparr> else k)"

definition node_dp_rank :: "tree_node \<Rightarrow> nat" where
  "node_dp_rank nd = (if token_ids (node_key nd) = [] then 0
     else case key_dp_rank (node_key nd) of None \<Rightarrow> 0 | Some r \<Rightarrow> r)"

definition radix_reset :: "radix_cache \<Rightarrow> radix_cache" where
  "radix_reset c =
     (case new_tree_node \<lparr>children = [], parent = None,
          node_key = \<lparr>token_ids = [], extra_key = None, key_dp_rank = None\<rparr>, node_value = [],
          lock_ref = 1, last_access_time = 0\<rparr> c of
        (n, c) \<Rightarrow> c\<lparr>root_node := n, evictable_sizes := (\<lambda>_. 0), protected_sizes := (\<lambda>_. 0)\<rparr>)"

section \<open>Splitting, matching, inserting\<close>

definition split_node :: "radix_key \<Rightarrow> nat \<Rightarrow> nat \<Rightarrow> radix_cache \<Rightarrow> (nat \<times> radix_cache) result" where
  "split_node key child split_len c =
     (let ch = nodes c child; rest = key_drop split_len (node_key ch) in
      rbind (get_child_key (cache_page_size c) rest) (\<lambda>rest_key.
      case new_tree_node \<lparr>children = [(rest_key, child)], parent = parent ch,
             node_key = key_take split_len (node_key ch), node_value = take split_len (node_value ch),
             lock_ref = lock_ref ch, last_access_time = 0\<rparr> c of
        (new_node, c) \<Rightarrow>
          let c = upd_node child (\<lambda>nd. nd\<lparr>parent := Some new_node, node_key := rest,
                    node_value := drop split_len (node_value nd)\<rparr>) c in
          case parent ch of
            None \<Rightarrow> Inl AttributeError
          | Some par \<Rightarrow>
              rbind (get_child_key (cache_page_size c) key) (\<lambda>ck.
                Inr (new_node, upd_node par (\<lambda>nd. nd\<lparr>children := dict_set ck new_node (children nd)\<rparr>) c))))"

text \<open>The walk of \<open>_match_prefix_helper\<close>. The key of the next child is taken at the head of the loop,
  where the code has it from the line before. Every round but the last consumes a token of the key, so
  \<open>Suc (key_len key)\<close> rounds are enough.\<close>

fun match_loop ::
  "nat \<Rightarrow> nat \<Rightarrow> radix_key \<Rightarrow> int list list \<Rightarrow> radix_cache \<Rightarrow> (int list list \<times> nat \<times> radix_cache) result" where
  "match_loop 0 node key token_sequences c = Inl NonTermination"
| "match_loop (Suc fuel) node key token_sequences c =
     (if key_len key = 0 then Inr (token_sequences, node, c)
      else rbind (get_child_key (cache_page_size c) key) (\<lambda>child_key.
        case child_of child_key (nodes c node) of
          None \<Rightarrow> Inr (token_sequences, node, c)
        | Some child \<Rightarrow>
            let c = touch child c in
            rbind (key_match c (node_key (nodes c child)) key) (\<lambda>prefix_len.
              if prefix_len < key_len (node_key (nodes c child)) then
                rbind (split_node (node_key (nodes c child)) child prefix_len c) (\<lambda>(new_node, c).
                  Inr (token_sequences @ [node_value (nodes c new_node)], new_node, c))
              else match_loop fuel child (key_drop prefix_len key)
                     (token_sequences @ [node_value (nodes c child)]) c)))"

definition match_prefix_helper ::
  "nat \<Rightarrow> radix_key \<Rightarrow> radix_cache \<Rightarrow> (int list list \<times> nat \<times> radix_cache) result" where
  "match_prefix_helper node key c =
     (let c = touch node c in
      rbind (get_child_key (cache_page_size c) key) (\<lambda>_. match_loop (Suc (key_len key)) node key [] c))"

definition aligned_key :: "radix_cache \<Rightarrow> radix_key \<Rightarrow> radix_key" where
  "aligned_key c k = (if cache_page_size c \<noteq> 1
     then key_take (key_len k div cache_page_size c * cache_page_size c) k else k)"

text \<open>The result is the matched slots and the last node; \<open>MatchResult\<close> repeats the node three times.\<close>

definition match_prefix :: "radix_key \<Rightarrow> radix_cache \<Rightarrow> (int list \<times> nat \<times> radix_cache) result" where
  "match_prefix key c =
     (if disable c \<or> key_len key = 0 then Inr ([], root_node c, c)
      else rbind (match_prefix_helper (root_node c) (aligned_key c (key_convert c key)) c)
        (\<lambda>(token_sequences, last_node, c). Inr (concat token_sequences, last_node, c)))"

text \<open>The walk of \<open>_insert_helper\<close>: the key and value left, the node reached and the length matched.\<close>

fun insert_loop ::
  "nat \<Rightarrow> nat \<Rightarrow> radix_key \<Rightarrow> int list \<Rightarrow> nat \<Rightarrow> radix_cache \<Rightarrow> (nat \<times> radix_key \<times> int list \<times> nat \<times> radix_cache) result" where
  "insert_loop 0 node key vals acc_len c = Inl NonTermination"
| "insert_loop (Suc fuel) node key vals acc_len c =
     (if key_len key = 0 then Inr (node, key, vals, acc_len, c)
      else rbind (get_child_key (cache_page_size c) key) (\<lambda>child_key.
        case child_of child_key (nodes c node) of
          None \<Rightarrow> Inr (node, key, vals, acc_len, c)
        | Some child \<Rightarrow>
            let c = touch child c in
            rbind (key_match c (node_key (nodes c child)) key) (\<lambda>prefix_len.
            rbind (if prefix_len < key_len (node_key (nodes c child))
                   then split_node (node_key (nodes c child)) child prefix_len c
                   else Inr (child, c)) (\<lambda>(node, c).
              insert_loop fuel node (key_drop prefix_len key) (drop prefix_len vals) (acc_len + prefix_len) c))))"

definition attach_leaf :: "nat \<Rightarrow> radix_key \<Rightarrow> int list \<Rightarrow> radix_cache \<Rightarrow> radix_cache result" where
  "attach_leaf node key vals c =
     rbind (get_child_key (cache_page_size c) key) (\<lambda>child_key.
     case new_tree_node \<lparr>children = [], parent = Some node, node_key = key, node_value = vals,
            lock_ref = 0, last_access_time = 0\<rparr> c of
       (new_node, c) \<Rightarrow>
         let c = upd_node node (\<lambda>nd. nd\<lparr>children := dict_set child_key new_node (children nd)\<rparr>) c;
             r = (case key_dp_rank key of None \<Rightarrow> 0 | Some r \<Rightarrow> r) in
         Inr (c\<lparr>evictable_sizes := (evictable_sizes c)(r := evictable_sizes c r + int (length vals))\<rparr>))"

definition insert_helper :: "nat \<Rightarrow> radix_key \<Rightarrow> int list \<Rightarrow> radix_cache \<Rightarrow> (nat \<times> radix_cache) result" where
  "insert_helper node key vals c =
     (let c = touch node c in
      if key_len key = 0 then Inr (0, c)
      else rbind (insert_loop (Suc (key_len key)) node key vals 0 c) (\<lambda>(node, key, vals, acc_len, c).
        if key_len key \<noteq> 0 then rbind (attach_leaf node key vals c) (\<lambda>c. Inr (acc_len, c))
        else Inr (acc_len, c)))"

definition radix_insert :: "radix_key \<Rightarrow> int list \<Rightarrow> radix_cache \<Rightarrow> (nat \<times> radix_cache) result" where
  "radix_insert key vals c =
     (if disable c then Inr (0, c)
      else let converted = key_convert c key;
               vals = (if is_eagle c then take (key_len converted) vals else vals)
           in insert_helper (root_node c) converted vals c)"

section \<open>Locking\<close>

text \<open>The walks to the root; a path visits a node at most once, so \<open>next_id\<close> rounds are enough.\<close>

definition move_size :: "nat \<Rightarrow> int \<Rightarrow> radix_cache \<Rightarrow> radix_cache" where
  "move_size r d c = c\<lparr>evictable_sizes := (evictable_sizes c)(r := evictable_sizes c r - d),
                       protected_sizes := (protected_sizes c)(r := protected_sizes c r + d)\<rparr>"

fun inc_loop :: "nat \<Rightarrow> nat option \<Rightarrow> int \<Rightarrow> radix_cache \<Rightarrow> (int \<times> radix_cache) result" where
  "inc_loop fuel None delta c = Inl AttributeError"
| "inc_loop 0 (Some node) delta c = (if node = root_node c then Inr (delta, c) else Inl NonTermination)"
| "inc_loop (Suc fuel) (Some node) delta c =
     (if node = root_node c then Inr (delta, c)
      else let nd = nodes c node; n = int (length (node_value nd));
               (delta, c) = (if lock_ref nd = 0 then (delta - n, move_size (node_dp_rank nd) n c) else (delta, c));
               c = upd_node node (\<lambda>nd. nd\<lparr>lock_ref := lock_ref nd + 1\<rparr>) c
           in inc_loop fuel (parent nd) delta c)"

definition inc_lock_ref :: "nat \<Rightarrow> radix_cache \<Rightarrow> (int \<times> radix_cache) result" where
  "inc_lock_ref node c = (if disable c then Inr (0, c) else inc_loop (next_id c) (Some node) 0 c)"

fun dec_loop :: "nat \<Rightarrow> nat option \<Rightarrow> int \<Rightarrow> radix_cache \<Rightarrow> (int \<times> radix_cache) result" where
  "dec_loop fuel None delta c = Inl AttributeError"
| "dec_loop 0 (Some node) delta c = (if node = root_node c then Inr (delta, c) else Inl NonTermination)"
| "dec_loop (Suc fuel) (Some node) delta c =
     (if node = root_node c then Inr (delta, c)
      else let nd = nodes c node; n = int (length (node_value nd));
               (delta, c) = (if lock_ref nd = 1 then (delta + n, move_size (node_dp_rank nd) (- n) c) else (delta, c));
               c = upd_node node (\<lambda>nd. nd\<lparr>lock_ref := lock_ref nd - 1\<rparr>) c
           in dec_loop fuel (parent nd) delta c)"

definition dec_lock_ref :: "nat \<Rightarrow> radix_cache \<Rightarrow> (int \<times> radix_cache) result" where
  "dec_lock_ref node c = (if disable c then Inr (0, c) else dec_loop (next_id c) (Some node) 0 c)"

definition evictable_size :: "nat \<Rightarrow> radix_cache \<Rightarrow> int" where
  "evictable_size r c = evictable_sizes c r"

definition protected_size :: "nat \<Rightarrow> radix_cache \<Rightarrow> int" where
  "protected_size r c = protected_sizes c r"

section \<open>Traversal and eviction\<close>

text \<open>A depth-first walk with an explicit stack; every node is pushed once, so \<open>next_id\<close> rounds are
  enough. The test \<open>child.evicted\<close> is on a value that no operation of this class sets to \<open>None\<close>.\<close>

fun total_size_loop :: "nat \<Rightarrow> nat list \<Rightarrow> nat \<Rightarrow> radix_cache \<Rightarrow> nat result" where
  "total_size_loop fuel [] acc_len c = Inr acc_len"
| "total_size_loop 0 (n # ns) acc_len c = Inl NonTermination"
| "total_size_loop (Suc fuel) (n # ns) acc_len c =
     (let stack = n # ns; nd = nodes c (last stack) in
      total_size_loop fuel (butlast stack @ map snd (children nd)) (acc_len + length (node_value nd)) c)"

definition total_size :: "radix_cache \<Rightarrow> nat result" where
  "total_size c = total_size_loop (next_id c) [root_node c] 0 c"

fun collect_leaves_loop :: "nat \<Rightarrow> nat list \<Rightarrow> nat list \<Rightarrow> radix_cache \<Rightarrow> nat list result" where
  "collect_leaves_loop fuel [] ret_list c = Inr ret_list"
| "collect_leaves_loop 0 (n # ns) ret_list c = Inl NonTermination"
| "collect_leaves_loop (Suc fuel) (n # ns) ret_list c =
     (let stack = n # ns; cur = last stack; nd = nodes c cur in
      if children nd = [] then collect_leaves_loop fuel (butlast stack) (ret_list @ [cur]) c
      else collect_leaves_loop fuel (butlast stack @ map snd (children nd)) ret_list c)"

definition collect_leaves :: "radix_cache \<Rightarrow> nat list result" where
  "collect_leaves c = collect_leaves_loop (next_id c) [root_node c] [] c"

text \<open>\<open>for k, v in children.items(): if v == node: break\<close> leaves in \<open>k\<close> the key of the node, or the last
  key when the node is not there; with no child at all \<open>k\<close> is unbound.\<close>

definition loop_key :: "nat \<Rightarrow> ('k \<times> nat) list \<Rightarrow> 'k result" where
  "loop_key node d = (case filter (\<lambda>(k, v). v = node) d of
     (k, v) # _ \<Rightarrow> Inr k | [] \<Rightarrow> (if d = [] then Inl NameError else Inr (fst (last d))))"

definition delete_leaf :: "nat \<Rightarrow> radix_cache \<Rightarrow> radix_cache result" where
  "delete_leaf node c =
     (case parent (nodes c node) of None \<Rightarrow> Inl AttributeError
      | Some par \<Rightarrow>
          rbind (loop_key node (children (nodes c par))) (\<lambda>k.
            let c = upd_node par (\<lambda>nd. nd\<lparr>children := dict_del k (children nd)\<rparr>) c;
                nd = nodes c node; r = node_dp_rank nd in
            Inr (c\<lparr>evictable_sizes := (evictable_sizes c)(r := evictable_sizes c r - int (key_len (node_key nd)))\<rparr>)))"

text \<open>The heap is ordered by \<open>last_access_time\<close>. Which of several equally old leaves \<open>heappop\<close> returns
  is left open: \<open>pick\<close> is any choice of a position, given the access times, and the theorems assume of
  it that it is the position of a least one. Every round drops an entry of the heap or deletes a node.\<close>

definition heap_pick :: "(int list \<Rightarrow> nat) \<Rightarrow> bool" where
  "heap_pick pick \<longleftrightarrow> (\<forall>ts. ts \<noteq> [] \<longrightarrow> pick ts < length ts \<and> (\<forall>t\<in>set ts. ts ! pick ts \<le> t))"

fun evict_loop ::
  "nat \<Rightarrow> (int list \<Rightarrow> nat) \<Rightarrow> int \<Rightarrow> nat option \<Rightarrow> nat list \<Rightarrow> nat \<Rightarrow> radix_cache \<Rightarrow> (nat \<times> radix_cache) result" where
  "evict_loop fuel pick num_tokens dp_rank [] num_evicted c = Inr (num_evicted, c)"
| "evict_loop 0 pick num_tokens dp_rank (l # ls) num_evicted c =
     (if int num_evicted < num_tokens then Inl NonTermination else Inr (num_evicted, c))"
| "evict_loop (Suc fuel) pick num_tokens dp_rank (l # ls) num_evicted c =
     (if \<not> int num_evicted < num_tokens then Inr (num_evicted, c)
      else let leaves = l # ls; k = pick (map (\<lambda>n. last_access_time (nodes c n)) leaves);
               x = leaves ! k; leaves = take k leaves @ drop (Suc k) leaves; nd = nodes c x in
        if x = root_node c then Inr (num_evicted, c)
        else if lock_ref nd > 0 then evict_loop fuel pick num_tokens dp_rank leaves num_evicted c
        else if dp_rank \<noteq> None \<and> dp_rank \<noteq> Some (node_dp_rank nd)
        then evict_loop fuel pick num_tokens dp_rank leaves num_evicted c
        else rbind (sub_free (node_value nd) (node_dp_rank nd) (kv_allocator c)) (\<lambda>al.
          rbind (delete_leaf x (c\<lparr>kv_allocator := al\<rparr>)) (\<lambda>c.
            case parent nd of None \<Rightarrow> Inl AttributeError
            | Some par \<Rightarrow>
                evict_loop fuel pick num_tokens dp_rank
                  (if children (nodes c par) = [] then leaves @ [par] else leaves)
                  (num_evicted + length (node_value nd)) c)))"

definition evict :: "(int list \<Rightarrow> nat) \<Rightarrow> int \<Rightarrow> nat option \<Rightarrow> radix_cache \<Rightarrow> (nat \<times> radix_cache) result" where
  "evict pick num_tokens dp_rank c =
     (if disable c then Inr (0, c)
      else rbind (collect_leaves c) (\<lambda>leaves.
        evict_loop (length leaves + next_id c) pick num_tokens dp_rank leaves 0 c))"

end
