(* ===== verification/Radix_Tree.thy ===== *)
theory Radix_Tree
  imports Radix_Cache "HOL-Library.Sublist"
begin

text \<open>
  The shape of the prefix cache's tree: the well-formedness invariant of the heap of nodes relative to
  the set of its linked nodes and to the path of each node, the fact that a path determines its node,
  the content of a cache as a set of annotated paths, and what splitting, attaching and unlinking a
  node do to them.
\<close>

section \<open>Keys\<close>

definition key_ns :: "radix_key \<Rightarrow> string option \<times> nat option" where
  "key_ns k = (extra_key k, key_dp_rank k)"

lemma key_simps [simp]:
  "token_ids (key_take n k) = take n (token_ids k)" "token_ids (key_drop n k) = drop n (token_ids k)"
  "key_ns (key_take n k) = key_ns k" "key_ns (key_drop n k) = key_ns k"
  "key_len (key_take n k) = min (key_len k) n" "key_len (key_drop n k) = key_len k - n"
  "extra_key (key_take n k) = extra_key k" "extra_key (key_drop n k) = extra_key k"
  "key_dp_rank (key_take n k) = key_dp_rank k" "key_dp_rank (key_drop n k) = key_dp_rank k"
  by (simp_all add: key_take_def key_drop_def key_ns_def key_len_def)

lemma key_len_0 [simp]: "key_len k = 0 \<longleftrightarrow> token_ids k = []"
  by (simp add: key_len_def)

lemma get_child_key_total: "token_ids k \<noteq> [] \<Longrightarrow> \<exists>ck. get_child_key p k = Inr ck"
  by (auto simp: get_child_key_def plain_key_of_def neq_Nil_conv)

text \<open>Two keys have the same entry in a node's dictionary iff they agree in the namespace and in the
  first page.\<close>

lemma get_child_key_eq_iff:
  assumes "token_ids k \<noteq> []" "token_ids k' \<noteq> []" "0 < p"
  shows "get_child_key p k = get_child_key p k' \<longleftrightarrow> key_ns k = key_ns k' \<and> take p (token_ids k) = take p (token_ids k')"
  using assms
  by (cases "extra_key k"; cases "extra_key k'"; cases "key_dp_rank k"; cases "key_dp_rank k'")
    (auto simp: get_child_key_def plain_key_of_def key_ns_def neq_Nil_conv take_Suc)

lemma get_child_key_take:
  assumes "0 < n" "p dvd n" "0 < p"
  shows "get_child_key p (key_take n k) = get_child_key p k"
proof -
  have "p \<le> n" using assms by (auto dest: dvd_imp_le)
  then have "take p (take n (token_ids k)) = take p (token_ids k)" by (simp add: min_absorb1)
  moreover have "p = 1 \<Longrightarrow> (case take n (token_ids k) of [] \<Rightarrow> Inl IndexError | t # _ \<Rightarrow> Inr (One t)) =
      (case token_ids k of [] \<Rightarrow> Inl IndexError | t # _ \<Rightarrow> Inr (One t))"
    using assms by (cases n; cases "token_ids k") auto
  ultimately show ?thesis by (simp add: get_child_key_def plain_key_of_def)
qed

lemma match_run_pages: "match_run xs ys = match_pages 1 xs ys"
proof (induction xs ys rule: match_run.induct)
  case (1 x xs y ys)
  then show ?case by (simp add: match_pages.simps [of "Suc 0" "_ # xs"])
qed (simp_all add: match_pages.simps [of "Suc 0"])

text \<open>Both matching functions compute the length of the common prefix of whole pages.\<close>

lemma key_match_eq:
  "key_ns k = key_ns k' \<Longrightarrow> key_match c k k' = Inr (match_pages (cache_page_size c) (token_ids k) (token_ids k'))"
  by (auto simp: key_match_def key_match_page_size1_def key_match_paged_def check_composite_key_def key_ns_def match_run_pages)

lemma match_pages_dvd [simp]: "p dvd match_pages p xs ys"
proof (induction p xs ys rule: match_pages.induct)
  case (1 p xs ys)
  then show ?case by (subst match_pages.simps) auto
qed

lemma match_pages_spec:
  assumes "0 < p" "p dvd length xs" "p dvd length ys"
  shows "match_pages p xs ys \<le> length xs \<and> match_pages p xs ys \<le> length ys \<and>
    take (match_pages p xs ys) xs = take (match_pages p xs ys) ys \<and>
    (match_pages p xs ys < length xs \<longrightarrow> match_pages p xs ys < length ys \<longrightarrow>
       take (match_pages p xs ys + p) xs \<noteq> take (match_pages p xs ys + p) ys)"
  using assms
proof (induction p xs ys rule: match_pages.induct)
  case (1 p xs ys)
  show ?case
  proof (cases "xs = [] \<or> ys = [] \<or> take p xs \<noteq> take p ys")
    case True
    with 1 show ?thesis by (subst (1 2 3 4 5 6 7 8) match_pages.simps) auto
  next
    case False
    with 1 have len: "p \<le> length xs" "p \<le> length ys" by (auto dest: dvd_imp_le)
    define m where "m = match_pages p (drop p xs) (drop p ys)"
    have e: "match_pages p xs ys = p + m" using False 1 by (subst match_pages.simps) (auto simp: m_def)
    have "p dvd length (drop p xs)" "p dvd length (drop p ys)" using 1 len by (auto simp: dvd_minus_self)
    with 1 False have ih: "m \<le> length (drop p xs)" "m \<le> length (drop p ys)" "take m (drop p xs) = take m (drop p ys)"
      "m < length (drop p xs) \<Longrightarrow> m < length (drop p ys) \<Longrightarrow> take (m + p) (drop p xs) \<noteq> take (m + p) (drop p ys)"
      by (auto simp: m_def)
    have split: "take (p + k) zs = take p zs @ take k (drop p zs)" for k and zs :: "tok list" by (rule take_add)
    show ?thesis unfolding e
    proof (intro conjI impI)
      show "take (p + m) xs = take (p + m) ys" using False ih by (simp add: split)
      assume "p + m < length xs" "p + m < length ys"
      with ih(4) have "take (m + p) (drop p xs) \<noteq> take (m + p) (drop p ys)" by simp
      then show "take (p + m + p) xs \<noteq> take (p + m + p) ys"
        using False split [of "m + p" xs] split [of "m + p" ys] len by (auto simp: add.assoc)
    qed (use ih len in auto)
  qed
qed

lemma match_pages_pos:
  assumes "0 < p" "p dvd length xs" "p dvd length ys" "xs \<noteq> []" "ys \<noteq> []" "take p xs = take p ys"
  shows "p \<le> match_pages p xs ys"
  using assms by (subst match_pages.simps) auto

section \<open>Well-formed trees\<close>

type_synonym annotated = "(tok \<times> int) list"

definition node_path :: "tree_node \<Rightarrow> annotated" where
  "node_path nd = zip (token_ids (node_key nd)) (node_value nd)"

text \<open>\<open>tree_wf c L P\<close>: \<open>L\<close> are the ids of the linked nodes, \<open>P n\<close> is what lies on the way from the root to
  the end of \<open>n\<close>, the tokens with their slots.\<close>

definition node_ok :: "radix_cache \<Rightarrow> nat set \<Rightarrow> (nat \<Rightarrow> annotated) \<Rightarrow> nat \<Rightarrow> bool" where
  "node_ok c L P n \<longleftrightarrow> (let nd = nodes c n in
     token_ids (node_key nd) \<noteq> [] \<and> length (node_value nd) = key_len (node_key nd) \<and>
     cache_page_size c dvd key_len (node_key nd) \<and>
     (\<exists>m\<in>L. parent nd = Some m \<and> n \<in> snd ` set (children (nodes c m)) \<and> P n = P m @ node_path nd \<and>
        (m \<noteq> root_node c \<longrightarrow> key_ns (node_key (nodes c m)) = key_ns (node_key nd))))"

definition children_ok :: "radix_cache \<Rightarrow> nat set \<Rightarrow> nat \<Rightarrow> bool" where
  "children_ok c L n \<longleftrightarrow> distinct (map fst (children (nodes c n))) \<and>
     (\<forall>(ck, m)\<in>set (children (nodes c n)). m \<in> L \<and> m \<noteq> root_node c \<and> parent (nodes c m) = Some n \<and>
        get_child_key (cache_page_size c) (node_key (nodes c m)) = Inr ck)"

definition tree_wf :: "radix_cache \<Rightarrow> nat set \<Rightarrow> (nat \<Rightarrow> annotated) \<Rightarrow> bool" where
  "tree_wf c L P \<longleftrightarrow> finite L \<and> root_node c \<in> L \<and> (\<forall>n\<in>L. n < next_id c) \<and> 0 < cache_page_size c \<and>
     P (root_node c) = [] \<and> node_value (nodes c (root_node c)) = [] \<and>
     (\<forall>n\<in>L. children_ok c L n) \<and> (\<forall>n\<in>L - {root_node c}. node_ok c L P n)"

lemma tree_wfD:
  assumes "tree_wf c L P"
  shows "finite L" "root_node c \<in> L" "\<And>n. n \<in> L \<Longrightarrow> n < next_id c" "0 < cache_page_size c"
    "P (root_node c) = []" "node_value (nodes c (root_node c)) = []"
    "\<And>n. n \<in> L \<Longrightarrow> children_ok c L n" "\<And>n. n \<in> L \<Longrightarrow> n \<noteq> root_node c \<Longrightarrow> node_ok c L P n"
  using assms by (auto simp: tree_wf_def)

lemma tree_nodeE:
  assumes "tree_wf c L P" "n \<in> L" "n \<noteq> root_node c"
  obtains m where "m \<in> L" "parent (nodes c n) = Some m" "P n = P m @ node_path (nodes c n)"
    "\<exists>ck. (ck, n) \<in> set (children (nodes c m)) \<and> get_child_key (cache_page_size c) (node_key (nodes c n)) = Inr ck"
    "m \<noteq> root_node c \<Longrightarrow> key_ns (node_key (nodes c m)) = key_ns (node_key (nodes c n))"
    "token_ids (node_key (nodes c n)) \<noteq> []" "length (node_value (nodes c n)) = key_len (node_key (nodes c n))"
    "cache_page_size c dvd key_len (node_key (nodes c n))"
    "length (node_path (nodes c n)) = key_len (node_key (nodes c n))"
proof -
  from tree_wfD(8) [OF assms] obtain m where m: "m \<in> L" "parent (nodes c n) = Some m" "n \<in> snd ` set (children (nodes c m))"
    "P n = P m @ node_path (nodes c n)"
    "m \<noteq> root_node c \<Longrightarrow> key_ns (node_key (nodes c m)) = key_ns (node_key (nodes c n))"
    and n: "token_ids (node_key (nodes c n)) \<noteq> []" "length (node_value (nodes c n)) = key_len (node_key (nodes c n))"
    "cache_page_size c dvd key_len (node_key (nodes c n))"
    by (auto simp: node_ok_def Let_def)
  from m(3) obtain ck where "(ck, n) \<in> set (children (nodes c m))" by force
  with tree_wfD(7) [OF assms(1) m(1)] have "get_child_key (cache_page_size c) (node_key (nodes c n)) = Inr ck"
    by (auto simp: children_ok_def)
  with m n \<open>(ck, n) \<in> _\<close> show ?thesis
    by (intro that [of m]) (auto simp: node_path_def key_len_def)
qed

lemma path_dvd:
  assumes "tree_wf c L P" "n \<in> L"
  shows "cache_page_size c dvd length (P n)"
  using assms(2)
proof (induction "length (P n)" arbitrary: n rule: less_induct)
  case less
  show ?case
  proof (cases "n = root_node c")
    case True
    then show ?thesis using tree_wfD(5) [OF assms(1)] by simp
  next
    case False
    from tree_nodeE [OF assms(1) less.prems False] obtain m where m: "m \<in> L" "P n = P m @ node_path (nodes c n)"
      "cache_page_size c dvd key_len (node_key (nodes c n))" "length (node_path (nodes c n)) = key_len (node_key (nodes c n))"
      "token_ids (node_key (nodes c n)) \<noteq> []" by metis
    moreover have "length (P m) < length (P n)" using m by (simp add: key_len_def)
    ultimately show ?thesis using less.hyps [of m] by simp
  qed
qed

lemma path_Nil_root: "tree_wf c L P \<Longrightarrow> n \<in> L \<Longrightarrow> P n = [] \<longleftrightarrow> n = root_node c"
  by (metis append_is_Nil_conv key_len_0 length_0_conv tree_nodeE tree_wfD(5))

text \<open>A child of a node is determined by its namespace and first page.\<close>

lemma child_unique:
  assumes wf: "tree_wf c L P" and m: "m \<in> L"
    and a: "(ck, a) \<in> set (children (nodes c m))" and b: "(ck, b) \<in> set (children (nodes c m))"
  shows "a = b"
  using tree_wfD(7) [OF wf m] a b by (auto simp: children_ok_def dest: eq_key_imp_eq_value)

lemma siblings_eq:
  assumes wf: "tree_wf c L P" and n: "n \<in> L" "n \<noteq> root_node c" and n': "n' \<in> L" "n' \<noteq> root_node c"
    and par: "parent (nodes c n) = parent (nodes c n')"
    and ns: "key_ns (node_key (nodes c n)) = key_ns (node_key (nodes c n'))"
    and pg: "take (cache_page_size c) (token_ids (node_key (nodes c n))) = take (cache_page_size c) (token_ids (node_key (nodes c n')))"
  shows "n = n'"
proof -
  from tree_nodeE [OF wf n] obtain m ck where m: "m \<in> L" "parent (nodes c n) = Some m" "(ck, n) \<in> set (children (nodes c m))"
    "get_child_key (cache_page_size c) (node_key (nodes c n)) = Inr ck" "token_ids (node_key (nodes c n)) \<noteq> []" by metis
  from tree_nodeE [OF wf n'] obtain m' ck' where m': "parent (nodes c n') = Some m'" "(ck', n') \<in> set (children (nodes c m'))"
    "get_child_key (cache_page_size c) (node_key (nodes c n')) = Inr ck'" "token_ids (node_key (nodes c n')) \<noteq> []" by metis
  have "get_child_key (cache_page_size c) (node_key (nodes c n)) = get_child_key (cache_page_size c) (node_key (nodes c n'))"
    using get_child_key_eq_iff [OF m(5) m'(4) tree_wfD(4) [OF wf]] ns pg by blast
  with m m' par show ?thesis using child_unique [OF wf m(1), of ck n n'] by simp
qed

text \<open>A path determines its node: if two nodes of one namespace both cover the page at position \<open>l\<close> and
  their paths agree up to and including that page, they are the same node.\<close>

lemma path_unique:
  assumes wf: "tree_wf c L P"
    and "n \<in> L" "n \<noteq> root_node c" "n' \<in> L" "n' \<noteq> root_node c"
    and "key_ns (node_key (nodes c n)) = key_ns (node_key (nodes c n'))"
    and "cache_page_size c dvd l"
    and "length (P n) - key_len (node_key (nodes c n)) \<le> l" "l < length (P n)"
    and "length (P n') - key_len (node_key (nodes c n')) \<le> l" "l < length (P n')"
    and "take (l + cache_page_size c) (map fst (P n)) = take (l + cache_page_size c) (map fst (P n'))"
  shows "n = n'"
  using assms(2-)
proof (induction "length (P n) + length (P n')" arbitrary: n n' l rule: less_induct)
  case less
  let ?p = "cache_page_size c"
  note p = tree_wfD(4) [OF wf]
  from tree_nodeE [OF wf less.prems(1,2)] obtain m where m: "m \<in> L" "parent (nodes c n) = Some m"
    "P n = P m @ node_path (nodes c n)"
    "m \<noteq> root_node c \<Longrightarrow> key_ns (node_key (nodes c m)) = key_ns (node_key (nodes c n))"
    "token_ids (node_key (nodes c n)) \<noteq> []" "length (node_value (nodes c n)) = key_len (node_key (nodes c n))"
    "length (node_path (nodes c n)) = key_len (node_key (nodes c n))" by metis
  from tree_nodeE [OF wf less.prems(3,4)] obtain m' where m': "m' \<in> L" "parent (nodes c n') = Some m'"
    "P n' = P m' @ node_path (nodes c n')"
    "m' \<noteq> root_node c \<Longrightarrow> key_ns (node_key (nodes c m')) = key_ns (node_key (nodes c n'))"
    "token_ids (node_key (nodes c n')) \<noteq> []" "length (node_value (nodes c n')) = key_len (node_key (nodes c n'))"
    "length (node_path (nodes c n')) = key_len (node_key (nodes c n'))" by metis
  have st: "length (P m) \<le> l" "length (P m') \<le> l" using less.prems(7,9) m(3,7) m'(3,7) by auto
  have sh: "length (P m) < length (P n)" "length (P m') < length (P n')"
    using m m' by (auto simp: key_len_def)
  have dv: "?p dvd length (P m)" "?p dvd length (P m')" using path_dvd [OF wf] m(1) m'(1) by auto
  have agree: "take k (map fst (P n)) = take k (map fst (P n'))" if "k \<le> l + ?p" for k
    using arg_cong [OF less.prems(11), of "take k"] that by (simp add: min_absorb1)
  have up: "m' \<noteq> root_node c" "?p \<le> length (P m')" if "length (P m') \<noteq> 0"
    using that tree_wfD(5) [OF wf] dv by (auto dest: dvd_imp_le)
  have up2: "m \<noteq> root_node c" "?p \<le> length (P m)" if "length (P m) \<noteq> 0"
    using that tree_wfD(5) [OF wf] dv by (auto dest: dvd_imp_le)
  have inner: "a = b" if "a \<in> L" "a \<noteq> root_node c" "b \<in> L" "b \<noteq> root_node c" "?p dvd length (P b)" "?p \<le> length (P b)"
      "length (P a) + length (P b) < length (P n) + length (P n')"
      "key_ns (node_key (nodes c a)) = key_ns (node_key (nodes c b))"
      "length (P a) - key_len (node_key (nodes c a)) \<le> length (P b) - ?p" "length (P b) - ?p < length (P a)"
      "take (length (P b)) (map fst (P a)) = map fst (P b)" for a b
  proof (rule less.hyps [of a b "length (P b) - ?p"])
    from tree_nodeE [OF wf that(3,4)] obtain q where "P b = P q @ node_path (nodes c b)" "?p dvd key_len (node_key (nodes c b))"
      "token_ids (node_key (nodes c b)) \<noteq> []" "length (node_path (nodes c b)) = key_len (node_key (nodes c b))" by metis
    then have "?p \<le> key_len (node_key (nodes c b))" by (auto simp: key_len_def intro!: dvd_imp_le)
    then show "length (P b) - key_len (node_key (nodes c b)) \<le> length (P b) - ?p" by simp
  qed (use that p in \<open>auto simp: dvd_diff_nat\<close>)
  have step_le: "x \<le> y - ?p" if "x < y" "?p dvd x" "?p dvd y" for x y
    using dvd_less_add_le [OF that(2,3,1)] by linarith
  have le: "\<not> length (P m) < length (P m')"
  proof
    assume lt: "length (P m) < length (P m')"
    then have ne: "length (P m') \<noteq> 0" by linarith
    have "n = m'"
    proof (rule inner [OF less.prems(1,2) m'(1) up(1) [OF ne] dv(2) up(2) [OF ne]])
      show "length (P n) - key_len (node_key (nodes c n)) \<le> length (P m') - ?p"
        using step_le [OF lt dv] m(3,7) by simp
      show "take (length (P m')) (map fst (P n)) = map fst (P m')" using agree [of "length (P m')"] st(2) m'(3) by simp
    qed (use sh(2) m'(4) [OF up(1) [OF ne]] less.prems(5,8) st(2) in auto)
    with st(2) less.prems(8) show False by simp
  qed
  have le': "\<not> length (P m') < length (P m)"
  proof
    assume lt: "length (P m') < length (P m)"
    then have ne: "length (P m) \<noteq> 0" by linarith
    have "n' = m"
    proof (rule inner [OF less.prems(3,4) m(1) up2(1) [OF ne] dv(1) up2(2) [OF ne]])
      show "length (P n') - key_len (node_key (nodes c n')) \<le> length (P m) - ?p"
        using step_le [OF lt dv(2,1)] m'(3,7) by simp
      show "take (length (P m)) (map fst (P n')) = map fst (P m)" using agree [of "length (P m)"] st(1) m(3) by simp
    qed (use sh(1) m(4) [OF up2(1) [OF ne]] less.prems(5,10) st(1) in auto)
    with st(1) less.prems(10) show False by simp
  qed
  from le le' have eq: "length (P m) = length (P m')" by simp
  have mm: "m = m'"
  proof (cases "length (P m) = 0")
    case True
    then show ?thesis using path_Nil_root [OF wf m(1)] path_Nil_root [OF wf m'(1)] eq by simp
  next
    case False
    with eq have ne: "length (P m) \<noteq> 0" "length (P m') \<noteq> 0" by auto
    have nd: "token_ids (node_key (nodes c m)) \<noteq> []" using tree_wfD(8) [OF wf m(1) up2(1) [OF ne(1)]] by (auto simp: node_ok_def Let_def)
    have kd: "?p \<le> key_len (node_key (nodes c m))"
      using tree_wfD(8) [OF wf m(1) up2(1) [OF ne(1)]] nd by (auto simp: node_ok_def Let_def key_len_def intro!: dvd_imp_le)
    show ?thesis
    proof (rule inner [OF m(1) up2(1) [OF ne(1)] m'(1) up(1) [OF ne(2)] dv(2) up(2) [OF ne(2)]])
      show "take (length (P m')) (map fst (P m)) = map fst (P m')"
        using agree [of "length (P m)"] st eq m(3) m'(3) by simp
      show "key_ns (node_key (nodes c m)) = key_ns (node_key (nodes c m'))"
        using m(4) [OF up2(1) [OF ne(1)]] m'(4) [OF up(1) [OF ne(2)]] less.prems(5) by simp
    qed (use sh eq kd p ne in auto)
  qed
  have pg: "take ?p (token_ids (node_key (nodes c n))) = take ?p (token_ids (node_key (nodes c n')))"
  proof -
    have "take ?p (drop (length (P m)) (map fst (P n))) = take ?p (drop (length (P m)) (map fst (P n')))"
      using agree [of "length (P m) + ?p"] st eq by (simp add: drop_take [symmetric] take_drop add.commute)
    moreover have "drop (length (P m)) (map fst (P n)) = token_ids (node_key (nodes c n))"
      "drop (length (P m)) (map fst (P n')) = token_ids (node_key (nodes c n'))"
      using m m' eq by (auto simp: node_path_def key_len_def)
    ultimately show ?thesis by simp
  qed
  show ?case
    by (rule siblings_eq [OF wf less.prems(1-4)]) (use m m' mm less.prems pg in auto)
qed

section \<open>Content\<close>

text \<open>The content of a cache: the annotated paths it holds, by namespace.\<close>

definition content ::
  "radix_cache \<Rightarrow> nat set \<Rightarrow> (nat \<Rightarrow> annotated) \<Rightarrow> ((string option \<times> nat option) \<times> annotated) set" where
  "content c L P = {(ns, ps). \<exists>n\<in>L - {root_node c}. key_ns (node_key (nodes c n)) = ns \<and> prefix ps (P n)}"

lemma take_prefix_eq: "prefix xs ys \<Longrightarrow> k \<le> length xs \<Longrightarrow> take k xs = take k ys"
  by (auto simp: prefix_def)

lemma path_cover:
  assumes wf: "tree_wf c L P" and "n \<in> L" "l < length (P n)"
  shows "\<exists>n0\<in>L - {root_node c}. key_ns (node_key (nodes c n0)) = key_ns (node_key (nodes c n)) \<and>
    length (P n0) - key_len (node_key (nodes c n0)) \<le> l \<and> l < length (P n0) \<and> prefix (P n0) (P n)"
  using assms(2,3)
proof (induction "length (P n)" arbitrary: n rule: less_induct)
  case less
  from less.prems have nr: "n \<noteq> root_node c" using tree_wfD(5) [OF wf] by auto
  from tree_nodeE [OF wf less.prems(1) nr] obtain m where m: "m \<in> L" "P n = P m @ node_path (nodes c n)"
    "m \<noteq> root_node c \<Longrightarrow> key_ns (node_key (nodes c m)) = key_ns (node_key (nodes c n))"
    "token_ids (node_key (nodes c n)) \<noteq> []" "length (node_path (nodes c n)) = key_len (node_key (nodes c n))" by metis
  show ?case
  proof (cases "length (P m) \<le> l")
    case True
    with m less.prems nr show ?thesis by (intro bexI [of _ n]) auto
  next
    case False
    then have "m \<noteq> root_node c" using tree_wfD(5) [OF wf] by auto
    moreover have "length (P m) < length (P n)" using m by (simp add: key_len_def)
    ultimately show ?thesis using less.hyps [of m] m False by (fastforce simp: prefix_order.order_trans)
  qed
qed

text \<open>Where a walk stops, no cached path agrees with the key on a further page.\<close>

lemma no_longer_match:
  assumes wf: "tree_wf c L P" and m: "m \<in> L" "m \<noteq> root_node c \<Longrightarrow> key_ns (node_key (nodes c m)) = key_ns key"
    and key: "token_ids key \<noteq> []" "get_child_key (cache_page_size c) key = Inr ck" "child_of ck (nodes c m) = None"
    and ps: "(key_ns key, ps) \<in> content c L P" "prefix (map fst ps) (map fst (P m) @ token_ids key)"
  shows "length ps < length (P m) + cache_page_size c"
proof (rule ccontr)
  let ?p = "cache_page_size c" and ?l = "length (P m)"
  assume "\<not> length ps < ?l + ?p"
  then have long: "?l + ?p \<le> length ps" by simp
  note p = tree_wfD(4) [OF wf]
  have dv: "?p dvd ?l" by (rule path_dvd [OF wf m(1)])
  from ps(1) obtain n where n: "n \<in> L" "n \<noteq> root_node c" "key_ns (node_key (nodes c n)) = key_ns key" "prefix ps (P n)"
    by (auto simp: content_def)
  have ln: "?l + ?p \<le> length (P n)" using long n(4) prefix_length_le by fastforce
  then obtain n0 where n0: "n0 \<in> L" "n0 \<noteq> root_node c" "key_ns (node_key (nodes c n0)) = key_ns key"
    "length (P n0) - key_len (node_key (nodes c n0)) \<le> ?l" "?l < length (P n0)" "prefix (P n0) (P n)"
    using path_cover [OF wf n(1), of ?l] p n(3) by auto
  have l0: "?l + ?p \<le> length (P n0)" using dvd_less_add_le [OF dv path_dvd [OF wf n0(1)] n0(5)] .
  have agree: "take (?l + ?p) (map fst (P n0)) = map fst (P m) @ take ?p (token_ids key)"
  proof -
    have "take (?l + ?p) (P n0) = take (?l + ?p) (P n)" using n0(6) l0 by (auto simp: prefix_def)
    also have "\<dots> = take (?l + ?p) ps" using n(4) long by (auto simp: prefix_def)
    finally have "take (?l + ?p) (map fst (P n0)) = take (?l + ?p) (map fst ps)" by (simp add: take_map)
    also have "\<dots> = take (?l + ?p) (map fst (P m) @ token_ids key)" by (rule take_prefix_eq [OF ps(2)]) (use long in simp)
    finally show ?thesis by simp
  qed
  then have agree_m: "take ?l (map fst (P n0)) = map fst (P m)"
    using l0 by (simp add: take_add)
  from tree_nodeE [OF wf n0(1,2)] obtain m0 ck0 where m0: "m0 \<in> L" "parent (nodes c n0) = Some m0" "P n0 = P m0 @ node_path (nodes c n0)"
    "(ck0, n0) \<in> set (children (nodes c m0))" "get_child_key ?p (node_key (nodes c n0)) = Inr ck0"
    "m0 \<noteq> root_node c \<Longrightarrow> key_ns (node_key (nodes c m0)) = key_ns (node_key (nodes c n0))"
    "token_ids (node_key (nodes c n0)) \<noteq> []" "length (node_value (nodes c n0)) = key_len (node_key (nodes c n0))"
    "length (node_path (nodes c n0)) = key_len (node_key (nodes c n0))" by metis
  have same_m: "x = m" if "m \<noteq> root_node c" "x \<in> L" "x \<noteq> root_node c" "key_ns (node_key (nodes c x)) = key_ns key"
    "length (P x) - key_len (node_key (nodes c x)) \<le> ?l - ?p" "?l \<le> length (P x)" "take ?l (map fst (P x)) = map fst (P m)" for x
  proof -
    have "?p \<le> ?l" using that(1) path_Nil_root [OF wf m(1)] dv by (auto intro!: dvd_imp_le)
    moreover have "?p \<le> key_len (node_key (nodes c m))"
      using tree_wfD(8) [OF wf m(1) that(1)] by (auto simp: node_ok_def Let_def key_len_def intro!: dvd_imp_le)
    ultimately show ?thesis
      using p dv that(2-) m(2) [OF that(1)]
      by (intro path_unique [OF wf that(2,3) m(1) that(1), of "?l - ?p"]) (auto simp: dvd_diff_nat)
  qed
  show False
  proof (cases "length (P m0) = ?l")
    case True
    have "m0 = m"
    proof (cases "m = root_node c")
      case True
      then show ?thesis using \<open>length (P m0) = ?l\<close> path_Nil_root [OF wf m0(1)] path_Nil_root [OF wf m(1)] by simp
    next
      case False
      have r0: "m0 \<noteq> root_node c"
        using False True path_Nil_root [OF wf m0(1)] path_Nil_root [OF wf m(1)] by auto
      have "?p \<le> key_len (node_key (nodes c m0))"
        using tree_wfD(8) [OF wf m0(1) r0] by (auto simp: node_ok_def Let_def key_len_def intro!: dvd_imp_le)
      then show ?thesis
        using same_m [OF False m0(1) r0] m0(3,6) n0(3) r0 True agree_m by auto
    qed
    moreover have "take ?p (token_ids (node_key (nodes c n0))) = take ?p (token_ids key)"
      using arg_cong [OF agree, of "drop ?l"] m0(3,8) True by (simp add: node_path_def key_len_def drop_take)
    ultimately have "(ck, n0) \<in> set (children (nodes c m))"
      using m0(4,5,7) key get_child_key_eq_iff [OF m0(7) key(1) p] n0(3) by simp
    then show False using key(3) by (force simp: child_of_def map_of_eq_None_iff)
  next
    case False
    then have "length (P m0) < ?l" using n0(4) m0(3,9) by simp
    then have "m \<noteq> root_node c" using path_Nil_root [OF wf m(1)] by auto
    moreover have "length (P m0) \<le> ?l - ?p"
      using dvd_less_add_le [OF path_dvd [OF wf m0(1)] dv \<open>length (P m0) < ?l\<close>] by simp
    ultimately have "n0 = m" using same_m [OF _ n0(1,2,3)] n0(5) agree_m m0(3,9) by auto
    with n0(5) show False by simp
  qed
qed

section \<open>Locks and sizes\<close>

text \<open>\<open>H n\<close> counts the locks that clients hold on \<open>n\<close> itself. A node's \<open>lock_ref\<close> is the number of locks
  held on the nodes below it and on itself.\<close>

definition kids :: "radix_cache \<Rightarrow> nat set \<Rightarrow> nat \<Rightarrow> nat set" where
  "kids c L n = {m \<in> L - {root_node c}. parent (nodes c m) = Some n}"

definition locks_ok :: "radix_cache \<Rightarrow> nat set \<Rightarrow> (nat \<Rightarrow> nat) \<Rightarrow> bool" where
  "locks_ok c L H \<longleftrightarrow> (\<forall>n. n \<notin> L \<longrightarrow> H n = 0) \<and>
     (\<forall>n\<in>L - {root_node c}. 0 \<le> lock_ref (nodes c n) \<and>
        lock_ref (nodes c n) = int (H n) + (\<Sum>m\<in>kids c L n. lock_ref (nodes c m)))"

definition ranked_size :: "radix_cache \<Rightarrow> nat set \<Rightarrow> bool \<Rightarrow> nat \<Rightarrow> int" where
  "ranked_size c L locked r =
     (\<Sum>n\<in>L - {root_node c}. if node_dp_rank (nodes c n) = r \<and> (lock_ref (nodes c n) > 0) = locked
        then int (length (node_value (nodes c n))) else 0)"

definition sizes_ok :: "radix_cache \<Rightarrow> nat set \<Rightarrow> bool" where
  "sizes_ok c L \<longleftrightarrow> (\<forall>r. evictable_sizes c r = ranked_size c L False r \<and> protected_sizes c r = ranked_size c L True r)"

definition radix_inv :: "radix_cache \<Rightarrow> nat set \<Rightarrow> (nat \<Rightarrow> annotated) \<Rightarrow> (nat \<Rightarrow> nat) \<Rightarrow> bool" where
  "radix_inv c L P H \<longleftrightarrow> tree_wf c L P \<and> locks_ok c L H \<and> sizes_ok c L"

lemma radix_invD: "radix_inv c L P H \<Longrightarrow> tree_wf c L P" "radix_inv c L P H \<Longrightarrow> locks_ok c L H" "radix_inv c L P H \<Longrightarrow> sizes_ok c L"
  by (simp_all add: radix_inv_def)

lemma lock_nonneg: "locks_ok c L H \<Longrightarrow> n \<in> L \<Longrightarrow> n \<noteq> root_node c \<Longrightarrow> 0 \<le> lock_ref (nodes c n)"
  unfolding locks_ok_def by blast

section \<open>Reading the clock\<close>

lemma touch_simps [simp]:
  "children (nodes (touch n c) m) = children (nodes c m)" "parent (nodes (touch n c) m) = parent (nodes c m)"
  "node_key (nodes (touch n c) m) = node_key (nodes c m)" "node_value (nodes (touch n c) m) = node_value (nodes c m)"
  "lock_ref (nodes (touch n c) m) = lock_ref (nodes c m)" "next_id (touch n c) = next_id c" "root_node (touch n c) = root_node c"
  "cache_page_size (touch n c) = cache_page_size c" "disable (touch n c) = disable c" "is_eagle (touch n c) = is_eagle c"
  "evictable_sizes (touch n c) = evictable_sizes c" "protected_sizes (touch n c) = protected_sizes c"
  "kv_allocator (touch n c) = kv_allocator c" "clock (touch n c) = clock c"
  by (auto simp: touch_def upd_node_def)

lemma node_fn_touch [simp]:
  "node_path (nodes (touch n c) m) = node_path (nodes c m)" "node_dp_rank (nodes (touch n c) m) = node_dp_rank (nodes c m)"
  "child_of ck (nodes (touch n c) m) = child_of ck (nodes c m)" "key_match (touch n c) = key_match c"
  by (simp_all add: node_path_def node_dp_rank_def child_of_def key_match_def fun_eq_iff)

lemma parts_touch [simp]:
  "node_ok (touch n c) L P m = node_ok c L P m" "children_ok (touch n c) L m = children_ok c L m" "kids (touch n c) L m = kids c L m"
  "ranked_size (touch n c) L b r = ranked_size c L b r"
  by (simp_all add: node_ok_def children_ok_def kids_def ranked_size_def Let_def split_beta cong: if_cong)

lemma inv_touch [simp]:
  "tree_wf (touch n c) L P = tree_wf c L P" "locks_ok (touch n c) L H = locks_ok c L H" "sizes_ok (touch n c) L = sizes_ok c L"
  "content (touch n c) L P = content c L P"
  by (simp_all add: tree_wf_def locks_ok_def sizes_ok_def content_def)

lemma radix_inv_touch [simp]: "radix_inv (touch n c) L P H = radix_inv c L P H"
  by (simp add: radix_inv_def)

section \<open>Splitting a node\<close>

lemma set_dict_set:
  assumes "k \<in> fst ` set d" "distinct (map fst d)"
  shows "set (dict_set k v d) = {(k', v') \<in> set d. k' \<noteq> k} \<union> {(k, v)}" "map fst (dict_set k v d) = map fst d"
proof -
  show "map fst (dict_set k v d) = map fst d" using assms(1) by (auto simp: dict_set_def comp_def split_beta)
  show "set (dict_set k v d) = {(k', v') \<in> set d. k' \<noteq> k} \<union> {(k, v)}"
    using assms(1) by (force simp: dict_set_def image_iff split: if_splits)
qed

lemma dict_set_new:
  assumes "k \<notin> fst ` set d"
  shows "dict_set k v d = d @ [(k, v)]"
  using assms by (simp add: dict_set_def)

text \<open>What the heap is after a split: the new node \<open>q\<close> stands between \<open>m\<close> and \<open>ch\<close>.\<close>

definition split_heap :: "radix_cache \<Rightarrow> nat \<Rightarrow> nat \<Rightarrow> nat \<Rightarrow> child_key \<Rightarrow> child_key \<Rightarrow> radix_cache" where
  "split_heap c m ch k ck rk = (let q = next_id c; nd = nodes c ch in
     c\<lparr>nodes := (nodes c)(q := \<lparr>children = [(rk, ch)], parent = Some m, node_key = key_take k (node_key nd),
                  node_value = take k (node_value nd), lock_ref = lock_ref nd, last_access_time = clock c (ticks c)\<rparr>,
                ch := nd\<lparr>parent := Some q, node_key := key_drop k (node_key nd), node_value := drop k (node_value nd)\<rparr>,
                m := (nodes c m)\<lparr>children := dict_set ck q (children (nodes c m))\<rparr>),
       next_id := Suc q, ticks := Suc (ticks c)\<rparr>)"

lemma split_node_eq:
  assumes wf: "tree_wf c L P" and ch: "ch \<in> L" "ch \<noteq> root_node c" and k: "0 < k" "k < key_len (node_key (nodes c ch))"
    and m: "parent (nodes c ch) = Some m"
  shows "\<exists>ck rk. get_child_key (cache_page_size c) (node_key (nodes c ch)) = Inr ck \<and>
    get_child_key (cache_page_size c) (key_drop k (node_key (nodes c ch))) = Inr rk \<and>
    split_node (node_key (nodes c ch)) ch k c = Inr (next_id c, split_heap c m ch k ck rk)"
proof -
  from tree_nodeE [OF wf ch] obtain m' where m': "m' \<in> L" "parent (nodes c ch) = Some m'" "P ch = P m' @ node_path (nodes c ch)"
    "token_ids (node_key (nodes c ch)) \<noteq> []" "length (node_path (nodes c ch)) = key_len (node_key (nodes c ch))" by metis
  then have ne: "m \<noteq> ch" "m \<noteq> next_id c" "ch \<noteq> next_id c"
    using m tree_wfD(3) [OF wf] ch by (auto simp: key_len_def)
  obtain ck rk where "get_child_key (cache_page_size c) (node_key (nodes c ch)) = Inr ck"
    "get_child_key (cache_page_size c) (key_drop k (node_key (nodes c ch))) = Inr rk"
    using get_child_key_total [of "node_key (nodes c ch)" "cache_page_size c"]
      get_child_key_total [of "key_drop k (node_key (nodes c ch))" "cache_page_size c"] k m'(4)
    by (auto simp: key_len_def)
  then show ?thesis using ne m
    by (intro exI conjI) (auto simp: split_node_def Let_def new_tree_node_def upd_node_def split_heap_def fun_upd_twist)
qed


lemma split_heap_simps:
  assumes "m \<noteq> ch" "m \<noteq> next_id c" "ch \<noteq> next_id c" "c' = split_heap c m ch k ck rk"
  shows "nodes c' (next_id c) = \<lparr>children = [(rk, ch)], parent = Some m, node_key = key_take k (node_key (nodes c ch)),
        node_value = take k (node_value (nodes c ch)), lock_ref = lock_ref (nodes c ch), last_access_time = clock c (ticks c)\<rparr>"
    "nodes c' ch = (nodes c ch)\<lparr>parent := Some (next_id c), node_key := key_drop k (node_key (nodes c ch)),
        node_value := drop k (node_value (nodes c ch))\<rparr>"
    "nodes c' m = (nodes c m)\<lparr>children := dict_set ck (next_id c) (children (nodes c m))\<rparr>"
    "\<And>n. n \<noteq> m \<Longrightarrow> n \<noteq> ch \<Longrightarrow> n \<noteq> next_id c \<Longrightarrow> nodes c' n = nodes c n"
    "root_node c' = root_node c" "cache_page_size c' = cache_page_size c" "next_id c' = Suc (next_id c)"
    "evictable_sizes c' = evictable_sizes c" "protected_sizes c' = protected_sizes c" "kv_allocator c' = kv_allocator c"
    "disable c' = disable c" "is_eagle c' = is_eagle c"
  using assms by (auto simp: split_heap_def Let_def)

lemma split_tree_wf:
  assumes wf: "tree_wf c L P" and ch: "ch \<in> L" "ch \<noteq> root_node c" "parent (nodes c ch) = Some m"
    and k: "0 < k" "k < key_len (node_key (nodes c ch))" "cache_page_size c dvd k"
    and ck: "get_child_key (cache_page_size c) (node_key (nodes c ch)) = Inr ck"
    and rk: "get_child_key (cache_page_size c) (key_drop k (node_key (nodes c ch))) = Inr rk"
    and c': "c' = split_heap c m ch k ck rk" and q: "q = next_id c"
  shows "tree_wf c' (insert q L) (P(q := P m @ take k (node_path (nodes c ch))))"
proof -
  let ?L = "insert q L" and ?P = "P(q := P m @ take k (node_path (nodes c ch)))"
  from tree_nodeE [OF wf ch(1,2)] ch(3) have m: "m \<in> L" "P ch = P m @ node_path (nodes c ch)"
    "(ck, ch) \<in> set (children (nodes c m))" "m \<noteq> root_node c \<Longrightarrow> key_ns (node_key (nodes c m)) = key_ns (node_key (nodes c ch))"
    and c: "token_ids (node_key (nodes c ch)) \<noteq> []" "length (node_value (nodes c ch)) = key_len (node_key (nodes c ch))"
    "cache_page_size c dvd key_len (node_key (nodes c ch))" "length (node_path (nodes c ch)) = key_len (node_key (nodes c ch))"
    using ck by (metis option.inject sum.inject(2))+
  have qL: "q \<notin> L" using tree_wfD(3) [OF wf] by (auto simp: q)
  have ne: "m \<noteq> ch" "m \<noteq> next_id c" "ch \<noteq> next_id c" using m c ch qL by (auto simp: q key_len_def)
  note sh = split_heap_simps [OF ne c', folded q]
  have cm: "children_ok c L m" by (rule tree_wfD(7) [OF wf m(1)])
  have ckq: "ck \<in> fst ` set (children (nodes c m))" using m(3) by force
  have setm: "set (dict_set ck q (children (nodes c m))) = {(k', v') \<in> set (children (nodes c m)). k' \<noteq> ck} \<union> {(ck, q)}"
    and dm: "map fst (dict_set ck q (children (nodes c m))) = map fst (children (nodes c m))"
    using set_dict_set [OF ckq] cm by (auto simp: children_ok_def)
  have only: "v = ch" if "(ck, v) \<in> set (children (nodes c m))" for v using child_unique [OF wf m(1) that m(3)] .
  have uniq: "(k', ch) \<in> set (children (nodes c n)) \<Longrightarrow> n \<in> L \<Longrightarrow> n = m \<and> k' = ck" for k' n
    using tree_wfD(7) [OF wf, of n] ch(3) ck by (auto simp: children_ok_def)
  have chok: "children_ok c' ?L n" if n: "n \<in> ?L" for n
  proof -
    consider "n = q" | "n = m" | "n \<in> L" "n \<noteq> m" "n \<noteq> q" using n by blast
    then show ?thesis
    proof cases
      case 1
      then show ?thesis using sh ch rk qL by (auto simp: children_ok_def q)
    next
      case 2
      have "get_child_key (cache_page_size c) (key_take k (node_key (nodes c ch))) = Inr ck"
        using get_child_key_take [OF k(1,3) tree_wfD(4) [OF wf]] ck by simp
      moreover have "v \<in> L \<and> v \<noteq> root_node c \<and> parent (nodes c' v) = Some m \<and>
          get_child_key (cache_page_size c) (node_key (nodes c' v)) = Inr k'"
        if "(k', v) \<in> set (children (nodes c m))" "k' \<noteq> ck" for k' v
      proof -
        have "v \<noteq> ch" using that uniq m(1) by blast
        moreover have "v \<in> L" "v \<noteq> root_node c" "parent (nodes c v) = Some m" "get_child_key (cache_page_size c) (node_key (nodes c v)) = Inr k'"
          using cm that by (auto simp: children_ok_def)
        moreover have "v \<noteq> q" using qL \<open>v \<in> L\<close> by auto
        ultimately show ?thesis using sh(3,4) by (cases "v = m") auto
      qed
      ultimately show ?thesis using 2 cm sh(1,3,5,6) qL tree_wfD(2) [OF wf]
        unfolding children_ok_def by (auto simp: setm dm)
    next
      case 3
      have same: "children (nodes c' n) = children (nodes c n)" using 3 sh(2,4) by (cases "n = ch") auto
      have "v \<in> L \<and> v \<noteq> root_node c \<and> parent (nodes c' v) = Some n \<and>
          get_child_key (cache_page_size c) (node_key (nodes c' v)) = Inr k'"
        if "(k', v) \<in> set (children (nodes c n))" for k' v
      proof -
        have "v \<noteq> ch" using that uniq 3 by blast
        moreover have "v \<in> L" "v \<noteq> root_node c" "parent (nodes c v) = Some n" "get_child_key (cache_page_size c) (node_key (nodes c v)) = Inr k'"
          using tree_wfD(7) [OF wf 3(1)] that by (auto simp: children_ok_def)
        moreover have "v \<noteq> q" using qL \<open>v \<in> L\<close> by auto
        ultimately show ?thesis using sh(3,4) by (cases "v = m") auto
      qed
      then show ?thesis
        using tree_wfD(7) [OF wf 3(1)] unfolding children_ok_def same by (auto simp: sh(5,6))
    qed
  qed
  have ns: "key_ns (node_key (nodes c' n)) = key_ns (node_key (nodes c n))" if "n \<in> L" for n
  proof -
    have "n \<noteq> q" using that qL by auto
    then show ?thesis using sh(2,3,4) by (cases "n = ch"; cases "n = m") auto
  qed
  have nok: "node_ok c' ?L ?P n" if n: "n \<in> ?L" "n \<noteq> root_node c" for n
  proof -
    consider "n = q" | "n = ch" | "n \<in> L" "n \<noteq> ch" "n \<noteq> q" using n by blast
    then show ?thesis
    proof cases
      case 1
      have "node_path (nodes c' q) = take k (node_path (nodes c ch))" by (simp add: node_path_def sh(1) take_zip)
      moreover have "q \<in> snd ` set (children (nodes c' m))" using sh(3) setm by force
      ultimately show ?thesis using 1 k m c sh(1,5,6) ns [OF m(1)] qL
        by (auto simp: node_ok_def Let_def key_len_def intro!: bexI [of _ m])
    next
      case 2
      have "node_path (nodes c' ch) = drop k (node_path (nodes c ch))" by (simp add: node_path_def sh(2) drop_zip)
      then have "?P ch = ?P q @ node_path (nodes c' ch)" using m(2) ne(3) q by simp
      then show ?thesis using 2 k m c sh(1,2,5,6)
        by (auto simp: node_ok_def Let_def key_len_def dvd_diff_nat intro!: bexI [of _ q])
    next
      case 3
      have same: "parent (nodes c' n) = parent (nodes c n)" "node_key (nodes c' n) = node_key (nodes c n)"
        "node_value (nodes c' n) = node_value (nodes c n)" using 3 sh(3,4) by (cases "n = m"; auto)+
      from tree_nodeE [OF wf 3(1) n(2)] obtain m0 ck0 where m0: "m0 \<in> L" "parent (nodes c n) = Some m0"
        "P n = P m0 @ node_path (nodes c n)" "(ck0, n) \<in> set (children (nodes c m0))"
        "m0 \<noteq> root_node c \<Longrightarrow> key_ns (node_key (nodes c m0)) = key_ns (node_key (nodes c n))"
        "token_ids (node_key (nodes c n)) \<noteq> []" "length (node_value (nodes c n)) = key_len (node_key (nodes c n))"
        "cache_page_size c dvd key_len (node_key (nodes c n))" by metis
      have "n \<in> snd ` set (children (nodes c' m0))"
      proof (cases "m0 = m")
        case True
        then have "ck0 \<noteq> ck" using m0(4) only 3(2) by auto
        with True m0(4) sh(3) setm show ?thesis by force
      next
        case False
        moreover have "m0 \<noteq> q" using m0(1) qL by auto
        ultimately have "children (nodes c' m0) = children (nodes c m0)" using sh(2,4) by (cases "m0 = ch") auto
        with m0(4) show ?thesis by force
      qed
      moreover have "?P n = ?P m0 @ node_path (nodes c' n)" using m0(1,3) 3 qL same by (auto simp: node_path_def)
      ultimately show ?thesis
        using m0 same ns [OF m0(1)] sh(5,6) by (auto simp: node_ok_def Let_def intro!: bexI [of _ m0])
    qed
  qed
  have "node_value (nodes c' (root_node c)) = []"
  proof -
    have "root_node c \<noteq> q" using tree_wfD(2) [OF wf] qL by auto
    then show ?thesis using tree_wfD(6) [OF wf] ch(2) sh(3,4) by (cases "root_node c = m") auto
  qed
  then show ?thesis
    unfolding tree_wf_def using tree_wfD(1-6) [OF wf] chok nok sh(5-7) qL q by (auto simp: less_Suc_eq)
qed


text \<open>The data of the old nodes after a split.\<close>

lemma split_data:
  assumes wf: "tree_wf c L P" and ch: "ch \<in> L" "ch \<noteq> root_node c" "parent (nodes c ch) = Some m"
    and c': "c' = split_heap c m ch k ck rk" and q: "q = next_id c"
  shows "m \<in> L" "q \<notin> L" "q \<noteq> root_node c" "m \<noteq> ch"
    "\<And>n. n \<in> L \<Longrightarrow> lock_ref (nodes c' n) = lock_ref (nodes c n)"
    "\<And>n. n \<in> L \<Longrightarrow> key_ns (node_key (nodes c' n)) = key_ns (node_key (nodes c n))"
    "\<And>n. n \<in> L \<Longrightarrow> n \<noteq> ch \<Longrightarrow> parent (nodes c' n) = parent (nodes c n) \<and> node_key (nodes c' n) = node_key (nodes c n) \<and>
       node_value (nodes c' n) = node_value (nodes c n)"
    "parent (nodes c' ch) = Some q" "parent (nodes c' q) = Some m" "lock_ref (nodes c' q) = lock_ref (nodes c ch)"
    "node_key (nodes c' q) = key_take k (node_key (nodes c ch))" "node_value (nodes c' q) = take k (node_value (nodes c ch))"
    "node_key (nodes c' ch) = key_drop k (node_key (nodes c ch))" "node_value (nodes c' ch) = drop k (node_value (nodes c ch))"
    "root_node c' = root_node c" "evictable_sizes c' = evictable_sizes c" "protected_sizes c' = protected_sizes c"
proof -
  from tree_nodeE [OF wf ch(1,2)] obtain m' where "m' \<in> L" "parent (nodes c ch) = Some m'" "P ch = P m' @ node_path (nodes c ch)"
    "token_ids (node_key (nodes c ch)) \<noteq> []" "length (node_path (nodes c ch)) = key_len (node_key (nodes c ch))" by metis
  with ch(3) show mL: "m \<in> L" and mc: "m \<noteq> ch" by (auto simp: key_len_def)
  show qL: "q \<notin> L" using tree_wfD(3) [OF wf] by (auto simp: q)
  then show "q \<noteq> root_node c" using tree_wfD(2) [OF wf] by auto
  have "m \<noteq> next_id c" "ch \<noteq> next_id c" using mL ch qL q by auto
  note sh = split_heap_simps [OF mc this c', folded q]
  have nq: "n \<noteq> q" if "n \<in> L" for n using that qL by auto
  show "lock_ref (nodes c' n) = lock_ref (nodes c n)" if "n \<in> L" for n
    using sh(2,3,4) nq [OF that] by (cases "n = ch"; cases "n = m") auto
  show "key_ns (node_key (nodes c' n)) = key_ns (node_key (nodes c n))" if "n \<in> L" for n
    using sh(2,3,4) nq [OF that] by (cases "n = ch"; cases "n = m") auto
  show "parent (nodes c' n) = parent (nodes c n) \<and> node_key (nodes c' n) = node_key (nodes c n) \<and>
       node_value (nodes c' n) = node_value (nodes c n)" if "n \<in> L" "n \<noteq> ch" for n
    using sh(2,3,4) nq [OF that(1)] that(2) by (cases "n = m") auto
  show "parent (nodes c' ch) = Some q" "parent (nodes c' q) = Some m" "lock_ref (nodes c' q) = lock_ref (nodes c ch)"
    "node_key (nodes c' q) = key_take k (node_key (nodes c ch))" "node_value (nodes c' q) = take k (node_value (nodes c ch))"
    "node_key (nodes c' ch) = key_drop k (node_key (nodes c ch))" "node_value (nodes c' ch) = drop k (node_value (nodes c ch))"
    "root_node c' = root_node c" "evictable_sizes c' = evictable_sizes c" "protected_sizes c' = protected_sizes c"
    by (simp_all add: sh)
qed


lemma split_keeps:
  assumes inv: "radix_inv c L P H" and ch: "ch \<in> L" "ch \<noteq> root_node c" "parent (nodes c ch) = Some m"
    and k: "0 < k" "k < key_len (node_key (nodes c ch))" "cache_page_size c dvd k"
    and ck: "get_child_key (cache_page_size c) (node_key (nodes c ch)) = Inr ck"
    and rk: "get_child_key (cache_page_size c) (key_drop k (node_key (nodes c ch))) = Inr rk"
    and c': "c' = split_heap c m ch k ck rk" and q: "q = next_id c"
    and P': "P' = P(q := P m @ take k (node_path (nodes c ch)))"
  shows "radix_inv c' (insert q L) P' H" "content c' (insert q L) P' = content c L P"
proof -
  note wf = radix_invD(1) [OF inv]
  note d = split_data [OF wf ch c' q]
  have wf': "tree_wf c' (insert q L) P'" unfolding P' by (rule split_tree_wf [OF wf ch k ck rk c' q])
  have Pch: "P ch = P m @ node_path (nodes c ch)" using tree_nodeE [OF wf ch(1,2)] ch(3) by (metis option.inject)
  have "prefix (P' q) (P ch)" unfolding P' Pch by (simp add: take_is_prefix)
  note pq = this
  have PL: "P' n = P n" if "n \<in> L" for n using that d(2) by (auto simp: P')
  show "content c' (insert q L) P' = content c L P"
  proof (intro equalityI subrelI)
    fix ns ps assume "(ns, ps) \<in> content c' (insert q L) P'"
    then obtain n where n: "n \<in> insert q L" "n \<noteq> root_node c" "key_ns (node_key (nodes c' n)) = ns" "prefix ps (P' n)"
      by (auto simp: content_def d(15))
    show "(ns, ps) \<in> content c L P"
    proof (cases "n = q")
      case True
      with n pq have "prefix ps (P ch)" "key_ns (node_key (nodes c ch)) = ns" by (auto simp: d(11) intro: prefix_order.trans)
      with ch(1,2) show ?thesis by (auto simp: content_def)
    next
      case False
      with n d(6) PL show ?thesis by (auto simp: content_def)
    qed
  next
    fix ns ps assume "(ns, ps) \<in> content c L P"
    with d(6,15) PL show "(ns, ps) \<in> content c' (insert q L) P'" by (fastforce simp: content_def)
  qed
  have kq: "kids c' (insert q L) q = {ch}"
    using d ch tree_wfD(8) [OF wf] by (fastforce simp: kids_def node_ok_def Let_def)
  have km: "kids c' (insert q L) m = insert q (kids c L m - {ch})"
    using d ch by (fastforce simp: kids_def)
  have kn: "kids c' (insert q L) n = kids c L n" if "n \<noteq> q" "n \<noteq> m" for n
  proof -
    have "x \<in> kids c' (insert q L) n \<longleftrightarrow> x \<in> kids c L n" for x
      using that d(2,3,7-9,15) ch by (cases "x = q"; cases "x = ch") (auto simp: kids_def)
    then show ?thesis by blast
  qed
  have fin: "finite (kids c L n)" for n using tree_wfD(1) [OF wf] by (simp add: kids_def)
  have nn: "0 \<le> lock_ref (nodes c x)" if "x \<in> L" "x \<noteq> root_node c" for x
    using lock_nonneg [OF radix_invD(2) [OF inv]] that by blast
  have "locks_ok c' (insert q L) H"
    unfolding locks_ok_def
  proof (intro conjI allI impI ballI)
    fix n assume n: "n \<in> insert q L - {root_node c'}"
    have lk: "(\<Sum>x\<in>kids c L y. lock_ref (nodes c' x)) = (\<Sum>x\<in>kids c L y. lock_ref (nodes c x))" for y
      by (rule sum.cong) (auto simp: kids_def d)
    have "n = q \<or> n = m \<or> (n \<in> L \<and> n \<noteq> m \<and> n \<noteq> q)" using n by auto
    moreover have "lock_ref (nodes c' q) = int (H q) + (\<Sum>x\<in>kids c' (insert q L) q. lock_ref (nodes c' x))"
      using radix_invD(2) [OF inv] d(2,5,10) ch by (simp add: locks_ok_def kq)
    moreover have "(\<Sum>x\<in>kids c' (insert q L) m. lock_ref (nodes c' x)) = (\<Sum>x\<in>kids c L m. lock_ref (nodes c x))"
    proof -
      have "q \<notin> kids c L m - {ch}" "ch \<in> kids c L m" using d(2) ch by (auto simp: kids_def)
      then show ?thesis
        using fin sum.remove [OF fin, of ch m "\<lambda>x. lock_ref (nodes c x)"] lk d(5,10)
        by (simp add: km) (rule sum.cong, auto simp: kids_def d)
    qed
    ultimately show "lock_ref (nodes c' n) = int (H n) + (\<Sum>x\<in>kids c' (insert q L) n. lock_ref (nodes c' x))"
      using radix_invD(2) [OF inv] n d(1,5,15) kn [of n] lk [of n] by (auto simp: locks_ok_def)
    show "0 \<le> lock_ref (nodes c' n)"
      using nn [of n] nn [OF ch(1,2)] n d(5) [of n] d(10,15) by (cases "n = q") auto
  qed (use radix_invD(2) [OF inv] in \<open>auto simp: locks_ok_def\<close>)
  moreover have "ranked_size c' (insert q L) b r = ranked_size c L b r" for b r
  proof -
    let ?f = "\<lambda>c n. if node_dp_rank (nodes c n) = r \<and> (lock_ref (nodes c n) > 0) = b then int (length (node_value (nodes c n))) else 0"
    have "node_dp_rank (nodes c' q) = node_dp_rank (nodes c ch)" "node_dp_rank (nodes c' ch) = node_dp_rank (nodes c ch)"
      using k by (auto simp: node_dp_rank_def key_len_def d(11,13))
    moreover have "int (length (node_value (nodes c ch))) = int (length (node_value (nodes c' q))) + int (length (node_value (nodes c' ch)))"
      by (simp add: d(12,14) min_def)
    ultimately have split: "?f c' q + ?f c' ch = ?f c ch" by (auto simp: d(5) [OF ch(1)] d(10))
    have finL: "finite (L - {root_node c})" using tree_wfD(1) [OF wf] by simp
    have "ranked_size c' (insert q L) b r = (\<Sum>n\<in>insert q (L - {root_node c}). ?f c' n)"
      unfolding ranked_size_def using d(3,15) by (intro sum.cong) auto
    also have "\<dots> = ?f c' q + (\<Sum>n\<in>L - {root_node c}. ?f c' n)" using finL d(2) by simp
    also have "(\<Sum>n\<in>L - {root_node c}. ?f c' n) = ?f c' ch + (\<Sum>n\<in>L - {root_node c} - {ch}. ?f c' n)"
      using finL ch by (intro sum.remove) auto
    also have "(\<Sum>n\<in>L - {root_node c} - {ch}. ?f c' n) = (\<Sum>n\<in>L - {root_node c} - {ch}. ?f c n)"
      by (rule sum.cong) (use d(5,7) in \<open>auto simp: node_dp_rank_def\<close>)
    also have "?f c' q + (?f c' ch + (\<Sum>n\<in>L - {root_node c} - {ch}. ?f c n)) = ?f c ch + (\<Sum>n\<in>L - {root_node c} - {ch}. ?f c n)"
      using split by (simp only: add.assoc [symmetric])
    also have "\<dots> = ranked_size c L b r"
      unfolding ranked_size_def using finL ch by (intro sum.remove [symmetric]) auto
    finally show ?thesis .
  qed
  then have "sizes_ok c' (insert q L)" using radix_invD(3) [OF inv] d(16,17) by (simp add: sizes_ok_def)
  ultimately show "radix_inv c' (insert q L) P' H" using wf' by (simp add: radix_inv_def)
qed

end
