(* ===== verification/Radix_Walk.thy ===== *)
theory Radix_Walk
  imports Radix_Tree
begin

text \<open>
  Matching and inserting in the prefix cache: the walk both share, what it may change (it splits nodes),
  where it ends, and the theorems about \<open>match_prefix\<close> and \<open>insert\<close>.
\<close>

section \<open>Walking down\<close>

text \<open>The slots that the tree holds for a rank.\<close>

definition tree_slots :: "radix_cache \<Rightarrow> nat set \<Rightarrow> nat \<Rightarrow> int multiset" where
  "tree_slots c L r = (\<Sum>n\<in>{n \<in> L - {root_node c}. node_dp_rank (nodes c n) = r}. mset (node_value (nodes c n)))"

lemma tree_slots_alt:
  assumes "finite L"
  shows "tree_slots c L r = (\<Sum>n\<in>L - {root_node c}. if node_dp_rank (nodes c n) = r then mset (node_value (nodes c n)) else {#})"
  unfolding tree_slots_def by (rule sum.inter_filter) (use assms in simp)

lemma tree_slots_touch [simp]: "tree_slots (touch n c) L r = tree_slots c L r"
  by (simp add: tree_slots_def)

lemma tree_slots_cong:
  assumes "root_node c' = root_node c"
    "\<And>n. n \<in> L \<Longrightarrow> n \<noteq> root_node c \<Longrightarrow> node_dp_rank (nodes c' n) = node_dp_rank (nodes c n) \<and> node_value (nodes c' n) = node_value (nodes c n)"
  shows "tree_slots c' L r = tree_slots c L r"
  unfolding tree_slots_def by (rule sum.cong) (use assms in auto)

text \<open>What a walk may change: nodes are split, nothing else.\<close>

definition same_frame :: "radix_cache \<Rightarrow> radix_cache \<Rightarrow> bool" where
  "same_frame c c' \<longleftrightarrow> root_node c' = root_node c \<and> cache_page_size c' = cache_page_size c \<and> disable c' = disable c \<and>
     is_eagle c' = is_eagle c \<and> evictable_sizes c' = evictable_sizes c \<and> protected_sizes c' = protected_sizes c \<and>
     kv_allocator c' = kv_allocator c"

definition tree_ext ::
  "radix_cache \<Rightarrow> nat set \<Rightarrow> (nat \<Rightarrow> annotated) \<Rightarrow> radix_cache \<Rightarrow> nat set \<Rightarrow> (nat \<Rightarrow> annotated) \<Rightarrow> bool" where
  "tree_ext c L P c' L' P' \<longleftrightarrow> content c' L' P' = content c L P \<and> L \<subseteq> L' \<and> same_frame c c' \<and>
     (\<forall>r. tree_slots c' L' r = tree_slots c L r) \<and>
     (\<forall>n\<in>L. P' n = P n \<and> key_ns (node_key (nodes c' n)) = key_ns (node_key (nodes c n)) \<and>
        lock_ref (nodes c' n) = lock_ref (nodes c n))"

lemma tree_ext_refl [simp]: "tree_ext c L P c L P"
  by (simp add: tree_ext_def same_frame_def)

lemma tree_ext_trans: "tree_ext c L P c' L' P' \<Longrightarrow> tree_ext c' L' P' c'' L'' P'' \<Longrightarrow> tree_ext c L P c'' L'' P''"
  by (auto simp: tree_ext_def same_frame_def subset_eq)

lemma tree_ext_touch [simp]: "tree_ext (touch n c) L P c' L' P' = tree_ext c L P c' L' P'"
  by (simp add: tree_ext_def same_frame_def)

lemma tree_extD:
  assumes "tree_ext c L P c' L' P'"
  shows "content c' L' P' = content c L P" "L \<subseteq> L'" "root_node c' = root_node c" "cache_page_size c' = cache_page_size c"
    "\<And>n. n \<in> L \<Longrightarrow> P' n = P n" "\<And>n. n \<in> L \<Longrightarrow> key_ns (node_key (nodes c' n)) = key_ns (node_key (nodes c n))"
    "\<And>n. n \<in> L \<Longrightarrow> lock_ref (nodes c' n) = lock_ref (nodes c n)"
    "same_frame c c'" "tree_slots c' L' r = tree_slots c L r"
  using assms by (auto simp: tree_ext_def same_frame_def)

lemma split_tree_slots:
  assumes fin: "finite L" and ch: "ch \<in> L" "ch \<noteq> root_node c" and ne: "m \<noteq> ch" "m \<noteq> next_id c" "ch \<noteq> next_id c"
    and q: "next_id c \<notin> L" "next_id c \<noteq> root_node c" and k: "0 < k" "k < key_len (node_key (nodes c ch))"
    and c': "c' = split_heap c m ch k ck rk"
  shows "tree_slots c' (insert (next_id c) L) r = tree_slots c L r"
proof -
  note sh = split_heap_simps [OF ne c']
  let ?f = "\<lambda>c n. if node_dp_rank (nodes c n) = r then mset (node_value (nodes c n)) else {#}"
  let ?R = "L - {root_node c} - {ch}"
  have rank: "node_dp_rank (nodes c' (next_id c)) = node_dp_rank (nodes c ch)" "node_dp_rank (nodes c' ch) = node_dp_rank (nodes c ch)"
    using k by (auto simp: node_dp_rank_def sh(1,2) key_take_def key_drop_def key_len_def)
  have rest: "(\<Sum>n\<in>?R. ?f c' n) = (\<Sum>n\<in>?R. ?f c n)"
  proof (rule sum.cong [OF refl])
    fix n assume "n \<in> ?R"
    then have "n \<noteq> ch" "n \<noteq> next_id c" using q by auto
    then show "?f c' n = ?f c n" using sh(3,4) by (cases "n = m") (auto simp: node_dp_rank_def)
  qed
  have "insert (next_id c) L - {root_node c'} = insert (next_id c) (insert ch ?R)" using ch q sh(5) by auto
  moreover have "finite ?R" "ch \<notin> ?R" "next_id c \<notin> insert ch ?R" using fin q ne by auto
  then have "(\<Sum>n\<in>insert (next_id c) (insert ch ?R). ?f c' n) = ?f c' (next_id c) + (?f c' ch + (\<Sum>n\<in>?R. ?f c' n))"
    by (simp only: sum.insert finite_insert not_False_eq_True)
  ultimately have "tree_slots c' (insert (next_id c) L) r = ?f c' (next_id c) + (?f c' ch + (\<Sum>n\<in>?R. ?f c' n))"
    using fin by (simp only: tree_slots_alt finite_insert)
  also have "?f c' (next_id c) + (?f c' ch + (\<Sum>n\<in>?R. ?f c' n)) = ?f c ch + (\<Sum>n\<in>?R. ?f c n)"
  proof -
    have "mset (take k xs) + mset (drop k xs) = mset xs" for xs :: "int list" by (metis append_take_drop_id mset_append)
    moreover have "node_value (nodes c' (next_id c)) = take k (node_value (nodes c ch))" "node_value (nodes c' ch) = drop k (node_value (nodes c ch))"
      by (simp_all add: sh(1,2))
    ultimately show ?thesis unfolding rest rank by (simp flip: add.assoc)
  qed
  also have "\<dots> = tree_slots c L r"
    unfolding tree_slots_alt [OF fin] by (rule sum.remove [symmetric]) (use fin ch in auto)
  finally show ?thesis .
qed

lemma split_tree_ext:
  assumes inv: "radix_inv c L P H" and ch: "ch \<in> L" "ch \<noteq> root_node c" "parent (nodes c ch) = Some m"
    and k: "0 < k" "k < key_len (node_key (nodes c ch))" "cache_page_size c dvd k"
  obtains q c' P' rk where "split_node (node_key (nodes c ch)) ch k c = Inr (q, c')" "radix_inv c' (insert q L) P' H"
    "tree_ext c L P c' (insert q L) P'" "P' q = P m @ take k (node_path (nodes c ch))" "q \<noteq> root_node c"
    "node_key (nodes c' q) = key_take k (node_key (nodes c ch))" "node_value (nodes c' q) = take k (node_value (nodes c ch))"
    "children (nodes c' q) = [(rk, ch)]" "get_child_key (cache_page_size c) (key_drop k (node_key (nodes c ch))) = Inr rk"
proof -
  note wf = radix_invD(1) [OF inv]
  from split_node_eq [OF wf ch(1,2) k(1,2) ch(3)] obtain ck rk where
    e: "get_child_key (cache_page_size c) (node_key (nodes c ch)) = Inr ck"
      "get_child_key (cache_page_size c) (key_drop k (node_key (nodes c ch))) = Inr rk"
      "split_node (node_key (nodes c ch)) ch k c = Inr (next_id c, split_heap c m ch k ck rk)" by blast
  define c' where "c' = split_heap c m ch k ck rk"
  define q where "q = next_id c"
  note d = split_data [OF wf ch c'_def q_def]
  note kp = split_keeps [OF inv ch k e(1,2) c'_def q_def refl]
  have "m \<noteq> next_id c" "ch \<noteq> next_id c" using d(1,2) ch by (auto simp: q_def)
  note sh = split_heap_simps [OF d(4) this c'_def]
  have "q \<notin> L" using tree_wfD(3) [OF wf] by (auto simp: q_def)
  then have sl: "tree_slots c' (insert q L) r = tree_slots c L r" for r
    unfolding q_def
    by (intro split_tree_slots [OF tree_wfD(1) [OF wf] ch(1,2) d(4) \<open>m \<noteq> next_id c\<close> \<open>ch \<noteq> next_id c\<close> _ _ k(1,2) c'_def])
      (use tree_wfD(2) [OF wf] in auto)
  show ?thesis
    by (rule that [OF _ kp(1)]) (use e kp(2) d sh sl in \<open>auto simp: tree_ext_def same_frame_def c'_def [symmetric] q_def [symmetric]\<close>)
qed

text \<open>One round of a walk: the child that the key selects shares the key's namespace and at least one
  page of it.\<close>

lemma walk_round:
  assumes wf: "tree_wf c L P" and n: "n \<in> L"
    and key: "token_ids key \<noteq> []" "cache_page_size c dvd key_len key" "get_child_key (cache_page_size c) key = Inr ck"
    and child: "child_of ck (nodes c n) = Some ch"
  defines "pl \<equiv> match_pages (cache_page_size c) (token_ids (node_key (nodes c ch))) (token_ids key)"
  shows "ch \<in> L" "ch \<noteq> root_node c" "parent (nodes c ch) = Some n" "P ch = P n @ node_path (nodes c ch)"
    "key_match c (node_key (nodes c ch)) key = Inr pl"
    "key_ns (node_key (nodes c ch)) = key_ns key" "0 < pl" "cache_page_size c dvd pl"
    "pl \<le> key_len (node_key (nodes c ch))" "pl \<le> key_len key"
    "take pl (map fst (node_path (nodes c ch))) = take pl (token_ids key)"
    "pl < key_len (node_key (nodes c ch)) \<Longrightarrow> pl < key_len key \<Longrightarrow>
       take (cache_page_size c) (drop pl (token_ids (node_key (nodes c ch)))) \<noteq> take (cache_page_size c) (drop pl (token_ids key))"
proof -
  let ?p = "cache_page_size c"
  note p = tree_wfD(4) [OF wf]
  from child have ec: "(ck, ch) \<in> set (children (nodes c n))" by (auto simp: child_of_def dest: map_of_SomeD)
  with tree_wfD(7) [OF wf n] have ch: "ch \<in> L" "ch \<noteq> root_node c" "parent (nodes c ch) = Some n"
    and g: "get_child_key ?p (node_key (nodes c ch)) = Inr ck" by (auto simp: children_ok_def)
  from ch show "ch \<in> L" "ch \<noteq> root_node c" "parent (nodes c ch) = Some n" by auto
  from tree_nodeE [OF wf ch(1,2)] ch(3) show Pc: "P ch = P n @ node_path (nodes c ch)" by (metis option.inject)
  from tree_nodeE [OF wf ch(1,2)] have t: "token_ids (node_key (nodes c ch)) \<noteq> []"
    "length (node_value (nodes c ch)) = key_len (node_key (nodes c ch))" "?p dvd key_len (node_key (nodes c ch))" by metis+
  from get_child_key_eq_iff [OF t(1) key(1) p] g key(3)
  have ns: "key_ns (node_key (nodes c ch)) = key_ns key" and pg: "take ?p (token_ids (node_key (nodes c ch))) = take ?p (token_ids key)"
    by auto
  show "key_ns (node_key (nodes c ch)) = key_ns key" by (rule ns)
  show "key_match c (node_key (nodes c ch)) key = Inr pl" using key_match_eq [OF ns] by (simp add: pl_def)
  have dv: "?p dvd length (token_ids (node_key (nodes c ch)))" "?p dvd length (token_ids key)" using t(3) key(2) by (auto simp: key_len_def)
  note sp = match_pages_spec [OF p dv, folded pl_def]
  show "0 < pl" using match_pages_pos [OF p dv t(1) key(1) pg] p by (simp add: pl_def)
  show "?p dvd pl" by (simp add: pl_def)
  show "pl \<le> key_len (node_key (nodes c ch))" "pl \<le> key_len key" using sp by (auto simp: key_len_def)
  have "map fst (node_path (nodes c ch)) = token_ids (node_key (nodes c ch))" using t(2) by (simp add: node_path_def key_len_def)
  with sp show "take pl (map fst (node_path (nodes c ch))) = take pl (token_ids key)" by simp
  show "take ?p (drop pl (token_ids (node_key (nodes c ch)))) \<noteq> take ?p (drop pl (token_ids key))"
    if "pl < key_len (node_key (nodes c ch))" "pl < key_len key"
    using sp that by (auto simp: key_len_def take_add)
qed


definition stops :: "radix_cache \<Rightarrow> nat \<Rightarrow> radix_key \<Rightarrow> bool" where
  "stops c n key \<longleftrightarrow> token_ids key = [] \<or>
     (\<exists>ck. get_child_key (cache_page_size c) key = Inr ck \<and> child_of ck (nodes c n) = None)"

text \<open>The result of a walk from \<open>n\<close> along \<open>key\<close>: it ends at \<open>n'\<close> after \<open>j\<close> tokens with the slots \<open>vs\<close>.\<close>

definition walked ::
  "radix_cache \<Rightarrow> nat set \<Rightarrow> (nat \<Rightarrow> annotated) \<Rightarrow> (nat \<Rightarrow> nat) \<Rightarrow> nat \<Rightarrow> radix_key \<Rightarrow> nat \<Rightarrow> int list \<Rightarrow> nat \<Rightarrow>
   radix_cache \<Rightarrow> nat set \<Rightarrow> (nat \<Rightarrow> annotated) \<Rightarrow> bool" where
  "walked c L P H n key j vs n' c' L' P' \<longleftrightarrow>
     radix_inv c' L' P' H \<and> tree_ext c L P c' L' P' \<and> n' \<in> L' \<and>
     (n' \<noteq> root_node c \<longrightarrow> key_ns (node_key (nodes c' n')) = key_ns key) \<and>
     j \<le> key_len key \<and> length vs = j \<and> P' n' = P n @ zip (take j (token_ids key)) vs \<and> stops c' n' (key_drop j key)"

lemma walked_zero:
  assumes "radix_inv c L P H" "n \<in> L" "n \<noteq> root_node c \<Longrightarrow> key_ns (node_key (nodes c n)) = key_ns key" "stops c n key"
  shows "walked c L P H n key 0 [] n c L P"
  using assms by (simp add: walked_def key_drop_def)

lemma key_drop_drop: "key_drop i (key_drop j k) = key_drop (j + i) k"
  by (simp add: key_drop_def add.commute)

lemma key_drop_all: "key_drop (key_len k) k = k\<lparr>token_ids := []\<rparr>"
  by (simp add: key_drop_def key_len_def)

text \<open>A round followed by a walk is a walk.\<close>

lemma walked_Cons:
  assumes w: "walked c1 L1 P1 H n1 (key_drop pl key) j vs n' c' L' P'"
    and e: "tree_ext c L P c1 L1 P1" and pl: "pl \<le> key_len key" and P1: "P1 n1 = P n @ zip (take pl (token_ids key)) us" "length us = pl"
  shows "walked c L P H n key (pl + j) (us @ vs) n' c' L' P'"
proof -
  have "take (pl + j) (token_ids key) = take pl (token_ids key) @ take j (drop pl (token_ids key))" by (rule take_add)
  moreover have "length (take pl (token_ids key)) = length us" using pl P1 by (simp add: key_len_def min_absorb2)
  ultimately show ?thesis
    using w pl P1 tree_ext_trans [OF e] tree_extD(3) [OF e] by (auto simp: walked_def key_drop_drop)
qed

text \<open>The child is entered or split; then the rest of the key is walked from there.\<close>

lemma walk_enter:
  assumes inv: "radix_inv c L P H" and n: "n \<in> L" "n \<noteq> root_node c \<Longrightarrow> key_ns (node_key (nodes c n)) = key_ns key"
    and key: "token_ids key \<noteq> []" "cache_page_size c dvd key_len key" "get_child_key (cache_page_size c) key = Inr ck"
    and child: "child_of ck (nodes c n) = Some ch"
  obtains pl us n1 c1 L1 P1 where "key_match c (node_key (nodes c ch)) key = Inr pl" "0 < pl" "pl \<le> key_len key" "cache_page_size c dvd pl"
    "length us = pl" "node_value (nodes c1 n1) = us" "P1 n1 = P n @ zip (take pl (token_ids key)) us"
    "radix_inv c1 L1 P1 H" "tree_ext c L P c1 L1 P1" "n1 \<in> L1" "n1 \<noteq> root_node c" "key_ns (node_key (nodes c1 n1)) = key_ns key"
    "if pl < key_len (node_key (nodes c ch)) then split_node (node_key (nodes c ch)) ch pl c = Inr (n1, c1) \<and> stops c1 n1 (key_drop pl key)
     else n1 = ch \<and> c1 = c"
proof -
  note wf = radix_invD(1) [OF inv]
  note r = walk_round [OF wf n(1) key child]
  from tree_nodeE [OF wf r(1,2)] have t: "token_ids (node_key (nodes c ch)) \<noteq> []"
    "length (node_value (nodes c ch)) = key_len (node_key (nodes c ch))" "cache_page_size c dvd key_len (node_key (nodes c ch))" by metis+
  define pl where "pl = match_pages (cache_page_size c) (token_ids (node_key (nodes c ch))) (token_ids key)"
  note r = r [folded pl_def]
  define us where "us = take pl (node_value (nodes c ch))"
  have zip: "take pl (node_path (nodes c ch)) = zip (take pl (token_ids key)) us"
    using r(11) t(2) by (simp add: node_path_def us_def take_zip key_len_def)
  show ?thesis
  proof (cases "pl < key_len (node_key (nodes c ch))")
    case True
    obtain q c' P' rk where q: "split_node (node_key (nodes c ch)) ch pl c = Inr (q, c')" "radix_inv c' (insert q L) P' H"
      "tree_ext c L P c' (insert q L) P'" "P' q = P n @ take pl (node_path (nodes c ch))" "q \<noteq> root_node c"
      "node_key (nodes c' q) = key_take pl (node_key (nodes c ch))" "node_value (nodes c' q) = take pl (node_value (nodes c ch))"
      "children (nodes c' q) = [(rk, ch)]" "get_child_key (cache_page_size c) (key_drop pl (node_key (nodes c ch))) = Inr rk"
      by (rule split_tree_ext [OF inv r(1,2,3) r(7) True r(8)])
    have "stops c' q (key_drop pl key)"
    proof (cases "pl < key_len key")
      case False
      then show ?thesis by (simp add: stops_def key_len_def)
    next
      case lt: True
      then have ne: "token_ids (key_drop pl key) \<noteq> []" "token_ids (key_drop pl (node_key (nodes c ch))) \<noteq> []"
        using True by (auto simp: key_len_def)
      obtain ck' where ck': "get_child_key (cache_page_size c) (key_drop pl key) = Inr ck'" using get_child_key_total [OF ne(1)] by blast
      have "ck' \<noteq> rk" using get_child_key_eq_iff [OF ne(1,2) tree_wfD(4) [OF wf]] ck' q(9) r(12) [OF True lt] by force
      with ck' q(8) tree_extD(4) [OF q(3)] show ?thesis by (simp add: stops_def child_of_def)
    qed
    with True q r zip show ?thesis
      by (intro that [of pl us c' q P' "insert q L"]) (auto simp: us_def key_len_def t)
  next
    case False
    with r(9) have e: "pl = key_len (node_key (nodes c ch))" by simp
    have "us = node_value (nodes c ch)" "take pl (node_path (nodes c ch)) = node_path (nodes c ch)"
      using e t(2) by (simp_all add: us_def node_path_def key_len_def)
    with False e r t inv zip show ?thesis
      by (intro that [of pl us c ch P L]) auto
  qed
qed

lemma match_loop_ok:
  assumes "radix_inv c L P H" "n \<in> L" "n \<noteq> root_node c \<Longrightarrow> key_ns (node_key (nodes c n)) = key_ns key"
    and "cache_page_size c dvd key_len key" "key_len key < fuel"
  shows "\<exists>xs j n' c' L' P'. match_loop fuel n key seqs c = Inr (seqs @ xs, n', c') \<and> walked c L P H n key j (concat xs) n' c' L' P'"
  using assms
proof (induction fuel arbitrary: c L P n key seqs)
  case (Suc fuel)
  show ?case
  proof (cases "token_ids key = []")
    case True
    with walked_zero [OF Suc.prems(1-3)] show ?thesis by (fastforce simp: stops_def)
  next
    case False
    then obtain ck where ck: "get_child_key (cache_page_size c) key = Inr ck" using get_child_key_total by blast
    show ?thesis
    proof (cases "child_of ck (nodes c n)")
      case None
      with walked_zero [OF Suc.prems(1-3)] False ck show ?thesis by (fastforce simp: stops_def)
    next
      case (Some ch)
      let ?c = "touch ch c"
      obtain pl us n1 c1 L1 P1 where w: "key_match ?c (node_key (nodes ?c ch)) key = Inr pl" "0 < pl" "pl \<le> key_len key"
        "cache_page_size ?c dvd pl" "length us = pl" "node_value (nodes c1 n1) = us" "P1 n1 = P n @ zip (take pl (token_ids key)) us"
        "radix_inv c1 L1 P1 H" "tree_ext ?c L P c1 L1 P1" "n1 \<in> L1" "n1 \<noteq> root_node ?c" "key_ns (node_key (nodes c1 n1)) = key_ns key"
        "if pl < key_len (node_key (nodes ?c ch)) then split_node (node_key (nodes ?c ch)) ch pl ?c = Inr (n1, c1) \<and> stops c1 n1 (key_drop pl key)
         else n1 = ch \<and> c1 = ?c"
        by (rule walk_enter [of ?c L P H n key ck ch]) (use Suc.prems False ck Some in auto)
      from w(9) have ext: "tree_ext c L P c1 L1 P1" by simp
      have cons: "\<And>j vs n' c' L' P'. walked c1 L1 P1 H n1 (key_drop pl key) j vs n' c' L' P' \<Longrightarrow>
          walked c L P H n key (pl + j) (us @ vs) n' c' L' P'"
        by (rule walked_Cons [OF _ ext w(3,7,5)])
      show ?thesis
      proof (cases "pl < key_len (node_key (nodes ?c ch))")
        case True
        with w(13) have sp: "split_node (node_key (nodes ?c ch)) ch pl ?c = Inr (n1, c1)" "stops c1 n1 (key_drop pl key)" by auto
        have "match_loop (Suc fuel) n key seqs c = Inr (seqs @ [us], n1, c1)"
          using False ck Some w(1,6) sp(1) True by (simp add: Let_def)
        moreover have "walked c1 L1 P1 H n1 (key_drop pl key) 0 [] n1 c1 L1 P1"
          by (rule walked_zero [OF w(8,10) _ sp(2)]) (simp add: w(12))
        from cons [OF this] have "walked c L P H n key pl (concat [us]) n1 c1 L1 P1" by simp
        ultimately show ?thesis by blast
      next
        case nsplit: False
        with w(13) have n1: "n1 = ch" "c1 = ?c" by auto
        have "match_loop (Suc fuel) n key seqs c = match_loop fuel ch (key_drop pl key) (seqs @ [us]) ?c"
          using False ck Some w(1,6) n1 nsplit by (simp add: Let_def)
        moreover obtain xs j n' c' L' P' where "match_loop fuel ch (key_drop pl key) (seqs @ [us]) ?c = Inr ((seqs @ [us]) @ xs, n', c')"
          "walked ?c L1 P1 H ch (key_drop pl key) j (concat xs) n' c' L' P'"
        proof -
          have "key_len (key_drop pl key) < fuel" using w(2,3) Suc.prems(5) by simp
          with Suc.IH [of ?c L1 P1 ch "key_drop pl key" "seqs @ [us]"] w(4,8,10-12) n1 Suc.prems(4) that show ?thesis
            by (simp add: dvd_diff_nat) blast
        qed
        moreover from this(2) cons n1 have "walked c L P H n key (pl + j) (concat (us # xs)) n' c' L' P'" by simp
        ultimately show ?thesis by (metis append_Cons append_assoc self_append_conv2)
      qed
    qed
  qed
qed simp


lemma insert_loop_ok:
  assumes "radix_inv c L P H" "n \<in> L" "n \<noteq> root_node c \<Longrightarrow> key_ns (node_key (nodes c n)) = key_ns key"
    and "cache_page_size c dvd key_len key" "key_len key < fuel"
  shows "\<exists>vs j n' c' L' P'. insert_loop fuel n key vals a c = Inr (n', key_drop j key, drop j vals, a + j, c') \<and>
    walked c L P H n key j vs n' c' L' P'"
  using assms
proof (induction fuel arbitrary: c L P n key vals a)
  case (Suc fuel)
  have zero: "key_drop 0 key = key" by (simp add: key_drop_def)
  show ?case
  proof (cases "stops c n key")
    case True
    then have "insert_loop (Suc fuel) n key vals a c = Inr (n, key_drop 0 key, drop 0 vals, a + 0, c)"
      by (auto simp: stops_def zero)
    with walked_zero [OF Suc.prems(1-3) True] show ?thesis by blast
  next
    case False
    then have ne: "token_ids key \<noteq> []" by (auto simp: stops_def)
    then obtain ck where ck: "get_child_key (cache_page_size c) key = Inr ck" using get_child_key_total by blast
    with False obtain ch where ch: "child_of ck (nodes c n) = Some ch" by (auto simp: stops_def)
    let ?c = "touch ch c"
    obtain pl us n1 c1 L1 P1 where w: "key_match ?c (node_key (nodes ?c ch)) key = Inr pl" "0 < pl" "pl \<le> key_len key"
      "cache_page_size ?c dvd pl" "length us = pl" "node_value (nodes c1 n1) = us" "P1 n1 = P n @ zip (take pl (token_ids key)) us"
      "radix_inv c1 L1 P1 H" "tree_ext ?c L P c1 L1 P1" "n1 \<in> L1" "n1 \<noteq> root_node ?c" "key_ns (node_key (nodes c1 n1)) = key_ns key"
      "if pl < key_len (node_key (nodes ?c ch)) then split_node (node_key (nodes ?c ch)) ch pl ?c = Inr (n1, c1) \<and> stops c1 n1 (key_drop pl key)
       else n1 = ch \<and> c1 = ?c"
      by (rule walk_enter [of ?c L P H n key ck ch]) (use Suc.prems ne ck ch in auto)
    from w(9) have ext: "tree_ext c L P c1 L1 P1" by simp
    have run: "insert_loop (Suc fuel) n key vals a c = insert_loop fuel n1 (key_drop pl key) (drop pl vals) (a + pl) c1"
      using ne ck ch w(1,13) by (auto simp: Let_def split: if_splits)
    have "key_len (key_drop pl key) < fuel" using w(2,3) Suc.prems(5) by simp
    then obtain vs j n' c' L' P' where ih: "insert_loop fuel n1 (key_drop pl key) (drop pl vals) (a + pl) c1 =
        Inr (n', key_drop j (key_drop pl key), drop j (drop pl vals), a + pl + j, c')"
      "walked c1 L1 P1 H n1 (key_drop pl key) j vs n' c' L' P'"
      using Suc.IH [of c1 L1 P1 n1 "key_drop pl key" "drop pl vals" "a + pl"] w(4,8,10-12) tree_extD(4) [OF ext] Suc.prems(4)
      by (auto simp: dvd_diff_nat)
    have "insert_loop (Suc fuel) n key vals a c = Inr (n', key_drop (pl + j) key, drop (pl + j) vals, a + (pl + j), c')"
      unfolding run ih(1) by (simp add: key_drop_drop add.assoc add.commute)
    with walked_Cons [OF ih(2) ext w(3,7,5)] show ?thesis by blast
  qed
qed simp

lemma kids_outside:
  assumes "tree_wf c L P" "q \<notin> L"
  shows "kids c L q = {}"
proof -
  have "parent (nodes c x) \<noteq> Some q" if "x \<in> L" "x \<noteq> root_node c" for x
    using tree_nodeE [OF assms(1) that] assms(2) by (metis option.inject)
  then show ?thesis by (auto simp: kids_def)
qed

text \<open>Attaching a leaf where the walk stopped.\<close>

definition leaf_heap :: "radix_cache \<Rightarrow> nat \<Rightarrow> radix_key \<Rightarrow> int list \<Rightarrow> child_key \<Rightarrow> radix_cache" where
  "leaf_heap c n key vals ck = (let q = next_id c; r = (case key_dp_rank key of None \<Rightarrow> 0 | Some r \<Rightarrow> r) in
     c\<lparr>nodes := (nodes c)(q := \<lparr>children = [], parent = Some n, node_key = key, node_value = vals, lock_ref = 0,
                               last_access_time = clock c (ticks c)\<rparr>,
                n := (nodes c n)\<lparr>children := children (nodes c n) @ [(ck, q)]\<rparr>),
       next_id := Suc q, ticks := Suc (ticks c),
       evictable_sizes := (evictable_sizes c)(r := evictable_sizes c r + int (length vals))\<rparr>)"

lemma attach_leaf_eq:
  assumes "get_child_key (cache_page_size c) key = Inr ck" "child_of ck (nodes c n) = None" "n \<noteq> next_id c"
  shows "attach_leaf n key vals c = Inr (leaf_heap c n key vals ck)"
  using assms by (simp add: attach_leaf_def new_tree_node_def upd_node_def leaf_heap_def Let_def child_of_def
      map_of_eq_None_iff dict_set_new)

lemma leaf_keeps:
  assumes inv: "radix_inv c L P H" and n: "n \<in> L" "n \<noteq> root_node c \<longrightarrow> key_ns (node_key (nodes c n)) = key_ns key"
    and key: "token_ids key \<noteq> []" "cache_page_size c dvd key_len key" "length vals = key_len key"
    and ck: "get_child_key (cache_page_size c) key = Inr ck" "child_of ck (nodes c n) = None"
    and c': "c' = leaf_heap c n key vals ck" and q: "q = next_id c" and P': "P' = P(q := P n @ zip (token_ids key) vals)"
  shows "radix_inv c' (insert q L) P' H"
    "content c' (insert q L) P' = content c L P \<union> {(key_ns key, ps) |ps. prefix ps (P' q)}"
    "attach_leaf n key vals c = Inr c'"
    "tree_slots c' (insert q L) r = tree_slots c L r + (if r = (case key_dp_rank key of None \<Rightarrow> 0 | Some r \<Rightarrow> r) then mset vals else {#})"
proof -
  note wf = radix_invD(1) [OF inv]
  have qL: "q \<notin> L" using tree_wfD(3) [OF wf] by (auto simp: q)
  have ne: "n \<noteq> q" "q \<noteq> root_node c" using n qL tree_wfD(2) [OF wf] by auto
  show "attach_leaf n key vals c = Inr c'" unfolding c' by (rule attach_leaf_eq [OF ck]) (use ne q in simp)
  have nq: "nodes c' q = \<lparr>children = [], parent = Some n, node_key = key, node_value = vals, lock_ref = 0,
      last_access_time = clock c (ticks c)\<rparr>"
    and nn: "nodes c' n = (nodes c n)\<lparr>children := children (nodes c n) @ [(ck, q)]\<rparr>"
    and no: "\<And>x. x \<noteq> n \<Longrightarrow> x \<noteq> q \<Longrightarrow> nodes c' x = nodes c x"
    and fr: "root_node c' = root_node c" "cache_page_size c' = cache_page_size c" "next_id c' = Suc q"
    using ne by (auto simp: c' leaf_heap_def Let_def q)
  have old: "parent (nodes c' x) = parent (nodes c x)" "node_key (nodes c' x) = node_key (nodes c x)"
    "node_value (nodes c' x) = node_value (nodes c x)" "lock_ref (nodes c' x) = lock_ref (nodes c x)"
    "node_path (nodes c' x) = node_path (nodes c x)" "node_dp_rank (nodes c' x) = node_dp_rank (nodes c x)" if "x \<in> L" for x
  proof -
    have "x \<noteq> q" using that qL by auto
    then have "nodes c' x = (if x = n then (nodes c n)\<lparr>children := children (nodes c n) @ [(ck, q)]\<rparr> else nodes c x)"
      using nn no by simp
    then show "parent (nodes c' x) = parent (nodes c x)" "node_key (nodes c' x) = node_key (nodes c x)"
      "node_value (nodes c' x) = node_value (nodes c x)" "lock_ref (nodes c' x) = lock_ref (nodes c x)"
      "node_path (nodes c' x) = node_path (nodes c x)" "node_dp_rank (nodes c' x) = node_dp_rank (nodes c x)"
      by (simp_all add: node_path_def node_dp_rank_def)
  qed
  show "tree_slots c' (insert q L) r = tree_slots c L r + (if r = (case key_dp_rank key of None \<Rightarrow> 0 | Some r \<Rightarrow> r) then mset vals else {#})"
  proof -
    have "node_dp_rank (nodes c' q) = (case key_dp_rank key of None \<Rightarrow> 0 | Some r \<Rightarrow> r)" using key(1) by (simp add: node_dp_rank_def nq)
    moreover have "tree_slots c' L r = tree_slots c L r" by (rule tree_slots_cong) (use old fr in auto)
    moreover have "insert q L - {root_node c} = insert q (L - {root_node c})" using ne by auto
    ultimately show ?thesis
      using qL tree_wfD(1) [OF wf] by (simp add: tree_slots_alt fr nq add.commute)
  qed
  have PL: "P' x = P x" if "x \<in> L" for x using that qL by (auto simp: P')
  show "content c' (insert q L) P' = content c L P \<union> {(key_ns key, ps) |ps. prefix ps (P' q)}"
  proof (intro equalityI subrelI)
    fix ns ps assume "(ns, ps) \<in> content c' (insert q L) P'"
    then obtain x where x: "x \<in> insert q L" "x \<noteq> root_node c" "key_ns (node_key (nodes c' x)) = ns" "prefix ps (P' x)"
      by (auto simp: content_def fr)
    show "(ns, ps) \<in> content c L P \<union> {(key_ns key, ps) |ps. prefix ps (P' q)}"
    proof (cases "x = q")
      case True
      with x nq show ?thesis by auto
    next
      case False
      with x old(2) PL show ?thesis by (auto simp: content_def)
    qed
  next
    fix ns ps assume "(ns, ps) \<in> content c L P \<union> {(key_ns key, ps) |ps. prefix ps (P' q)}"
    then show "(ns, ps) \<in> content c' (insert q L) P'"
    proof
      assume "(ns, ps) \<in> content c L P"
      then obtain x where "x \<in> L" "x \<noteq> root_node c" "key_ns (node_key (nodes c x)) = ns" "prefix ps (P x)"
        by (auto simp: content_def)
      with old(2) PL show ?thesis by (auto simp: content_def fr intro!: bexI [of _ x])
    next
      assume "(ns, ps) \<in> {(key_ns key, ps) |ps. prefix ps (P' q)}"
      with ne nq show ?thesis by (auto simp: content_def fr intro!: bexI [of _ q])
    qed
  qed
  have ckn: "ck \<notin> fst ` set (children (nodes c n))" using ck(2) by (simp add: child_of_def map_of_eq_None_iff)
  have chok: "children_ok c' (insert q L) x" if x: "x \<in> insert q L" for x
  proof (cases "x = q")
    case True
    then show ?thesis by (simp add: children_ok_def nq)
  next
    case False
    with x have xL: "x \<in> L" by simp
    have o: "distinct (map fst (children (nodes c x)))" "\<And>k' v. (k', v) \<in> set (children (nodes c x)) \<Longrightarrow> v \<in> L \<and> v \<noteq> root_node c \<and>
        parent (nodes c' v) = Some x \<and> get_child_key (cache_page_size c) (node_key (nodes c' v)) = Inr k'"
      using tree_wfD(7) [OF wf xL] old by (auto simp: children_ok_def)
    show ?thesis
    proof (cases "x = n")
      case True
      then have "children (nodes c' x) = children (nodes c x) @ [(ck, q)]" by (simp add: nn)
      then show ?thesis using o ckn ck(1) True ne by (auto simp: children_ok_def fr nq)
    next
      case F: False
      with no [of x] False o show ?thesis by (auto simp: children_ok_def fr)
    qed
  qed
  have nok: "node_ok c' (insert q L) P' x" if x: "x \<in> insert q L" "x \<noteq> root_node c" for x
  proof (cases "x = q")
    case True
    have "P' q = P' n @ node_path (nodes c' q)" using PL [OF n(1)] by (simp add: P' nq node_path_def)
    then show ?thesis using True nq nn key n old(2) [OF n(1)] by (auto simp: node_ok_def Let_def fr intro!: bexI [of _ n])
  next
    case False
    with x have xL: "x \<in> L" by simp
    from tree_nodeE [OF wf xL x(2)] obtain m0 ck0 where m0: "m0 \<in> L" "parent (nodes c x) = Some m0" "P x = P m0 @ node_path (nodes c x)"
      "(ck0, x) \<in> set (children (nodes c m0))" "m0 \<noteq> root_node c \<Longrightarrow> key_ns (node_key (nodes c m0)) = key_ns (node_key (nodes c x))"
      "token_ids (node_key (nodes c x)) \<noteq> []" "length (node_value (nodes c x)) = key_len (node_key (nodes c x))"
      "cache_page_size c dvd key_len (node_key (nodes c x))" by metis
    have "x \<in> snd ` set (children (nodes c' m0))"
    proof (cases "m0 = n")
      case True
      with m0(4) show ?thesis by (force simp: nn)
    next
      case F: False
      moreover have "m0 \<noteq> q" using m0(1) qL by auto
      ultimately show ?thesis using m0(4) no [of m0] by force
    qed
    then show ?thesis using m0 old [OF xL] old(2) [OF m0(1)] PL xL by (auto simp: node_ok_def Let_def fr intro!: bexI [of _ m0])
  qed
  have "node_value (nodes c' (root_node c)) = []" using old(3) [OF tree_wfD(2) [OF wf]] tree_wfD(6) [OF wf] by simp
  then have wf': "tree_wf c' (insert q L) P'"
    unfolding tree_wf_def using tree_wfD(1-5) [OF wf] chok nok qL PL by (auto simp: fr less_Suc_eq q [symmetric])
  note lk = radix_invD(2) [OF inv]
  have fin: "finite (kids c L x)" for x using tree_wfD(1) [OF wf] by (simp add: kids_def)
  have kd: "kids c' (insert q L) x = (if x = n then insert q (kids c L n) else kids c L x)" for x
    using old(1) ne nq qL by (auto simp: kids_def fr)
  have kq: "kids c L q = {}"
    by (rule kids_outside [OF wf qL])
  have qk: "q \<notin> kids c L n" using qL by (simp add: kids_def)
  have ls: "(\<Sum>x\<in>kids c L y. lock_ref (nodes c' x)) = (\<Sum>x\<in>kids c L y. lock_ref (nodes c x))" for y
    by (rule sum.cong) (auto simp: kids_def old)
  have ks: "(\<Sum>x\<in>kids c' (insert q L) y. lock_ref (nodes c' x)) = (\<Sum>x\<in>kids c L y. lock_ref (nodes c x))" for y
    using fin qk ls by (simp add: kd nq)
  have "locks_ok c' (insert q L) H"
    unfolding locks_ok_def ks
  proof (intro conjI allI impI ballI)
    fix x assume x: "x \<in> insert q L - {root_node c'}"
    show "0 \<le> lock_ref (nodes c' x)" using x lock_nonneg [OF lk] old(4) nq by (cases "x = q") (auto simp: fr)
    show "lock_ref (nodes c' x) = int (H x) + (\<Sum>x\<in>kids c L x. lock_ref (nodes c x))"
    proof (cases "x = q")
      case True
      with nq kq lk qL show ?thesis by (simp add: locks_ok_def)
    next
      case False
      with x old(4) lk show ?thesis by (auto simp: locks_ok_def fr)
    qed
  qed (use lk in \<open>auto simp: locks_ok_def\<close>)
  moreover have "sizes_ok c' (insert q L)"
  proof -
    let ?r = "case key_dp_rank key of None \<Rightarrow> 0 | Some r \<Rightarrow> r"
    have rq: "node_dp_rank (nodes c' q) = ?r" using key(1) by (simp add: node_dp_rank_def nq)
    have "ranked_size c' (insert q L) b r = ranked_size c L b r + (if r = ?r \<and> \<not> b then int (length vals) else 0)" for b r
    proof -
      let ?f = "\<lambda>c n. if node_dp_rank (nodes c n) = r \<and> (lock_ref (nodes c n) > 0) = b then int (length (node_value (nodes c n))) else 0"
      have "insert q L - {root_node c'} = insert q (L - {root_node c})" using ne by (auto simp: fr)
      then have "ranked_size c' (insert q L) b r = ?f c' q + (\<Sum>x\<in>L - {root_node c}. ?f c' x)"
        unfolding ranked_size_def using qL tree_wfD(1) [OF wf] by simp
      also have "(\<Sum>x\<in>L - {root_node c}. ?f c' x) = ranked_size c L b r"
        unfolding ranked_size_def by (rule sum.cong) (auto simp: old)
      finally show ?thesis using rq by (auto simp: nq)
    qed
    moreover have "evictable_sizes c' = (evictable_sizes c)(?r := evictable_sizes c ?r + int (length vals))"
      "protected_sizes c' = protected_sizes c" by (simp_all add: c' leaf_heap_def Let_def)
    ultimately show ?thesis using radix_invD(3) [OF inv] by (simp add: sizes_ok_def)
  qed
  ultimately show "radix_inv c' (insert q L) P' H" using wf' by (simp add: radix_inv_def)
qed

section \<open>match_prefix\<close>

definition lookup_key :: "radix_cache \<Rightarrow> radix_key \<Rightarrow> radix_key" where
  "lookup_key c key = aligned_key c (key_convert c key)"

lemma lookup_key_aligned: "0 < cache_page_size c \<Longrightarrow> cache_page_size c dvd key_len (lookup_key c key)"
  by (auto simp: lookup_key_def aligned_key_def min_absorb2)

lemma key_ns_lookup [simp]: "key_ns (lookup_key c key) = key_ns key"
  by (auto simp: lookup_key_def aligned_key_def key_convert_def key_ns_def)

lemma match_prefix_walked:
  assumes inv: "radix_inv c L P H" and "\<not> disable c" "token_ids key \<noteq> []"
    and ne: "cache_page_size c = 1 \<Longrightarrow> token_ids (lookup_key c key) \<noteq> []"
  shows "\<exists>vs n c' L' P'. match_prefix key c = Inr (vs, n, c') \<and> walked c L P H (root_node c) (lookup_key c key) (length vs) vs n c' L' P'"
proof -
  let ?k = "lookup_key c key" and ?c = "touch (root_node c) c"
  note wf = radix_invD(1) [OF inv]
  have "\<exists>ck. get_child_key (cache_page_size c) ?k = Inr ck"
    using ne get_child_key_total by (auto simp: get_child_key_def plain_key_of_def split: list.splits)
  then obtain ck where ck: "get_child_key (cache_page_size ?c) ?k = Inr ck" by auto
  obtain xs j n c' L' P' where m: "match_loop (Suc (key_len ?k)) (root_node c) ?k [] ?c = Inr ([] @ xs, n, c')"
    and w: "walked ?c L P H (root_node c) ?k j (concat xs) n c' L' P'"
    using match_loop_ok [of ?c L P H "root_node c" ?k "Suc (key_len ?k)" "[]"] inv tree_wfD(2) [OF wf]
      lookup_key_aligned [OF tree_wfD(4) [OF wf], of key] by auto
  have "match_prefix key c = Inr (concat xs, n, c')"
    using assms(2,3) m ck by (simp add: match_prefix_def match_prefix_helper_def lookup_key_def [symmetric] Let_def)
  moreover have "walked c L P H (root_node c) ?k (length (concat xs)) (concat xs) n c' L' P'"
    using w by (simp add: walked_def)
  ultimately show ?thesis by blast
qed

lemma walked_longest:
  assumes w: "walked c L P H (root_node c) key j vs n c' L' P'" and wf: "tree_wf c L P" and dv: "cache_page_size c dvd key_len key"
    and ps: "(key_ns key, ps) \<in> content c L P" "prefix (map fst ps) (token_ids key)"
  shows "length ps < j + cache_page_size c"
proof -
  from w have e: "radix_inv c' L' P' H" "tree_ext c L P c' L' P'" "n \<in> L'" "j \<le> key_len key" "length vs = j"
    "P' n = zip (take j (token_ids key)) vs" "stops c' n (key_drop j key)"
    "n \<noteq> root_node c' \<Longrightarrow> key_ns (node_key (nodes c' n)) = key_ns (key_drop j key)"
    using tree_wfD(5) [OF wf] by (auto simp: walked_def tree_ext_def same_frame_def)
  have fst: "map fst (P' n) = take j (token_ids key)" using e(4-6) by (simp add: key_len_def)
  show ?thesis
  proof (cases "token_ids (key_drop j key) = []")
    case True
    then have "length ps \<le> j" using prefix_length_le [OF ps(2)] e(4) by (simp add: key_len_def)
    then show ?thesis using tree_wfD(4) [OF wf] by linarith
  next
    case False
    with e(7) obtain ck where ck: "get_child_key (cache_page_size c') (key_drop j key) = Inr ck" "child_of ck (nodes c' n) = None"
      by (auto simp: stops_def)
    have "length ps < length (P' n) + cache_page_size c'"
      by (rule no_longer_match [OF radix_invD(1) [OF e(1)] e(3,8) False ck])
        (use ps tree_extD(1) [OF e(2)] fst in auto)
    moreover have "length (P' n) = j" using arg_cong [OF fst, of length] e(4) by (simp add: key_len_def)
    ultimately show ?thesis using tree_extD(4) [OF e(2)] by simp
  qed
qed

lemma walked_content:
  assumes w: "walked c L P H (root_node c) key j vs n c' L' P'" and wf: "tree_wf c L P" and "0 < j"
  shows "(key_ns key, zip (take j (token_ids key)) vs) \<in> content c L P"
proof -
  from w have e: "radix_inv c' L' P' H" "tree_ext c L P c' L' P'" "n \<in> L'" "j \<le> key_len key" "length vs = j"
    "P' n = zip (take j (token_ids key)) vs" "n \<noteq> root_node c \<longrightarrow> key_ns (node_key (nodes c' n)) = key_ns key"
    using tree_wfD(5) [OF wf] by (auto simp: walked_def)
  have "length (P' n) = j" using e(4-6) by (simp add: key_len_def)
  with \<open>0 < j\<close> have "n \<noteq> root_node c'" using tree_wfD(5) [OF radix_invD(1) [OF e(1)]] by auto
  with e tree_extD(3) [OF e(2)] have "(key_ns key, P' n) \<in> content c' L' P'" by (auto simp: content_def)
  with tree_extD(1) [OF e(2)] e(6) show ?thesis by simp
qed

lemma content_prefix: "(ns, qs) \<in> content c L P \<Longrightarrow> prefix ps qs \<Longrightarrow> (ns, ps) \<in> content c L P"
  by (auto simp: content_def intro: prefix_order.trans)

section \<open>insert\<close>

lemma radix_insert_walked:
  assumes inv: "radix_inv c L P H" and "\<not> disable c"
    and k: "k = key_convert c key" "cache_page_size c dvd key_len k" and v: "v = (if is_eagle c then take (key_len k) vals else vals)"
      "length v = key_len k"
  obtains j us n c1 L1 P1 c' L' P' where "radix_insert key vals c = Inr (j, c')" "walked c L P H (root_node c) k j us n c1 L1 P1"
    "radix_inv c' L' P' H" "L \<subseteq> L'" "\<forall>x\<in>L. P' x = P x \<and> lock_ref (nodes c' x) = lock_ref (nodes c x)"
    "kv_allocator c' = kv_allocator c" "root_node c' = root_node c" "cache_page_size c' = cache_page_size c"
    "protected_sizes c' = protected_sizes c" "disable c' = disable c" "is_eagle c' = is_eagle c"
    "content c' L' P' = content c L P \<union> {(key_ns k, ps) |ps. prefix ps (zip (token_ids k) (us @ drop j v)) \<and> key_len k \<noteq> 0}"
    "\<forall>r. tree_slots c' L' r = tree_slots c L r + (if r = (case key_dp_rank k of None \<Rightarrow> 0 | Some r \<Rightarrow> r) then mset (drop j v) else {#})"
proof (cases "token_ids k = []")
  case True
  let ?c = "touch (root_node c) c"
  have "radix_insert key vals c = Inr (0, ?c)"
    using assms(2) True by (simp add: radix_insert_def insert_helper_def k(1) [symmetric] v(1) [symmetric] Let_def)
  moreover have "walked ?c L P H (root_node c) k 0 [] (root_node c) ?c L P"
    by (rule walked_zero) (use inv tree_wfD(2) [OF radix_invD(1) [OF inv]] True in \<open>auto simp: stops_def\<close>)
  then have "walked c L P H (root_node c) k 0 [] (root_node c) ?c L P" by (simp add: walked_def tree_ext_def same_frame_def)
  moreover have "v = []" using True v(2) by (simp add: key_len_def)
  ultimately show ?thesis using inv True
    by (intro that [of 0 ?c "[]" "root_node c" ?c L P L P]) simp_all
next
  case False
  let ?c = "touch (root_node c) c"
  note wf = radix_invD(1) [OF inv]
  obtain us j n c1 L1 P1 where run: "insert_loop (Suc (key_len k)) (root_node c) k v 0 ?c = Inr (n, key_drop j k, drop j v, 0 + j, c1)"
    and w0: "walked ?c L P H (root_node c) k j us n c1 L1 P1"
    using insert_loop_ok [of ?c L P H "root_node c" k "Suc (key_len k)" v 0] inv k(2) tree_wfD(2) [OF wf] by auto
  have w: "walked c L P H (root_node c) k j us n c1 L1 P1" using w0 by (simp add: walked_def)
  from w have e: "radix_inv c1 L1 P1 H" "tree_ext c L P c1 L1 P1" "n \<in> L1" "j \<le> key_len k" "length us = j"
    "P1 n = zip (take j (token_ids k)) us" "stops c1 n (key_drop j k)"
    "n \<noteq> root_node c1 \<longrightarrow> key_ns (node_key (nodes c1 n)) = key_ns (key_drop j k)"
    using tree_wfD(5) [OF wf] by (auto simp: walked_def tree_ext_def same_frame_def)
  note x = tree_extD [OF e(2)]
  have ins: "radix_insert key vals c = (if j < key_len k then rbind (attach_leaf n (key_drop j k) (drop j v) c1) (\<lambda>c. Inr (j, c)) else Inr (j, c1))"
    using assms(2) False run e(4) by (auto simp: radix_insert_def insert_helper_def k(1) [symmetric] v(1) [symmetric] Let_def key_len_def)
  show ?thesis
  proof (cases "j < key_len k")
    case False
    then have j: "j = key_len k" using e(4) by simp
    have "0 < j" using j \<open>token_ids k \<noteq> []\<close> by (simp add: key_len_def)
    have "(key_ns k, zip (token_ids k) us) \<in> content c L P"
      using walked_content [OF w wf \<open>0 < j\<close>] j by (simp add: key_len_def)
    then have "content c L P \<union> {(key_ns k, ps) |ps. prefix ps (zip (token_ids k) (us @ drop j v)) \<and> key_len k \<noteq> 0} = content c L P"
      using j v(2) by (auto intro: content_prefix)
    then show ?thesis
      using ins False w e(1) x j v(2)
      by (intro that [of j c1 us n c1 L1 P1 L1 P1]) (simp_all add: same_frame_def)
  next
    case True
    then have ne: "token_ids (key_drop j k) \<noteq> []" by (auto simp: key_len_def)
    with e(7) obtain ck where ck: "get_child_key (cache_page_size c1) (key_drop j k) = Inr ck" "child_of ck (nodes c1 n) = None"
      by (auto simp: stops_def)
    have dv: "cache_page_size c1 dvd key_len (key_drop j k)"
    proof -
      have "cache_page_size c1 dvd length (P1 n)" by (rule path_dvd [OF radix_invD(1) [OF e(1)] e(3)])
      then have "cache_page_size c1 dvd j" using e(4-6) by (simp add: key_len_def)
      then show ?thesis using k(2) x(4) by (simp add: dvd_diff_nat)
    qed
    define c' where "c' = leaf_heap c1 n (key_drop j k) (drop j v) ck"
    define P' where "P' = P1(next_id c1 := P1 n @ zip (token_ids (key_drop j k)) (drop j v))"
    note lf = leaf_keeps [OF e(1,3,8) ne dv _ ck c'_def refl P'_def]
    have lv: "length (drop j v) = key_len (key_drop j k)" using v(2) by simp
    have path: "P' (next_id c1) = zip (token_ids k) (us @ drop j v)"
      using e(4-6) v(2) zip_append [of "take j (token_ids k)" us "drop j (token_ids k)" "drop j v"]
      by (simp add: P'_def key_len_def)
    have q: "next_id c1 \<notin> L1" using tree_wfD(3) [OF radix_invD(1) [OF e(1)]] by auto
    have old: "P' y = P y \<and> lock_ref (nodes c' y) = lock_ref (nodes c y)" if "y \<in> L" for y
      using that x(2,5,7) q by (auto simp: P'_def c'_def leaf_heap_def Let_def)
    have "content c' (insert (next_id c1) L1) P' = content c L P \<union> {(key_ns k, ps) |ps. prefix ps (zip (token_ids k) (us @ drop j v)) \<and> key_len k \<noteq> 0}"
      using lf(2) [OF lv] x(1) path \<open>token_ids k \<noteq> []\<close> by simp
    moreover have "kv_allocator c' = kv_allocator c" "root_node c' = root_node c" "cache_page_size c' = cache_page_size c"
      "protected_sizes c' = protected_sizes c" "disable c' = disable c" "is_eagle c' = is_eagle c" using x(8) by (auto simp: c'_def leaf_heap_def Let_def same_frame_def)
    moreover have "radix_insert key vals c = Inr (j, c')" using ins True lf(3) [OF lv] by simp
    moreover have "\<forall>r. tree_slots c' (insert (next_id c1) L1) r
        = tree_slots c L r + (if r = (case key_dp_rank k of None \<Rightarrow> 0 | Some r \<Rightarrow> r) then mset (drop j v) else {#})"
      using lf(4) [OF lv] x(9) by (simp add: key_drop_def)
    ultimately show ?thesis
      using w lf(1) [OF lv] x(2) old
      by (intro that [of j c' us n c1 L1 P1 "insert (next_id c1) L1" P']) auto
  qed
qed

section \<open>The empty cache\<close>

lemma radix_reset_inv:
  assumes "0 < cache_page_size c"
  shows "radix_inv (radix_reset c) {root_node (radix_reset c)} (\<lambda>_. []) (\<lambda>_. 0)"
  using assms
  by (simp add: radix_inv_def tree_wf_def locks_ok_def sizes_ok_def ranked_size_def children_ok_def radix_reset_def
      new_tree_node_def)

lemma radix_reset_content: "content (radix_reset c) {root_node (radix_reset c)} (\<lambda>_. []) = {}"
  by (simp add: content_def)

text \<open>Content is functional: a namespace and a run of whole pages determine the slots.\<close>

lemma content_functional:
  assumes wf: "tree_wf c L P" and ps: "(ns, ps) \<in> content c L P" "(ns, qs) \<in> content c L P"
    and eq: "map fst ps = map fst qs" and dv: "cache_page_size c dvd length ps"
  shows "ps = qs"
proof (cases "ps = []")
  case True
  then show ?thesis using eq by simp
next
  case False
  let ?p = "cache_page_size c" and ?l = "length ps - cache_page_size c"
  note p = tree_wfD(4) [OF wf]
  have len: "length qs = length ps" using eq by (metis length_map)
  have le: "?p \<le> length ps" using dv False by (auto intro: dvd_imp_le)
  have cover: "\<exists>n0\<in>L - {root_node c}. key_ns (node_key (nodes c n0)) = ns \<and>
      length (P n0) - key_len (node_key (nodes c n0)) \<le> ?l \<and> ?l < length (P n0) \<and> take (length ps) (P n0) = rs"
    if rs: "(ns, rs) \<in> content c L P" "length rs = length ps" for rs
  proof -
    from rs obtain n where n: "n \<in> L" "n \<noteq> root_node c" "key_ns (node_key (nodes c n)) = ns" "prefix rs (P n)"
      by (auto simp: content_def)
    have "length rs \<le> length (P n)" by (rule prefix_length_le [OF n(4)])
    with rs(2) le p have "?l < length (P n)" by linarith
    then obtain n0 where n0: "n0 \<in> L - {root_node c}" "key_ns (node_key (nodes c n0)) = ns"
      "length (P n0) - key_len (node_key (nodes c n0)) \<le> ?l" "?l < length (P n0)" "prefix (P n0) (P n)"
      using path_cover [OF wf n(1), of ?l] n(3) by blast
    have "?p dvd ?l" using dv by (simp add: dvd_diff_nat)
    from dvd_less_add_le [OF this path_dvd [OF wf] n0(4)] n0(1) le have "length ps \<le> length (P n0)" by simp
    then have "take (length ps) (P n0) = take (length ps) (P n)" by (rule take_prefix_eq [OF n0(5)])
    also have "\<dots> = rs" using take_prefix_eq [OF n(4), of "length ps"] rs(2) by simp
    finally show ?thesis using n0 by blast
  qed
  from cover [OF ps(1) refl] obtain a where a: "a \<in> L" "a \<noteq> root_node c" "key_ns (node_key (nodes c a)) = ns"
      "length (P a) - key_len (node_key (nodes c a)) \<le> ?l" "?l < length (P a)" "take (length ps) (P a) = ps" by blast
  from cover [OF ps(2) len] obtain b where b: "b \<in> L" "b \<noteq> root_node c" "key_ns (node_key (nodes c b)) = ns"
      "length (P b) - key_len (node_key (nodes c b)) \<le> ?l" "?l < length (P b)" "take (length ps) (P b) = qs" by blast
  have "a = b"
    by (rule path_unique [OF wf a(1,2) b(1,2) _ _ a(4,5) b(4,5)])
      (use a(3,6) b(3,6) eq dv le in \<open>auto simp: dvd_diff_nat take_map\<close>)
  then show ?thesis using a(6) b(6) by simp
qed

text \<open>An empty cache over a token allocator of eight slots, and a key, for the examples.\<close>

definition demo_fresh :: "nat \<Rightarrow> radix_cache" where
  "demo_fresh p =
     \<lparr>nodes = (\<lambda>_. \<lparr>children = [], parent = None, node_key = \<lparr>token_ids = [], extra_key = None, key_dp_rank = None\<rparr>,
                  node_value = [], lock_ref = 0, last_access_time = 0\<rparr>),
      next_id = 0, root_node = 0, cache_page_size = p, disable = False, is_eagle = False,
      evictable_sizes = (\<lambda>_. 0), protected_sizes = (\<lambda>_. 0),
      kv_allocator = Tok \<lparr>pool_size = 8, page_size = 1, dp_size = 1, size_per_rank = 8, is_not_in_free_group = True,
        free_group = [[]], free_slots = [[]], origin_size = 8\<rparr>,
      clock = int, ticks = 0\<rparr>"

definition demo_cache :: "nat \<Rightarrow> radix_cache" where
  "demo_cache p = radix_reset (demo_fresh p)"

definition demo_key :: "int list \<Rightarrow> radix_key" where
  "demo_key ts = \<lparr>token_ids = map Tok_Id ts, extra_key = Some ''lora'', key_dp_rank = Some 0\<rparr>"

lemma demo_cache_facts [simp]:
  "cache_page_size (demo_cache p) = p" "disable (demo_cache p) = False" "is_eagle (demo_cache p) = False" "root_node (demo_cache p) = 0"
  "next_id (demo_cache p) = 1" "token_ids (demo_key ts) = map Tok_Id ts"
  by (simp_all add: demo_cache_def demo_fresh_def radix_reset_def new_tree_node_def demo_key_def)

lemma demo_cache_inv: "0 < p \<Longrightarrow> radix_inv (demo_cache p) {0} (\<lambda>_. []) (\<lambda>_. 0)"
  using radix_reset_inv [of "demo_fresh p"] by (simp add: demo_cache_def [symmetric]) (simp add: demo_fresh_def)

section \<open>Properties\<close>

text \<open>C5. \<open>match_prefix\<close> returns the longest cached prefix. On a well-formed cache it does not raise; the
  slots it returns are cached for that prefix of the (converted, page-aligned) key in the key's
  namespace, the last node it returns is linked and its path is that prefix, no cached path of the
  namespace agrees with the key on a whole page more, and the cache's content, locks and sizes are as
  before.\<close>

theorem radix_match_prefix_longest:
  assumes "radix_inv c L P H" "\<not> disable c" "token_ids key \<noteq> []"
    and "cache_page_size c = 1 \<Longrightarrow> token_ids (lookup_key c key) \<noteq> []"
  shows "\<exists>vs n c' L' P'. match_prefix key c = Inr (vs, n, c') \<and>
    (let toks = token_ids (lookup_key c key) in
     radix_inv c' L' P' H \<and> content c' L' P' = content c L P \<and> same_frame c c' \<and>
     length vs \<le> length toks \<and> n \<in> L' \<and> P' n = zip (take (length vs) toks) vs \<and>
     (vs \<noteq> [] \<longrightarrow> (key_ns key, zip (take (length vs) toks) vs) \<in> content c L P) \<and>
     (\<forall>ps. (key_ns key, ps) \<in> content c L P \<longrightarrow> prefix (map fst ps) toks \<longrightarrow> length ps < length vs + cache_page_size c))"
proof -
  note wf = radix_invD(1) [OF assms(1)]
  from match_prefix_walked [OF assms] obtain vs n c' L' P' where m: "match_prefix key c = Inr (vs, n, c')"
    and w: "walked c L P H (root_node c) (lookup_key c key) (length vs) vs n c' L' P'" by blast
  have "(key_ns key, zip (take (length vs) (token_ids (lookup_key c key))) vs) \<in> content c L P" if "vs \<noteq> []"
    using walked_content [OF w wf] that by simp
  moreover have "length ps < length vs + cache_page_size c"
    if "(key_ns key, ps) \<in> content c L P" "prefix (map fst ps) (token_ids (lookup_key c key))" for ps
    by (rule walked_longest [OF w wf lookup_key_aligned [OF tree_wfD(4) [OF wf]]]) (use that in simp_all)
  moreover have "radix_inv c' L' P' H \<and> content c' L' P' = content c L P \<and> same_frame c c' \<and>
      length vs \<le> length (token_ids (lookup_key c key)) \<and> n \<in> L' \<and> P' n = zip (take (length vs) (token_ids (lookup_key c key))) vs"
    using w tree_wfD(5) [OF wf] by (auto simp: walked_def tree_ext_def key_len_def)
  ultimately show ?thesis using m unfolding Let_def by (intro exI [of _ vs] exI [of _ n] exI [of _ c'] exI [of _ L'] exI [of _ P']) auto
qed

theorem radix_match_prefix_longest_witness:
  "\<exists>vs n c' L' P'. match_prefix (demo_key [1, 2, 3, 4, 5]) (demo_cache 2) = Inr (vs, n, c') \<and> radix_inv c' L' P' (\<lambda>_. 0)"
  using radix_match_prefix_longest [OF demo_cache_inv [of 2], of "demo_key [1, 2, 3, 4, 5]"] by (simp add: Let_def) blast

text \<open>C4. \<open>insert\<close> adds exactly the inserted path. On a well-formed cache it does not raise and returns the
  length of the part of the key that was cached already; for that part the cache keeps its own slots
  \<open>us\<close>, for the rest it takes the given ones, and nothing else of the content changes; the invariant,
  the locks and the paths of all linked nodes are kept.\<close>

theorem radix_insert_correct:
  assumes "radix_inv c L P H" "\<not> disable c" "\<not> is_eagle c"
    and "cache_page_size c dvd length (token_ids key)" "length vals = length (token_ids key)" "token_ids key \<noteq> []"
  shows "\<exists>j us c' L' P'. radix_insert key vals c = Inr (j, c') \<and> radix_inv c' L' P' H \<and> length us = j \<and>
    content c' L' P' = content c L P \<union> {(key_ns key, ps) |ps. prefix ps (zip (token_ids key) (us @ drop j vals))} \<and>
    (0 < j \<longrightarrow> (key_ns key, zip (take j (token_ids key)) us) \<in> content c L P) \<and>
    (\<forall>ps. (key_ns key, ps) \<in> content c L P \<longrightarrow> prefix (map fst ps) (token_ids key) \<longrightarrow> length ps < j + cache_page_size c) \<and>
    L \<subseteq> L' \<and> (\<forall>n\<in>L. P' n = P n \<and> lock_ref (nodes c' n) = lock_ref (nodes c n)) \<and> protected_sizes c' = protected_sizes c"
proof -
  have k: "key = key_convert c key" "cache_page_size c dvd key_len key" "vals = (if is_eagle c then take (key_len key) vals else vals)"
    "length vals = key_len key" using assms by (auto simp: key_convert_def key_len_def)
  note wf = radix_invD(1) [OF assms(1)]
  obtain j us n c1 L1 P1 c' L' P' where r: "radix_insert key vals c = Inr (j, c')" "walked c L P H (root_node c) key j us n c1 L1 P1"
    "radix_inv c' L' P' H" "L \<subseteq> L'" "\<forall>x\<in>L. P' x = P x \<and> lock_ref (nodes c' x) = lock_ref (nodes c x)"
    "kv_allocator c' = kv_allocator c" "root_node c' = root_node c" "cache_page_size c' = cache_page_size c"
    "protected_sizes c' = protected_sizes c" "disable c' = disable c" "is_eagle c' = is_eagle c"
    "content c' L' P' = content c L P \<union> {(key_ns key, ps) |ps. prefix ps (zip (token_ids key) (us @ drop j vals)) \<and> key_len key \<noteq> 0}"
    by (rule radix_insert_walked [OF assms(1,2) k(1,2,3,4)])
  have "length us = j" using r(2) by (simp add: walked_def)
  with r walked_content [OF r(2) wf] walked_longest [OF r(2) wf k(2)] assms(6) show ?thesis
    by (intro exI [of _ j] exI [of _ us] exI [of _ c'] exI [of _ L'] exI [of _ P']) auto
qed


theorem radix_insert_correct_witness:
  "\<exists>j c' L' P'. radix_insert (demo_key [1, 2, 3, 4]) [11, 12, 13, 14] (demo_cache 2) = Inr (j, c') \<and> radix_inv c' L' P' (\<lambda>_. 0)"
  using radix_insert_correct [OF demo_cache_inv [of 2], of "demo_key [1, 2, 3, 4]" "[11, 12, 13, 14]"] by auto

text \<open>C24. What was inserted is found: matching a key that was just inserted returns the slots of the whole
  key, the cache's own for the part it had and the inserted ones for the rest.\<close>

theorem radix_insert_match_roundtrip:
  assumes "radix_inv c L P H" "\<not> disable c" "\<not> is_eagle c"
    and "cache_page_size c dvd length (token_ids key)" "length vals = length (token_ids key)" "token_ids key \<noteq> []"
    and "radix_insert key vals c = Inr (j, c')"
  shows "\<exists>vs n c''. match_prefix key c' = Inr (vs, n, c'') \<and> length vs = length (token_ids key) \<and> drop j vs = drop j vals"
proof -
  have k: "key = key_convert c key" "cache_page_size c dvd key_len key" "vals = (if is_eagle c then take (key_len key) vals else vals)"
    "length vals = key_len key" using assms by (auto simp: key_convert_def key_len_def)
  note wf = radix_invD(1) [OF assms(1)]
  obtain us n c1 L1 P1 L' P' where w: "walked c L P H (root_node c) key j us n c1 L1 P1"
    and r: "radix_inv c' L' P' H" "cache_page_size c' = cache_page_size c" "disable c' = disable c" "is_eagle c' = is_eagle c"
    and ct: "content c' L' P' = content c L P \<union> {(key_ns key, ps) |ps. prefix ps (zip (token_ids key) (us @ drop j vals)) \<and> key_len key \<noteq> 0}"
    by (rule radix_insert_walked [OF assms(1,2) k(1,2,3,4)]) (use assms(7) in auto)
  note wf' = radix_invD(1) [OF r(1)]
  have lk: "lookup_key c' key = key"
    using r assms(3,4) by (auto simp: lookup_key_def aligned_key_def key_convert_def key_take_def key_len_def)
  let ?full = "zip (token_ids key) (us @ drop j vals)"
  have len: "length us = j" "j \<le> length (token_ids key)" using w by (auto simp: walked_def key_len_def)
  then have fl: "length ?full = length (token_ids key)" "map fst ?full = token_ids key" using assms(5) by auto
  have full: "(key_ns key, ?full) \<in> content c' L' P'" using ct assms(6) by auto
  obtain vs m c'' L'' P'' where m: "match_prefix key c' = Inr (vs, m, c'')"
    and w': "walked c' L' P' H (root_node c') (lookup_key c' key) (length vs) vs m c'' L'' P''"
    using match_prefix_walked [OF r(1), of key] assms(2,6) r(3) lk by auto
  note w' = w' [unfolded lk]
  have "length ?full < length vs + cache_page_size c'"
    by (rule walked_longest [OF w' wf']) (use full fl k(2) r(2) in auto)
  moreover have le: "length vs \<le> length (token_ids key)" using w' by (simp add: walked_def key_len_def)
  moreover have "cache_page_size c' dvd length vs"
  proof -
    from w' have "P'' m = zip (take (length vs) (token_ids key)) vs" "m \<in> L''" "radix_inv c'' L'' P'' H" "cache_page_size c'' = cache_page_size c'"
      using tree_wfD(5) [OF wf'] by (auto simp: walked_def tree_ext_def same_frame_def)
    with path_dvd [of c'' L'' P'' m] le show ?thesis by (simp add: radix_inv_def min_absorb2)
  qed
  ultimately have lv: "length vs = length (token_ids key)"
    using dvd_less_add_le [of "cache_page_size c'" "length vs" "length (token_ids key)"] assms(4) r(2) fl(1) by fastforce
  have "(key_ns key, zip (token_ids key) vs) \<in> content c' L' P'"
    using walked_content [OF w' wf'] lv assms(6) by simp
  from content_functional [OF wf' this full] fl lv assms(4) r(2) have "zip (token_ids key) vs = ?full" by simp
  from arg_cong [OF this, of "map snd"] have "vs = us @ drop j vals" using lv fl(1) len assms(5) by simp
  with m lv len show ?thesis by auto
qed

theorem radix_insert_match_roundtrip_witness:
  "\<exists>j c' vs n c''. radix_insert (demo_key [1, 2, 3, 4]) [11, 12, 13, 14] (demo_cache 2) = Inr (j, c') \<and>
     match_prefix (demo_key [1, 2, 3, 4]) c' = Inr (vs, n, c'') \<and> length vs = 4 \<and> drop j vs = drop j [11, 12, 13, 14]"
proof -
  obtain j c' where "radix_insert (demo_key [1, 2, 3, 4]) [11, 12, 13, 14] (demo_cache 2) = Inr (j, c')"
    by (rule radix_insert_walked [OF demo_cache_inv [of 2] _ refl _ refl, of "demo_key [1, 2, 3, 4]" "[11, 12, 13, 14]"])
      (auto simp: key_convert_def key_len_def)
  with radix_insert_match_roundtrip [OF demo_cache_inv [of 2] _ _ _ _ _ this] show ?thesis by fastforce
qed

text \<open>C40. Under EAGLE a lookup of a one-token key raises: with page size 1 the key has no bigram, and
  \<open>_match_prefix_helper\<close> asks for the first token of the empty converted key before its loop tests the
  length (\<open>_insert_helper\<close> returns first).\<close>

theorem radix_eagle_one_token_raises:
  assumes "is_eagle c" "cache_page_size c = 1" "\<not> disable c" "token_ids key = [t]"
  shows "match_prefix key c = Inl IndexError \<and> radix_insert key vals c = Inr (0, touch (root_node c) c)"
  using assms
  by (simp add: match_prefix_def match_prefix_helper_def aligned_key_def key_convert_def convert_to_bigram_key_def
      get_child_key_def plain_key_of_def key_len_def radix_insert_def insert_helper_def Let_def)

theorem radix_eagle_one_token_raises_witness:
  "match_prefix (demo_key [5]) ((demo_cache 1)\<lparr>is_eagle := True\<rparr>) = Inl IndexError"
  using radix_eagle_one_token_raises [of "(demo_cache 1)\<lparr>is_eagle := True\<rparr>" "demo_key [5]"] by simp

end
