(* ===== verification/Radix_Locks.thy ===== *)
theory Radix_Locks
  imports Radix_Walk
begin

text \<open>
  Locking in the prefix cache: \<open>inc_lock_ref\<close> and \<open>dec_lock_ref\<close> walk from a node to the root and move the
  sizes of the nodes that become locked or unlocked between the two counters.
\<close>

section \<open>One step of the walk\<close>

definition relock :: "nat \<Rightarrow> int \<Rightarrow> radix_cache \<Rightarrow> radix_cache" where
  "relock x e c = upd_node x (\<lambda>nd. nd\<lparr>lock_ref := lock_ref nd + e\<rparr>) c"

text \<open>The size that a change of \<open>x\<close>'s counter by \<open>e\<close> moves to the protected side.\<close>

definition moved :: "nat \<Rightarrow> int \<Rightarrow> radix_cache \<Rightarrow> int" where
  "moved x e c = (let l = lock_ref (nodes c x); n = int (length (node_value (nodes c x))) in
     if e = 1 \<and> l = 0 then n else if e = - 1 \<and> l = 1 then - n else 0)"

definition lock_step :: "nat \<Rightarrow> int \<Rightarrow> radix_cache \<Rightarrow> radix_cache" where
  "lock_step x e c = relock x e (move_size (node_dp_rank (nodes c x)) (moved x e c) c)"

lemma move_size_0 [simp]: "move_size r 0 c = c"
  by (simp add: move_size_def)

lemma lock_step_simps [simp]:
  "children (nodes (lock_step x e c) n) = children (nodes c n)" "parent (nodes (lock_step x e c) n) = parent (nodes c n)"
  "node_key (nodes (lock_step x e c) n) = node_key (nodes c n)" "node_value (nodes (lock_step x e c) n) = node_value (nodes c n)"
  "lock_ref (nodes (lock_step x e c) n) = lock_ref (nodes c n) + (if n = x then e else 0)"
  "next_id (lock_step x e c) = next_id c" "root_node (lock_step x e c) = root_node c"
  "cache_page_size (lock_step x e c) = cache_page_size c" "disable (lock_step x e c) = disable c" "is_eagle (lock_step x e c) = is_eagle c"
  "kv_allocator (lock_step x e c) = kv_allocator c"
  "evictable_sizes (lock_step x e c) = (evictable_sizes c)(node_dp_rank (nodes c x) := evictable_sizes c (node_dp_rank (nodes c x)) - moved x e c)"
  "protected_sizes (lock_step x e c) = (protected_sizes c)(node_dp_rank (nodes c x) := protected_sizes c (node_dp_rank (nodes c x)) + moved x e c)"
  by (auto simp: lock_step_def relock_def upd_node_def move_size_def)

lemma node_fn_lock_step [simp]:
  "node_path (nodes (lock_step x e c) n) = node_path (nodes c n)" "node_dp_rank (nodes (lock_step x e c) n) = node_dp_rank (nodes c n)"
  by (simp_all add: node_path_def node_dp_rank_def)

lemma tree_wf_lock_step [simp]:
  "tree_wf (lock_step x e c) L P = tree_wf c L P" "content (lock_step x e c) L P = content c L P" "kids (lock_step x e c) L n = kids c L n"
proof -
  have "node_ok (lock_step x e c) L P m = node_ok c L P m" "children_ok (lock_step x e c) L m = children_ok c L m" for m
    by (simp_all add: node_ok_def children_ok_def Let_def split_beta)
  then show "tree_wf (lock_step x e c) L P = tree_wf c L P" by (simp add: tree_wf_def)
qed (simp_all add: content_def kids_def)

text \<open>During the walk the counters are right except at the node reached, which is off by \<open>e\<close>.\<close>

definition locks_pending :: "radix_cache \<Rightarrow> nat set \<Rightarrow> (nat \<Rightarrow> nat) \<Rightarrow> nat \<Rightarrow> int \<Rightarrow> bool" where
  "locks_pending c L H x e \<longleftrightarrow> (\<forall>n. n \<notin> L \<longrightarrow> H n = 0) \<and>
     (\<forall>n\<in>L - {root_node c}. 0 \<le> lock_ref (nodes c n) \<and>
        lock_ref (nodes c n) + (if n = x then e else 0) = int (H n) + (\<Sum>m\<in>kids c L n. lock_ref (nodes c m)))"

lemma locks_pending_root: "locks_pending c L H (root_node c) e = locks_ok c L H"
  by (auto simp: locks_pending_def locks_ok_def)

lemma locks_pendingD:
  assumes "locks_pending c L H x e" "n \<in> L" "n \<noteq> root_node c"
  shows "0 \<le> lock_ref (nodes c n)"
    "lock_ref (nodes c n) + (if n = x then e else 0) = int (H n) + (\<Sum>m\<in>kids c L n. lock_ref (nodes c m))"
  using assms unfolding locks_pending_def by blast+

lemma lock_step_keeps:
  assumes wf: "tree_wf c L P" and x: "x \<in> L" "x \<noteq> root_node c" "parent (nodes c x) = Some m"
    and lp: "locks_pending c L H x e" and sz: "sizes_ok c L" and e: "e = 1 \<or> e = - 1"
  shows "locks_pending (lock_step x e c) L H m e" "sizes_ok (lock_step x e c) L"
proof -
  let ?c = "lock_step x e c"
  have fin: "finite (kids c L n)" "finite (L - {root_node c})" for n using tree_wfD(1) [OF wf] by (auto simp: kids_def)
  have nn: "0 \<le> lock_ref (nodes c n)" if "n \<in> L" "n \<noteq> root_node c" for n using locks_pendingD(1) [OF lp that] .
  have lx: "lock_ref (nodes c x) + e = int (H x) + (\<Sum>m\<in>kids c L x. lock_ref (nodes c m))"
    using locks_pendingD(2) [OF lp x(1,2)] by simp
  have "0 \<le> (\<Sum>m\<in>kids c L x. lock_ref (nodes c m))" by (rule sum_nonneg) (auto simp: kids_def nn)
  with lx have ge: "0 \<le> lock_ref (nodes c x) + e" by simp
  have sums: "(\<Sum>y\<in>kids c L n. lock_ref (nodes ?c y)) = (\<Sum>y\<in>kids c L n. lock_ref (nodes c y)) + (if n = m then e else 0)" for n
  proof (cases "n = m")
    case True
    then have "x \<in> kids c L n" using x by (simp add: kids_def)
    then show ?thesis using True fin by (simp add: sum.distrib)
  next
    case False
    then have "x \<notin> kids c L n" using x by (simp add: kids_def)
    then show ?thesis using False by (auto intro: sum.cong)
  qed
  have mx: "m \<noteq> x"
    using tree_nodeE [OF wf x(1,2)] x(3) by (metis append_self_conv key_len_0 length_0_conv option.inject)
  show "locks_pending ?c L H m e"
    unfolding locks_pending_def
  proof (intro conjI ballI)
    fix n assume n: "n \<in> L - {root_node ?c}"
    show "0 \<le> lock_ref (nodes ?c n)" using n nn ge by auto
    have "lock_ref (nodes c n) + (if n = x then e else 0) = int (H n) + (\<Sum>m\<in>kids c L n. lock_ref (nodes c m))"
      using locks_pendingD(2) [OF lp, of n] n by simp
    then show "lock_ref (nodes ?c n) + (if n = m then e else 0) = int (H n) + (\<Sum>m\<in>kids ?c L n. lock_ref (nodes ?c m))"
      using sums [of n] mx by simp
  qed (use lp in \<open>simp add: locks_pending_def\<close>)
  have rs: "ranked_size ?c L b r = ranked_size c L b r +
      (if r = node_dp_rank (nodes c x) then (if b then moved x e c else - moved x e c) else 0)" for b r
  proof -
    let ?f = "\<lambda>c n. if node_dp_rank (nodes c n) = r \<and> (lock_ref (nodes c n) > 0) = b then int (length (node_value (nodes c n))) else 0"
    have "ranked_size ?c L b r = ?f ?c x + (\<Sum>n\<in>L - {root_node c} - {x}. ?f ?c n)"
      unfolding ranked_size_def using fin x by (subst sum.remove [of _ x]) auto
    also have "(\<Sum>n\<in>L - {root_node c} - {x}. ?f ?c n) = (\<Sum>n\<in>L - {root_node c} - {x}. ?f c n)"
      by (rule sum.cong) auto
    finally have "ranked_size ?c L b r = ?f ?c x + (\<Sum>n\<in>L - {root_node c} - {x}. ?f c n)" .
    moreover have "ranked_size c L b r = ?f c x + (\<Sum>n\<in>L - {root_node c} - {x}. ?f c n)"
      unfolding ranked_size_def using fin x by (subst sum.remove [of _ x]) auto
    moreover have "?f ?c x = ?f c x + (if r = node_dp_rank (nodes c x) then (if b then moved x e c else - moved x e c) else 0)"
      using e ge nn [OF x(1,2)] by (auto simp: moved_def Let_def)
    ultimately show ?thesis by simp
  qed
  then show "sizes_ok ?c L" using sz by (auto simp: sizes_ok_def)
qed


section \<open>The walks\<close>

text \<open>The nodes on the way to the root, as a set large enough to bound the walk.\<close>

definition above :: "radix_cache \<Rightarrow> nat set \<Rightarrow> (nat \<Rightarrow> annotated) \<Rightarrow> nat \<Rightarrow> nat set" where
  "above c L P x = {y \<in> L - {root_node c}. prefix (P y) (P x)}"

lemma above_parent:
  assumes wf: "tree_wf c L P" and x: "x \<in> L" "x \<noteq> root_node c" "parent (nodes c x) = Some m"
  shows "m \<in> L" "card (above c L P m) < card (above c L P x)"
proof -
  from tree_nodeE [OF wf x(1,2)] x(3) show "m \<in> L" by (metis option.inject)
  from tree_nodeE [OF wf x(1,2)] x(3) have P: "P x = P m @ node_path (nodes c x)" "node_path (nodes c x) \<noteq> []"
    by (metis option.inject, metis key_len_0 length_0_conv)
  have "above c L P m \<subseteq> above c L P x" using P(1) by (auto simp: above_def)
  moreover have "x \<in> above c L P x" "x \<notin> above c L P m" using x P by (auto simp: above_def prefix_def)
  moreover have "finite (above c L P x)" using tree_wfD(1) [OF wf] by (simp add: above_def)
  ultimately show "card (above c L P m) < card (above c L P x)" by (intro psubset_card_mono) auto
qed

lemma above_le: "tree_wf c L P \<Longrightarrow> card (above c L P x) \<le> next_id c"
proof -
  assume wf: "tree_wf c L P"
  have "above c L P x \<subseteq> {0..<next_id c}" using tree_wfD(3) [OF wf] by (auto simp: above_def)
  then show ?thesis using card_mono [of "{0..<next_id c}"] by fastforce
qed

text \<open>What a walk that changes counters by \<open>e\<close> keeps.\<close>

definition relocked :: "radix_cache \<Rightarrow> nat set \<Rightarrow> (nat \<Rightarrow> annotated) \<Rightarrow> radix_cache \<Rightarrow> bool" where
  "relocked c L P c' \<longleftrightarrow> tree_wf c' L P \<and> content c' L P = content c L P \<and> root_node c' = root_node c \<and>
     cache_page_size c' = cache_page_size c \<and> disable c' = disable c \<and> is_eagle c' = is_eagle c \<and> next_id c' = next_id c \<and>
     kv_allocator c' = kv_allocator c \<and> (\<forall>r. evictable_sizes c' r + protected_sizes c' r = evictable_sizes c r + protected_sizes c r) \<and>
     (\<forall>n. children (nodes c' n) = children (nodes c n) \<and> parent (nodes c' n) = parent (nodes c n) \<and>
        node_key (nodes c' n) = node_key (nodes c n) \<and> node_value (nodes c' n) = node_value (nodes c n))"

lemma relocked_trans: "relocked c L P c1 \<Longrightarrow> relocked c1 L P c2 \<Longrightarrow> relocked c L P c2"
  by (simp add: relocked_def)

lemma relocked_step: "tree_wf c L P \<Longrightarrow> relocked c L P (lock_step x e c)"
  by (simp add: relocked_def)

text \<open>Both loops take the same step.\<close>

lemma inc_loop_step:
  "x \<noteq> root_node c \<Longrightarrow> inc_loop (Suc fuel) (Some x) delta c = inc_loop fuel (parent (nodes c x)) (delta - moved x 1 c) (lock_step x 1 c)"
  by (auto simp: lock_step_def relock_def moved_def Let_def)

lemma dec_loop_step:
  "x \<noteq> root_node c \<Longrightarrow> dec_loop (Suc fuel) (Some x) delta c = dec_loop fuel (parent (nodes c x)) (delta - moved x (- 1) c) (lock_step x (- 1) c)"
  by (auto simp: lock_step_def relock_def moved_def Let_def)

text \<open>A loop that stops at the root and otherwise takes the step by \<open>e\<close>.\<close>

lemma lock_walk:
  assumes stop: "\<And>fuel delta c. loop fuel (Some (root_node c)) delta c = Inr (delta, c)"
    and step: "\<And>fuel x delta c. x \<noteq> root_node c \<Longrightarrow>
      loop (Suc fuel) (Some x) delta c = loop fuel (parent (nodes c x)) (delta - moved x e c) (lock_step x e c)"
    and e: "e = 1 \<or> e = - 1"
    and wf: "tree_wf c L P" and x: "x \<in> L" and lp: "locks_pending c L H x e" and sz: "sizes_ok c L"
    and fuel: "card (above c L P x) \<le> fuel"
  shows "\<exists>d c'. loop fuel (Some x) delta c = Inr (delta + d, c') \<and> relocked c L P c' \<and> locks_ok c' L H \<and> sizes_ok c' L \<and>
    (x \<noteq> root_node c \<longrightarrow> evictable_sizes c' (node_dp_rank (nodes c x)) = evictable_sizes c (node_dp_rank (nodes c x)) + d)"
  using wf x lp sz fuel
proof (induction fuel arbitrary: x delta c)
  case 0
  have "x = root_node c"
  proof (rule ccontr)
    assume "x \<noteq> root_node c"
    then have "x \<in> above c L P x" using 0 by (simp add: above_def)
    moreover have "finite (above c L P x)" using tree_wfD(1) [OF 0(1)] by (simp add: above_def)
    ultimately show False using 0 by auto
  qed
  with 0 stop [of 0 c delta] show ?case
    by (intro exI [of _ 0] exI [of _ c]) (auto simp: relocked_def locks_pending_root)
next
  case (Suc fuel)
  show ?case
  proof (cases "x = root_node c")
    case True
    with Suc stop [of "Suc fuel" c delta] show ?thesis
      by (intro exI [of _ 0] exI [of _ c]) (auto simp: relocked_def locks_pending_root)
  next
    case False
    from tree_nodeE [OF Suc.prems(1,2) False] obtain m where m: "parent (nodes c x) = Some m" "m \<in> L"
      "m \<noteq> root_node c \<Longrightarrow> key_ns (node_key (nodes c m)) = key_ns (node_key (nodes c x))"
      "token_ids (node_key (nodes c x)) \<noteq> []" by metis
    let ?c = "lock_step x e c"
    note k = lock_step_keeps [OF Suc.prems(1,2) False m(1) Suc.prems(3,4) e]
    have "above ?c L P m = above c L P m" by (simp add: above_def)
    then have "card (above ?c L P m) \<le> fuel" using above_parent(2) [OF Suc.prems(1,2) False m(1)] Suc.prems(5) by simp
    from Suc.IH [OF _ m(2) k this, of "delta - moved x e c"] Suc.prems(1) obtain d c' where
      ih: "loop fuel (Some m) (delta - moved x e c) ?c = Inr (delta - moved x e c + d, c')" "relocked ?c L P c'" "locks_ok c' L H" "sizes_ok c' L"
        "m \<noteq> root_node ?c \<longrightarrow> evictable_sizes c' (node_dp_rank (nodes ?c m)) = evictable_sizes ?c (node_dp_rank (nodes ?c m)) + d"
      by auto
    have ev: "evictable_sizes c' (node_dp_rank (nodes c x)) = evictable_sizes c (node_dp_rank (nodes c x)) + (d - moved x e c)"
    proof (cases "m = root_node c")
      case True
      then have "c' = ?c \<and> d = 0" using ih(1) stop [of fuel ?c "delta - moved x e c"] by simp
      then show ?thesis by simp
    next
      case F: False
      have "token_ids (node_key (nodes c m)) \<noteq> []" using tree_nodeE [OF Suc.prems(1) m(2) F] by metis
      then have "node_dp_rank (nodes c m) = node_dp_rank (nodes c x)"
        using m(3) [OF F] m(4) by (simp add: node_dp_rank_def key_ns_def)
      with ih(5) F show ?thesis by simp
    qed
    have "loop (Suc fuel) (Some x) delta c = Inr (delta + (d - moved x e c), c')"
      using step [OF False] ih(1) m(1) by simp
    with ih ev relocked_trans [OF relocked_step [OF Suc.prems(1)] ih(2)] show ?thesis by blast
  qed
qed

lemma inc_loop_root: "inc_loop fuel (Some (root_node c)) delta c = Inr (delta, c)"
  by (cases fuel) auto

lemma dec_loop_root: "dec_loop fuel (Some (root_node c)) delta c = Inr (delta, c)"
  by (cases fuel) auto

lemma inc_lock_ref_ok:
  assumes inv: "radix_inv c L P H" and n: "n \<in> L" and "\<not> disable c"
  shows "\<exists>d c'. inc_lock_ref n c = Inr (d, c') \<and> relocked c L P c' \<and> radix_inv c' L P (H(n := Suc (H n))) \<and>
    (n \<noteq> root_node c \<longrightarrow> evictable_sizes c' (node_dp_rank (nodes c n)) = evictable_sizes c (node_dp_rank (nodes c n)) + d)"
proof -
  note lk = radix_invD(2) [OF inv]
  have "locks_pending c L (H(n := Suc (H n))) n 1"
    using lk lock_nonneg [OF lk] n unfolding locks_ok_def locks_pending_def by auto
  from lock_walk [where loop = inc_loop and e = 1, OF inc_loop_root inc_loop_step _ radix_invD(1) [OF inv] n this radix_invD(3) [OF inv]
      above_le [OF radix_invD(1) [OF inv]], of 0]
  show ?thesis using assms(3) by (auto simp: inc_lock_ref_def radix_inv_def relocked_def)
qed

lemma dec_lock_ref_ok:
  assumes inv: "radix_inv c L P H" and n: "n \<in> L" and "\<not> disable c" and h: "0 < H n"
  shows "\<exists>d c'. dec_lock_ref n c = Inr (d, c') \<and> relocked c L P c' \<and> radix_inv c' L P (H(n := H n - 1)) \<and>
    (n \<noteq> root_node c \<longrightarrow> evictable_sizes c' (node_dp_rank (nodes c n)) = evictable_sizes c (node_dp_rank (nodes c n)) + d)"
proof -
  note lk = radix_invD(2) [OF inv]
  have "locks_pending c L (H(n := H n - 1)) n (- 1)"
    using lk lock_nonneg [OF lk] n h unfolding locks_ok_def locks_pending_def by (auto simp: of_nat_diff)
  from lock_walk [where loop = dec_loop and e = "- 1", OF dec_loop_root dec_loop_step _ radix_invD(1) [OF inv] n this radix_invD(3) [OF inv]
      above_le [OF radix_invD(1) [OF inv]], of 0]
  show ?thesis using assms(3) by (auto simp: dec_lock_ref_def radix_inv_def relocked_def)
qed

text \<open>The counters are determined by the tree and by the locks held.\<close>

lemma locks_unique:
  assumes wf: "tree_wf c L P" and r: "relocked c L P c'" and lk: "locks_ok c L H" "locks_ok c' L H" and n: "n \<in> L" "n \<noteq> root_node c"
  shows "lock_ref (nodes c' n) = lock_ref (nodes c n)"
  using n
proof (induction "Max ((\<lambda>x. length (P x)) ` L) - length (P n)" arbitrary: n rule: less_induct)
  case less
  have fin: "finite ((\<lambda>x. length (P x)) ` L)" using tree_wfD(1) [OF wf] by simp
  have kd: "kids c' L n = kids c L n" using r by (simp add: kids_def relocked_def)
  have "(\<Sum>m\<in>kids c L n. lock_ref (nodes c' m)) = (\<Sum>m\<in>kids c L n. lock_ref (nodes c m))"
  proof (rule sum.cong)
    fix m assume "m \<in> kids c L n"
    then have m: "m \<in> L" "m \<noteq> root_node c" "parent (nodes c m) = Some n" by (auto simp: kids_def)
    from tree_nodeE [OF wf m(1,2)] m(3) have "length (P n) < length (P m)"
      by (metis add_less_cancel_left add.right_neutral key_len_0 length_append less_nat_zero_code neq0_conv option.inject)
    moreover have "length (P m) \<le> Max ((\<lambda>x. length (P x)) ` L)" using m(1) fin by simp
    ultimately show "lock_ref (nodes c' m) = lock_ref (nodes c m)" by (intro less.hyps [OF _ m(1,2)]) simp
  qed simp
  moreover have "lock_ref (nodes c n) = int (H n) + (\<Sum>m\<in>kids c L n. lock_ref (nodes c m))"
    using lk(1) less.prems unfolding locks_ok_def by blast
  moreover have "lock_ref (nodes c' n) = int (H n) + (\<Sum>m\<in>kids c' L n. lock_ref (nodes c' m))"
    using lk(2) less.prems r unfolding locks_ok_def relocked_def by auto
  ultimately show ?case using kd by simp
qed

text \<open>A held lock protects the node and everything above it.\<close>

lemma held_locked:
  assumes "radix_inv c L P H" "n \<in> L" "n \<noteq> root_node c" "0 < H n"
  shows "0 < lock_ref (nodes c n)"
proof -
  note lk = radix_invD(2) [OF assms(1)]
  have "lock_ref (nodes c n) = int (H n) + (\<Sum>m\<in>kids c L n. lock_ref (nodes c m))"
    using lk assms unfolding locks_ok_def by blast
  moreover have "0 \<le> (\<Sum>m\<in>kids c L n. lock_ref (nodes c m))"
    by (rule sum_nonneg) (use lock_nonneg [OF lk] in \<open>auto simp: kids_def\<close>)
  ultimately show ?thesis using assms(4) by simp
qed

lemma parent_lock_ge:
  assumes inv: "radix_inv c L P H" and n: "n \<in> L" "n \<noteq> root_node c" "parent (nodes c n) = Some m" and m: "m \<noteq> root_node c"
  shows "lock_ref (nodes c n) \<le> lock_ref (nodes c m)"
proof -
  note lk = radix_invD(2) [OF inv] and wf = radix_invD(1) [OF inv]
  have mL: "m \<in> L" by (rule above_parent(1) [OF wf n])
  have "lock_ref (nodes c m) = int (H m) + (\<Sum>x\<in>kids c L m. lock_ref (nodes c x))"
    using lk mL m unfolding locks_ok_def by blast
  moreover have "lock_ref (nodes c n) \<le> (\<Sum>x\<in>kids c L m. lock_ref (nodes c x))"
    by (rule member_le_sum) (use n lock_nonneg [OF lk] tree_wfD(1) [OF wf] in \<open>auto simp: kids_def\<close>)
  ultimately show ?thesis by simp
qed

text \<open>A cache with a node, for the examples.\<close>

lemma demo_leaf:
  obtains c L P n where "radix_inv c L P (\<lambda>_. 0)" "n \<in> L" "n \<noteq> root_node c" "\<not> disable c"
proof -
  have k: "cache_page_size (demo_cache 2) dvd key_len (key_convert (demo_cache 2) (demo_key [1, 2]))"
    "length (if is_eagle (demo_cache 2) then take (key_len (key_convert (demo_cache 2) (demo_key [1, 2]))) [11, 12] else [11, 12 :: int]) =
      key_len (key_convert (demo_cache 2) (demo_key [1, 2]))" by (simp_all add: key_convert_def key_len_def)
  obtain j us c' L' P' where r: "radix_inv c' L' P' (\<lambda>_. 0)" "disable c' = disable (demo_cache 2)"
    "content c' L' P' = content (demo_cache 2) {0} (\<lambda>_. []) \<union> {(key_ns (key_convert (demo_cache 2) (demo_key [1, 2])), ps) |ps.
       prefix ps (zip (token_ids (key_convert (demo_cache 2) (demo_key [1, 2]))) (us @ drop j [11, 12])) \<and>
       key_len (key_convert (demo_cache 2) (demo_key [1, 2])) \<noteq> 0}"
    by (rule radix_insert_walked [OF demo_cache_inv [of 2] _ refl k(1) refl k(2)]) auto
  have "content c' L' P' \<noteq> {}" unfolding r(3) by (auto simp: key_convert_def key_len_def)
  then obtain n where "n \<in> L'" "n \<noteq> root_node c'" by (auto simp: content_def)
  with r that show ?thesis by simp
qed

section \<open>Properties\<close>

text \<open>Taking and releasing a lock is neutral: on a well-formed cache \<open>inc_lock_ref\<close> of a linked node
  does not raise, keeps the tree and its accounting (what leaves the evictable counter enters the
  protected one), and the following \<open>dec_lock_ref\<close> undoes it: it returns the opposite delta, and every
  counter of the tree and both sizes of every rank are as before.\<close>

theorem radix_lock_roundtrip:
  assumes inv: "radix_inv c L P H" and n: "n \<in> L" "n \<noteq> root_node c" and dis: "\<not> disable c"
  shows "\<exists>d c1 c2. inc_lock_ref n c = Inr (d, c1) \<and> radix_inv c1 L P (H(n := Suc (H n))) \<and>
    (\<forall>r. evictable_sizes c1 r + protected_sizes c1 r = evictable_sizes c r + protected_sizes c r) \<and> 0 < lock_ref (nodes c1 n) \<and>
    dec_lock_ref n c1 = Inr (- d, c2) \<and> radix_inv c2 L P H \<and> content c2 L P = content c L P \<and>
    (\<forall>x\<in>L - {root_node c}. lock_ref (nodes c2 x) = lock_ref (nodes c x)) \<and>
    (\<forall>r. evictable_sizes c2 r = evictable_sizes c r \<and> protected_sizes c2 r = protected_sizes c r)"
proof -
  from inc_lock_ref_ok [OF inv n(1) dis] n(2) obtain d c1 where i: "inc_lock_ref n c = Inr (d, c1)" "relocked c L P c1"
    "radix_inv c1 L P (H(n := Suc (H n)))"
    "evictable_sizes c1 (node_dp_rank (nodes c n)) = evictable_sizes c (node_dp_rank (nodes c n)) + d" by blast
  have f: "\<not> disable c1" "root_node c1 = root_node c" "node_dp_rank (nodes c1 n) = node_dp_rank (nodes c n)"
    using i(2) dis by (auto simp: relocked_def node_dp_rank_def)
  from dec_lock_ref_ok [OF i(3) n(1) f(1)] n(2) f obtain d' c2 where j: "dec_lock_ref n c1 = Inr (d', c2)" "relocked c1 L P c2"
    "radix_inv c2 L P H"
    "evictable_sizes c2 (node_dp_rank (nodes c n)) = evictable_sizes c1 (node_dp_rank (nodes c n)) + d'" by auto
  note rl = relocked_trans [OF i(2) j(2)]
  have lk: "lock_ref (nodes c2 x) = lock_ref (nodes c x)" if "x \<in> L" "x \<noteq> root_node c" for x
    by (rule locks_unique [OF radix_invD(1) [OF inv] rl radix_invD(2) [OF inv] radix_invD(2) [OF j(3)] that])
  have "ranked_size c2 L b r = ranked_size c L b r" for b r
    unfolding ranked_size_def using rl lk by (intro sum.cong) (auto simp: relocked_def node_dp_rank_def)
  then have sz: "evictable_sizes c2 r = evictable_sizes c r" "protected_sizes c2 r = protected_sizes c r" for r
    using radix_invD(3) [OF inv] radix_invD(3) [OF j(3)] by (auto simp: sizes_ok_def)
  with i(4) j(4) have "d' = - d" by simp
  moreover have "0 < lock_ref (nodes c1 n)" by (rule held_locked [OF i(3)]) (use n f in auto)
  ultimately show ?thesis using i j lk sz rl by (auto simp: relocked_def)
qed

theorem radix_lock_roundtrip_witness:
  "\<exists>c L P n d c1 c2. radix_inv c L P (\<lambda>_. 0) \<and> n \<noteq> root_node c \<and>
     inc_lock_ref n c = Inr (d, c1) \<and> 0 < lock_ref (nodes c1 n) \<and> dec_lock_ref n c1 = Inr (- d, c2)"
proof -
  obtain c L P n where "radix_inv c L P (\<lambda>_. 0)" "n \<in> L" "n \<noteq> root_node c" "\<not> disable c" by (rule demo_leaf)
  with radix_lock_roundtrip [of c L P "\<lambda>_. 0" n] show ?thesis by blast
qed

section \<open>Releasing undoes acquiring\<close>

text \<open>Both walks visit the same nodes, and the steps at different nodes are independent; so a release right
  after an acquisition restores the cache exactly, not only its counters.\<close>

fun ancestors :: "nat \<Rightarrow> radix_cache \<Rightarrow> nat \<Rightarrow> nat list" where
  "ancestors 0 c x = []"
| "ancestors (Suc fuel) c x =
     (if x = root_node c then []
      else x # (case parent (nodes c x) of None \<Rightarrow> [] | Some m \<Rightarrow> ancestors fuel c m))"

lemma ancestors_lock_step [simp]: "ancestors fuel (lock_step y e c) x = ancestors fuel c x"
  by (induction fuel arbitrary: x) (auto split: option.split)

lemma ancestors_lock_steps [simp]: "ancestors fuel (fold (\<lambda>y. lock_step y e) ys c) x = ancestors fuel c x"
  by (induction ys arbitrary: c) auto

lemma lock_steps_frame [simp]:
  "next_id (fold (\<lambda>y. lock_step y e) ys c) = next_id c" "disable (fold (\<lambda>y. lock_step y e) ys c) = disable c"
  by (induction ys arbitrary: c) auto

lemma ancestors_distinct:
  assumes wf: "tree_wf c L P" and x: "x \<in> L"
  shows "distinct (ancestors fuel c x) \<and> set (ancestors fuel c x) \<subseteq> above c L P x"
  using x
proof (induction fuel arbitrary: x)
  case (Suc fuel)
  show ?case
  proof (cases "x = root_node c")
    case False
    obtain m where m: "parent (nodes c x) = Some m" using tree_nodeE [OF wf Suc.prems False] by metis
    note up = above_parent [OF wf Suc.prems False m]
    have "P x = P m @ node_path (nodes c x)" using tree_nodeE [OF wf Suc.prems False] m by (metis option.inject)
    then have sub: "above c L P m \<subseteq> above c L P x" by (auto simp: above_def)
    have "x \<notin> above c L P m"
    proof
      assume "x \<in> above c L P m"
      then have "above c L P x \<subseteq> above c L P m" by (auto simp: above_def)
      then show False using up(2) sub by auto
    qed
    moreover have "x \<in> above c L P x" using Suc.prems False by (simp add: above_def)
    ultimately show ?thesis using Suc.IH [OF up(1)] sub m False by auto
  qed simp
qed simp

lemma lock_walk_steps:
  assumes stop: "\<And>fuel delta c. loop fuel (Some (root_node c)) delta c = Inr (delta, c)"
    and step: "\<And>fuel x delta c. x \<noteq> root_node c \<Longrightarrow>
      loop (Suc fuel) (Some x) delta c = loop fuel (parent (nodes c x)) (delta - moved x e c) (lock_step x e c)"
    and wf: "tree_wf c L P" and x: "x \<in> L" and fuel: "card (above c L P x) \<le> fuel"
  shows "\<exists>d. loop fuel (Some x) delta c = Inr (d, fold (\<lambda>y. lock_step y e) (ancestors fuel c x) c)"
  using wf x fuel
proof (induction fuel arbitrary: x delta c)
  case 0
  have "x = root_node c"
  proof (rule ccontr)
    assume "x \<noteq> root_node c"
    then have "x \<in> above c L P x" using 0 by (simp add: above_def)
    moreover have "finite (above c L P x)" using tree_wfD(1) [OF 0(1)] by (simp add: above_def)
    ultimately show False using 0 by auto
  qed
  with stop [of 0 c delta] show ?case by simp
next
  case (Suc fuel)
  show ?case
  proof (cases "x = root_node c")
    case True
    with stop [of "Suc fuel" c delta] show ?thesis by simp
  next
    case False
    obtain m where m: "parent (nodes c x) = Some m" using tree_nodeE [OF Suc.prems(1,2) False] by metis
    note up = above_parent [OF Suc.prems(1,2) False m]
    have "above (lock_step x e c) L P m = above c L P m" by (simp add: above_def)
    then have "card (above (lock_step x e c) L P m) \<le> fuel" using up(2) Suc.prems(3) by simp
    from Suc.IH [OF _ up(1) this, of "delta - moved x e c"] Suc.prems(1) show ?thesis
      using step [OF False, of fuel delta] m False by simp
  qed
qed

lemma nodes_lock_step: "nodes (lock_step x e c) = (nodes c)(x := (nodes c x)\<lparr>lock_ref := lock_ref (nodes c x) + e\<rparr>)"
  "clock (lock_step x e c) = clock c" "ticks (lock_step x e c) = ticks c" "radix_cache.more (lock_step x e c) = radix_cache.more c"
  by (simp_all add: lock_step_def relock_def move_size_def upd_node_def)

lemma moved_lock_step: "x \<noteq> y \<Longrightarrow> moved x e (lock_step y f c) = moved x e c"
  by (simp add: moved_def)

lemma lock_step_commute:
  assumes "x \<noteq> y"
  shows "lock_step x e (lock_step y f c) = lock_step y f (lock_step x e c)"
proof (rule radix_cache.equality)
  show "nodes (lock_step x e (lock_step y f c)) = nodes (lock_step y f (lock_step x e c))"
    using assms by (simp add: nodes_lock_step fun_upd_twist)
  show "evictable_sizes (lock_step x e (lock_step y f c)) = evictable_sizes (lock_step y f (lock_step x e c))"
    "protected_sizes (lock_step x e (lock_step y f c)) = protected_sizes (lock_step y f (lock_step x e c))"
    using assms moved_lock_step [OF assms] moved_lock_step [OF assms [symmetric]] by (auto simp: fun_eq_iff)
qed (simp_all add: nodes_lock_step)

lemma lock_step_undo: "lock_step x (- 1) (lock_step x 1 c) = c"
  by (auto simp: lock_step_def relock_def moved_def move_size_def upd_node_def Let_def node_dp_rank_def
      intro!: radix_cache.equality)

lemma lock_steps_commute: "x \<notin> set ys \<Longrightarrow>
    lock_step x e (fold (\<lambda>y. lock_step y f) ys c) = fold (\<lambda>y. lock_step y f) ys (lock_step x e c)"
  by (induction ys arbitrary: c) (auto simp: lock_step_commute)

lemma lock_steps_undo: "distinct xs \<Longrightarrow> fold (\<lambda>y. lock_step y (- 1)) xs (fold (\<lambda>y. lock_step y 1) xs c) = c"
  by (induction xs arbitrary: c) (auto simp: lock_steps_commute lock_step_undo)

lemma inc_lock_ref_steps:
  assumes inv: "radix_inv c L P H" and n: "n \<in> L" and lk: "inc_lock_ref n c = Inr (d, c1)" and dis: "\<not> disable c"
  shows "c1 = fold (\<lambda>y. lock_step y 1) (ancestors (next_id c) c n) c"
  using lock_walk_steps [where loop = inc_loop and e = 1, OF inc_loop_root inc_loop_step radix_invD(1) [OF inv] n
      above_le [OF radix_invD(1) [OF inv]], of 0] lk dis
  by (auto simp: inc_lock_ref_def)

lemma lock_steps_evictable: "evictable_sizes (fold (\<lambda>y. lock_step y 1) ys c) r \<le> evictable_sizes c r"
proof (induction ys arbitrary: c)
  case (Cons y ys)
  have "evictable_sizes (lock_step y 1 c) r \<le> evictable_sizes c r" by (simp add: moved_def Let_def)
  with Cons [of "lock_step y 1 c"] show ?case by simp
qed simp

lemma lock_evictable_le:
  assumes "radix_inv c L P H" "n \<in> L" "inc_lock_ref n c = Inr (d, c1)"
  shows "evictable_sizes c1 r \<le> evictable_sizes c r"
proof (cases "disable c")
  case True
  with assms(3) show ?thesis by (simp add: inc_lock_ref_def)
next
  case False
  show ?thesis unfolding inc_lock_ref_steps [OF assms False] by (rule lock_steps_evictable)
qed

lemma lock_undo_exact:
  assumes inv: "radix_inv c L P H" and n: "n \<in> L" and lk: "inc_lock_ref n c = Inr (d, c1)"
  shows "\<exists>d'. dec_lock_ref n c1 = Inr (d', c)"
proof (cases "disable c")
  case True
  with lk show ?thesis by (auto simp: inc_lock_ref_def dec_lock_ref_def)
next
  case False
  note wf = radix_invD(1) [OF inv]
  let ?xs = "ancestors (next_id c) c n"
  have c1: "c1 = fold (\<lambda>y. lock_step y 1) ?xs c"
    by (rule inc_lock_ref_steps [OF inv n lk False])
  from inc_lock_ref_ok [OF inv n False] lk have "radix_inv c1 L P (H(n := Suc (H n)))" by auto
  note wf1 = radix_invD(1) [OF this]
  have "\<exists>d'. dec_loop (next_id c1) (Some n) 0 c1 = Inr (d', fold (\<lambda>y. lock_step y (- 1)) (ancestors (next_id c1) c1 n) c1)"
    by (rule lock_walk_steps [where loop = dec_loop, OF dec_loop_root dec_loop_step wf1 n above_le [OF wf1]])
  then show ?thesis using False lock_steps_undo ancestors_distinct [OF wf n, of "next_id c"] by (simp add: dec_lock_ref_def c1)
qed

end
