(* ===== verification/Radix_Evict.thy ===== *)
theory Radix_Evict
  imports Radix_Locks
begin

text \<open>
  Traversal and eviction of the prefix cache: the depth-first walks visit every linked node once,
  unlinking an unlocked leaf keeps the invariant, and \<open>evict\<close> frees unlocked nodes only, returns their
  slots to the allocator, and stops short of the request only when nothing evictable is left.
\<close>

section \<open>Depth-first walks\<close>

lemma children_kids:
  assumes wf: "tree_wf c L P" and n: "n \<in> L"
  shows "set (map snd (children (nodes c n))) = kids c L n" "distinct (map snd (children (nodes c n)))"
proof -
  have c: "children_ok c L n" by (rule tree_wfD(7) [OF wf n])
  show "set (map snd (children (nodes c n))) = kids c L n"
  proof (intro equalityI subsetI)
    fix m assume "m \<in> set (map snd (children (nodes c n)))"
    with c show "m \<in> kids c L n" by (auto simp: children_ok_def kids_def)
  next
    fix m assume "m \<in> kids c L n"
    then have m: "m \<in> L" "m \<noteq> root_node c" "parent (nodes c m) = Some n" by (auto simp: kids_def)
    from tree_nodeE [OF wf m(1,2)] m(3) obtain ck where "(ck, m) \<in> set (children (nodes c n))" by (metis option.inject)
    then show "m \<in> set (map snd (children (nodes c n)))" by force
  qed
  have "inj_on (\<lambda>x. snd x) (set (children (nodes c n)))"
  proof (rule inj_onI)
    fix x y assume xy: "x \<in> set (children (nodes c n))" "y \<in> set (children (nodes c n))" "snd x = snd y"
    with c have "get_child_key (cache_page_size c) (node_key (nodes c (snd x))) = Inr (fst x)"
      "get_child_key (cache_page_size c) (node_key (nodes c (snd y))) = Inr (fst y)"
      unfolding children_ok_def split_beta by blast+
    with xy(3) have "fst x = fst y" by simp
    with xy(3) show "x = y" by (simp add: prod_eq_iff)
  qed
  moreover have "distinct (children (nodes c n))" using c by (auto simp: children_ok_def distinct_map)
  ultimately show "distinct (map snd (children (nodes c n)))" by (simp add: distinct_map)
qed

text \<open>\<open>V\<close> are the nodes visited, the stack holds the unvisited nodes whose parent is visited.\<close>

definition dfs_inv :: "radix_cache \<Rightarrow> nat set \<Rightarrow> nat set \<Rightarrow> nat list \<Rightarrow> bool" where
  "dfs_inv c L V stack \<longleftrightarrow> distinct stack \<and> set stack \<inter> V = {} \<and> set stack \<union> V \<subseteq> L \<and> root_node c \<in> set stack \<union> V \<and>
     (\<forall>n\<in>L - {root_node c}. n \<in> set stack \<union> V \<longleftrightarrow> (\<exists>m\<in>V. parent (nodes c n) = Some m))"

lemma dfs_init: "tree_wf c L P \<Longrightarrow> dfs_inv c L {} [root_node c]"
  using tree_wfD(2) by (auto simp: dfs_inv_def)

lemma dfs_step:
  assumes wf: "tree_wf c L P" and i: "dfs_inv c L V stack" and s: "stack \<noteq> []"
  shows "dfs_inv c L (insert (last stack) V) (butlast stack @ map snd (children (nodes c (last stack))))"
    "last stack \<in> L" "last stack \<notin> V"
proof -
  obtain S x where S: "stack = S @ [x]" using s by (metis append_butlast_last_id)
  show xL: "last stack \<in> L" "last stack \<notin> V" using i S by (auto simp: dfs_inv_def)
  then have x: "x \<in> L" "x \<notin> V" by (auto simp: S)
  note ch = children_kids [OF wf x(1)]
  have "n \<notin> set stack \<union> V" if "n \<in> kids c L x" for n
  proof
    assume "n \<in> set stack \<union> V"
    with i that obtain m where "m \<in> V" "parent (nodes c n) = Some m" by (auto simp: dfs_inv_def kids_def)
    with that x(2) show False by (simp add: kids_def)
  qed
  then have "kids c L x \<inter> (set stack \<union> V) = {}" by blast
  note dis = this
  define K where "K = map snd (children (nodes c x))"
  note ch = ch [folded K_def]
  from i have i': "distinct (S @ [x])" "set (S @ [x]) \<inter> V = {}" "set (S @ [x]) \<union> V \<subseteq> L" "root_node c \<in> set (S @ [x]) \<union> V"
    and iff: "\<And>n. n \<in> L - {root_node c} \<Longrightarrow> n \<in> set stack \<union> V \<longleftrightarrow> (\<exists>m\<in>V. parent (nodes c n) = Some m)"
    by (simp_all add: dfs_inv_def S)
  have "dfs_inv c L (insert x V) (S @ K)"
    unfolding dfs_inv_def
  proof (intro conjI ballI)
    show "distinct (S @ K)" using i'(1) ch dis S by auto
    show "set (S @ K) \<inter> insert x V = {}" using i'(1,2) ch(1) dis S by auto
    show "set (S @ K) \<union> insert x V \<subseteq> L" using i'(3) ch(1) by (auto simp: kids_def)
    show "root_node c \<in> set (S @ K) \<union> insert x V" using i'(4) by auto
    fix n assume n: "n \<in> L - {root_node c}"
    have "n \<in> set (S @ K) \<union> insert x V \<longleftrightarrow> n \<in> set stack \<union> V \<or> n \<in> kids c L x" using ch(1) S by auto
    also have "\<dots> \<longleftrightarrow> (\<exists>m\<in>insert x V. parent (nodes c n) = Some m)" using iff [OF n] n by (auto simp: kids_def)
    finally show "n \<in> set (S @ K) \<union> insert x V \<longleftrightarrow> (\<exists>m\<in>insert x V. parent (nodes c n) = Some m)" .
  qed
  then show "dfs_inv c L (insert (last stack) V) (butlast stack @ map snd (children (nodes c (last stack))))"
    by (simp add: S K_def)
qed

lemma dfs_done:
  assumes wf: "tree_wf c L P" and i: "dfs_inv c L V []"
  shows "V = L"
proof -
  have "n \<in> V" if "n \<in> L" for n
    using that
  proof (induction "length (P n)" arbitrary: n rule: less_induct)
    case less
    show ?case
    proof (cases "n = root_node c")
      case False
      from tree_nodeE [OF wf less.prems False] obtain m where m: "m \<in> L" "parent (nodes c n) = Some m" "P n = P m @ node_path (nodes c n)"
        "node_path (nodes c n) \<noteq> []" by (metis key_len_0 length_0_conv)
      then have "m \<in> V" using less.hyps [of m] by simp
      with i False less.prems m show ?thesis by (auto simp: dfs_inv_def)
    qed (use i in \<open>simp add: dfs_inv_def\<close>)
  qed
  then show ?thesis using i by (auto simp: dfs_inv_def)
qed

lemma dfs_full:
  assumes "dfs_inv c L V stack" "V = L"
  shows "stack = []"
proof -
  have "set stack \<inter> L = {}" "set stack \<subseteq> L" using assms by (simp_all add: dfs_inv_def)
  then have "set stack = {}" by (simp add: Int_absorb2)
  then show ?thesis by simp
qed

lemma collect_leaves_loop_ok:
  assumes wf: "tree_wf c L P" and "dfs_inv c L V stack" "distinct ret" "set ret = {n \<in> V. children (nodes c n) = []}"
    and "card L \<le> card V + fuel"
  shows "\<exists>ls. collect_leaves_loop fuel stack ret c = Inr ls \<and> distinct ls \<and> set ls = {n \<in> L. children (nodes c n) = []}"
  using assms(2-)
proof (induction fuel arbitrary: V stack ret)
  case 0
  have "V \<subseteq> L" using 0 by (auto simp: dfs_inv_def)
  with 0 tree_wfD(1) [OF wf] have "V = L" by (simp add: card_subset_eq card_mono le_antisym)
  with dfs_full [OF 0(1)] have "stack = []" by simp
  with 0 \<open>V = L\<close> show ?case by simp
next
  case (Suc fuel)
  show ?case
  proof (cases stack)
    case Nil
    with Suc dfs_done [OF wf, of V] show ?thesis by auto
  next
    case (Cons a as)
    then have ne: "stack \<noteq> []" by simp
    note d = dfs_step [OF wf Suc.prems(1) ne]
    let ?x = "last stack"
    have fin: "finite V" using Suc.prems(1) tree_wfD(1) [OF wf] by (auto simp: dfs_inv_def intro: finite_subset)
    have card: "card L \<le> card (insert ?x V) + fuel" using Suc.prems(4) d(3) fin by simp
    show ?thesis
    proof (cases "children (nodes c ?x) = []")
      case True
      have "\<exists>ls. collect_leaves_loop fuel (butlast stack) (ret @ [?x]) c = Inr ls \<and> distinct ls \<and> set ls = {n \<in> L. children (nodes c n) = []}"
        by (rule Suc.IH [OF _ _ _ card]) (use d True Suc.prems in auto)
      with True Cons show ?thesis by (auto simp: Let_def)
    next
      case False
      have "\<exists>ls. collect_leaves_loop fuel (butlast stack @ map snd (children (nodes c ?x))) ret c = Inr ls \<and> distinct ls \<and>
          set ls = {n \<in> L. children (nodes c n) = []}"
        by (rule Suc.IH [OF d(1) _ _ card]) (use False Suc.prems in auto)
      with False Cons show ?thesis by (auto simp: Let_def)
    qed
  qed
qed

lemma card_le_next_id: "tree_wf c L P \<Longrightarrow> card L \<le> next_id c"
proof -
  assume wf: "tree_wf c L P"
  have "L \<subseteq> {0..<next_id c}" using tree_wfD(3) [OF wf] by auto
  then show ?thesis using card_mono [of "{0..<next_id c}" L] by simp
qed

lemma collect_leaves_ok:
  assumes "tree_wf c L P"
  shows "\<exists>ls. collect_leaves c = Inr ls \<and> distinct ls \<and> set ls = {n \<in> L. children (nodes c n) = []}"
  unfolding collect_leaves_def
  by (rule collect_leaves_loop_ok [OF assms dfs_init [OF assms]]) (use card_le_next_id [OF assms] in auto)

lemma total_size_loop_ok:
  assumes wf: "tree_wf c L P" and "dfs_inv c L V stack" "acc = (\<Sum>n\<in>V. length (node_value (nodes c n)))"
    and "card L \<le> card V + fuel"
  shows "total_size_loop fuel stack acc c = Inr (\<Sum>n\<in>L. length (node_value (nodes c n)))"
  using assms(2-)
proof (induction fuel arbitrary: V stack acc)
  case 0
  have "V \<subseteq> L" using 0 by (auto simp: dfs_inv_def)
  with 0 tree_wfD(1) [OF wf] have "V = L" by (simp add: card_subset_eq card_mono le_antisym)
  with dfs_full [OF 0(1)] have "stack = []" by simp
  with 0 \<open>V = L\<close> show ?case by simp
next
  case (Suc fuel)
  show ?case
  proof (cases stack)
    case Nil
    with Suc dfs_done [OF wf, of V] show ?thesis by auto
  next
    case (Cons a as)
    then have ne: "stack \<noteq> []" by simp
    note d = dfs_step [OF wf Suc.prems(1) ne]
    have fin: "finite V" using Suc.prems(1) tree_wfD(1) [OF wf] by (auto simp: dfs_inv_def intro: finite_subset)
    have "total_size_loop fuel (butlast stack @ map snd (children (nodes c (last stack)))) (acc + length (node_value (nodes c (last stack)))) c =
        Inr (\<Sum>n\<in>L. length (node_value (nodes c n)))"
      by (rule Suc.IH [OF d(1)]) (use Suc.prems d(3) fin in auto)
    with Cons show ?thesis by (simp add: Let_def)
  qed
qed

lemma total_size_ok: "tree_wf c L P \<Longrightarrow> total_size c = Inr (\<Sum>n\<in>L. length (node_value (nodes c n)))"
  unfolding total_size_def
  by (rule total_size_loop_ok [OF _ dfs_init]) (use card_le_next_id in auto)

section \<open>Unlinking a leaf\<close>

text \<open>What the heap is after \<open>x\<close> was unlinked from its parent \<open>m\<close>.\<close>

definition cut_heap :: "radix_cache \<Rightarrow> nat \<Rightarrow> nat \<Rightarrow> child_key \<Rightarrow> radix_cache" where
  "cut_heap c m x ck = (let r = node_dp_rank (nodes c x) in
     c\<lparr>nodes := (nodes c)(m := (nodes c m)\<lparr>children := dict_del ck (children (nodes c m))\<rparr>),
       evictable_sizes := (evictable_sizes c)(r := evictable_sizes c r - int (key_len (node_key (nodes c x))))\<rparr>)"

lemma cut_heap_simps [simp]:
  "parent (nodes (cut_heap c m x ck) n) = parent (nodes c n)" "node_key (nodes (cut_heap c m x ck) n) = node_key (nodes c n)"
  "node_value (nodes (cut_heap c m x ck) n) = node_value (nodes c n)" "lock_ref (nodes (cut_heap c m x ck) n) = lock_ref (nodes c n)"
  "last_access_time (nodes (cut_heap c m x ck) n) = last_access_time (nodes c n)"
  "children (nodes (cut_heap c m x ck) n) = (if n = m then dict_del ck (children (nodes c m)) else children (nodes c n))"
  "root_node (cut_heap c m x ck) = root_node c" "next_id (cut_heap c m x ck) = next_id c"
  "cache_page_size (cut_heap c m x ck) = cache_page_size c" "kv_allocator (cut_heap c m x ck) = kv_allocator c"
  "protected_sizes (cut_heap c m x ck) = protected_sizes c" "disable (cut_heap c m x ck) = disable c" "is_eagle (cut_heap c m x ck) = is_eagle c"
  by (auto simp: cut_heap_def Let_def)

lemma node_fn_cut [simp]:
  "node_path (nodes (cut_heap c m x ck) n) = node_path (nodes c n)" "node_dp_rank (nodes (cut_heap c m x ck) n) = node_dp_rank (nodes c n)"
  by (simp_all add: node_path_def node_dp_rank_def)

lemma delete_leaf_eq:
  assumes wf: "tree_wf c L P" and x: "x \<in> L" "x \<noteq> root_node c"
  obtains m ck where "parent (nodes c x) = Some m" "m \<in> L" "m \<noteq> x" "(ck, x) \<in> set (children (nodes c m))"
    "delete_leaf x c = Inr (cut_heap c m x ck)"
    "set (dict_del ck (children (nodes c m))) = set (children (nodes c m)) - {(ck, x)}"
proof -
  from tree_nodeE [OF wf x] obtain m ck where m: "m \<in> L" "parent (nodes c x) = Some m" "(ck, x) \<in> set (children (nodes c m))"
    "P x = P m @ node_path (nodes c x)" "node_path (nodes c x) \<noteq> []" by (metis key_len_0 length_0_conv)
  then have ne: "m \<noteq> x" by auto
  have ch: "children_ok c L m" by (rule tree_wfD(7) [OF wf m(1)])
  have only: "ck' = ck" if "(ck', x) \<in> set (children (nodes c m))" for ck'
  proof -
    from ch m(3) that have "get_child_key (cache_page_size c) (node_key (nodes c x)) = Inr ck"
      "get_child_key (cache_page_size c) (node_key (nodes c x)) = Inr ck'" by (auto simp: children_ok_def)
    then show ?thesis by simp
  qed
  have "filter (\<lambda>(k, v). v = x) (children (nodes c m)) \<noteq> []" using m(3) by (force simp: filter_empty_conv)
  then obtain k v rest where f: "filter (\<lambda>(k, v). v = x) (children (nodes c m)) = (k, v) # rest"
    by (metis list.exhaust surj_pair)
  then have "(k, v) \<in> set (children (nodes c m))" "v = x" using filter_eq_ConsD by (force dest: arg_cong [where f = set])+
  with only have "k = ck" by simp
  with f have lk: "loop_key x (children (nodes c m)) = Inr ck" by (simp add: loop_key_def)
  have del: "set (dict_del ck (children (nodes c m))) = set (children (nodes c m)) - {(ck, x)}"
    using child_unique [OF wf m(1) _ m(3)] by (auto simp: dict_del_def)
  show ?thesis
    by (rule that [OF m(2,1) ne m(3) _ del])
      (use m lk ne in \<open>simp add: delete_leaf_def upd_node_def cut_heap_def Let_def\<close>)
qed

lemma cut_keeps:
  assumes inv: "radix_inv c L P H" and x: "x \<in> L" "x \<noteq> root_node c" "children (nodes c x) = []" "lock_ref (nodes c x) = 0"
  obtains m ck where "parent (nodes c x) = Some m" "delete_leaf x c = Inr (cut_heap c m x ck)"
    "radix_inv (cut_heap c m x ck) (L - {x}) P H" "m \<in> L" "m \<noteq> x"
proof -
  note wf = radix_invD(1) [OF inv] and lk = radix_invD(2) [OF inv]
  obtain m ck where m: "parent (nodes c x) = Some m" "m \<in> L" "m \<noteq> x" "(ck, x) \<in> set (children (nodes c m))"
    "delete_leaf x c = Inr (cut_heap c m x ck)"
    "set (dict_del ck (children (nodes c m))) = set (children (nodes c m)) - {(ck, x)}"
    by (rule delete_leaf_eq [OF wf x(1,2)])
  let ?c = "cut_heap c m x ck"
  have nokid: "parent (nodes c n) \<noteq> Some x" if "n \<in> L" "n \<noteq> root_node c" for n
  proof
    assume "parent (nodes c n) = Some x"
    then have "n \<in> kids c L x" using that by (simp add: kids_def)
    then show False using children_kids(1) [OF wf x(1)] x(3) by simp
  qed
  have chok: "children_ok ?c (L - {x}) n" if n: "n \<in> L - {x}" for n
  proof -
    have o: "distinct (map fst (children (nodes c n)))" "\<And>k v. (k, v) \<in> set (children (nodes c n)) \<Longrightarrow> v \<in> L \<and> v \<noteq> root_node c \<and>
        parent (nodes c v) = Some n \<and> get_child_key (cache_page_size c) (node_key (nodes c v)) = Inr k"
      using tree_wfD(7) [OF wf, of n] n unfolding children_ok_def by auto
    show ?thesis
    proof (cases "n = m")
      case True
      have "distinct (map fst (dict_del ck (children (nodes c m))))" using o(1) True by (simp add: dict_del_def distinct_map_filter)
      moreover have "v \<noteq> x" if "(k, v) \<in> set (children (nodes c m)) - {(ck, x)}" for k v
        using o(2) [of k v] o(2) [of ck x] that m(4) True by auto
      ultimately show ?thesis using o(2) True unfolding children_ok_def by (auto simp: m(6))
    next
      case False
      then have "v \<noteq> x" if "(k, v) \<in> set (children (nodes c n))" for k v using o(2) [OF that] m(1) by auto
      with False o show ?thesis unfolding children_ok_def by auto
    qed
  qed
  have nok: "node_ok ?c (L - {x}) P n" if n: "n \<in> L - {x}" "n \<noteq> root_node c" for n
  proof -
    from n have nL: "n \<in> L" "n \<noteq> x" by auto
    from tree_nodeE [OF wf nL(1) n(2)] obtain m0 ck0 where m0: "m0 \<in> L" "parent (nodes c n) = Some m0" "P n = P m0 @ node_path (nodes c n)"
      "(ck0, n) \<in> set (children (nodes c m0))" "m0 \<noteq> root_node c \<Longrightarrow> key_ns (node_key (nodes c m0)) = key_ns (node_key (nodes c n))"
      "token_ids (node_key (nodes c n)) \<noteq> []" "length (node_value (nodes c n)) = key_len (node_key (nodes c n))"
      "cache_page_size c dvd key_len (node_key (nodes c n))" by metis
    have "m0 \<noteq> x" using nokid [OF nL(1) n(2)] m0(2) by auto
    moreover have "(ck0, n) \<in> set (children (nodes ?c m0))" using m0(4) m(6) nL(2) by auto
    then have "n \<in> snd ` set (children (nodes ?c m0))" by force
    ultimately show ?thesis using m0 unfolding node_ok_def Let_def by (auto intro!: bexI [of _ m0])
  qed
  have wf': "tree_wf ?c (L - {x}) P"
    unfolding tree_wf_def using tree_wfD(1-6) [OF wf] chok nok x(2) by auto
  have kd: "kids ?c (L - {x}) n = kids c L n - {x}" for n by (auto simp: kids_def)
  have sm: "(\<Sum>y\<in>kids ?c (L - {x}) n. lock_ref (nodes ?c y)) = (\<Sum>y\<in>kids c L n. lock_ref (nodes c y))" for n
  proof (cases "x \<in> kids c L n")
    case True
    have "finite (kids c L n)" using tree_wfD(1) [OF wf] by (simp add: kids_def)
    then show ?thesis using True x(4) by (simp add: kd sum.remove [of _ x])
  qed (simp add: kd)
  have Hx: "H x = 0"
  proof -
    have "lock_ref (nodes c x) = int (H x) + (\<Sum>y\<in>kids c L x. lock_ref (nodes c y))" using lk x unfolding locks_ok_def by blast
    moreover have "0 \<le> (\<Sum>y\<in>kids c L x. lock_ref (nodes c y))" by (rule sum_nonneg) (use lock_nonneg [OF lk] in \<open>auto simp: kids_def\<close>)
    ultimately show ?thesis using x(4) by simp
  qed
  have "locks_ok ?c (L - {x}) H"
    unfolding locks_ok_def sm
  proof (intro conjI allI impI ballI)
    show "H n = 0" if "n \<notin> L - {x}" for n using that Hx lk by (cases "n = x") (auto simp: locks_ok_def)
    fix n assume n: "n \<in> L - {x} - {root_node ?c}"
    show "0 \<le> lock_ref (nodes ?c n)" using lock_nonneg [OF lk] n by simp
    show "lock_ref (nodes ?c n) = int (H n) + (\<Sum>y\<in>kids c L n. lock_ref (nodes c y))"
      using lk n unfolding locks_ok_def by simp
  qed
  moreover have "sizes_ok ?c (L - {x})"
  proof -
    have len: "length (node_value (nodes c x)) = key_len (node_key (nodes c x))"
      using tree_nodeE [OF wf x(1,2)] by metis
    have "ranked_size ?c (L - {x}) b r = ranked_size c L b r -
        (if node_dp_rank (nodes c x) = r \<and> \<not> b then int (length (node_value (nodes c x))) else 0)" for b r
    proof -
      have "finite (L - {root_node c})" "x \<in> L - {root_node c}" "L - {x} - {root_node c} = L - {root_node c} - {x}"
        using tree_wfD(1) [OF wf] x by auto
      then show ?thesis unfolding ranked_size_def using x(4) by (simp add: sum.remove [of _ x] cong: if_cong)
    qed
    moreover have "evictable_sizes ?c = (evictable_sizes c)(node_dp_rank (nodes c x) :=
        evictable_sizes c (node_dp_rank (nodes c x)) - int (key_len (node_key (nodes c x))))" by (simp add: cut_heap_def Let_def)
    ultimately show ?thesis using radix_invD(3) [OF inv] len by (auto simp: sizes_ok_def)
  qed
  ultimately show ?thesis using that [OF m(1,5) _ m(2,3)] wf' by (simp add: radix_inv_def)
qed


section \<open>Slots\<close>

text \<open>The slots that the tree holds for a rank are separate from the allocator's free ones.\<close>

definition slots_ok :: "radix_cache \<Rightarrow> nat set \<Rightarrow> bool" where
  "slots_ok c L \<longleftrightarrow>
     (\<forall>n\<in>L - {root_node c}. sub_ok (kv_allocator c) (node_dp_rank (nodes c n)) \<and> sub_whole (kv_allocator c) (node_value (nodes c n))) \<and>
     (\<forall>r. sub_ok (kv_allocator c) r \<longrightarrow> set_mset (tree_slots c L r) \<subseteq> sub_slots (kv_allocator c) r \<and>
        (\<forall>s. count (mset (sub_avail (kv_allocator c) r) + tree_slots c L r) s \<le> 1))"

lemma count_le_1_distinct: "(\<forall>a. count (mset xs) a \<le> 1) \<Longrightarrow> distinct xs"
proof (induction xs)
  case (Cons x xs)
  have "count (mset xs) a \<le> 1" for a
    using le_trans [OF _ Cons.prems [rule_format, of a], of "count (mset xs) a"] by simp
  moreover have "x \<notin> set xs" using Cons.prems [rule_format, of x] by auto
  ultimately show ?case using Cons.IH by simp
qed simp

lemma tree_slots_remove:
  assumes "finite L" "x \<in> L" "x \<noteq> root_node c"
  shows "tree_slots c L r = tree_slots c (L - {x}) r + (if node_dp_rank (nodes c x) = r then mset (node_value (nodes c x)) else {#})"
proof (cases "node_dp_rank (nodes c x) = r")
  case True
  have "{n \<in> L - {x} - {root_node c}. node_dp_rank (nodes c n) = r} = {n \<in> L - {root_node c}. node_dp_rank (nodes c n) = r} - {x}" by auto
  then show ?thesis
    unfolding tree_slots_def using assms True by (simp add: sum.remove [of _ x] add.commute)
next
  case False
  then have "{n \<in> L - {x} - {root_node c}. node_dp_rank (nodes c n) = r} = {n \<in> L - {root_node c}. node_dp_rank (nodes c n) = r}" by auto
  then show ?thesis unfolding tree_slots_def using False by simp
qed

text \<open>Freeing for one rank leaves the others alone.\<close>

lemma sub_free_other:
  assumes "sub_free xs r s = Inr s'" "q \<noteq> r"
  shows "sub_avail s' q = sub_avail s q"
  using assms
  by (cases s) (auto simp: rbind_eq_Inr_iff token_free_def paged_free_def paged_release_def paged_avail_def Let_def split: if_splits)

lemma sub_ok_rank: "sub_ok s r \<Longrightarrow> sub_ok s' r \<Longrightarrow> sub_free xs r s = Inr s' \<Longrightarrow> sub_ok s' q = sub_ok s q"
  by (cases s) (auto simp: rbind_eq_Inr_iff token_free_def paged_free_def paged_release_def Let_def split: if_splits)

lemma evict_free:
  assumes wf: "tree_wf c L P" and ok: "slots_ok c L" and x: "x \<in> L" "x \<noteq> root_node c"
  defines "r \<equiv> node_dp_rank (nodes c x)" and "xs \<equiv> node_value (nodes c x)"
  shows "\<exists>al. sub_free xs r (kv_allocator c) = Inr al \<and> sub_slots al = sub_slots (kv_allocator c) \<and>
    sub_whole al = sub_whole (kv_allocator c) \<and> (\<forall>q. sub_ok al q = sub_ok (kv_allocator c) q) \<and>
    (\<forall>q. mset (sub_avail al q) = mset (sub_avail (kv_allocator c) q) + (if q = r then mset xs else {#}))"
proof -
  note fin = tree_wfD(1) [OF wf]
  note rem = tree_slots_remove [OF fin x, folded r_def xs_def]
  have o: "sub_ok (kv_allocator c) r" "sub_whole (kv_allocator c) xs" using ok x by (auto simp: slots_ok_def r_def xs_def)
  have "set_mset (tree_slots c L r) \<subseteq> sub_slots (kv_allocator c) r" using ok o(1) by (simp add: slots_ok_def)
  with rem [of r] have sub: "set xs \<subseteq> sub_slots (kv_allocator c) r" by auto
  have dis: "distinct (sub_avail (kv_allocator c) r @ xs)"
  proof (rule count_le_1_distinct, rule allI)
    fix a
    have "count (mset (sub_avail (kv_allocator c) r) + tree_slots c L r) a \<le> 1" using ok o(1) by (simp add: slots_ok_def)
    then show "count (mset (sub_avail (kv_allocator c) r @ xs)) a \<le> 1" unfolding rem by simp
  qed
  from sub.free_law [OF o dis sub] obtain al where al: "sub_free xs r (kv_allocator c) = Inr al" "sub_ok al r"
    "sub_slots al = sub_slots (kv_allocator c)" "sub_whole al = sub_whole (kv_allocator c)"
    "mset (sub_avail al r) = mset (sub_avail (kv_allocator c) r) + mset xs" by blast
  with sub_free_other [OF al(1)] sub_ok_rank [OF o(1) al(2,1)] show ?thesis
    by (intro exI [of _ al]) auto
qed


section \<open>Eviction\<close>

definition rank_match :: "nat option \<Rightarrow> nat \<Rightarrow> bool" where
  "rank_match dp r \<longleftrightarrow> dp = None \<or> dp = Some r"

text \<open>\<open>evicted\<close>: from \<open>L\<close> to \<open>L'\<close> unlocked nodes of the wanted rank were unlinked, \<open>k\<close> tokens in all, and their
  slots went to the allocator.\<close>

definition evicted :: "nat option \<Rightarrow> radix_cache \<Rightarrow> nat set \<Rightarrow> nat \<Rightarrow> radix_cache \<Rightarrow> nat set \<Rightarrow> bool" where
  "evicted dp c L k c' L' \<longleftrightarrow> L' \<subseteq> L \<and> root_node c \<in> L' \<and> root_node c' = root_node c \<and> cache_page_size c' = cache_page_size c \<and>
     k = (\<Sum>n\<in>L - L'. length (node_value (nodes c n))) \<and>
     (\<forall>n\<in>L - L'. lock_ref (nodes c n) = 0 \<and> rank_match dp (node_dp_rank (nodes c n))) \<and>
     (\<forall>n. node_key (nodes c' n) = node_key (nodes c n) \<and> node_value (nodes c' n) = node_value (nodes c n) \<and>
        lock_ref (nodes c' n) = lock_ref (nodes c n)) \<and>
     sub_slots (kv_allocator c') = sub_slots (kv_allocator c) \<and> sub_whole (kv_allocator c') = sub_whole (kv_allocator c) \<and>
     sub_ok (kv_allocator c') = sub_ok (kv_allocator c) \<and>
     (\<forall>r. mset (sub_avail (kv_allocator c') r) = mset (sub_avail (kv_allocator c) r) + tree_slots c (L - L') r)"

lemma evicted_refl: "root_node c \<in> L \<Longrightarrow> evicted dp c L 0 c L"
  by (simp add: evicted_def tree_slots_def)

lemma node_dp_rank_cong: "node_key nd = node_key nd' \<Longrightarrow> node_dp_rank nd = node_dp_rank nd'"
  by (simp add: node_dp_rank_def)

lemma evicted_trans:
  assumes fin: "finite L" and a: "evicted dp c L k c1 L1" and b: "evicted dp c1 L1 k1 c2 L2"
  shows "evicted dp c L (k + k1) c2 L2"
proof -
  have sub: "L2 \<subseteq> L1" "L1 \<subseteq> L" "root_node c \<in> L2" "root_node c1 = root_node c" using a b by (auto simp: evicted_def)
  have dj: "L - L2 = (L - L1) \<union> (L1 - L2)" "(L - L1) \<inter> (L1 - L2) = {}" using sub by auto
  have fins: "finite (L - L1)" "finite (L1 - L2)" using fin sub by (auto intro: finite_subset)
  have same: "node_key (nodes c1 n) = node_key (nodes c n)" "node_value (nodes c1 n) = node_value (nodes c n)"
    "lock_ref (nodes c1 n) = lock_ref (nodes c n)" "node_dp_rank (nodes c1 n) = node_dp_rank (nodes c n)" for n
    using a by (auto simp: evicted_def intro: node_dp_rank_cong)
  have k: "k + k1 = (\<Sum>n\<in>L - L2. length (node_value (nodes c n)))"
    unfolding dj(1) sum.union_disjoint [OF fins dj(2)] using a b by (simp add: evicted_def)
  have ts: "tree_slots c (L - L2) r = tree_slots c (L - L1) r + tree_slots c1 (L1 - L2) r" for r
  proof -
    have "{n \<in> L - L2 - {root_node c}. node_dp_rank (nodes c n) = r} =
        {n \<in> L - L1 - {root_node c}. node_dp_rank (nodes c n) = r} \<union> {n \<in> L1 - L2 - {root_node c1}. node_dp_rank (nodes c1 n) = r}"
      unfolding dj(1) same sub(4) by auto
    moreover have "sum f (A \<union> B) = sum f A + sum f B"
      if "A \<subseteq> L - L1" "B \<subseteq> L1 - L2" for A B and f :: "nat \<Rightarrow> int multiset"
      using that fins dj(2) by (intro sum.union_disjoint) (auto intro: finite_subset)
    ultimately show ?thesis
      unfolding tree_slots_def by (simp only: same sub(4)) (simp add: subset_eq)
  qed
  show ?thesis
    unfolding evicted_def
  proof (intro conjI allI ballI)
    show "mset (sub_avail (kv_allocator c2) r) = mset (sub_avail (kv_allocator c) r) + tree_slots c (L - L2) r" for r
      using a b ts [of r] by (simp add: evicted_def)
    show "lock_ref (nodes c n) = 0" "rank_match dp (node_dp_rank (nodes c n))" if "n \<in> L - L2" for n
    proof -
      from a b have "\<forall>n\<in>L - L1. lock_ref (nodes c n) = 0 \<and> rank_match dp (node_dp_rank (nodes c n))"
        "\<forall>n\<in>L1 - L2. lock_ref (nodes c1 n) = 0 \<and> rank_match dp (node_dp_rank (nodes c1 n))" by (auto simp: evicted_def)
      with that show "lock_ref (nodes c n) = 0" "rank_match dp (node_dp_rank (nodes c n))"
        unfolding dj(1) same by auto
    qed
  qed (use a b k sub in \<open>auto simp: evicted_def\<close>)
qed

lemma radix_inv_allocator [simp]: "radix_inv (c\<lparr>kv_allocator := al\<rparr>) L P H = radix_inv c L P H"
  unfolding radix_inv_def tree_wf_def node_ok_def children_ok_def locks_ok_def sizes_ok_def ranked_size_def kids_def
  by (cases c) (simp only: radix_cache.update_convs radix_cache.select_convs)

lemma evict_one:
  assumes inv: "radix_inv c L P H" and ok: "slots_ok c L"
    and x: "x \<in> L" "x \<noteq> root_node c" "children (nodes c x) = []" "lock_ref (nodes c x) = 0" "rank_match dp (node_dp_rank (nodes c x))"
  obtains al m c' where "sub_free (node_value (nodes c x)) (node_dp_rank (nodes c x)) (kv_allocator c) = Inr al"
    "parent (nodes c x) = Some m" "m \<in> L" "m \<noteq> x" "delete_leaf x (c\<lparr>kv_allocator := al\<rparr>) = Inr c'"
    "radix_inv c' (L - {x}) P H" "slots_ok c' (L - {x})" "evicted dp c L (length (node_value (nodes c x))) c' (L - {x})"
    "\<forall>n. n \<noteq> m \<longrightarrow> children (nodes c' n) = children (nodes c n)" "next_id c' = next_id c"
    "\<forall>n. last_access_time (nodes c' n) = last_access_time (nodes c n)"
proof -
  note wf = radix_invD(1) [OF inv]
  let ?r = "node_dp_rank (nodes c x)" and ?xs = "node_value (nodes c x)"
  from evict_free [OF wf ok x(1,2)] obtain al where al: "sub_free ?xs ?r (kv_allocator c) = Inr al" "sub_slots al = sub_slots (kv_allocator c)"
    "sub_whole al = sub_whole (kv_allocator c)" "\<forall>q. sub_ok al q = sub_ok (kv_allocator c) q"
    "\<forall>q. mset (sub_avail al q) = mset (sub_avail (kv_allocator c) q) + (if q = ?r then mset ?xs else {#})" by blast
  let ?c = "c\<lparr>kv_allocator := al\<rparr>"
  have inv': "radix_inv ?c L P H" using inv by simp
  obtain m ck where m: "parent (nodes ?c x) = Some m" "delete_leaf x ?c = Inr (cut_heap ?c m x ck)"
    "radix_inv (cut_heap ?c m x ck) (L - {x}) P H" "m \<in> L" "m \<noteq> x"
    by (rule cut_keeps [OF inv' x(1)]) (use x in auto)
  let ?c' = "cut_heap ?c m x ck"
  note rem = tree_slots_remove [OF tree_wfD(1) [OF wf] x(1,2)]
  have ts: "tree_slots ?c' (L - {x}) q = tree_slots c (L - {x}) q" for q by (simp add: tree_slots_def)
  have "slots_ok ?c' (L - {x})"
    unfolding slots_ok_def
  proof (intro conjI ballI allI impI)
    fix q assume "sub_ok (kv_allocator ?c') q"
    then have q: "sub_ok (kv_allocator c) q" using al(4) by simp
    have "set_mset (tree_slots c L q) \<subseteq> sub_slots (kv_allocator c) q" using ok q by (simp add: slots_ok_def)
    then show "set_mset (tree_slots ?c' (L - {x}) q) \<subseteq> sub_slots (kv_allocator ?c') q" unfolding ts using rem [of q] al(2) by auto
    fix s
    have "count (mset (sub_avail (kv_allocator c) q) + tree_slots c L q) s \<le> 1" using ok q by (simp add: slots_ok_def)
    then show "count (mset (sub_avail (kv_allocator ?c') q) + tree_slots ?c' (L - {x}) q) s \<le> 1"
      unfolding ts rem [of q] using al(5) by (auto simp: add.commute add.left_commute split: if_splits)
  qed (use ok al(3,4) in \<open>auto simp: slots_ok_def\<close>)
  moreover have "evicted dp c L (length ?xs) ?c' (L - {x})"
  proof -
    have e: "L - (L - {x}) = {x}" using x(1) by auto
    have "tree_slots c {x} q = (if q = ?r then mset ?xs else {#})" for q
    proof -
      have "{n \<in> {x} - {root_node c}. node_dp_rank (nodes c n) = q} = (if q = ?r then {x} else {})" using x(2) by auto
      then show ?thesis by (simp add: tree_slots_def)
    qed
    moreover have "sub_ok al = sub_ok (kv_allocator c)" using al(4) by (simp add: fun_eq_iff)
    ultimately show ?thesis unfolding evicted_def e using x tree_wfD(2) [OF wf] al(2,3,5) by auto
  qed
  ultimately show ?thesis using that [OF al(1) _ m(4,5,2,3)] m(1) by simp
qed


text \<open>The leaves in the heap: distinct leaves of the tree, among them every one that may be evicted.\<close>

definition heap_ok :: "nat option \<Rightarrow> radix_cache \<Rightarrow> nat set \<Rightarrow> nat list \<Rightarrow> bool" where
  "heap_ok dp c L leaves \<longleftrightarrow> distinct leaves \<and> set leaves \<subseteq> {n \<in> L. children (nodes c n) = []} \<and>
     (\<forall>n\<in>L - {root_node c}. children (nodes c n) = [] \<longrightarrow> lock_ref (nodes c n) = 0 \<longrightarrow> rank_match dp (node_dp_rank (nodes c n)) \<longrightarrow>
        n \<in> set leaves)"

lemma no_leaf_no_node:
  assumes inv: "radix_inv c L P H" and h: "heap_ok dp c L []" and n: "n \<in> L" "n \<noteq> root_node c"
  shows "lock_ref (nodes c n) > 0 \<or> \<not> rank_match dp (node_dp_rank (nodes c n))"
  using n
proof (induction "Max ((\<lambda>x. length (P x)) ` L) - length (P n)" arbitrary: n rule: less_induct)
  case less
  note wf = radix_invD(1) [OF inv]
  show ?case
  proof (cases "children (nodes c n) = []")
    case True
    with h less.prems have "lock_ref (nodes c n) \<noteq> 0 \<or> \<not> rank_match dp (node_dp_rank (nodes c n))" by (auto simp: heap_ok_def)
    with lock_nonneg [OF radix_invD(2) [OF inv] less.prems] show ?thesis by auto
  next
    case False
    then obtain m where "m \<in> kids c L n" using children_kids(1) [OF wf less.prems(1)] by (metis ex_in_conv map_is_Nil_conv set_empty)
    then have m: "m \<in> L" "m \<noteq> root_node c" "parent (nodes c m) = Some n" by (auto simp: kids_def)
    from tree_nodeE [OF wf m(1,2)] m(3) have e: "P m = P n @ node_path (nodes c m)" "node_path (nodes c m) \<noteq> []"
      "key_ns (node_key (nodes c n)) = key_ns (node_key (nodes c m))" "token_ids (node_key (nodes c m)) \<noteq> []"
      using less.prems(2) by (metis option.inject, metis key_len_0 length_0_conv, metis option.inject, metis)
    have "token_ids (node_key (nodes c n)) \<noteq> []" using tree_nodeE [OF wf less.prems] by metis
    with e(3,4) have r: "node_dp_rank (nodes c n) = node_dp_rank (nodes c m)" by (simp add: node_dp_rank_def key_ns_def)
    have "length (P m) \<le> Max ((\<lambda>x. length (P x)) ` L)" using m(1) tree_wfD(1) [OF wf] by simp
    moreover have "length (P n) < length (P m)" using e(1,2) by simp
    ultimately have "Max ((\<lambda>x. length (P x)) ` L) - length (P m) < Max ((\<lambda>x. length (P x)) ` L) - length (P n)" by linarith
    from less.hyps [OF this m(1,2)] r parent_lock_ge [OF inv m less.prems(2)] show ?thesis by auto
  qed
qed

lemma root_leaf_alone:
  assumes wf: "tree_wf c L P" and r: "children (nodes c (root_node c)) = []"
  shows "L = {root_node c}"
proof (rule ccontr)
  assume "L \<noteq> {root_node c}"
  then obtain n where n: "n \<in> L" "n \<noteq> root_node c" using tree_wfD(2) [OF wf] by auto
  then have "P n \<noteq> []" using path_Nil_root [OF wf] by simp
  then obtain n0 where n0: "n0 \<in> L" "n0 \<noteq> root_node c" "length (P n0) - key_len (node_key (nodes c n0)) \<le> 0"
    using path_cover [OF wf n(1), of 0] by auto
  from tree_nodeE [OF wf n0(1,2)] obtain m ck where m: "m \<in> L" "P n0 = P m @ node_path (nodes c n0)" "(ck, n0) \<in> set (children (nodes c m))"
    "length (node_path (nodes c n0)) = key_len (node_key (nodes c n0))" by metis
  then have "P m = []" using n0(3) by simp
  then have "m = root_node c" using path_Nil_root [OF wf m(1)] by simp
  with m(3) r show False by simp
qed

lemma evict_round:
  assumes "leaves \<noteq> []" "int k0 < num" "i = pick (map (\<lambda>n. last_access_time (nodes c n)) leaves)" "x = leaves ! i"
    "rest = take i leaves @ drop (Suc i) leaves"
  shows "evict_loop (Suc fuel) pick num dp leaves k0 c =
      (if x = root_node c then Inr (k0, c)
        else if lock_ref (nodes c x) > 0 then evict_loop fuel pick num dp rest k0 c
        else if \<not> rank_match dp (node_dp_rank (nodes c x)) then evict_loop fuel pick num dp rest k0 c
        else rbind (sub_free (node_value (nodes c x)) (node_dp_rank (nodes c x)) (kv_allocator c)) (\<lambda>al.
          rbind (delete_leaf x (c\<lparr>kv_allocator := al\<rparr>)) (\<lambda>c'.
            case parent (nodes c x) of None \<Rightarrow> Inl AttributeError
            | Some par \<Rightarrow> evict_loop fuel pick num dp (if children (nodes c' par) = [] then rest @ [par] else rest)
                (k0 + length (node_value (nodes c x))) c')))"
proof -
  obtain l ls where l: "leaves = l # ls" using assms(1) by (cases leaves) auto
  show ?thesis
    unfolding l evict_loop.simps Let_def assms(3-5) [unfolded l] rank_match_def using assms(2)
    by (simp only: simp_thms if_True if_False de_Morgan_disj)
qed

lemma evict_loop_ok:
  assumes pick: "heap_pick pick" and "radix_inv c L P H" "slots_ok c L" "heap_ok dp c L leaves" "length leaves + card L \<le> fuel"
  shows "\<exists>k c' L'. evict_loop fuel pick num dp leaves k0 c = Inr (k0 + k, c') \<and> radix_inv c' L' P H \<and> slots_ok c' L' \<and>
    evicted dp c L k c' L' \<and>
    (num \<le> int (k0 + k) \<or> (\<forall>n\<in>L' - {root_node c}. lock_ref (nodes c' n) > 0 \<or> \<not> rank_match dp (node_dp_rank (nodes c' n))))"
  using assms(2-)
proof (induction fuel arbitrary: c L leaves k0)
  case 0
  then have "leaves = []" "L = {}" using tree_wfD(1,2) [OF radix_invD(1) [OF 0(1)]] by auto
  with tree_wfD(2) [OF radix_invD(1) [OF 0(1)]] show ?case by simp
next
  case (Suc fuel)
  note inv = Suc.prems(1) and ok = Suc.prems(2) and h = Suc.prems(3)
  note wf = radix_invD(1) [OF inv]
  note refl = evicted_refl [OF tree_wfD(2) [OF wf], of dp]
  show ?case
  proof (cases "leaves = [] \<or> \<not> int k0 < num")
    case True
    have "evict_loop (Suc fuel) pick num dp leaves k0 c = Inr (k0 + 0, c)" using True by (cases leaves) auto
    moreover have "num \<le> int (k0 + 0) \<or> (\<forall>n\<in>L - {root_node c}. lock_ref (nodes c n) > 0 \<or> \<not> rank_match dp (node_dp_rank (nodes c n)))"
      using True no_leaf_no_node [OF inv] h by auto
    ultimately show ?thesis using inv ok refl by blast
  next
    case False
    then obtain l ls where l: "leaves = l # ls" and lt: "int k0 < num" by (cases leaves) auto
    define i where "i = pick (map (\<lambda>n. last_access_time (nodes c n)) leaves)"
    define x where "x = leaves ! i"
    define rest where "rest = take i leaves @ drop (Suc i) leaves"
    have i: "i < length leaves" using pick l by (auto simp: heap_pick_def i_def)
    have ms: "mset leaves = add_mset x (mset rest)"
      unfolding rest_def x_def using id_take_nth_drop [OF i] by (metis mset_append mset.simps(2) union_mset_add_mset_right)
    then have st: "set leaves = insert x (set rest)" and ds: "distinct leaves \<longleftrightarrow> x \<notin> set rest \<and> distinct rest"
      using mset_eq_setD [of leaves "x # rest"] mset_eq_imp_distinct_iff [of leaves "x # rest"] by auto
    have len: "length rest = length leaves - 1" using i by (simp add: rest_def)
    have xl: "x \<in> L" "children (nodes c x) = []" using h st by (auto simp: heap_ok_def)
    let ?nd = "nodes c x"
    have run: "evict_loop (Suc fuel) pick num dp leaves k0 c =
      (if x = root_node c then Inr (k0, c)
        else if lock_ref ?nd > 0 then evict_loop fuel pick num dp rest k0 c
        else if \<not> rank_match dp (node_dp_rank ?nd) then evict_loop fuel pick num dp rest k0 c
        else rbind (sub_free (node_value ?nd) (node_dp_rank ?nd) (kv_allocator c)) (\<lambda>al.
          rbind (delete_leaf x (c\<lparr>kv_allocator := al\<rparr>)) (\<lambda>c.
            case parent ?nd of None \<Rightarrow> Inl AttributeError
            | Some par \<Rightarrow> evict_loop fuel pick num dp (if children (nodes c par) = [] then rest @ [par] else rest)
                (k0 + length (node_value ?nd)) c)))"
      by (rule evict_round) (use lt in \<open>simp_all add: l i_def x_def rest_def\<close>)
    show ?thesis
    proof (cases "x = root_node c")
      case True
      then have "L = {root_node c}" using root_leaf_alone [OF wf] xl(2) by simp
      then show ?thesis using run True inv ok refl by (intro exI [of _ 0] exI [of _ c] exI [of _ L]) auto
    next
      case xr: False
      show ?thesis
      proof (cases "lock_ref ?nd > 0 \<or> \<not> rank_match dp (node_dp_rank ?nd)")
        case True
        have "heap_ok dp c L rest" using h st ds True by (auto simp: heap_ok_def)
        from Suc.IH [OF inv ok this, of k0] len i Suc.prems(4) run xr True show ?thesis by auto
      next
        case F: False
        with lock_nonneg [OF radix_invD(2) [OF inv] xl(1) xr] have x0: "lock_ref ?nd = 0" and xm: "rank_match dp (node_dp_rank ?nd)" by auto
        obtain al m c' where e: "sub_free (node_value ?nd) (node_dp_rank ?nd) (kv_allocator c) = Inr al"
          "parent ?nd = Some m" "m \<in> L" "m \<noteq> x" "delete_leaf x (c\<lparr>kv_allocator := al\<rparr>) = Inr c'"
          "radix_inv c' (L - {x}) P H" "slots_ok c' (L - {x})" "evicted dp c L (length (node_value ?nd)) c' (L - {x})"
          "\<forall>n. n \<noteq> m \<longrightarrow> children (nodes c' n) = children (nodes c n)" "next_id c' = next_id c"
          "\<forall>n. last_access_time (nodes c' n) = last_access_time (nodes c n)"
          by (rule evict_one [OF inv ok xl(1) xr xl(2) x0 xm])
        let ?leaves = "if children (nodes c' m) = [] then rest @ [m] else rest"
        have same: "lock_ref (nodes c' n) = lock_ref (nodes c n)" "node_dp_rank (nodes c' n) = node_dp_rank (nodes c n)" for n
          using e(8) by (auto simp: evicted_def intro: node_dp_rank_cong)
        have rt: "root_node c' = root_node c" using e(8) by (simp add: evicted_def)
        have "x \<in> kids c L m" using xl(1) xr e(2) by (simp add: kids_def)
        then have mch: "children (nodes c m) \<noteq> []" using children_kids(1) [OF wf e(3)] by auto
        then have mrest: "m \<notin> set leaves" using h by (auto simp: heap_ok_def)
        have "heap_ok dp c' (L - {x}) ?leaves"
          unfolding heap_ok_def
        proof (intro conjI ballI impI)
          show "distinct ?leaves" using h ds mrest st by (auto simp: heap_ok_def)
          show "set ?leaves \<subseteq> {n \<in> L - {x}. children (nodes c' n) = []}"
          proof
            fix n assume n: "n \<in> set ?leaves"
            show "n \<in> {n \<in> L - {x}. children (nodes c' n) = []}"
            proof (cases "n = m")
              case True
              with n e(3,4) mrest st show ?thesis by (auto split: if_splits)
            next
              case False
              with n have "n \<in> set rest" by (auto split: if_splits)
              with False h st ds e(9) show ?thesis by (auto simp: heap_ok_def)
            qed
          qed
          fix n assume n: "n \<in> L - {x} - {root_node c'}" "children (nodes c' n) = []" "lock_ref (nodes c' n) = 0"
            "rank_match dp (node_dp_rank (nodes c' n))"
          show "n \<in> set ?leaves"
          proof (cases "n = m")
            case False
            with n e(9) have "children (nodes c n) = []" by simp
            with h n st same rt show ?thesis by (auto simp: heap_ok_def)
          qed (use n in simp)
        qed
        moreover have "length ?leaves + card (L - {x}) \<le> fuel"
        proof -
          have "card (L - {x}) = card L - 1" "0 < card L" using xl(1) tree_wfD(1) [OF wf] by (auto simp: card_gt_0_iff)
          then show ?thesis using Suc.prems(4) len i by (auto split: if_splits)
        qed
        ultimately obtain k c'' L'' where ih: "evict_loop fuel pick num dp ?leaves (k0 + length (node_value ?nd)) c' = Inr (k0 + length (node_value ?nd) + k, c'')"
          "radix_inv c'' L'' P H" "slots_ok c'' L''" "evicted dp c' (L - {x}) k c'' L''"
          "num \<le> int (k0 + length (node_value ?nd) + k) \<or> (\<forall>n\<in>L'' - {root_node c'}. lock_ref (nodes c'' n) > 0 \<or> \<not> rank_match dp (node_dp_rank (nodes c'' n)))"
          using Suc.IH [OF e(6,7), of ?leaves "k0 + length (node_value ?nd)"] by blast
        have "evict_loop (Suc fuel) pick num dp leaves k0 c = Inr (k0 + (length (node_value ?nd) + k), c'')"
          using run xr F e(1,2,5) ih(1) by (simp add: add.assoc)
        with ih evicted_trans [OF tree_wfD(1) [OF wf] e(8) ih(4)] rt show ?thesis
          by (intro exI [of _ "length (node_value ?nd) + k"] exI [of _ c''] exI [of _ L'']) (simp add: add.assoc)
      qed
    qed
  qed
qed


lemma evict_ok:
  assumes "heap_pick pick" "radix_inv c L P H" "slots_ok c L" "\<not> disable c"
  shows "\<exists>k c' L'. evict pick num_tokens (Some r) c = Inr (k, c') \<and> radix_inv c' L' P H \<and> slots_ok c' L' \<and>
    L' \<subseteq> L \<and> (\<forall>n\<in>L - L'. lock_ref (nodes c n) = 0 \<and> node_dp_rank (nodes c n) = r) \<and> (\<forall>n\<in>L. 0 < H n \<longrightarrow> n \<in> L') \<and>
    k = (\<Sum>n\<in>L - L'. length (node_value (nodes c n))) \<and>
    (\<forall>q. mset (sub_avail (kv_allocator c') q) = mset (sub_avail (kv_allocator c) q) + tree_slots c (L - L') q) \<and>
    min num_tokens (evictable_size r c) \<le> int k \<and> evicted (Some r) c L k c' L'"
proof -
  note wf = radix_invD(1) [OF assms(2)]
  from collect_leaves_ok [OF wf] obtain ls where ls: "collect_leaves c = Inr ls" "distinct ls" "set ls = {n \<in> L. children (nodes c n) = []}" by blast
  then have "heap_ok (Some r) c L ls" by (auto simp: heap_ok_def)
  from evict_loop_ok [OF assms(1,2,3) this, of "length ls + next_id c" num_tokens 0] card_le_next_id [OF wf]
  obtain k c' L' where e: "evict_loop (length ls + next_id c) pick num_tokens (Some r) ls 0 c = Inr (k, c')" "radix_inv c' L' P H" "slots_ok c' L'"
    "evicted (Some r) c L k c' L'"
    "num_tokens \<le> int k \<or> (\<forall>n\<in>L' - {root_node c}. lock_ref (nodes c' n) > 0 \<or> \<not> rank_match (Some r) (node_dp_rank (nodes c' n)))" by auto
  have ev: "evict pick num_tokens (Some r) c = Inr (k, c')" using assms(4) ls(1) e(1) by (simp add: evict_def)
  from e(4) have d: "L' \<subseteq> L" "root_node c \<in> L'" "\<forall>n\<in>L - L'. lock_ref (nodes c n) = 0 \<and> node_dp_rank (nodes c n) = r"
    "k = (\<Sum>n\<in>L - L'. length (node_value (nodes c n)))" by (auto simp: evicted_def rank_match_def)
  have same: "lock_ref (nodes c' n) = lock_ref (nodes c n)" "node_dp_rank (nodes c' n) = node_dp_rank (nodes c n)" for n
    using e(4) by (auto simp: evicted_def intro: node_dp_rank_cong)
  have held: "n \<in> L'" if "n \<in> L" "0 < H n" for n
  proof (rule ccontr)
    assume "n \<notin> L'"
    with that d(2,3) have "n \<noteq> root_node c" "lock_ref (nodes c n) = 0" by auto
    with held_locked [OF assms(2) that(1) _ that(2)] show False by simp
  qed
  have "min num_tokens (evictable_size r c) \<le> int k"
  proof (cases "num_tokens \<le> int k")
    case False
    with e(5) same have lk: "\<forall>n\<in>L' - {root_node c}. \<not> (node_dp_rank (nodes c n) = r \<and> \<not> lock_ref (nodes c n) > 0)"
      by (auto simp: rank_match_def)
    have split: "L - {root_node c} = (L - L') \<union> (L' - {root_node c})" using d(1,2) by auto
    have "evictable_size r c = (\<Sum>n\<in>L - {root_node c}. if node_dp_rank (nodes c n) = r \<and> \<not> lock_ref (nodes c n) > 0
        then int (length (node_value (nodes c n))) else 0)"
      using radix_invD(3) [OF assms(2)] by (simp add: evictable_size_def sizes_ok_def ranked_size_def)
    also have "\<dots> = (\<Sum>n\<in>L - L'. if node_dp_rank (nodes c n) = r \<and> \<not> lock_ref (nodes c n) > 0 then int (length (node_value (nodes c n))) else 0) +
        (\<Sum>n\<in>L' - {root_node c}. if node_dp_rank (nodes c n) = r \<and> \<not> lock_ref (nodes c n) > 0 then int (length (node_value (nodes c n))) else 0)"
      unfolding split using tree_wfD(1) [OF wf] d(1) by (intro sum.union_disjoint) (auto intro: finite_subset)
    also have "(\<Sum>n\<in>L' - {root_node c}. if node_dp_rank (nodes c n) = r \<and> \<not> lock_ref (nodes c n) > 0 then int (length (node_value (nodes c n))) else 0) = 0"
      by (rule sum.neutral) (use lk in auto)
    finally have "evictable_size r c = int k" using d(3,4) by simp
    then show ?thesis by simp
  qed simp
  with ev e(2-4) d held show ?thesis by (intro exI [of _ k] exI [of _ c'] exI [of _ L']) (auto simp: evicted_def)
qed

section \<open>Properties\<close>

lemma heap_pick_exists: "\<exists>pick. heap_pick pick"
proof -
  define pick where "pick ts = (LEAST i. i < length ts \<and> (\<forall>t\<in>set ts. ts ! i \<le> t))" for ts :: "int list"
  have "heap_pick pick"
    unfolding heap_pick_def
  proof (intro allI impI)
    fix ts :: "int list" assume ne: "ts \<noteq> []"
    have "Min (set ts) \<in> set ts" using ne by simp
    then obtain i where "i < length ts" "ts ! i = Min (set ts)" by (metis in_set_conv_nth)
    then have "i < length ts \<and> (\<forall>t\<in>set ts. ts ! i \<le> t)" by simp
    then show "pick ts < length ts \<and> (\<forall>t\<in>set ts. ts ! pick ts \<le> t)" unfolding pick_def by (rule LeastI)
  qed
  then show ?thesis by blast
qed

text \<open>A cache with one evictable leaf, for the example: the allocator has handed out all of its eight slots,
  two of which the leaf holds.\<close>

definition demo_evictable :: radix_cache where
  "demo_evictable = (demo_fresh 2)
     \<lparr>nodes := (\<lambda>n. if n = 0 then \<lparr>children = [(With_Both ''lora'' 0 (Page [Tok_Id 7, Tok_Id 9]), 1)], parent = None,
          node_key = \<lparr>token_ids = [], extra_key = None, key_dp_rank = None\<rparr>, node_value = [], lock_ref = 1, last_access_time = 5\<rparr>
        else \<lparr>children = [], parent = Some 0, node_key = demo_key [7, 9], node_value = [3, 4], lock_ref = 0, last_access_time = 6\<rparr>),
      next_id := 2, root_node := 0, evictable_sizes := (\<lambda>_. 0)(0 := 2)\<rparr>"

lemma demo_evictable_ok:
  "radix_inv demo_evictable {0, 1} (\<lambda>n. if n = 1 then [(Tok_Id 7, 3), (Tok_Id 9, 4)] else []) (\<lambda>_. 0)" "slots_ok demo_evictable {0, 1}"
proof -
  have l: "{0, 1} - {0 :: nat} = {1}" "{0, Suc 0} - {0} = {Suc 0}" by auto
  have k: "{m \<in> {Suc 0}. P m} = (if P (Suc 0) then {Suc 0} else {})" for P by auto
  show "radix_inv demo_evictable {0, 1} (\<lambda>n. if n = 1 then [(Tok_Id 7, 3), (Tok_Id 9, 4)] else []) (\<lambda>_. 0)"
    by (simp add: radix_inv_def tree_wf_def locks_ok_def sizes_ok_def ranked_size_def children_ok_def node_ok_def kids_def demo_evictable_def
        demo_fresh_def demo_key_def key_len_def node_path_def node_dp_rank_def get_child_key_def plain_key_of_def l k)
  show "slots_ok demo_evictable {0, 1}"
  proof -
    have d: "root_node demo_evictable = 0" "node_dp_rank (nodes demo_evictable 1) = 0" "node_value (nodes demo_evictable 1) = [3, 4]"
      "sub_ok (kv_allocator demo_evictable) r \<longleftrightarrow> r = 0" "sub_whole (kv_allocator demo_evictable) xs"
      "sub_slots (kv_allocator demo_evictable) 0 = {1..8}" "sub_avail (kv_allocator demo_evictable) 0 = []" for r xs
      by (auto simp: demo_evictable_def demo_fresh_def demo_key_def node_dp_rank_def token_inv_def rank_ok_def)
    have "{n \<in> {0, 1} - {0}. node_dp_rank (nodes demo_evictable n) = 0} = {1}" using d(2) by auto
    then have "tree_slots demo_evictable {0, 1} 0 = {#3, 4#}" unfolding tree_slots_def d(1) using d(3) by simp
    then show ?thesis unfolding slots_ok_def d(1,4) l using d(2) by (auto simp: d(5,6,7))
  qed
qed

text \<open>C6. Eviction is safe and makes progress. On a well-formed cache \<open>evict\<close> of a rank does not raise; it
  unlinks unlocked nodes of that rank only, so every node a client holds stays; the count it returns is
  the number of tokens unlinked and exactly their slots go back to the allocator; the invariant holds
  afterwards; and it frees at least what was asked for, or else everything that was evictable.\<close>

theorem radix_evict_correct:
  assumes "heap_pick pick" "radix_inv c L P H" "slots_ok c L" "\<not> disable c"
  shows "\<exists>k c' L'. evict pick num_tokens (Some r) c = Inr (k, c') \<and> radix_inv c' L' P H \<and> slots_ok c' L' \<and>
    L' \<subseteq> L \<and> (\<forall>n\<in>L - L'. lock_ref (nodes c n) = 0 \<and> node_dp_rank (nodes c n) = r) \<and> (\<forall>n\<in>L. 0 < H n \<longrightarrow> n \<in> L') \<and>
    k = (\<Sum>n\<in>L - L'. length (node_value (nodes c n))) \<and>
    (\<forall>q. mset (sub_avail (kv_allocator c') q) = mset (sub_avail (kv_allocator c) q) + tree_slots c (L - L') q) \<and>
    min num_tokens (evictable_size r c) \<le> int k"
  using evict_ok [OF assms, of num_tokens r] by (elim exE conjE) (intro exI conjI; assumption)

theorem radix_evict_correct_witness:
  "\<exists>pick k c'. heap_pick pick \<and> evict pick 1 (Some 0) demo_evictable = Inr (k, c') \<and> 1 \<le> k"
proof -
  obtain pick where "heap_pick pick" using heap_pick_exists by blast
  moreover have "evictable_size 0 demo_evictable = 2" "\<not> disable demo_evictable" by (simp_all add: evictable_size_def demo_evictable_def demo_fresh_def)
  ultimately obtain k c' where "evict pick 1 (Some 0) demo_evictable = Inr (k, c')" "min 1 (evictable_size 0 demo_evictable) \<le> int k"
    using radix_evict_correct [OF _ demo_evictable_ok(1,2), of pick 1 0] by blast
  with \<open>heap_pick pick\<close> \<open>evictable_size 0 demo_evictable = 2\<close> show ?thesis by auto
qed

end
