(* ===== verification/Dp_Routing.thy ===== *)
theory Dp_Routing
  imports Sgl_Prelude
begin

text \<open>
  Data-parallel routing of incoming requests: the load snapshot and the per-round router of
  \<open>managers/dp_load.py\<close>, the three rank pickers and the probe key of
  \<open>managers/dp_schedule_policy.py\<close>, the intake pass of \<open>managers/dp_rank_assignment.py\<close> and the
  scheduler method \<open>select_dp_for_request\<close> that composes them. Ranks and token counts are Python
  integers. \<open>estimate_io\<close> and \<open>lookup_prefix\<close> are arguments in the source and here; the prefix
  probe may change the cache (it refreshes and splits nodes), so it threads a cache state \<open>'c\<close>.
\<close>

section \<open>\<open>min\<close> with a key, over a list whose keys may raise\<close>

definition py_min_by :: "('a \<Rightarrow> 'k::linorder result) \<Rightarrow> 'a list \<Rightarrow> 'a result" where
  "py_min_by f xs = rbind (map_m f xs) (\<lambda>ks.
     if xs = [] then Inl ValueError else Inr (fst (arg_min_list snd (zip xs ks))))"

lemma arg_min_list_zip:
  "xs \<noteq> [] \<Longrightarrow> fst (arg_min_list snd (zip xs (map g xs))) = arg_min_list g xs
     \<and> snd (arg_min_list snd (zip xs (map g xs))) = g (arg_min_list g xs)"
  by (induction xs rule: induct_list012) (auto simp: Let_def)

lemma py_min_by_total:
  assumes "xs \<noteq> []" "\<And>x. x \<in> set xs \<Longrightarrow> f x = Inr (g x)"
  shows "py_min_by f xs = Inr (arg_min_list g xs)"
  using assms by (simp add: py_min_by_def map_m_total [of xs f g] arg_min_list_zip)

section \<open>The load snapshot\<close>

record dp_load_snapshot =
  snap_counts :: "int list"
  snap_inputs :: "int list"
  snap_outputs :: "int list"
  snap_limits :: "int list"

definition np_add :: "int list \<Rightarrow> int \<Rightarrow> int \<Rightarrow> int list result" where
  "np_add xs i d = rbind (np_get xs i) (\<lambda>v. np_set xs i (v + d))"

lemma np_add_in_range [simp]:
  "0 \<le> i \<Longrightarrow> i < int (length xs) \<Longrightarrow> np_add xs i d = Inr (xs[nat i := xs ! nat i + d])"
  by (simp add: np_add_def)

text \<open>The dictionary \<open>seen\<close> and the three counter lists of \<open>DpLoadSnapshot.collect\<close>, and one
  iteration of its loop. \<open>ident\<close> is Python's \<open>id\<close> and \<open>fin\<close> the method \<open>finished\<close>.\<close>

record dp_tally =
  seen :: "nat \<Rightarrow> int option"
  tally_counts :: "int list"
  tally_inputs :: "int list"
  tally_outputs :: "int list"

definition collect_step ::
    "('r \<Rightarrow> nat) \<Rightarrow> ('r \<Rightarrow> bool) \<Rightarrow> ('r \<Rightarrow> int \<times> int) \<Rightarrow> int \<Rightarrow> int \<times> 'r \<Rightarrow> dp_tally \<Rightarrow> dp_tally result" where
  "collect_step ident fin estimate_io dp_size rr t = (case rr of (rank, req) \<Rightarrow>
     if \<not> (0 \<le> rank \<and> rank < dp_size) then Inl ValueError
     else case seen t (ident req) of
       Some r \<Rightarrow> if r \<noteq> rank then Inl ValueError else Inr t
     | None \<Rightarrow>
         let t1 = t\<lparr>seen := (seen t)(ident req \<mapsto> rank)\<rparr> in
         if fin req then Inr t1
         else let (in_tokens, out_tokens) = estimate_io req in
           rbind (np_add (tally_counts t1) rank 1) (\<lambda>cs.
           rbind (np_add (tally_inputs t1) rank in_tokens) (\<lambda>ins.
           rbind (np_add (tally_outputs t1) rank out_tokens) (\<lambda>outs.
             Inr (t1\<lparr>tally_counts := cs, tally_inputs := ins, tally_outputs := outs\<rparr>)))))"

definition collect ::
    "('r \<Rightarrow> nat) \<Rightarrow> ('r \<Rightarrow> bool) \<Rightarrow> ('r \<Rightarrow> int \<times> int) \<Rightarrow> int \<Rightarrow> (int \<times> 'r) list \<Rightarrow> int list
      \<Rightarrow> dp_load_snapshot result" where
  "collect ident fin estimate_io dp_size requests limits =
     (let zeros = replicate (nat dp_size) 0 in
      rbind (for_m (collect_step ident fin estimate_io dp_size) requests
          \<lparr>seen = Map.empty, tally_counts = zeros, tally_inputs = zeros, tally_outputs = zeros\<rparr>)
        (\<lambda>t. Inr \<lparr>snap_counts = tally_counts t, snap_inputs = tally_inputs t,
                snap_outputs = tally_outputs t, snap_limits = limits\<rparr>))"

section \<open>The rank pickers\<close>

text \<open>\<open>min(ranks, key=lambda r: (counts[r], token_counts[r], r))\<close>.\<close>

definition load_key :: "int list \<Rightarrow> int list \<Rightarrow> int \<Rightarrow> (int \<times> int \<times> int) result" where
  "load_key cs toks r = rbind (np_get cs r) (\<lambda>c. rbind (np_get toks r) (\<lambda>t. Inr (c, t, r)))"

definition least_loaded :: "int list \<Rightarrow> int list \<Rightarrow> int list \<Rightarrow> int result" where
  "least_loaded cs toks ranks = py_min_by (load_key cs toks) ranks"

definition shape_score :: "int list \<Rightarrow> int list \<Rightarrow> int \<Rightarrow> int \<Rightarrow> int \<Rightarrow> (int \<times> int \<times> int) result" where
  "shape_score ins outs item_in item_out r =
     rbind (np_get ins r) (\<lambda>i. rbind (np_get outs r) (\<lambda>ou.
       let after_in = i + item_in; after_out = ou + item_out in
       Inr (max after_in after_out, after_in + after_out, r)))"

definition pick_shape_aware_dp ::
    "int list \<Rightarrow> int list \<Rightarrow> int list \<Rightarrow> int \<Rightarrow> int \<Rightarrow> int option result" where
  "pick_shape_aware_dp eligible ins outs item_in item_out =
     (if eligible = [] then Inr None
      else rbind (py_min_by (shape_score ins outs item_in item_out) eligible) (\<lambda>r. Inr (Some r)))"

text \<open>\<open>BALANCE_ABS = 32\<close>, \<open>BALANCE_REL = 1.1\<close> and \<open>CACHE_THRESHOLD = 0.5\<close>. The two float
  comparisons are written over the integers. \<open>max_load > min_load * 1.1\<close> is
  \<open>11 * min_load < 10 * max_load\<close> for request counts below \<open>2^48\<close>: the float nearest to 1.1 lies
  above it, the rounded product is at least the exact one when that is an integer, and a product
  that is no integer is at least a tenth away from the next. \<open>match / prompt_len > 0.5\<close> is
  \<open>prompt_len < 2 * match\<close>, as Python's quotient is correctly rounded and one half is a float.\<close>

definition load_skewed :: "int list \<Rightarrow> bool" where
  "load_skewed loads = (let max_load = Max (set loads); min_load = Min (set loads) in
     max_load - min_load > 32 \<and> 11 * min_load < 10 * max_load)"

definition match_of :: "(int \<times> int) list \<Rightarrow> int \<Rightarrow> int" where
  "match_of matches r = (case map_of matches r of Some m \<Rightarrow> m | None \<Rightarrow> 0)"

definition pick_cache_aware_dp ::
    "int list \<Rightarrow> int list \<Rightarrow> int list \<Rightarrow> (int \<times> int) list \<Rightarrow> int \<Rightarrow> int list \<Rightarrow> int list \<Rightarrow> int \<Rightarrow> int
      \<Rightarrow> int option result" where
  "pick_cache_aware_dp eligible cs toks matches prompt_len ins outs item_in item_out =
     (if eligible = [] then Inr None
      else rbind (map_m (np_get cs) eligible) (\<lambda>loads.
        if load_skewed loads then rbind (least_loaded cs toks eligible) (\<lambda>r. Inr (Some r))
        else
          let holders = [r \<leftarrow> eligible. prompt_len < 2 * match_of matches r] in
          if prompt_len > 0 \<and> holders \<noteq> []
          then rbind (least_loaded cs toks holders) (\<lambda>r. Inr (Some r))
          else pick_shape_aware_dp eligible ins outs item_in item_out))"

definition best_match :: "(int \<times> int) list \<Rightarrow> int" where
  "best_match matches = (if matches = [] then 0 else Max (set (map snd matches)))"

definition pick_force_cache_aware_dp ::
    "int list \<Rightarrow> int list \<Rightarrow> int list \<Rightarrow> (int \<times> int) list \<Rightarrow> int \<Rightarrow> int list \<Rightarrow> int list \<Rightarrow> int \<Rightarrow> int
      \<Rightarrow> int option result" where
  "pick_force_cache_aware_dp eligible cs toks matches prompt_len ins outs item_in item_out =
     (if eligible = [] then Inr None
      else if prompt_len > 0 \<and> best_match matches > 0 then
        let best_holders = [r \<leftarrow> eligible. match_of matches r = best_match matches] in
        if best_holders = [] then Inr None
        else rbind (least_loaded cs toks best_holders) (\<lambda>r. Inr (Some r))
      else pick_shape_aware_dp eligible ins outs item_in item_out)"

section \<open>The probe key of a request\<close>

text \<open>\<open>input_ids\<close> and \<open>radix_input_ids\<close> are a list of ids, a list of lists (an unexpanded batch) or
  missing.\<close>

datatype req_ids = NoIds | Ids "int list" | BatchIds "int list list"

record gen_req =
  gr_rid :: string
  gr_input_ids :: req_ids
  gr_radix_input_ids :: req_ids
  gr_return_logprob :: bool
  gr_logprob_start_len :: "int option"
  gr_lora_id :: "string option"
  gr_extra_key :: "string option"
  gr_dp_rank :: "int option"

fun ids_len :: "req_ids \<Rightarrow> int result" where
  "ids_len NoIds = Inl TypeError"
| "ids_len (Ids xs) = Inr (int (length xs))"
| "ids_len (BatchIds xss) = Inr (int (length xss))"

definition max_prefix_len :: "gen_req \<Rightarrow> int \<Rightarrow> int" where
  "max_prefix_len req n =
     max 0 (if gr_return_logprob req
            then min (n - 1) (case gr_logprob_start_len req of
                None \<Rightarrow> n - 1 | Some l \<Rightarrow> if l = -1 then n - 1 else l)
            else n - 1)"

definition req_prefix_match_key :: "gen_req \<Rightarrow> (int list option \<times> string option) result" where
  "req_prefix_match_key req =
     (case gr_radix_input_ids req of
        Ids (i # is) \<Rightarrow>
          let input_ids = i # is; n = int (length input_ids) in
          rbind (ids_len (gr_input_ids req)) (\<lambda>m.
          if n \<noteq> m then Inl AssertionError
          else
            let extra_key = (case gr_lora_id req of
                  None \<Rightarrow> gr_extra_key req
                | Some l \<Rightarrow> Some ((case gr_extra_key req of None \<Rightarrow> '''' | Some k \<Rightarrow> k) @ l)) in
            if max_prefix_len req n = 0 then Inr (None, None)
            else Inr (Some (py_slice input_ids 0 (max_prefix_len req n)), extra_key))
      | _ \<Rightarrow> Inr (None, None))"

section \<open>The router of one intake round\<close>

record dp_router =
  rt_counts :: "int list"
  rt_inputs :: "int list"
  rt_outputs :: "int list"
  rt_limits :: "int list"
  rt_policy :: string
  rt_robin :: int

definition router_init :: "dp_load_snapshot \<Rightarrow> string \<Rightarrow> int \<Rightarrow> dp_router" where
  "router_init s policy start =
     \<lparr>rt_counts = snap_counts s, rt_inputs = snap_inputs s, rt_outputs = snap_outputs s,
      rt_limits = snap_limits s, rt_policy = policy, rt_robin = start\<rparr>"

definition dp_size :: "dp_router \<Rightarrow> int" where
  "dp_size R = int (length (rt_counts R))"

text \<open>The comprehension of \<open>_eligible_ranks\<close>: the pairs are read first, a short list raises.\<close>

definition eligible_ranks :: "dp_router \<Rightarrow> int list result" where
  "eligible_ranks R =
     rbind (map_m (\<lambda>r. rbind (np_get (rt_counts R) r) (\<lambda>c. rbind (np_get (rt_limits R) r) (\<lambda>l.
              Inr (r, c < l)))) [0..dp_size R - 1])
       (\<lambda>rs. Inr (map fst (filter snd rs)))"

definition pick_least_loaded :: "dp_router \<Rightarrow> int list \<Rightarrow> int result" where
  "pick_least_loaded R eligible =
     py_min_by (\<lambda>r. rbind (np_get (rt_counts R) r) (\<lambda>c. rbind (np_get (rt_inputs R) r) (\<lambda>i.
        rbind (np_get (rt_outputs R) r) (\<lambda>ou. Inr (c, i + ou, r))))) eligible"

type_synonym 'c prefix_lookup = "int list \<Rightarrow> string option \<Rightarrow> int \<Rightarrow> 'c \<Rightarrow> (int \<times> 'c) result"

fun probe_ranks :: "'c prefix_lookup \<Rightarrow> int list \<Rightarrow> string option \<Rightarrow> int list \<Rightarrow> 'c
    \<Rightarrow> ((int \<times> int) list \<times> 'c) result" where
  "probe_ranks lookup ids ek [] c = Inr ([], c)"
| "probe_ranks lookup ids ek (r # rs) c =
     rbind (lookup ids ek r c) (\<lambda>(m, c1).
     rbind (probe_ranks lookup ids ek rs c1) (\<lambda>(ms, c2). Inr ((r, m) # ms, c2)))"

definition pick_cache_aware ::
    "'c prefix_lookup \<Rightarrow> dp_router \<Rightarrow> gen_req \<Rightarrow> int list \<Rightarrow> int \<Rightarrow> int \<Rightarrow> 'c \<Rightarrow> (int option \<times> 'c) result" where
  "pick_cache_aware lookup R req eligible item_in item_out c =
     rbind (req_prefix_match_key req) (\<lambda>(token_ids, extra_key).
     let force = (rt_policy R = ''force_cache_aware'');
         ids = (case token_ids of None \<Rightarrow> [] | Some xs \<Rightarrow> xs) in
     rbind (if ids = [] then Inr ([], c)
            else probe_ranks lookup ids extra_key
              (if force then [0..dp_size R - 1] else eligible) c) (\<lambda>(matches, c1).
     rbind ((if force then pick_force_cache_aware_dp else pick_cache_aware_dp)
              eligible (rt_counts R) (map (\<lambda>(i, ou). i + ou) (zip (rt_inputs R) (rt_outputs R)))
              matches (int (length ids)) (rt_inputs R) (rt_outputs R) item_in item_out)
       (\<lambda>r. Inr (r, c1))))"

text \<open>The \<open>if\<close>/\<open>elif\<close>/\<open>else\<close> over the policy in \<open>assign\<close>.\<close>

definition pick_rank ::
    "'c prefix_lookup \<Rightarrow> dp_router \<Rightarrow> gen_req \<Rightarrow> int list \<Rightarrow> int \<Rightarrow> int \<Rightarrow> 'c \<Rightarrow> (int option \<times> 'c) result" where
  "pick_rank lookup R req eligible item_in item_out c =
     (if rt_policy R = ''cache_aware'' \<or> rt_policy R = ''force_cache_aware''
      then pick_cache_aware lookup R req eligible item_in item_out c
      else if rt_policy R = ''shape_aware''
      then rbind (pick_shape_aware_dp eligible (rt_inputs R) (rt_outputs R) item_in item_out)
             (\<lambda>r. Inr (r, c))
      else rbind (pick_least_loaded R eligible) (\<lambda>r. Inr (Some r, c)))"

definition charge :: "dp_router \<Rightarrow> int \<Rightarrow> int \<Rightarrow> int \<Rightarrow> dp_router result" where
  "charge R rank item_in item_out =
     rbind (np_add (rt_counts R) rank 1) (\<lambda>cs.
     rbind (np_add (rt_inputs R) rank item_in) (\<lambda>ins.
     rbind (np_add (rt_outputs R) rank item_out) (\<lambda>outs.
       Inr (R\<lparr>rt_counts := cs, rt_inputs := ins, rt_outputs := outs\<rparr>))))"

text \<open>The check of a rank the request already carries: an invalid one is dropped.\<close>

definition drop_invalid_rank :: "dp_router \<Rightarrow> gen_req \<Rightarrow> gen_req" where
  "drop_invalid_rank R req = (case gr_dp_rank req of
     Some r \<Rightarrow> if 0 \<le> r \<and> r < dp_size R then req else req\<lparr>gr_dp_rank := None\<rparr>
   | None \<Rightarrow> req)"

text \<open>\<open>DpRouter.assign\<close>: the rank, the request with its \<open>dp_rank\<close> attribute written, the router and
  the cache after the call.\<close>

definition assign ::
    "(gen_req \<Rightarrow> int \<times> int) \<Rightarrow> 'c prefix_lookup \<Rightarrow> gen_req \<Rightarrow> dp_router \<times> 'c
      \<Rightarrow> (int option \<times> gen_req \<times> dp_router \<times> 'c) result" where
  "assign estimate_io lookup req0 Rc = (case Rc of (R, c) \<Rightarrow>
     if dp_size R = 1 then Inr (Some 0, req0\<lparr>gr_dp_rank := Some 0\<rparr>, R, c)
     else
       let req = drop_invalid_rank R req0 in
       if rt_policy R = ''round_robin'' then
         (case gr_dp_rank req of
            Some r \<Rightarrow> Inr (Some r, req, R, c)
          | None \<Rightarrow>
              if dp_size R = 0 then Inl ZeroDivisionError
              else let r = rt_robin R mod dp_size R in
                Inr (Some r, req\<lparr>gr_dp_rank := Some r\<rparr>, R\<lparr>rt_robin := rt_robin R + 1\<rparr>, c))
       else
         case gr_dp_rank req of
           Some r \<Rightarrow>
             let (item_in, item_out) = estimate_io req in
             rbind (charge R r item_in item_out) (\<lambda>R1. Inr (Some r, req, R1, c))
         | None \<Rightarrow>
             rbind (eligible_ranks R) (\<lambda>eligible.
             if eligible = [] then Inr (None, req, R, c)
             else
               let (item_in, item_out) = estimate_io req in
               rbind (pick_rank lookup R req eligible item_in item_out c) (\<lambda>(picked, c1).
               case picked of
                 None \<Rightarrow> Inr (None, req, R, c1)
               | Some r \<Rightarrow> rbind (charge R r item_in item_out) (\<lambda>R1.
                   Inr (Some r, req\<lparr>gr_dp_rank := Some r\<rparr>, R1, c1)))))"

section \<open>The intake pass\<close>

text \<open>An intake holds generate requests and control messages; the router state is threaded through
  the calls of \<open>assign\<close>.\<close>

datatype 'm intake = Generate gen_req | Control 'm

record 'm rank_assignment =
  ready_reqs :: "'m intake list"
  pending_reqs :: "'m intake list"

fun assign_dp_loop ::
    "(gen_req \<Rightarrow> 's \<Rightarrow> (int option \<times> gen_req \<times> 's) result) \<Rightarrow> 'm intake list
      \<Rightarrow> 'm rank_assignment \<Rightarrow> 's \<Rightarrow> ('m rank_assignment \<times> 's) result" where
  "assign_dp_loop asg [] acc s = Inr (acc, s)"
| "assign_dp_loop asg (Control m # ms) acc s =
     assign_dp_loop asg ms (acc\<lparr>ready_reqs := ready_reqs acc @ [Control m]\<rparr>) s"
| "assign_dp_loop asg (Generate q # ms) acc s =
     rbind (asg q s) (\<lambda>(rank, q1, s1).
       assign_dp_loop asg ms
         (if rank = None then acc\<lparr>pending_reqs := pending_reqs acc @ [Generate q1]\<rparr>
          else acc\<lparr>ready_reqs := ready_reqs acc @ [Generate q1]\<rparr>) s1)"

definition assign_dp_ranks ::
    "'m intake list option \<Rightarrow> 'm intake list
      \<Rightarrow> (gen_req \<Rightarrow> 's \<Rightarrow> (int option \<times> gen_req \<times> 's) result) \<Rightarrow> 's
      \<Rightarrow> ('m rank_assignment \<times> 's) result" where
  "assign_dp_ranks recv_reqs pending_dp_reqs asg s =
     assign_dp_loop asg (pending_dp_reqs @ (case recv_reqs of None \<Rightarrow> [] | Some ms \<Rightarrow> ms))
       \<lparr>ready_reqs = [], pending_reqs = []\<rparr> s"

section \<open>The scheduler's side\<close>

text \<open>The part of a batch and of the scheduler that routing reads. \<open>sb_extend\<close> is
  \<open>forward_mode is not None and forward_mode.is_extend()\<close>.\<close>

record 'r rank_info =
  ri_reqs :: "'r list option"
  ri_chunked :: "'r option"
  ri_full :: bool

record 'r sched_batch =
  sb_infos :: "'r rank_info list"
  sb_extend :: bool

record ('r, 'm) dp_sched =
  running_batch :: "'r sched_batch"
  last_batch :: "'r sched_batch option"
  parked_batch :: "'r sched_batch option"
  pd_pending_migrate :: "'r sched_batch option"
  chunked_reqs :: "'r option list"
  waiting_queue :: "'r list"
  grammar_queue :: "'r list"
  pending_dp_reqs :: "'m intake list"
  dp_schedule_policy :: string
  per_dp_max_running :: int
  dp_robin_counter :: int
  sched_dp_size :: int

definition info_owners :: "bool \<Rightarrow> int \<times> 'r rank_info \<Rightarrow> (int \<times> 'r) list" where
  "info_owners ext ri = (case ri of (rank, info) \<Rightarrow>
     map (Pair rank) (case ri_reqs info of None \<Rightarrow> [] | Some rs \<Rightarrow> rs)
     @ (if ext then case ri_chunked info of None \<Rightarrow> [] | Some r \<Rightarrow> [(rank, r)] else []))"

definition batch_owners :: "'r sched_batch \<Rightarrow> (int \<times> 'r) list" where
  "batch_owners b =
     concat (map (info_owners (sb_extend b)) (zip [0..int (length (sb_infos b)) - 1] (sb_infos b)))"

definition iter_dp_requests :: "('r \<Rightarrow> int option) \<Rightarrow> ('r, 'm) dp_sched \<Rightarrow> (int \<times> 'r) list" where
  "iter_dp_requests rank_of S =
     concat (map (\<lambda>ob. case ob of None \<Rightarrow> [] | Some b \<Rightarrow> batch_owners b)
       [Some (running_batch S), last_batch S, parked_batch S, pd_pending_migrate S])
     @ concat (map (\<lambda>(rank, oreq). case oreq of None \<Rightarrow> [] | Some r \<Rightarrow> [(rank, r)])
         (zip [0..int (length (chunked_reqs S)) - 1] (chunked_reqs S)))
     @ concat (map (\<lambda>r. case rank_of r of None \<Rightarrow> [] | Some k \<Rightarrow> [(k, r)])
         (waiting_queue S @ grammar_queue S))"

definition collect_dp_load ::
    "('r \<Rightarrow> nat) \<Rightarrow> ('r \<Rightarrow> bool) \<Rightarrow> ('r \<Rightarrow> int option) \<Rightarrow> ('r \<Rightarrow> int \<times> int) \<Rightarrow> ('r, 'm) dp_sched
      \<Rightarrow> dp_load_snapshot result" where
  "collect_dp_load ident fin rank_of estimate S =
     collect ident fin estimate (sched_dp_size S) (iter_dp_requests rank_of S)
       (map (\<lambda>info. if ri_full info then 0 else per_dp_max_running S) (sb_infos (running_batch S)))"

definition zero_snapshot :: "int \<Rightarrow> dp_load_snapshot" where
  "zero_snapshot n = (let z = replicate (nat n) 0 in
     \<lparr>snap_counts = z, snap_inputs = z, snap_outputs = z, snap_limits = z\<rparr>)"

definition select_dp_for_request ::
    "('r \<Rightarrow> nat) \<Rightarrow> ('r \<Rightarrow> bool) \<Rightarrow> ('r \<Rightarrow> int option) \<Rightarrow> ('r \<Rightarrow> int \<times> int)
      \<Rightarrow> (gen_req \<Rightarrow> int \<times> int) \<Rightarrow> 'c prefix_lookup \<Rightarrow> 'm intake list \<Rightarrow> ('r, 'm) dp_sched \<times> 'c
      \<Rightarrow> ('m intake list \<times> ('r, 'm) dp_sched \<times> 'c) result" where
  "select_dp_for_request ident fin rank_of estimate estimate_io lookup recv_reqs Sc =
     (case Sc of (S, c) \<Rightarrow>
     if recv_reqs = [] \<and> pending_dp_reqs S = [] then Inr ([], S, c)
     else
       rbind (if 1 < sched_dp_size S \<and> dp_schedule_policy S \<noteq> ''round_robin''
              then collect_dp_load ident fin rank_of estimate S
              else Inr (zero_snapshot (sched_dp_size S))) (\<lambda>snap.
       rbind (assign_dp_ranks (Some recv_reqs) (pending_dp_reqs S) (assign estimate_io lookup)
                (router_init snap (dp_schedule_policy S) (dp_robin_counter S), c))
         (\<lambda>(res, R, c1). Inr (ready_reqs res,
            S\<lparr>dp_robin_counter := rt_robin R, pending_dp_reqs := pending_reqs res\<rparr>, c1))))"

section \<open>The contract of the pickers\<close>

text \<open>What \<open>assign\<close> relies on: on lists that cover every rank a picker does not raise, and what it
  picks is one of the eligible ranks.\<close>

type_synonym rank_picker = "int list \<Rightarrow> int list \<Rightarrow> int list \<Rightarrow> (int \<times> int) list \<Rightarrow> int
   \<Rightarrow> int list \<Rightarrow> int list \<Rightarrow> int \<Rightarrow> int \<Rightarrow> int option result"

definition loads_cover :: "int list \<Rightarrow> int list \<Rightarrow> bool" where
  "loads_cover xs ranks \<longleftrightarrow> (\<forall>r\<in>set ranks. 0 \<le> r \<and> r < int (length xs))"

locale dp_picker =
  fixes pick :: rank_picker
  assumes picks: "loads_cover cs el \<Longrightarrow> loads_cover toks el \<Longrightarrow> loads_cover ins el \<Longrightarrow> loads_cover outs el
      \<Longrightarrow> \<exists>ro. pick el cs toks ms n ins outs i ou = Inr ro \<and> (\<forall>r. ro = Some r \<longrightarrow> r \<in> set el)"
begin

lemma pick_cases:
  assumes "loads_cover cs el" "loads_cover toks el" "loads_cover ins el" "loads_cover outs el"
  obtains "pick el cs toks ms n ins outs i ou = Inr None"
  | r where "pick el cs toks ms n ins outs i ou = Inr (Some r)" "r \<in> set el"
  using picks [OF assms, of ms n i ou] by (metis option.exhaust)

text \<open>Charging the picked rank raises nothing and keeps the cap on it.\<close>

lemma pick_keeps_cap:
  assumes "loads_cover cs el" "loads_cover toks el" "loads_cover ins el" "loads_cover outs el"
    and "\<forall>r\<in>set el. cs ! nat r < lim ! nat r"
    and "pick el cs toks ms n ins outs i ou = Inr (Some r)"
  shows "np_add cs r 1 = Inr (cs[nat r := cs ! nat r + 1]) \<and> cs ! nat r + 1 \<le> lim ! nat r"
  using picks [OF assms(1-4), of ms n i ou] assms by (auto simp: loads_cover_def)

end

lemma least_loaded_total:
  assumes "loads_cover cs el" "loads_cover toks el" "el \<noteq> []"
  shows "least_loaded cs toks el = Inr (arg_min_list (\<lambda>r. (cs ! nat r, toks ! nat r, r)) el)"
  unfolding least_loaded_def
  using assms by (intro py_min_by_total) (auto simp: load_key_def loads_cover_def)

lemma pick_shape_total:
  assumes "loads_cover ins el" "loads_cover outs el" "el \<noteq> []"
  shows "pick_shape_aware_dp el ins outs i ou = Inr (Some (arg_min_list (\<lambda>r.
     (max (ins ! nat r + i) (outs ! nat r + ou), ins ! nat r + i + (outs ! nat r + ou), r)) el))"
  unfolding pick_shape_aware_dp_def using assms
  by (simp add: loads_cover_def shape_score_def Let_def
      py_min_by_total [of el _ "\<lambda>r. (max (ins ! nat r + i) (outs ! nat r + ou),
        ins ! nat r + i + (outs ! nat r + ou), r)"])

lemma loads_cover_filter: "loads_cover xs el \<Longrightarrow> loads_cover xs (filter P el)"
  by (simp add: loads_cover_def)

lemma map_m_np_get: "loads_cover cs el \<Longrightarrow> map_m (np_get cs) el = Inr (map (\<lambda>r. cs ! nat r) el)"
  by (rule map_m_total) (simp add: loads_cover_def)

lemma arg_min_filter_in: "filter P el \<noteq> [] \<Longrightarrow> arg_min_list g (filter P el) \<in> set el"
  using arg_min_list_in [of "filter P el" g] by auto

lemmas picker_simps = least_loaded_total pick_shape_total loads_cover_filter map_m_np_get
  arg_min_list_in arg_min_filter_in

interpretation cache_aware: dp_picker pick_cache_aware_dp
  by unfold_locales (auto simp: pick_cache_aware_dp_def Let_def picker_simps)

interpretation force_aware: dp_picker pick_force_cache_aware_dp
  by unfold_locales (auto simp: pick_force_cache_aware_dp_def Let_def picker_simps)

lemma pick_shape_empty [simp]: "pick_shape_aware_dp [] ins outs i ou = Inr None"
  by (simp add: pick_shape_aware_dp_def)

interpretation shape_aware: dp_picker
    "\<lambda>el cs toks ms n ins outs i ou. pick_shape_aware_dp el ins outs i ou"
proof (unfold_locales, goal_cases)
  case (1 cs el toks ins outs ms n i ou)
  then show ?case by (cases "el = []") (auto simp: picker_simps)
qed

section \<open>What the pickers choose\<close>

text \<open>C34. Under strict cache affinity a request with a cached prefix is never spilled. When some rank holds a
  positive best match (a full miss goes to the shape-aware picker instead), \<open>pick_force_cache_aware_dp\<close> never raises:
  when no eligible rank holds the best match it defers, and in every other case it picks an eligible rank that
  holds it, the one with the least \<open>(running, tokens, rank)\<close> among those.\<close>

theorem force_cache_aware_picks_best_holder:
  assumes "el \<noteq> []" "\<forall>r\<in>set el. 0 \<le> r \<and> r < int (length cs)" "length toks = length cs"
    and "0 < n" "0 < best_match ms"
  shows "if \<forall>r\<in>set el. match_of ms r \<noteq> best_match ms
    then pick_force_cache_aware_dp el cs toks ms n ins outs i ou = Inr None
    else \<exists>r. pick_force_cache_aware_dp el cs toks ms n ins outs i ou = Inr (Some r)
      \<and> r \<in> set el \<and> match_of ms r = best_match ms
      \<and> (\<forall>q\<in>set el. match_of ms q = best_match ms \<longrightarrow>
           (cs ! nat r, toks ! nat r, r) \<le> (cs ! nat q, toks ! nat q, q))"
proof -
  let ?h = "filter (\<lambda>r. match_of ms r = best_match ms) el"
  let ?g = "\<lambda>r. (cs ! nat r, toks ! nat r, r)"
  have cov: "loads_cover cs ?h" "loads_cover toks ?h"
    using assms by (auto simp: loads_cover_def)
  have pick: "pick_force_cache_aware_dp el cs toks ms n ins outs i ou =
      (if ?h = [] then Inr None else Inr (Some (arg_min_list ?g ?h)))"
    using assms cov by (simp add: pick_force_cache_aware_dp_def Let_def least_loaded_total)
  have none: "?h = [] \<longleftrightarrow> (\<forall>r\<in>set el. match_of ms r \<noteq> best_match ms)" by (simp add: filter_empty_conv)
  show ?thesis
  proof (cases "?h = []")
    case True
    with pick none show ?thesis by simp
  next
    case False
    have mem: "arg_min_list ?g ?h \<in> set ?h" by (rule arg_min_list_in [OF False])
    have "?g (arg_min_list ?g ?h) \<le> ?g q" if "q \<in> set ?h" for q
      by (rule arg_min_list_least [OF False that])
    with False pick mem none show ?thesis by auto
  qed
qed

theorem force_cache_aware_picks_best_holder_witness:
  "(\<exists>r. pick_force_cache_aware_dp [0, 1, 2] [5, 4, 3] [9, 9, 9] [(0, 4), (1, 8), (2, 8)] 10 [] [] 1 1 = Inr (Some r)
      \<and> r \<in> {1, 2} \<and> ([5, 4, 3] ! nat r, [9, 9, 9] ! nat r, r) \<le> (3 :: int, 9 :: int, 2))
    \<and> pick_force_cache_aware_dp [0] [5, 0, 3] [9, 9, 9] [(0, 4), (1, 8), (2, 8)] 10 [] [] 1 1 = Inr None"
proof -
  have b: "best_match [(0, 4), (1, 8), (2, 8)] = 8" by (simp add: best_match_def)
  show ?thesis
    using force_cache_aware_picks_best_holder [of "[0, 1, 2]" "[5, 4, 3]" "[9, 9, 9]" 10
        "[(0, 4), (1, 8), (2, 8)]" "[]" "[]" 1 1]
      force_cache_aware_picks_best_holder [of "[0]" "[5, 0, 3]" "[9, 9, 9]" 10
        "[(0, 4), (1, 8), (2, 8)]" "[]" "[]" 1 1]
    by (auto simp: b match_of_def)
qed

section \<open>The snapshot counts every live request once\<close>

definition owners_ok :: "('r \<Rightarrow> nat) \<Rightarrow> int \<Rightarrow> (int \<times> 'r) list \<Rightarrow> bool" where
  "owners_ok ident n rs \<longleftrightarrow> (\<forall>(k, q)\<in>set rs. 0 \<le> k \<and> k < n)
     \<and> (\<forall>(k, q)\<in>set rs. \<forall>(l, p)\<in>set rs. ident q = ident p \<longrightarrow> k = l)"

definition live_on :: "('r \<Rightarrow> bool) \<Rightarrow> (int \<times> 'r) list \<Rightarrow> nat \<Rightarrow> 'r set" where
  "live_on fin rs k = {q. (int k, q) \<in> set rs \<and> \<not> fin q}"

lemma finite_live_on [simp]: "finite (live_on fin rs k)"
  by (rule finite_subset [of _ "snd ` set rs"]) (force simp: live_on_def)+

lemma live_on_snoc:
  "live_on fin (rs @ [(l, q)]) k =
     (if int k = l \<and> \<not> fin q then insert q (live_on fin rs k) else live_on fin rs k)"
  by (auto simp: live_on_def)

definition tally_inv ::
    "('r \<Rightarrow> nat) \<Rightarrow> ('r \<Rightarrow> bool) \<Rightarrow> ('r \<Rightarrow> int \<times> int) \<Rightarrow> int \<Rightarrow> (int \<times> 'r) list \<Rightarrow> dp_tally \<Rightarrow> bool" where
  "tally_inv ident fin est n rs t \<longleftrightarrow>
     (\<forall>i r. seen t i = Some r \<longleftrightarrow> (\<exists>q. (r, q) \<in> set rs \<and> ident q = i))
     \<and> length (tally_counts t) = nat n \<and> length (tally_inputs t) = nat n \<and> length (tally_outputs t) = nat n
     \<and> (\<forall>k<nat n. tally_counts t ! k = int (card (live_on fin rs k))
          \<and> tally_inputs t ! k = (\<Sum>q\<in>live_on fin rs k. fst (est q))
          \<and> tally_outputs t ! k = (\<Sum>q\<in>live_on fin rs k. snd (est q)))"

definition idents_apart :: "('r \<Rightarrow> nat) \<Rightarrow> (int \<times> 'r) list \<Rightarrow> bool" where
  "idents_apart ident rs \<longleftrightarrow> inj_on ident (snd ` set rs)"

lemma owners_ok_snoc:
  "owners_ok ident n (rs @ [(k, q)]) \<longleftrightarrow> owners_ok ident n rs \<and> 0 \<le> k \<and> k < n
     \<and> (\<forall>(l, p)\<in>set rs. ident p = ident q \<longrightarrow> l = k)"
  unfolding owners_ok_def by (fastforce simp: Ball_def)

lemma collect_step_inv:
  assumes inv: "tally_inv ident fin est n rs t" and ok: "owners_ok ident n rs"
    and apart: "idents_apart ident (rs @ [(k, q)])"
  shows "if owners_ok ident n (rs @ [(k, q)])
         then \<exists>t1. collect_step ident fin est n (k, q) t = Inr t1
               \<and> tally_inv ident fin est n (rs @ [(k, q)]) t1
         else collect_step ident fin est n (k, q) t = Inl ValueError"
proof -
  consider "\<not> (0 \<le> k \<and> k < n)" | "0 \<le> k" "k < n" "seen t (ident q) = None"
    | r where "0 \<le> k" "k < n" "seen t (ident q) = Some r" by fastforce
  then show ?thesis
  proof cases
    case 1
    then have "\<not> owners_ok ident n (rs @ [(k, q)])" by (auto simp: owners_ok_snoc)
    with 1 show ?thesis by (simp add: collect_step_def)
  next
    case 2
    have seen: "seen t (ident p) = Some l" if "(l, p) \<in> set rs" for l p
      using inv that unfolding tally_inv_def by blast
    have new: "\<forall>(l, p)\<in>set rs. ident p \<noteq> ident q" using 2(3) seen by fastforce
    then have "q \<notin> live_on fin rs j" for j by (auto simp: live_on_def)
    with 2 inv have "\<exists>t1. collect_step ident fin est n (k, q) t = Inr t1
        \<and> tally_inv ident fin est n (rs @ [(k, q)]) t1"
      unfolding tally_inv_def collect_step_def
      using new by (cases "est q") (auto simp: live_on_snoc nth_list_update Let_def)
    moreover have "owners_ok ident n (rs @ [(k, q)])"
      using 2 ok new by (auto simp: owners_ok_snoc)
    ultimately show ?thesis by simp
  next
    case (3 r)
    then obtain p where p: "(r, p) \<in> set rs" "ident p = ident q"
      using inv unfolding tally_inv_def by blast
    have "p = q" using p apart unfolding idents_apart_def inj_on_def by force
    show ?thesis
    proof (cases "r = k")
      case True
      have "set (rs @ [(k, q)]) = set rs" using p True \<open>p = q\<close> by auto
      then have "owners_ok ident n (rs @ [(k, q)])" "tally_inv ident fin est n (rs @ [(k, q)]) t"
        using ok inv unfolding owners_ok_def tally_inv_def live_on_def by simp_all
      then show ?thesis using 3 True by (simp add: collect_step_def)
    next
      case False
      then have "\<not> owners_ok ident n (rs @ [(k, q)])" using p by (auto simp: owners_ok_snoc)
      then show ?thesis using 3 False by (simp add: collect_step_def)
    qed
  qed
qed

lemma owners_ok_prefix: "owners_ok ident n (rs @ ys) \<Longrightarrow> owners_ok ident n rs"
  unfolding owners_ok_def set_append by blast

lemma collect_loop_inv:
  assumes "tally_inv ident fin est n rs t" "owners_ok ident n rs" "idents_apart ident (rs @ ys)"
  shows "if owners_ok ident n (rs @ ys)
         then \<exists>t1. for_m (collect_step ident fin est n) ys t = Inr t1 \<and> tally_inv ident fin est n (rs @ ys) t1
         else for_m (collect_step ident fin est n) ys t = Inl ValueError"
  using assms
proof (induction ys arbitrary: rs t)
  case (Cons y ys)
  obtain k q where y: "y = (k, q)" by (cases y)
  have ap: "idents_apart ident (rs @ [(k, q)])"
    using Cons.prems(3) unfolding idents_apart_def y by (rule inj_on_subset) auto
  note step = collect_step_inv [OF Cons.prems(1,2) ap]
  show ?case
  proof (cases "owners_ok ident n (rs @ [(k, q)])")
    case True
    with step obtain t1 where t1: "collect_step ident fin est n (k, q) t = Inr t1"
        "tally_inv ident fin est n (rs @ [(k, q)]) t1" by auto
    show ?thesis using Cons.IH [OF t1(2) True] Cons.prems(3) t1(1) by (simp add: y cong: if_cong)
  next
    case False
    then have "\<not> owners_ok ident n (rs @ y # ys)"
      using owners_ok_prefix [of ident n "rs @ [(k, q)]" ys] by (auto simp: y)
    with False step show ?thesis by (simp add: y)
  qed
qed auto

text \<open>The snapshot is exact. Whatever references the scheduler's batches and queues share,
  \<open>DpLoadSnapshot.collect\<close> raises \<open>ValueError\<close> exactly when a rank is out of range or one request
  appears under two ranks, and otherwise returns for every rank the number of distinct unfinished
  requests on it and the sums of their input and output estimates, each request counted once.\<close>

theorem collect_counts_live_requests:
  assumes "0 \<le> n" "inj_on ident (snd ` set rs)"
  shows "collect ident fin est n rs lims =
    (if (\<forall>(k, q)\<in>set rs. 0 \<le> k \<and> k < n)
        \<and> (\<forall>(k, q)\<in>set rs. \<forall>(l, p)\<in>set rs. ident q = ident p \<longrightarrow> k = l)
     then Inr \<lparr>snap_counts = map (\<lambda>k. int (card {q. (int k, q) \<in> set rs \<and> \<not> fin q})) [0..<nat n],
               snap_inputs = map (\<lambda>k. \<Sum>q | (int k, q) \<in> set rs \<and> \<not> fin q. fst (est q)) [0..<nat n],
               snap_outputs = map (\<lambda>k. \<Sum>q | (int k, q) \<in> set rs \<and> \<not> fin q. snd (est q)) [0..<nat n],
               snap_limits = lims\<rparr>
     else Inl ValueError)"
proof -
  let ?z = "replicate (nat n) 0 :: int list"
  let ?t = "\<lparr>seen = Map.empty, tally_counts = ?z, tally_inputs = ?z, tally_outputs = ?z\<rparr>"
  have init: "tally_inv ident fin est n [] ?t" "owners_ok ident n []"
    by (auto simp: tally_inv_def live_on_def owners_ok_def)
  have "idents_apart ident ([] @ rs)" using assms(2) by (simp add: idents_apart_def)
  note loop = collect_loop_inv [OF init this, simplified]
  show ?thesis
  proof (cases "owners_ok ident n rs")
    case True
    with loop obtain t1 where t1: "for_m (collect_step ident fin est n) rs ?t = Inr t1"
        "tally_inv ident fin est n rs t1" by auto
    have "tally_counts t1 = map (\<lambda>k. int (card (live_on fin rs k))) [0..<nat n]"
        "tally_inputs t1 = map (\<lambda>k. \<Sum>q\<in>live_on fin rs k. fst (est q)) [0..<nat n]"
        "tally_outputs t1 = map (\<lambda>k. \<Sum>q\<in>live_on fin rs k. snd (est q)) [0..<nat n]"
      using t1(2) unfolding tally_inv_def by (auto intro: nth_equalityI)
    with t1(1) True show ?thesis unfolding collect_def live_on_def owners_ok_def by (simp add: Let_def)
  next
    case False
    with loop show ?thesis unfolding collect_def owners_ok_def by (auto simp: Let_def)
  qed
qed

theorem collect_counts_live_requests_witness:
  "collect id (\<lambda>q. q = 2) (\<lambda>q. (10 + int q, 5)) 2 [(0, 1), (1, 2), (1, 3), (0, 1), (1, 4)] [8, 8]
     = Inr \<lparr>snap_counts = [1, 2], snap_inputs = [11, 27], snap_outputs = [5, 10], snap_limits = [8, 8]\<rparr>
   \<and> collect id (\<lambda>q. q = 2) (\<lambda>q. (10 + int q, 5)) 2 [(0, 1), (1, 1)] [8, 8] = Inl ValueError"
proof -
  let ?rs = "[(0, 1), (1, 2), (1, 3), (0, 1), (1, 4)] :: (int \<times> nat) list"
  have s: "{q. (q = 2 \<or> q = 3 \<or> q = 4) \<and> q \<noteq> 2} = {3, 4 :: nat}" "{q. q = Suc 0 \<and> q \<noteq> 2} = {Suc 0}"
    by auto
  have "collect id (\<lambda>q. q = 2) (\<lambda>q. (10 + int q, 5)) 2 ?rs [8, 8]
     = Inr \<lparr>snap_counts = [1, 2], snap_inputs = [11, 27], snap_outputs = [5, 10], snap_limits = [8, 8]\<rparr>"
    by (subst collect_counts_live_requests) (simp_all add: s upt_rec)
  moreover have "collect id (\<lambda>q. q = 2) (\<lambda>q. (10 + int q, 5)) 2 [(0, 1), (1, 1)] [8, 8] = Inl ValueError"
    by (subst collect_counts_live_requests) auto
  ultimately show ?thesis by simp
qed

section \<open>One assignment\<close>

definition router_ok :: "dp_router \<Rightarrow> bool" where
  "router_ok R \<longleftrightarrow> length (rt_inputs R) = length (rt_counts R)
     \<and> length (rt_outputs R) = length (rt_counts R) \<and> length (rt_limits R) = length (rt_counts R)"

text \<open>What the router needs of its environment: the probe of an existing rank returns, and a request
  of one sequence carries as many cache ids as input ids (\<open>TokenizedGenerateReqInput.__post_init__\<close>
  asserts it).\<close>

definition probe_total :: "'c prefix_lookup \<Rightarrow> int \<Rightarrow> bool" where
  "probe_total lookup n \<longleftrightarrow>
     (\<forall>ids ek r c. 0 \<le> r \<longrightarrow> r < n \<longrightarrow> (\<exists>m c1. lookup ids ek r c = Inr (m, c1)))"

definition ids_match :: "gen_req \<Rightarrow> bool" where
  "ids_match q = (case gr_radix_input_ids q of
     Ids (i # is) \<Rightarrow> ids_len (gr_input_ids q) = Inr (int (length (i # is))) | _ \<Rightarrow> True)"

definition open_ranks :: "dp_router \<Rightarrow> int list" where
  "open_ranks R = [r \<leftarrow> [0..dp_size R - 1]. rt_counts R ! nat r < rt_limits R ! nat r]"

lemma eligible_ranks_open: "router_ok R \<Longrightarrow> eligible_ranks R = Inr (open_ranks R)"
proof -
  assume ok: "router_ok R"
  have "map_m (\<lambda>r. rbind (np_get (rt_counts R) r) (\<lambda>c. rbind (np_get (rt_limits R) r) (\<lambda>l.
              Inr (r, c < l)))) [0..dp_size R - 1]
      = Inr (map (\<lambda>r. (r, rt_counts R ! nat r < rt_limits R ! nat r)) [0..dp_size R - 1])"
    using ok by (intro map_m_total) (auto simp: dp_size_def router_ok_def)
  moreover have "map fst (filter snd (map (\<lambda>r. (r, P r)) xs)) = filter P xs" for P and xs :: "int list"
    by (induction xs) auto
  ultimately show ?thesis by (simp add: eligible_ranks_def open_ranks_def)
qed

lemma open_ranks_range:
  "r \<in> set (open_ranks R) \<Longrightarrow> 0 \<le> r \<and> r < dp_size R \<and> rt_counts R ! nat r < rt_limits R ! nat r"
  by (auto simp: open_ranks_def)

lemma open_ranks_cover:
  assumes "router_ok R"
  shows "loads_cover (rt_counts R) (open_ranks R)" "loads_cover (rt_inputs R) (open_ranks R)"
    "loads_cover (rt_outputs R) (open_ranks R)"
    "loads_cover (map (\<lambda>(i, ou). i + ou) (zip (rt_inputs R) (rt_outputs R))) (open_ranks R)"
  using assms by (auto simp: loads_cover_def open_ranks_def router_ok_def dp_size_def)

lemma req_key_total: "ids_match q \<Longrightarrow> \<exists>k. req_prefix_match_key q = Inr k"
  by (auto simp: ids_match_def req_prefix_match_key_def Let_def split: req_ids.splits list.splits)

lemma probe_ranks_total:
  assumes "probe_total lookup n" "\<forall>r\<in>set rs. 0 \<le> r \<and> r < n"
  shows "\<exists>ms c1. probe_ranks lookup ids ek rs c = Inr (ms, c1)"
  using assms(2)
proof (induction rs arbitrary: c)
  case (Cons r rs)
  then obtain m c1 where "lookup ids ek r c = Inr (m, c1)"
    using assms(1) unfolding probe_total_def by (metis list.set_intros(1))
  with Cons.IH [of c1] Cons.prems show ?case by auto
qed simp

lemma cache_aware_picks:
  assumes "loads_cover cs el" "loads_cover toks el" "loads_cover ins el" "loads_cover outs el" "el \<noteq> []"
  shows "pick_cache_aware_dp el cs toks ms n ins outs i ou \<noteq> Inr None"
  using assms by (auto simp: pick_cache_aware_dp_def Let_def picker_simps)

lemma pick_cache_aware_ok:
  assumes ok: "router_ok R" and probe: "probe_total lookup (dp_size R)" and key: "ids_match q"
    and ne: "open_ranks R \<noteq> []"
  shows "\<exists>ro c1. pick_cache_aware lookup R q (open_ranks R) i ou c = Inr (ro, c1)
     \<and> (\<forall>r. ro = Some r \<longrightarrow> r \<in> set (open_ranks R))
     \<and> (ro = None \<longrightarrow> rt_policy R = ''force_cache_aware'')"
proof -
  let ?force = "rt_policy R = ''force_cache_aware''"
  let ?toks = "map (\<lambda>(i, ou). i + ou) (zip (rt_inputs R) (rt_outputs R))"
  let ?rs = "if ?force then [0..dp_size R - 1] else open_ranks R"
  obtain tids ek where k: "req_prefix_match_key q = Inr (tids, ek)"
    using req_key_total [OF key] by auto
  define ids where "ids = (case tids of None \<Rightarrow> [] | Some xs \<Rightarrow> xs)"
  have rng: "\<forall>r\<in>set ?rs. 0 \<le> r \<and> r < dp_size R" using open_ranks_range by auto
  have "\<exists>mc. (if ids = [] then Inr ([], c) else probe_ranks lookup ids ek ?rs c) = Inr mc"
    using probe_ranks_total [OF probe rng, of ids ek c] by (cases "ids = []") auto
  then obtain ms c1 where ms: "(if ids = [] then Inr ([], c)
      else probe_ranks lookup ids ek ?rs c) = Inr (ms, c1)" by auto
  have pick: "\<exists>ro. (if ?force then pick_force_cache_aware_dp else pick_cache_aware_dp) (open_ranks R)
      (rt_counts R) ?toks ms (int (length ids)) (rt_inputs R) (rt_outputs R) i ou = Inr ro
      \<and> (\<forall>r. ro = Some r \<longrightarrow> r \<in> set (open_ranks R)) \<and> (ro = None \<longrightarrow> ?force)"
  proof (cases ?force)
    case True
    then show ?thesis
      using force_aware.picks [OF open_ranks_cover(1,4,2,3) [OF ok], of ms "int (length ids)" i ou] by auto
  next
    case False
    then show ?thesis
      using cache_aware.picks [OF open_ranks_cover(1,4,2,3) [OF ok], of ms "int (length ids)" i ou]
        cache_aware_picks [OF open_ranks_cover(1,4,2,3) [OF ok] ne, of ms "int (length ids)" i ou] by auto
  qed
  then show ?thesis
    unfolding pick_cache_aware_def k using ms by (auto simp: Let_def ids_def [symmetric])
qed

lemma pick_least_loaded_in:
  assumes "router_ok R" "open_ranks R \<noteq> []"
  shows "\<exists>r. pick_least_loaded R (open_ranks R) = Inr r \<and> r \<in> set (open_ranks R)"
proof -
  let ?g = "\<lambda>r. (rt_counts R ! nat r, rt_inputs R ! nat r + rt_outputs R ! nat r, r)"
  have "pick_least_loaded R (open_ranks R) = Inr (arg_min_list ?g (open_ranks R))"
    unfolding pick_least_loaded_def using assms open_ranks_cover [OF assms(1)]
    by (intro py_min_by_total) (auto simp: loads_cover_def)
  then show ?thesis using arg_min_list_in [OF assms(2), of ?g] by simp
qed

lemma pick_rank_ok:
  assumes ok: "router_ok R" and probe: "probe_total lookup (dp_size R)" and key: "ids_match q"
    and ne: "open_ranks R \<noteq> []"
  shows "\<exists>ro c1. pick_rank lookup R q (open_ranks R) i ou c = Inr (ro, c1)
     \<and> (\<forall>r. ro = Some r \<longrightarrow> r \<in> set (open_ranks R))
     \<and> (ro = None \<longrightarrow> rt_policy R = ''force_cache_aware'')"
  using pick_cache_aware_ok [OF assms, of i ou c] pick_least_loaded_in [OF ok ne]
    pick_shape_total [OF open_ranks_cover(2,3) [OF ok] ne, of i ou] arg_min_list_in [OF ne]
  by (auto simp: pick_rank_def)

definition charged :: "dp_router \<Rightarrow> int \<Rightarrow> int \<times> int \<Rightarrow> dp_router" where
  "charged R r e = R\<lparr>rt_counts := (rt_counts R)[nat r := rt_counts R ! nat r + 1],
     rt_inputs := (rt_inputs R)[nat r := rt_inputs R ! nat r + fst e],
     rt_outputs := (rt_outputs R)[nat r := rt_outputs R ! nat r + snd e]\<rparr>"

lemma charge_ok:
  "router_ok R \<Longrightarrow> 0 \<le> r \<Longrightarrow> r < dp_size R \<Longrightarrow> charge R r (fst e) (snd e) = Inr (charged R r e)"
  by (simp add: charge_def charged_def router_ok_def dp_size_def)

definition keeps_rank :: "dp_router \<Rightarrow> gen_req \<Rightarrow> int \<Rightarrow> bool" where
  "keeps_rank R q r \<longleftrightarrow> gr_dp_rank q = Some r \<and> 0 \<le> r \<and> r < dp_size R"

lemma assign_load_aware:
  assumes ok: "router_ok R" and probe: "probe_total lookup (dp_size R)" and key: "ids_match q"
    and pol: "rt_policy R \<noteq> ''round_robin''" and n: "1 < dp_size R"
    and est: "\<forall>q x. est (q\<lparr>gr_dp_rank := x\<rparr>) = est q"
  shows "\<exists>ro c1. assign est lookup q (R, c) = Inr (ro, q\<lparr>gr_dp_rank := ro\<rparr>,
       case ro of None \<Rightarrow> R | Some r \<Rightarrow> charged R r (est q), c1)
     \<and> (\<forall>r. ro = Some r \<longrightarrow> keeps_rank R q r \<or> r \<in> set (open_ranks R))
     \<and> (ro = None \<longrightarrow> (\<forall>r. \<not> keeps_rank R q r)
          \<and> (open_ranks R = [] \<or> rt_policy R = ''force_cache_aware''))
     \<and> (\<forall>r. keeps_rank R q r \<longrightarrow> ro = Some r)"
proof (cases "\<exists>r. keeps_rank R q r")
  case True
  then obtain r where r: "gr_dp_rank q = Some r" "0 \<le> r" "r < dp_size R" by (auto simp: keeps_rank_def)
  have same: "q\<lparr>gr_dp_rank := Some r\<rparr> = q" using r(1) by (cases q) simp
  have "assign est lookup q (R, c) = Inr (Some r, q, charged R r (est q), c)"
    using r pol n charge_ok [OF ok r(2,3), of "est q"]
    by (cases "est q") (simp add: assign_def drop_invalid_rank_def Let_def)
  with r same show ?thesis by (auto simp: keeps_rank_def)
next
  case False
  define q1 where "q1 = q\<lparr>gr_dp_rank := None\<rparr>"
  have q1: "drop_invalid_rank R q = q1"
    using False by (cases q) (auto simp: keeps_rank_def drop_invalid_rank_def q1_def split: option.splits)
  have key1: "ids_match q1" and est1: "est q1 = est q" and none: "gr_dp_rank q1 = None"
    using key est by (simp_all add: q1_def ids_match_def split: req_ids.splits list.splits)
  have "\<exists>ro c1. assign est lookup q (R, c) = Inr (ro, q\<lparr>gr_dp_rank := ro\<rparr>,
       case ro of None \<Rightarrow> R | Some r \<Rightarrow> charged R r (est q), c1)
     \<and> (\<forall>r. ro = Some r \<longrightarrow> r \<in> set (open_ranks R))
     \<and> (ro = None \<longrightarrow> open_ranks R = [] \<or> rt_policy R = ''force_cache_aware'')"
  proof (cases "open_ranks R = []")
    case True
    then show ?thesis
      using pol n none by (simp add: assign_def q1 eligible_ranks_open [OF ok]) (simp add: q1_def)
  next
    case ne: False
    obtain ro c1 where p: "pick_rank lookup R q1 (open_ranks R) (fst (est q)) (snd (est q)) c = Inr (ro, c1)"
        "\<forall>r. ro = Some r \<longrightarrow> r \<in> set (open_ranks R)" "ro = None \<longrightarrow> rt_policy R = ''force_cache_aware''"
      using pick_rank_ok [OF ok probe key1 ne] by metis
    have "charge R r (fst (est q)) (snd (est q)) = Inr (charged R r (est q))" if "ro = Some r" for r
      using p(2) that open_ranks_range charge_ok [OF ok] by blast
    moreover have "q1\<lparr>gr_dp_rank := x\<rparr> = q\<lparr>gr_dp_rank := x\<rparr>" for x by (simp add: q1_def)
    ultimately have "assign est lookup q (R, c) = Inr (ro, q\<lparr>gr_dp_rank := ro\<rparr>,
       case ro of None \<Rightarrow> R | Some r \<Rightarrow> charged R r (est q), c1)"
      using pol n none ne p(1) est1
      by (cases ro; cases "est q")
        (simp_all add: assign_def q1 eligible_ranks_open [OF ok], simp add: q1_def)
    with p show ?thesis by blast
  qed
  then show ?thesis using False by blast
qed

section \<open>A whole intake round\<close>

fun unranked :: "'m intake \<Rightarrow> 'm intake" where
  "unranked (Generate q) = Generate (q\<lparr>gr_dp_rank := None\<rparr>)"
| "unranked (Control m) = Control m"

fun sent_to :: "int \<Rightarrow> 'm intake list \<Rightarrow> gen_req list" where
  "sent_to k [] = []"
| "sent_to k (Control m # ms) = sent_to k ms"
| "sent_to k (Generate q # ms) = (if gr_dp_rank q = Some k then [q] else []) @ sent_to k ms"

definition load_of :: "(gen_req \<Rightarrow> int) \<Rightarrow> int \<Rightarrow> 'm intake list \<Rightarrow> int" where
  "load_of w k ms = sum_list (map w (sent_to k ms))"

lemma load_of_simps [simp]:
  "load_of w k [] = 0" "load_of w k (Control m # ms) = load_of w k ms"
  "load_of w k (Generate q # ms) = (if gr_dp_rank q = Some k then w q else 0) + load_of w k ms"
  by (simp_all add: load_of_def)

definition ready_ok :: "int \<Rightarrow> 'm intake \<Rightarrow> bool" where
  "ready_ok n m = (case m of Control _ \<Rightarrow> True
     | Generate q \<Rightarrow> (case gr_dp_rank q of None \<Rightarrow> False | Some r \<Rightarrow> 0 \<le> r \<and> r < n))"

definition deferred_ok :: "'m intake \<Rightarrow> bool" where
  "deferred_ok m = (case m of Control _ \<Rightarrow> False | Generate q \<Rightarrow> gr_dp_rank q = None)"

lemma ready_ok_Generate [simp]:
  "ready_ok n (Generate q) \<longleftrightarrow> (\<exists>r. gr_dp_rank q = Some r \<and> 0 \<le> r \<and> r < n)"
  by (auto simp: ready_ok_def split: option.splits)

lemma deferred_ok_iff: "deferred_ok m \<longleftrightarrow> (\<exists>q. m = Generate q \<and> gr_dp_rank q = None)"
  by (cases m) (auto simp: deferred_ok_def)

text \<open>From router \<open>R\<close> the intake \<open>ms\<close> was split into \<open>rd\<close> and \<open>pd\<close>, leaving router \<open>R1\<close>.\<close>

definition round_ok ::
    "(gen_req \<Rightarrow> int \<times> int) \<Rightarrow> dp_router \<Rightarrow> 'm intake list \<Rightarrow> 'm intake list \<Rightarrow> 'm intake list \<Rightarrow> dp_router \<Rightarrow> bool" where
  "round_ok est R ms rd pd R1 \<longleftrightarrow>
     map unranked ms \<in> shuffles (map unranked rd) (map unranked pd)
   \<and> (\<forall>m\<in>set rd. ready_ok (dp_size R) m) \<and> (\<forall>m\<in>set pd. deferred_ok m)
   \<and> rt_limits R1 = rt_limits R \<and> dp_size R1 = dp_size R \<and> rt_policy R1 = rt_policy R
   \<and> (\<forall>k<length (rt_counts R).
        rt_counts R1 ! k = rt_counts R ! k + load_of (\<lambda>_. 1) (int k) rd
      \<and> rt_inputs R1 ! k = rt_inputs R ! k + load_of (fst \<circ> est) (int k) rd
      \<and> rt_outputs R1 ! k = rt_outputs R ! k + load_of (snd \<circ> est) (int k) rd
      \<and> rt_counts R1 ! k \<le> max (rt_counts R ! k) (rt_limits R ! k) + load_of (\<lambda>_. 1) (int k) ms)
   \<and> (pd \<noteq> [] \<longrightarrow> rt_policy R = ''force_cache_aware'' \<or> open_ranks R1 = [])"

lemma load_of_one_nonneg: "0 \<le> load_of (\<lambda>_. 1) k ms"
  by (induction k ms rule: sent_to.induct) auto

lemma charged_simps [simp]:
  "rt_limits (charged R r e) = rt_limits R" "rt_policy (charged R r e) = rt_policy R"
  "dp_size (charged R r e) = dp_size R" "length (rt_counts (charged R r e)) = length (rt_counts R)"
  "router_ok (charged R r e) \<longleftrightarrow> router_ok R"
  by (simp_all add: charged_def dp_size_def router_ok_def)

lemma charged_nth:
  assumes "router_ok R" "k < length (rt_counts R)" "0 \<le> r"
  shows "rt_counts (charged R r e) ! k = rt_counts R ! k + (if r = int k then 1 else 0)"
    "rt_inputs (charged R r e) ! k = rt_inputs R ! k + (if r = int k then fst e else 0)"
    "rt_outputs (charged R r e) ! k = rt_outputs R ! k + (if r = int k then snd e else 0)"
  using assms by (auto simp: charged_def router_ok_def nth_list_update)

lemma shuffles_ConsL: "zs \<in> shuffles xs ys \<Longrightarrow> x # zs \<in> shuffles (x # xs) ys"
  by (cases ys) auto

lemma shuffles_ConsR: "zs \<in> shuffles xs ys \<Longrightarrow> y # zs \<in> shuffles xs (y # ys)"
  by (cases xs) auto

lemma round_control: "round_ok est R ms rd pd R1 \<Longrightarrow> round_ok est R (Control m # ms) (Control m # rd) pd R1"
  by (auto simp: round_ok_def ready_ok_def shuffles_ConsL)

lemma round_defer:
  assumes "round_ok est R ms rd pd R1" "open_ranks R = [] \<or> rt_policy R = ''force_cache_aware''"
  shows "round_ok est R (Generate q # ms) rd (Generate (q\<lparr>gr_dp_rank := None\<rparr>) # pd) R1"
proof -
  have "open_ranks R1 = []" if "open_ranks R = []"
  proof -
    have "rt_limits R1 ! nat r \<le> rt_counts R1 ! nat r" if r: "0 \<le> r" "r < dp_size R1" for r
    proof -
      have "rt_limits R ! nat r \<le> rt_counts R ! nat r"
        using r \<open>open_ranks R = []\<close> assms(1)
        by (auto simp: open_ranks_def filter_empty_conv round_ok_def not_less)
      also have "\<dots> \<le> rt_counts R1 ! nat r"
        using assms(1) r load_of_one_nonneg [of r rd] by (auto simp: round_ok_def dp_size_def nat_less_iff)
      finally show ?thesis using assms(1) by (simp add: round_ok_def)
    qed
    then show ?thesis by (fastforce simp: open_ranks_def filter_empty_conv)
  qed
  then show ?thesis using assms
    by (auto simp: round_ok_def deferred_ok_def shuffles_ConsR)
qed

lemma round_send:
  assumes ih: "round_ok est (charged R r (est q)) ms rd pd R1" and R: "router_ok R"
    and r: "keeps_rank R q r \<or> r \<in> set (open_ranks R)"
    and est: "\<forall>q x. est (q\<lparr>gr_dp_rank := x\<rparr>) = est q"
  shows "round_ok est R (Generate q # ms) (Generate (q\<lparr>gr_dp_rank := Some r\<rparr>) # rd) pd R1"
proof -
  have rng: "0 \<le> r" "r < dp_size R" using r open_ranks_range by (auto simp: keeps_rank_def)
  have cap: "rt_counts R1 ! k \<le> max (rt_counts R ! k) (rt_limits R ! k) + load_of (\<lambda>_. 1) (int k) (Generate q # ms)"
    if k: "k < length (rt_counts R)" for k
  proof -
    let ?C = "rt_counts (charged R r (est q)) ! k"
    have "rt_counts R1 ! k \<le> max ?C (rt_limits R ! k) + load_of (\<lambda>_. 1) (int k) ms"
      using ih k unfolding round_ok_def charged_simps by blast
    moreover have "max ?C (rt_limits R ! k) \<le> max (rt_counts R ! k) (rt_limits R ! k)
        + (if gr_dp_rank q = Some (int k) then 1 else 0)"
      using r open_ranks_range [of r R] charged_nth(1) [OF R k rng(1), of "est q"]
      by (auto simp: keeps_rank_def)
    ultimately show ?thesis by (auto split: if_splits)
  qed
  show ?thesis
    using ih rng est cap charged_nth [OF R _ rng(1), of _ "est q"] shuffles_ConsL
    by (auto simp: round_ok_def ready_ok_def)
qed

lemma assign_loop_round:
  assumes "router_ok R" "probe_total lookup (dp_size R)" "\<forall>q. Generate q \<in> set ms \<longrightarrow> ids_match q"
    and "rt_policy R \<noteq> ''round_robin''" "1 < dp_size R"
    and est: "\<forall>q x. est (q\<lparr>gr_dp_rank := x\<rparr>) = est q"
  shows "\<exists>rd pd R1 c1. assign_dp_loop (assign est lookup) ms acc (R, c) =
       Inr (acc\<lparr>ready_reqs := ready_reqs acc @ rd, pending_reqs := pending_reqs acc @ pd\<rparr>, R1, c1)
     \<and> round_ok est R ms rd pd R1"
  using assms(1-5)
proof (induction ms arbitrary: acc R c)
  case Nil
  then show ?case by (auto simp: round_ok_def intro!: exI [of _ "[]"])
next
  case (Cons m ms)
  show ?case
  proof (cases m)
    case (Control x)
    have "\<forall>q. Generate q \<in> set ms \<longrightarrow> ids_match q" using Cons.prems(3) by simp
    from Cons.IH [OF Cons.prems(1,2) this Cons.prems(4,5),
        of "acc\<lparr>ready_reqs := ready_reqs acc @ [Control x]\<rparr>" c]
    obtain rd pd R1 c1 where ih: "assign_dp_loop (assign est lookup) ms
        (acc\<lparr>ready_reqs := ready_reqs acc @ [Control x]\<rparr>) (R, c) =
        Inr (acc\<lparr>ready_reqs := ready_reqs acc @ Control x # rd, pending_reqs := pending_reqs acc @ pd\<rparr>, R1, c1)"
        "round_ok est R ms rd pd R1" by auto
    show ?thesis unfolding Control using ih round_control [OF ih(2), of x] by auto
  next
    case (Generate q)
    have q: "ids_match q" and ms: "\<forall>q. Generate q \<in> set ms \<longrightarrow> ids_match q"
      using Cons.prems(3) Generate by auto
    obtain ro c0 where a: "assign est lookup q (R, c) = Inr (ro, q\<lparr>gr_dp_rank := ro\<rparr>,
         case ro of None \<Rightarrow> R | Some r \<Rightarrow> charged R r (est q), c0)"
        "\<forall>r. ro = Some r \<longrightarrow> keeps_rank R q r \<or> r \<in> set (open_ranks R)"
        "ro = None \<longrightarrow> open_ranks R = [] \<or> rt_policy R = ''force_cache_aware''"
      using assign_load_aware [OF Cons.prems(1,2) q Cons.prems(4,5) est, of c] by blast
    show ?thesis
    proof (cases ro)
      case None
      let ?acc = "acc\<lparr>pending_reqs := pending_reqs acc @ [Generate (q\<lparr>gr_dp_rank := None\<rparr>)]\<rparr>"
      from Cons.IH [OF Cons.prems(1,2) ms Cons.prems(4,5), of ?acc c0]
      obtain rd pd R1 c1 where ih: "assign_dp_loop (assign est lookup) ms ?acc (R, c0) =
          Inr (acc\<lparr>ready_reqs := ready_reqs acc @ rd,
            pending_reqs := pending_reqs acc @ Generate (q\<lparr>gr_dp_rank := None\<rparr>) # pd\<rparr>, R1, c1)"
          "round_ok est R ms rd pd R1" by auto
      show ?thesis unfolding Generate using ih a None round_defer [OF ih(2), of q] by auto
    next
      case (Some r)
      let ?R = "charged R r (est q)"
      let ?acc = "acc\<lparr>ready_reqs := ready_reqs acc @ [Generate (q\<lparr>gr_dp_rank := Some r\<rparr>)]\<rparr>"
      have "router_ok ?R" "probe_total lookup (dp_size ?R)" "rt_policy ?R \<noteq> ''round_robin''" "1 < dp_size ?R"
        using Cons.prems by simp_all
      from Cons.IH [OF this(1,2) ms this(3,4), of ?acc c0]
      obtain rd pd R1 c1 where ih: "assign_dp_loop (assign est lookup) ms ?acc (?R, c0) =
          Inr (acc\<lparr>ready_reqs := ready_reqs acc @ Generate (q\<lparr>gr_dp_rank := Some r\<rparr>) # rd,
            pending_reqs := pending_reqs acc @ pd\<rparr>, R1, c1)"
          "round_ok est ?R ms rd pd R1" by auto
      show ?thesis unfolding Generate
        using ih a Some round_send [OF ih(2) Cons.prems(1) _ est] by auto
    qed
  qed
qed




definition demo_req :: gen_req where
  "demo_req = \<lparr>gr_rid = ''a'', gr_input_ids = Ids [7, 8, 9], gr_radix_input_ids = Ids [7, 8, 9],
     gr_return_logprob = False, gr_logprob_start_len = Some (-1), gr_lora_id = None,
     gr_extra_key = None, gr_dp_rank = None\<rparr>"

definition demo_router :: dp_router where
  "demo_router = \<lparr>rt_counts = [1, 0], rt_inputs = [5, 0], rt_outputs = [5, 0], rt_limits = [1, 1],
     rt_policy = ''cache_aware'', rt_robin = 0\<rparr>"


lemma assign_round_robin:
  assumes "1 < dp_size R" "rt_policy R = ''round_robin''" "gr_dp_rank q = None"
  shows "assign est lookup q (R, c) = Inr (Some (rt_robin R mod dp_size R),
     q\<lparr>gr_dp_rank := Some (rt_robin R mod dp_size R)\<rparr>, R\<lparr>rt_robin := rt_robin R + 1\<rparr>, c)"
  using assms by (simp add: assign_def drop_invalid_rank_def Let_def)

lemma robin_loop:
  assumes "1 < dp_size R" "rt_policy R = ''round_robin''" "\<forall>q\<in>set qs. gr_dp_rank q = None"
  shows "assign_dp_loop (assign est lookup) (map Generate qs) acc (R, c) =
     Inr (acc\<lparr>ready_reqs := ready_reqs acc @
            map (\<lambda>i. Generate ((qs ! i)\<lparr>gr_dp_rank := Some ((rt_robin R + int i) mod dp_size R)\<rparr>))
              [0..<length qs]\<rparr>,
          R\<lparr>rt_robin := rt_robin R + int (length qs)\<rparr>, c)"
  using assms
proof (induction qs arbitrary: R acc)
  case (Cons q qs)
  let ?R = "R\<lparr>rt_robin := rt_robin R + 1\<rparr>"
  have R: "dp_size (R\<lparr>rt_robin := x\<rparr>) = dp_size R" for x by (simp add: dp_size_def)
  have "[0..<length (q # qs)] = 0 # map Suc [0..<length qs]"
    by (simp only: list.size(4) add_Suc_right add_0_right map_Suc_upt upt_conv_Cons [OF zero_less_Suc])
  then show ?case
    using Cons.prems assign_round_robin [OF Cons.prems(1,2), of q est lookup c]
      Cons.IH [of ?R "acc\<lparr>ready_reqs := ready_reqs acc
        @ [Generate (q\<lparr>gr_dp_rank := Some (rt_robin R mod dp_size R)\<rparr>)]\<rparr>"]
    by (simp add: R comp_def ac_simps del: upt_Suc)
qed simp

text \<open>Round robin needs no load: unranked requests get consecutive ranks from the counter, in intake
  order, none is deferred and the counter advances by their number, so the next round continues where
  this one stopped.\<close>

theorem round_robin_consecutive:
  assumes "1 < dp_size R" "rt_policy R = ''round_robin''" "\<forall>q\<in>set (pend @ recv). gr_dp_rank q = None"
  shows "assign_dp_ranks (Some (map Generate recv)) (map Generate pend) (assign est lookup) (R, c) =
     Inr (\<lparr>ready_reqs = map (\<lambda>i. Generate (((pend @ recv) ! i)
              \<lparr>gr_dp_rank := Some ((rt_robin R + int i) mod dp_size R)\<rparr>)) [0..<length (pend @ recv)],
           pending_reqs = []\<rparr>,
          R\<lparr>rt_robin := rt_robin R + int (length (pend @ recv))\<rparr>, c)"
  using robin_loop [OF assms, of est lookup "\<lparr>ready_reqs = [], pending_reqs = []\<rparr>" c]
  by (simp add: assign_dp_ranks_def)

theorem round_robin_consecutive_witness:
  "let R = demo_router\<lparr>rt_policy := ''round_robin'', rt_robin := 3\<rparr>; q = demo_req in
   assign_dp_ranks (Some [Generate q]) [Generate q] (assign (\<lambda>_. (3, 4)) (\<lambda>ids ek r c. Inr (2, c))) (R, ())
     = Inr (\<lparr>ready_reqs = [Generate (q\<lparr>gr_dp_rank := Some 1\<rparr>), Generate (q\<lparr>gr_dp_rank := Some 0\<rparr>)],
             pending_reqs = ([] :: unit intake list)\<rparr>, R\<lparr>rt_robin := 5\<rparr>, ())"
  using round_robin_consecutive [of "demo_router\<lparr>rt_policy := ''round_robin'', rt_robin := 3\<rparr>"
      "[demo_req]" "[demo_req]" "\<lambda>_. (3, 4)" "\<lambda>ids ek r c. Inr (2, c)" "()"]
  by (simp add: dp_size_def demo_router_def demo_req_def Let_def)

section \<open>The scheduler's intake\<close>

text \<open>C25. \<open>select_dp_for_request\<close> loses and duplicates nothing under a load-aware policy: in a scheduler
  whose batches and queues own each request on one valid rank it returns, the messages handed on and
  the requests kept for the next round are an order-preserving split of the old pending list followed
  by the received messages, every request handed on has a valid rank and every one kept has none.\<close>

theorem select_dp_conserves:
  assumes "1 < sched_dp_size S" "dp_schedule_policy S \<noteq> ''round_robin''"
    and "int (length (sb_infos (running_batch S))) = sched_dp_size S"
    and "inj_on ident (snd ` set (iter_dp_requests rank_of S))"
    and "\<forall>(k, q)\<in>set (iter_dp_requests rank_of S). 0 \<le> k \<and> k < sched_dp_size S"
    and "\<forall>(k, q)\<in>set (iter_dp_requests rank_of S). \<forall>(l, p)\<in>set (iter_dp_requests rank_of S).
           ident q = ident p \<longrightarrow> k = l"
    and "\<forall>ids ek r c. 0 \<le> r \<longrightarrow> r < sched_dp_size S \<longrightarrow> (\<exists>m c1. lookup ids ek r c = Inr (m, c1))"
    and "\<forall>q x. est (q\<lparr>gr_dp_rank := x\<rparr>) = est q"
    and "\<forall>q. Generate q \<in> set (pending_dp_reqs S @ recv) \<longrightarrow> ids_match q"
  shows "\<exists>ready S1 c1. select_dp_for_request ident fin rank_of estimate est lookup recv (S, c) = Inr (ready, S1, c1)
     \<and> map unranked (pending_dp_reqs S @ recv)
         \<in> shuffles (map unranked ready) (map unranked (pending_dp_reqs S1))
     \<and> (\<forall>q. Generate q \<in> set ready \<longrightarrow> (\<exists>r. gr_dp_rank q = Some r \<and> 0 \<le> r \<and> r < sched_dp_size S))
     \<and> (\<forall>m\<in>set (pending_dp_reqs S1). \<exists>q. m = Generate q \<and> gr_dp_rank q = None)"
proof (cases "recv = [] \<and> pending_dp_reqs S = []")
  case True
  then show ?thesis by (simp add: select_dp_for_request_def)
next
  case False
  let ?rs = "iter_dp_requests rank_of S"
  let ?lims = "map (\<lambda>info. if ri_full info then 0 else per_dp_max_running S) (sb_infos (running_batch S))"
  let ?z = "replicate (nat (sched_dp_size S)) 0 :: int list"
  let ?t = "\<lparr>seen = Map.empty, tally_counts = ?z, tally_inputs = ?z, tally_outputs = ?z\<rparr>"
  have ok: "owners_ok ident (sched_dp_size S) ?rs" and ap: "idents_apart ident ([] @ ?rs)"
    using assms(4-6) by (simp_all add: owners_ok_def idents_apart_def)
  have init: "tally_inv ident fin estimate (sched_dp_size S) [] ?t" "owners_ok ident (sched_dp_size S) []"
    by (simp_all add: tally_inv_def live_on_def owners_ok_def)
  obtain t1 where t1: "for_m (collect_step ident fin estimate (sched_dp_size S)) ?rs ?t = Inr t1"
      "tally_inv ident fin estimate (sched_dp_size S) ?rs t1"
    using collect_loop_inv [OF init ap] ok by (simp only: append_Nil if_True) blast
  define snap where "snap = \<lparr>snap_counts = tally_counts t1, snap_inputs = tally_inputs t1,
                snap_outputs = tally_outputs t1, snap_limits = ?lims\<rparr>"
  have snap: "collect_dp_load ident fin rank_of estimate S = Inr snap"
      "length (snap_counts snap) = nat (sched_dp_size S)" "length (snap_inputs snap) = nat (sched_dp_size S)"
      "length (snap_outputs snap) = nat (sched_dp_size S)" "snap_limits snap = ?lims"
    using t1 by (simp_all add: collect_dp_load_def collect_def Let_def tally_inv_def snap_def)
  define R where "R = router_init snap (dp_schedule_policy S) (dp_robin_counter S)"
  have n: "dp_size R = sched_dp_size S" using snap assms(1) by (simp add: R_def dp_size_def router_init_def)
  have "router_ok R" "probe_total lookup (dp_size R)" "rt_policy R \<noteq> ''round_robin''" "1 < dp_size R"
    using snap assms n by (auto simp: R_def router_init_def router_ok_def probe_total_def)
  from assign_loop_round [OF this(1,2) assms(9) this(3,4) assms(8),
      of "\<lparr>ready_reqs = [], pending_reqs = []\<rparr>" c]
  obtain rd pd R1 c1 where run: "assign_dp_loop (assign est lookup) (pending_dp_reqs S @ recv)
        \<lparr>ready_reqs = [], pending_reqs = []\<rparr> (R, c) = Inr (\<lparr>ready_reqs = rd, pending_reqs = pd\<rparr>, R1, c1)"
      and ok: "round_ok est R (pending_dp_reqs S @ recv) rd pd R1" by auto
  let ?S1 = "S\<lparr>dp_robin_counter := rt_robin R1, pending_dp_reqs := pd\<rparr>"
  have sel: "select_dp_for_request ident fin rank_of estimate est lookup recv (S, c) = Inr (rd, ?S1, c1)"
    using False assms(1,2) snap(1) run
    by (auto simp: select_dp_for_request_def assign_dp_ranks_def R_def [symmetric])
  have sh: "map unranked (pending_dp_reqs S @ recv) \<in> shuffles (map unranked rd) (map unranked pd)"
      and rd: "\<forall>m\<in>set rd. ready_ok (dp_size R) m" and pd: "\<forall>m\<in>set pd. deferred_ok m"
    using ok unfolding round_ok_def by blast+
  have "\<forall>q. Generate q \<in> set rd \<longrightarrow> (\<exists>r. gr_dp_rank q = Some r \<and> 0 \<le> r \<and> r < sched_dp_size S)"
    using rd ready_ok_Generate unfolding n by blast
  moreover have "\<forall>m\<in>set pd. \<exists>q. m = Generate q \<and> gr_dp_rank q = None"
    using pd by (simp add: deferred_ok_iff)
  moreover have "pending_dp_reqs ?S1 = pd" by simp
  ultimately show ?thesis using sel sh by metis
qed


definition demo_sched :: "(nat, unit) dp_sched" where
  "demo_sched = (let info = \<lparr>ri_reqs = Some [1, 2], ri_chunked = None, ri_full = False\<rparr>;
      idle = \<lparr>ri_reqs = None, ri_chunked = None, ri_full = False\<rparr>;
      b = \<lparr>sb_infos = [info, idle], sb_extend = True\<rparr> in
     \<lparr>running_batch = b, last_batch = Some b, parked_batch = None, pd_pending_migrate = None,
      chunked_reqs = [None, Some 3], waiting_queue = [], grammar_queue = [],
      pending_dp_reqs = [Generate demo_req], dp_schedule_policy = ''shape_aware'',
      per_dp_max_running = 2, dp_robin_counter = 0, sched_dp_size = 2\<rparr>)"

theorem select_dp_conserves_witness:
  "\<exists>ready S1 c1. select_dp_for_request id (\<lambda>_. False) (\<lambda>_. None) (\<lambda>_. (1, 1)) (\<lambda>_. (3, 4))
       (\<lambda>ids ek r c. Inr (0, c)) [Generate demo_req] (demo_sched, ()) = Inr (ready, S1, c1)
   \<and> map unranked [Generate demo_req, Generate demo_req]
       \<in> shuffles (map unranked ready) (map unranked (pending_dp_reqs S1))"
proof -
  have it: "iter_dp_requests (\<lambda>_. None) demo_sched = [(0, 1), (0, 2), (0, 1), (0, 2), (1, 3)]"
    by (simp add: iter_dp_requests_def demo_sched_def batch_owners_def info_owners_def upto_rec1 Let_def)
  show ?thesis
    using select_dp_conserves [of demo_sched id "\<lambda>_. None" "\<lambda>ids ek r c. Inr (0, c)" "\<lambda>_. (3, 4)"
        "[Generate demo_req]" "\<lambda>_. False" "\<lambda>_. (1, 1)" "()"]
    unfolding it by (auto simp: demo_sched_def Let_def ids_match_def demo_req_def)
qed

end
