(* ===== verification/Eplb.thy ===== *)
theory Eplb
  imports Sgl_Prelude Complex_Main
begin

text \<open>
  The expert-parallel load balancer: \<open>eplb/eplb_algorithms/deepseek.py\<close> (packing, replication, the
  hierarchical placement and its entry point), the dispatch in \<open>eplb/eplb_algorithms/__init__.py\<close>
  and the maps of \<open>eplb/expert_location.py\<close>. Every array operation of the source works on each
  layer alone, so the model computes one layer at a time.

  The loads are floats. What the algorithm does with them is a parameter: addition, the sum over an
  axis, division by a replica count, the comparison, and numpy's \<open>argsort\<close> of the negated loads,
  whose order of equal loads numpy leaves open. The theorems hold for every choice of them, rounding
  included; of \<open>argsort\<close> they use that it returns a permutation of the positions.
\<close>

record 'w load_ops =
  w_zero :: 'w
  w_add :: "'w \<Rightarrow> 'w \<Rightarrow> 'w"
  w_sum :: "'w list \<Rightarrow> 'w"
  w_div :: "'w \<Rightarrow> int \<Rightarrow> 'w"
  w_less :: "'w \<Rightarrow> 'w \<Rightarrow> bool"
  w_argsort_desc :: "'w list \<Rightarrow> int list"
  w_empty :: int

text \<open>\<open>w_empty\<close> stands for what \<open>np.empty_like\<close> leaves in an array.\<close>

text \<open>The first position of a least element and of a greatest one.\<close>

fun first_best :: "('w \<Rightarrow> 'w \<Rightarrow> bool) \<Rightarrow> ('a \<times> 'w) list \<Rightarrow> 'a \<times> 'w \<Rightarrow> 'a" where
  "first_best better [] best = fst best"
| "first_best better (x # xs) best = first_best better xs (if better (snd x) (snd best) then x else best)"

definition np_argmax :: "('w \<Rightarrow> 'w \<Rightarrow> bool) \<Rightarrow> 'w list \<Rightarrow> nat result" where
  "np_argmax lt xs = (case zip [0..<length xs] xs of [] \<Rightarrow> Inl ValueError
     | x # rest \<Rightarrow> Inr (first_best (\<lambda>a b. lt b a) rest x))"

text \<open>\<open>reshape(-1, k)\<close> of a flat row.\<close>

fun chunks :: "nat \<Rightarrow> nat \<Rightarrow> 'a list \<Rightarrow> 'a list list" where
  "chunks k 0 xs = []"
| "chunks k (Suc m) xs = take k xs # chunks k m (drop k xs)"

section \<open>Packing\<close>

record 'w packing =
  pack_weights :: "'w list"
  pack_items :: "int list"
  pack_index :: "int list"
  rank_in_pack :: "int list"

definition open_packs :: "int \<Rightarrow> 'w packing \<Rightarrow> nat list" where
  "open_packs groups_per_pack s =
     filter (\<lambda>p. pack_items s ! p < groups_per_pack) [0..<length (pack_items s)]"

definition pack_step :: "'w load_ops \<Rightarrow> 'w list \<Rightarrow> int \<Rightarrow> int \<Rightarrow> 'w packing \<Rightarrow> 'w packing result" where
  "pack_step F weight groups_per_pack grp s =
     (case map (\<lambda>p. (p, pack_weights s ! p)) (open_packs groups_per_pack s) of
        [] \<Rightarrow> Inl ValueError
      | x # rest \<Rightarrow>
          let pack = first_best (w_less F) rest x in
          rbind (raise_unless AssertionError (pack_items s ! pack < groups_per_pack)) (\<lambda>_.
          rbind (np_set (pack_index s) grp (int pack)) (\<lambda>pidx.
          rbind (np_set (rank_in_pack s) grp (pack_items s ! pack)) (\<lambda>ridx.
          rbind (np_get weight grp) (\<lambda>w.
            Inr \<lparr>pack_weights = (pack_weights s)[pack := w_add F (pack_weights s ! pack) w],
                 pack_items = (pack_items s)[pack := pack_items s ! pack + 1],
                 pack_index = pidx, rank_in_pack = ridx\<rparr>)))))"

definition balanced_packing_row ::
    "'w load_ops \<Rightarrow> nat \<Rightarrow> nat \<Rightarrow> 'w list \<Rightarrow> (int list \<times> int list) result" where
  "balanced_packing_row F num_groups num_packs weight =
     (let groups_per_pack = num_groups div num_packs in
      if groups_per_pack = 1 then Inr (np_arange 0 (int num_groups), replicate num_groups 0)
      else rbind (for_m (pack_step F weight (int groups_per_pack)) (w_argsort_desc F weight)
               \<lparr>pack_weights = replicate num_packs (w_zero F), pack_items = replicate num_packs 0,
                pack_index = replicate num_groups (-1), rank_in_pack = replicate num_groups (-1)\<rparr>)
             (\<lambda>s. Inr (pack_index s, rank_in_pack s)))"

definition balanced_packing ::
    "'w load_ops \<Rightarrow> nat \<Rightarrow> 'w list list \<Rightarrow> nat \<Rightarrow> (int list \<times> int list) list result" where
  "balanced_packing F num_groups weight num_packs =
     (if num_packs = 0 then Inl ZeroDivisionError
      else rbind (raise_unless AssertionError (num_groups mod num_packs = 0)) (\<lambda>_.
        map_m (balanced_packing_row F num_groups num_packs) weight))"

section \<open>Replication\<close>

record replication =
  phy2log :: "int list"
  phy_rank :: "int list"
  logcnt :: "int list"

definition replicate_step :: "'w load_ops \<Rightarrow> 'w list \<Rightarrow> nat \<Rightarrow> replication \<Rightarrow> replication result" where
  "replicate_step F weight i s =
     rbind (np_argmax (w_less F) (map (\<lambda>(w, c). w_div F w c) (zip weight (logcnt s)))) (\<lambda>e.
     rbind (np_set (phy2log s) (int i) (int e)) (\<lambda>p2l.
     rbind (np_set (phy_rank s) (int i) (logcnt s ! e)) (\<lambda>rk.
       Inr \<lparr>phy2log = p2l, phy_rank = rk, logcnt = (logcnt s)[e := logcnt s ! e + 1]\<rparr>)))"

definition replicate_experts_row :: "'w load_ops \<Rightarrow> nat \<Rightarrow> nat \<Rightarrow> 'w list \<Rightarrow> replication result" where
  "replicate_experts_row F num_log num_phy weight =
     for_m (replicate_step F weight) [num_log..<num_phy]
       \<lparr>phy2log = np_arange 0 (int num_phy), phy_rank = replicate num_phy 0,
        logcnt = replicate num_log 1\<rparr>"

definition replicate_experts ::
    "'w load_ops \<Rightarrow> nat \<Rightarrow> 'w list list \<Rightarrow> nat \<Rightarrow> replication list result" where
  "replicate_experts F num_log weight num_phy =
     rbind (raise_unless AssertionError (num_log \<le> num_phy)) (\<lambda>_.
       map_m (replicate_experts_row F num_log num_phy) weight)"

section \<open>The hierarchical placement of one layer\<close>

text \<open>The inner function \<open>inverse\<close>: \<open>inv[perm[i]] = i\<close>.\<close>

definition inverse_row :: "'w load_ops \<Rightarrow> int list \<Rightarrow> int list result" where
  "inverse_row F perm =
     np_put (replicate (length perm) (w_empty F)) perm (np_arange 0 (int (length perm)))"

text \<open>Step 1: the groups are packed onto the nodes; \<open>log2mlog\<close> numbers the experts by node.\<close>

definition node_numbering ::
    "'w load_ops \<Rightarrow> nat \<Rightarrow> nat \<Rightarrow> nat \<Rightarrow> 'w list \<Rightarrow> int list result" where
  "node_numbering F num_logical num_groups num_nodes weight =
     (let group_size = num_logical div num_groups; groups_per_node = num_groups div num_nodes in
      rbind (balanced_packing F num_groups [map (w_sum F) (chunks group_size num_groups weight)] num_nodes)
        (\<lambda>packs. case packs of [(gidx, grank)] \<Rightarrow>
           Inr (concat (map (\<lambda>(p, r). map (\<lambda>j. (p * int groups_per_node + r) * int group_size + j)
                               (np_arange 0 (int group_size))) (zip gidx grank)))
         | _ \<Rightarrow> Inl ValueError))"

text \<open>Steps 2 and 3 on one node: replicate its experts, pack the replicas onto the node's GPUs and
  list them in GPU order. The result is the logical expert (numbered within the node) and the replica
  rank of each physical expert, and the replica counts.\<close>

definition place_node ::
    "'w load_ops \<Rightarrow> nat \<Rightarrow> nat \<Rightarrow> nat \<Rightarrow> nat \<Rightarrow> 'w list \<Rightarrow> (int list \<times> int list \<times> int list) result" where
  "place_node F log_per_node phy_per_node gpus_per_node phy_experts_per_gpu tokens_per_mlog =
     rbind (replicate_experts F log_per_node [tokens_per_mlog] phy_per_node) (\<lambda>reps.
     case reps of [R] \<Rightarrow>
       rbind (np_take (map (\<lambda>(w, c). w_div F w c) (zip tokens_per_mlog (logcnt R))) (phy2log R))
         (\<lambda>tokens_per_phy.
       rbind (balanced_packing F phy_per_node [tokens_per_phy] gpus_per_node) (\<lambda>packs.
       case packs of [(pidx, prank)] \<Rightarrow>
         rbind (inverse_row F (map (\<lambda>(p, r). p * int phy_experts_per_gpu + r) (zip pidx prank)))
           (\<lambda>pphy2phy.
         rbind (np_take (phy2log R) pphy2phy) (\<lambda>pphy2mlog.
         rbind (np_take (phy_rank R) pphy2phy) (\<lambda>pphyrank.
           Inr (pphy2mlog, pphyrank, logcnt R))))
       | _ \<Rightarrow> Inl ValueError))
     | _ \<Rightarrow> Inl ValueError)"

text \<open>The node's offset \<open>node * (num_logical_experts // num_nodes)\<close> makes the numbers layer-wide.\<close>

definition place_layer ::
    "'w load_ops \<Rightarrow> nat \<Rightarrow> nat \<Rightarrow> nat \<Rightarrow> nat \<Rightarrow> nat \<Rightarrow> 'w list \<Rightarrow> (int list \<times> int list \<times> int list) result" where
  "place_layer F num_logical num_phy num_groups num_nodes num_gpus weight =
     (let log_per_node = num_logical div num_nodes in
      rbind (node_numbering F num_logical num_groups num_nodes weight) (\<lambda>log2mlog.
      rbind (inverse_row F log2mlog) (\<lambda>mlog2log.
      rbind (np_take weight mlog2log) (\<lambda>tokens.
      if log_per_node = 0 then Inl ValueError
      else
      rbind (map_m (place_node F log_per_node (num_phy div num_nodes) (num_gpus div num_nodes)
                      (num_phy div num_gpus)) (chunks log_per_node num_nodes tokens)) (\<lambda>nodes.
      let pphy2mlog = concat (map (\<lambda>(v, n). map (\<lambda>e. e + int (v * log_per_node)) (fst n))
                         (zip [0..<num_nodes] nodes)) in
      rbind (np_take mlog2log pphy2mlog) (\<lambda>pphy2log.
      rbind (np_take (concat (map (snd \<circ> snd) nodes)) log2mlog) (\<lambda>cnt.
        Inr (pphy2log, concat (map (fst \<circ> snd) nodes), cnt))))))))"

definition rebalance_experts_hierarchical ::
    "'w load_ops \<Rightarrow> nat \<Rightarrow> 'w list list \<Rightarrow> nat \<Rightarrow> nat \<Rightarrow> nat \<Rightarrow> nat
      \<Rightarrow> (int list \<times> int list \<times> int list) list result" where
  "rebalance_experts_hierarchical F num_logical weight num_phy num_groups num_nodes num_gpus =
     (if num_groups = 0 then Inl ZeroDivisionError
      else rbind (raise_unless AssertionError (num_logical mod num_groups = 0)) (\<lambda>_.
      if num_nodes = 0 then Inl ZeroDivisionError
      else rbind (raise_unless AssertionError (num_groups mod num_nodes = 0)) (\<lambda>_.
      rbind (raise_unless AssertionError (num_gpus mod num_nodes = 0)) (\<lambda>_.
      if num_gpus = 0 then Inl ZeroDivisionError
      else rbind (raise_unless AssertionError (num_phy mod num_gpus = 0)) (\<lambda>_.
        map_m (place_layer F num_logical num_phy num_groups num_nodes num_gpus) weight)))))"

section \<open>The entry point\<close>

text \<open>The scatter of one layer: \<open>log2phy[e, r]\<close> is the physical expert that is replica \<open>r\<close> of
  \<open>e\<close>, and \<open>-1\<close> pads the row.\<close>

definition scatter_row :: "nat \<Rightarrow> nat \<Rightarrow> nat \<Rightarrow> int list \<Rightarrow> int list \<Rightarrow> int list list result" where
  "scatter_row num_logical num_replicas maxlogcnt p2l rk =
     rbind (np_put (replicate (num_logical * maxlogcnt) (-1))
              (map (\<lambda>(e, r). e * int maxlogcnt + r) (zip p2l rk)) (np_arange 0 (int num_replicas)))
       (\<lambda>flat. Inr (chunks maxlogcnt num_logical flat))"

record placement =
  physical_to_logical :: "int list list"
  logical_to_physical :: "int list list list"
  expert_count :: "int list list"

definition rebalance_experts ::
    "'w load_ops \<Rightarrow> nat \<Rightarrow> 'w list list \<Rightarrow> nat \<Rightarrow> nat \<Rightarrow> nat \<Rightarrow> nat \<Rightarrow> bool \<Rightarrow> placement result" where
  "rebalance_experts F num_logical weight num_replicas num_groups num_nodes num_gpus enable_hierarchical =
     rbind (if enable_hierarchical
            then rebalance_experts_hierarchical F num_logical weight num_replicas num_groups num_nodes num_gpus
            else rebalance_experts_hierarchical F num_logical weight num_replicas 1 1 num_gpus) (\<lambda>layers.
     let cnts = map (snd \<circ> snd) layers in
     if concat cnts = [] then Inl ValueError
     else
       let maxlogcnt = nat (Max (set (concat cnts))) in
       rbind (map_m (\<lambda>(p2l, rk, _). scatter_row num_logical num_replicas maxlogcnt p2l rk) layers)
         (\<lambda>l2p. Inr \<lparr>physical_to_logical = map fst layers, logical_to_physical = l2p,
                   expert_count = cnts\<rparr>))"

datatype eplb_algorithm = deepseek | deepseek_hierarchical

definition compute_algorithm :: "string \<Rightarrow> nat option \<Rightarrow> nat \<Rightarrow> eplb_algorithm result" where
  "compute_algorithm raw num_groups num_nodes =
     (if raw = ''deepseek'' then Inr deepseek
      else if raw = ''deepseek_hierarchical'' then Inr deepseek_hierarchical
      else if raw \<noteq> ''auto'' then Inl KeyError
      else case num_groups of None \<Rightarrow> Inr deepseek
        | Some g \<Rightarrow> if num_nodes = 0 then Inl ZeroDivisionError
            else if g mod num_nodes = 0 then Inr deepseek_hierarchical else Inr deepseek)"

definition eplb_rebalance ::
    "'w load_ops \<Rightarrow> nat \<Rightarrow> 'w list list \<Rightarrow> nat \<Rightarrow> nat \<Rightarrow> nat option \<Rightarrow> nat \<Rightarrow> eplb_algorithm
      \<Rightarrow> placement result" where
  "eplb_rebalance F num_logical tokens num_phy num_local num_groups num_nodes alg =
     (if num_local = 0 then Inl ZeroDivisionError
      else let hier = (alg = deepseek_hierarchical) in
        case num_groups of
          Some g \<Rightarrow> rebalance_experts F num_logical tokens num_phy g num_nodes (num_phy div num_local) hier
        | None \<Rightarrow> if hier then Inl TypeError
            else rebalance_experts F num_logical tokens num_phy 1 num_nodes (num_phy div num_local) hier)"

section \<open>Slots: an expert and a replica rank\<close>

text \<open>\<open>tallied xs ys cnt\<close>: the pairs \<open>(xs[i], ys[i])\<close> list every \<open>(e, r)\<close> with \<open>r < cnt[e]\<close> exactly
  once. Packing and replication both keep it, and it survives reordering, renumbering and joining
  the nodes; the placement and its inverse map follow from it.\<close>

definition slots :: "int list \<Rightarrow> (int \<times> int) set" where
  "slots cnt = {(e, r). 0 \<le> e \<and> e < int (length cnt) \<and> 0 \<le> r \<and> r < cnt ! nat e}"

definition tallied :: "int list \<Rightarrow> int list \<Rightarrow> int list \<Rightarrow> bool" where
  "tallied xs ys cnt \<longleftrightarrow> length ys = length xs \<and> distinct (zip xs ys) \<and> set (zip xs ys) = slots cnt"

definition is_perm :: "nat \<Rightarrow> int list \<Rightarrow> bool" where
  "is_perm n xs \<longleftrightarrow> distinct xs \<and> set xs = {0..<int n}"

lemma is_perm_length: "is_perm n xs \<Longrightarrow> length xs = n"
  by (auto simp: is_perm_def dest: distinct_card)

lemma is_perm_range: "is_perm n xs \<Longrightarrow> i \<in> set xs \<Longrightarrow> 0 \<le> i \<and> i < int n"
  by (auto simp: is_perm_def)

lemma is_perm_arange: "is_perm n (np_arange 0 (int n))"
  by (simp add: is_perm_def)

lemma mset_is_perm: "is_perm n xs \<Longrightarrow> mset xs = mset (np_arange 0 (int n))"
  by (simp add: is_perm_def set_eq_iff_mset_eq_distinct [symmetric])

lemma mset_reorder:
  assumes "is_perm (length xs) p"
  shows "mset (map (\<lambda>i. xs ! nat i) p) = mset xs"
proof -
  have "mset (map (\<lambda>i. xs ! nat i) p) = image_mset (\<lambda>i. xs ! nat i) (mset (np_arange 0 (int (length xs))))"
    using mset_is_perm [OF assms] by simp
  also have "\<dots> = mset (map (\<lambda>i. xs ! nat i) (np_arange 0 (int (length xs))))" by simp
  also have "map (\<lambda>i. xs ! nat i) (np_arange 0 (int (length xs))) = xs"
    by (rule nth_equalityI) simp_all
  finally show ?thesis .
qed

lemma tallied_mset:
  assumes "mset (zip xs ys) = mset (zip xs' ys')" "length ys = length xs" "length ys' = length xs'"
  shows "tallied xs ys cnt \<longleftrightarrow> tallied xs' ys' cnt"
  using assms mset_eq_setD [OF assms(1)] mset_eq_imp_distinct_iff [OF assms(1)] by (simp add: tallied_def)

lemma tallied_reorder:
  assumes "is_perm (length xs) p" "length ys = length xs"
  shows "tallied (map (\<lambda>i. xs ! nat i) p) (map (\<lambda>i. ys ! nat i) p) cnt \<longleftrightarrow> tallied xs ys cnt"
proof (rule tallied_mset)
  have "zip (map (\<lambda>i. xs ! nat i) p) (map (\<lambda>i. ys ! nat i) p) = map (\<lambda>i. zip xs ys ! nat i) p"
    using assms is_perm_range [OF assms(1)] by (intro nth_equalityI) (force simp: nat_less_iff)+
  then show "mset (zip (map (\<lambda>i. xs ! nat i) p) (map (\<lambda>i. ys ! nat i) p)) = mset (zip xs ys)"
    using mset_reorder [of "zip xs ys" p] assms by simp
qed (simp_all add: assms)

lemma slots_bump:
  assumes "0 \<le> e" "e < int (length cnt)" "0 \<le> cnt ! nat e"
  shows "slots (cnt[nat e := cnt ! nat e + 1]) = insert (e, cnt ! nat e) (slots cnt)"
  using assms by (auto simp: slots_def nth_list_update split: if_splits)

lemma tallied_snoc:
  assumes "tallied xs ys cnt" "0 \<le> e" "e < int (length cnt)" "0 \<le> cnt ! nat e"
  shows "tallied (xs @ [e]) (ys @ [cnt ! nat e]) (cnt[nat e := cnt ! nat e + 1])"
proof -
  have "(e, cnt ! nat e) \<notin> slots cnt" by (simp add: slots_def)
  then show ?thesis using assms by (auto simp: tallied_def slots_bump)
qed

lemma card_slots: "card (slots cnt) = nat (\<Sum>c\<leftarrow>cnt. max 0 c)"
proof -
  have "slots cnt = (\<lambda>(k, r). (int k, int r)) ` (SIGMA k:{..<length cnt}. {..<nat (cnt ! k)})"
  proof (intro set_eqI iffI)
    fix x assume "x \<in> slots cnt"
    then show "x \<in> (\<lambda>(k, r). (int k, int r)) ` (SIGMA k:{..<length cnt}. {..<nat (cnt ! k)})"
      by (intro image_eqI [of _ _ "(nat (fst x), nat (snd x))"]) (auto simp: slots_def)
  qed (auto simp: slots_def)
  then have "card (slots cnt) = (\<Sum>k<length cnt. nat (cnt ! k))"
    by (simp add: card_image inj_on_def)
  also have "int \<dots> = (\<Sum>k<length cnt. max 0 (cnt ! k))" by (simp add: max_def)
  also have "\<dots> = (\<Sum>c\<leftarrow>cnt. max 0 c)"
    by (simp add: sum_list_sum_nth atLeast0LessThan)
  finally show ?thesis by simp
qed

lemma tallied_length: "tallied xs ys cnt \<Longrightarrow> \<forall>c\<in>set cnt. 0 \<le> c \<Longrightarrow> int (length xs) = sum_list cnt"
proof -
  assume t: "tallied xs ys cnt" and c: "\<forall>c\<in>set cnt. 0 \<le> c"
  have "map (max 0) cnt = cnt" using c by (intro map_idI) (simp add: max_def)
  moreover have "length xs = card (slots cnt)"
    using t distinct_card [of "zip xs ys"] by (simp add: tallied_def)
  moreover have "0 \<le> sum_list cnt" using c by (simp add: sum_list_nonneg)
  ultimately show ?thesis by (simp add: card_slots)
qed


section \<open>Packing fills every pack\<close>

lemma first_best_in: "first_best b xs x \<in> fst ` set (x # xs)"
proof (induction xs arbitrary: x)
  case (Cons y ys)
  show ?case using Cons.IH [of y] Cons.IH [of x] by (cases "b (snd y) (snd x)") auto
qed simp

lemma sum_list_le_max:
  fixes k :: int
  assumes "\<forall>c\<in>set xs. c \<le> k"
  shows "sum_list xs \<le> int (length xs) * k"
  using assms by (induction xs) (auto simp: algebra_simps)

lemma sum_list_all_max:
  fixes k :: int
  assumes "\<forall>c\<in>set xs. c \<le> k" "int (length xs) * k \<le> sum_list xs"
  shows "xs = replicate (length xs) k"
  using assms
proof (induction xs)
  case (Cons x xs)
  have "sum_list xs \<le> int (length xs) * k" "x \<le> k"
    using Cons.prems(1) by (auto intro: sum_list_le_max)
  with Cons.prems(2) have "x = k" "int (length xs) * k \<le> sum_list xs" by (auto simp: algebra_simps)
  with Cons show ?case by simp
qed simp

text \<open>The packs after the groups \<open>gs\<close> have been placed.\<close>

definition packed :: "nat \<Rightarrow> nat \<Rightarrow> int \<Rightarrow> int list \<Rightarrow> 'w packing \<Rightarrow> bool" where
  "packed n m gpp gs s \<longleftrightarrow> length (pack_items s) = m \<and> length (pack_weights s) = m
     \<and> length (pack_index s) = n \<and> length (rank_in_pack s) = n
     \<and> (\<forall>c\<in>set (pack_items s). 0 \<le> c \<and> c \<le> gpp)
     \<and> distinct gs \<and> set gs \<subseteq> {0..<int n}
     \<and> tallied (map (\<lambda>g. pack_index s ! nat g) gs) (map (\<lambda>g. rank_in_pack s ! nat g) gs) (pack_items s)"

lemma packed_room:
  assumes "packed n m gpp gs s" "int (length gs) < int m * gpp"
  shows "open_packs gpp s \<noteq> []"
proof
  assume "open_packs gpp s = []"
  then have full: "\<forall>p<m. gpp \<le> pack_items s ! p"
    using assms(1) by (simp add: open_packs_def filter_empty_conv packed_def not_less)
  have "pack_items s ! p \<le> gpp" if "p < m" for p
    using assms(1) that nth_mem [of p "pack_items s"] by (auto simp: packed_def)
  with full have "pack_items s = replicate m gpp"
    using assms(1) by (intro nth_equalityI) (auto simp: packed_def intro: antisym)
  then have "sum_list (pack_items s) = int m * gpp" by (simp add: sum_list_replicate)
  moreover have "int (length gs) = sum_list (pack_items s)"
    using assms(1) tallied_length [of "map (\<lambda>g. pack_index s ! nat g) gs" _ "pack_items s"]
    by (auto simp: packed_def)
  ultimately show False using assms(2) by simp
qed

lemma pack_step_ok:
  assumes inv: "packed n m gpp gs s" and room: "int (length gs) < int m * gpp"
    and g: "0 \<le> g" "g < int n" "g \<notin> set gs" and w: "length weight = n"
  shows "\<exists>s1. pack_step F weight gpp g s = Inr s1 \<and> packed n m gpp (gs @ [g]) s1"
proof -
  obtain p0 ps where ps: "open_packs gpp s = p0 # ps"
    using packed_room [OF inv room] by (cases "open_packs gpp s") auto
  define rest where "rest = map (\<lambda>p. (p, pack_weights s ! p)) ps"
  define p where "p = first_best (w_less F) rest (p0, pack_weights s ! p0)"
  have "p \<in> set (open_packs gpp s)"
    using first_best_in [of "w_less F" rest "(p0, pack_weights s ! p0)"] ps by (auto simp: p_def rest_def)
  then have p: "p < m" "pack_items s ! p < gpp"
    using inv by (auto simp: open_packs_def packed_def)
  have nn: "0 \<le> pack_items s ! p" using inv p(1) by (auto simp: packed_def)
  define s1 where "s1 = \<lparr>pack_weights = (pack_weights s)[p := w_add F (pack_weights s ! p) (weight ! nat g)],
       pack_items = (pack_items s)[p := pack_items s ! p + 1],
       pack_index = (pack_index s)[nat g := int p], rank_in_pack = (rank_in_pack s)[nat g := pack_items s ! p]\<rparr>"
  have "pack_step F weight gpp g s = Inr s1"
    using inv p g w unfolding pack_step_def ps
    by (simp add: rest_def [symmetric] p_def [symmetric] s1_def packed_def Let_def)
  moreover have "packed n m gpp (gs @ [g]) s1"
  proof -
    have keep: "map (\<lambda>h. xs[nat g := v] ! nat h) gs = map (\<lambda>h. xs ! nat h) gs" for xs :: "int list" and v
      using g inv by (auto simp: packed_def nat_eq_iff2 intro!: map_cong nth_list_update_neq)
    have items: "\<forall>c\<in>set ((pack_items s)[p := pack_items s ! p + 1]). 0 \<le> c \<and> c \<le> gpp"
      using inv p nn set_update_subset_insert [of "pack_items s" p] by (fastforce simp: packed_def)
    have "tallied (map (\<lambda>g. pack_index s ! nat g) gs @ [int p])
        (map (\<lambda>g. rank_in_pack s ! nat g) gs @ [pack_items s ! p]) ((pack_items s)[p := pack_items s ! p + 1])"
      using tallied_snoc [of _ _ "pack_items s" "int p"] inv p nn by (simp add: packed_def)
    then show ?thesis
      using inv g items by (simp add: packed_def s1_def keep)
  qed
  ultimately show ?thesis by blast
qed

lemma pack_loop_ok:
  assumes "packed n m gpp gs s" "int n = int m * gpp" "is_perm n (gs @ hs)" "length weight = n"
  shows "\<exists>s1. for_m (pack_step F weight gpp) hs s = Inr s1 \<and> packed n m gpp (gs @ hs) s1"
  using assms
proof (induction hs arbitrary: gs s)
  case (Cons h hs)
  have "length (gs @ h # hs) = n" using is_perm_length [OF Cons.prems(3)] .
  then have "int (length gs) < int m * gpp" using Cons.prems(2) by simp
  moreover have "0 \<le> h" "h < int n" "h \<notin> set gs"
    using Cons.prems(3) is_perm_range [OF Cons.prems(3), of h] by (auto simp: is_perm_def)
  ultimately obtain s1 where "pack_step F weight gpp h s = Inr s1" "packed n m gpp (gs @ [h]) s1"
    using pack_step_ok Cons.prems by metis
  with Cons.IH [of "gs @ [h]" s1] Cons.prems show ?case by auto
qed simp

definition sorter_ok :: "'w load_ops \<Rightarrow> bool" where
  "sorter_ok F \<longleftrightarrow> (\<forall>ws. is_perm (length ws) (w_argsort_desc F ws))"

lemma slots_ones: "slots (replicate n 1) = (\<lambda>e. (e, 0)) ` {0..<int n}"
  by (auto simp: slots_def)

lemma tallied_ones: "tallied (np_arange 0 (int n)) (replicate n 0) (replicate n 1)"
proof -
  have z: "zip (np_arange 0 (int n)) (replicate n 0) = map (\<lambda>e. (e, 0)) (np_arange 0 (int n))"
    by (rule nth_equalityI) simp_all
  show ?thesis by (simp add: tallied_def z slots_ones distinct_map inj_on_def)
qed

lemma balanced_packing_row_ok:
  assumes "0 < m" "n mod m = 0" "length weight = n" "sorter_ok F"
  shows "\<exists>pidx prank. balanced_packing_row F n m weight = Inr (pidx, prank)
     \<and> length pidx = n \<and> tallied pidx prank (replicate m (int (n div m)))"
proof (cases "n div m = 1")
  case True
  with assms(2) have "n = m" by (metis mult.right_neutral mult_div_mod_eq add.right_neutral)
  with True show ?thesis
    using tallied_ones [of n] by (simp add: balanced_packing_row_def Let_def)
next
  case False
  define s0 where "s0 = \<lparr>pack_weights = replicate m (w_zero F), pack_items = replicate m 0,
                pack_index = replicate n (-1), rank_in_pack = replicate n (-1)\<rparr>"
  have eq: "n = m * (n div m)" using assms(2) by (metis mult_div_mod_eq add.right_neutral)
  have p: "is_perm n (w_argsort_desc F weight)" using assms by (auto simp: sorter_ok_def)
  have "packed n m (int (n div m)) [] s0"
    by (auto simp: packed_def s0_def tallied_def slots_def)
  moreover have "int n = int m * int (n div m)" using eq by (metis of_nat_mult)
  ultimately obtain s1 where run: "for_m (pack_step F weight (int (n div m))) (w_argsort_desc F weight) s0 = Inr s1"
      and inv: "packed n m (int (n div m)) (w_argsort_desc F weight) s1"
    using pack_loop_ok [of n m _ "[]" s0 "w_argsort_desc F weight" weight F] p assms(3) by auto
  have t: "tallied (pack_index s1) (rank_in_pack s1) (pack_items s1)"
    using inv p tallied_reorder [of "pack_index s1" "w_argsort_desc F weight" "rank_in_pack s1"]
    by (simp add: packed_def)
  have "int (length (pack_index s1)) = sum_list (pack_items s1)"
    using tallied_length [OF t] inv by (auto simp: packed_def)
  then have "pack_items s1 = replicate m (int (n div m))"
    using inv \<open>int n = _\<close> sum_list_all_max [of "pack_items s1" "int (n div m)"] by (auto simp: packed_def)
  with t run inv False show ?thesis
    by (simp add: balanced_packing_row_def Let_def s0_def packed_def)
qed

section \<open>Replication\<close>

lemma np_argmax_ok:
  assumes "xs \<noteq> []"
  shows "\<exists>e<length xs. np_argmax lt xs = Inr e"
proof -
  obtain x rest where z: "zip [0..<length xs] xs = x # rest" using assms by (cases xs) (auto simp: upt_rec)
  have "first_best (\<lambda>a b. lt b a) rest x \<in> fst ` set (zip [0..<length xs] xs)"
    using first_best_in [of "\<lambda>a b. lt b a" rest x] z by simp
  then have "first_best (\<lambda>a b. lt b a) rest x < length xs" by (auto dest: set_zip_leftD)
  then show ?thesis by (auto simp: np_argmax_def z)
qed

definition replicated :: "nat \<Rightarrow> nat \<Rightarrow> nat \<Rightarrow> replication \<Rightarrow> bool" where
  "replicated num_log num_phy i s \<longleftrightarrow> length (phy2log s) = num_phy \<and> length (phy_rank s) = num_phy
     \<and> length (logcnt s) = num_log \<and> (\<forall>c\<in>set (logcnt s). 1 \<le> c)
     \<and> tallied (take i (phy2log s)) (take i (phy_rank s)) (logcnt s)"

lemma replicate_step_ok:
  assumes inv: "replicated num_log num_phy i s" and "i < num_phy" "0 < num_log" "length weight = num_log"
  shows "\<exists>s1. replicate_step F weight i s = Inr s1 \<and> replicated num_log num_phy (Suc i) s1"
proof -
  let ?ws = "map (\<lambda>(w, c). w_div F w c) (zip weight (logcnt s))"
  have "?ws \<noteq> []" "length ?ws = num_log" using assms by (auto simp: replicated_def)
  then obtain e where e: "e < num_log" "np_argmax (w_less F) ?ws = Inr e" using np_argmax_ok by metis
  have c: "0 \<le> logcnt s ! e" using inv e(1) by (auto simp: replicated_def dest!: bspec [OF _ nth_mem [of e]])
  have t: "tallied (take i (phy2log s) @ [int e]) (take i (phy_rank s) @ [logcnt s ! e])
      ((logcnt s)[e := logcnt s ! e + 1])"
    using tallied_snoc [of _ _ "logcnt s" "int e"] inv e c by (simp add: replicated_def)
  have "\<forall>c\<in>set ((logcnt s)[e := logcnt s ! e + 1]). 1 \<le> c"
    using inv c set_update_subset_insert [of "logcnt s" e] by (fastforce simp: replicated_def)
  with t inv assms(2) e(2) show ?thesis
    by (simp add: replicate_step_def replicated_def take_Suc_conv_app_nth)
qed

lemma replicate_loop_ok:
  assumes "replicated num_log num_phy i s" "i \<le> num_phy" "0 < num_log" "length weight = num_log"
  shows "\<exists>s1. for_m (replicate_step F weight) [i..<num_phy] s = Inr s1 \<and> replicated num_log num_phy num_phy s1"
  using assms
proof (induction "num_phy - i" arbitrary: i s)
  case (Suc d)
  then have i: "i < num_phy" by simp
  obtain s1 where "replicate_step F weight i s = Inr s1" "replicated num_log num_phy (Suc i) s1"
    using replicate_step_ok [OF Suc.prems(1) i Suc.prems(3,4)] by blast
  with Suc.hyps(1) [of "Suc i" s1] Suc.hyps(2) Suc.prems i show ?case by (simp add: upt_conv_Cons)
qed simp

lemma replicate_experts_row_ok:
  assumes "0 < num_log" "num_log \<le> num_phy" "length weight = num_log"
  shows "\<exists>R. replicate_experts_row F num_log num_phy weight = Inr R
     \<and> length (phy2log R) = num_phy \<and> length (logcnt R) = num_log \<and> (\<forall>c\<in>set (logcnt R). 1 \<le> c)
     \<and> tallied (phy2log R) (phy_rank R) (logcnt R)"
proof -
  have "take num_log (np_arange 0 (int num_phy)) = np_arange 0 (int num_log)"
    using assms(2) by (intro nth_equalityI) simp_all
  then have "replicated num_log num_phy num_log \<lparr>phy2log = np_arange 0 (int num_phy),
      phy_rank = replicate num_phy 0, logcnt = replicate num_log 1\<rparr>"
    using tallied_ones [of num_log] assms(2) by (simp add: replicated_def min_absorb1)
  from replicate_loop_ok [OF this assms(2,1,3), of F] show ?thesis
    by (auto simp: replicate_experts_row_def replicated_def)
qed

section \<open>Permutations\<close>

lemma is_permI: "length q = n \<Longrightarrow> {0..<int n} \<subseteq> set q \<Longrightarrow> is_perm n q"
proof -
  assume q: "length q = n" "{0..<int n} \<subseteq> set q"
  have "card (set q) \<le> n" using card_length [of q] q by simp
  moreover have "card {0..<int n} = n" by simp
  ultimately have "set q = {0..<int n}"
    using q(2) by (metis card_seteq finite_set)
  with q show ?thesis by (simp add: is_perm_def card_distinct)
qed

lemma inverse_row_ok:
  assumes "is_perm n p"
  shows "\<exists>q. inverse_row F p = Inr q \<and> is_perm n q \<and> (\<forall>i<n. q ! nat (p ! i) = int i)
     \<and> (\<forall>j<n. p ! nat (q ! j) = int j)"
proof -
  note len = is_perm_length [OF assms]
  have rng: "\<forall>i\<in>set p. 0 \<le> i \<and> i < int (length (replicate (length p) (w_empty F)))"
    using is_perm_range [OF assms] len by simp
  obtain q where q: "np_put (replicate (length p) (w_empty F)) p (np_arange 0 (int (length p))) = Inr q"
    using np_put_total [OF rng] by fastforce
  have nth: "q ! nat (p ! i) = int i" if "i < n" for i
    using np_put_nth [OF q rng] assms that len by (simp add: is_perm_def)
  have lq: "length q = n" using length_np_put [OF q] len by simp
  have pi: "nat (p ! i) < n" "0 \<le> p ! i" if "i < n" for i
    using is_perm_range [OF assms, of "p ! i"] that len by (simp_all add: nat_less_iff)
  have "k \<in> set q" if k: "k \<in> {0..<int n}" for k
  proof -
    have "nat k < n" using k by auto
    then have "q ! nat (p ! nat k) = k" "nat (p ! nat k) < length q"
      using nth pi(1) lq k by auto
    then show ?thesis using nth_mem by metis
  qed
  then have permq: "is_perm n q" using lq by (intro is_permI) auto
  have "p ! nat (q ! j) = int j" if "j < n" for j
  proof -
    have "int j \<in> set p" using assms that by (simp add: is_perm_def)
    then obtain i where i: "i < n" "p ! i = int j" using len by (auto simp: in_set_conv_nth)
    with nth [OF i(1)] show ?thesis by simp
  qed
  with q permq nth show ?thesis by (auto simp: inverse_row_def)
qed

lemma slot_number_inj:
  fixes k :: int
  assumes "0 \<le> r" "r < k" "0 \<le> r'" "r' < k" "e * k + r = e' * k + r'"
  shows "e = e' \<and> r = r'"
proof -
  have "e = (e * k + r) div k" using assms(1,2) by simp
  also have "\<dots> = (e' * k + r') div k" using assms(5) by simp
  also have "\<dots> = e'" using assms(3,4) by simp
  finally show ?thesis using assms(5) by simp
qed

lemma slot_number_range:
  fixes k :: int
  assumes "0 \<le> e" "e < m" "0 \<le> r" "r < k"
  shows "0 \<le> e * k + r" "e * k + r < m * k"
proof -
  have "(e + 1) * k \<le> m * k" using assms by (intro mult_right_mono) auto
  then show "e * k + r < m * k" using assms by (simp add: algebra_simps)
qed (use assms in simp)

lemma split_number:
  assumes "x \<in> {0..<int (m * k)}"
  shows "0 \<le> x div int k" "x div int k < int m" "0 \<le> x mod int k" "x mod int k < int k"
proof -
  have k: "0 < k" using assms by (cases k) auto
  then show "0 \<le> x mod int k" "x mod int k < int k" by simp_all
  show "0 \<le> x div int k" using assms k by (simp add: pos_imp_zdiv_nonneg_iff)
  show "x div int k < int m"
  proof (rule ccontr)
    assume "\<not> x div int k < int m"
    then have "int m * int k \<le> (x div int k) * int k" by (intro mult_right_mono) auto
    also have "\<dots> = x - x mod int k" by (simp add: minus_mod_eq_div_mult)
    also have "\<dots> \<le> x" using k by simp
    finally show False using assms by simp
  qed
qed

lemma perm_of_tallied:
  assumes "tallied xs ys (replicate m (int k))"
  shows "is_perm (m * k) (map (\<lambda>(p, r). p * int k + r) (zip xs ys))"
proof (rule is_permI)
  have "int (length xs) = int (m * k)"
    using tallied_length [OF assms] by (simp add: sum_list_replicate)
  then have "length xs = m * k" by (simp only: of_nat_eq_iff)
  then show "length (map (\<lambda>(p, r). p * int k + r) (zip xs ys)) = m * k"
    using assms by (simp add: tallied_def)
  show "{0..<int (m * k)} \<subseteq> set (map (\<lambda>(p, r). p * int k + r) (zip xs ys))"
  proof
    fix x assume x: "x \<in> {0..<int (m * k)}"
    note d = split_number [OF x]
    then have "(x div int k, x mod int k) \<in> set (zip xs ys)"
      using assms by (simp add: tallied_def slots_def nat_less_iff)
    then show "x \<in> set (map (\<lambda>(p, r). p * int k + r) (zip xs ys))"
      unfolding set_map by (rule rev_image_eqI) simp
  qed
qed

lemma perm_expand:
  assumes "is_perm n xs"
  shows "is_perm (n * k) (concat (map (\<lambda>x. map (\<lambda>j. x * int k + j) (np_arange 0 (int k))) xs))"
proof (rule is_permI)
  show "length (concat (map (\<lambda>x. map (\<lambda>j. x * int k + j) (np_arange 0 (int k))) xs)) = n * k"
    using is_perm_length [OF assms] by (simp add: length_concat comp_def sum_list_triv)
  show "{0..<int (n * k)} \<subseteq> set (concat (map (\<lambda>x. map (\<lambda>j. x * int k + j) (np_arange 0 (int k))) xs))"
  proof
    let ?f = "\<lambda>x. map (\<lambda>j. x * int k + j) (np_arange 0 (int k))"
    fix x assume "x \<in> {0..<int (n * k)}"
    note d = split_number [OF this]
    have a: "x \<in> set (?f (x div int k))"
      unfolding set_map by (rule image_eqI [of _ _ "x mod int k"]) (use d in simp_all)
    have b: "x div int k \<in> set xs" using d assms by (simp add: is_perm_def)
    show "x \<in> set (concat (map ?f xs))"
      using UN_I [OF b, of x "\<lambda>y. set (?f y)"] a by (simp only: set_concat set_map image_image)
  qed
qed

section \<open>Renumbering and joining\<close>

lemma slots_append:
  "slots (c1 @ c2) = slots c1 \<union> (\<lambda>(e, r). (e + int (length c1), r)) ` slots c2"
proof (intro set_eqI iffI)
  fix x assume x: "x \<in> slots (c1 @ c2)"
  show "x \<in> slots c1 \<union> (\<lambda>(e, r). (e + int (length c1), r)) ` slots c2"
  proof (cases "fst x < int (length c1)")
    case True
    with x show ?thesis by (auto simp: slots_def nth_append nat_less_iff)
  next
    case False
    with x have "(fst x - int (length c1), snd x) \<in> slots c2"
      by (auto simp: slots_def nth_append nat_diff_distrib nat_less_iff)
    then show ?thesis by (intro UnI2 image_eqI [of _ _ "(fst x - int (length c1), snd x)"]) auto
  qed
qed (auto simp: slots_def nth_append nat_less_iff nat_add_distrib)

lemma tallied_append:
  assumes "tallied xs ys c1" "tallied as bs c2"
  shows "tallied (xs @ map (\<lambda>e. e + int (length c1)) as) (ys @ bs) (c1 @ c2)"
proof -
  let ?f = "\<lambda>(e, r). (e + int (length c1), r :: int)"
  have z: "zip (xs @ map (\<lambda>e. e + int (length c1)) as) (ys @ bs) = zip xs ys @ map ?f (zip as bs)"
    using assms by (simp add: tallied_def zip_map1)
  have "slots c1 \<inter> ?f ` slots c2 = {}" by (auto simp: slots_def)
  then show ?thesis
    using assms unfolding tallied_def z slots_append by (auto simp: distinct_map inj_on_def)
qed

lemma tallied_concat:
  assumes "\<forall>n\<in>set nodes. tallied (fst n) (fst (snd n)) (snd (snd n)) \<and> length (snd (snd n)) = k"
  shows "tallied (concat (map (\<lambda>(v, n). map (\<lambda>e. e + int (v * k)) (fst n)) (zip [0..<length nodes] nodes)))
      (concat (map (fst \<circ> snd) nodes)) (concat (map (snd \<circ> snd) nodes))
    \<and> length (concat (map (snd \<circ> snd) nodes)) = length nodes * k"
  using assms
proof (induction nodes rule: rev_induct)
  case (snoc n nodes)
  have "\<forall>n\<in>set nodes. tallied (fst n) (fst (snd n)) (snd (snd n)) \<and> length (snd (snd n)) = k"
    using snoc.prems by simp
  note ih = snoc.IH [OF this, THEN conjunct1] snoc.IH [OF this, THEN conjunct2]
  have n: "tallied (fst n) (fst (snd n)) (snd (snd n))" "length (snd (snd n)) = k" using snoc.prems by auto
  show ?case using tallied_append [OF ih(1) n(1)] ih(2) n(2) by (simp add: zip_append [of "[0..<length nodes]"])
qed (simp add: tallied_def slots_def)

lemma tallied_renumber:
  assumes t: "tallied xs ys cnt" and p: "is_perm (length cnt) p" and q: "is_perm (length cnt) q"
    and pq: "\<forall>i<length cnt. q ! nat (p ! i) = int i" and qp: "\<forall>j<length cnt. p ! nat (q ! j) = int j"
  shows "tallied (map (\<lambda>e. q ! nat e) xs) ys (map (\<lambda>i. cnt ! nat i) p)"
proof -
  let ?f = "\<lambda>(e, r). (q ! nat e, r :: int)"
  note lens = is_perm_length [OF p] is_perm_length [OF q]
  have bnd: "0 \<le> l ! i \<and> l ! i < int (length cnt)" if "is_perm (length cnt) l" "i < length cnt" for l i
    using is_perm_range [OF that(1), of "l ! i"] is_perm_length [OF that(1)] that(2) by simp
  have z: "zip (map (\<lambda>e. q ! nat e) xs) ys = map ?f (zip xs ys)" by (simp add: zip_map1)
  have inj: "inj_on ?f (slots cnt)"
  proof (rule inj_onI)
    fix x y assume xy: "x \<in> slots cnt" "y \<in> slots cnt" "?f x = ?f y"
    then have e: "nat (fst x) < length cnt" "nat (fst y) < length cnt" "0 \<le> fst x" "0 \<le> fst y"
      by (auto simp: slots_def nat_less_iff)
    have "q ! nat (fst x) = q ! nat (fst y)" "snd x = snd y" using xy(3) by (auto simp: case_prod_unfold)
    moreover from this(1) have "int (nat (fst x)) = int (nat (fst y))" using qp e by metis
    ultimately show "x = y" using e by (simp add: prod_eq_iff)
  qed
  have "?f ` slots cnt = slots (map (\<lambda>i. cnt ! nat i) p)"
  proof (intro set_eqI iffI)
    fix x assume "x \<in> ?f ` slots cnt"
    then show "x \<in> slots (map (\<lambda>i. cnt ! nat i) p)"
      using qp bnd [OF q] lens by (auto simp: slots_def nat_less_iff)
  next
    fix x assume x: "x \<in> slots (map (\<lambda>i. cnt ! nat i) p)"
    then have l: "nat (fst x) < length cnt" "0 \<le> fst x" using lens by (auto simp: slots_def nat_less_iff)
    have "(p ! nat (fst x), snd x) \<in> slots cnt"
      using x l lens bnd [OF p l(1)] by (auto simp: slots_def)
    moreover have "q ! nat (p ! nat (fst x)) = fst x" using pq l by simp
    ultimately show "x \<in> ?f ` slots cnt" by (intro image_eqI [of _ _ "(p ! nat (fst x), snd x)"]) auto
  qed
  then show ?thesis using t inj by (simp add: tallied_def z distinct_map)
qed

section \<open>The placement of a layer\<close>

lemma length_chunks [simp]: "length (chunks k m xs) = m"
  by (induction k m xs rule: chunks.induct) auto

lemma chunks_lengths: "length xs = m * k \<Longrightarrow> c \<in> set (chunks k m xs) \<Longrightarrow> length c = k"
  by (induction k m xs rule: chunks.induct) auto

lemma chunks_nth: "length xs = m * k \<Longrightarrow> i < m \<Longrightarrow> j < k \<Longrightarrow> chunks k m xs ! i ! j = xs ! (i * k + j)"
proof (induction k m xs arbitrary: i rule: chunks.induct)
  case (2 k m xs)
  then show ?case by (cases i) (auto simp: add.assoc)
qed simp

lemma np_take_perm: "is_perm (length xs) p \<Longrightarrow> np_take xs p = Inr (map (\<lambda>i. xs ! nat i) p)"
  by (rule np_take_in_range) (auto simp: is_perm_def)

lemma tallied_range: "tallied xs ys cnt \<Longrightarrow> e \<in> set xs \<Longrightarrow> 0 \<le> e \<and> e < int (length cnt)"
proof -
  assume t: "tallied xs ys cnt" and "e \<in> set xs"
  then obtain i where "i < length xs" "xs ! i = e" by (auto simp: in_set_conv_nth)
  with t have "(e, ys ! i) \<in> slots cnt" unfolding tallied_def by (metis in_set_zip fst_conv snd_conv)
  then show ?thesis by (simp add: slots_def)
qed

definition node_ok :: "nat \<Rightarrow> nat \<Rightarrow> int list \<times> int list \<times> int list \<Rightarrow> bool" where
  "node_ok num_log num_phy n \<longleftrightarrow> (case n of (p2l, rk, cnt) \<Rightarrow>
     tallied p2l rk cnt \<and> length p2l = num_phy \<and> length cnt = num_log \<and> (\<forall>c\<in>set cnt. 1 \<le> c))"

lemma place_node_ok:
  assumes "0 < l" "l \<le> p" "0 < g" "p = g * k" "length tokens = l" "sorter_ok F"
  shows "\<exists>n. place_node F l p g k tokens = Inr n \<and> node_ok l p n"
proof -
  obtain R where R: "replicate_experts_row F l p tokens = Inr R" "length (phy2log R) = p"
      "length (logcnt R) = l" "\<forall>c\<in>set (logcnt R). 1 \<le> c" "tallied (phy2log R) (phy_rank R) (logcnt R)"
    using replicate_experts_row_ok [OF assms(1,2,5), of F] by blast
  have rk: "length (phy_rank R) = p" using R(2,5) by (simp add: tallied_def)
  let ?ws = "map (\<lambda>(w, c). w_div F w c) (zip tokens (logcnt R))"
  have tk: "np_take ?ws (phy2log R) = Inr (map (\<lambda>i. ?ws ! nat i) (phy2log R))"
    using tallied_range [OF R(5)] R(3) assms(5) by (intro np_take_in_range) simp
  have "p mod g = 0" "p div g = k" using assms(3,4) by simp_all
  then obtain pidx prank where P: "balanced_packing_row F p g (map (\<lambda>i. ?ws ! nat i) (phy2log R)) = Inr (pidx, prank)"
      "length pidx = p" "tallied pidx prank (replicate g (int k))"
    using balanced_packing_row_ok [OF assms(3) _ _ assms(6), of p "map (\<lambda>i. ?ws ! nat i) (phy2log R)"] R(2)
    by auto
  have perm: "is_perm p (map (\<lambda>(p, r). p * int k + r) (zip pidx prank))"
    using perm_of_tallied [OF P(3)] assms(4) by simp
  obtain q where q: "inverse_row F (map (\<lambda>(p, r). p * int k + r) (zip pidx prank)) = Inr q" "is_perm p q"
    using inverse_row_ok [OF perm, of F] by blast
  have run: "place_node F l p g k tokens = Inr (map (\<lambda>i. phy2log R ! nat i) q,
      map (\<lambda>i. phy_rank R ! nat i) q, logcnt R)"
    using assms(2,3) \<open>p mod g = 0\<close> R(1) tk P(1) q np_take_perm [of "phy2log R" q] np_take_perm [of "phy_rank R" q]
    by (simp add: place_node_def replicate_experts_def balanced_packing_def R(2) rk)
  moreover have "tallied (map (\<lambda>i. phy2log R ! nat i) q) (map (\<lambda>i. phy_rank R ! nat i) q) (logcnt R)"
    using tallied_reorder [of "phy2log R" q "phy_rank R" "logcnt R"] R q rk by simp
  ultimately show ?thesis
    using R(3,4) is_perm_length [OF q(2)] by (auto simp: node_ok_def)
qed

lemma node_numbering_ok:
  assumes "0 < G" "nl = G * gs" "0 < N" "G = N * gpn" "length weight = nl" "sorter_ok F"
  shows "\<exists>l2m. node_numbering F nl G N weight = Inr l2m \<and> is_perm nl l2m"
proof -
  have d: "nl div G = gs" "G div N = gpn" "G mod N = 0" using assms(1-4) by simp_all
  let ?ws = "map (w_sum F) (chunks gs G weight)"
  obtain gidx grank where P: "balanced_packing_row F G N ?ws = Inr (gidx, grank)"
      "tallied gidx grank (replicate N (int gpn))"
    using balanced_packing_row_ok [OF assms(3) d(3) _ assms(6), of ?ws] d by auto
  let ?g = "map (\<lambda>(p, r). p * int gpn + r) (zip gidx grank)"
  have "is_perm nl (concat (map (\<lambda>x. map (\<lambda>j. x * int gs + j) (np_arange 0 (int gs))) ?g))"
    using perm_expand [OF perm_of_tallied [OF P(2)], of gs] assms(2,4) by simp
  moreover have "node_numbering F nl G N weight =
      Inr (concat (map (\<lambda>x. map (\<lambda>j. x * int gs + j) (np_arange 0 (int gs))) ?g))"
    using assms(3) d P(1)
    by (simp add: node_numbering_def balanced_packing_def Let_def comp_def case_prod_unfold)
  ultimately show ?thesis by blast
qed

lemma map_m_all:
  assumes "\<forall>x\<in>set xs. \<exists>y. f x = Inr y \<and> P x y"
  shows "\<exists>ys. map_m f xs = Inr ys \<and> list_all2 P xs ys"
  using assms by (induction xs) auto

lemma place_layer_ok:
  assumes nl: "0 < G" "nl = G * gs" "0 < N" "G = N * gpn" "0 < nl"
    and gpu: "U = N * g" "0 < U" "P = U * k" "nl \<le> P"
    and w: "length weight = nl" "sorter_ok F"
  shows "\<exists>n. place_layer F nl P G N U weight = Inr n \<and> node_ok nl P n"
proof -
  define l where "l = gpn * gs"
  have l: "nl = N * l" "nl div N = l" "0 < l" "0 < g" using assms by (auto simp: l_def)
  have P: "P div N = g * k" "P div U = k" "U div N = g" using gpu nl(3) by (simp_all add: mult.assoc)
  have lp: "l \<le> g * k" using gpu(1,3,4) l(1) nl(3) by (simp add: mult.assoc)
  obtain l2m where l2m: "node_numbering F nl G N weight = Inr l2m" "is_perm nl l2m"
    using node_numbering_ok [OF nl(1-4) w] by blast
  obtain m2l where m2l: "inverse_row F l2m = Inr m2l" "is_perm nl m2l"
      "\<forall>i<nl. m2l ! nat (l2m ! i) = int i" "\<forall>j<nl. l2m ! nat (m2l ! j) = int j"
    using inverse_row_ok [OF l2m(2), of F] by blast
  define tokens where "tokens = map (\<lambda>i. weight ! nat i) m2l"
  have tk: "np_take weight m2l = Inr tokens"
    using np_take_perm [of weight m2l] m2l(2) w(1) by (simp add: tokens_def)
  have "length tokens = N * l" using is_perm_length [OF m2l(2)] l(1) by (simp add: tokens_def)
  then have "\<forall>c\<in>set (chunks l N tokens). \<exists>n. place_node F l (g * k) g k c = Inr n \<and> node_ok l (g * k) n"
    using place_node_ok [OF l(3) lp l(4) refl _ w(2)] chunks_lengths by blast
  from map_m_all [OF this] obtain nodes where
    nodes: "map_m (place_node F l (g * k) g k) (chunks l N tokens) = Inr nodes"
      "list_all2 (\<lambda>x. node_ok l (g * k)) (chunks l N tokens) nodes" by blast
  have N: "length nodes = N" using list_all2_lengthD [OF nodes(2)] by simp
  have each: "\<forall>n\<in>set nodes. node_ok l (g * k) n"
    using nodes(2) by (simp add: list_all2_conv_all_nth all_set_conv_all_nth)
  define xs where "xs = concat (map (\<lambda>(v, n). map (\<lambda>e. e + int (v * l)) (fst n)) (zip [0..<N] nodes))"
  define ys where "ys = concat (map (fst \<circ> snd) nodes)"
  define cs where "cs = concat (map (snd \<circ> snd) nodes)"
  have t: "tallied xs ys cs" "length cs = nl"
    using tallied_concat [of nodes l] each l(1) N unfolding xs_def ys_def cs_def
    by (auto simp: node_ok_def case_prod_unfold)
  have cs1: "\<forall>c\<in>set cs. 1 \<le> c" using each by (auto simp: cs_def node_ok_def case_prod_unfold)
  have lys: "length ys = N * (g * k)"
  proof -
    have "map length (map (fst \<circ> snd) nodes) = replicate N (g * k)"
      using each N by (intro nth_equalityI) (auto simp: node_ok_def tallied_def case_prod_unfold)
    then show ?thesis by (simp add: ys_def length_concat sum_list_replicate del: map_map)
  qed
  have x: "np_take m2l xs = Inr (map (\<lambda>e. m2l ! nat e) xs)"
    using tallied_range [OF t(1)] t(2) is_perm_length [OF m2l(2)] by (intro np_take_in_range) simp
  have c: "np_take cs l2m = Inr (map (\<lambda>i. cs ! nat i) l2m)"
    using np_take_perm [of cs l2m] t(2) l2m(2) by simp
  have run: "place_layer F nl P G N U weight =
      Inr (map (\<lambda>e. m2l ! nat e) xs, ys, map (\<lambda>i. cs ! nat i) l2m)"
    using l2m(1) m2l(1) tk nodes(1) x c l(3)
    by (simp add: place_layer_def l(2) P Let_def xs_def [symmetric] cs_def [symmetric] ys_def [symmetric]
        del: of_nat_mult)
  have "tallied (map (\<lambda>e. m2l ! nat e) xs) ys (map (\<lambda>i. cs ! nat i) l2m)"
    using tallied_renumber [OF t(1)] l2m m2l t(2) by simp
  moreover have "\<forall>c\<in>set (map (\<lambda>i. cs ! nat i) l2m). 1 \<le> c"
    using cs1 t(2) is_perm_range [OF l2m(2)] by (auto simp: nat_less_iff)
  ultimately have "node_ok nl P (map (\<lambda>e. m2l ! nat e) xs, ys, map (\<lambda>i. cs ! nat i) l2m)"
    using lys gpu is_perm_length [OF l2m(2)] by (simp add: node_ok_def tallied_def mult.assoc)
  with run show ?thesis by blast
qed


section \<open>The two maps are inverse to each other\<close>

lemma tallied_nth:
  assumes "tallied xs ys cnt" "p < length xs"
  shows "0 \<le> xs ! p" "xs ! p < int (length cnt)" "0 \<le> ys ! p" "ys ! p < cnt ! nat (xs ! p)"
proof -
  have "(xs ! p, ys ! p) \<in> slots cnt" using assms unfolding tallied_def by (metis in_set_zip fst_conv snd_conv)
  then show "0 \<le> xs ! p" "xs ! p < int (length cnt)" "0 \<le> ys ! p" "ys ! p < cnt ! nat (xs ! p)"
    by (auto simp: slots_def)
qed

lemma tallied_replica:
  assumes "tallied xs ys cnt" "e < length cnt" "int r < cnt ! e"
  shows "\<exists>p<length xs. xs ! p = int e \<and> ys ! p = int r"
proof -
  have "(int e, int r) \<in> set (zip xs ys)" using assms by (simp add: tallied_def slots_def)
  then show ?thesis using assms(1) by (auto simp: in_set_zip tallied_def)
qed

lemma tallied_unique:
  assumes "tallied xs ys cnt" "p < length xs" "q < length xs" "xs ! p = xs ! q" "ys ! p = ys ! q"
  shows "p = q"
  using assms nth_eq_iff_index_eq [of "zip xs ys" p q] by (simp add: tallied_def)

definition replicas :: "int list \<Rightarrow> nat \<Rightarrow> nat set" where
  "replicas p2l e = {p. p < length p2l \<and> p2l ! p = int e}"

definition inverse_maps :: "int list \<Rightarrow> int list list \<Rightarrow> int list \<Rightarrow> bool" where
  "inverse_maps p2l l2p cnt \<longleftrightarrow> length l2p = length cnt
     \<and> (\<forall>p<length p2l. 0 \<le> p2l ! p \<and> p2l ! p < int (length cnt))
     \<and> (\<forall>e<length cnt. 1 \<le> cnt ! e \<and> cnt ! e = int (card (replicas p2l e))
          \<and> distinct (take (nat (cnt ! e)) (l2p ! e))
          \<and> set (take (nat (cnt ! e)) (l2p ! e)) = int ` replicas p2l e
          \<and> (\<forall>x\<in>set (drop (nat (cnt ! e)) (l2p ! e)). x = -1))"

lemma scatter_flat:
  assumes t: "tallied p2l rk cnt" and M: "\<forall>c\<in>set cnt. c \<le> int M" and len: "length p2l = P"
  shows "\<exists>flat. np_put (replicate (length cnt * M) (-1))
      (map (\<lambda>(e, r). e * int M + r) (zip p2l rk)) (np_arange 0 (int P)) = Inr flat
    \<and> length flat = length cnt * M
    \<and> (\<forall>p<P. flat ! nat (p2l ! p * int M + rk ! p) = int p)
    \<and> (\<forall>e<length cnt. \<forall>r<M. cnt ! e \<le> int r \<longrightarrow> flat ! (e * M + r) = -1)"
proof -
  let ?ix = "map (\<lambda>(e, r). e * int M + r) (zip p2l rk)"
  have bnd: "0 \<le> e \<and> e < int (length cnt) \<and> 0 \<le> r \<and> r < int M" if "(e, r) \<in> slots cnt" for e r
    using that M nth_mem [of "nat e" cnt] by (fastforce simp: slots_def nat_less_iff)
  have sl: "set (zip p2l rk) = slots cnt" "distinct (zip p2l rk)" "length rk = length p2l"
    using t by (simp_all add: tallied_def)
  have rng: "\<forall>i\<in>set ?ix. 0 \<le> i \<and> i < int (length (replicate (length cnt * M) (-1::int)))"
  proof
    fix i assume "i \<in> set ?ix"
    then obtain e r where "(e, r) \<in> slots cnt" "i = e * int M + r" using sl(1) by auto
    with bnd slot_number_range [of e "int (length cnt)" r "int M"]
    show "0 \<le> i \<and> i < int (length (replicate (length cnt * M) (-1::int)))" by simp
  qed
  have "inj_on (\<lambda>(e, r). e * int M + r) (slots cnt)"
  proof (rule inj_onI)
    fix x y assume "x \<in> slots cnt" "y \<in> slots cnt"
      "(case x of (e, r) \<Rightarrow> e * int M + r) = (case y of (e, r) \<Rightarrow> e * int M + r)"
    with bnd slot_number_inj [of "snd x" "int M" "snd y" "fst x" "fst y"]
    show "x = y" by (cases x; cases y) simp
  qed
  then have "distinct ?ix" using sl(1,2) by (simp add: distinct_map)
  obtain flat where put: "np_put (replicate (length cnt * M) (-1)) ?ix (np_arange 0 (int P)) = Inr flat"
    using np_put_total [OF rng, of "np_arange 0 (int P)"] sl(3) len by auto
  have at: "flat ! nat (p2l ! p * int M + rk ! p) = int p" if "p < P" for p
    using np_put_nth [OF put rng \<open>distinct ?ix\<close>, of p] that len sl(3) by simp
  have "flat ! (e * M + r) = -1" if e: "e < length cnt" "r < M" "cnt ! e \<le> int r" for e r
  proof -
    have "int (e * M + r) \<notin> set ?ix"
    proof
      assume "int (e * M + r) \<in> set ?ix"
      then obtain e' r' where "(e', r') \<in> slots cnt" "int e * int M + int r = e' * int M + r'"
        using sl(1) by auto
      with slot_number_inj [of "int r" "int M" r' "int e" e'] bnd e
      have "(int e, int r) \<in> slots cnt" by force
      then show False using e(3) by (simp add: slots_def)
    qed
    moreover have "e * M + r < length cnt * M"
      using mult_le_mono1 [of "Suc e" "length cnt" M] e(1,2) by simp
    ultimately show ?thesis using np_put_frame [OF put rng] by simp
  qed
  with put at length_np_put [OF put] show ?thesis by auto
qed

lemma replica_row:
  assumes t: "tallied p2l rk cnt" and e: "e < length cnt" and c: "1 \<le> cnt ! e" "cnt ! e \<le> int (length row)"
    and at: "\<forall>p\<in>replicas p2l e. row ! nat (rk ! p) = int p"
  shows "distinct (take (nat (cnt ! e)) row) \<and> set (take (nat (cnt ! e)) row) = int ` replicas p2l e
    \<and> cnt ! e = int (card (replicas p2l e))"
proof -
  let ?c = "nat (cnt ! e)"
  have hit: "\<exists>p\<in>replicas p2l e. rk ! p = int r \<and> row ! r = int p" if "r < ?c" for r
    using tallied_replica [OF t e, of r] that at by (fastforce simp: replicas_def)
  have idx: "nat (rk ! p) < ?c" "row ! nat (rk ! p) = int p" if "p \<in> replicas p2l e" for p
    using tallied_nth [OF t, of p] that at by (auto simp: replicas_def nat_less_iff)
  have len: "length (take ?c row) = ?c" using c by simp
  have d: "distinct (take ?c row)"
    unfolding distinct_conv_nth len
  proof (intro allI impI)
    fix i j assume ij: "i < ?c" "j < ?c" "i \<noteq> j"
    then obtain p q where "row ! i = int p" "rk ! p = int i" "row ! j = int q" "rk ! q = int j"
      using hit by meson
    with ij show "take ?c row ! i \<noteq> take ?c row ! j" by auto
  qed
  have s: "set (take ?c row) = int ` replicas p2l e"
  proof
    show "set (take ?c row) \<subseteq> int ` replicas p2l e"
      using hit len by (fastforce simp: in_set_conv_nth)
    show "int ` replicas p2l e \<subseteq> set (take ?c row)"
    proof
      fix x assume "x \<in> int ` replicas p2l e"
      then obtain p where "p \<in> replicas p2l e" "x = int p" by auto
      with idx [of p] have "take ?c row ! nat (rk ! p) = x" by simp
      then show "x \<in> set (take ?c row)" using idx(1) [OF \<open>p \<in> _\<close>] len by (metis nth_mem)
    qed
  qed
  have "?c = card (int ` replicas p2l e)" using distinct_card [OF d] len s by simp
  then have "?c = card (replicas p2l e)" by (simp add: card_image)
  with d s c(1) show ?thesis by simp
qed

lemma scatter_row_ok:
  assumes n: "node_ok nl P (p2l, rk, cnt)" and M: "\<forall>c\<in>set cnt. c \<le> int M"
  shows "\<exists>l2p. scatter_row nl P M p2l rk = Inr l2p \<and> inverse_maps p2l l2p cnt"
proof -
  have t: "tallied p2l rk cnt" and len: "length p2l = P" "length cnt = nl" and pos: "\<forall>c\<in>set cnt. 1 \<le> c"
    using n by (simp_all add: node_ok_def)
  from scatter_flat [OF t M len(1)] obtain flat where
    put: "np_put (replicate (nl * M) (-1)) (map (\<lambda>(e, r). e * int M + r) (zip p2l rk))
        (np_arange 0 (int P)) = Inr flat"
    and fl: "length flat = nl * M"
    and at: "\<forall>p<P. flat ! nat (p2l ! p * int M + rk ! p) = int p"
    and pad: "\<forall>e<nl. \<forall>r<M. cnt ! e \<le> int r \<longrightarrow> flat ! (e * M + r) = -1"
    unfolding len(2) by blast
  define l2p where "l2p = chunks M nl flat"
  have row: "length (l2p ! e) = M" "\<forall>r<M. l2p ! e ! r = flat ! (e * M + r)" if "e < nl" for e
    using that chunks_lengths [OF fl, of "l2p ! e"] chunks_nth [OF fl that] by (simp_all add: l2p_def)
  have cb: "1 \<le> cnt ! e" "cnt ! e \<le> int M" if "e < nl" for e
    using that pos M len(2) by simp_all
  have hit: "l2p ! e ! nat (rk ! p) = int p" if e: "e < nl" and p: "p \<in> replicas p2l e" for e p
  proof -
    have p': "p < length p2l" "p2l ! p = int e" using p by (simp_all add: replicas_def)
    note b = tallied_nth [OF t p'(1)]
    have "rk ! p < int M" using b(4) cb(2) [OF e] p'(2) by simp
    then have "l2p ! e ! nat (rk ! p) = flat ! (e * M + nat (rk ! p))"
      using row(2) [OF e] b(3) by (simp add: nat_less_iff)
    also have "e * M + nat (rk ! p) = nat (p2l ! p * int M + rk ! p)"
      using p'(2) b(3) by (simp add: nat_add_distrib nat_mult_distrib)
    finally show ?thesis using at p'(1) len(1) by simp
  qed
  have "x = -1" if e: "e < nl" and x: "x \<in> set (drop (nat (cnt ! e)) (l2p ! e))" for e x
  proof -
    obtain i where i: "i < M - nat (cnt ! e)" "x = l2p ! e ! (nat (cnt ! e) + i)"
      using x row(1) [OF e] by (auto simp: in_set_conv_nth)
    then show ?thesis using row(2) [OF e] pad e cb(1) [OF e] by simp
  qed
  moreover have "\<forall>p<length p2l. 0 \<le> p2l ! p \<and> p2l ! p < int (length cnt)"
    using tallied_nth(1,2) [OF t] by blast
  moreover have "length l2p = length cnt" using len(2) by (simp add: l2p_def)
  moreover have "distinct (take (nat (cnt ! e)) (l2p ! e))
      \<and> set (take (nat (cnt ! e)) (l2p ! e)) = int ` replicas p2l e \<and> cnt ! e = int (card (replicas p2l e))"
    if "e < nl" for e
    using replica_row [OF t, of e "l2p ! e"] that hit [OF that] cb [OF that] row(1) [OF that] len(2) by blast
  ultimately have "inverse_maps p2l l2p cnt"
    unfolding inverse_maps_def len(2) using cb(1) by blast
  then show ?thesis using put by (simp add: scatter_row_def l2p_def)
qed

lemma rebalance_experts_ok:
  fixes F :: "'w load_ops"
  assumes "W \<noteq> []" "\<forall>w\<in>set W. length w = nl" "0 < nl" "nl \<le> P" "0 < U" "P mod U = 0"
    and "hier \<longrightarrow> 0 < G \<and> nl mod G = 0 \<and> 0 < N \<and> G mod N = 0 \<and> U mod N = 0"
    and s: "sorter_ok F"
  shows "\<exists>pl. rebalance_experts F nl W P G N U hier = Inr pl
     \<and> length (physical_to_logical pl) = length W \<and> length (logical_to_physical pl) = length W
     \<and> length (expert_count pl) = length W
     \<and> (\<forall>k<length W. length (physical_to_logical pl ! k) = P \<and> length (expert_count pl ! k) = nl
          \<and> inverse_maps (physical_to_logical pl ! k) (logical_to_physical pl ! k) (expert_count pl ! k))"
proof -
  define G' where "G' = (if hier then G else 1)"
  define N' where "N' = (if hier then N else 1)"
  have sz: "0 < G'" "nl = G' * (nl div G')" "0 < N'" "G' = N' * (G' div N')" "U = N' * (U div N')"
      "P = U * (P div U)"
    using assms(3,5-7) by (auto simp: G'_def N'_def)
  have "\<forall>w\<in>set W. \<exists>n. place_layer F nl P G' N' U w = Inr n \<and> node_ok nl P n"
    using place_layer_ok [OF sz(1-4) assms(3) sz(5) assms(5) sz(6) assms(4) _ s] assms(2) by blast
  from map_m_all [OF this] obtain L where
    L: "map_m (place_layer F nl P G' N' U) W = Inr L" "list_all2 (\<lambda>w. node_ok nl P) W L" by blast
  have len: "length L = length W" using list_all2_lengthD [OF L(2)] by simp
  have nodes: "\<forall>n\<in>set L. node_ok nl P n" using L(2) by (simp add: list_all2_conv_all_nth all_set_conv_all_nth)
  have hi: "(if hier then rebalance_experts_hierarchical F nl W P G N U
       else rebalance_experts_hierarchical F nl W P 1 1 U) = Inr L"
    using L(1) assms(5-7) by (simp add: rebalance_experts_hierarchical_def G'_def N'_def split: if_splits)
  let ?cs = "concat (map (snd \<circ> snd) L)"
  define M where "M = nat (Max (set ?cs))"
  have "?cs \<noteq> []" using assms(1,3) len nodes by (cases L) (auto simp: node_ok_def)
  have M: "\<forall>c\<in>set (snd (snd n)). c \<le> int M" if "n \<in> set L" for n
  proof
    fix c assume "c \<in> set (snd (snd n))"
    then have "c \<le> Max (set ?cs)" using that by (intro Max_ge) auto
    then show "c \<le> int M" by (simp add: M_def)
  qed
  let ?sc = "\<lambda>(p2l, rk, _). scatter_row nl P M p2l rk"
  have "\<forall>n\<in>set L. \<exists>l2p. ?sc n = Inr l2p \<and> inverse_maps (fst n) l2p (snd (snd n))"
    using scatter_row_ok nodes M by fastforce
  from map_m_all [OF this] obtain l2p where
    l2p: "map_m ?sc L = Inr l2p" "list_all2 (\<lambda>n l. inverse_maps (fst n) l (snd (snd n))) L l2p" by blast
  let ?pl = "\<lparr>physical_to_logical = map fst L, logical_to_physical = l2p, expert_count = map (snd \<circ> snd) L\<rparr>"
  have "rebalance_experts F nl W P G N U hier = Inr ?pl"
    unfolding rebalance_experts_def hi using l2p(1) \<open>?cs \<noteq> []\<close> by (simp add: Let_def M_def)
  moreover have "length (fst (L ! k)) = P \<and> length (snd (snd (L ! k))) = nl
      \<and> inverse_maps (fst (L ! k)) (l2p ! k) (snd (snd (L ! k)))" if "k < length W" for k
    using that nodes l2p(2) len by (simp add: list_all2_conv_all_nth all_set_conv_all_nth node_ok_def case_prod_unfold)
  moreover have "length l2p = length W" using list_all2_lengthD [OF l2p(2)] len by simp
  ultimately show ?thesis using len by (intro exI [of _ ?pl]) simp
qed

text \<open>C20. The balancer is correct for every load, rounding and tie order. With consistent sizes it
  returns, and in every layer: each physical expert hosts a logical expert; each logical expert has
  at least one replica and the count is the number of physical experts hosting it; its row of the
  logical-to-physical map starts with exactly those physical experts, each once, and is padded with -1.\<close>

theorem eplb_placement_correct:
  fixes F :: "'w load_ops"
  assumes "W \<noteq> []" "\<forall>w\<in>set W. length w = nl" "0 < nl" "nl \<le> P" "0 < U" "P mod U = 0"
    and "hier \<longrightarrow> 0 < G \<and> nl mod G = 0 \<and> 0 < N \<and> G mod N = 0 \<and> U mod N = 0"
    and "\<forall>ws. distinct (w_argsort_desc F ws) \<and> set (w_argsort_desc F ws) = {0..<int (length ws)}"
  shows "\<exists>pl. rebalance_experts F nl W P G N U hier = Inr pl
     \<and> length (physical_to_logical pl) = length W \<and> length (logical_to_physical pl) = length W
     \<and> length (expert_count pl) = length W
     \<and> (\<forall>k<length W. length (physical_to_logical pl ! k) = P \<and> length (expert_count pl ! k) = nl
          \<and> inverse_maps (physical_to_logical pl ! k) (logical_to_physical pl ! k) (expert_count pl ! k))"
  using rebalance_experts_ok [of W nl P U hier G N F] assms by (simp add: sorter_ok_def is_perm_def)


definition demo_ops :: "int load_ops" where
  "demo_ops = \<lparr>w_zero = 0, w_add = (+), w_sum = sum_list, w_div = (div), w_less = (<),
     w_argsort_desc = (\<lambda>ws. map int (sort_key (\<lambda>i. - (ws ! i)) [0..<length ws])), w_empty = 0\<rparr>"

theorem eplb_placement_correct_witness:
  "\<exists>pl. rebalance_experts demo_ops 4 [[10, 3, 5, 7], [1, 1, 9, 0]] 6 2 2 2 True = Inr pl
     \<and> (\<forall>k<2. inverse_maps (physical_to_logical pl ! k) (logical_to_physical pl ! k) (expert_count pl ! k))"
proof -
  have sorted: "\<forall>ws. distinct (w_argsort_desc demo_ops ws)
      \<and> set (w_argsort_desc demo_ops ws) = {0..<int (length ws)}"
  proof
    fix ws :: "int list"
    have "int ` {0..<length ws} = {0..<int (length ws)}" by (simp add: image_int_atLeastLessThan)
    then show "distinct (w_argsort_desc demo_ops ws)
        \<and> set (w_argsort_desc demo_ops ws) = {0..<int (length ws)}"
      by (simp add: demo_ops_def distinct_map)
  qed
  let ?W = "[[10, 3, 5, 7], [1, 1, 9, 0]] :: int list list"
  have h: "?W \<noteq> []" "\<forall>w\<in>set ?W. length w = 4" "0 < (4::nat)" "4 \<le> (6::nat)" "0 < (2::nat)" "6 mod 2 = (0::nat)"
      "True \<longrightarrow> 0 < (2::nat) \<and> 4 mod 2 = (0::nat) \<and> 0 < (2::nat) \<and> 2 mod 2 = (0::nat) \<and> 2 mod 2 = (0::nat)"
    by simp_all
  show ?thesis using eplb_placement_correct [OF h sorted] by auto
qed

section \<open>Balance\<close>

text \<open>Packing: when the packs divide the items, every item gets a pack and a rank, and every pair of
  a pack and a rank below items-per-pack is given to exactly one item; no load makes it raise.\<close>

theorem balanced_packing_fills_packs:
  assumes "0 < m" "n mod m = 0" "length weight = n"
    and "\<forall>ws. distinct (w_argsort_desc F ws) \<and> set (w_argsort_desc F ws) = {0..<int (length ws)}"
  shows "\<exists>pidx prank. balanced_packing F n [weight] m = Inr [(pidx, prank)]
     \<and> length pidx = n \<and> length prank = n
     \<and> (\<forall>p<m. \<forall>r<n div m. \<exists>!g. g < n \<and> pidx ! g = int p \<and> prank ! g = int r)
     \<and> (\<forall>g<n. 0 \<le> pidx ! g \<and> pidx ! g < int m \<and> 0 \<le> prank ! g \<and> prank ! g < int (n div m))"
proof -
  have "sorter_ok F" using assms(4) by (simp add: sorter_ok_def is_perm_def)
  then obtain pidx prank where P: "balanced_packing_row F n m weight = Inr (pidx, prank)" "length pidx = n"
      and t: "tallied pidx prank (replicate m (int (n div m)))"
    using balanced_packing_row_ok [OF assms(1-3)] by blast
  have "\<exists>!g. g < n \<and> pidx ! g = int p \<and> prank ! g = int r" if pr: "p < m" "r < n div m" for p r
  proof -
    obtain g where "g < n" "pidx ! g = int p" "prank ! g = int r"
      using tallied_replica [OF t, of p r] pr P(2) by auto
    then show ?thesis using P(2) tallied_unique [OF t] by (intro ex1I [of _ g]) simp_all
  qed
  moreover have "0 \<le> pidx ! g \<and> pidx ! g < int m \<and> 0 \<le> prank ! g \<and> prank ! g < int (n div m)"
    if "g < n" for g
    using tallied_nth [OF t, of g] that P(2) by (simp add: nat_less_iff)
  ultimately show ?thesis
    using assms(1,2) P t by (auto simp: balanced_packing_def tallied_def)
qed

theorem balanced_packing_fills_packs_witness:
  "\<exists>pidx prank. balanced_packing demo_ops 4 [[10, 3, 5, 7]] 2 = Inr [(pidx, prank)]
     \<and> (\<forall>p<2. \<forall>r<4 div 2. \<exists>!g. g < 4 \<and> pidx ! g = int p \<and> prank ! g = int r)"
proof -
  have "int ` {0..<length ws} = {0..<int (length ws)}" for ws :: "int list"
    by (simp add: image_int_atLeastLessThan)
  then show ?thesis
    using balanced_packing_fills_packs [of 2 4 "[10, 3, 5, 7]" demo_ops]
    by (simp add: demo_ops_def distinct_map) blast
qed

text \<open>In exact arithmetic the greedy choice of \<open>replicate_experts\<close> is optimal.\<close>

lemma first_best_least:
  fixes x :: "'a \<times> 'w :: linorder"
  assumes "y \<in> set (x # xs)"
  shows "\<exists>z\<in>set (x # xs). first_best (\<lambda>a b. b < a) xs x = fst z \<and> snd y \<le> snd z"
  using assms
proof (induction xs arbitrary: x y)
  case (Cons a xs)
  let ?b = "if snd x < snd a then a else x"
  have "\<exists>y'\<in>set (?b # xs). snd y \<le> snd y'"
    using Cons.prems by (cases "y \<in> set xs") (auto intro: bexI [of _ y])
  then obtain y' where y': "y' \<in> set (?b # xs)" "snd y \<le> snd y'" by blast
  from Cons.IH [OF y'(1)] obtain z where "z \<in> set (?b # xs)"
      "first_best (\<lambda>a b. b < a) xs ?b = fst z" "snd y' \<le> snd z" by blast
  with y'(2) show ?case by (auto split: if_splits intro: order_trans)
qed auto

lemma np_argmax_greatest:
  fixes xs :: "'w :: linorder list"
  assumes "xs \<noteq> []"
  shows "\<exists>e<length xs. np_argmax (<) xs = Inr e \<and> (\<forall>f<length xs. xs ! f \<le> xs ! e)"
proof -
  obtain x rest where z: "zip [0..<length xs] xs = x # rest" using assms by (cases xs) (auto simp: upt_rec)
  let ?e = "first_best (\<lambda>a b. b < a) rest x"
  have snd_at: "snd p = xs ! fst p \<and> fst p < length xs" if "p \<in> set (x # rest)" for p
    using that unfolding z [symmetric] by (auto simp: set_zip)
  have "xs ! f \<le> xs ! ?e \<and> ?e < length xs" if "f < length xs" for f
  proof -
    have "(f, xs ! f) \<in> set (x # rest)" unfolding z [symmetric] using that by (auto simp: set_zip intro!: exI [of _ f])
    from first_best_least [OF this] snd_at show ?thesis by fastforce
  qed
  then show ?thesis using assms by (auto simp: np_argmax_def z)
qed

text \<open>What the greedy loop keeps: an expert replicated more than once had, before its last replica,
  at least the load any replica has now.\<close>

definition greedy :: "'w :: linordered_field list \<Rightarrow> int list \<Rightarrow> bool" where
  "greedy w cnt \<longleftrightarrow> length cnt = length w \<and> (\<forall>c\<in>set cnt. 1 \<le> c)
     \<and> (\<forall>e<length w. \<forall>f<length w. 2 \<le> cnt ! e \<longrightarrow>
          w ! f / of_int (cnt ! f) \<le> w ! e / of_int (cnt ! e - 1))"

lemma greedy_step:
  assumes g: "greedy w cnt" and e: "e < length w" and w: "\<forall>x\<in>set w. 0 \<le> x"
    and top: "\<forall>f<length w. w ! f / of_int (cnt ! f) \<le> w ! e / of_int (cnt ! e)"
  shows "greedy w (cnt[e := cnt ! e + 1])"
proof -
  have pos: "1 \<le> cnt ! f" "0 \<le> w ! f" if "f < length w" for f using g w that by (simp_all add: greedy_def)
  have less: "w ! f / of_int (cnt[e := cnt ! e + 1] ! f) \<le> w ! f / of_int (cnt ! f)" if f: "f < length w" for f
  proof (cases "f = e")
    case True
    have "(0 :: 'a) < of_int (cnt ! e)" using pos(1) [OF e] by simp
    then show ?thesis using True g e pos(2) [OF e] by (simp add: greedy_def frac_le)
  qed (use f in simp)
  have "w ! f / of_int (cnt[e := cnt ! e + 1] ! f) \<le> w ! h / of_int (cnt[e := cnt ! e + 1] ! h - 1)"
    if "h < length w" "f < length w" "2 \<le> cnt[e := cnt ! e + 1] ! h" for h f
  proof -
    have "w ! f / of_int (cnt ! f) \<le> w ! h / of_int (cnt[e := cnt ! e + 1] ! h - 1)"
    proof (cases "h = e")
      case True
      have "e < length cnt" using g e by (simp add: greedy_def)
      then show ?thesis using True top that(2) by simp
    next
      case False
      then have "cnt[e := cnt ! e + 1] ! h = cnt ! h" by simp
      then show ?thesis using that g unfolding greedy_def by metis
    qed
    then show ?thesis using less [OF that(2)] by (rule order_trans [rotated])
  qed
  moreover have "\<forall>c\<in>set (cnt[e := cnt ! e + 1]). 1 \<le> c"
  proof
    fix c assume "c \<in> set (cnt[e := cnt ! e + 1])"
    then have "c = cnt ! e + 1 \<or> c \<in> set cnt" using set_update_subset_insert [of cnt e "cnt ! e + 1"] by blast
    then show "1 \<le> c" using g pos(1) [OF e] by (auto simp: greedy_def)
  qed
  ultimately show ?thesis using g by (simp add: greedy_def)
qed

lemma replicate_step_greedy:
  fixes F :: "'w :: linordered_field load_ops"
  assumes ops: "w_div F = (\<lambda>x c. x / of_int c)" "w_less F = (<)" and w: "\<forall>x\<in>set w. 0 \<le> x" "w \<noteq> []"
    and g: "greedy w (logcnt s)" and step: "replicate_step F w i s = Inr t"
  shows "greedy w (logcnt t)"
proof -
  let ?ws = "map (\<lambda>(w, c). w_div F w c) (zip w (logcnt s))"
  have len: "length (logcnt s) = length w" using g by (simp add: greedy_def)
  have "?ws \<noteq> []" using w(2) len by (cases w; cases "logcnt s") auto
  then obtain e where e: "e < length ?ws" "np_argmax (<) ?ws = Inr e" "\<forall>f<length ?ws. ?ws ! f \<le> ?ws ! e"
    using np_argmax_greatest by blast
  then have "logcnt t = (logcnt s)[e := logcnt s ! e + 1]"
    using step ops(2) by (auto simp: replicate_step_def rbind_eq_Inr_iff)
  moreover have "\<forall>f<length w. w ! f / of_int (logcnt s ! f) \<le> w ! e / of_int (logcnt s ! e)"
    using e(1,3) len by (simp add: ops(1))
  ultimately show ?thesis using greedy_step [OF g _ w(1)] e(1) len by simp
qed

lemma greedy_optimal:
  fixes w :: "'w :: linordered_field list"
  assumes g: "greedy w cnt" and w: "\<forall>x\<in>set w. 0 \<le> x"
    and c: "length c = length w" "\<forall>x\<in>set c. 1 \<le> x" "sum_list c = sum_list cnt" and e: "e < length w"
  shows "\<exists>f<length w. w ! e / of_int (cnt ! e) \<le> w ! f / of_int (c ! f)"
proof (cases "c ! e \<le> cnt ! e")
  case True
  have "1 \<le> c ! e" using c(1,2) e by simp
  then have "(0 :: 'w) < of_int (c ! e)" "(of_int (c ! e) :: 'w) \<le> of_int (cnt ! e)"
    using True by simp_all
  then have "w ! e / of_int (cnt ! e) \<le> w ! e / of_int (c ! e)" using w e by (simp add: frac_le)
  with e show ?thesis by blast
next
  case False
  have "\<exists>f<length w. c ! f < cnt ! f"
  proof (rule ccontr)
    assume "\<not> ?thesis"
    then have "\<forall>f<length w. cnt ! f \<le> c ! f" by force
    then have "(\<Sum>f<length w. cnt ! f) < (\<Sum>f<length w. c ! f)"
      using e False by (intro sum_strict_mono_ex1) (auto intro!: bexI [of _ e])
    then show False using c g by (simp add: sum_list_sum_nth atLeast0LessThan greedy_def)
  qed
  then obtain f where f: "f < length w" "c ! f < cnt ! f" by blast
  have pc: "1 \<le> c ! f" using c(1,2) f(1) by simp
  have "w ! e / of_int (cnt ! e) \<le> w ! f / of_int (cnt ! f - 1)"
    using g e f pc by (simp add: greedy_def)
  also have "\<dots> \<le> w ! f / of_int (c ! f)"
  proof (rule frac_le)
    show "(of_int (c ! f) :: 'w) \<le> of_int (cnt ! f - 1)" using f(2) by (simp only: of_int_le_iff)
    show "(0 :: 'w) < of_int (c ! f)" using pc by simp
  qed (use w f in auto)
  finally show ?thesis using f(1) by blast
qed

text \<open>C32. Replication minimises the maximal load per replica, as its comment promises: in exact
  arithmetic no other assignment of replica counts with the same total has a smaller maximum of load
  over count.\<close>

theorem replicate_minimises_max_load:
  fixes F :: "'w :: linordered_field load_ops"
  assumes "w_div F = (\<lambda>x c. x / of_int c)" "w_less F = (<)"
    and "w \<noteq> []" "\<forall>x\<in>set w. 0 \<le> x" "length w \<le> num_phy"
    and "length c = length w" "\<forall>x\<in>set c. 1 \<le> x" "sum_list c = int num_phy"
  shows "\<exists>R. replicate_experts_row F (length w) num_phy w = Inr R \<and> sum_list (logcnt R) = int num_phy
     \<and> Max {w ! e / of_int (logcnt R ! e) | e. e < length w} \<le> Max {w ! e / of_int (c ! e) | e. e < length w}"
proof -
  obtain R where R: "replicate_experts_row F (length w) num_phy w = Inr R"
      "length (phy2log R) = num_phy" "\<forall>c\<in>set (logcnt R). 1 \<le> c" "tallied (phy2log R) (phy_rank R) (logcnt R)"
    using replicate_experts_row_ok [of "length w" num_phy w F] assms(3,5) by auto
  have sum: "sum_list (logcnt R) = int num_phy" using tallied_length [OF R(4)] R(2,3) by force
  have "greedy w (replicate (length w) 1)" by (auto simp: greedy_def)
  then have g: "greedy w (logcnt R)"
    using for_m_invariant [OF R(1) [unfolded replicate_experts_row_def], of "\<lambda>s. greedy w (logcnt s)"]
      replicate_step_greedy [OF assms(1,2,4,3)] by (metis replication.select_convs(3))
  have fin: "finite {h e | e. e < length w}" for h :: "nat \<Rightarrow> 'w" by simp
  have ne: "{h e | e. e < length w} \<noteq> {}" for h :: "nat \<Rightarrow> 'w" using assms(3) by auto
  have "x \<le> Max {w ! e / of_int (c ! e) | e. e < length w}"
    if x: "x \<in> {w ! e / of_int (logcnt R ! e) | e. e < length w}" for x
  proof -
    obtain e where e: "e < length w" "x = w ! e / of_int (logcnt R ! e)" using x by blast
    have "sum_list c = sum_list (logcnt R)" using sum assms(8) by simp
    from greedy_optimal [OF g assms(4,6,7) this e(1)]
    obtain f where f: "f < length w" "x \<le> w ! f / of_int (c ! f)" using e(2) by blast
    have "w ! f / of_int (c ! f) \<le> Max {w ! e / of_int (c ! e) | e. e < length w}"
      using f(1) by (intro Max_ge [OF fin]) blast
    with f(2) show ?thesis by (rule order_trans)
  qed
  then have "Max {w ! e / of_int (logcnt R ! e) | e. e < length w}
      \<le> Max {w ! e / of_int (c ! e) | e. e < length w}" by (rule Max.boundedI [OF fin ne])
  with R(1) sum show ?thesis by (intro exI [of _ R] conjI)
qed

theorem replicate_minimises_max_load_witness:
  "\<exists>R. replicate_experts_row \<lparr>w_zero = 0, w_add = (+), w_sum = sum_list, w_div = (\<lambda>x c. x / of_int c),
       w_less = (<), w_argsort_desc = (\<lambda>ws. []), w_empty = 0\<rparr> 2 5 [9, 4 :: rat] = Inr R
     \<and> sum_list (logcnt R) = 5"
  using replicate_minimises_max_load [of "\<lparr>w_zero = 0, w_add = (+), w_sum = sum_list,
       w_div = (\<lambda>x c. x / of_int c), w_less = (<), w_argsort_desc = (\<lambda>ws. []), w_empty = 0\<rparr>"
       "[9, 4 :: rat]" 5 "[3, 2]"] by (auto simp: numeral_2_eq_2)

end
