(* ===== verification/Expert_Location.thy ===== *)
theory Expert_Location
  imports Eplb
begin

text \<open>
  \<open>eplb/expert_location.py\<close>: the metadata that says where each logical expert lives, its three
  constructors (trivial, from a physical-to-logical map, from the balancer) and the dispatch of logical
  expert ids to physical ones. The model configuration and server arguments are a record of the numbers
  the code reads from them; the random offsets of the dynamic dispatch are an argument. Device
  transfer and the pytree registration have no counterpart.
\<close>

record expert_config =
  cfg_num_experts :: nat
  cfg_num_layers :: nat
  cfg_num_groups :: "nat option"
  cfg_ep_size :: nat
  cfg_redundant :: nat
  cfg_nnodes :: nat
  cfg_dispatch :: "string option"
  cfg_algorithm :: string

record expert_location =
  ep_dispatch_algorithm :: string
  rank_dispatch_map :: "int list list"
  all_physical_map :: "int list list list"
  num_valid :: "int list list"
  physical_to_logical_map :: "int list list"
  num_physical_experts :: nat

text \<open>\<open>_init_common\<close>: no metadata for a model without experts.\<close>

definition init_common :: "expert_config \<Rightarrow> nat option" where
  "init_common cfg = (if cfg_num_experts cfg = 0 \<or> cfg_num_layers cfg = 0 then None
     else Some (cfg_num_experts cfg + cfg_redundant cfg))"

text \<open>The inner loop of \<open>_compute_logical_to_all_physical_map\<close>: each physical expert is appended to
  the list of the expert it hosts.\<close>

definition host_step :: "int list \<Rightarrow> nat \<Rightarrow> int list list \<Rightarrow> int list list result" where
  "host_step p2l p rows = rbind (np_get p2l (int p)) (\<lambda>e.
     rbind (np_get rows e) (\<lambda>row. np_set rows e (row @ [int p])))"

definition host_rows :: "nat \<Rightarrow> int list \<Rightarrow> int list list result" where
  "host_rows num_logical p2l = for_m (host_step p2l) [0..<length p2l] (replicate num_logical [])"

definition pad_nested_array :: "int list list list \<Rightarrow> int \<Rightarrow> int list list list result" where
  "pad_nested_array arr pad =
     (if concat arr = [] then Inl ValueError
      else let max_len = Max (set (map length (concat arr))) in
        Inr (map (map (\<lambda>inner. inner @ replicate (max_len - length inner) pad)) arr))"

definition compute_logical_to_all_physical_map :: "int list list \<Rightarrow> nat \<Rightarrow> int list list list result" where
  "compute_logical_to_all_physical_map p2l num_logical =
     rbind (map_m (host_rows num_logical) p2l) (\<lambda>rows. pad_nested_array rows (-1))"

text \<open>\<open>_init_raw\<close>: the number of valid entries of each row and its first entry; an empty row has none.\<close>

definition init_raw :: "expert_config \<Rightarrow> int list list \<Rightarrow> int list list list \<Rightarrow> expert_location result" where
  "init_raw cfg p2l l2p =
     rbind (map_m (map_m (\<lambda>row. np_get row 0)) l2p) (\<lambda>firsts.
     case p2l of [] \<Rightarrow> Inl IndexError
     | row # _ \<Rightarrow> Inr \<lparr>ep_dispatch_algorithm = (case cfg_dispatch cfg of None \<Rightarrow> ''static''
           | Some d \<Rightarrow> if d = [] then ''static'' else d),
         rank_dispatch_map = firsts, all_physical_map = l2p,
         num_valid = map (map (\<lambda>row. int (length (filter (\<lambda>x. x \<noteq> -1) row)))) l2p,
         physical_to_logical_map = p2l, num_physical_experts = length row\<rparr>)"

definition init_by_mapping :: "expert_config \<Rightarrow> int list list \<Rightarrow> expert_location option result" where
  "init_by_mapping cfg p2l = (case init_common cfg of None \<Rightarrow> Inr None
     | Some _ \<Rightarrow> rbind (compute_logical_to_all_physical_map p2l (cfg_num_experts cfg)) (\<lambda>l2p.
         rbind (init_raw cfg p2l l2p) (\<lambda>m. Inr (Some m))))"

definition trivial_row :: "nat \<Rightarrow> nat \<Rightarrow> int list" where
  "trivial_row num_phy num_logical = map (\<lambda>p. p mod int num_logical) (np_arange 0 (int num_phy))"

definition init_trivial :: "expert_config \<Rightarrow> expert_location option result" where
  "init_trivial cfg = (case init_common cfg of None \<Rightarrow> Inr None
     | Some num_phy \<Rightarrow>
         init_by_mapping cfg (replicate (cfg_num_layers cfg) (trivial_row num_phy (cfg_num_experts cfg))))"

definition init_by_eplb :: "'w load_ops \<Rightarrow> expert_config \<Rightarrow> 'w list list \<Rightarrow> expert_location option result" where
  "init_by_eplb F cfg logical_count = (case init_common cfg of None \<Rightarrow> Inr None
     | Some num_phy \<Rightarrow>
         if cfg_ep_size cfg = 0 then Inl ZeroDivisionError
         else rbind (compute_algorithm (cfg_algorithm cfg) (cfg_num_groups cfg) (cfg_nnodes cfg)) (\<lambda>alg.
           rbind (eplb_rebalance F (cfg_num_experts cfg) logical_count num_phy
                    (num_phy div cfg_ep_size cfg) (cfg_num_groups cfg) (cfg_nnodes cfg) alg) (\<lambda>pl.
           rbind (init_raw cfg (physical_to_logical pl) (logical_to_physical pl)) (\<lambda>m. Inr (Some m)))))"

text \<open>A gather of an indexed array in JAX: a negative index counts from the end, and an index out of
  range is clamped.\<close>

definition jnp_get :: "'a list \<Rightarrow> int \<Rightarrow> 'a" where
  "jnp_get xs i = xs ! nat (max 0 (min (if i < 0 then i + int (length xs) else i) (int (length xs) - 1)))"

definition topk_static :: "expert_location \<Rightarrow> int \<Rightarrow> int list \<Rightarrow> int list" where
  "topk_static info layer topk_ids = map (jnp_get (jnp_get (rank_dispatch_map info) layer)) topk_ids"

text \<open>\<open>offsets\<close> are the random integers, one per id, in the shape of \<open>topk_ids\<close>.\<close>

definition topk_dynamic :: "int list \<Rightarrow> expert_location \<Rightarrow> int \<Rightarrow> int list \<Rightarrow> int list" where
  "topk_dynamic offsets info layer topk_ids =
     map (\<lambda>(e, off). jnp_get (jnp_get (jnp_get (all_physical_map info) layer) e)
                       (off mod jnp_get (jnp_get (num_valid info) layer) e)) (zip topk_ids offsets)"

definition topk_ids_logical_to_physical ::
    "int list \<Rightarrow> int list \<Rightarrow> expert_location option \<Rightarrow> int \<Rightarrow> int list result" where
  "topk_ids_logical_to_physical offsets topk_ids info layer = (case info of None \<Rightarrow> Inr topk_ids
     | Some m \<Rightarrow>
         if ep_dispatch_algorithm m = ''static'' then Inr (topk_static m layer topk_ids)
         else if ep_dispatch_algorithm m = ''dynamic'' \<or> ep_dispatch_algorithm m = ''fake''
         then Inr (topk_dynamic offsets m layer topk_ids)
         else Inl NotImplementedError)"

section \<open>Dispatch inverts the placement\<close>

lemma jnp_get_in_range [simp]: "i < length xs \<Longrightarrow> jnp_get xs (int i) = xs ! i"
  by (simp add: jnp_get_def min_absorb1)

text \<open>The rows the loop has built after the physical experts below \<open>k\<close>.\<close>

definition hosts_below :: "int list \<Rightarrow> nat \<Rightarrow> nat \<Rightarrow> int list" where
  "hosts_below p2l k e = map int (filter (\<lambda>p. p2l ! p = int e) [0..<k])"

lemma host_loop:
  assumes "\<forall>p<length p2l. 0 \<le> p2l ! p \<and> p2l ! p < int n" "k \<le> length p2l"
  shows "for_m (host_step p2l) [0..<k] (replicate n []) = Inr (map (hosts_below p2l k) [0..<n])"
  using assms(2)
proof (induction k)
  case 0
  then show ?case by (auto simp: hosts_below_def map_replicate_const)
next
  case (Suc k)
  have e: "0 \<le> p2l ! k" "p2l ! k < int n" using assms(1) Suc.prems by auto
  let ?rows = "map (hosts_below p2l k) [0..<n]"
  have "?rows[nat (p2l ! k) := hosts_below p2l k (nat (p2l ! k)) @ [int k]] = map (hosts_below p2l (Suc k)) [0..<n]"
    using e by (intro nth_equalityI) (auto simp: hosts_below_def nth_list_update)
  then show ?case using Suc e by (simp add: for_m_append host_step_def nat_less_iff)
qed

lemma host_rows_ok:
  assumes "\<forall>p<length p2l. 0 \<le> p2l ! p \<and> p2l ! p < int n"
  shows "host_rows n p2l = Inr (map (hosts_below p2l (length p2l)) [0..<n])"
  using host_loop [OF assms, of "length p2l"] by (simp add: host_rows_def)

text \<open>A row that lists physical experts hosting \<open>e\<close>, at least one, then padding.\<close>

definition row_ok :: "int list \<Rightarrow> nat \<Rightarrow> int list \<Rightarrow> bool" where
  "row_ok p2l e row \<longleftrightarrow> (\<exists>c. 1 \<le> c \<and> c \<le> length row \<and> (\<forall>i<length row. c \<le> i \<longrightarrow> row ! i = -1)
     \<and> (\<forall>i<c. 0 \<le> row ! i \<and> row ! i < int (length p2l) \<and> p2l ! nat (row ! i) = int e))"

definition valid_entries :: "int list \<Rightarrow> int list" where
  "valid_entries row = filter (\<lambda>x. x \<noteq> -1) row"

lemma row_ok_valid:
  assumes "row_ok p2l e row"
  shows "1 \<le> length (valid_entries row)" "length (valid_entries row) \<le> length row"
    "\<forall>i<length (valid_entries row). 0 \<le> row ! i \<and> row ! i < int (length p2l) \<and> p2l ! nat (row ! i) = int e"
proof -
  obtain c where c: "1 \<le> c" "c \<le> length row" "\<forall>i<length row. c \<le> i \<longrightarrow> row ! i = -1"
      "\<forall>i<c. 0 \<le> row ! i \<and> row ! i < int (length p2l) \<and> p2l ! nat (row ! i) = int e"
    using assms unfolding row_ok_def by blast
  have "filter (\<lambda>x. x \<noteq> -1) (take c row) = take c row"
    using c(2,4) by (force simp: filter_id_conv in_set_conv_nth)
  moreover have "filter (\<lambda>x. x \<noteq> -1) (drop c row) = []"
    using c(2,3) by (auto simp: filter_empty_conv in_set_conv_nth)
  ultimately have "valid_entries row = take c row"
    unfolding valid_entries_def by (metis append_Nil2 append_take_drop_id filter_append)
  then have "length (valid_entries row) = c" using c(2) by simp
  with c show "1 \<le> length (valid_entries row)" "length (valid_entries row) \<le> length row"
    "\<forall>i<length (valid_entries row). 0 \<le> row ! i \<and> row ! i < int (length p2l) \<and> p2l ! nat (row ! i) = int e"
    by simp_all
qed

definition rows_ok :: "int list list \<Rightarrow> int list list list \<Rightarrow> nat \<Rightarrow> bool" where
  "rows_ok p2l l2p n \<longleftrightarrow> length l2p = length p2l
     \<and> (\<forall>k<length p2l. length (l2p ! k) = n \<and> (\<forall>e<n. row_ok (p2l ! k) e (l2p ! k ! e)))"

lemma row_ok_nonempty: "row_ok p2l e row \<Longrightarrow> row \<noteq> []"
  by (auto simp: row_ok_def)

lemma init_raw_ok:
  assumes "rows_ok p2l l2p n" "p2l \<noteq> []"
  shows "\<exists>m. init_raw cfg p2l l2p = Inr m \<and> rank_dispatch_map m = map (map hd) l2p \<and> all_physical_map m = l2p
     \<and> num_valid m = map (map (\<lambda>row. int (length (valid_entries row)))) l2p
     \<and> ep_dispatch_algorithm m = (case cfg_dispatch cfg of None \<Rightarrow> ''static''
           | Some d \<Rightarrow> if d = [] then ''static'' else d)"
proof -
  have "row \<noteq> []" if "rows \<in> set l2p" "row \<in> set rows" for rows row
    using that assms(1) row_ok_nonempty by (fastforce simp: rows_ok_def in_set_conv_nth)
  then have "np_get row 0 = Inr (hd row)" if "rows \<in> set l2p" "row \<in> set rows" for rows row
    using that by (simp add: hd_conv_nth)
  then have "map_m (map_m (\<lambda>row. np_get row 0)) l2p = Inr (map (map hd) l2p)"
    by (intro map_m_total) auto
  with assms(2) show ?thesis by (cases p2l) (simp_all add: init_raw_def valid_entries_def)
qed

definition hosted_on :: "int list \<Rightarrow> int list \<Rightarrow> int list \<Rightarrow> bool" where
  "hosted_on p2l ids phys \<longleftrightarrow> length phys = length ids
     \<and> (\<forall>i<length ids. 0 \<le> phys ! i \<and> phys ! i < int (length p2l) \<and> p2l ! nat (phys ! i) = ids ! i)"

lemma dispatch_hosted:
  assumes ok: "rows_ok p2l l2p n" and k: "k < length p2l" and ids: "\<forall>e\<in>set ids. 0 \<le> e \<and> e < int n"
    and offs: "length offs = length ids"
    and m: "rank_dispatch_map m = map (map hd) l2p" "all_physical_map m = l2p"
      "num_valid m = map (map (\<lambda>row. int (length (valid_entries row)))) l2p"
  shows "hosted_on (p2l ! k) ids (topk_static m (int k) ids)"
    and "hosted_on (p2l ! k) ids (topk_dynamic offs m (int k) ids)"
proof -
  have len: "length l2p = length p2l" "length (l2p ! k) = n" using ok k by (simp_all add: rows_ok_def)
  have row: "row_ok (p2l ! k) e (l2p ! k ! e)" if "e < n" for e using ok k that by (simp add: rows_ok_def)
  have at: "0 \<le> l2p ! k ! e ! i \<and> l2p ! k ! e ! i < int (length (p2l ! k)) \<and> p2l ! k ! nat (l2p ! k ! e ! i) = int e"
    if "e < n" "i < length (valid_entries (l2p ! k ! e))" for e i
    using row_ok_valid(3) [OF row [OF that(1)]] that(2) by blast
  have id: "\<exists>e. ids ! i = int e \<and> e < n" if "i < length ids" for i
    using ids that by (metis nat_0_le nat_less_iff nth_mem zless_nat_eq_int_zless)
  have "0 \<le> p \<and> p < int (length (p2l ! k)) \<and> p2l ! k ! nat p = ids ! i"
    if i: "i < length ids" and p: "p = topk_static m (int k) ids ! i" for i p
  proof -
    obtain e where e: "ids ! i = int e" "e < n" using id [OF i] by blast
    have "p = hd (l2p ! k ! e)" using p i e k len by (simp add: topk_static_def m)
    also have "\<dots> = l2p ! k ! e ! 0" using row_ok_nonempty [OF row [OF e(2)]] by (rule hd_conv_nth)
    finally have "p = l2p ! k ! e ! 0" .
    moreover have "0 < length (valid_entries (l2p ! k ! e))" using row_ok_valid(1) [OF row [OF e(2)]] by linarith
    ultimately show ?thesis using at [OF e(2)] e(1) by metis
  qed
  then show "hosted_on (p2l ! k) ids (topk_static m (int k) ids)"
    by (simp add: hosted_on_def) (simp add: topk_static_def)
  have "0 \<le> p \<and> p < int (length (p2l ! k)) \<and> p2l ! k ! nat p = ids ! i"
    if i: "i < length ids" and p: "p = topk_dynamic offs m (int k) ids ! i" for i p
  proof -
    obtain e where e: "ids ! i = int e" "e < n" using id [OF i] by blast
    let ?v = "length (valid_entries (l2p ! k ! e))"
    have v: "0 < ?v" "?v \<le> length (l2p ! k ! e)" using row_ok_valid(1,2) [OF row [OF e(2)]] by linarith+
    define j where "j = nat (offs ! i mod int ?v)"
    have j: "j < ?v" "offs ! i mod int ?v = int j" using v(1) by (simp_all add: j_def nat_less_iff)
    have "p = l2p ! k ! e ! j"
      using p i e k len offs j v by (simp add: topk_dynamic_def m)
    then show ?thesis using at [OF e(2) j(1)] e(1) by simp
  qed
  then show "hosted_on (p2l ! k) ids (topk_dynamic offs m (int k) ids)"
    using offs by (simp add: hosted_on_def) (simp add: topk_dynamic_def)
qed

lemma row_ok_hosts:
  assumes "int e \<in> set p2l" "length (hosts_below p2l (length p2l) e) \<le> M"
  shows "row_ok p2l e (hosts_below p2l (length p2l) e
      @ replicate (M - length (hosts_below p2l (length p2l) e)) (-1))"
proof -
  let ?h = "hosts_below p2l (length p2l) e"
  obtain p where "p < length p2l" "p2l ! p = int e" using assms(1) by (auto simp: in_set_conv_nth)
  then have "int p \<in> set ?h" by (auto simp: hosts_below_def)
  then have "1 \<le> length ?h" by (cases ?h) auto
  moreover have "0 \<le> x \<and> x < int (length p2l) \<and> p2l ! nat x = int e" if "x \<in> set ?h" for x
    using that by (auto simp: hosts_below_def)
  ultimately show ?thesis
    unfolding row_ok_def by (intro exI [of _ "length ?h"]) (auto simp: nth_append)
qed

lemma computed_rows_ok:
  assumes "p2l \<noteq> []" "0 < n" "\<forall>row\<in>set p2l. set row = {0..<int n}"
  shows "\<exists>l2p. compute_logical_to_all_physical_map p2l n = Inr l2p \<and> rows_ok p2l l2p n"
proof -
  let ?rows = "map (\<lambda>row. map (hosts_below row (length row)) [0..<n]) p2l"
  have run: "map_m (host_rows n) p2l = Inr ?rows"
    by (intro map_m_total host_rows_ok) (use assms(3) in \<open>force dest: nth_mem\<close>)
  have ne: "concat ?rows \<noteq> []" using assms(1,2) by (cases p2l) auto
  define M where "M = Max (set (map length (concat ?rows)))"
  have le: "length (hosts_below (p2l ! k) (length (p2l ! k)) e) \<le> M" if "k < length p2l" "e < n" for k e
  proof -
    have "hosts_below (p2l ! k) (length (p2l ! k)) e \<in> set (concat ?rows)"
      using that by (auto intro!: bexI [of _ "p2l ! k"])
    then show ?thesis unfolding M_def by (intro Max_ge) auto
  qed
  have "rows_ok p2l (map (map (\<lambda>inner. inner @ replicate (M - length inner) (-1))) ?rows) n"
    using row_ok_hosts le assms(3) by (auto simp: rows_ok_def)
  then show ?thesis
    unfolding compute_logical_to_all_physical_map_def run using ne
    by (simp add: pad_nested_array_def Let_def M_def)
qed

definition dispatch_known :: "expert_config \<Rightarrow> bool" where
  "dispatch_known cfg \<longleftrightarrow> cfg_dispatch cfg \<in> {None, Some [], Some ''static'', Some ''dynamic'', Some ''fake''}"

lemma dispatch_after_raw:
  assumes "rows_ok p2l l2p n" "k < length p2l" "\<forall>e\<in>set ids. 0 \<le> e \<and> e < int n" "length offs = length ids"
    and "dispatch_known cfg"
  shows "\<exists>m phys. init_raw cfg p2l l2p = Inr m
     \<and> topk_ids_logical_to_physical offs ids (Some m) (int k) = Inr phys \<and> hosted_on (p2l ! k) ids phys"
proof -
  have "p2l \<noteq> []" using assms(2) by auto
  from init_raw_ok [OF assms(1) this, of cfg] obtain m where
    m: "init_raw cfg p2l l2p = Inr m" "rank_dispatch_map m = map (map hd) l2p" "all_physical_map m = l2p"
      "num_valid m = map (map (\<lambda>row. int (length (valid_entries row)))) l2p"
      "ep_dispatch_algorithm m = (case cfg_dispatch cfg of None \<Rightarrow> ''static''
           | Some d \<Rightarrow> if d = [] then ''static'' else d)" by blast
  note d = dispatch_hosted [OF assms(1-4) m(2-4)]
  have "ep_dispatch_algorithm m \<in> {''static'', ''dynamic'', ''fake''}"
    using assms(5) m(5) by (auto simp: dispatch_known_def)
  then have "\<exists>phys. topk_ids_logical_to_physical offs ids (Some m) (int k) = Inr phys
      \<and> hosted_on (p2l ! k) ids phys"
    using d by (auto simp: topk_ids_logical_to_physical_def)
  with m(1) show ?thesis by blast
qed

text \<open>Dispatch inverts a given placement: for any physical-to-logical map in which every layer hosts
  every logical expert, the metadata is built, and the static and the dynamic dispatch (for any random
  offsets) send each logical id of a layer to a physical expert that hosts it. The trivial placement is
  the instance the witness uses.\<close>

theorem mapping_dispatch_hosts_expert:
  assumes "0 < cfg_num_experts cfg" "0 < cfg_num_layers cfg" "dispatch_known cfg"
    and "\<forall>row\<in>set p2l. set row = {0..<int (cfg_num_experts cfg)}"
    and "k < length p2l" "\<forall>e\<in>set ids. 0 \<le> e \<and> e < int (cfg_num_experts cfg)" "length offs = length ids"
  shows "\<exists>m phys. init_by_mapping cfg p2l = Inr (Some m)
     \<and> topk_ids_logical_to_physical offs ids (Some m) (int k) = Inr phys
     \<and> length phys = length ids
     \<and> (\<forall>i<length ids. 0 \<le> phys ! i \<and> phys ! i < int (length (p2l ! k)) \<and> p2l ! k ! nat (phys ! i) = ids ! i)"
proof -
  have "p2l \<noteq> []" using assms(5) by auto
  then obtain l2p where l2p: "compute_logical_to_all_physical_map p2l (cfg_num_experts cfg) = Inr l2p"
      "rows_ok p2l l2p (cfg_num_experts cfg)"
    using computed_rows_ok [OF _ assms(1,4)] by blast
  from dispatch_after_raw [OF l2p(2) assms(5-7,3)] show ?thesis
    using l2p(1) assms(1,2) by (auto simp: init_by_mapping_def init_common_def hosted_on_def)
qed

definition demo_cfg :: expert_config where
  "demo_cfg = \<lparr>cfg_num_experts = 4, cfg_num_layers = 2, cfg_num_groups = Some 2, cfg_ep_size = 2,
     cfg_redundant = 2, cfg_nnodes = 2, cfg_dispatch = Some ''dynamic'', cfg_algorithm = ''auto''\<rparr>"

lemma set_trivial_row:
  assumes "0 < n" "n \<le> P"
  shows "set (trivial_row P n) = {0..<int n}"
proof (intro equalityI subsetI)
  fix x assume "x \<in> {0..<int n}"
  then have "x \<in> {0..<int P}" "x mod int n = x" using assms by auto
  then show "x \<in> set (trivial_row P n)" unfolding trivial_row_def by force
qed (use assms in \<open>auto simp: trivial_row_def\<close>)

theorem mapping_dispatch_hosts_expert_witness:
  "\<exists>m phys. init_trivial demo_cfg = Inr (Some m)
     \<and> topk_ids_logical_to_physical [7, 65535, 0] [1, 0, 3] (Some m) 1 = Inr phys \<and> length phys = 3"
proof -
  let ?p = "replicate 2 (trivial_row 6 4)"
  have tr: "init_trivial demo_cfg = init_by_mapping demo_cfg ?p"
    by (simp add: init_trivial_def init_common_def demo_cfg_def)
  have h: "0 < cfg_num_experts demo_cfg" "0 < cfg_num_layers demo_cfg" "dispatch_known demo_cfg"
      "\<forall>row\<in>set ?p. set row = {0..<int (cfg_num_experts demo_cfg)}" "1 < length ?p"
      "\<forall>e\<in>set [1, 0, 3]. 0 \<le> e \<and> e < int (cfg_num_experts demo_cfg)" "length [7, 65535, 0 :: int] = length [1, 0, 3 :: int]"
    using set_trivial_row [of 4 6] by (simp_all add: demo_cfg_def dispatch_known_def)
  obtain m phys where "init_by_mapping demo_cfg ?p = Inr (Some m)"
      "topk_ids_logical_to_physical [7, 65535, 0] [1, 0, 3] (Some m) (int 1) = Inr phys"
      "length phys = length [1, 0, 3 :: int]"
    using mapping_dispatch_hosts_expert [OF h] by blast
  then show ?thesis unfolding tr by (intro exI [of _ m] exI [of _ phys]) simp
qed

lemma inverse_maps_row_ok:
  assumes "inverse_maps p2l l2p cnt" "e < length cnt"
  shows "row_ok p2l e (l2p ! e)"
proof -
  let ?c = "nat (cnt ! e)"
  have c: "1 \<le> cnt ! e" "cnt ! e = int (card (replicas p2l e))" "distinct (take ?c (l2p ! e))"
      "set (take ?c (l2p ! e)) = int ` replicas p2l e" "\<forall>x\<in>set (drop ?c (l2p ! e)). x = -1"
    using assms unfolding inverse_maps_def by blast+
  have "length (take ?c (l2p ! e)) = card (replicas p2l e)"
    using distinct_card [OF c(3)] c(4) by (simp add: card_image)
  then have len: "?c \<le> length (l2p ! e)" using c(2) by simp
  have "0 \<le> l2p ! e ! i \<and> l2p ! e ! i < int (length p2l) \<and> p2l ! nat (l2p ! e ! i) = int e" if "i < ?c" for i
  proof -
    have "l2p ! e ! i \<in> set (take ?c (l2p ! e))" using that len by (auto simp: in_set_conv_nth)
    then show ?thesis unfolding c(4) by (auto simp: replicas_def)
  qed
  moreover have "l2p ! e ! i = -1" if "i < length (l2p ! e)" "?c \<le> i" for i
  proof -
    have "l2p ! e ! i \<in> set (drop ?c (l2p ! e))"
      using that by (auto simp: in_set_conv_nth intro!: exI [of _ "i - ?c"])
    with c(5) show ?thesis by blast
  qed
  ultimately show ?thesis unfolding row_ok_def using c(1) len by (intro exI [of _ ?c]) auto
qed

text \<open>The sizes \<open>init_by_eplb\<close> needs under the automatic choice of the algorithm.\<close>

definition eplb_sizes_ok :: "expert_config \<Rightarrow> bool" where
  "eplb_sizes_ok cfg \<longleftrightarrow> 0 < cfg_num_experts cfg \<and> 0 < cfg_num_layers cfg \<and> cfg_algorithm cfg = ''auto''
     \<and> 0 < cfg_ep_size cfg \<and> 0 < cfg_nnodes cfg
     \<and> (cfg_num_experts cfg + cfg_redundant cfg) mod cfg_ep_size cfg = 0
     \<and> (case cfg_num_groups cfg of None \<Rightarrow> True | Some g \<Rightarrow> 0 < g \<and> cfg_num_experts cfg mod g = 0
          \<and> (g mod cfg_nnodes cfg = 0 \<longrightarrow> cfg_ep_size cfg mod cfg_nnodes cfg = 0))"

lemma eplb_rebalance_auto:
  assumes cfg: "eplb_sizes_ok cfg" and W: "W \<noteq> []" "\<forall>w\<in>set W. length w = cfg_num_experts cfg"
    and F: "sorter_ok F" and P: "P = cfg_num_experts cfg + cfg_redundant cfg"
  shows "\<exists>alg pl. compute_algorithm (cfg_algorithm cfg) (cfg_num_groups cfg) (cfg_nnodes cfg) = Inr alg
     \<and> eplb_rebalance F (cfg_num_experts cfg) W P (P div cfg_ep_size cfg) (cfg_num_groups cfg) (cfg_nnodes cfg) alg
         = Inr pl
     \<and> rows_ok (physical_to_logical pl) (logical_to_physical pl) (cfg_num_experts cfg)
     \<and> length (physical_to_logical pl) = length W"
proof -
  let ?n = "cfg_num_experts cfg" and ?N = "cfg_nnodes cfg" and ?U = "cfg_ep_size cfg"
  have pos: "0 < ?n" "0 < ?U" "0 < ?N" "P mod ?U = 0" "0 < P" "?n \<le> P"
    using cfg P by (auto simp: eplb_sizes_ok_def)
  obtain d where d: "P = ?U * d" using pos(4) by (metis dvdE mod_eq_0_iff_dvd)
  then have loc: "0 < P div ?U" "P div (P div ?U) = ?U" using pos by auto
  define g where "g = (case cfg_num_groups cfg of None \<Rightarrow> 1 | Some g \<Rightarrow> g)"
  define hier where "hier = (cfg_num_groups cfg \<noteq> None \<and> g mod ?N = 0)"
  define alg where "alg = (if hier then deepseek_hierarchical else deepseek)"
  have alg: "compute_algorithm (cfg_algorithm cfg) (cfg_num_groups cfg) ?N = Inr alg"
    using cfg pos by (auto simp: compute_algorithm_def eplb_sizes_ok_def alg_def hier_def g_def split: option.splits)
  have call: "eplb_rebalance F ?n W P (P div ?U) (cfg_num_groups cfg) ?N alg = rebalance_experts F ?n W P g ?N ?U hier"
    using loc by (auto simp: eplb_rebalance_def Let_def alg_def hier_def g_def split: option.splits)
  have "hier \<longrightarrow> 0 < g \<and> ?n mod g = 0 \<and> 0 < ?N \<and> g mod ?N = 0 \<and> ?U mod ?N = 0"
    using cfg by (auto simp: eplb_sizes_ok_def hier_def g_def split: option.splits)
  from rebalance_experts_ok [OF W pos(1,6,2,4) this F] obtain pl where
    pl: "rebalance_experts F ?n W P g ?N ?U hier = Inr pl"
      "length (physical_to_logical pl) = length W" "length (logical_to_physical pl) = length W"
      "\<forall>k<length W. length (expert_count pl ! k) = ?n
         \<and> inverse_maps (physical_to_logical pl ! k) (logical_to_physical pl ! k) (expert_count pl ! k)" by blast
  have "rows_ok (physical_to_logical pl) (logical_to_physical pl) ?n"
    unfolding rows_ok_def using pl(2-4) inverse_maps_row_ok by (metis inverse_maps_def)
  with alg call pl show ?thesis by auto
qed

text \<open>C33. The balancer's placement can be dispatched: with consistent sizes \<open>init_by_eplb\<close> builds the
  metadata from any load statistics, and both dispatch algorithms send each logical id to a physical
  expert hosting it.\<close>

theorem eplb_dispatch_hosts_expert:
  assumes "eplb_sizes_ok cfg" "dispatch_known cfg" "\<forall>w\<in>set W. length w = cfg_num_experts cfg"
    and "\<forall>ws. distinct (w_argsort_desc F ws) \<and> set (w_argsort_desc F ws) = {0..<int (length ws)}"
    and "k < length W" "\<forall>e\<in>set ids. 0 \<le> e \<and> e < int (cfg_num_experts cfg)" "length offs = length ids"
  shows "\<exists>m phys. init_by_eplb F cfg W = Inr (Some m)
     \<and> topk_ids_logical_to_physical offs ids (Some m) (int k) = Inr phys \<and> length phys = length ids
     \<and> (\<forall>i<length ids. 0 \<le> phys ! i \<and> phys ! i < int (length (physical_to_logical_map m ! k))
          \<and> physical_to_logical_map m ! k ! nat (phys ! i) = ids ! i)"
proof -
  let ?P = "cfg_num_experts cfg + cfg_redundant cfg"
  have W: "W \<noteq> []" using assms(5) by auto
  have F: "sorter_ok F" using assms(4) by (simp add: sorter_ok_def is_perm_def)
  obtain alg pl where pl: "compute_algorithm (cfg_algorithm cfg) (cfg_num_groups cfg) (cfg_nnodes cfg) = Inr alg"
      "eplb_rebalance F (cfg_num_experts cfg) W ?P (?P div cfg_ep_size cfg) (cfg_num_groups cfg)
         (cfg_nnodes cfg) alg = Inr pl"
      "rows_ok (physical_to_logical pl) (logical_to_physical pl) (cfg_num_experts cfg)"
      "length (physical_to_logical pl) = length W"
    using eplb_rebalance_auto [OF assms(1) W assms(3) F refl] by blast
  have k: "k < length (physical_to_logical pl)" using assms(5) pl(4) by simp
  obtain m phys where m: "init_raw cfg (physical_to_logical pl) (logical_to_physical pl) = Inr m"
      "topk_ids_logical_to_physical offs ids (Some m) (int k) = Inr phys"
      "hosted_on (physical_to_logical pl ! k) ids phys"
    using dispatch_after_raw [OF pl(3) k assms(6,7,2)] by blast
  have "physical_to_logical_map m = physical_to_logical pl"
    using m(1) by (cases "physical_to_logical pl") (auto simp: init_raw_def rbind_eq_Inr_iff)
  moreover have "init_by_eplb F cfg W = Inr (Some m)"
    using assms(1) pl(1,2) m(1) by (auto simp: init_by_eplb_def init_common_def eplb_sizes_ok_def)
  ultimately show ?thesis using m(2,3) by (auto simp: hosted_on_def)
qed

theorem eplb_dispatch_hosts_expert_witness:
  "\<exists>m phys. init_by_eplb demo_ops demo_cfg [[10, 3, 5, 7], [1, 1, 9, 0]] = Inr (Some m)
     \<and> topk_ids_logical_to_physical [7, 65535] [1, 3] (Some m) (int 1) = Inr phys \<and> length phys = 2"
proof -
  have "int ` {0..<length ws} = {0..<int (length ws)}" for ws :: "int list"
    by (simp add: image_int_atLeastLessThan)
  then have F: "\<forall>ws. distinct (w_argsort_desc demo_ops ws)
      \<and> set (w_argsort_desc demo_ops ws) = {0..<int (length ws)}"
    by (simp add: demo_ops_def distinct_map)
  have h: "eplb_sizes_ok demo_cfg" "dispatch_known demo_cfg"
      "\<forall>w\<in>set [[10, 3, 5, 7], [1, 1, 9, 0 :: int]]. length w = cfg_num_experts demo_cfg"
    by (simp_all add: eplb_sizes_ok_def dispatch_known_def demo_cfg_def)
  have i: "1 < length [[10, 3, 5, 7], [1, 1, 9, 0 :: int]]"
      "\<forall>e\<in>set [1, 3]. 0 \<le> e \<and> e < int (cfg_num_experts demo_cfg)" "length [7, 65535 :: int] = length [1, 3 :: int]"
    by (simp_all add: demo_cfg_def)
  show ?thesis using eplb_dispatch_hosts_expert [OF h F i] by auto
qed

end
