(* ===== verification/Prefill_Adder.thy ===== *)
theory Prefill_Adder
  imports Sgl_Prelude Complex_Main
begin

text \<open>
  The admission budget of a prefill batch: class \<open>PrefillAdder\<close> of \<open>managers/schedule_policy.py\<close>,
  with the sliding-window sizes it takes from \<open>managers/schedule_batch.py\<close>. The prefix cache and the
  KV allocator it consults are a record of operations over a state \<open>'c\<close>; a lock of a tree node \<open>'n\<close>
  returns the parameters \<open>'p\<close> its release needs, and a load-back returns a flush plan of items \<open>'h\<close>.
  The token ratio is a float in the source and a rational here, so sums and products are exact; token
  counts are integers. The page size is positive.
\<close>

record ('c, 'n, 'p, 'h) adder_env =
  ae_page_size :: int
  ae_dp_size :: nat
  ae_new_token_ratio :: rat
  ae_hybrid :: bool
  ae_available :: "'c \<Rightarrow> nat \<Rightarrow> int"
  ae_evictable :: "'c \<Rightarrow> nat \<Rightarrow> int"
  ae_swa_available :: "'c \<Rightarrow> nat \<Rightarrow> int"
  ae_swa_evictable :: "'c \<Rightarrow> nat \<Rightarrow> int"
  ae_sliding_window :: int
  ae_interval_multiplier :: rat
  ae_track_interval :: "int option"
  ae_cache_disable :: bool
  ae_hicache :: bool
  ae_lock :: "'n \<Rightarrow> 'c \<Rightarrow> 'p \<times> 'c"
  ae_unlock :: "'n \<Rightarrow> 'p \<Rightarrow> 'c \<Rightarrow> 'c"
  ae_load_back :: "'n \<Rightarrow> int \<Rightarrow> int \<Rightarrow> 'c \<Rightarrow> (int list \<times> 'n \<times> 'h list) \<times> 'c"

text \<open>\<open>ae_available\<close> and \<open>ae_evictable\<close> are the full-pool sizes for a hybrid allocator and the plain
  ones otherwise, as the source selects them by \<open>is_hybrid\<close>; \<open>ae_track_interval\<close> is
  \<open>recurrent_track_interval\<close> when the extra recurrent buffer is active.\<close>

record ('n, 'p) prefill_req =
  pr_rid :: nat
  pr_dp_rank :: "nat option"
  pr_extend :: int
  pr_fill_ids :: "int list"
  pr_prefix :: "int list"
  pr_max_new :: int
  pr_ignore_eos :: bool
  pr_output_len :: int
  pr_origin_len :: int
  pr_host_hit :: int
  pr_last_node :: 'n
  pr_last_host_node :: 'n
  pr_last_matched :: int
  pr_kv_allocated :: int
  pr_swa_evicted :: int
  pr_lock :: "'p option"

record ('c, 'n, 'p, 'h) prefill_adder =
  ad_rem_input :: int
  ad_rem_chunk :: "int option"
  ad_rem_chunk_list :: "int list option"
  ad_total_offset :: "rat list"
  ad_cur_offset :: "int list"
  ad_req_states :: "(int \<times> int) list option list"
  ad_can_run :: "('n, 'p) prefill_req list list"
  ad_new_chunked :: "('n, 'p) prefill_req option list"
  ad_swa_offset :: "int list"
  ad_log_hit :: int
  ad_log_input :: int
  ad_pending_h2d :: "'h list"
  ad_cache :: 'c

datatype add_req_result = CONTINUE | NO_TOKEN | DP_BUDGET_EXHAUSTED | OTHER

definition clip_max_new :: int where
  "clip_max_new = 4096"

definition clipped_new :: "('n, 'p) prefill_req \<Rightarrow> int" where
  "clipped_new r = min (pr_max_new r) clip_max_new"

definition trunc_rat :: "rat \<Rightarrow> int" where
  "trunc_rat x = (if 0 \<le> x then \<lfloor>x\<rfloor> else \<lceil>x\<rceil>)"

section \<open>Sizes\<close>

definition ceil_paged_tokens :: "('c, 'n, 'p, 'h) adder_env \<Rightarrow> int \<Rightarrow> int" where
  "ceil_paged_tokens E n = - (- n div ae_page_size E) * ae_page_size E"

definition align_page_size :: "('c, 'n, 'p, 'h) adder_env \<Rightarrow> rat \<Rightarrow> int" where
  "align_page_size E x = \<lfloor>(x + of_int (ae_page_size E) - 1) / of_int (ae_page_size E)\<rfloor> * ae_page_size E"

definition swa_eviction_interval :: "rat \<Rightarrow> int \<Rightarrow> int \<Rightarrow> int" where
  "swa_eviction_interval multiplier window page =
     (let interval = max page (trunc_rat (of_int window * multiplier)) in interval div page * page)"

definition swa_eviction_peak_tokens :: "rat \<Rightarrow> int \<Rightarrow> int \<Rightarrow> int" where
  "swa_eviction_peak_tokens multiplier window page =
     window + swa_eviction_interval multiplier window page + 2 * page"

definition swa_decode_peak_tokens :: "('c, 'n, 'p, 'h) adder_env \<Rightarrow> int" where
  "swa_decode_peak_tokens E = ceil_paged_tokens E
     (swa_eviction_peak_tokens (ae_interval_multiplier E) (ae_sliding_window E) (ae_page_size E))"

definition swa_headroom_for_running_req :: "('c, 'n, 'p, 'h) adder_env \<Rightarrow> ('n, 'p) prefill_req \<Rightarrow> int" where
  "swa_headroom_for_running_req E r =
     (let live_tokens = max 0 (ceil_paged_tokens E (pr_kv_allocated r) - pr_swa_evicted r) in
      max 0 (swa_decode_peak_tokens E - live_tokens))"

section \<open>Construction\<close>

text \<open>\<open>mixed_with_decode_tokens\<close> is one number for all ranks or a list with one per rank.\<close>

definition mixed_per_dp :: "('c, 'n, 'p, 'h) adder_env \<Rightarrow> int + int list \<Rightarrow> int list result" where
  "mixed_per_dp E mixed = (case mixed of
     Inl x \<Rightarrow> Inr (replicate (ae_dp_size E) (max 0 x))
   | Inr xs \<Rightarrow> if length xs \<noteq> ae_dp_size E then Inl ValueError else Inr (map (max 0) xs))"

definition running_offset :: "('c, 'n, 'p, 'h) adder_env \<Rightarrow> ('n, 'p) prefill_req \<Rightarrow> rat" where
  "running_offset E r = of_int (min (pr_max_new r - pr_output_len r) clip_max_new)
     * (if pr_ignore_eos r then 1 else ae_new_token_ratio E)"

text \<open>\<open>running\<close> holds the running requests of each rank, or is \<open>None\<close> without a running batch.\<close>

definition adder_init ::
    "('c, 'n, 'p, 'h) adder_env \<Rightarrow> ('n, 'p) prefill_req list list option \<Rightarrow> int \<Rightarrow> int option \<Rightarrow> int + int list
      \<Rightarrow> 'c \<Rightarrow> ('c, 'n, 'p, 'h) prefill_adder result" where
  "adder_init E running rem_input rem_chunk mixed c =
     rbind (mixed_per_dp E mixed) (\<lambda>mx.
     case running of
       Some infos \<Rightarrow>
         if length infos < ae_dp_size E then Inl IndexError
         else Inr \<lparr>ad_rem_input = rem_input - sum_list mx, ad_rem_chunk = rem_chunk,
           ad_rem_chunk_list = map_option (\<lambda>ch. map (\<lambda>m. ch - m) mx) rem_chunk,
           ad_total_offset = map (\<lambda>d. of_int (mx ! d) + sum_list (map (running_offset E) (infos ! d)))
                               [0..<ae_dp_size E],
           ad_cur_offset = mx,
           ad_req_states = replicate (ae_dp_size E) None, ad_can_run = replicate (ae_dp_size E) [],
           ad_new_chunked = replicate (ae_dp_size E) None,
           ad_swa_offset = (if ae_hybrid E
              then map (\<lambda>d. sum_list (map (swa_headroom_for_running_req E) (infos ! d))) [0..<ae_dp_size E]
              else replicate (ae_dp_size E) 0),
           ad_log_hit = 0, ad_log_input = 0, ad_pending_h2d = [], ad_cache = c\<rparr>
     | None \<Rightarrow> Inr \<lparr>ad_rem_input = rem_input - sum_list mx, ad_rem_chunk = rem_chunk,
           ad_rem_chunk_list = map_option (\<lambda>ch. map (\<lambda>m. ch - m) mx) rem_chunk,
           ad_total_offset = map of_int mx, ad_cur_offset = mx,
           ad_req_states = replicate (ae_dp_size E) None, ad_can_run = replicate (ae_dp_size E) [],
           ad_new_chunked = replicate (ae_dp_size E) None, ad_swa_offset = replicate (ae_dp_size E) 0,
           ad_log_hit = 0, ad_log_input = 0, ad_pending_h2d = [], ad_cache = c\<rparr>)"

section \<open>Remaining budgets\<close>

definition rem_total_tokens_for_dp ::
    "('c, 'n, 'p, 'h) adder_env \<Rightarrow> ('c, 'n, 'p, 'h) prefill_adder \<Rightarrow> nat \<Rightarrow> rat" where
  "rem_total_tokens_for_dp E A d =
     of_int (ae_available E (ad_cache A) d + ae_evictable E (ad_cache A) d) - ad_total_offset A ! d"

definition cur_rem_tokens_for_dp ::
    "('c, 'n, 'p, 'h) adder_env \<Rightarrow> ('c, 'n, 'p, 'h) prefill_adder \<Rightarrow> nat \<Rightarrow> int" where
  "cur_rem_tokens_for_dp E A d =
     ae_available E (ad_cache A) d + ae_evictable E (ad_cache A) d - ad_cur_offset A ! d"

definition rem_swa_tokens_for_dp ::
    "('c, 'n, 'p, 'h) adder_env \<Rightarrow> ('c, 'n, 'p, 'h) prefill_adder \<Rightarrow> nat \<Rightarrow> int" where
  "rem_swa_tokens_for_dp E A d =
     ae_swa_available E (ad_cache A) d + ae_swa_evictable E (ad_cache A) d - ad_swa_offset A ! d"

definition swa_budget_for_req ::
    "('c, 'n, 'p, 'h) adder_env \<Rightarrow> ('c, 'n, 'p, 'h) prefill_adder \<Rightarrow> int \<Rightarrow> nat \<Rightarrow> int" where
  "swa_budget_for_req E A ext_len d =
     (let alloc = (case ad_rem_chunk_list A of Some L \<Rightarrow> min ext_len (L ! d) | None \<Rightarrow> ext_len) in
      ceil_paged_tokens E (max alloc (swa_decode_peak_tokens E)))"

definition recurrent_boundary_cap :: "('c, 'n, 'p, 'h) adder_env \<Rightarrow> int \<Rightarrow> int option" where
  "recurrent_boundary_cap E prefix_len = (case ae_track_interval E of None \<Rightarrow> None
     | Some interval \<Rightarrow> Some ((prefix_len div interval + 1) * interval - prefix_len))"

definition budget_state ::
    "('c, 'n, 'p, 'h) adder_env \<Rightarrow> ('c, 'n, 'p, 'h) prefill_adder \<Rightarrow> add_req_result" where
  "budget_state E A =
     (let ranks = [0..<ae_dp_size E];
          no_token = (Min (set (map (rem_total_tokens_for_dp E A) ranks)) \<le> 0
             \<or> Min (set (map (cur_rem_tokens_for_dp E A) ranks)) \<le> 0
             \<or> (ae_hybrid E \<and> list_all (\<lambda>d. rem_swa_tokens_for_dp E A d \<le> 0) ranks)) in
      if no_token then NO_TOKEN
      else if ad_rem_input A \<le> 0 \<or> (case ad_rem_chunk A of None \<Rightarrow> False | Some ch \<Rightarrow> ch \<le> 0) then OTHER
      else CONTINUE)"

definition budget_state_after_add ::
    "('c, 'n, 'p, 'h) adder_env \<Rightarrow> ('c, 'n, 'p, 'h) prefill_adder \<Rightarrow> nat \<Rightarrow> add_req_result" where
  "budget_state_after_add E A d =
     (if ad_rem_input A \<le> 0 \<or> (case ad_rem_chunk A of None \<Rightarrow> False | Some ch \<Rightarrow> ch \<le> 0) then OTHER
      else if ae_hybrid E \<and> rem_swa_tokens_for_dp E A d \<le> 0 then NO_TOKEN
      else CONTINUE)"

section \<open>Charging and appending\<close>

definition update_prefill_budget ::
    "('c, 'n, 'p, 'h) adder_env \<Rightarrow> int \<Rightarrow> int \<Rightarrow> int \<Rightarrow> nat \<Rightarrow> ('c, 'n, 'p, 'h) prefill_adder
      \<Rightarrow> ('c, 'n, 'p, 'h) prefill_adder" where
  "update_prefill_budget E prefix_len ext_len0 max_new d A =
     (let ext_len = ceil_paged_tokens E ext_len0 in
      A\<lparr>ad_total_offset := (ad_total_offset A)[d := ad_total_offset A ! d + of_int (ext_len + max_new)],
        ad_cur_offset := (ad_cur_offset A)[d := ad_cur_offset A ! d + ext_len],
        ad_rem_input := ad_rem_input A - ext_len,
        ad_swa_offset := (if ae_hybrid E
           then (ad_swa_offset A)[d := ad_swa_offset A ! d + swa_budget_for_req E A ext_len d]
           else ad_swa_offset A),
        ad_rem_chunk_list := map_option (\<lambda>L. L[d := L ! d - ext_len]) (ad_rem_chunk_list A),
        ad_log_hit := ad_log_hit A + prefix_len,
        ad_log_input := ad_log_input A + ext_len\<rparr>)"

definition append_run ::
    "nat \<Rightarrow> ('n, 'p) prefill_req \<Rightarrow> ('c, 'n, 'p, 'h) prefill_adder \<Rightarrow> ('c, 'n, 'p, 'h) prefill_adder" where
  "append_run d r A = A\<lparr>ad_can_run := (ad_can_run A)[d := ad_can_run A ! d @ [r]]\<rparr>"

definition mark_chunked ::
    "nat \<Rightarrow> ('n, 'p) prefill_req \<Rightarrow> ('c, 'n, 'p, 'h) prefill_adder \<Rightarrow> ('c, 'n, 'p, 'h) prefill_adder" where
  "mark_chunked d r A = A\<lparr>ad_new_chunked := (ad_new_chunked A)[d := Some r]\<rparr>"

definition rank_of :: "('n, 'p) prefill_req \<Rightarrow> nat" where
  "rank_of r = (case pr_dp_rank r of Some d \<Rightarrow> d | None \<Rightarrow> 0)"

definition total_can_run :: "('c, 'n, 'p, 'h) prefill_adder \<Rightarrow> nat" where
  "total_can_run A = sum_list (map length (ad_can_run A))"

section \<open>Continuing a chunked request\<close>

text \<open>The returned option is the request when it stays chunked.\<close>

definition add_chunked_req ::
    "('c, 'n, 'p, 'h) adder_env \<Rightarrow> ('n, 'p) prefill_req \<Rightarrow> ('c, 'n, 'p, 'h) prefill_adder
      \<Rightarrow> (('n, 'p) prefill_req option \<times> ('c, 'n, 'p, 'h) prefill_adder) result" where
  "add_chunked_req E req A =
     (let d = rank_of req in
      if ae_dp_size E \<le> d then Inl IndexError
      else case ad_rem_chunk_list A of None \<Rightarrow> Inl TypeError
      | Some L \<Rightarrow>
          let rem0 = min (L ! d) (trunc_rat (rem_total_tokens_for_dp E A d));
              rem1 = (if ae_hybrid E then min rem0 (rem_swa_tokens_for_dp E A d - ae_page_size E) else rem0) in
          if rem1 \<le> 0 \<and> ae_hybrid E
          then Inr (Some (req\<lparr>pr_fill_ids := py_slice (pr_fill_ids req) 0 (int (length (pr_prefix req)))\<rparr>), A)
          else
            let rem2 = (if rem1 \<le> 0 then L ! d else rem1);
                cap = recurrent_boundary_cap E (int (length (pr_prefix req)));
                boundary_truncated = (case cap of None \<Rightarrow> False | Some b \<Rightarrow> pr_extend req > b);
                rem3 = (case cap of None \<Rightarrow> rem2 | Some b \<Rightarrow> min rem2 b);
                truncated = pr_extend req > rem3;
                ext = min (pr_extend req) rem3;
                req1 = req\<lparr>pr_extend := ext,
                  pr_fill_ids := py_slice (pr_fill_ids req) 0 (int (length (pr_prefix req)) + ext)\<rparr>;
                A1 = update_prefill_budget E 0 ext
                       (if truncated \<or> boundary_truncated then 0 else clipped_new req) d
                       (append_run d req1 A) in
            Inr (if truncated \<or> boundary_truncated then Some req1 else None, A1))"

section \<open>Admission with \<open>ignore_eos\<close> and no prefix cache\<close>

definition req_state :: "('c, 'n, 'p, 'h) adder_env \<Rightarrow> ('n, 'p) prefill_req \<Rightarrow> int \<times> int" where
  "req_state E r =
     (align_page_size E (of_int (pr_max_new r) * (if pr_ignore_eos r then 1 else ae_new_token_ratio E))
        - pr_output_len r,
      pr_origin_len r + pr_output_len r)"

text \<open>The index the \<open>for\<close> loop leaves in \<open>i\<close>: the first position whose tokens are not fewer, and the
  last position when there is none.\<close>

fun insert_index :: "int \<Rightarrow> (int \<times> int) list \<Rightarrow> nat" where
  "insert_index t [] = 0"
| "insert_index t (x # xs) = (if t \<le> fst x \<or> xs = [] then 0 else Suc (insert_index t xs))"

definition insert_req_state :: "int \<times> int \<Rightarrow> (int \<times> int) list \<Rightarrow> (int \<times> int) list" where
  "insert_req_state x xs =
     (if fst x \<le> 0 then xs
      else let i = insert_index (fst x) xs in take i xs @ x # drop i xs)"

definition append_req_states :: "(int \<times> int) list \<Rightarrow> (int \<times> int) list" where
  "append_req_states xs = sort_key fst (filter (\<lambda>x. 0 < fst x) xs)"

fun states_fit :: "(int \<times> int) list \<Rightarrow> int \<Rightarrow> int \<Rightarrow> bool" where
  "states_fit [] cur_rem freed = True"
| "states_fit ((tokens_left, tokens_occupied) # xs) cur_rem freed =
     (let bs = int (Suc (length xs)) in
      if cur_rem + freed - tokens_left * bs \<le> bs then False
      else states_fit xs cur_rem (freed + tokens_occupied))"

definition add_one_req_ignore_eos ::
    "('c, 'n, 'p, 'h) adder_env \<Rightarrow> ('n, 'p) prefill_req list list option \<Rightarrow> ('n, 'p) prefill_req
      \<Rightarrow> ('c, 'n, 'p, 'h) prefill_adder
      \<Rightarrow> add_req_result \<times> ('n, 'p) prefill_req \<times> ('c, 'n, 'p, 'h) prefill_adder" where
  "add_one_req_ignore_eos E running req A =
     (let d = rank_of req in
      if of_int (ceil_paged_tokens E (pr_extend req))
           > min (of_int (cur_rem_tokens_for_dp E A d)) (rem_total_tokens_for_dp E A d)
      then (NO_TOKEN, req, A)
      else if ae_hybrid E \<and> swa_budget_for_req E A (pr_extend req) d > rem_swa_tokens_for_dp E A d
      then (NO_TOKEN, req, A)
      else
        let states = (case ad_req_states A ! d of
              None \<Rightarrow> append_req_states (req_state E req
                # map (req_state E) (case running of None \<Rightarrow> [] | Some infos \<Rightarrow> infos ! d)
                @ map (req_state E) (ad_can_run A ! d))
            | Some xs \<Rightarrow> insert_req_state (req_state E req) xs);
            A1 = A\<lparr>ad_req_states := (ad_req_states A)[d := Some states]\<rparr>;
            cur_rem = cur_rem_tokens_for_dp E A1 d - ceil_paged_tokens E (pr_extend req) in
        if \<not> states_fit states cur_rem 0 then (NO_TOKEN, req, A1)
        else
          case ad_rem_chunk_list A1 of
            Some L \<Rightarrow>
              if pr_extend req \<le> L ! d
              then let A2 = update_prefill_budget E 0 (pr_extend req) (clipped_new req) d (append_run d req A1)
                   in (budget_state_after_add E A2 d, req, A2)
              else if L ! d \<le> 0 then (DP_BUDGET_EXHAUSTED, req, A1)
              else let req1 = req\<lparr>pr_extend := L ! d, pr_fill_ids := py_slice (pr_fill_ids req) 0 (L ! d)\<rparr>;
                       A2 = update_prefill_budget E 0 (L ! d) 0 d (mark_chunked d req1 (append_run d req1 A1))
                   in (budget_state_after_add E A2 d, req1, A2)
          | None \<Rightarrow>
              let A2 = update_prefill_budget E 0 (pr_extend req) (clipped_new req) d (append_run d req A1)
              in (budget_state_after_add E A2 d, req, A2))"


section \<open>Admission\<close>

text \<open>The load-back of a host prefix, after the budget gate.\<close>

definition load_back ::
    "('c, 'n, 'p, 'h) adder_env \<Rightarrow> nat \<Rightarrow> ('n, 'p) prefill_req \<Rightarrow> ('c, 'n, 'p, 'h) prefill_adder
      \<Rightarrow> ('n, 'p) prefill_req \<times> ('c, 'n, 'p, 'h) prefill_adder" where
  "load_back E d req A =
     (if ae_hicache E \<and> 0 < pr_host_hit req then
        let ((new_indices, last_node, plan), c1) =
              ae_load_back E (pr_last_host_node req) (pr_host_hit req)
                (ae_available E (ad_cache A) d) (ad_cache A);
            A1 = A\<lparr>ad_cache := c1\<rparr> in
        if new_indices = [] then (req, A1)
        else (req\<lparr>pr_prefix := pr_prefix req @ new_indices, pr_last_node := last_node,
                pr_last_host_node := last_node,
                pr_host_hit := max 0 (pr_host_hit req - int (length new_indices)),
                pr_extend := int (length (pr_fill_ids req)) - int (length (pr_prefix req @ new_indices))\<rparr>,
              A1\<lparr>ad_pending_h2d := ad_pending_h2d A1 @ plan\<rparr>)
      else (req, A))"

text \<open>Taking the request's own lock; the result is kept on the request.\<close>

definition lock_req ::
    "('c, 'n, 'p, 'h) adder_env \<Rightarrow> ('n, 'p) prefill_req \<Rightarrow> ('c, 'n, 'p, 'h) prefill_adder
      \<Rightarrow> ('n, 'p) prefill_req \<times> ('c, 'n, 'p, 'h) prefill_adder" where
  "lock_req E req A = (let (p, c1) = ae_lock E (pr_last_node req) (ad_cache A) in
     (req\<lparr>pr_lock := Some p\<rparr>, A\<lparr>ad_cache := c1\<rparr>))"

text \<open>The body of the \<open>with self._lock_node(...)\<close> block. \<open>Some r\<close> is an early return of \<open>r\<close>.\<close>

definition add_under_lock ::
    "('c, 'n, 'p, 'h) adder_env \<Rightarrow> nat \<Rightarrow> int \<Rightarrow> ('n, 'p) prefill_req \<Rightarrow> ('c, 'n, 'p, 'h) prefill_adder
      \<Rightarrow> add_req_result option \<times> ('n, 'p) prefill_req \<times> ('c, 'n, 'p, 'h) prefill_adder" where
  "add_under_lock E d total_tokens req A =
     (if of_int total_tokens \<ge> rem_total_tokens_for_dp E A d then (Some NO_TOKEN, req, A)
      else if ae_hybrid E \<and> swa_budget_for_req E A (pr_extend req) d \<ge> rem_swa_tokens_for_dp E A d
      then (Some NO_TOKEN, req, A)
      else if (case ad_rem_chunk_list A of None \<Rightarrow> False | Some L \<Rightarrow>
                 ceil_paged_tokens E (pr_extend req) > L ! d
                 \<and> L ! d div ae_page_size E * ae_page_size E \<le> 0)
      then (Some DP_BUDGET_EXHAUSTED, req, A)
      else
        let (req1, A1) = load_back E d req A;
            prefix_len = int (length (pr_prefix req1));
            req2 = req1\<lparr>pr_last_matched := prefix_len\<rparr>;
            (boundary_truncated, req3) = (case recurrent_boundary_cap E prefix_len of
                None \<Rightarrow> (False, req2)
              | Some b \<Rightarrow> if pr_extend req2 > b
                  then (True, req2\<lparr>pr_extend := b, pr_fill_ids := py_slice (pr_fill_ids req2) 0 (prefix_len + b)\<rparr>)
                  else (False, req2));
            input_tokens = ceil_paged_tokens E (pr_extend req3) in
        if ad_rem_chunk_list A1 = None \<and> input_tokens \<ge> ad_rem_input A1 \<and> total_can_run A1 \<noteq> 0
        then (Some OTHER, req3, A1)
        else if (case ad_rem_chunk_list A1 of None \<Rightarrow> True | Some L \<Rightarrow> input_tokens \<le> L ! d) then
          let (req4, A2) = lock_req E req3 A1;
              A3 = append_run d req4 A2 in
          if boundary_truncated
          then (None, req4, update_prefill_budget E prefix_len input_tokens 0 d (mark_chunked d req4 A3))
          else (None, req4, update_prefill_budget E prefix_len input_tokens (clipped_new req4) d A3)
        else
          let trunc_len = (case ad_rem_chunk_list A1 of None \<Rightarrow> 0
                | Some L \<Rightarrow> L ! d div ae_page_size E * ae_page_size E) in
          if trunc_len \<le> 0 then (Some DP_BUDGET_EXHAUSTED, req3, A1)
          else
            let (req4, A2) = lock_req E (req3\<lparr>pr_extend := trunc_len,
                  pr_fill_ids := py_slice (pr_fill_ids req3) 0 (prefix_len + trunc_len)\<rparr>) A1 in
            (None, req4, update_prefill_budget E prefix_len trunc_len 0 d (mark_chunked d req4 (append_run d req4 A2))))"

definition add_one_req ::
    "('c, 'n, 'p, 'h) adder_env \<Rightarrow> ('n, 'p) prefill_req list list option \<Rightarrow> ('n, 'p) prefill_req
      \<Rightarrow> ('c, 'n, 'p, 'h) prefill_adder
      \<Rightarrow> (add_req_result \<times> ('n, 'p) prefill_req \<times> ('c, 'n, 'p, 'h) prefill_adder) result" where
  "add_one_req E running req A =
     (let d = rank_of req in
      if ae_dp_size E \<le> d then Inl IndexError
      else if (case ad_rem_chunk_list A of None \<Rightarrow> False | Some L \<Rightarrow> L ! d \<le> 0)
      then Inr (DP_BUDGET_EXHAUSTED, req, A)
      else if pr_ignore_eos req \<and> ae_cache_disable E then Inr (add_one_req_ignore_eos E running req A)
      else
        let total_tokens = pr_extend req + clipped_new req;
            real_input_tokens = ceil_paged_tokens E (pr_extend req - pr_host_hit req) in
        if of_int total_tokens \<ge> rem_total_tokens_for_dp E A d then Inr (NO_TOKEN, req, A)
        else if ae_hybrid E \<and> swa_budget_for_req E A (pr_extend req) d \<ge> rem_swa_tokens_for_dp E A d
        then Inr (NO_TOKEN, req, A)
        else if ad_rem_chunk_list A = None \<and> real_input_tokens \<ge> ad_rem_input A \<and> total_can_run A \<noteq> 0
        then Inr (OTHER, req, A)
        else
          let (p, c1) = ae_lock E (pr_last_node req) (ad_cache A);
              (early, req1, A1) = add_under_lock E d total_tokens req (A\<lparr>ad_cache := c1\<rparr>);
              A2 = A1\<lparr>ad_cache := ae_unlock E (pr_last_node req) p (ad_cache A1)\<rparr> in
          Inr (case early of Some r \<Rightarrow> (r, req1, A2)
               | None \<Rightarrow> (budget_state_after_add E A2 d, req1, A2)))"

section \<open>Page rounding\<close>

lemma ceil_paged_eq: "0 < ae_page_size E \<Longrightarrow> ceil_paged_tokens E n = num_pages_of (ae_page_size E) n * ae_page_size E"
  using cdiv_eq_num_pages_of [of "ae_page_size E" n] by (simp add: ceil_paged_tokens_def cdiv_def)

lemma ceil_paged_bounds:
  assumes "0 < ae_page_size E"
  shows "n \<le> ceil_paged_tokens E n" "ceil_paged_tokens E n < n + ae_page_size E"
  using num_pages_of_bounds [OF assms, of n] by (simp_all add: ceil_paged_eq [OF assms])

lemma ceil_paged_multiple [simp]: "0 < ae_page_size E \<Longrightarrow> ceil_paged_tokens E (k * ae_page_size E) = k * ae_page_size E"
  by (simp add: ceil_paged_eq)

lemma ceil_paged_idem [simp]: "0 < ae_page_size E \<Longrightarrow> ceil_paged_tokens E (ceil_paged_tokens E n) = ceil_paged_tokens E n"
  by (simp add: ceil_paged_eq)

section \<open>The books of an adder\<close>

text \<open>What a request that runs costs, and the sums per rank.\<close>

definition run_tokens :: "('c, 'n, 'p, 'h) adder_env \<Rightarrow> ('c, 'n, 'p, 'h) prefill_adder \<Rightarrow> nat \<Rightarrow> int" where
  "run_tokens E A d = (\<Sum>r\<leftarrow>ad_can_run A ! d. ceil_paged_tokens E (pr_extend r))"

definition shapes_ok :: "('c, 'n, 'p, 'h) adder_env \<Rightarrow> ('c, 'n, 'p, 'h) prefill_adder \<Rightarrow> bool" where
  "shapes_ok E A \<longleftrightarrow> length (ad_can_run A) = ae_dp_size E \<and> length (ad_cur_offset A) = ae_dp_size E
     \<and> length (ad_total_offset A) = ae_dp_size E
     \<and> (\<forall>L. ad_rem_chunk_list A = Some L \<longrightarrow> length L = ae_dp_size E)"

definition books_ok ::
    "('c, 'n, 'p, 'h) adder_env \<Rightarrow> ('c, 'n, 'p, 'h) prefill_adder \<Rightarrow> ('c, 'n, 'p, 'h) prefill_adder \<Rightarrow> bool" where
  "books_ok E A0 A \<longleftrightarrow> shapes_ok E A
     \<and> (\<forall>d<ae_dp_size E. ad_cur_offset A ! d = ad_cur_offset A0 ! d + run_tokens E A d)
     \<and> ad_rem_input A = ad_rem_input A0 - (\<Sum>d<ae_dp_size E. run_tokens E A d)
     \<and> (case ad_rem_chunk_list A0 of None \<Rightarrow> ad_rem_chunk_list A = None
        | Some L0 \<Rightarrow> \<exists>L. ad_rem_chunk_list A = Some L
            \<and> (\<forall>d<ae_dp_size E. L ! d = L0 ! d - run_tokens E A d
                 \<and> (- ae_page_size E < L0 ! d \<longrightarrow> - ae_page_size E < L ! d)))"

text \<open>Two adders with the same books: they differ at most in the cache and in what the budget does not read.\<close>

definition same_books :: "('c, 'n, 'p, 'h) prefill_adder \<Rightarrow> ('c, 'n, 'p, 'h) prefill_adder \<Rightarrow> bool" where
  "same_books A B \<longleftrightarrow> ad_can_run B = ad_can_run A \<and> ad_cur_offset B = ad_cur_offset A
     \<and> ad_total_offset B = ad_total_offset A \<and> ad_rem_input B = ad_rem_input A
     \<and> ad_rem_chunk_list B = ad_rem_chunk_list A"

lemma books_ok_same: "books_ok E A0 A \<Longrightarrow> same_books A B \<Longrightarrow> books_ok E A0 B"
proof -
  assume A: "books_ok E A0 A" and s: "same_books A B"
  have "run_tokens E B = run_tokens E A" using s by (auto simp: run_tokens_def same_books_def)
  with A s show ?thesis unfolding books_ok_def shapes_ok_def same_books_def by presburger
qed

lemma run_tokens_append:
  assumes "shapes_ok E A" "d < ae_dp_size E"
  shows "run_tokens E (update_prefill_budget E pl x mx d (append_run d r A)) k
    = run_tokens E A k + (if k = d then ceil_paged_tokens E (pr_extend r) else 0)"
  using assms by (simp add: run_tokens_def update_prefill_budget_def append_run_def Let_def shapes_ok_def nth_list_update)

lemma books_charge:
  assumes "books_ok E A0 A" "same_books A B" "d < ae_dp_size E"
    and x: "ceil_paged_tokens E x = ceil_paged_tokens E (pr_extend r)"
    and fits: "\<forall>L. ad_rem_chunk_list A = Some L \<longrightarrow> - ae_page_size E < L ! d \<longrightarrow>
       ceil_paged_tokens E x < L ! d + ae_page_size E"
  shows "books_ok E A0 (update_prefill_budget E pl x mx d (append_run d r B))" (is "books_ok E A0 ?B")
proof -
  have B: "books_ok E A0 B" using books_ok_same [OF assms(1,2)] .
  then have sh: "shapes_ok E B" by (simp add: books_ok_def)
  let ?c = "ceil_paged_tokens E x"
  have rt: "run_tokens E ?B k = run_tokens E B k + (if k = d then ?c else 0)" for k
    using run_tokens_append [OF sh assms(3)] x by simp
  have "(\<Sum>k<ae_dp_size E. run_tokens E ?B k) = (\<Sum>k<ae_dp_size E. run_tokens E B k) + ?c"
    using assms(3) by (simp add: rt sum.distrib)
  moreover have "ad_rem_input ?B = ad_rem_input B - ?c"
    by (simp add: update_prefill_budget_def append_run_def Let_def)
  ultimately have inp: "ad_rem_input ?B = ad_rem_input A0 - (\<Sum>k<ae_dp_size E. run_tokens E ?B k)"
    using B by (simp add: books_ok_def)
  have cur: "ad_cur_offset ?B ! k = ad_cur_offset A0 ! k + run_tokens E ?B k" if "k < ae_dp_size E" for k
    unfolding rt using B sh that assms(3)
    by (auto simp: books_ok_def shapes_ok_def update_prefill_budget_def append_run_def Let_def nth_list_update)
  have shB: "shapes_ok E ?B"
    using sh by (auto simp: shapes_ok_def update_prefill_budget_def append_run_def Let_def)
  have chunk: "case ad_rem_chunk_list A0 of None \<Rightarrow> ad_rem_chunk_list ?B = None
        | Some L0 \<Rightarrow> \<exists>L. ad_rem_chunk_list ?B = Some L
            \<and> (\<forall>k<ae_dp_size E. L ! k = L0 ! k - run_tokens E ?B k
                 \<and> (- ae_page_size E < L0 ! k \<longrightarrow> - ae_page_size E < L ! k))"
  proof (cases "ad_rem_chunk_list A0")
    case None
    then show ?thesis using B by (simp add: books_ok_def update_prefill_budget_def append_run_def Let_def)
  next
    case (Some L0)
    then obtain L where L: "ad_rem_chunk_list B = Some L"
        "\<forall>k<ae_dp_size E. L ! k = L0 ! k - run_tokens E B k \<and> (- ae_page_size E < L0 ! k \<longrightarrow> - ae_page_size E < L ! k)"
      using B by (auto simp: books_ok_def)
    have len: "length L = ae_dp_size E" using sh L(1) by (simp add: shapes_ok_def)
    have "ad_rem_chunk_list ?B = Some (L[d := L ! d - ?c])"
      using L(1) by (simp add: update_prefill_budget_def append_run_def Let_def)
    moreover have "L[d := L ! d - ?c] ! k = L0 ! k - run_tokens E ?B k
        \<and> (- ae_page_size E < L0 ! k \<longrightarrow> - ae_page_size E < L[d := L ! d - ?c] ! k)" if k: "k < ae_dp_size E" for k
    proof (cases "k = d")
      case True
      have "ad_rem_chunk_list A = Some L" using L(1) assms(2) by (simp add: same_books_def)
      with fits L(2) k True have "- ae_page_size E < L0 ! k \<longrightarrow> - ae_page_size E < L ! d - ?c" by auto
      then show ?thesis using L(2) k True len by (simp add: rt)
    next
      case False
      then show ?thesis using L(2) [rule_format, OF k] by (auto simp: rt)
    qed
    ultimately show ?thesis unfolding Some option.case by blast
  qed
  show ?thesis using inp cur shB chunk by (simp add: books_ok_def)
qed

lemma mark_append: "mark_chunked d r (append_run d q A) = append_run d q (mark_chunked d r A)"
  by (simp add: mark_chunked_def append_run_def)

lemma same_books_simps [simp]:
  "same_books A A" "same_books A (mark_chunked d r B) = same_books A B"
  "same_books A (B\<lparr>ad_cache := c\<rparr>) = same_books A B"
  "same_books A (B\<lparr>ad_req_states := s\<rparr>) = same_books A B"
  "same_books A (B\<lparr>ad_pending_h2d := h\<rparr>) = same_books A B"
  by (simp_all add: same_books_def mark_chunked_def)

lemma same_books_trans: "same_books A B \<Longrightarrow> same_books B C \<Longrightarrow> same_books A C"
  by (simp add: same_books_def)

lemma same_books_load_back: "load_back E d req A = (req1, A1) \<Longrightarrow> same_books A A1"
  by (auto simp: load_back_def Let_def split: if_splits prod.splits)

lemma same_books_lock: "lock_req E req A = (req1, A1) \<Longrightarrow> same_books A A1 \<and> pr_extend req1 = pr_extend req
    \<and> clipped_new req1 = clipped_new req"
  by (auto simp: lock_req_def Let_def clipped_new_def split: prod.splits)

lemma fits_page: "0 < ae_page_size E \<Longrightarrow> x \<le> y \<Longrightarrow> ceil_paged_tokens E x < y + ae_page_size E"
  using ceil_paged_bounds(2) [of E x] by linarith

text \<open>Every operation either leaves the books or runs one request and charges it, within the chunk budget.\<close>

definition charges ::
    "('c, 'n, 'p, 'h) adder_env \<Rightarrow> nat \<Rightarrow> ('c, 'n, 'p, 'h) prefill_adder \<Rightarrow> ('c, 'n, 'p, 'h) prefill_adder \<Rightarrow> bool" where
  "charges E d A A1 \<longleftrightarrow> same_books A A1
     \<or> (\<exists>pl x mx r B. A1 = update_prefill_budget E pl x mx d (append_run d r B) \<and> same_books A B
          \<and> ceil_paged_tokens E x = ceil_paged_tokens E (pr_extend r)
          \<and> (\<forall>L. ad_rem_chunk_list A = Some L \<longrightarrow> ceil_paged_tokens E x < L ! d + ae_page_size E))"

lemma charges_keep: "same_books A A1 \<Longrightarrow> charges E d A A1"
  by (simp add: charges_def)

lemma charges_add:
  assumes "same_books A B" "ceil_paged_tokens E x = ceil_paged_tokens E (pr_extend r)"
    and "\<forall>L. ad_rem_chunk_list A = Some L \<longrightarrow> ceil_paged_tokens E x < L ! d + ae_page_size E"
  shows "charges E d A (update_prefill_budget E pl x mx d (append_run d r B))"
  unfolding charges_def using assms by blast

lemma charges_cache:
  assumes "charges E d A B"
  shows "charges E d A (B\<lparr>ad_cache := c\<rparr>)"
proof -
  have "(update_prefill_budget E pl x mx d (append_run d r C))\<lparr>ad_cache := c\<rparr>
      = update_prefill_budget E pl x mx d (append_run d r (C\<lparr>ad_cache := c\<rparr>))" for pl x mx r C
    by (simp add: update_prefill_budget_def append_run_def swa_budget_for_req_def Let_def)
  then show ?thesis using assms unfolding charges_def by (metis same_books_simps(3))
qed

lemma charges_books:
  "charges E d A A1 \<Longrightarrow> d < ae_dp_size E \<Longrightarrow> books_ok E A0 A \<Longrightarrow> books_ok E A0 A1"
  unfolding charges_def using books_ok_same books_charge by metis

lemma add_chunked_req_charges:
  assumes ps: "0 < ae_page_size E" and run: "add_chunked_req E req A = Inr (stay, A1)"
  shows "rank_of req < ae_dp_size E \<and> charges E (rank_of req) A A1"
proof -
  define d where "d = rank_of req"
  obtain L where d: "d < ae_dp_size E" and L: "ad_rem_chunk_list A = Some L"
    using run by (auto simp: add_chunked_req_def d_def Let_def split: if_splits option.splits)
  define rem0 where "rem0 = min (L ! d) (trunc_rat (rem_total_tokens_for_dp E A d))"
  define rem1 where "rem1 = (if ae_hybrid E then min rem0 (rem_swa_tokens_for_dp E A d - ae_page_size E) else rem0)"
  define rem2 where "rem2 = (if rem1 \<le> 0 then L ! d else rem1)"
  define cap where "cap = recurrent_boundary_cap E (int (length (pr_prefix req)))"
  define rem3 where "rem3 = (case cap of None \<Rightarrow> rem2 | Some b \<Rightarrow> min rem2 b)"
  define x where "x = min (pr_extend req) rem3"
  have "rem2 \<le> L ! d" by (auto simp: rem2_def rem1_def rem0_def)
  then have x: "x \<le> L ! d" by (auto simp: x_def rem3_def split: option.splits)
  note run' = run [unfolded add_chunked_req_def, folded d_def, unfolded Let_def, unfolded L option.case,
      folded rem0_def, folded rem1_def, folded rem2_def, folded cap_def, folded rem3_def, folded x_def]
  have "charges E d A A1"
  proof (cases "rem1 \<le> 0 \<and> ae_hybrid E")
    case True
    with run' d have "A1 = A" by simp
    then show ?thesis by (simp add: charges_keep)
  next
    case False
    obtain mx r where "A1 = update_prefill_budget E 0 x mx d (append_run d r A)" "pr_extend r = x"
      using run' d False by auto
    then show ?thesis using x L fits_page [OF ps x] by (auto intro: charges_add)
  qed
  with d show ?thesis by (simp add: d_def)
qed

lemma add_ignore_eos_charges:
  assumes ps: "0 < ae_page_size E" and run: "add_one_req_ignore_eos E running req A = (res, req1, A1)"
  shows "charges E (rank_of req) A A1"
proof -
  define d where "d = rank_of req"
  define states where "states = (case ad_req_states A ! d of
              None \<Rightarrow> append_req_states (req_state E req
                # map (req_state E) (case running of None \<Rightarrow> [] | Some infos \<Rightarrow> infos ! d)
                @ map (req_state E) (ad_can_run A ! d))
            | Some xs \<Rightarrow> insert_req_state (req_state E req) xs)"
  define B where "B = A\<lparr>ad_req_states := (ad_req_states A)[d := Some states]\<rparr>"
  have B: "same_books A B" "same_books A (mark_chunked d r B)" for r by (simp_all add: B_def)
  note run' = run [unfolded add_one_req_ignore_eos_def, folded d_def, unfolded Let_def, folded states_def,
      folded B_def, unfolded mark_append]
  have chunk: "ad_rem_chunk_list B = ad_rem_chunk_list A" by (simp add: B_def)
  have add: "charges E d A (update_prefill_budget E 0 x mx d (append_run d r B'))"
    if "same_books A B'" "x = pr_extend r" "\<forall>L. ad_rem_chunk_list A = Some L \<longrightarrow> x \<le> L ! d" for x mx r B'
    using that fits_page [OF ps] by (intro charges_add) auto
  have "charges E d A A1"
    using run' B chunk charges_keep [OF B(1)] charges_keep [of A A E d]
    by (auto split: if_splits option.splits intro!: add)
  then show ?thesis by (simp add: d_def)
qed


lemma floor_pages_le: "0 < ae_page_size E \<Longrightarrow> n div ae_page_size E * ae_page_size E \<le> n"
  by (simp add: minus_mod_eq_div_mult [symmetric])

lemma add_under_lock_charges:
  assumes ps: "0 < ae_page_size E" and run: "add_under_lock E d total_tokens req A = (early, req1, A1)"
  shows "charges E d A A1"
proof -
  obtain rq B where lb: "load_back E d req A = (rq, B)" by fastforce
  define pl where "pl = int (length (pr_prefix rq))"
  obtain bt rq3 where bt: "(case recurrent_boundary_cap E pl of
                None \<Rightarrow> (False, rq\<lparr>pr_last_matched := pl\<rparr>)
              | Some b \<Rightarrow> if pr_extend (rq\<lparr>pr_last_matched := pl\<rparr>) > b
                  then (True, rq\<lparr>pr_last_matched := pl\<rparr>\<lparr>pr_extend := b,
                      pr_fill_ids := py_slice (pr_fill_ids (rq\<lparr>pr_last_matched := pl\<rparr>)) 0 (pl + b)\<rparr>)
                  else (False, rq\<lparr>pr_last_matched := pl\<rparr>)) = (bt, rq3)" by fastforce
  define x where "x = ceil_paged_tokens E (pr_extend rq3)"
  define t where "t = (case ad_rem_chunk_list B of None \<Rightarrow> 0 | Some L \<Rightarrow> L ! d div ae_page_size E * ae_page_size E)"
  obtain rq4 C where l1: "lock_req E rq3 B = (rq4, C)" by fastforce
  obtain rq5 D where l2: "lock_req E (rq3\<lparr>pr_extend := t,
      pr_fill_ids := py_slice (pr_fill_ids rq3) 0 (pl + t)\<rparr>) B = (rq5, D)" by fastforce
  have B: "same_books A B" using same_books_load_back [OF lb] .
  have C: "same_books A C" "pr_extend rq4 = pr_extend rq3" and D: "same_books A D" "pr_extend rq5 = t"
    using same_books_trans [OF B] same_books_lock [OF l1] same_books_lock [OF l2] by auto
  have ch: "ad_rem_chunk_list B = ad_rem_chunk_list A" using B by (simp add: same_books_def)
  have t: "ceil_paged_tokens E t = t" "\<forall>L. ad_rem_chunk_list A = Some L \<longrightarrow> t \<le> L ! d"
    using ps ch floor_pages_le [OF ps] num_pages_of_mult [OF ps, of 0] by (auto simp: t_def ceil_paged_eq split: option.splits)
  have add1: "(\<forall>L. ad_rem_chunk_list A = Some L \<longrightarrow> x \<le> L ! d) \<longrightarrow>
      charges E d A (update_prefill_budget E pl x 0 d (append_run d rq4 (mark_chunked d rq4 C)))
      \<and> charges E d A (update_prefill_budget E pl x (clipped_new rq4) d (append_run d rq4 C))"
    using ps C by (intro impI conjI charges_add) (auto simp: x_def intro: le_less_trans)
  have add2: "charges E d A (update_prefill_budget E pl t 0 d (append_run d rq5 (mark_chunked d rq5 D)))"
    using ps t D by (intro charges_add) (auto intro: le_less_trans)
  have keep: "charges E d A A" "charges E d A B" by (simp_all add: charges_keep B)
  note run' = run [unfolded add_under_lock_def Let_def lb prod.case, folded pl_def, unfolded bt prod.case,
      folded x_def, folded t_def, unfolded l1 l2 prod.case mark_append]
  show ?thesis
    using run' keep add1 add2 ch by (auto split: if_splits option.splits)
qed

lemma add_one_req_charges:
  assumes ps: "0 < ae_page_size E" and run: "add_one_req E running req A = Inr (res, req1, A1)"
  shows "rank_of req < ae_dp_size E \<and> charges E (rank_of req) A A1"
proof -
  define d where "d = rank_of req"
  obtain p c1 where lk: "ae_lock E (pr_last_node req) (ad_cache A) = (p, c1)" by fastforce
  obtain early rq B where u: "add_under_lock E d (pr_extend req + clipped_new req) req (A\<lparr>ad_cache := c1\<rparr>)
      = (early, rq, B)" by (metis prod_cases3)
  have ch: "charges E d A (B\<lparr>ad_cache := c\<rparr>)" for c
    using add_under_lock_charges [OF ps u] by (intro charges_cache) (simp add: charges_def same_books_def)
  obtain r' q' A' where ig: "add_one_req_ignore_eos E running req A = (r', q', A')" by (metis prod_cases3)
  have ig': "charges E d A A'" using add_ignore_eos_charges [OF ps ig] by (simp add: d_def)
  note run' = run [unfolded add_one_req_def Let_def, folded d_def, unfolded lk prod.case u prod.case ig]
  show ?thesis unfolding d_def [symmetric]
    using run' ch ig' by (auto split: if_splits option.splits intro: charges_keep)
qed


section \<open>Every run of the adder\<close>

inductive adder_step ::
    "('c, 'n, 'p, 'h) adder_env \<Rightarrow> ('n, 'p) prefill_req list list option
      \<Rightarrow> ('c, 'n, 'p, 'h) prefill_adder \<Rightarrow> ('c, 'n, 'p, 'h) prefill_adder \<Rightarrow> bool"
  for E running where
  continue_chunk: "add_chunked_req E req A = Inr (stay, B) \<Longrightarrow> adder_step E running A B"
| admit: "add_one_req E running req A = Inr (res, req1, B) \<Longrightarrow> adder_step E running A B"

inductive_cases adder_stepE: "adder_step E running A B"

lemma adder_step_books:
  assumes "0 < ae_page_size E" "adder_step E running A B" "books_ok E A0 A"
  shows "books_ok E A0 B"
  using assms(2)
proof cases
  case (continue_chunk req stay)
  then show ?thesis using add_chunked_req_charges [OF assms(1)] charges_books assms(3) by blast
next
  case (admit req res req1)
  then show ?thesis using add_one_req_charges [OF assms(1)] charges_books assms(3) by blast
qed

lemma adder_run_books:
  assumes "0 < ae_page_size E" "(adder_step E running)\<^sup>*\<^sup>* A B" "books_ok E A0 A"
  shows "books_ok E A0 B"
  using assms(2,3) by (induction rule: rtranclp_induct) (auto intro: adder_step_books [OF assms(1)])

lemma adder_init_books:
  assumes "adder_init E running rem_input rem_chunk mixed c = Inr A"
  shows "books_ok E A A"
proof -
  obtain mx where mx: "mixed_per_dp E mixed = Inr mx" "length mx = ae_dp_size E"
    using assms by (auto simp: adder_init_def mixed_per_dp_def rbind_eq_Inr_iff split: sum.splits if_splits)
  have "ad_can_run A = replicate (ae_dp_size E) []" "shapes_ok E A"
    using assms mx by (auto simp: adder_init_def shapes_ok_def split: option.splits if_splits)
  then show ?thesis by (auto simp: books_ok_def run_tokens_def split: option.splits)
qed

text \<open>C16. The books of a prefill batch are exact. From a fresh adder, after any sequence of continued
  chunks and admissions (accepted, truncated or refused, with or without the prefix cache), each rank's
  current offset has grown by the page-rounded lengths of exactly the requests put on its run list, the
  global input budget has shrunk by their sum over all ranks, and under chunked prefill the rank's chunk
  budget has shrunk by the same amount and is never exceeded by a page or more.\<close>

theorem prefill_books_exact:
  assumes "0 < ae_page_size E" "adder_init E running rem_input rem_chunk mixed c = Inr A0"
    and "(adder_step E running)\<^sup>*\<^sup>* A0 A"
  shows "(\<forall>d<ae_dp_size E. ad_cur_offset A ! d
           = ad_cur_offset A0 ! d + (\<Sum>r\<leftarrow>ad_can_run A ! d. ceil_paged_tokens E (pr_extend r)))
    \<and> ad_rem_input A = ad_rem_input A0
        - (\<Sum>d<ae_dp_size E. \<Sum>r\<leftarrow>ad_can_run A ! d. ceil_paged_tokens E (pr_extend r))
    \<and> (case ad_rem_chunk_list A0 of None \<Rightarrow> ad_rem_chunk_list A = None
       | Some L0 \<Rightarrow> \<exists>L. ad_rem_chunk_list A = Some L \<and> (\<forall>d<ae_dp_size E.
            L ! d = L0 ! d - (\<Sum>r\<leftarrow>ad_can_run A ! d. ceil_paged_tokens E (pr_extend r))
          \<and> (- ae_page_size E < L0 ! d \<longrightarrow> - ae_page_size E < L ! d)))"
proof -
  have "books_ok E A0 A" using adder_run_books [OF assms(1,3) adder_init_books [OF assms(2)]] .
  then show ?thesis unfolding books_ok_def run_tokens_def by blast
qed

definition demo_env :: "(unit, nat, unit, nat) adder_env" where
  "demo_env = \<lparr>ae_page_size = 4, ae_dp_size = 2, ae_new_token_ratio = 1/2, ae_hybrid = False,
     ae_available = (\<lambda>_ _. 1000), ae_evictable = (\<lambda>_ _. 0), ae_swa_available = (\<lambda>_ _. 0),
     ae_swa_evictable = (\<lambda>_ _. 0), ae_sliding_window = 0, ae_interval_multiplier = 1,
     ae_track_interval = None, ae_cache_disable = False, ae_hicache = False,
     ae_lock = (\<lambda>n c. ((), c)), ae_unlock = (\<lambda>n p c. c), ae_load_back = (\<lambda>n h q c. (([], n, []), c))\<rparr>"

definition demo_preq :: "(nat, unit) prefill_req" where
  "demo_preq = \<lparr>pr_rid = 1, pr_dp_rank = Some 1, pr_extend = 10, pr_fill_ids = replicate 10 7, pr_prefix = [],
     pr_max_new = 20, pr_ignore_eos = False, pr_output_len = 0, pr_origin_len = 10, pr_host_hit = 0,
     pr_last_node = 0, pr_last_host_node = 0, pr_last_matched = 0, pr_kv_allocated = 0, pr_swa_evicted = 0,
     pr_lock = None\<rparr>"

section \<open>What admission promises\<close>

text \<open>The request as it stands when it has passed the budget gates: the prefix length is noted and the extend
  length is cut at the boundary of the recurrent track interval.\<close>

definition cap_req :: "('c, 'n, 'p, 'h) adder_env \<Rightarrow> ('n, 'p) prefill_req \<Rightarrow> ('n, 'p) prefill_req" where
  "cap_req E req = (let pl = int (length (pr_prefix req)); r = req\<lparr>pr_last_matched := pl\<rparr> in
     case recurrent_boundary_cap E pl of None \<Rightarrow> r
     | Some b \<Rightarrow> if b < pr_extend req
         then r\<lparr>pr_extend := b, pr_fill_ids := py_slice (pr_fill_ids req) 0 (pl + b)\<rparr> else r)"

lemma cap_req_simps [simp]:
  "pr_extend (cap_req E req) \<le> pr_extend req" "pr_last_node (cap_req E req) = pr_last_node req"
  "clipped_new (cap_req E req) = clipped_new req"
  by (auto simp: cap_req_def Let_def clipped_new_def split: option.splits)

text \<open>The request that runs: the capped one, or that one cut to the whole pages left in the chunk budget.\<close>

definition run_req ::
    "('c, 'n, 'p, 'h) adder_env \<Rightarrow> nat \<Rightarrow> ('c, 'n, 'p, 'h) prefill_adder \<Rightarrow> ('n, 'p) prefill_req
      \<Rightarrow> ('n, 'p) prefill_req" where
  "run_req E d A req = (let r = cap_req E req in
     case ad_rem_chunk_list A of None \<Rightarrow> r
     | Some L \<Rightarrow> if ceil_paged_tokens E (pr_extend r) \<le> L ! d then r
         else let t = L ! d div ae_page_size E * ae_page_size E in
           r\<lparr>pr_extend := t, pr_fill_ids := py_slice (pr_fill_ids r) 0 (int (length (pr_prefix req)) + t)\<rparr>)"

text \<open>A request that runs shortened reserves nothing for its output and is the rank's new chunked request.\<close>

definition admitted ::
    "('c, 'n, 'p, 'h) adder_env \<Rightarrow> nat \<Rightarrow> ('n, 'p) prefill_req \<Rightarrow> ('n, 'p) prefill_req
      \<Rightarrow> ('c, 'n, 'p, 'h) prefill_adder \<Rightarrow> ('c, 'n, 'p, 'h) prefill_adder \<Rightarrow> bool" where
  "admitted E d req r A A1 \<longleftrightarrow> (\<exists>pl y B.
     A1 = update_prefill_budget E pl y (if pr_extend r < pr_extend req then 0 else clipped_new req) d (append_run d r B)
     \<and> ceil_paged_tokens E y = ceil_paged_tokens E (pr_extend r) \<and> pr_extend r \<le> pr_extend req
     \<and> r = (run_req E d A req)\<lparr>pr_lock := Some (fst (ae_lock E (pr_last_node req) (ad_cache A)))\<rparr>
     \<and> ad_cache B = snd (ae_lock E (pr_last_node req) (ad_cache A)) \<and> ad_total_offset B = ad_total_offset A
     \<and> ad_can_run B = ad_can_run A
     \<and> ad_new_chunked B = (if pr_extend r < pr_extend req then (ad_new_chunked A)[d := Some r] else ad_new_chunked A))"

lemma mark_chunked_simps [simp]:
  "ad_cache (mark_chunked d r A) = ad_cache A" "ad_total_offset (mark_chunked d r A) = ad_total_offset A"
  "ad_can_run (mark_chunked d r A) = ad_can_run A"
  "ad_new_chunked (mark_chunked d r A) = (ad_new_chunked A)[d := Some r]"
  by (simp_all add: mark_chunked_def)

lemma floor_below_ceil:
  assumes ps: "0 < ae_page_size E" and lt: "n < ceil_paged_tokens E m"
  shows "n div ae_page_size E * ae_page_size E < m"
proof -
  let ?p = "ae_page_size E"
  have "n div ?p * ?p < num_pages_of ?p m * ?p"
    using floor_pages_le [OF ps, of n] lt by (simp add: ceil_paged_eq [OF ps])
  then have "n div ?p + 1 \<le> num_pages_of ?p m" using ps by (simp add: mult_less_cancel_right)
  then have "(n div ?p + 1) * ?p \<le> num_pages_of ?p m * ?p" using ps by (intro mult_right_mono) auto
  then show ?thesis using ceil_paged_bounds(2) [OF ps, of m] by (simp add: ceil_paged_eq [OF ps] algebra_simps)
qed

text \<open>The gates behind the locks. Without chunked prefill the request must fit the input budget unless nothing
  runs yet; with it, the request or at least a page of it must fit the rank's chunk budget.\<close>

definition input_gate ::
    "('c, 'n, 'p, 'h) adder_env \<Rightarrow> nat \<Rightarrow> ('n, 'p) prefill_req \<Rightarrow> ('c, 'n, 'p, 'h) prefill_adder \<Rightarrow> bool" where
  "input_gate E d req A \<longleftrightarrow> (case ad_rem_chunk_list A of
     None \<Rightarrow> total_can_run A = 0 \<or> ceil_paged_tokens E (pr_extend (cap_req E req)) < ad_rem_input A
   | Some L \<Rightarrow> ceil_paged_tokens E (pr_extend req) \<le> L ! d \<or> ae_page_size E \<le> L ! d)"

lemma ceil_paged_mono: "0 < ae_page_size E \<Longrightarrow> m \<le> n \<Longrightarrow> ceil_paged_tokens E m \<le> ceil_paged_tokens E n"
  by (simp add: ceil_paged_tokens_def zdiv_mono1 mult_right_mono)

lemma floor_pages_pos: "0 < ae_page_size E \<Longrightarrow> 0 < n div ae_page_size E * ae_page_size E \<longleftrightarrow> ae_page_size E \<le> n"
  by (simp add: zero_less_mult_iff pos_imp_zdiv_pos_iff)

text \<open>Outside hybrid models and without host load-back, the locked section runs the request under its own lock
  when the gates are open, and otherwise returns early with the adder as it was.\<close>

lemma under_lock_cases:
  assumes ps: "0 < ae_page_size E" and hc: "\<not> ae_hicache E" and hy: "\<not> ae_hybrid E"
    and run: "add_under_lock E d tt req A = (early, req1, A1)"
  shows "if of_int tt < rem_total_tokens_for_dp E A d \<and> input_gate E d req A
    then early = None \<and> admitted E d req req1 A A1
    else early \<noteq> None \<and> A1 = A \<and> req1 \<in> {req, cap_req E req}"
proof -
  have lb: "load_back E d req A = (req, A)" using hc by (simp add: load_back_def)
  define pl where "pl = int (length (pr_prefix req))"
  define r3 where "r3 = cap_req E req"
  define bt where "bt = (pr_extend r3 < pr_extend req)"
  have cap: "(case recurrent_boundary_cap E pl of
                None \<Rightarrow> (False, req\<lparr>pr_last_matched := pl\<rparr>)
              | Some b \<Rightarrow> if pr_extend (req\<lparr>pr_last_matched := pl\<rparr>) > b
                  then (True, req\<lparr>pr_last_matched := pl\<rparr>\<lparr>pr_extend := b,
                      pr_fill_ids := py_slice (pr_fill_ids (req\<lparr>pr_last_matched := pl\<rparr>)) 0 (pl + b)\<rparr>)
                  else (False, req\<lparr>pr_last_matched := pl\<rparr>)) = (bt, r3)"
    by (auto simp: r3_def bt_def cap_req_def Let_def pl_def split: option.splits)
  define x where "x = ceil_paged_tokens E (pr_extend r3)"
  define t where "t = (case ad_rem_chunk_list A of None \<Rightarrow> 0 | Some L \<Rightarrow> L ! d div ae_page_size E * ae_page_size E)"
  define fits where "fits \<longleftrightarrow> (case ad_rem_chunk_list A of None \<Rightarrow> True | Some L \<Rightarrow> x \<le> L ! d)"
  define p where "p = fst (ae_lock E (pr_last_node req) (ad_cache A))"
  define C where "C = A\<lparr>ad_cache := snd (ae_lock E (pr_last_node req) (ad_cache A))\<rparr>"
  define r4 where "r4 = r3\<lparr>pr_lock := Some p\<rparr>"
  define r5 where "r5 = r3\<lparr>pr_extend := t, pr_fill_ids := py_slice (pr_fill_ids r3) 0 (pl + t), pr_lock := Some p\<rparr>"
  have r3: "pr_extend r3 \<le> pr_extend req" "clipped_new r4 = clipped_new req" "bt \<longleftrightarrow> pr_extend r4 < pr_extend req"
    by (simp_all add: r3_def r4_def bt_def) (simp add: clipped_new_def cap_req_def Let_def split: option.split)
  have lk: "lock_req E r3 A = (r4, C)"
    "lock_req E (r3\<lparr>pr_extend := t, pr_fill_ids := py_slice (pr_fill_ids r3) 0 (pl + t)\<rparr>) A = (r5, C)"
    by (simp_all add: lock_req_def r3_def r4_def r5_def p_def C_def split_beta)
  have rr: "run_req E d A req = (if fits then r3 else r3\<lparr>pr_extend := t, pr_fill_ids := py_slice (pr_fill_ids r3) 0 (pl + t)\<rparr>)"
    by (auto simp: run_req_def Let_def fits_def t_def x_def pl_def r3_def split: option.splits)
  have t: "ceil_paged_tokens E t = t" "\<not> fits \<Longrightarrow> t < pr_extend req"
    using ps num_pages_of_mult [OF ps, of 0] floor_below_ceil [OF ps] r3(1)
    by (auto simp: t_def fits_def x_def ceil_paged_eq not_le split: option.splits intro: less_le_trans)
  have add1: "fits \<Longrightarrow> bt \<Longrightarrow> admitted E d req r4 A (update_prefill_budget E pl x 0 d (append_run d r4 (mark_chunked d r4 C)))"
    unfolding admitted_def using r3 ps
    by (intro exI [of _ pl] exI [of _ x] exI [of _ "mark_chunked d r4 C"]) (simp add: rr r4_def x_def p_def C_def)
  have add2: "fits \<Longrightarrow> \<not> bt \<Longrightarrow> admitted E d req r4 A (update_prefill_budget E pl x (clipped_new r4) d (append_run d r4 C))"
    unfolding admitted_def using r3 ps
    by (intro exI [of _ pl] exI [of _ x] exI [of _ C]) (simp add: rr r4_def x_def p_def C_def)
  have add3: "\<not> fits \<Longrightarrow> admitted E d req r5 A (update_prefill_budget E pl t 0 d (append_run d r5 (mark_chunked d r5 C)))"
    unfolding admitted_def using t
    by (intro exI [of _ pl] exI [of _ t] exI [of _ "mark_chunked d r5 C"]) (simp add: rr r5_def p_def C_def)
  note run' = run [unfolded add_under_lock_def Let_def lb prod.case, folded pl_def, unfolded cap prod.case,
      folded x_def, folded t_def, unfolded lk prod.case mark_append, folded fits_def]
  show ?thesis
  proof (cases "ad_rem_chunk_list A")
    case None
    then have "fits" "input_gate E d req A \<longleftrightarrow> total_can_run A = 0 \<or> x < ad_rem_input A"
      by (simp_all add: fits_def input_gate_def x_def r3_def)
    with run' None hy add1 add2 show ?thesis by (auto split: if_splits simp: not_le not_less r3_def)
  next
    case (Some L)
    have t': "t = L ! d div ae_page_size E * ae_page_size E" "fits \<longleftrightarrow> x \<le> L ! d" using Some by (simp_all add: t_def fits_def)
    have g: "input_gate E d req A \<longleftrightarrow> ceil_paged_tokens E (pr_extend req) \<le> L ! d \<or> 0 < t"
      using Some floor_pages_pos [OF ps] by (simp add: input_gate_def t')
    have "x \<le> ceil_paged_tokens E (pr_extend req)" using ceil_paged_mono [OF ps r3(1)] by (simp add: x_def)
    with run' [unfolded Some option.case, folded t'(1)] hy add1 add2 add3 g t'(2) show ?thesis
      by (auto split: if_splits simp: not_le not_less r3_def)
  qed
qed

text \<open>When a request is admitted: it fits what is left once its prefix is locked, and the gates on its input length
  are open.\<close>

definition room_for ::
    "('c, 'n, 'p, 'h) adder_env \<Rightarrow> 'c \<Rightarrow> ('n, 'p) prefill_req \<Rightarrow> ('c, 'n, 'p, 'h) prefill_adder \<Rightarrow> bool" where
  "room_for E locked req A \<longleftrightarrow>
     of_int (pr_extend req + clipped_new req) < rem_total_tokens_for_dp E (A\<lparr>ad_cache := locked\<rparr>) (rank_of req)
     \<and> input_gate E (rank_of req) req A
     \<and> (case ad_rem_chunk_list A of
          None \<Rightarrow> total_can_run A = 0 \<or> ceil_paged_tokens E (pr_extend req - pr_host_hit req) < ad_rem_input A
        | Some L \<Rightarrow> 0 < L ! rank_of req)"

text \<open>What admission leaves behind: the capped request at the end of its rank's run list and, when shortened, as the
  rank's chunked request, the locked cache, the exact charge, and a reservation within a page of the supply.\<close>

definition runs_charged ::
    "('c, 'n, 'p, 'h) adder_env \<Rightarrow> nat \<Rightarrow> 'c \<Rightarrow> ('n, 'p) prefill_req \<Rightarrow> ('n, 'p) prefill_req
      \<Rightarrow> ('c, 'n, 'p, 'h) prefill_adder \<Rightarrow> ('c, 'n, 'p, 'h) prefill_adder \<Rightarrow> bool" where
  "runs_charged E d locked req req1 A A1 \<longleftrightarrow> (\<exists>p. req1 = (run_req E d A req)\<lparr>pr_lock := Some p\<rparr>)
     \<and> pr_extend req1 \<le> pr_extend req
     \<and> ad_can_run A1 = (ad_can_run A)[d := ad_can_run A ! d @ [req1]]
     \<and> ad_new_chunked A1 = (if pr_extend req1 < pr_extend req
         then (ad_new_chunked A)[d := Some req1] else ad_new_chunked A)
     \<and> ad_cache A1 = locked
     \<and> ad_total_offset A1 = (ad_total_offset A)[d := ad_total_offset A ! d
         + of_int (ceil_paged_tokens E (pr_extend req1)
             + (if pr_extend req1 < pr_extend req then 0 else clipped_new req))]
     \<and> - of_int (ae_page_size E) < rem_total_tokens_for_dp E A1 d"

text \<open>What admission asks of the prefix cache: releasing a lock right after taking it restores the cache, also
  when the node was locked before, and a lock never adds to what can be supplied.\<close>

locale node_locks =
  fixes E :: "('c, 'n, 'p, 'h) adder_env" and ok :: "'n \<Rightarrow> 'c \<Rightarrow> bool"
  assumes lock_keeps: "ok n c \<Longrightarrow> ok n (snd (ae_lock E n c))"
    and unlock_lock: "ok n c \<Longrightarrow> ae_unlock E n p (snd (ae_lock E n c)) = c"
    and lock_shrinks: "ok n c \<Longrightarrow> ae_available E (snd (ae_lock E n c)) d + ae_evictable E (snd (ae_lock E n c)) d
      \<le> ae_available E c d + ae_evictable E c d"
begin

lemma locked_rem_le:
  assumes "ok n (ad_cache A)"
  shows "rem_total_tokens_for_dp E (A\<lparr>ad_cache := snd (ae_lock E n (ad_cache A))\<rparr>) d \<le> rem_total_tokens_for_dp E A d"
  using lock_shrinks [OF assms, of d] unfolding rem_total_tokens_for_dp_def by (simp del: of_int_add)

lemma add_one_req_cases:
  assumes ps: "0 < ae_page_size E" and hc: "\<not> ae_hicache E" and hy: "\<not> ae_hybrid E"
    and ok: "ok (pr_last_node req) (ad_cache A)" and path: "\<not> (pr_ignore_eos req \<and> ae_cache_disable E)"
    and run: "add_one_req E running req A = Inr (res, req1, A1)"
  defines "d \<equiv> rank_of req" and "c1 \<equiv> snd (ae_lock E (pr_last_node req) (ad_cache A))"
  shows "if room_for E c1 req A
    then \<exists>pl y p B. A1 = update_prefill_budget E pl y (if pr_extend req1 < pr_extend req then 0 else clipped_new req) d
         (append_run d req1 B)
       \<and> ceil_paged_tokens E y = ceil_paged_tokens E (pr_extend req1) \<and> pr_extend req1 \<le> pr_extend req
       \<and> req1 = (run_req E d A req)\<lparr>pr_lock := Some p\<rparr> \<and> ad_cache B = c1 \<and> ad_total_offset B = ad_total_offset A
       \<and> ad_can_run B = ad_can_run A
       \<and> ad_new_chunked B = (if pr_extend req1 < pr_extend req then (ad_new_chunked A)[d := Some req1] else ad_new_chunked A)
    else A1 = A \<and> req1 \<in> {req, cap_req E req}"
proof -
  obtain p where lk: "ae_lock E (pr_last_node req) (ad_cache A) = (p, c1)" by (simp add: c1_def prod_eq_iff)
  let ?A = "A\<lparr>ad_cache := c1\<rparr>" and ?t = "pr_extend req + clipped_new req"
  obtain early rq B where u: "add_under_lock E d ?t req ?A = (early, rq, B)" by (metis prod_cases3)
  let ?U = "\<lambda>c. ae_unlock E (pr_last_node req) p c"
  have un: "?U c1 = ad_cache A" "?U (snd (ae_lock E (pr_last_node req) c1)) = c1"
    using unlock_lock [OF ok] unlock_lock [OF lock_keeps [OF ok]] lk by simp_all
  have le: "rem_total_tokens_for_dp E ?A d \<le> rem_total_tokens_for_dp E A d"
    using locked_rem_le [OF ok] by (simp add: c1_def)
  have ig: "input_gate E d req ?A = input_gate E d req A"
    by (simp add: input_gate_def total_can_run_def split: option.split)
  define pre where "pre \<longleftrightarrow> of_int ?t < rem_total_tokens_for_dp E A d \<and> (case ad_rem_chunk_list A of
          None \<Rightarrow> total_can_run A = 0 \<or> ceil_paged_tokens E (pr_extend req - pr_host_hit req) < ad_rem_input A
        | Some L \<Rightarrow> 0 < L ! d)"
  note run' = run [unfolded add_one_req_def Let_def, folded d_def, unfolded lk prod.case u prod.case]
  have A1: "if pre then A1 = B\<lparr>ad_cache := ?U (ad_cache B)\<rparr> \<and> req1 = rq else A1 = A \<and> req1 = req"
    using run' path hy by (auto simp: pre_def not_le not_less split: if_splits option.splits)
  have room: "room_for E c1 req A \<longleftrightarrow> pre \<and> of_int ?t < rem_total_tokens_for_dp E ?A d \<and> input_gate E d req ?A"
    using le ig unfolding d_def by (auto simp: room_for_def pre_def d_def split: option.splits)
  note under = under_lock_cases [OF ps hc hy u]
  show ?thesis
  proof (cases "room_for E c1 req A")
    case True
    then have g: "pre" "admitted E d req rq ?A B" using under by (auto simp: room)
    let ?mx = "if pr_extend rq < pr_extend req then 0 else clipped_new req"
    obtain pl y C where C: "B = update_prefill_budget E pl y ?mx d (append_run d rq C)"
        "ceil_paged_tokens E y = ceil_paged_tokens E (pr_extend rq)" "pr_extend rq \<le> pr_extend req"
        "rq = (run_req E d ?A req)\<lparr>pr_lock := Some (fst (ae_lock E (pr_last_node req) c1))\<rparr>"
        "ad_cache C = snd (ae_lock E (pr_last_node req) c1)" "ad_total_offset C = ad_total_offset A"
        "ad_can_run C = ad_can_run A"
        "ad_new_chunked C = (if pr_extend rq < pr_extend req then (ad_new_chunked A)[d := Some rq] else ad_new_chunked A)"
      using g(2) unfolding admitted_def by auto
    have "ad_cache B = ad_cache C" by (simp add: C(1) update_prefill_budget_def append_run_def Let_def)
    then have "?U (ad_cache B) = c1" using un(2) C(5) by simp
    then have "A1 = update_prefill_budget E pl y ?mx d (append_run d rq (C\<lparr>ad_cache := c1\<rparr>))"
      using A1 g(1) by (simp add: C(1) update_prefill_budget_def append_run_def swa_budget_for_req_def Let_def)
    moreover have "run_req E d ?A req = run_req E d A req" by (simp add: run_req_def)
    ultimately show ?thesis using A1 g(1) C True
      by (simp only: if_True, intro exI [of _ pl] exI [of _ y] exI [of _ "fst (ae_lock E (pr_last_node req) c1)"]
          exI [of _ "C\<lparr>ad_cache := c1\<rparr>"]) auto
  next
    case False
    then have "\<not> pre \<or> B = ?A \<and> rq \<in> {req, cap_req E req}" using under by (auto simp: room split: if_splits)
    then show ?thesis using A1 un(1) False by (cases pre) auto
  qed
qed

text \<open>Admission is all or nothing: with room, the request runs, locked, and its charge leaves the rank within less
  than a page of what it has; without, the adder is as it was and the request changed at most by the cap.\<close>

lemma admission_cases:
  assumes ps: "0 < ae_page_size E" and hc: "\<not> ae_hicache E" and hy: "\<not> ae_hybrid E" and new: "0 \<le> pr_max_new req"
    and ok: "ok (pr_last_node req) (ad_cache A)" and path: "\<not> (pr_ignore_eos req \<and> ae_cache_disable E)"
    and d: "rank_of req < ae_dp_size E" and len: "length (ad_total_offset A) = ae_dp_size E"
  defines "c1 \<equiv> snd (ae_lock E (pr_last_node req) (ad_cache A))"
  shows "\<exists>res req1 A1. add_one_req E running req A = Inr (res, req1, A1)
    \<and> (if room_for E c1 req A then runs_charged E (rank_of req) c1 req req1 A A1
       else A1 = A \<and> req1 \<in> {req, cap_req E req})"
proof -
  let ?d = "rank_of req" and ?t = "pr_extend req + clipped_new req"
  have "\<not> isl (add_one_req E running req A)"
    using d by (auto simp: add_one_req_def Let_def split_beta isl_def split: if_splits)
  then obtain res req1 A1 where run: "add_one_req E running req A = Inr (res, req1, A1)"
    by (metis isl_def prod_cases3 sum.exhaust)
  define mx where "mx = (if pr_extend req1 < pr_extend req then 0 else clipped_new req)"
  note ac = add_one_req_cases [OF ps hc hy ok path run, folded c1_def, folded mx_def]
  have "runs_charged E ?d c1 req req1 A A1" if room: "room_for E c1 req A"
  proof -
    obtain pl y p B where A1: "A1 = update_prefill_budget E pl y mx ?d (append_run ?d req1 B)"
        and y: "ceil_paged_tokens E y = ceil_paged_tokens E (pr_extend req1)" "pr_extend req1 \<le> pr_extend req"
        and r1: "req1 = (run_req E ?d A req)\<lparr>pr_lock := Some p\<rparr>"
        and B: "ad_cache B = c1" "ad_total_offset B = ad_total_offset A" "ad_can_run B = ad_can_run A"
          "ad_new_chunked B = (if pr_extend req1 < pr_extend req then (ad_new_chunked A)[?d := Some req1] else ad_new_chunked A)"
      using ac [unfolded if_P [OF room]] by blast
    have off: "ad_total_offset A1 = (ad_total_offset A)[?d := ad_total_offset A ! ?d
        + of_int (ceil_paged_tokens E (pr_extend req1) + mx)]"
      using B(2) y(1) by (simp add: A1 update_prefill_budget_def append_run_def Let_def)
    have fl: "ad_can_run A1 = (ad_can_run A)[?d := ad_can_run A ! ?d @ [req1]]" "ad_new_chunked A1 = ad_new_chunked B"
        "ad_cache A1 = ad_cache B"
      using B(3) by (simp_all add: A1 update_prefill_budget_def append_run_def Let_def)
    have "ceil_paged_tokens E (pr_extend req1) + mx < ?t + ae_page_size E"
      using ceil_paged_bounds(2) [OF ps, of "pr_extend req1"] y(2) new by (auto simp: mx_def clipped_new_def clip_max_new_def)
    then have "(of_int (ceil_paged_tokens E (pr_extend req1) + mx) :: rat) < of_int (?t + ae_page_size E)"
      by (simp only: of_int_less_iff)
    moreover have "rem_total_tokens_for_dp E A1 ?d = rem_total_tokens_for_dp E (A\<lparr>ad_cache := c1\<rparr>) ?d
          - of_int (ceil_paged_tokens E (pr_extend req1) + mx)"
      using d len B(1) by (simp add: rem_total_tokens_for_dp_def off fl)
    moreover have "of_int ?t < rem_total_tokens_for_dp E (A\<lparr>ad_cache := c1\<rparr>) ?d" using room by (simp add: room_for_def)
    ultimately have "- of_int (ae_page_size E) < rem_total_tokens_for_dp E A1 ?d" by simp
    then show ?thesis unfolding runs_charged_def mx_def [symmetric] using y(2) r1 off fl B by simp blast
  qed
  then show ?thesis using run ac by (intro exI [of _ res] exI [of _ req1] exI [of _ A1]) (simp split: if_splits)
qed

end

definition demo_adder :: "(unit, nat, unit, nat) prefill_adder" where
  "demo_adder = \<lparr>ad_rem_input = 100, ad_rem_chunk = Some 8, ad_rem_chunk_list = Some [8, 8],
     ad_total_offset = [0, 0], ad_cur_offset = [0, 0], ad_req_states = [None, None], ad_can_run = [[], []],
     ad_new_chunked = [None, None], ad_swa_offset = [0, 0], ad_log_hit = 0, ad_log_input = 0,
     ad_pending_h2d = [], ad_cache = ()\<rparr>"

lemma demo_adder_init: "adder_init demo_env None 100 (Some 8) (Inl 0) () = Inr demo_adder"
  by (simp add: adder_init_def mixed_per_dp_def demo_env_def demo_adder_def)

lemmas adder_eval = rank_of_def clipped_new_def clip_max_new_def ceil_paged_tokens_def
  rem_total_tokens_for_dp_def add_under_lock_def load_back_def lock_req_def recurrent_boundary_cap_def
  update_prefill_budget_def append_run_def mark_chunked_def budget_state_after_add_def total_can_run_def
  py_slice_prefix Let_def

lemma demo_admit:
  "\<exists>res req1 A1. add_one_req demo_env None demo_preq demo_adder = Inr (res, req1, A1)
     \<and> pr_extend req1 = 8 \<and> ad_rem_input A1 = 92 \<and> ad_can_run A1 = [[], [req1]]"
  unfolding add_one_req_def by (simp add: adder_eval demo_env_def demo_preq_def demo_adder_def)

theorem prefill_books_exact_witness:
  "\<exists>A. (adder_step demo_env None)\<^sup>*\<^sup>* demo_adder A \<and> ad_rem_input A = 92
     \<and> ad_rem_input A = 100 - (\<Sum>d<2. \<Sum>r\<leftarrow>ad_can_run A ! d. ceil_paged_tokens demo_env (pr_extend r))"
proof -
  obtain res req1 A1 where A1: "add_one_req demo_env None demo_preq demo_adder = Inr (res, req1, A1)"
      "ad_rem_input A1 = 92" using demo_admit by blast
  have run: "(adder_step demo_env None)\<^sup>*\<^sup>* demo_adder A1" using admit [OF A1(1)] by (rule r_into_rtranclp)
  have ps: "0 < ae_page_size demo_env" by (simp add: demo_env_def)
  have "ae_dp_size demo_env = 2" "ad_rem_input demo_adder = 100" by (simp_all add: demo_env_def demo_adder_def)
  moreover have "ad_rem_input A1 = ad_rem_input demo_adder
      - (\<Sum>d<ae_dp_size demo_env. \<Sum>r\<leftarrow>ad_can_run A1 ! d. ceil_paged_tokens demo_env (pr_extend r))"
    using prefill_books_exact [OF ps demo_adder_init run] by (elim conjE) assumption
  ultimately show ?thesis using run A1(2) by (intro exI [of _ A1]) simp
qed

section \<open>Two defects\<close>

text \<open>C39. The sorted insertion of \<open>add_req_state\<close> keeps the list sorted exactly when the list is empty or
  some entry has at least as many tokens left: a candidate with more tokens left than every entry is put
  before the last one, so the estimate that walks the list in order of completion is wrong.\<close>

theorem insert_req_state_sorted_iff:
  assumes "sorted (map fst xs)" "0 < fst x"
  shows "sorted (map fst (insert_req_state x xs)) \<longleftrightarrow> xs = [] \<or> (\<exists>y\<in>set xs. fst x \<le> fst y)"
proof -
  have "sorted (map fst (take (insert_index (fst x) xs) xs @ x # drop (insert_index (fst x) xs) xs))
      \<longleftrightarrow> xs = [] \<or> (\<exists>y\<in>set xs. fst x \<le> fst y)" using assms(1)
  proof (induction xs)
    case (Cons y ys)
    let ?i = "insert_index (fst x) ys"
    let ?zs = "take ?i ys @ x # drop ?i ys"
    have set: "set ?zs = insert x (set ys)"
      using set_append [of "take ?i ys" "drop ?i ys"] by auto
    show ?case
    proof (cases "fst x \<le> fst y \<or> ys = []")
      case True
      then show ?thesis using Cons.prems by (auto intro: order_trans)
    next
      case False
      then have "\<forall>z\<in>set ?zs. fst y \<le> fst z" using Cons.prems set by auto
      then show ?thesis using Cons False by auto
    qed
  qed simp
  with assms(2) show ?thesis by (simp add: insert_req_state_def Let_def)
qed

theorem insert_req_state_sorted_iff_witness:
  "insert_req_state (9, 1) [(3, 1), (5, 1)] = [(3, 1), (9, 1), (5, 1)]
     \<and> \<not> sorted (map fst (insert_req_state (9, 1) [(3, 1), (5, 1)]))"
  using insert_req_state_sorted_iff [of "[(3, 1), (5, 1)]" "(9, 1)"] by (simp add: insert_req_state_def)

text \<open>C38. Outside hybrid models \<open>add_chunked_req\<close> has no guard for an exhausted chunk budget: when the
  decode tokens mixed into the batch use up the rank's chunk (\<open>rem_chunk_tokens_list[dp] \<le> 0\<close>), the
  request is still put on the run list, with a non-positive extend length.\<close>

theorem add_chunked_req_nonpositive_extend:
  assumes "\<not> ae_hybrid E" "ae_track_interval E = None" "rank_of req < ae_dp_size E"
    and "length (ad_can_run A) = ae_dp_size E"
    and "ad_rem_chunk_list A = Some L" "L ! rank_of req \<le> 0" "0 < pr_extend req"
  shows "\<exists>r A1. add_chunked_req E req A = Inr (Some r, A1) \<and> r \<in> set (ad_can_run A1 ! rank_of req)
     \<and> pr_extend r = L ! rank_of req"
proof -
  have "min (L ! rank_of req) (trunc_rat (rem_total_tokens_for_dp E A (rank_of req))) \<le> 0"
    using assms(6) by simp
  then show ?thesis
    using assms by (auto simp: add_chunked_req_def Let_def recurrent_boundary_cap_def
        update_prefill_budget_def append_run_def min_def)
qed

theorem add_chunked_req_nonpositive_extend_witness:
  "\<exists>r A1. add_chunked_req demo_env demo_preq (demo_adder\<lparr>ad_rem_chunk_list := Some [8, 0]\<rparr>) = Inr (Some r, A1)
     \<and> r \<in> set (ad_can_run A1 ! 1) \<and> pr_extend r = 0"
  using add_chunked_req_nonpositive_extend [of demo_env demo_preq
      "demo_adder\<lparr>ad_rem_chunk_list := Some [8, 0]\<rparr>" "[8, 0]"]
  by (simp add: demo_env_def demo_preq_def demo_adder_def rank_of_def)

end
