(* ===== verification/Prefill_Tree.thy ===== *)
theory Prefill_Tree
  imports Prefill_Adder Radix_Evict
begin

text \<open>
  Admission against the prefix cache itself: the operations that \<open>PrefillAdder\<close> takes from the tree and the
  allocator, instantiated with the radix cache. Its node locks are \<open>inc_lock_ref\<close> and \<open>dec_lock_ref\<close>, the sizes are
  the free slots of the rank and the tokens that could be evicted; there is no sliding-window pool and no host tier.
\<close>

section \<open>The radix cache as the cache of an adder\<close>

text \<open>The release of a radix cache reads nothing of what the lock returned. On a linked node neither walk raises and
  the allocator knows its ranks, so that the error branches below are not reached where the theorem applies.\<close>

definition tree_lock :: "nat \<Rightarrow> radix_cache \<Rightarrow> unit \<times> radix_cache" where
  "tree_lock n c = ((), case inc_lock_ref n c of Inr (d, c1) \<Rightarrow> c1 | Inl e \<Rightarrow> c)"

definition tree_unlock :: "nat \<Rightarrow> unit \<Rightarrow> radix_cache \<Rightarrow> radix_cache" where
  "tree_unlock n p c = (case dec_lock_ref n c of Inr (d, c1) \<Rightarrow> c1 | Inl e \<Rightarrow> c)"

definition tree_available :: "radix_cache \<Rightarrow> nat \<Rightarrow> int" where
  "tree_available c d = (case sub_available_size d (kv_allocator c) of Inr n \<Rightarrow> int n | Inl e \<Rightarrow> 0)"

definition tree_env :: "int \<Rightarrow> nat \<Rightarrow> rat \<Rightarrow> int option \<Rightarrow> (radix_cache, nat, unit, nat) adder_env" where
  "tree_env page dp ratio interval = \<lparr>ae_page_size = page, ae_dp_size = dp, ae_new_token_ratio = ratio,
     ae_hybrid = False, ae_available = tree_available, ae_evictable = (\<lambda>c d. evictable_size d c),
     ae_swa_available = (\<lambda>_ _. 0), ae_swa_evictable = (\<lambda>_ _. 0), ae_sliding_window = 0,
     ae_interval_multiplier = 1, ae_track_interval = interval, ae_cache_disable = False, ae_hicache = False,
     ae_lock = tree_lock, ae_unlock = tree_unlock, ae_load_back = (\<lambda>n h q c. (([], n, []), c))\<rparr>"

lemma tree_env_simps [simp]:
  "ae_page_size (tree_env page dp ratio interval) = page" "ae_dp_size (tree_env page dp ratio interval) = dp"
  "ae_hicache (tree_env page dp ratio interval) = False" "ae_cache_disable (tree_env page dp ratio interval) = False"
  "ae_hybrid (tree_env page dp ratio interval) = False" "ae_available (tree_env page dp ratio interval) = tree_available"
  "ae_evictable (tree_env page dp ratio interval) = (\<lambda>c d. evictable_size d c)"
  "ae_lock (tree_env page dp ratio interval) = tree_lock" "ae_unlock (tree_env page dp ratio interval) = tree_unlock"
  by (simp_all add: tree_env_def)

definition linked :: "nat \<Rightarrow> radix_cache \<Rightarrow> bool" where
  "linked n c \<longleftrightarrow> \<not> disable c \<and> (\<exists>L P H. radix_inv c L P H \<and> n \<in> L)"

lemma tree_lock_eq:
  assumes "linked n c"
  obtains d c1 where "inc_lock_ref n c = Inr (d, c1)" "snd (tree_lock n c) = c1" "linked n c1" "tree_unlock n p c1 = c"
    "\<forall>r. evictable_size r c1 \<le> evictable_size r c" "kv_allocator c1 = kv_allocator c"
proof -
  obtain L P H where i: "\<not> disable c" "radix_inv c L P H" "n \<in> L" using assms by (auto simp: linked_def)
  obtain d c1 where c1: "inc_lock_ref n c = Inr (d, c1)" "relocked c L P c1" "radix_inv c1 L P (H(n := Suc (H n)))"
    using inc_lock_ref_ok [OF i(2,3,1)] by blast
  have "linked n c1" using c1 i by (auto simp: linked_def relocked_def)
  moreover have "tree_unlock n p c1 = c" using lock_undo_exact [OF i(2,3) c1(1)] by (auto simp: tree_unlock_def)
  moreover have "\<forall>r. evictable_size r c1 \<le> evictable_size r c" using lock_evictable_le [OF i(2,3) c1(1)] by (simp add: evictable_size_def)
  ultimately show thesis using that c1(1,2) by (simp add: tree_lock_def relocked_def)
qed

interpretation tree: node_locks "tree_env page dp ratio interval" linked for page dp ratio interval
proof unfold_locales
  fix n c p d assume ok: "linked n c"
  obtain e c1 where c1: "snd (tree_lock n c) = c1" "linked n c1" "tree_unlock n p c1 = c"
    "\<forall>r. evictable_size r c1 \<le> evictable_size r c" "kv_allocator c1 = kv_allocator c"
    using tree_lock_eq [OF ok] by metis
  show "linked n (snd (ae_lock (tree_env page dp ratio interval) n c))" using c1 by simp
  show "ae_unlock (tree_env page dp ratio interval) n p (snd (ae_lock (tree_env page dp ratio interval) n c)) = c" using c1 by simp
  show "ae_available (tree_env page dp ratio interval) (snd (ae_lock (tree_env page dp ratio interval) n c)) d
      + ae_evictable (tree_env page dp ratio interval) (snd (ae_lock (tree_env page dp ratio interval) n c)) d
    \<le> ae_available (tree_env page dp ratio interval) c d + ae_evictable (tree_env page dp ratio interval) c d"
    using c1 by (simp add: tree_available_def)
qed

section \<open>Properties\<close>

text \<open>C30. Admission is exact, all or nothing, and does not over-commit. On a well-formed, enabled radix cache (so that the
  \<open>ignore_eos\<close> path, which needs a disabled cache, is not taken), outside hybrid models and without a host tier,
  \<open>add_one_req\<close> of a request whose last node is linked and whose rank the allocator has never raises. The request is admitted exactly when its extend
  length and clipped output estimate are below what the rank has left once the request's prefix is locked, and the input
  or chunk budget has room for it or for a page of it. Then the request, capped to the chunk budget, is appended to
  its rank's run list and, when it was shortened, becomes the rank's chunked request; the cache is the old one with one
  lock more on the request's last node; exactly its page-rounded extend length and its clipped output estimate (nothing
  for a shortened request) are added to the rank's reservation, which stays within less than one page of what
  the pool and the evictable cache can supply. Otherwise the whole adder and the cache, locks and sizes included, are
  exactly as they were, and the request is as it was or has its prefix length noted and its extend length cut at
  the recurrent boundary.\<close>

theorem admission_all_or_nothing:
  assumes "E = tree_env page dp ratio interval" "0 < page" "0 \<le> pr_max_new req"
    and "rank_of req < dp" "length (ad_total_offset A) = dp"
    and "\<not> disable (ad_cache A)" "radix_inv (ad_cache A) L P H" "pr_last_node req \<in> L"
    and "sub_available_size (rank_of req) (kv_allocator (ad_cache A)) = Inr avail"
  shows "\<exists>delta locked res req1 A1. inc_lock_ref (pr_last_node req) (ad_cache A) = Inr (delta, locked)
    \<and> add_one_req E running req A = Inr (res, req1, A1)
    \<and> (if room_for E locked req A
       then req1 = (run_req E (rank_of req) A req)\<lparr>pr_lock := Some ()\<rparr> \<and> pr_extend req1 \<le> pr_extend req
          \<and> ad_can_run A1 = (ad_can_run A)[rank_of req := ad_can_run A ! rank_of req @ [req1]]
          \<and> ad_new_chunked A1 = (if pr_extend req1 < pr_extend req
              then (ad_new_chunked A)[rank_of req := Some req1] else ad_new_chunked A)
          \<and> ad_cache A1 = locked
          \<and> ad_total_offset A1 = (ad_total_offset A)[rank_of req := ad_total_offset A ! rank_of req
              + of_int (ceil_paged_tokens E (pr_extend req1)
                  + (if pr_extend req1 < pr_extend req then 0 else clipped_new req))]
          \<and> - of_int page < rem_total_tokens_for_dp E A1 (rank_of req)
       else A1 = A \<and> (req1 = req \<or> req1 = cap_req E req))"
proof -
  have ok: "linked (pr_last_node req) (ad_cache A)" using assms(6-8) by (auto simp: linked_def)
  obtain d c1 where c1: "inc_lock_ref (pr_last_node req) (ad_cache A) = Inr (d, c1)"
      "snd (tree_lock (pr_last_node req) (ad_cache A)) = c1" using tree_lock_eq [OF ok] .
  have h: "0 < ae_page_size E" "\<not> ae_hicache E" "\<not> ae_hybrid E" "\<not> (pr_ignore_eos req \<and> ae_cache_disable E)"
      "rank_of req < ae_dp_size E" "length (ad_total_offset A) = ae_dp_size E" "ae_lock E = tree_lock" "ae_page_size E = page"
    using assms(1-5) by simp_all
  note t = tree.admission_cases [of page dp ratio interval req A running, folded assms(1), OF h(1-3) assms(3) ok h(4-6),
      unfolded h(7) c1(2)]
  then obtain res req1 A1 where "add_one_req E running req A = Inr (res, req1, A1)"
      "if room_for E c1 req A then runs_charged E (rank_of req) c1 req req1 A A1 else A1 = A \<and> req1 \<in> {req, cap_req E req}"
    by blast
  then show ?thesis using c1(1) h(8)
    by (intro exI [of _ d] exI [of _ c1] exI [of _ res] exI [of _ req1] exI [of _ A1])
      (auto simp: runs_charged_def split: if_splits)
qed

text \<open>A cache with an unlocked node of two tokens and six free slots. A request behind that node that asks for five
  tokens is admitted; one that asks for seven passes the first test, finds only six left once the node is locked, and
  is refused without a trace.\<close>

definition demo_prefix_cache :: radix_cache where
  "demo_prefix_cache = demo_evictable\<lparr>kv_allocator := Tok \<lparr>pool_size = 8, page_size = 1, dp_size = 1, size_per_rank = 8,
     is_not_in_free_group = True, free_group = [[]], free_slots = [[1, 2, 5, 6, 7, 8]], origin_size = 8\<rparr>\<rparr>"

definition demo_tree_adder :: "(radix_cache, nat, unit, nat) prefill_adder" where
  "demo_tree_adder = \<lparr>ad_rem_input = 100, ad_rem_chunk = Some 8, ad_rem_chunk_list = Some [8], ad_total_offset = [0],
     ad_cur_offset = [0], ad_req_states = [None], ad_can_run = [[]], ad_new_chunked = [None], ad_swa_offset = [0],
     ad_log_hit = 0, ad_log_input = 0, ad_pending_h2d = [], ad_cache = demo_prefix_cache\<rparr>"

definition demo_tree_req :: "int \<Rightarrow> (nat, unit) prefill_req" where
  "demo_tree_req ext = \<lparr>pr_rid = 1, pr_dp_rank = Some 0, pr_extend = ext, pr_fill_ids = [7, 9, 11, 12], pr_prefix = [3, 4],
     pr_max_new = 3, pr_ignore_eos = True, pr_output_len = 0, pr_origin_len = 4, pr_host_hit = 0,
     pr_last_node = 1, pr_last_host_node = 1, pr_last_matched = 0, pr_kv_allocated = 0, pr_swa_evicted = 0, pr_lock = None\<rparr>"

lemma demo_prefix_cache_ok:
  "radix_inv demo_prefix_cache {0, 1} (\<lambda>n. if n = 1 then [(Tok_Id 7, 3), (Tok_Id 9, 4)] else []) (\<lambda>_. 0)" "\<not> disable demo_prefix_cache"
  using demo_evictable_ok(1) by (simp_all add: demo_prefix_cache_def) (simp add: demo_evictable_def demo_fresh_def)

lemma demo_locked:
  "inc_lock_ref 1 demo_prefix_cache = Inr (d, locked) \<Longrightarrow> evictable_size 0 locked = 0 \<and> kv_allocator locked = kv_allocator demo_prefix_cache
     \<and> 0 < lock_ref (nodes locked 1)"
  by (auto simp: inc_lock_ref_def demo_prefix_cache_def demo_evictable_def demo_fresh_def demo_key_def eval_nat_numeral upd_node_def
      move_size_def node_dp_rank_def evictable_size_def)

lemma demo_room:
  assumes "inc_lock_ref 1 demo_prefix_cache = Inr (d, locked)"
  shows "room_for (tree_env 1 1 (1/2) None) locked (demo_tree_req 2) demo_tree_adder"
    "\<not> room_for (tree_env 1 1 (1/2) None) locked (demo_tree_req 4) demo_tree_adder"
  using demo_locked [OF assms]
  by (simp_all add: room_for_def input_gate_def rem_total_tokens_for_dp_def demo_tree_req_def demo_tree_adder_def rank_of_def clipped_new_def
      clip_max_new_def ceil_paged_tokens_def tree_env_def tree_available_def demo_prefix_cache_def token_available_size_def)

theorem admission_all_or_nothing_witness:
  "(\<exists>res req1 A1. add_one_req (tree_env 1 1 (1/2) None) None (demo_tree_req 2) demo_tree_adder = Inr (res, req1, A1)
      \<and> ad_can_run A1 = [[req1]] \<and> 0 < lock_ref (nodes (ad_cache A1) 1) \<and> - 1 < rem_total_tokens_for_dp (tree_env 1 1 (1/2) None) A1 0)
   \<and> (\<exists>res req1. add_one_req (tree_env 1 1 (1/2) None) None (demo_tree_req 4) demo_tree_adder = Inr (res, req1, demo_tree_adder))"
proof -
  have h: "0 \<le> pr_max_new (demo_tree_req e)" "rank_of (demo_tree_req e) < 1" "rank_of (demo_tree_req e) = 0"
      "length (ad_total_offset demo_tree_adder) = 1" "pr_last_node (demo_tree_req e) = 1" "pr_last_node (demo_tree_req e) \<in> {0, 1}"
      "ad_cache demo_tree_adder = demo_prefix_cache" "ad_can_run demo_tree_adder = [[]]"
      "sub_available_size (rank_of (demo_tree_req e)) (kv_allocator demo_prefix_cache) = Inr 6" for e
    by (simp_all add: demo_tree_req_def demo_tree_adder_def rank_of_def demo_prefix_cache_def token_available_size_def)
  note t = admission_all_or_nothing [OF refl zero_less_one h(1,2,4), where ratio = "1/2" and interval = None and running = None,
      unfolded h(7), OF demo_prefix_cache_ok(2,1) h(6,9)]
  from t [of 2] obtain d locked res req1 A1 where a: "inc_lock_ref 1 demo_prefix_cache = Inr (d, locked)"
      "add_one_req (tree_env 1 1 (1/2) None) None (demo_tree_req 2) demo_tree_adder = Inr (res, req1, A1)" "ad_can_run A1 = [[req1]]"
      "ad_cache A1 = locked" "- of_int 1 < rem_total_tokens_for_dp (tree_env 1 1 (1/2) None) A1 0"
    unfolding h(3,5,8) by (elim exE conjE) (simp add: demo_room(1) del: One_nat_def)
  from t [of 4] have "\<exists>res req1. add_one_req (tree_env 1 1 (1/2) None) None (demo_tree_req 4) demo_tree_adder = Inr (res, req1, demo_tree_adder)"
    unfolding h(3,5) by (elim exE conjE) (simp add: demo_room(2) del: One_nat_def)
  then show ?thesis using a demo_locked [OF a(1)] by auto
qed

end
