(* ===== verification/Req_Pool.thy ===== *)
theory Req_Pool
  imports Sgl_Prelude
begin

text \<open>
  The request slots of \<open>mem_cache/memory_pool.py\<close>: \<open>ReqToTokenPool\<close>, the table from request slots to
  KV slots with its free list, and \<open>HybridReqToTokenPool\<close>, which also hands out recurrent-state slots
  per rank, one running slot and the ping-pong track slots of a request. Slots are natural numbers; a
  request is the record of the attributes the pools read and write, and an operation that writes them
  returns the request. Recurrent slot 0 is the dummy slot and never owned.
\<close>

record pool_req =
  rq_id :: nat
  rq_pool_idx :: "nat option"
  rq_is_chunked :: int
  rq_committed_len :: int
  rq_rank :: "nat option"
  rq_recurrent :: "nat option"
  rq_track :: "nat list option"
  rq_next_track :: "nat option"
  rq_last_track :: "int option"

record req_pool =
  rp_size :: nat
  rp_max_context :: nat
  rp_table :: "int list list"
  rp_free :: "nat list"
  rp_host_buf :: "int list option"

definition req_pool_init :: "nat \<Rightarrow> nat \<Rightarrow> req_pool" where
  "req_pool_init n ctx = \<lparr>rp_size = n, rp_max_context = ctx, rp_table = replicate n (replicate ctx 0),
     rp_free = [0..<n], rp_host_buf = None\<rparr>"

definition init_cache_loc_host_buffer :: "nat \<Rightarrow> req_pool \<Rightarrow> req_pool" where
  "init_cache_loc_host_buffer n P =
     (if (case rp_host_buf P of None \<Rightarrow> True | Some b \<Rightarrow> length b < n)
      then P\<lparr>rp_host_buf := Some (replicate n 0)\<rparr> else P)"

text \<open>\<open>write((req_idx, slice(a, b)), values)\<close> and \<open>read(req_idx, length)\<close>.\<close>

definition pool_write :: "int \<Rightarrow> nat \<Rightarrow> int list \<Rightarrow> req_pool \<Rightarrow> req_pool result" where
  "pool_write i a vals P =
     rbind (np_get (rp_table P) i) (\<lambda>row.
     rbind (np_set_slice row a vals) (\<lambda>row1.
     rbind (np_set (rp_table P) i row1) (\<lambda>t. Inr (P\<lparr>rp_table := t\<rparr>))))"

definition pool_read :: "int \<Rightarrow> int \<Rightarrow> req_pool \<Rightarrow> int list result" where
  "pool_read i len P = rbind (np_get (rp_table P) i) (\<lambda>row. Inr (py_slice row 0 len))"

definition pool_available :: "req_pool \<Rightarrow> nat" where
  "pool_available P = length (rp_free P)"

text \<open>The loop of \<open>alloc\<close> that hands the selected slots to the requests without one.\<close>

fun give_slots :: "pool_req list \<Rightarrow> nat list \<Rightarrow> pool_req list" where
  "give_slots [] sel = []"
| "give_slots (r # rs) sel = (case rq_pool_idx r of
     Some _ \<Rightarrow> r # give_slots rs sel
   | None \<Rightarrow> (case sel of [] \<Rightarrow> r # give_slots rs [] | s # sel1 \<Rightarrow> r\<lparr>rq_pool_idx := Some s\<rparr> # give_slots rs sel1))"

definition pool_alloc :: "pool_req list \<Rightarrow> req_pool \<Rightarrow> (nat option list option \<times> pool_req list \<times> req_pool) result" where
  "pool_alloc reqs P =
     (let chunked = filter (\<lambda>r. rq_pool_idx r \<noteq> None) reqs in
      if 1 < length chunked then Inl AssertionError
      else if \<not> list_all (\<lambda>r. 0 < rq_is_chunked r \<or> 0 < rq_committed_len r) chunked then Inl AssertionError
      else let need_size = length reqs - length chunked in
        if length (rp_free P) < need_size then Inr (None, reqs, P)
        else let rs = give_slots reqs (take need_size (rp_free P)) in
          Inr (Some (map rq_pool_idx rs), rs, P\<lparr>rp_free := drop need_size (rp_free P)\<rparr>))"

definition pool_free :: "'a pool_req_scheme \<Rightarrow> req_pool \<Rightarrow> ('a pool_req_scheme \<times> req_pool) result" where
  "pool_free r P = (case rq_pool_idx r of None \<Rightarrow> Inl AssertionError
     | Some i \<Rightarrow> Inr (r\<lparr>rq_pool_idx := None\<rparr>, P\<lparr>rp_free := rp_free P @ [i]\<rparr>))"

definition pool_clear :: "req_pool \<Rightarrow> req_pool" where
  "pool_clear P = P\<lparr>rp_free := [0..<rp_size P]\<rparr>"

section \<open>The hybrid pool\<close>

record hybrid_pool =
  hp_base :: req_pool
  hp_dp_size :: nat
  hp_extra_buffer :: bool
  hp_ping_pong :: nat
  hp_slots_per_rank :: nat
  hp_rec_free :: "nat list list"
  hp_rec_map :: "nat list"
  hp_track_map :: "nat list list"

text \<open>\<open>state_size\<close> is the size of the recurrent state pool.\<close>

definition hybrid_init :: "nat \<Rightarrow> nat \<Rightarrow> nat \<Rightarrow> nat \<Rightarrow> bool \<Rightarrow> nat \<Rightarrow> hybrid_pool result" where
  "hybrid_init n ctx state_size dp extra pp =
     (if dp = 0 then Inl ZeroDivisionError
      else Inr \<lparr>hp_base = req_pool_init n ctx, hp_dp_size = dp, hp_extra_buffer = extra, hp_ping_pong = pp,
        hp_slots_per_rank = state_size div dp,
        hp_rec_free = replicate dp [1..<Suc (state_size div dp)],
        hp_rec_map = replicate n 0, hp_track_map = replicate n (replicate pp 0)\<rparr>)"

definition request_owned_slots :: "hybrid_pool \<Rightarrow> nat" where
  "request_owned_slots H = (if hp_extra_buffer H then 1 + hp_ping_pong H else 1)"

definition req_rank :: "'a pool_req_scheme \<Rightarrow> nat" where
  "req_rank r = (case rq_rank r of Some d \<Rightarrow> d | None \<Rightarrow> 0)"

definition alloc_recurrent_slot :: "nat \<Rightarrow> hybrid_pool \<Rightarrow> (nat option \<times> hybrid_pool) result" where
  "alloc_recurrent_slot d H =
     rbind (np_get (hp_rec_free H) (int d)) (\<lambda>slots.
       case slots of [] \<Rightarrow> Inr (None, H)
       | s # rest \<Rightarrow> Inr (Some s, H\<lparr>hp_rec_free := (hp_rec_free H)[d := rest]\<rparr>))"

definition free_recurrent_slot :: "nat \<Rightarrow> nat \<Rightarrow> hybrid_pool \<Rightarrow> hybrid_pool result" where
  "free_recurrent_slot s d H =
     rbind (np_get (hp_rec_free H) (int d)) (\<lambda>slots.
       Inr (H\<lparr>hp_rec_free := (hp_rec_free H)[d := slots @ [s]]\<rparr>))"

text \<open>Indexing a numpy array with \<open>None\<close> selects all of it.\<close>

definition np_assign :: "nat option \<Rightarrow> 'a \<Rightarrow> 'a list \<Rightarrow> 'a list result" where
  "np_assign i v xs = (case i of None \<Rightarrow> Inr (replicate (length xs) v) | Some k \<Rightarrow> np_set xs (int k) v)"

definition alloc_ping_pong_buffer :: "pool_req \<Rightarrow> nat \<Rightarrow> hybrid_pool \<Rightarrow> (pool_req \<times> hybrid_pool) result" where
  "alloc_ping_pong_buffer r d H =
     rbind (np_get (hp_rec_free H) (int d)) (\<lambda>slots.
       let n = hp_ping_pong H in
       if length slots < n then Inr (r, H)
       else rbind (np_assign (rq_pool_idx r) (take n slots) (hp_track_map H)) (\<lambda>m.
         Inr (r\<lparr>rq_track := Some (take n slots), rq_next_track := Some 0, rq_last_track := None\<rparr>,
              H\<lparr>hp_rec_free := (hp_rec_free H)[d := drop n slots], hp_track_map := m\<rparr>)))"

text \<open>The body of the loop in \<open>alloc\<close>: a request without a recurrent slot gets its slots.\<close>

definition give_recurrent :: "nat \<Rightarrow> pool_req \<Rightarrow> hybrid_pool \<Rightarrow> (pool_req \<times> hybrid_pool) result" where
  "give_recurrent d r H = (case rq_recurrent r of Some _ \<Rightarrow> Inr (r, H)
     | None \<Rightarrow>
         rbind (alloc_recurrent_slot d H) (\<lambda>(slot, H1).
         case slot of None \<Rightarrow> Inl TypeError
         | Some s \<Rightarrow>
             rbind (np_assign (rq_pool_idx r) s (hp_rec_map H1)) (\<lambda>m.
             let r1 = r\<lparr>rq_recurrent := Some s\<rparr>; H2 = H1\<lparr>hp_rec_map := m\<rparr> in
             if hp_extra_buffer H then alloc_ping_pong_buffer r1 d H2 else Inr (r1, H2))))"

fun give_recurrents :: "nat \<Rightarrow> pool_req list \<Rightarrow> hybrid_pool \<Rightarrow> (pool_req list \<times> hybrid_pool) result" where
  "give_recurrents d [] H = Inr ([], H)"
| "give_recurrents d (r # rs) H =
     rbind (give_recurrent d r H) (\<lambda>(r1, H1).
     rbind (give_recurrents d rs H1) (\<lambda>(rs1, H2). Inr (r1 # rs1, H2)))"

definition hybrid_alloc ::
    "pool_req list \<Rightarrow> hybrid_pool \<Rightarrow> (nat option list option \<times> pool_req list \<times> hybrid_pool) result" where
  "hybrid_alloc reqs H =
     (let d = (case reqs of [] \<Rightarrow> 0 | r # _ \<Rightarrow> req_rank r);
          needed = request_owned_slots H * length (filter (\<lambda>r. rq_recurrent r = None) reqs) in
      rbind (np_get (hp_rec_free H) (int d)) (\<lambda>slots.
      if length slots < needed then Inr (None, reqs, H)
      else
        rbind (pool_alloc reqs (hp_base H)) (\<lambda>(res, rs, P1).
        case res of None \<Rightarrow> Inr (None, rs, H\<lparr>hp_base := P1\<rparr>)
        | Some idx \<Rightarrow>
            rbind (give_recurrents d rs (H\<lparr>hp_base := P1\<rparr>)) (\<lambda>(rs1, H1). Inr (Some idx, rs1, H1)))))"

definition other_idx :: "hybrid_pool \<Rightarrow> nat \<Rightarrow> nat" where
  "other_idx H next_idx = (next_idx + 1) mod hp_ping_pong H"

definition keep_idx :: "pool_req \<Rightarrow> hybrid_pool \<Rightarrow> nat result" where
  "keep_idx r H = (case rq_next_track r of None \<Rightarrow> Inl TypeError
     | Some nx \<Rightarrow> if hp_ping_pong H = 0 then Inl ZeroDivisionError else Inr (other_idx H nx))"

definition track_at :: "pool_req \<Rightarrow> nat \<Rightarrow> nat result" where
  "track_at r k = (case rq_track r of None \<Rightarrow> Inl TypeError | Some buf \<Rightarrow> np_get buf (int k))"

text \<open>\<open>mapping[req_pool_idx, idx]\<close> with \<open>None\<close> for the row puts a new axis in front, so that \<open>idx\<close>
  selects a whole row.\<close>

definition set_ping_pong_slot :: "pool_req \<Rightarrow> nat \<Rightarrow> nat \<Rightarrow> hybrid_pool \<Rightarrow> (pool_req \<times> hybrid_pool) result" where
  "set_ping_pong_slot r k slot H = (case rq_track r of None \<Rightarrow> Inl TypeError
     | Some buf \<Rightarrow>
         rbind (np_set buf (int k) slot) (\<lambda>buf1.
         rbind (case rq_pool_idx r of None \<Rightarrow> np_set (hp_track_map H) (int k) (replicate (hp_ping_pong H) slot)
                | Some i \<Rightarrow> rbind (np_get (hp_track_map H) (int i)) (\<lambda>row.
                    rbind (np_set row (int k) slot) (\<lambda>row1. np_set (hp_track_map H) (int i) row1)))
           (\<lambda>m. Inr (r\<lparr>rq_track := Some buf1\<rparr>, H\<lparr>hp_track_map := m\<rparr>))))"

text \<open>\<open>donate_recurrent_ping_pong_slot\<close>: the slot handed to the tree, the request and the pool.\<close>

definition donate_slot :: "pool_req \<Rightarrow> nat \<Rightarrow> hybrid_pool \<Rightarrow> (nat \<times> pool_req \<times> hybrid_pool) result" where
  "donate_slot r new_slot H =
     rbind (keep_idx r H) (\<lambda>k.
     rbind (track_at r k) (\<lambda>keep_slot.
     rbind (set_ping_pong_slot r k new_slot H) (\<lambda>(r1, H1). Inr (keep_slot, r1, H1))))"

definition commit_to_tree :: "pool_req \<Rightarrow> hybrid_pool \<Rightarrow> (pool_req \<times> hybrid_pool) result" where
  "commit_to_tree r H = (case rq_recurrent r of None \<Rightarrow> Inr (r, H)
     | Some _ \<Rightarrow> rbind (np_assign (rq_pool_idx r) 0 (hp_rec_map H)) (\<lambda>m.
         Inr (r\<lparr>rq_recurrent := None\<rparr>, H\<lparr>hp_rec_map := m\<rparr>)))"

definition free_running_slot :: "pool_req \<Rightarrow> hybrid_pool \<Rightarrow> (pool_req \<times> hybrid_pool) result" where
  "free_running_slot r H = (case rq_recurrent r of None \<Rightarrow> Inr (r, H)
     | Some s \<Rightarrow> rbind (free_recurrent_slot s (req_rank r) H) (\<lambda>H1.
         rbind (np_assign (rq_pool_idx r) 0 (hp_rec_map H1)) (\<lambda>m.
           Inr (r\<lparr>rq_recurrent := None\<rparr>, H1\<lparr>hp_rec_map := m\<rparr>))))"

definition free_track_slots :: "pool_req \<Rightarrow> hybrid_pool \<Rightarrow> (pool_req \<times> hybrid_pool) result" where
  "free_track_slots r H = (case rq_track r of None \<Rightarrow> Inr (r, H)
     | Some buf \<Rightarrow>
         rbind (for_m (\<lambda>s H. if s = 0 then Inr H else free_recurrent_slot s (req_rank r) H) buf H) (\<lambda>H1.
         rbind (np_assign (rq_pool_idx r) (replicate (hp_ping_pong H1) 0) (hp_track_map H1)) (\<lambda>m.
           Inr (r\<lparr>rq_track := None, rq_next_track := None, rq_last_track := None\<rparr>,
                H1\<lparr>hp_track_map := m\<rparr>))))"

definition free_recurrent_cache :: "pool_req \<Rightarrow> hybrid_pool \<Rightarrow> (pool_req \<times> hybrid_pool) result" where
  "free_recurrent_cache r H =
     rbind (free_running_slot r H) (\<lambda>(r1, H1). free_track_slots r1 H1)"

definition hybrid_free :: "pool_req \<Rightarrow> hybrid_pool \<Rightarrow> (pool_req \<times> hybrid_pool) result" where
  "hybrid_free r H =
     rbind (free_recurrent_cache r H) (\<lambda>(r1, H1).
     rbind (pool_free r1 (hp_base H1)) (\<lambda>(r2, P). Inr (r2, H1\<lparr>hp_base := P\<rparr>)))"

definition owned_by :: "nat \<Rightarrow> pool_req \<Rightarrow> nat list" where
  "owned_by d r = (if req_rank r = d
     then (case rq_recurrent r of None \<Rightarrow> [] | Some s \<Rightarrow> [s])
        @ (case rq_track r of None \<Rightarrow> [] | Some buf \<Rightarrow> filter (\<lambda>s. s \<noteq> 0) buf)
     else [])"

definition count_request_owned :: "pool_req list \<Rightarrow> nat \<Rightarrow> nat" where
  "count_request_owned live d = sum_list (map (\<lambda>r. length (owned_by d r)) live)"

definition recurrent_available_size :: "nat \<Rightarrow> hybrid_pool \<Rightarrow> nat result" where
  "recurrent_available_size d H = rbind (np_get (hp_rec_free H) (int d)) (\<lambda>slots. Inr (length slots))"

definition hybrid_clear :: "hybrid_pool \<Rightarrow> hybrid_pool" where
  "hybrid_clear H = H\<lparr>hp_base := pool_clear (hp_base H),
     hp_rec_free := map (\<lambda>_. [1..<Suc (hp_slots_per_rank H)]) (hp_rec_free H),
     hp_rec_map := replicate (length (hp_rec_map H)) 0,
     hp_track_map := replicate (length (hp_track_map H)) (replicate (hp_ping_pong H) 0)\<rparr>"

text \<open>\<open>_recurrent_track_entry\<close>: on a track boundary the slot under \<open>recurrent_next_track_idx\<close> is
  read, the watermark recorded and the index flipped.\<close>

definition recurrent_track_entry ::
    "pool_req \<Rightarrow> int \<Rightarrow> int \<Rightarrow> bool \<Rightarrow> int \<Rightarrow> hybrid_pool \<Rightarrow> ((bool \<times> nat) \<times> pool_req) result" where
  "recurrent_track_entry r final_seq_len interval is_extend extend_input_len H =
     (if is_extend \<and> \<not> 0 < extend_input_len then Inr ((False, 0), r)
      else if interval = 0 then Inl ZeroDivisionError
      else if final_seq_len mod interval \<noteq> 0 then Inr ((False, 0), r)
      else (case rq_next_track r of None \<Rightarrow> Inl TypeError
        | Some k \<Rightarrow>
            rbind (track_at r k) (\<lambda>slot.
            if hp_ping_pong H = 0 then Inl ZeroDivisionError
            else Inr ((True, slot), r\<lparr>rq_last_track := Some final_seq_len, rq_next_track := Some (other_idx H k)\<rparr>))))"

section \<open>The recurrent component of the tree cache\<close>

text \<open>\<open>RecurrentComponent.prepare_for_caching_req\<close> and \<open>cleanup_after_caching_req\<close>. The tree cache
  is left open: \<open>evicted\<close> are the slots of the request's rank that its \<open>evict\<close> returns to the pool when
  it is called, and \<open>committed\<close> is its verdict on the insertion. The result is the donated value, the
  cap on the cached length, the slots the tree gave up, the request and the pool.\<close>

definition secure_replacement :: "nat \<Rightarrow> nat list \<Rightarrow> hybrid_pool \<Rightarrow> (nat option \<times> nat list \<times> hybrid_pool) result" where
  "secure_replacement d evicted H =
     rbind (alloc_recurrent_slot d H) (\<lambda>(new0, H0).
       case new0 of Some s \<Rightarrow> Inr (Some s, [], H0)
       | None \<Rightarrow> rbind (for_m (\<lambda>s. free_recurrent_slot s d) evicted H0) (\<lambda>H1.
           rbind (alloc_recurrent_slot d H1) (\<lambda>(new1, H2). Inr (new1, evicted, H2))))"

definition prepare_for_caching_req ::
    "pool_req \<Rightarrow> bool \<Rightarrow> nat list \<Rightarrow> hybrid_pool
       \<Rightarrow> (nat option \<times> int option \<times> nat list \<times> pool_req \<times> hybrid_pool) result" where
  "prepare_for_caching_req r is_finished evicted H =
     (if \<not> hp_extra_buffer H then
        (if \<not> is_finished then Inr (None, None, [], r, H) else Inr (rq_recurrent r, None, [], r, H))
      else (case rq_last_track r of None \<Rightarrow> Inr (None, Some 0, [], r, H)
        | Some cache_len \<Rightarrow>
            rbind (keep_idx r H) (\<lambda>k.
            rbind (track_at r k) (\<lambda>keep_slot.
            if is_finished then Inr (Some keep_slot, Some cache_len, [], r, H)
            else
              rbind (secure_replacement (req_rank r) evicted H) (\<lambda>(new1, ev, H1).
                case new1 of None \<Rightarrow> Inr (None, Some 0, ev, r, H1)
                | Some s \<Rightarrow> rbind (donate_slot r s H1) (\<lambda>(value, r1, H2). Inr (Some value, Some cache_len, ev, r1, H2)))))))"

definition cleanup_after_caching_req ::
    "pool_req \<Rightarrow> bool \<Rightarrow> bool \<Rightarrow> nat option \<Rightarrow> hybrid_pool \<Rightarrow> (pool_req \<times> hybrid_pool) result" where
  "cleanup_after_caching_req r is_finished committed value H =
     (if \<not> hp_extra_buffer H then
        (if \<not> is_finished then Inr (r, H) else if committed then commit_to_tree r H else Inr (r, H))
      else if is_finished then
        (if committed then
           rbind (keep_idx r H) (\<lambda>k.
           rbind (set_ping_pong_slot r k 0 H) (\<lambda>(r1, H1). free_recurrent_cache r1 H1))
         else free_recurrent_cache r H)
      else if committed then Inr (r\<lparr>rq_last_track := None\<rparr>, H)
      else (case value of None \<Rightarrow> Inr (r, H)
        | Some v \<Rightarrow> rbind (free_recurrent_slot v (req_rank r) H) (\<lambda>H1. Inr (r\<lparr>rq_last_track := None\<rparr>, H1))))"

end
