(* ===== verification/Req_Ledger.thy ===== *)
theory Req_Ledger
  imports Req_Pool
begin

text \<open>
  The ledger of the request pools: which request slots and which recurrent slots are free, held by live
  requests or held by the tree, and that every operation of the pools and of the recurrent component of
  the tree cache keeps the three together equal to the slots there are. The step relation \<open>pool_step\<close> is
  what the scheduler and the tree cache do with the pool.
\<close>

section \<open>The slot ledger\<close>

text \<open>The request slots and the recurrent slots of a multiset of live requests.\<close>

definition held_idx :: "pool_req \<Rightarrow> nat multiset" where
  "held_idx r = (case rq_pool_idx r of None \<Rightarrow> {#} | Some i \<Rightarrow> {#i#})"

definition held :: "pool_req multiset \<Rightarrow> nat multiset" where
  "held L = \<Sum>\<^sub># (image_mset held_idx L)"

definition owned :: "nat \<Rightarrow> pool_req multiset \<Rightarrow> nat multiset" where
  "owned d L = \<Sum>\<^sub># (image_mset (\<lambda>r. mset (owned_by d r)) L)"

definition running_slot :: "pool_req \<Rightarrow> nat" where
  "running_slot r = (case rq_recurrent r of None \<Rightarrow> 0 | Some s \<Rightarrow> s)"

definition track_row :: "nat \<Rightarrow> pool_req \<Rightarrow> nat list" where
  "track_row n r = (case rq_track r of None \<Rightarrow> replicate n 0 | Some b \<Rightarrow> b)"

lemma held_simps [simp]: "held {#} = {#}" "held (add_mset r L) = held_idx r + held L"
  "held (L + M) = held L + held M"
  by (auto simp: held_def)

lemma owned_simps [simp]: "owned d {#} = {#}" "owned d (add_mset r L) = mset (owned_by d r) + owned d L"
  "owned d (L + M) = owned d L + owned d M"
  by (auto simp: owned_def)

lemma size_owned: "size (owned d (mset live)) = count_request_owned live d"
  by (induction live) (auto simp: count_request_owned_def)

text \<open>The request slot of a live request, with the entry of the mappings that belongs to it.\<close>

definition req_ok :: "hybrid_pool \<Rightarrow> pool_req \<Rightarrow> bool" where
  "req_ok H r \<longleftrightarrow> (\<exists>i < rp_size (hp_base H). rq_pool_idx r = Some i
      \<and> hp_rec_map H ! i = running_slot r \<and> hp_track_map H ! i = track_row (hp_ping_pong H) r)
    \<and> req_rank r < hp_dp_size H \<and> (rq_recurrent r = None \<longrightarrow> rq_track r = None)
    \<and> (rq_track r = None \<longrightarrow> rq_last_track r = None)
    \<and> (\<forall>b. rq_track r = Some b \<longrightarrow> hp_extra_buffer H \<and> length b = hp_ping_pong H
         \<and> (\<exists>k < hp_ping_pong H. rq_next_track r = Some k))"

definition track_owned :: "pool_req \<Rightarrow> bool" where
  "track_owned r \<longleftrightarrow> (\<forall>b. rq_track r = Some b \<longrightarrow> 0 \<notin> set b)"

definition track_ok :: "hybrid_pool \<Rightarrow> pool_req \<Rightarrow> bool" where
  "track_ok H r \<longleftrightarrow> track_owned r \<and> (rq_recurrent r = None \<longrightarrow> rq_track r = None)
    \<and> (rq_track r = None \<longrightarrow> rq_last_track r = None)
    \<and> (\<forall>b. rq_track r = Some b \<longrightarrow> hp_extra_buffer H \<and> length b = hp_ping_pong H
         \<and> (\<exists>k < hp_ping_pong H. rq_next_track r = Some k))"

definition pool_shape :: "hybrid_pool \<Rightarrow> bool" where
  "pool_shape H \<longleftrightarrow> length (hp_rec_free H) = hp_dp_size H
     \<and> length (hp_rec_map H) = rp_size (hp_base H) \<and> length (hp_track_map H) = rp_size (hp_base H)
     \<and> (hp_extra_buffer H \<longrightarrow> 0 < hp_ping_pong H)"

definition ledger :: "hybrid_pool \<Rightarrow> pool_req multiset \<Rightarrow> (nat \<Rightarrow> nat multiset) \<Rightarrow> bool" where
  "ledger H L T \<longleftrightarrow> pool_shape H
     \<and> mset (rp_free (hp_base H)) + held L = mset [0..<rp_size (hp_base H)]
     \<and> (\<forall>d < hp_dp_size H. mset (hp_rec_free H ! d) + owned d L + T d = mset [1..<Suc (hp_slots_per_rank H)])
     \<and> (\<forall>r. r \<in># L \<longrightarrow> req_ok H r \<and> track_owned r)
     \<and> (\<forall>i \<in> set (rp_free (hp_base H)). hp_rec_map H ! i = 0
          \<and> hp_track_map H ! i = replicate (hp_ping_pong H) 0)"

lemma mset_upt_part:
  assumes "A + B = mset [m..<n]"
  shows "count A x + count B x \<le> 1" "x \<in># A \<Longrightarrow> m \<le> x \<and> x < n" "x \<in># B \<Longrightarrow> m \<le> x \<and> x < n"
proof -
  have "count (A + B) x \<le> 1" unfolding assms by (simp add: count_mset_set')
  then show "count A x + count B x \<le> 1" by simp
  have "set_mset (A + B) = {m..<n}" unfolding assms by simp
  then show "x \<in># A \<Longrightarrow> m \<le> x \<and> x < n" "x \<in># B \<Longrightarrow> m \<le> x \<and> x < n" by (metis UnCI atLeastLessThan_iff set_mset_union)+
qed

lemma ledgerD:
  assumes "ledger H L T"
  shows "pool_shape H" "\<And>r. r \<in># L \<Longrightarrow> req_ok H r"
    "mset (rp_free (hp_base H)) + held L = mset [0..<rp_size (hp_base H)]"
    "\<And>d. d < hp_dp_size H \<Longrightarrow> mset (hp_rec_free H ! d) + owned d L + T d = mset [1..<Suc (hp_slots_per_rank H)]"
    "\<And>i. i \<in> set (rp_free (hp_base H)) \<Longrightarrow> hp_rec_map H ! i = 0 \<and> hp_track_map H ! i = replicate (hp_ping_pong H) 0"
    "\<And>r. r \<in># L \<Longrightarrow> track_owned r"
  using assms by (auto simp: ledger_def)

lemma free_slot_pos:
  assumes "ledger H L T" "d < hp_dp_size H" "s \<in> set (hp_rec_free H ! d)"
  shows "0 < s"
  using mset_upt_part(2) [of "mset (hp_rec_free H ! d)" "owned d L + T d" 1 "Suc (hp_slots_per_rank H)" s]
    ledgerD(4) [OF assms(1,2)] assms(3)
  by (simp add: add.assoc)

text \<open>No two live requests share a request slot, and none holds a free one.\<close>

lemma ledger_other_idx:
  assumes "ledger H (add_mset r L) T" "rq_pool_idx r = Some i"
  shows "q \<in># L \<Longrightarrow> rq_pool_idx q \<noteq> Some i" "i \<notin> set (rp_free (hp_base H))"
proof -
  have c: "count (mset (rp_free (hp_base H))) i + count (held (add_mset r L)) i \<le> 1"
    by (rule mset_upt_part(1)) (rule ledgerD(3) [OF assms(1)])
  show "i \<notin> set (rp_free (hp_base H))" using c assms(2) by (auto simp: held_idx_def)
  show "rq_pool_idx q \<noteq> Some i" if "q \<in># L"
  proof
    assume qi: "rq_pool_idx q = Some i"
    obtain M where "L = add_mset q M" using \<open>q \<in># L\<close> by (metis insert_DiffM)
    with c qi assms(2) show False by (simp add: held_idx_def)
  qed
qed

text \<open>One request at a time: the general step. A request of rank \<open>d\<close> trades slots with the free list
  and with the tree, and rewrites its own entry of the mappings only.\<close>

lemma ledger_trade:
  assumes led: "ledger H (add_mset r L) T" and i: "rq_pool_idx r = Some i"
    and d: "req_rank r = d" and same: "rq_pool_idx r1 = Some i" "req_rank r1 = d"
    and track: "track_ok H r1"
    and trade: "mset slots + mset (owned_by d r1) + T1
                = mset (hp_rec_free H ! d) + mset (owned_by d r) + T d"
  shows "ledger (H\<lparr>hp_rec_free := (hp_rec_free H)[d := slots],
                  hp_rec_map := (hp_rec_map H)[i := running_slot r1],
                  hp_track_map := (hp_track_map H)[i := track_row (hp_ping_pong H) r1]\<rparr>)
           (add_mset r1 L) (T(d := T1))" (is "ledger ?H1 _ _")
proof -
  note sh = ledgerD(1) [OF led, unfolded pool_shape_def]
  have rok: "req_ok H r" using ledgerD(2) [OF led] by simp
  then have isz: "i < rp_size (hp_base H)" and dlt: "d < hp_dp_size H"
    using i d by (auto simp: req_ok_def)
  have idx: "held_idx r1 = held_idx r" using i same by (simp add: held_idx_def)
  have other: "req_ok ?H1 q" if q: "q \<in># L" for q
  proof -
    have "req_ok H q" using ledgerD(2) [OF led] q by simp
    moreover have "rq_pool_idx q \<noteq> Some i" using ledger_other_idx(1) [OF led i q] .
    ultimately show ?thesis by (auto simp: req_ok_def nth_list_update)
  qed
  have self: "req_ok ?H1 r1" using isz dlt same track sh by (auto simp: req_ok_def track_ok_def)
  have owned0: "owned_by e r = []" "owned_by e r1 = []" if "e \<noteq> d" for e
    using that d same by (auto simp: owned_by_def)
  have bal: "mset (hp_rec_free ?H1 ! e) + owned e (add_mset r1 L) + (T(d := T1)) e
      = mset [1..<Suc (hp_slots_per_rank H)]" if e: "e < hp_dp_size H" for e
  proof (cases "e = d")
    case True
    have "mset slots + (mset (owned_by d r1) + owned d L) + T1
        = (mset slots + mset (owned_by d r1) + T1) + owned d L" by simp
    also have "\<dots> = mset (hp_rec_free H ! d) + (mset (owned_by d r) + owned d L) + T d"
      unfolding trade by simp
    also have "\<dots> = mset [1..<Suc (hp_slots_per_rank H)]" using ledgerD(4) [OF led dlt] by simp
    finally show ?thesis using True dlt sh by simp
  next
    case False
    then show ?thesis using ledgerD(4) [OF led e] owned0 by simp
  qed
  have free: "i \<notin> set (rp_free (hp_base H))" by (rule ledger_other_idx(2) [OF led i])
  show ?thesis
    unfolding ledger_def
  proof (intro conjI)
    show "pool_shape ?H1" using sh by (simp add: pool_shape_def)
    show "mset (rp_free (hp_base ?H1)) + held (add_mset r1 L) = mset [0..<rp_size (hp_base ?H1)]"
      using ledgerD(3) [OF led] idx by simp
    show "\<forall>e<hp_dp_size ?H1. mset (hp_rec_free ?H1 ! e) + owned e (add_mset r1 L) + (T(d := T1)) e
        = mset [1..<Suc (hp_slots_per_rank ?H1)]"
      using bal by simp
    show "\<forall>q. q \<in># add_mset r1 L \<longrightarrow> req_ok ?H1 q \<and> track_owned q"
      using other self ledgerD(6) [OF led] track by (auto simp: track_ok_def)
    show "\<forall>k \<in> set (rp_free (hp_base ?H1)). hp_rec_map ?H1 ! k = 0
        \<and> hp_track_map ?H1 ! k = replicate (hp_ping_pong ?H1) 0"
      using free ledgerD(5) [OF led] by simp (metis nth_list_update_neq)
  qed
qed

section \<open>Allocation\<close>

lemma give_recurrent_none:
  assumes "pool_shape H" "rq_recurrent r = None" "rq_track r = None" "rq_last_track r = None" "rq_pool_idx r = Some i"
    and "i < rp_size (hp_base H)" "d < hp_dp_size H"
    and "request_owned_slots H \<le> length (hp_rec_free H ! d)"
  shows "\<exists>r1. give_recurrent d r H = Inr (r1,
            H\<lparr>hp_rec_free := (hp_rec_free H)[d := drop (request_owned_slots H) (hp_rec_free H ! d)],
              hp_rec_map := (hp_rec_map H)[i := running_slot r1],
              hp_track_map := (if hp_extra_buffer H then (hp_track_map H)[i := track_row (hp_ping_pong H) r1]
                               else hp_track_map H)\<rparr>)
          \<and> rq_pool_idx r1 = Some i \<and> rq_rank r1 = rq_rank r \<and> rq_recurrent r1 \<noteq> None
          \<and> [running_slot r1] @ (case rq_track r1 of None \<Rightarrow> [] | Some b \<Rightarrow> b)
              = take (request_owned_slots H) (hp_rec_free H ! d)
          \<and> (rq_track r1 = None \<longleftrightarrow> \<not> hp_extra_buffer H)
          \<and> rq_last_track r1 = None
          \<and> (\<forall>b. rq_track r1 = Some b \<longrightarrow> length b = hp_ping_pong H \<and> rq_next_track r1 = Some 0)"
proof -
  obtain s rest where sr: "hp_rec_free H ! d = s # rest"
    using assms(8) by (cases "hp_rec_free H ! d") (auto simp: request_owned_slots_def split: if_splits)
  show ?thesis
  proof (cases "hp_extra_buffer H")
    case True
    with assms sr show ?thesis
      by (auto simp: give_recurrent_def alloc_recurrent_slot_def alloc_ping_pong_buffer_def np_assign_def
        pool_shape_def request_owned_slots_def running_slot_def track_row_def Let_def min_def)
  next
    case False
    with assms sr show ?thesis
      by (auto simp: give_recurrent_def alloc_recurrent_slot_def np_assign_def
        pool_shape_def request_owned_slots_def running_slot_def track_row_def Let_def)
  qed
qed

lemma give_recurrent_ledger:
  assumes led: "ledger H (add_mset r L) T" and d: "req_rank r = d"
    and room: "rq_recurrent r = None \<longrightarrow> request_owned_slots H \<le> length (hp_rec_free H ! d)"
  shows "\<exists>r1 H1. give_recurrent d r H = Inr (r1, H1) \<and> ledger H1 (add_mset r1 L) T
    \<and> rq_pool_idx r1 = rq_pool_idx r \<and> req_rank r1 = d \<and> rq_recurrent r1 \<noteq> None
    \<and> hp_base H1 = hp_base H \<and> request_owned_slots H1 = request_owned_slots H
    \<and> length (hp_rec_free H1 ! d)
        = length (hp_rec_free H ! d) - (if rq_recurrent r = None then request_owned_slots H else 0)"
proof (cases "rq_recurrent r")
  case (Some s)
  with led d show ?thesis by (auto simp: give_recurrent_def)
next
  case None
  let ?n = "request_owned_slots H" and ?F = "hp_rec_free H ! d"
  have rok: "req_ok H r" using ledgerD(2) [OF led] by simp
  then obtain i where i: "rq_pool_idx r = Some i" "i < rp_size (hp_base H)" and dlt: "d < hp_dp_size H"
    and tr: "rq_track r = None" "rq_last_track r = None" "hp_track_map H ! i = track_row (hp_ping_pong H) r"
    using d None by (auto simp: req_ok_def)
  note sh = ledgerD(1) [OF led]
  obtain r1 where run: "give_recurrent d r H = Inr (r1,
            H\<lparr>hp_rec_free := (hp_rec_free H)[d := drop ?n ?F],
              hp_rec_map := (hp_rec_map H)[i := running_slot r1],
              hp_track_map := (if hp_extra_buffer H then (hp_track_map H)[i := track_row (hp_ping_pong H) r1]
                               else hp_track_map H)\<rparr>)"
    and r1: "rq_pool_idx r1 = Some i" "rq_rank r1 = rq_rank r" "rq_recurrent r1 \<noteq> None"
      "[running_slot r1] @ (case rq_track r1 of None \<Rightarrow> [] | Some b \<Rightarrow> b) = take ?n ?F"
      "rq_track r1 = None \<longleftrightarrow> \<not> hp_extra_buffer H" "rq_last_track r1 = None"
      "\<forall>b. rq_track r1 = Some b \<longrightarrow> length b = hp_ping_pong H \<and> rq_next_track r1 = Some 0"
    using give_recurrent_none [OF sh None tr(1,2) i dlt room [rule_format, OF None]]
    by (elim exE conjE) (rule that; assumption)
  have rank: "req_rank r1 = d" using r1(2) d by (simp add: req_rank_def)
  have tmap: "(if hp_extra_buffer H then (hp_track_map H)[i := track_row (hp_ping_pong H) r1] else hp_track_map H)
      = (hp_track_map H)[i := track_row (hp_ping_pong H) r1]"
  proof (cases "hp_extra_buffer H")
    case False
    then have "track_row (hp_ping_pong H) r1 = hp_track_map H ! i"
      using tr r1(5) by (simp add: track_row_def)
    then show ?thesis using False by simp
  qed simp
  have nz: "0 \<notin> set (take ?n ?F)" using free_slot_pos [OF led dlt] in_set_takeD by fastforce
  have "owned_by d r1 = filter (\<lambda>s. s \<noteq> 0) ([running_slot r1] @ (case rq_track r1 of None \<Rightarrow> [] | Some b \<Rightarrow> b))"
    using rank r1(3) nz unfolding r1(4) [symmetric]
    by (cases "rq_recurrent r1"; cases "rq_track r1") (simp_all add: owned_by_def running_slot_def)
  also have "\<dots> = take ?n ?F" unfolding r1(4) by (rule filter_True) (metis nz)
  finally have own: "owned_by d r1 = take ?n ?F" .
  have own0: "owned_by d r = []" using None tr d by (simp add: owned_by_def)
  have "ledger (H\<lparr>hp_rec_free := (hp_rec_free H)[d := drop ?n ?F],
              hp_rec_map := (hp_rec_map H)[i := running_slot r1],
              hp_track_map := (hp_track_map H)[i := track_row (hp_ping_pong H) r1]\<rparr>) (add_mset r1 L) (T(d := T d))"
  proof (rule ledger_trade [OF led i(1) d r1(1) rank])
    have "track_owned r1" using nz unfolding r1(4) [symmetric] by (auto simp: track_owned_def)
    then show "track_ok H r1" using r1(3,5,6,7) sh unfolding track_ok_def by (auto simp: pool_shape_def)
    have "mset (take ?n ?F) + mset (drop ?n ?F) = mset ?F" by (metis append_take_drop_id mset_append)
    then show "mset (drop ?n ?F) + mset (owned_by d r1) + T d = mset ?F + mset (owned_by d r) + T d"
      by (simp add: own own0 union_commute)
  qed
  then have led1: "ledger (H\<lparr>hp_rec_free := (hp_rec_free H)[d := drop ?n ?F],
              hp_rec_map := (hp_rec_map H)[i := running_slot r1],
              hp_track_map := (hp_track_map H)[i := track_row (hp_ping_pong H) r1]\<rparr>) (add_mset r1 L) T" by simp
  show ?thesis
    using run [unfolded tmap] led1 r1 rank i None sh dlt
    by (auto simp: request_owned_slots_def pool_shape_def)
qed

lemma give_recurrents_ledger:
  assumes "ledger H (mset rs + L) T" "\<forall>r \<in> set rs. req_rank r = d"
    and "request_owned_slots H * length (filter (\<lambda>r. rq_recurrent r = None) rs) \<le> length (hp_rec_free H ! d)"
  shows "\<exists>rs1 H1. give_recurrents d rs H = Inr (rs1, H1) \<and> ledger H1 (mset rs1 + L) T
    \<and> map rq_pool_idx rs1 = map rq_pool_idx rs \<and> (\<forall>r \<in> set rs1. req_rank r = d \<and> rq_recurrent r \<noteq> None)"
  using assms
proof (induction rs arbitrary: H L)
  case (Cons r rs)
  have a: "ledger H (add_mset r (mset rs + L)) T" using Cons.prems(1) by simp
  have b: "req_rank r = d" using Cons.prems(2) by simp
  have c: "rq_recurrent r = None \<longrightarrow> request_owned_slots H \<le> length (hp_rec_free H ! d)"
    using Cons.prems(3) by auto
  obtain r1 H1 where one: "give_recurrent d r H = Inr (r1, H1)" "ledger H1 (add_mset r1 (mset rs + L)) T"
    "rq_pool_idx r1 = rq_pool_idx r" "req_rank r1 = d" "rq_recurrent r1 \<noteq> None"
    "request_owned_slots H1 = request_owned_slots H"
    "length (hp_rec_free H1 ! d)
        = length (hp_rec_free H ! d) - (if rq_recurrent r = None then request_owned_slots H else 0)"
    using give_recurrent_ledger [OF a b c] by (elim exE conjE) (rule that; assumption)
  have "ledger H1 (mset rs + add_mset r1 L) T" using one(2) by simp
  moreover have "\<forall>r \<in> set rs. req_rank r = d" using Cons.prems(2) by simp
  moreover have "request_owned_slots H1 * length (filter (\<lambda>r. rq_recurrent r = None) rs) \<le> length (hp_rec_free H1 ! d)"
    using Cons.prems(3) by (cases "rq_recurrent r") (simp_all add: one(6,7))
  ultimately obtain rs1 H2 where "give_recurrents d rs H1 = Inr (rs1, H2)" "ledger H2 (mset rs1 + add_mset r1 L) T"
    "map rq_pool_idx rs1 = map rq_pool_idx rs" "\<forall>r \<in> set rs1. req_rank r = d \<and> rq_recurrent r \<noteq> None"
    using Cons.IH by blast
  then show ?case using one by (intro exI [of _ "r1 # rs1"] exI [of _ H2]) simp
qed auto

text \<open>The request slots: each request without one gets the next selected slot, the others keep theirs.\<close>

definition has_idx :: "pool_req \<Rightarrow> bool" where
  "has_idx r \<longleftrightarrow> rq_pool_idx r \<noteq> None"

lemma give_slots_split:
  assumes "length sel = length (filter (Not \<circ> has_idx) rs)"
  shows "mset (give_slots rs sel) = mset (filter has_idx rs)
      + mset (map2 (\<lambda>r s. r\<lparr>rq_pool_idx := Some s\<rparr>) (filter (Not \<circ> has_idx) rs) sel)"
  using assms
proof (induction rs arbitrary: sel)
  case (Cons r rs)
  then show ?case by (cases sel) (auto simp: has_idx_def split: option.splits)
qed simp

lemma give_slots_same: "map (\<lambda>r. r\<lparr>rq_pool_idx := x\<rparr>) (give_slots rs sel) = map (\<lambda>r. r\<lparr>rq_pool_idx := x\<rparr>) rs"
  by (induction rs arbitrary: sel) (auto split: option.splits list.splits)

lemma give_slots_fields:
  "map rq_recurrent (give_slots rs sel) = map rq_recurrent rs" "map req_rank (give_slots rs sel) = map req_rank rs"
  by (induction rs arbitrary: sel) (auto simp: req_rank_def split: option.splits list.splits)

text \<open>A request that enters the pool: no slots yet.\<close>

definition fresh_req :: "nat \<Rightarrow> pool_req \<Rightarrow> bool" where
  "fresh_req d r \<longleftrightarrow> rq_pool_idx r = None \<and> rq_recurrent r = None \<and> rq_track r = None
     \<and> rq_last_track r = None \<and> req_rank r = d"

lemma held_given:
  assumes "length sel = length rs"
  shows "held (mset (map2 (\<lambda>r s. r\<lparr>rq_pool_idx := Some s\<rparr>) rs sel)) = mset sel"
  using assms by (induction sel rs rule: list_induct2) (auto simp: held_idx_def)

lemma owned_given:
  assumes "length sel = length rs" "\<forall>r \<in> set rs. fresh_req d r"
  shows "owned e (mset (map2 (\<lambda>r s. r\<lparr>rq_pool_idx := Some s\<rparr>) rs sel)) = {#}"
  using assms by (induction sel rs rule: list_induct2) (auto simp: owned_by_def fresh_req_def)

lemma give_slots_ledger:
  assumes led: "ledger H (mset (filter has_idx reqs) + L) T" and d: "d < hp_dp_size H"
    and fresh: "\<forall>r \<in> set reqs. \<not> has_idx r \<longrightarrow> fresh_req d r"
    and n: "n = length (filter (Not \<circ> has_idx) reqs)" "n \<le> length (rp_free (hp_base H))"
  shows "ledger (H\<lparr>hp_base := (hp_base H)\<lparr>rp_free := drop n (rp_free (hp_base H))\<rparr>\<rparr>)
           (mset (give_slots reqs (take n (rp_free (hp_base H)))) + L) T" (is "ledger ?H1 _ _")
proof -
  let ?F = "rp_free (hp_base H)" and ?fresh = "filter (Not \<circ> has_idx) reqs"
  let ?new = "map2 (\<lambda>r s. r\<lparr>rq_pool_idx := Some s\<rparr>) ?fresh (take n ?F)"
  have len: "length (take n ?F) = length ?fresh" using n by simp
  have fr: "\<forall>r \<in> set ?fresh. fresh_req d r" using fresh by auto
  note split = give_slots_split [OF len]
  have newok: "req_ok ?H1 r \<and> track_owned r" if r: "r \<in> set ?new" for r
  proof -
    obtain q s where zip: "(q, s) \<in> set (zip ?fresh (take n ?F))" and req: "r = q\<lparr>rq_pool_idx := Some s\<rparr>"
      using r by auto
    have q: "q \<in> set ?fresh" by (rule set_zip_leftD [OF zip])
    have s: "s \<in> set (take n ?F)" by (rule set_zip_rightD [OF zip])
    have "s < rp_size (hp_base H)"
      using mset_upt_part(2) [OF ledgerD(3) [OF led], of s] s by (auto dest: in_set_takeD)
    moreover have "hp_rec_map H ! s = 0 \<and> hp_track_map H ! s = replicate (hp_ping_pong H) 0"
      using ledgerD(5) [OF led] s by (meson in_set_takeD)
    moreover have "fresh_req d q" using fr q by blast
    ultimately show ?thesis using d by (simp add: req req_ok_def track_owned_def fresh_req_def running_slot_def track_row_def req_rank_def)
  qed
  have oldok: "req_ok ?H1 r \<and> track_owned r" if "r \<in># mset (filter has_idx reqs) + L" for r
    using ledgerD(2,6) [OF led that] by (simp add: req_ok_def)
  have part: "mset (take n ?F) + mset (drop n ?F) = mset ?F" by (metis append_take_drop_id mset_append)
  show ?thesis
    unfolding ledger_def split
  proof (intro conjI)
    show "pool_shape ?H1" using ledgerD(1) [OF led] by (simp add: pool_shape_def)
    have "mset (drop n ?F) + held (mset (filter has_idx reqs) + mset ?new + L)
        = (mset (take n ?F) + mset (drop n ?F)) + (held (mset (filter has_idx reqs)) + held L)"
      unfolding held_simps held_given [OF len] by (simp only: ac_simps)
    also have "\<dots> = mset [0..<rp_size (hp_base H)]"
      unfolding part using ledgerD(3) [OF led] by (simp only: held_simps)
    finally show "mset (rp_free (hp_base ?H1)) + held (mset (filter has_idx reqs) + mset ?new + L) = mset [0..<rp_size (hp_base ?H1)]"
      by simp
    show "\<forall>e<hp_dp_size ?H1. mset (hp_rec_free ?H1 ! e) + owned e (mset (filter has_idx reqs) + mset ?new + L) + T e
        = mset [1..<Suc (hp_slots_per_rank ?H1)]"
      using ledgerD(4) [OF led] owned_given [OF len fr] by simp
    show "\<forall>r. r \<in># mset (filter has_idx reqs) + mset ?new + L \<longrightarrow> req_ok ?H1 r \<and> track_owned r"
      using newok oldok by (metis set_mset_mset union_iff)
    show "\<forall>k \<in> set (rp_free (hp_base ?H1)). hp_rec_map ?H1 ! k = 0
        \<and> hp_track_map ?H1 ! k = replicate (hp_ping_pong ?H1) 0"
      using ledgerD(5) [OF led] by (simp, meson in_set_dropD)
  qed
qed

text \<open>A batch as the scheduler passes it: one rank, at most one continued request, which is a live
  request that has work behind it, and fresh requests.\<close>

definition batch_ok :: "pool_req list \<Rightarrow> nat \<Rightarrow> bool" where
  "batch_ok reqs d \<longleftrightarrow> (\<forall>r \<in> set reqs. req_rank r = d \<and> (\<not> has_idx r \<longrightarrow> fresh_req d r)
       \<and> (has_idx r \<longrightarrow> 0 < rq_is_chunked r \<or> 0 < rq_committed_len r))
     \<and> length (filter has_idx reqs) \<le> 1"

definition slots_short :: "pool_req list \<Rightarrow> nat \<Rightarrow> hybrid_pool \<Rightarrow> bool" where
  "slots_short reqs d H \<longleftrightarrow>
     length (hp_rec_free H ! d) < request_owned_slots H * length (filter (\<lambda>r. rq_recurrent r = None) reqs)
   \<or> length (rp_free (hp_base H)) < length (filter (Not \<circ> has_idx) reqs)"

lemma length_filter_has_idx:
  "length reqs - length (filter has_idx reqs) = length (filter (Not \<circ> has_idx) reqs)"
  using sum_length_filter_compl [of has_idx reqs] by (simp add: comp_def)

lemma pool_alloc_eq:
  assumes "batch_ok reqs d"
  shows "pool_alloc reqs P =
    (let n = length (filter (Not \<circ> has_idx) reqs); rs = give_slots reqs (take n (rp_free P)) in
     if length (rp_free P) < n then Inr (None, reqs, P)
     else Inr (Some (map rq_pool_idx rs), rs, P\<lparr>rp_free := drop n (rp_free P)\<rparr>))"
proof -
  have chunked: "filter (\<lambda>r. rq_pool_idx r \<noteq> None) reqs = filter has_idx reqs"
    by (rule filter_cong) (auto simp: has_idx_def)
  have "list_all (\<lambda>r. 0 < rq_is_chunked r \<or> 0 < rq_committed_len r) (filter has_idx reqs)"
    "\<not> 1 < length (filter has_idx reqs)"
    using assms by (auto simp: batch_ok_def list_all_iff)
  then show ?thesis
    unfolding pool_alloc_def chunked Let_def length_filter_has_idx by simp
qed

lemma batch_rank: "batch_ok reqs d \<Longrightarrow> reqs \<noteq> [] \<Longrightarrow> (case reqs of [] \<Rightarrow> 0 | r # _ \<Rightarrow> req_rank r) = d"
  by (cases reqs) (auto simp: batch_ok_def)

text \<open>The outcome of \<open>alloc\<close> on the ledger: refused with nothing changed exactly when a free list is
  too short, and otherwise every request of the batch has its slots.\<close>

lemma hybrid_alloc_ledger:
  assumes led: "ledger H (mset (filter has_idx reqs) + L) T" and d: "d < hp_dp_size H"
    and ok: "batch_ok reqs d" and ne: "reqs \<noteq> []"
  shows "(slots_short reqs d H \<longrightarrow> hybrid_alloc reqs H = Inr (None, reqs, H))
    \<and> (\<not> slots_short reqs d H \<longrightarrow> (\<exists>rs H1. hybrid_alloc reqs H = Inr (Some (map rq_pool_idx rs), rs, H1)
         \<and> ledger H1 (mset rs + L) T \<and> length rs = length reqs
         \<and> (\<forall>r \<in> set rs. has_idx r \<and> rq_recurrent r \<noteq> None \<and> req_rank r = d)))"
proof -
  let ?F = "rp_free (hp_base H)" and ?n = "length (filter (Not \<circ> has_idx) reqs)"
  define rs0 where "rs0 = give_slots reqs (take ?n ?F)"
  define H0 where "H0 = H\<lparr>hp_base := (hp_base H)\<lparr>rp_free := drop ?n ?F\<rparr>\<rparr>"
  have get: "np_get (hp_rec_free H) (int d) = Inr (hp_rec_free H ! d)"
    using ledgerD(1) [OF led] d by (simp add: pool_shape_def)
  note run = hybrid_alloc_def [of reqs H, unfolded Let_def batch_rank [OF ok ne] pool_alloc_eq [OF ok] get rbind_Inr,
      folded rs0_def H0_def]
  show ?thesis
  proof (intro conjI impI)
    assume "slots_short reqs d H"
    then show "hybrid_alloc reqs H = Inr (None, reqs, H)" unfolding run slots_short_def by auto
  next
    assume ns: "\<not> slots_short reqs d H"
    have fresh: "\<forall>r \<in> set reqs. \<not> has_idx r \<longrightarrow> fresh_req d r" using ok by (auto simp: batch_ok_def)
    have led0: "ledger H0 (mset rs0 + L) T"
      unfolding rs0_def H0_def
      by (rule give_slots_ledger [OF led d fresh refl]) (use ns in \<open>simp add: slots_short_def\<close>)
    have fields: "map rq_recurrent rs0 = map rq_recurrent reqs" "map req_rank rs0 = map req_rank reqs"
      unfolding rs0_def by (rule give_slots_fields)+
    have ranks: "\<forall>r \<in> set rs0. req_rank r = d"
    proof -
      have "req_rank ` set rs0 = req_rank ` set reqs" using fields(2) by (metis list.set_map)
      then show ?thesis using ok by (auto simp: batch_ok_def)
    qed
    have "length (filter (\<lambda>r. rq_recurrent r = None) rs0) = length (filter (\<lambda>x. x = None) (map rq_recurrent rs0))"
      by (simp add: filter_map comp_def)
    also have "\<dots> = length (filter (\<lambda>r. rq_recurrent r = None) reqs)"
      unfolding fields by (simp add: filter_map comp_def)
    finally have cnt: "length (filter (\<lambda>r. rq_recurrent r = None) rs0) = length (filter (\<lambda>r. rq_recurrent r = None) reqs)" .
    have room: "request_owned_slots H0 * length (filter (\<lambda>r. rq_recurrent r = None) rs0) \<le> length (hp_rec_free H0 ! d)"
      using ns unfolding cnt by (simp add: slots_short_def H0_def request_owned_slots_def split: if_splits)
    obtain rs H1 where rs: "give_recurrents d rs0 H0 = Inr (rs, H1)" "ledger H1 (mset rs + L) T"
      "map rq_pool_idx rs = map rq_pool_idx rs0" "\<forall>r \<in> set rs. req_rank r = d \<and> rq_recurrent r \<noteq> None"
      using give_recurrents_ledger [OF led0 ranks room] by blast
    have "hybrid_alloc reqs H = Inr (Some (map rq_pool_idx rs), rs, H1)"
      using ns rs(1) unfolding run slots_short_def by (simp add: rs(3) H0_def [symmetric] rs0_def [symmetric])
    moreover have "length rs = length reqs" using rs(3) fields by (metis length_map)
    moreover have "has_idx r" if "r \<in> set rs" for r
      using ledgerD(2) [OF rs(2), of r] that by (auto simp: req_ok_def has_idx_def)
    ultimately show "\<exists>rs H1. hybrid_alloc reqs H = Inr (Some (map rq_pool_idx rs), rs, H1)
         \<and> ledger H1 (mset rs + L) T \<and> length rs = length reqs
         \<and> (\<forall>r \<in> set rs. has_idx r \<and> rq_recurrent r \<noteq> None \<and> req_rank r = d)"
      using rs by blast
  qed
qed

section \<open>Release, commit, donation and eviction\<close>

lemma free_track_loop:
  assumes "d < length (hp_rec_free H)"
  shows "for_m (\<lambda>s H. if s = 0 then Inr H else free_recurrent_slot s d H) buf H
    = Inr (H\<lparr>hp_rec_free := (hp_rec_free H)[d := hp_rec_free H ! d @ filter (\<lambda>s. s \<noteq> 0) buf]\<rparr>)"
  using assms by (induction buf arbitrary: H) (auto simp: free_recurrent_slot_def)

text \<open>\<open>free_recurrent_cache\<close> returns everything the request owns and clears its entries.\<close>

lemma free_recurrent_cache_eq:
  assumes "pool_shape H" "req_ok H r" "rq_pool_idx r = Some i" "req_rank r = d"
  shows "free_recurrent_cache r H =
    Inr (r\<lparr>rq_recurrent := None, rq_track := None,
           rq_next_track := (if rq_track r = None then rq_next_track r else None),
           rq_last_track := (if rq_track r = None then rq_last_track r else None)\<rparr>,
         H\<lparr>hp_rec_free := (hp_rec_free H)[d := hp_rec_free H ! d @ owned_by d r],
           hp_rec_map := (hp_rec_map H)[i := 0],
           hp_track_map := (hp_track_map H)[i := replicate (hp_ping_pong H) 0]\<rparr>)"
proof -
  note sh = assms(1) [unfolded pool_shape_def]
  have ok: "i < rp_size (hp_base H)" "d < hp_dp_size H" "hp_rec_map H ! i = running_slot r"
    "hp_track_map H ! i = track_row (hp_ping_pong H) r" "rq_recurrent r = None \<longrightarrow> rq_track r = None"
    using assms(2,3,4) by (auto simp: req_ok_def)
  show ?thesis
  proof (cases "rq_recurrent r")
    case None
    then have "rq_track r = None" using ok(5) by simp
    moreover have "(hp_rec_map H)[i := 0] = hp_rec_map H" "(hp_track_map H)[i := replicate (hp_ping_pong H) 0] = hp_track_map H"
      using ok(3,4) None calculation by (metis list_update_id running_slot_def track_row_def option.case(1))+
    ultimately show ?thesis using None assms(4)
      by (simp add: free_recurrent_cache_def free_running_slot_def free_track_slots_def owned_by_def)
  next
    case (Some s)
    show ?thesis
    proof (cases "rq_track r")
      case None
      moreover have "(hp_track_map H)[i := replicate (hp_ping_pong H) 0] = hp_track_map H"
        using ok(4) None by (metis list_update_id track_row_def option.case(1))
      ultimately show ?thesis using Some assms(3,4) sh ok
        by (simp add: free_recurrent_cache_def free_running_slot_def free_track_slots_def owned_by_def
          free_recurrent_slot_def np_assign_def)
    next
      case (Some b)
      then show ?thesis using \<open>rq_recurrent r = Some s\<close> assms(3,4) sh ok
        by (simp add: free_recurrent_cache_def free_running_slot_def free_track_slots_def owned_by_def
          free_recurrent_slot_def np_assign_def req_rank_def free_track_loop)
    qed
  qed
qed

lemma free_recurrent_cache_ledger:
  assumes led: "ledger H (add_mset r L) T"
  shows "\<exists>r1 H1. free_recurrent_cache r H = Inr (r1, H1) \<and> ledger H1 (add_mset r1 L) T
    \<and> rq_pool_idx r1 = rq_pool_idx r \<and> rq_recurrent r1 = None \<and> rq_track r1 = None"
proof -
  have rok: "req_ok H r" using ledgerD(2) [OF led] by simp
  then obtain i where i: "rq_pool_idx r = Some i" by (auto simp: req_ok_def)
  define r1 where "r1 = r\<lparr>rq_recurrent := None, rq_track := None,
           rq_next_track := (if rq_track r = None then rq_next_track r else None),
           rq_last_track := (if rq_track r = None then rq_last_track r else None)\<rparr>"
  let ?d = "req_rank r"
  have f: "rq_pool_idx r1 = Some i" "req_rank r1 = ?d" "rq_recurrent r1 = None" "rq_track r1 = None"
    "running_slot r1 = 0" "track_row n r1 = replicate n 0" "owned_by ?d r1 = []" for n
    by (simp_all add: r1_def i req_rank_def running_slot_def track_row_def owned_by_def)
  have tr: "mset (hp_rec_free H ! ?d @ owned_by ?d r) + mset (owned_by ?d r1) + T ?d
      = mset (hp_rec_free H ! ?d) + mset (owned_by ?d r) + T ?d" by (simp add: f)
  have no: "track_ok H r1"
    using rok by (simp add: track_ok_def track_owned_def f) (simp add: r1_def req_ok_def)
  from ledger_trade [OF led i refl f(1,2) no tr]
  show ?thesis using free_recurrent_cache_eq [OF ledgerD(1) [OF led] rok i refl, folded r1_def] f i by simp
qed

text \<open>\<open>free\<close> on a live request never raises and takes it off the ledger.\<close>

lemma hybrid_free_ledger:
  assumes led: "ledger H (add_mset r L) T"
  shows "\<exists>r1 H1. hybrid_free r H = Inr (r1, H1) \<and> ledger H1 L T \<and> \<not> has_idx r1"
proof -
  obtain r1 H1 where one: "free_recurrent_cache r H = Inr (r1, H1)" "ledger H1 (add_mset r1 L) T"
    "rq_pool_idx r1 = rq_pool_idx r" "rq_recurrent r1 = None" "rq_track r1 = None"
    using free_recurrent_cache_ledger [OF led] by blast
  have rok: "req_ok H1 r1" using ledgerD(2) [OF one(2)] by simp
  then obtain i where i: "rq_pool_idx r1 = Some i" "hp_rec_map H1 ! i = 0"
    "hp_track_map H1 ! i = replicate (hp_ping_pong H1) 0"
    using one(4,5) by (auto simp: req_ok_def running_slot_def track_row_def)
  let ?P = "(hp_base H1)\<lparr>rp_free := rp_free (hp_base H1) @ [i]\<rparr>"
  have run: "hybrid_free r H = Inr (r1\<lparr>rq_pool_idx := None\<rparr>, H1\<lparr>hp_base := ?P\<rparr>)"
    by (simp add: hybrid_free_def pool_free_def one(1) i(1))
  have own: "owned_by d r1 = []" for d using one(4,5) by (simp add: owned_by_def)
  have "ledger (H1\<lparr>hp_base := ?P\<rparr>) L T"
    unfolding ledger_def
  proof (intro conjI)
    show "mset (rp_free (hp_base (H1\<lparr>hp_base := ?P\<rparr>))) + held L = mset [0..<rp_size (hp_base (H1\<lparr>hp_base := ?P\<rparr>))]"
      using ledgerD(3) [OF one(2)] i(1) by (simp add: held_idx_def)
  qed (use ledgerD(1,2,4,5,6) [OF one(2)] own i in \<open>auto simp: pool_shape_def req_ok_def\<close>)
  with run show ?thesis by (auto simp: has_idx_def)
qed

lemma commit_to_tree_ledger:
  assumes led: "ledger H (add_mset r L) T" and tr: "rq_track r = None" and s: "rq_recurrent r = Some s"
  shows "\<exists>r1 H1. commit_to_tree r H = Inr (r1, H1)
    \<and> ledger H1 (add_mset r1 L) (T(req_rank r := add_mset s (T (req_rank r)))) \<and> rq_recurrent r1 = None"
proof -
  have rok: "req_ok H r" using ledgerD(2) [OF led] by simp
  then obtain i where i: "rq_pool_idx r = Some i" "i < rp_size (hp_base H)" and d: "req_rank r < hp_dp_size H"
    and tmap: "hp_track_map H ! i = track_row (hp_ping_pong H) r"
    by (auto simp: req_ok_def)
  note sh = ledgerD(1) [OF led, unfolded pool_shape_def]
  let ?d = "req_rank r" and ?r1 = "r\<lparr>rq_recurrent := None\<rparr>"
  have f: "rq_pool_idx ?r1 = Some i" "req_rank ?r1 = ?d" "running_slot ?r1 = 0" "owned_by ?d ?r1 = []"
    "owned_by ?d r = [s]" "track_row n ?r1 = track_row n r" for n
    using tr s by (simp_all add: i req_rank_def running_slot_def track_row_def owned_by_def)
  have tr': "mset (hp_rec_free H ! ?d) + mset (owned_by ?d ?r1) + add_mset s (T ?d)
      = mset (hp_rec_free H ! ?d) + mset (owned_by ?d r) + T ?d" by (simp add: f)
  have no: "track_ok H ?r1" using rok tr by (simp add: track_ok_def track_owned_def req_ok_def)
  have "hp_track_map H = (hp_track_map H)[i := track_row (hp_ping_pong H) r]"
    by (metis tmap list_update_id)
  then have "H\<lparr>hp_rec_map := (hp_rec_map H)[i := 0]\<rparr> =
      H\<lparr>hp_rec_free := (hp_rec_free H)[?d := hp_rec_free H ! ?d], hp_rec_map := (hp_rec_map H)[i := running_slot ?r1],
        hp_track_map := (hp_track_map H)[i := track_row (hp_ping_pong H) ?r1]\<rparr>"
    by (simp add: f)
  with ledger_trade [OF led i(1) refl f(1,2) no tr']
  have "ledger (H\<lparr>hp_rec_map := (hp_rec_map H)[i := 0]\<rparr>) (add_mset ?r1 L) (T(?d := add_mset s (T ?d)))" by simp
  then show ?thesis using s i sh by (simp add: commit_to_tree_def np_assign_def)
qed

text \<open>Slots that move between the free list and the tree.\<close>

lemma ledger_swap:
  assumes led: "ledger H L T" and d: "d < hp_dp_size H"
    and bal: "mset slots + T1 = mset (hp_rec_free H ! d) + T d"
  shows "ledger (H\<lparr>hp_rec_free := (hp_rec_free H)[d := slots]\<rparr>) L (T(d := T1))" (is "ledger ?H1 _ _")
proof -
  have "mset slots + owned d L + T1 = mset [1..<Suc (hp_slots_per_rank H)]"
  proof -
    have "mset slots + owned d L + T1 = (mset slots + T1) + owned d L" by (simp only: ac_simps)
    also have "\<dots> = mset (hp_rec_free H ! d) + owned d L + T d" unfolding bal by (simp only: ac_simps)
    finally show ?thesis using ledgerD(4) [OF led d] by simp
  qed
  then have rec: "mset (hp_rec_free ?H1 ! e) + owned e L + (T(d := T1)) e = mset [1..<Suc (hp_slots_per_rank H)]"
    if "e < hp_dp_size H" for e
    using ledgerD(4) [OF led that] ledgerD(1) [OF led] d by (cases "e = d") (simp_all add: pool_shape_def)
  have ok: "req_ok ?H1 r" if "r \<in># L" for r using ledgerD(2) [OF led that] by (simp add: req_ok_def)
  show ?thesis
    unfolding ledger_def
  proof (intro conjI)
    show "\<forall>e<hp_dp_size ?H1. mset (hp_rec_free ?H1 ! e) + owned e L + (T(d := T1)) e = mset [1..<Suc (hp_slots_per_rank ?H1)]"
      using rec by simp
    show "\<forall>r. r \<in># L \<longrightarrow> req_ok ?H1 r \<and> track_owned r" using ok ledgerD(6) [OF led] by blast
  qed (use ledgerD(1,3,5) [OF led] in \<open>simp_all add: pool_shape_def\<close>)
qed

lemma alloc_recurrent_slot_ledger:
  assumes led: "ledger H L T" and d: "d < hp_dp_size H"
  shows "alloc_recurrent_slot d H = Inr (None, H) \<and> hp_rec_free H ! d = []
     \<or> (\<exists>s H1. alloc_recurrent_slot d H = Inr (Some s, H1) \<and> ledger H1 L (T(d := add_mset s (T d))) \<and> 0 < s
          \<and> hp_dp_size H1 = hp_dp_size H)"
proof (cases "hp_rec_free H ! d")
  case Nil
  then show ?thesis using ledgerD(1) [OF led] d by (simp add: alloc_recurrent_slot_def pool_shape_def)
next
  case (Cons s rest)
  have "ledger (H\<lparr>hp_rec_free := (hp_rec_free H)[d := rest]\<rparr>) L (T(d := add_mset s (T d)))"
    by (rule ledger_swap [OF led d]) (simp add: Cons)
  moreover have "0 < s" using free_slot_pos [OF led d, of s] Cons by simp
  ultimately show ?thesis using ledgerD(1) [OF led] d Cons by (simp add: alloc_recurrent_slot_def pool_shape_def)
qed

lemma free_recurrent_slot_ledger:
  assumes led: "ledger H L T" and d: "d < hp_dp_size H" and s: "s \<in># T d"
  shows "\<exists>H1. free_recurrent_slot s d H = Inr H1 \<and> ledger H1 L (T(d := T d - {#s#})) \<and> hp_dp_size H1 = hp_dp_size H"
proof -
  have "ledger (H\<lparr>hp_rec_free := (hp_rec_free H)[d := hp_rec_free H ! d @ [s]]\<rparr>) L (T(d := T d - {#s#}))"
    by (rule ledger_swap [OF led d]) (use s in simp)
  then show ?thesis using ledgerD(1) [OF led] d by (simp add: free_recurrent_slot_def pool_shape_def)
qed

lemma free_recurrent_slots_ledger:
  assumes "ledger H L T" "d < hp_dp_size H" "mset ev \<subseteq># T d"
  shows "\<exists>H1. for_m (\<lambda>s. free_recurrent_slot s d) ev H = Inr H1 \<and> ledger H1 L (T(d := T d - mset ev))
    \<and> hp_dp_size H1 = hp_dp_size H"
  using assms
proof (induction ev arbitrary: H T)
  case (Cons s ev)
  have "s \<in># T d" using Cons.prems(3) by (auto dest: mset_subset_eq_insertD)
  then obtain H1 where H1: "free_recurrent_slot s d H = Inr H1" "ledger H1 L (T(d := T d - {#s#}))" "hp_dp_size H1 = hp_dp_size H"
    using free_recurrent_slot_ledger [OF Cons.prems(1,2)] by blast
  have "mset ev \<subseteq># (T(d := T d - {#s#})) d"
    using Cons.prems(3) by (simp add: insert_subset_eq_iff)
  with Cons.IH [OF H1(2)] H1(3) Cons.prems(2)
  obtain H2 where H2: "for_m (\<lambda>s. free_recurrent_slot s d) ev H1 = Inr H2"
    "ledger H2 L ((T(d := T d - {#s#}))(d := T d - {#s#} - mset ev))" "hp_dp_size H2 = hp_dp_size H"
    by (metis fun_upd_same)
  have "(T(d := T d - {#s#}))(d := T d - {#s#} - mset ev) = T(d := T d - mset (s # ev))" by simp
  with H2(2) have "ledger H2 L (T(d := T d - mset (s # ev)))" by (simp only:)
  moreover have "for_m (\<lambda>s. free_recurrent_slot s d) (s # ev) H = Inr H2"
    using H1(1) H2(1) by simp
  ultimately show ?case using H2(3) by blast
qed simp

lemma filter_update_mset:
  assumes "k < length b" "b ! k \<noteq> 0" "s \<noteq> (0::nat)"
  shows "add_mset (b ! k) (mset (filter (\<lambda>x. x \<noteq> 0) (b[k := s]))) = add_mset s (mset (filter (\<lambda>x. x \<noteq> 0) b))"
  using assms by (simp add: mset_filter mset_update)

text \<open>The donation of the keep slot against a replacement \<open>s\<close> that is in flight.\<close>

lemma donate_slot_ledger:
  assumes led: "ledger H (add_mset r L) T" and d: "d = req_rank r" and s: "s \<in># T d" "0 < s"
    and last_t: "rq_last_track r \<noteq> None"
  shows "\<exists>v r1 H1. donate_slot r s H = Inr (v, r1, H1) \<and> ledger H1 (add_mset r1 L) (T(d := add_mset v (T d - {#s#})))
    \<and> req_rank r1 = d \<and> hp_dp_size H1 = hp_dp_size H \<and> hp_extra_buffer H1 = hp_extra_buffer H"
proof -
  have rok: "req_ok H r" and own: "track_owned r" using ledgerD(2,6) [OF led] by simp_all
  then obtain b where b: "rq_track r = Some b" using last_t by (cases "rq_track r") (auto simp: req_ok_def)
  obtain i where i: "rq_pool_idx r = Some i" "i < rp_size (hp_base H)"
    and rec: "hp_rec_map H ! i = running_slot r" and trk: "hp_track_map H ! i = b"
    using rok b by (auto simp: req_ok_def track_row_def)
  obtain k where ex: "hp_extra_buffer H" "length b = hp_ping_pong H" "0 < hp_ping_pong H" "rq_next_track r = Some k"
    using rok b by (auto simp: req_ok_def)
  have runs: "rq_recurrent r \<noteq> None" using rok b by (auto simp: req_ok_def)
  let ?k = "other_idx H k" and ?v = "b ! other_idx H k"
  have k: "?k < length b" using ex by (simp add: other_idx_def)
  have v: "?v \<noteq> 0" using own b nth_mem [OF k] by (metis track_owned_def)
  let ?r1 = "r\<lparr>rq_track := Some (b[?k := s])\<rparr>" and ?m = "(hp_track_map H)[i := b[?k := s]]"
  note sh = ledgerD(1) [OF led, unfolded pool_shape_def]
  have run: "donate_slot r s H = Inr (?v, ?r1, H\<lparr>hp_track_map := ?m\<rparr>)"
    using i ex b k trk sh by (simp add: donate_slot_def keep_idx_def track_at_def set_ping_pong_slot_def)
  have f: "rq_pool_idx ?r1 = Some i" "req_rank ?r1 = d" "running_slot ?r1 = hp_rec_map H ! i"
    "track_row n ?r1 = b[?k := s]" for n
    using i rec by (simp_all add: d req_rank_def running_slot_def track_row_def)
  have tok: "track_ok H ?r1"
    using rok own b ex s(2) runs unfolding track_ok_def track_owned_def req_ok_def
    by (auto dest: set_update_subset_insert [THEN subsetD])
  have "add_mset ?v (mset (owned_by d ?r1)) = add_mset s (mset (owned_by d r))"
    using filter_update_mset [OF k v] s(2) b d f(2) by (cases "rq_recurrent r") (simp_all add: owned_by_def d)
  moreover obtain T0 where T0: "T d = add_mset s T0" using s(1) by (metis insert_DiffM)
  ultimately have bal: "mset (hp_rec_free H ! d) + mset (owned_by d ?r1) + add_mset ?v (T d - {#s#})
      = mset (hp_rec_free H ! d) + mset (owned_by d r) + T d"
    by simp
  have "ledger (H\<lparr>hp_rec_free := (hp_rec_free H)[d := hp_rec_free H ! d], hp_rec_map := (hp_rec_map H)[i := running_slot ?r1],
      hp_track_map := (hp_track_map H)[i := track_row (hp_ping_pong H) ?r1]\<rparr>) (add_mset ?r1 L) (T(d := add_mset ?v (T d - {#s#})))"
    by (rule ledger_trade [OF led i(1) d [symmetric] f(1,2) tok bal])
  then have "ledger (H\<lparr>hp_track_map := ?m\<rparr>) (add_mset ?r1 L) (T(d := add_mset ?v (T d - {#s#})))"
    by (simp only: f(3,4) list_update_id) simp
  with run f(2) show ?thesis by simp
qed

section \<open>Caching a request\<close>

abbreviation opt_mset :: "'a option \<Rightarrow> 'a multiset" where
  "opt_mset v \<equiv> (case v of None \<Rightarrow> {#} | Some x \<Rightarrow> {#x#})"

lemma secure_replacement_ledger:
  assumes led: "ledger H L T" and d: "d < hp_dp_size H" and ev: "mset evicted \<subseteq># T d"
  shows "\<exists>new gone H1. secure_replacement d evicted H = Inr (new, gone, H1)
    \<and> ledger H1 L (T(d := T d - mset gone + opt_mset new)) \<and> mset gone \<subseteq># T d
    \<and> (\<forall>s. new = Some s \<longrightarrow> 0 < s)"
proof -
  consider (none) "alloc_recurrent_slot d H = Inr (None, H)"
    | (slot) s H1 where "alloc_recurrent_slot d H = Inr (Some s, H1)" "ledger H1 L (T(d := add_mset s (T d)))" "0 < s"
    using alloc_recurrent_slot_ledger [OF led d] by blast
  then show ?thesis
  proof cases
    case slot
    then show ?thesis by (simp add: secure_replacement_def)
  next
    case none
    obtain H1 where H1: "for_m (\<lambda>s. free_recurrent_slot s d) evicted H = Inr H1" "ledger H1 L (T(d := T d - mset evicted))"
      "hp_dp_size H1 = hp_dp_size H"
      using free_recurrent_slots_ledger [OF led d ev] by blast
    from alloc_recurrent_slot_ledger [OF H1(2)] H1(3) d
    consider (none2) "alloc_recurrent_slot d H1 = Inr (None, H1)"
      | (slot2) s H2 where "alloc_recurrent_slot d H1 = Inr (Some s, H2)"
          "ledger H2 L (T(d := add_mset s (T d - mset evicted)))" "0 < s"
      by (metis (no_types, lifting) fun_upd_same fun_upd_upd)
    then show ?thesis
    proof cases
      case none2
      then show ?thesis using none H1 ev by (simp add: secure_replacement_def)
    next
      case slot2
      have "add_mset s (T d) - mset evicted = add_mset s (T d - mset evicted)"
        by (metis add_mset_add_single ev subset_mset.add_diff_assoc2)
      with slot2 show ?thesis using none H1 ev by (simp add: secure_replacement_def)
    qed
  qed
qed

lemma prepare_unfinished_ledger:
  assumes led: "ledger H (add_mset r L) T" and d: "d = req_rank r" and ev: "mset evicted \<subseteq># T d"
  shows "\<exists>v cap gone r1 H1. prepare_for_caching_req r False evicted H = Inr (v, cap, gone, r1, H1)
    \<and> ledger H1 (add_mset r1 L) (T(d := T d - mset gone + opt_mset v))
    \<and> req_rank r1 = d \<and> mset gone \<subseteq># T d \<and> hp_extra_buffer H1 = hp_extra_buffer H
    \<and> (v \<noteq> None \<longrightarrow> hp_extra_buffer H)"
proof (cases "hp_extra_buffer H \<and> rq_last_track r \<noteq> None")
  case False
  then show ?thesis using led d by (cases "rq_last_track r") (auto simp: prepare_for_caching_req_def)
next
  case True
  then obtain len where ex: "hp_extra_buffer H" and len: "rq_last_track r = Some len" by blast
  have rok: "req_ok H r" using ledgerD(2) [OF led] by simp
  then have dlt: "d < hp_dp_size H" using d by (simp add: req_ok_def)
  obtain k ks where k: "keep_idx r H = Inr k" "track_at r k = Inr ks"
  proof -
    obtain b where b: "rq_track r = Some b" using rok len by (cases "rq_track r") (auto simp: req_ok_def)
    then obtain n where n: "rq_next_track r = Some n" "length b = hp_ping_pong H" "0 < hp_ping_pong H"
      using rok by (auto simp: req_ok_def)
    then have "other_idx H n < length b" by (simp add: other_idx_def)
    then show ?thesis using that n b by (simp add: keep_idx_def track_at_def)
  qed
  have run: "prepare_for_caching_req r False evicted H = rbind (secure_replacement d evicted H) (\<lambda>(new1, gone, H1).
        case new1 of None \<Rightarrow> Inr (None, Some 0, gone, r, H1)
        | Some s \<Rightarrow> rbind (donate_slot r s H1) (\<lambda>(value, r1, H2). Inr (Some value, Some len, gone, r1, H2)))"
    unfolding prepare_for_caching_req_def using ex len k d by simp
  obtain new gone H1 where sec: "secure_replacement d evicted H = Inr (new, gone, H1)"
    and led1: "ledger H1 (add_mset r L) (T(d := T d - mset gone + opt_mset new))" and sub: "mset gone \<subseteq># T d"
    and pos: "\<forall>s. new = Some s \<longrightarrow> 0 < s"
    using secure_replacement_ledger [OF led dlt ev] by blast
  have exH: "hp_extra_buffer H1"
    using ledgerD(2) [OF led1, of r] len by (cases "rq_track r") (auto simp: req_ok_def)
  show ?thesis
  proof (cases new)
    case None
    then show ?thesis using run sec led1 sub d ex exH by simp
  next
    case (Some s)
    let ?T1 = "T(d := T d - mset gone + {#s#})"
    have led2: "ledger H1 (add_mset r L) ?T1" using led1 Some by simp
    have "s \<in># ?T1 d" "0 < s" "rq_last_track r \<noteq> None" using pos Some len by simp_all
    from donate_slot_ledger [OF led2 d this]
    obtain v r1 H2 where don: "donate_slot r s H1 = Inr (v, r1, H2)"
      "ledger H2 (add_mset r1 L) (?T1(d := add_mset v (?T1 d - {#s#})))" "req_rank r1 = d" "hp_extra_buffer H2 = hp_extra_buffer H1"
      by blast
    have "?T1(d := add_mset v (?T1 d - {#s#})) = T(d := T d - mset gone + opt_mset (Some v))" by simp
    with don(2) have led3: "ledger H2 (add_mset r1 L) (T(d := T d - mset gone + opt_mset (Some v)))" by (simp only:)
    have "prepare_for_caching_req r False evicted H = Inr (Some v, Some len, gone, r1, H2)"
      unfolding run by (simp add: sec Some don(1))
    then show ?thesis using led3 don(3,4) exH ex sub by blast
  qed
qed

lemma cleanup_unfinished_ledger:
  assumes led: "ledger H (add_mset r L) T" and d: "d = req_rank r" and v: "opt_mset v \<subseteq># T d"
    and ex: "v \<noteq> None \<longrightarrow> hp_extra_buffer H" and com: "committed \<longrightarrow> v \<noteq> None"
  shows "\<exists>r1 H1. cleanup_after_caching_req r False committed v H = Inr (r1, H1)
    \<and> ledger H1 (add_mset r1 L) (T(d := T d - (if committed then {#} else opt_mset v)))"
proof -
  have rok: "req_ok H r" using ledgerD(2) [OF led] by simp
  have drop_mark: "ledger G (add_mset (q\<lparr>rq_last_track := None\<rparr>) L) U" if g: "ledger G (add_mset q L) U" for G q U
  proof -
    have "held_idx (q\<lparr>rq_last_track := None\<rparr>) = held_idx q" "owned_by e (q\<lparr>rq_last_track := None\<rparr>) = owned_by e q"
      "track_owned (q\<lparr>rq_last_track := None\<rparr>) = track_owned q" "req_ok G q \<Longrightarrow> req_ok G (q\<lparr>rq_last_track := None\<rparr>)" for e
      by (simp_all add: held_idx_def owned_by_def track_owned_def req_ok_def req_rank_def running_slot_def track_row_def)
    then show ?thesis using g by (simp add: ledger_def)
  qed
  show ?thesis
  proof (cases v)
    case None
    then show ?thesis using led com by (simp add: cleanup_after_caching_req_def)
  next
    case (Some x)
    show ?thesis
    proof (cases committed)
      case True
      then show ?thesis using drop_mark [OF led] ex Some by (simp add: cleanup_after_caching_req_def)
    next
      case False
      have "d < hp_dp_size H" "x \<in># T d" using rok d v Some by (simp_all add: req_ok_def)
      then obtain H1 where "free_recurrent_slot x d H = Inr H1" "ledger H1 (add_mset r L) (T(d := T d - {#x#}))"
        using free_recurrent_slot_ledger [OF led] by blast
      then show ?thesis using drop_mark ex Some False d by (simp add: cleanup_after_caching_req_def)
    qed
  qed
qed

lemma set_zero_free_ledger:
  assumes led: "ledger H (add_mset r L) T" and d: "d = req_rank r"
    and k: "keep_idx r H = Inr k" "track_at r k = Inr v"
  shows "\<exists>r1 H1 r2 H2. set_ping_pong_slot r k 0 H = Inr (r1, H1) \<and> free_recurrent_cache r1 H1 = Inr (r2, H2)
    \<and> ledger H2 (add_mset r2 L) (T(d := add_mset v (T d)))"
proof -
  have rok: "req_ok H r" and own: "track_owned r" using ledgerD(2,6) [OF led] by simp_all
  obtain b n where b: "rq_track r = Some b" "np_get b (int k) = Inr v" "rq_next_track r = Some n" "k = other_idx H n"
    "0 < hp_ping_pong H"
    using k by (auto simp: track_at_def keep_idx_def split: option.splits if_splits)
  obtain i where i: "rq_pool_idx r = Some i" "i < rp_size (hp_base H)" "d < hp_dp_size H"
    and rec: "hp_rec_map H ! i = running_slot r" "hp_track_map H ! i = b" "length b = hp_ping_pong H"
    using rok b(1) d by (auto simp: req_ok_def track_row_def)
  have runs: "rq_recurrent r \<noteq> None" using rok b by (auto simp: req_ok_def)
  have kb: "k < length b" using b(4,5) rec(3) by (simp add: other_idx_def)
  then have v: "v = b ! k" using b(2) by simp
  have vnz: "v \<noteq> 0" using own b(1) nth_mem [OF kb] v by (metis track_owned_def)
  note sh = ledgerD(1) [OF led]
  let ?r1 = "r\<lparr>rq_track := Some (b[k := 0])\<rparr>" and ?H1 = "H\<lparr>hp_track_map := (hp_track_map H)[i := b[k := 0]]\<rparr>"
  have run1: "set_ping_pong_slot r k 0 H = Inr (?r1, ?H1)"
    using b i rec kb sh by (simp add: set_ping_pong_slot_def pool_shape_def)
  have ok1: "pool_shape ?H1" "req_ok ?H1 ?r1" "rq_pool_idx ?r1 = Some i" "req_rank ?r1 = d"
    using sh rok i b(1) d by (auto simp: pool_shape_def req_ok_def running_slot_def track_row_def req_rank_def)
  define r2 where "r2 = ?r1\<lparr>rq_recurrent := None, rq_track := None, rq_next_track := None, rq_last_track := None\<rparr>"
  have run2: "free_recurrent_cache ?r1 ?H1 = Inr (r2,
      H\<lparr>hp_rec_free := (hp_rec_free H)[d := hp_rec_free H ! d @ owned_by d ?r1],
        hp_rec_map := (hp_rec_map H)[i := 0], hp_track_map := (hp_track_map H)[i := replicate (hp_ping_pong H) 0]\<rparr>)"
    using free_recurrent_cache_eq [OF ok1] by (simp add: r2_def)
  have f: "rq_pool_idx r2 = Some i" "req_rank r2 = d" "track_ok H r2" "running_slot r2 = 0"
    "track_row m r2 = replicate m 0" "owned_by d r2 = []" for m
    using i d by (simp_all add: r2_def req_rank_def track_ok_def track_owned_def running_slot_def track_row_def owned_by_def)
  have "add_mset v (mset (filter (\<lambda>x. x \<noteq> 0) (b[k := 0]))) = mset (filter (\<lambda>x. x \<noteq> 0) b)"
    using kb vnz unfolding v by (simp add: mset_filter mset_update)
  then have "add_mset v (mset (owned_by d ?r1)) = mset (owned_by d r)"
    using runs b(1) d ok1(4) by (auto simp: owned_by_def)
  then have bal: "mset (hp_rec_free H ! d @ owned_by d ?r1) + mset (owned_by d r2) + add_mset v (T d)
      = mset (hp_rec_free H ! d) + mset (owned_by d r) + T d"
    unfolding f(6) by (metis (no_types, lifting) add.assoc add.right_neutral mset.simps(1) mset_append union_mset_add_mset_left union_mset_add_mset_right)
  from ledger_trade [OF led i(1) d [symmetric] f(1,2,3) bal] run1 run2 f(4,5) show ?thesis by auto
qed

lemma prepare_finished_eq:
  assumes led: "ledger H (add_mset r L) T" and run: "prepare_for_caching_req r True evicted H = Inr (v, cap, gone, r1, H1)"
  shows "gone = []" "r1 = r" "H1 = H"
    "v = Some s \<Longrightarrow> \<not> hp_extra_buffer H \<Longrightarrow> rq_recurrent r = Some s"
    "v = Some s \<Longrightarrow> hp_extra_buffer H \<Longrightarrow> \<exists>k. keep_idx r H = Inr k \<and> track_at r k = Inr s"
  using run by (auto simp: prepare_for_caching_req_def rbind_eq_Inr_iff split: if_splits option.splits)

lemma cleanup_finished_ledger:
  assumes led: "ledger H (add_mset r L) T" and d: "d = req_rank r"
    and v: "\<And>s. v = Some s \<Longrightarrow> \<not> hp_extra_buffer H \<Longrightarrow> rq_recurrent r = Some s"
      "\<And>s. v = Some s \<Longrightarrow> hp_extra_buffer H \<Longrightarrow> \<exists>k. keep_idx r H = Inr k \<and> track_at r k = Inr s"
    and com: "committed \<longrightarrow> v \<noteq> None"
  shows "\<exists>r1 H1. cleanup_after_caching_req r True committed v H = Inr (r1, H1)
    \<and> ledger H1 (add_mset r1 L) (T(d := T d + (if committed then opt_mset v else {#})))"
proof (cases committed)
  case False
  then show ?thesis using led free_recurrent_cache_ledger [OF led]
    by (cases "hp_extra_buffer H") (auto simp: cleanup_after_caching_req_def)
next
  case True
  then obtain s where s: "v = Some s" using com by blast
  show ?thesis
  proof (cases "hp_extra_buffer H")
    case ex: True
    then obtain k where k: "keep_idx r H = Inr k" "track_at r k = Inr s" using v(2) s by blast
    from set_zero_free_ledger [OF led d k] show ?thesis
      using True ex s k by (auto simp: cleanup_after_caching_req_def)
  next
    case False
    have "req_ok H r" using ledgerD(2) [OF led] by simp
    then have "rq_track r = None" using False by (cases "rq_track r") (auto simp: req_ok_def)
    from commit_to_tree_ledger [OF led this v(1) [OF s False]] show ?thesis
      using True False s d by (auto simp: cleanup_after_caching_req_def)
  qed
qed

section \<open>Reachable pools\<close>

text \<open>What the scheduler and the tree cache do with the pool, with the live requests and the slots the
  tree holds per rank beside it.\<close>

type_synonym pool_state = "hybrid_pool \<times> pool_req multiset \<times> (nat \<Rightarrow> nat multiset)"

inductive pool_step :: "pool_state \<Rightarrow> pool_state \<Rightarrow> bool" where
  alloc: "\<lbrakk>reqs \<noteq> []; batch_ok reqs d; d < hp_dp_size H; hybrid_alloc reqs H = Inr (res, rs, H1)\<rbrakk> \<Longrightarrow>
    pool_step (H, mset (filter has_idx reqs) + L, T)
      (H1, (if res = None then mset (filter has_idx reqs) else mset rs) + L, T)"
| release: "hybrid_free r H = Inr (r1, H1) \<Longrightarrow> pool_step (H, add_mset r L, T) (H1, L, T)"
| track: "recurrent_track_entry r n interval ext len H = Inr (e, r1) \<Longrightarrow>
    pool_step (H, add_mset r L, T) (H, add_mset r1 L, T)"
| cache: "\<lbrakk>d = req_rank r; mset evicted \<subseteq># T d;
    prepare_for_caching_req r fin evicted H = Inr (v, cap, gone, r1, H1); committed \<longrightarrow> v \<noteq> None;
    cleanup_after_caching_req r1 fin committed v H1 = Inr (r2, H2)\<rbrakk> \<Longrightarrow>
    pool_step (H, add_mset r L, T)
      (H2, add_mset r2 L, T(d := T d - mset gone + (if committed then opt_mset v else {#})))"
| evict: "\<lbrakk>d < hp_dp_size H; s \<in># T d; free_recurrent_slot s d H = Inr H1\<rbrakk> \<Longrightarrow>
    pool_step (H, L, T) (H1, L, T(d := T d - {#s#}))"
| clear: "pool_step (H, L, T) (hybrid_clear H, {#}, \<lambda>_. {#})"

definition ledger_state :: "pool_state \<Rightarrow> bool" where
  "ledger_state = (\<lambda>(H, L, T). ledger H L T)"

lemma track_entry_ledger:
  assumes led: "ledger H (add_mset r L) T" and run: "recurrent_track_entry r n interval ext len H = Inr (e, r1)"
  shows "ledger H (add_mset r1 L) T"
proof -
  have rok: "req_ok H r" and own: "track_owned r" using ledgerD(2,6) [OF led] by simp_all
  have "r1 = r \<or> (\<exists>k b. rq_next_track r = Some k \<and> rq_track r = Some b \<and> 0 < hp_ping_pong H
      \<and> r1 = r\<lparr>rq_last_track := Some n, rq_next_track := Some (other_idx H k)\<rparr>)"
    using run unfolding recurrent_track_entry_def
    by (cases "rq_next_track r"; cases "rq_track r")
      (auto simp: track_at_def rbind_eq_Inr_iff split: if_splits)
  then consider "r1 = r" | k b where "rq_next_track r = Some k" "rq_track r = Some b" "0 < hp_ping_pong H"
      "r1 = r\<lparr>rq_last_track := Some n, rq_next_track := Some (other_idx H k)\<rparr>"
    by (elim disjE exE conjE) (rule that; assumption)+
  then show ?thesis
  proof cases
    case 1
    with led show ?thesis by simp
  next
    case 2
    have "held_idx r1 = held_idx r" "owned_by d r1 = owned_by d r" for d
      using 2 by (simp_all add: held_idx_def owned_by_def req_rank_def)
    moreover have "req_ok H r1" "track_owned r1"
      using rok own 2 by (auto simp: req_ok_def track_owned_def running_slot_def track_row_def req_rank_def other_idx_def)
    ultimately show ?thesis using led by (simp add: ledger_def)
  qed
qed

lemma clear_ledger: "ledger H L T \<Longrightarrow> ledger (hybrid_clear H) {#} (\<lambda>_. {#})"
  by (auto simp: ledger_def hybrid_clear_def pool_clear_def pool_shape_def)

lemma init_ledger:
  assumes "hybrid_init n ctx state_size dp extra pp = Inr H" "extra \<longrightarrow> 0 < pp"
  shows "ledger H {#} (\<lambda>_. {#})"
  using assms by (auto simp: ledger_def hybrid_init_def req_pool_init_def pool_shape_def split: if_splits)

lemma pool_step_ledger:
  assumes "pool_step S S1" "ledger_state S"
  shows "ledger_state S1"
  using assms
proof (induction rule: pool_step.induct)
  case (alloc reqs d H res rs H1 L T)
  then have led: "ledger H (mset (filter has_idx reqs) + L) T" by (simp add: ledger_state_def)
  show ?case
    using hybrid_alloc_ledger [OF led alloc(3,2,1)] alloc(4) led by (auto simp: ledger_state_def)
next
  case (release r H r1 H1 L T)
  then show ?case using hybrid_free_ledger [of H r L T] by (auto simp: ledger_state_def)
next
  case (track r n interval ext len H e r1 L T)
  then show ?case using track_entry_ledger by (auto simp: ledger_state_def)
next
  case (cache d r evicted T fin H v cap gone r1 H1 committed r2 H2 L)
  then have led: "ledger H (add_mset r L) T" by (simp add: ledger_state_def)
  show ?case
  proof (cases fin)
    case True
    have prep: "prepare_for_caching_req r True evicted H = Inr (v, cap, gone, r1, H1)" using cache(3) True by simp
    note p = prepare_finished_eq [OF led prep]
    from cleanup_finished_ledger [OF led cache(1) p(4,5) cache(4)] cache(5) True
    show ?thesis unfolding p(1,2,3) ledger_state_def by simp
  next
    case False
    obtain led1: "ledger H1 (add_mset r1 L) (T(d := T d - mset gone + opt_mset v))" and
      r1: "req_rank r1 = d" and ex: "v \<noteq> None \<longrightarrow> hp_extra_buffer H1"
      using prepare_unfinished_ledger [OF led cache(1,2)] cache(3) False by auto
    let ?T1 = "T(d := T d - mset gone + opt_mset v)"
    have sub: "opt_mset v \<subseteq># ?T1 d" by simp
    have cl: "cleanup_after_caching_req r1 False committed v H1 = Inr (r2, H2)" using cache(5) False by simp
    obtain q G where "cleanup_after_caching_req r1 False committed v H1 = Inr (q, G)"
      "ledger G (add_mset q L) (?T1(d := ?T1 d - (if committed then {#} else opt_mset v)))"
      using cleanup_unfinished_ledger [OF led1 r1 [symmetric] sub ex cache(4)] by blast
    with cl have "ledger H2 (add_mset r2 L) (?T1(d := ?T1 d - (if committed then {#} else opt_mset v)))"
      by (metis Inr_inject Pair_inject)
    moreover have "?T1(d := ?T1 d - (if committed then {#} else opt_mset v))
        = T(d := T d - mset gone + (if committed then opt_mset v else {#}))"
      by simp
    ultimately show ?thesis by (simp only: ledger_state_def prod.case)
  qed
next
  case (evict d H s T H1 L)
  then show ?case using free_recurrent_slot_ledger [of H L T d s] by (auto simp: ledger_state_def)
next
  case (clear H L T)
  then show ?case using clear_ledger by (auto simp: ledger_state_def)
qed

lemma pool_reachable_ledger:
  assumes "pool_step\<^sup>*\<^sup>* S S1" "ledger_state S"
  shows "ledger_state S1"
  using assms by (induction rule: rtranclp_induct) (auto intro: pool_step_ledger)

text \<open>A request that lost its slots cannot be freed a second time.\<close>

lemma hybrid_free_twice:
  assumes "\<not> has_idx r" "rq_recurrent r = None" "rq_track r = None"
  shows "hybrid_free r H = Inl AssertionError"
  using assms
  by (simp add: hybrid_free_def free_recurrent_cache_def free_running_slot_def free_track_slots_def pool_free_def has_idx_def)

lemma hybrid_free_clears:
  assumes "hybrid_free r H = Inr (r1, H1)"
  shows "rq_recurrent r1 = None \<and> rq_track r1 = None"
proof -
  obtain q G q1 G1 where "free_running_slot r H = Inr (q, G)" "free_track_slots q G = Inr (q1, G1)"
    "pool_free q1 (hp_base G1) = Inr (r1, hp_base H1)"
    using assms by (auto simp: hybrid_free_def free_recurrent_cache_def rbind_eq_Inr_iff)
  moreover from this(1) have "rq_recurrent q = None"
    by (auto simp: free_running_slot_def rbind_eq_Inr_iff split: option.splits)
  moreover from calculation have "rq_recurrent q1 = None \<and> rq_track q1 = None"
    by (auto simp: free_track_slots_def rbind_eq_Inr_iff split: option.splits)
  ultimately show ?thesis by (auto simp: pool_free_def split: option.splits)
qed

text \<open>C17. Whatever sequence of allocations, releases, track boundaries, cached requests, tree evictions
  and resets the pool has seen: the free request slots and the slots of the live requests are together
  exactly \<open>0, ..., size - 1\<close>; on every rank the free recurrent slots, the running and track slots of the
  live requests and the slots the tree holds are together exactly \<open>1, ..., slots_per_rank\<close>, so that the
  ledger check \<open>owned + tree_owned + free == slots_per_rank\<close> holds; and the device mappings show each live
  request its own slots.\<close>

theorem pool_slots_conserved:
  assumes "hybrid_init n ctx state_size dp extra pp = Inr H0" "extra \<longrightarrow> 0 < pp"
    and "pool_step\<^sup>*\<^sup>* (H0, {#}, \<lambda>_. {#}) (H, mset live, T)" and "d < hp_dp_size H"
  shows "mset (rp_free (hp_base H)) + held (mset live) = mset [0..<rp_size (hp_base H)]
    \<and> mset (hp_rec_free H ! d) + owned d (mset live) + T d = mset [1..<Suc (hp_slots_per_rank H)]
    \<and> count_request_owned live d + size (T d) + length (hp_rec_free H ! d) = hp_slots_per_rank H
    \<and> (\<forall>r \<in> set live. \<exists>i. rq_pool_idx r = Some i \<and> hp_rec_map H ! i = running_slot r
         \<and> hp_track_map H ! i = track_row (hp_ping_pong H) r)"
proof -
  have "ledger_state (H0, {#}, \<lambda>_. {#})" using init_ledger [OF assms(1,2)] by (simp add: ledger_state_def)
  from pool_reachable_ledger [OF assms(3) this] have led: "ledger H (mset live) T" by (simp add: ledger_state_def)
  note slots = ledgerD(4) [OF led assms(4)]
  have "size (mset (hp_rec_free H ! d) + owned d (mset live) + T d) = size (mset [1..<Suc (hp_slots_per_rank H)])"
    by (rule arg_cong [OF slots])
  then have "count_request_owned live d + size (T d) + length (hp_rec_free H ! d) = hp_slots_per_rank H"
    using size_owned [of d live] unfolding size_union size_mset length_upt by simp
  moreover have "\<forall>r \<in> set live. \<exists>i. rq_pool_idx r = Some i \<and> hp_rec_map H ! i = running_slot r
         \<and> hp_track_map H ! i = track_row (hp_ping_pong H) r"
    using ledgerD(2) [OF led] by (force simp: req_ok_def)
  ultimately show ?thesis using slots ledgerD(3) [OF led] by blast
qed

definition demo_req :: pool_req where
  "demo_req = \<lparr>rq_id = 7, rq_pool_idx = None, rq_is_chunked = 0, rq_committed_len = 0, rq_rank = Some 1,
     rq_recurrent = None, rq_track = None, rq_next_track = None, rq_last_track = None\<rparr>"

definition demo_pool :: hybrid_pool where
  "demo_pool = \<lparr>hp_base = req_pool_init 2 4, hp_dp_size = 2, hp_extra_buffer = True, hp_ping_pong = 2,
     hp_slots_per_rank = 4, hp_rec_free = [[1, 2, 3, 4], [1, 2, 3, 4]], hp_rec_map = [0, 0],
     hp_track_map = [[0, 0], [0, 0]]\<rparr>"

definition demo_pool1 :: hybrid_pool where
  "demo_pool1 = demo_pool\<lparr>hp_base := (req_pool_init 2 4)\<lparr>rp_free := [1]\<rparr>, hp_rec_free := [[1, 2, 3, 4], [4]],
     hp_rec_map := [1, 0], hp_track_map := [[2, 3], [0, 0]]\<rparr>"

definition demo_req1 :: pool_req where
  "demo_req1 = demo_req\<lparr>rq_pool_idx := Some 0, rq_recurrent := Some 1, rq_track := Some [2, 3], rq_next_track := Some 0\<rparr>"

lemma demo_init: "hybrid_init 2 4 8 2 True 2 = Inr demo_pool"
proof -
  have "replicate 2 x = [x, x]" for x :: 'a by (simp add: numeral_eq_Suc)
  moreover have "[1..<Suc 4] = [1, 2, 3, 4]" by (simp add: upt_rec)
  ultimately show ?thesis by (simp add: hybrid_init_def demo_pool_def)
qed

lemma demo_alloc: "hybrid_alloc [demo_req] demo_pool = Inr (Some [Some 0], [demo_req1], demo_pool1)"
  by (simp add: hybrid_alloc_def demo_req_def demo_req1_def demo_pool_def demo_pool1_def req_rank_def
    request_owned_slots_def pool_alloc_def req_pool_init_def Let_def give_recurrent_def alloc_recurrent_slot_def
    np_assign_def alloc_ping_pong_buffer_def upt_rec numeral_eq_Suc)

lemma demo_reach: "pool_step\<^sup>*\<^sup>* (demo_pool, {#}, \<lambda>_. {#}) (demo_pool1, mset [demo_req1], \<lambda>_. {#})"
proof -
  have "pool_step (demo_pool, mset (filter has_idx [demo_req]) + {#}, \<lambda>_. {#})
     (demo_pool1, (if Some [Some (0::nat)] = None then mset (filter has_idx [demo_req]) else mset [demo_req1]) + {#}, \<lambda>_. {#})"
    by (rule pool_step.alloc [where d = 1, OF _ _ _ demo_alloc])
      (simp_all add: batch_ok_def fresh_req_def has_idx_def demo_req_def req_rank_def demo_pool_def)
  moreover have "filter has_idx [demo_req] = []" by (simp add: has_idx_def demo_req_def)
  ultimately show ?thesis by simp
qed

theorem pool_slots_conserved_witness:
  "mset (rp_free (hp_base demo_pool1)) + held (mset [demo_req1]) = mset [0..<2]
    \<and> mset (hp_rec_free demo_pool1 ! 1) + owned 1 (mset [demo_req1]) + {#} = mset [1..<Suc 4]
    \<and> count_request_owned [demo_req1] 1 + size ({#} :: nat multiset) + length (hp_rec_free demo_pool1 ! 1) = 4"
proof -
  have d: "1 < hp_dp_size demo_pool1" and ex: "True \<longrightarrow> 0 < (2::nat)"
    and sz: "rp_size (hp_base demo_pool1) = 2" "hp_slots_per_rank demo_pool1 = 4"
    by (simp_all add: demo_pool1_def demo_pool_def req_pool_init_def)
  from pool_slots_conserved [OF demo_init ex demo_reach d] show ?thesis unfolding sz by blast
qed

text \<open>C31. In every reachable state \<open>alloc\<close> on a batch of one rank (fresh requests and at most one live
  request that continues) never raises: it refuses, with the requests and the pool unchanged, exactly when
  the request slots or the rank's recurrent slots are too few for the whole batch, and otherwise gives
  every request of the batch its slots. \<open>free\<close> on a live request never raises, and freeing the request
  it returns once more is refused with an assertion.\<close>

theorem pool_operations_total:
  assumes "hybrid_init n ctx state_size dp extra pp = Inr H0" "extra \<longrightarrow> 0 < pp"
    and "pool_step\<^sup>*\<^sup>* (H0, {#}, \<lambda>_. {#}) (H, mset (filter has_idx reqs) + L, T)"
    and "batch_ok reqs d" "reqs \<noteq> []" "d < hp_dp_size H"
  shows "(\<exists>res rs H1. hybrid_alloc reqs H = Inr (res, rs, H1)
      \<and> (res = None \<longleftrightarrow> slots_short reqs d H) \<and> (res = None \<longrightarrow> rs = reqs \<and> H1 = H)
      \<and> (res \<noteq> None \<longrightarrow> res = Some (map rq_pool_idx rs) \<and> length rs = length reqs
           \<and> (\<forall>r \<in> set rs. has_idx r \<and> rq_recurrent r \<noteq> None)))
    \<and> (\<forall>r. r \<in># mset (filter has_idx reqs) + L \<longrightarrow>
         (\<exists>r1 H1. hybrid_free r H = Inr (r1, H1) \<and> hybrid_free r1 H1 = Inl AssertionError))"
proof -
  have "ledger_state (H0, {#}, \<lambda>_. {#})" using init_ledger [OF assms(1,2)] by (simp add: ledger_state_def)
  from pool_reachable_ledger [OF assms(3) this]
  have led: "ledger H (mset (filter has_idx reqs) + L) T" by (simp add: ledger_state_def)
  have "\<exists>r1 H1. hybrid_free r H = Inr (r1, H1) \<and> hybrid_free r1 H1 = Inl AssertionError"
    if mem: "r \<in># mset (filter has_idx reqs) + L" for r
  proof -
    obtain M where "mset (filter has_idx reqs) + L = add_mset r M" using multi_member_split [OF mem] by (elim exE)
    with led have led1: "ledger H (add_mset r M) T" by (simp only:)
    obtain r1 H1 where fr: "hybrid_free r H = Inr (r1, H1)" "\<not> has_idx r1"
      using hybrid_free_ledger [OF led1] by (elim exE conjE) (rule that)
    then have "hybrid_free r1 H1 = Inl AssertionError"
      using hybrid_free_clears [OF fr(1)] by (simp add: hybrid_free_twice)
    with fr(1) show ?thesis by (intro exI conjI)
  qed
  moreover have "\<exists>res rs H1. hybrid_alloc reqs H = Inr (res, rs, H1)
      \<and> (res = None \<longleftrightarrow> slots_short reqs d H) \<and> (res = None \<longrightarrow> rs = reqs \<and> H1 = H)
      \<and> (res \<noteq> None \<longrightarrow> res = Some (map rq_pool_idx rs) \<and> length rs = length reqs
           \<and> (\<forall>r \<in> set rs. has_idx r \<and> rq_recurrent r \<noteq> None))"
    using hybrid_alloc_ledger [OF led assms(6,4,5)] by (cases "slots_short reqs d H") auto
  ultimately show ?thesis by blast
qed

theorem pool_operations_total_witness:
  "\<exists>res rs H1. hybrid_alloc [demo_req] demo_pool1 = Inr (res, rs, H1)
      \<and> (res = None \<longleftrightarrow> slots_short [demo_req] 1 demo_pool1)"
proof -
  have f: "mset (filter has_idx [demo_req]) + mset [demo_req1] = mset [demo_req1]" by (simp add: has_idx_def demo_req_def)
  have b: "batch_ok [demo_req] 1" "[demo_req] \<noteq> []" "1 < hp_dp_size demo_pool1"
    by (simp_all add: batch_ok_def fresh_req_def has_idx_def demo_req_def req_rank_def demo_pool1_def demo_pool_def)
  have ex: "True \<longrightarrow> 0 < (2::nat)" by simp
  have reach: "pool_step\<^sup>*\<^sup>* (demo_pool, {#}, \<lambda>_. {#}) (demo_pool1, mset (filter has_idx [demo_req]) + mset [demo_req1], \<lambda>_. {#})"
    unfolding f by (rule demo_reach)
  from pool_operations_total [OF demo_init ex reach b] show ?thesis by blast
qed

end
