(* ===== verification/Cache_Req.thy ===== *)
theory Cache_Req
  imports Req_Pool Radix_Cache
begin

text \<open>
  The attributes of a request (\<open>Req\<close> of \<open>managers/schedule_batch.py\<close>) that the caches and the schedule
  policy read and write, and the methods over them: the key a request is looked up with, and the two
  \<open>pop\<close> methods that hand out the KV range to release once only.
\<close>

record cache_req = pool_req +
  rq_origin_ids :: "int list"
  rq_radix_ids :: "int list"
  rq_output_ids :: "int list"
  rq_fill_ids :: "int list"
  rq_extra_key :: "string option"
  rq_max_new :: int
  rq_return_logprob :: bool
  rq_logprob_start :: int
  rq_return_hidden :: bool
  rq_hidden_len :: nat
  rq_prefix :: "int list"
  rq_last_node :: "nat option"
  rq_protected_len :: int
  rq_matched_len :: int
  rq_allocated_len :: int
  rq_committed_freed :: bool
  rq_over_freed :: bool
  rq_swa_evicted :: int

text \<open>\<open>adjust_max_prefix_ids\<close> sets \<open>fill_ids\<close> and returns the prefix that may be looked up.\<close>

definition adjust_max_prefix_ids :: "cache_req \<Rightarrow> int list \<times> cache_req" where
  "adjust_max_prefix_ids r =
     (let fill = (if rq_output_ids r \<noteq> [] then rq_origin_ids r @ rq_output_ids r else rq_origin_ids r);
          input_len = int (length fill);
          m = input_len - 1;
          m = (if 0 < rq_max_new r then min m (input_len - 1) else m);
          m = (if rq_return_logprob r then min m (rq_logprob_start r) else m);
          m = (if rq_return_hidden r then min m (int (rq_hidden_len r)) else m);
          m = max m 0
      in (py_slice fill 0 m, r\<lparr>rq_fill_ids := fill\<rparr>))"

definition build_radix_key :: "cache_req \<Rightarrow> int \<Rightarrow> radix_key result" where
  "build_radix_key r n =
     (if length (rq_radix_ids r) \<noteq> length (rq_origin_ids r) then Inl AssertionError
      else let ids = (if rq_output_ids r \<noteq> [] then rq_radix_ids r @ rq_output_ids r else rq_radix_ids r) in
        Inr \<lparr>token_ids = map Tok_Id (py_slice ids 0 n), extra_key = rq_extra_key r, key_dp_rank = rq_rank r\<rparr>)"

definition req_match_key :: "cache_req \<Rightarrow> (radix_key \<times> cache_req) result" where
  "req_match_key r = (case adjust_max_prefix_ids r of (real_prefix, r1) \<Rightarrow>
     rbind (build_radix_key r1 (int (length real_prefix))) (\<lambda>k. Inr (k, r1)))"

definition pop_committed_kv_cache :: "cache_req \<Rightarrow> int \<times> cache_req" where
  "pop_committed_kv_cache r =
     (if rq_committed_freed r then (0, r) else (rq_committed_len r, r\<lparr>rq_committed_freed := True\<rparr>))"

definition pop_overallocated_kv_cache :: "cache_req \<Rightarrow> (int \<times> int) \<times> cache_req" where
  "pop_overallocated_kv_cache r =
     (if rq_over_freed r then ((0, 0), r)
      else ((rq_committed_len r, rq_allocated_len r), r\<lparr>rq_over_freed := True\<rparr>))"

text \<open>The key of a request: never the whole of its tokens, so that at least one token is left to run.\<close>

definition key_seq :: "cache_req \<Rightarrow> int list" where
  "key_seq r = rq_radix_ids r @ rq_output_ids r"

lemma build_radix_key_ok:
  assumes "length (rq_radix_ids r) = length (rq_origin_ids r)"
  shows "build_radix_key r n = Inr \<lparr>token_ids = map Tok_Id (py_slice (key_seq r) 0 n), extra_key = rq_extra_key r, key_dp_rank = rq_rank r\<rparr>"
  using assms by (simp add: build_radix_key_def key_seq_def)

lemma adjust_max_prefix_ids_facts:
  assumes "adjust_max_prefix_ids r = (p, r1)"
  shows "r1 = r\<lparr>rq_fill_ids := rq_origin_ids r @ rq_output_ids r\<rparr>"
    "length p \<le> length (rq_origin_ids r @ rq_output_ids r) - 1"
    "p = take (length p) (rq_origin_ids r @ rq_output_ids r)"
proof -
  have fill: "(if rq_output_ids r \<noteq> [] then rq_origin_ids r @ rq_output_ids r else rq_origin_ids r)
      = rq_origin_ids r @ rq_output_ids r" by simp
  let ?f = "rq_origin_ids r @ rq_output_ids r"
  let ?n = "int (length ?f) - 1"
  define m1 where "m1 = (if rq_return_logprob r then min ?n (rq_logprob_start r) else ?n)"
  define m2 where "m2 = (if rq_return_hidden r then min m1 (int (rq_hidden_len r)) else m1)"
  have eq: "(if 0 < rq_max_new r then min ?n ?n else ?n) = ?n" by simp
  have "adjust_max_prefix_ids r = (py_slice ?f 0 (max m2 0), r\<lparr>rq_fill_ids := ?f\<rparr>)"
    unfolding adjust_max_prefix_ids_def fill Let_def eq m2_def m1_def by simp
  with assms have pm: "p = py_slice ?f 0 (max m2 0)" and r1: "r1 = r\<lparr>rq_fill_ids := ?f\<rparr>" by simp_all
  have "m1 \<le> ?n" by (simp add: m1_def min_def)
  moreover have "m2 \<le> m1" by (simp add: m2_def)
  ultimately have "m2 \<le> ?n" by simp
  then have m: "0 \<le> max m2 0" "max m2 0 \<le> max ?n 0" by linarith+
  show "r1 = r\<lparr>rq_fill_ids := ?f\<rparr>" by (rule r1)
  have p: "p = take (nat (max m2 0)) ?f" using pm by (simp add: py_slice_prefix)
  have "nat (max m2 0) \<le> length ?f - 1" using m(2) by linarith
  then show "length p \<le> length ?f - 1" unfolding p length_take by linarith
  have "take (length (take n xs)) xs = take n xs" for n and xs :: "int list" by (simp add: min_def)
  with p show "p = take (length p) ?f" by metis
qed

lemma req_match_key_ok:
  assumes "length (rq_radix_ids r) = length (rq_origin_ids r)"
  shows "\<exists>k r1 n. req_match_key r = Inr (k, r1) \<and> token_ids k = map Tok_Id (take n (key_seq r))
    \<and> n \<le> length (key_seq r) - 1 \<and> extra_key k = rq_extra_key r \<and> key_dp_rank k = rq_rank r
    \<and> r1 = r\<lparr>rq_fill_ids := rq_origin_ids r @ rq_output_ids r\<rparr>"
proof -
  obtain p r1 where a: "adjust_max_prefix_ids r = (p, r1)" by fastforce
  note f = adjust_max_prefix_ids_facts [OF a]
  have "build_radix_key r1 (int (length p))
      = Inr \<lparr>token_ids = map Tok_Id (take (length p) (key_seq r)), extra_key = rq_extra_key r, key_dp_rank = rq_rank r\<rparr>"
    using build_radix_key_ok [of r1 "int (length p)"] assms f(1) by (simp add: py_slice_prefix key_seq_def)
  moreover have "length p \<le> length (key_seq r) - 1" using f(2) assms by (simp add: key_seq_def)
  ultimately show ?thesis using a f(1) by (auto simp: req_match_key_def)
qed

end
