(* ===== verification/Schedule_Policy.thy ===== *)
theory Schedule_Policy
  imports Cache_Req Radix_Evict
begin

text \<open>
  \<open>SchedulePolicy\<close> of \<open>managers/schedule_policy.py\<close>: the order in which waiting requests are offered for
  admission. The tree cache is the \<open>RadixCache\<close> of \<open>Radix_Cache\<close>; \<open>random.shuffle\<close> is a parameter, of
  which the theorems assume that it permutes. The waiting queue is a list of request records and the
  sorts are stable, as Python's are.
\<close>

datatype policy = LPM | DFS_WEIGHT | FCFS | LOF | RANDOM

definition cache_aware :: "string \<Rightarrow> policy option" where
  "cache_aware s = (if s = ''lpm'' then Some LPM else if s = ''dfs-weight'' then Some DFS_WEIGHT else None)"

definition cache_agnostic :: "string \<Rightarrow> policy option" where
  "cache_agnostic s = (if s = ''fcfs'' then Some FCFS else if s = ''lof'' then Some LOF
     else if s = ''random'' then Some RANDOM else None)"

definition is_cache_aware :: "policy \<Rightarrow> bool" where
  "is_cache_aware p \<longleftrightarrow> p = LPM \<or> p = DFS_WEIGHT"

text \<open>\<open>tree_disable\<close> is \<open>getattr(tree_cache, "disable", True)\<close>: a cache without the attribute counts as
  disabled.\<close>

definition validate_and_adjust_policy :: "string \<Rightarrow> bool \<Rightarrow> policy result" where
  "validate_and_adjust_policy s tree_disable = (case cache_aware s of
     Some p \<Rightarrow> Inr (if tree_disable then FCFS else p)
   | None \<Rightarrow> (case cache_agnostic s of Some p \<Rightarrow> Inr p | None \<Rightarrow> Inl ValueError))"

record schedule_policy =
  sp_policy :: policy
  sp_tree :: radix_cache
  sp_queue_tree :: radix_cache

text \<open>The tree for in-batch matching: page size 1 and no allocator (it is never evicted; the field keeps
  the one given).\<close>

definition queue_tree_init :: "(nat \<Rightarrow> int) \<Rightarrow> sub_allocator \<Rightarrow> radix_cache" where
  "queue_tree_init clk al = radix_reset
     \<lparr>nodes = (\<lambda>_. \<lparr>children = [], parent = None, node_key = \<lparr>token_ids = [], extra_key = None, key_dp_rank = None\<rparr>,
                 node_value = [], lock_ref = 0, last_access_time = 0\<rparr>),
      next_id = 0, root_node = 0, cache_page_size = 1, disable = False, is_eagle = False,
      evictable_sizes = (\<lambda>_. 0), protected_sizes = (\<lambda>_. 0), kv_allocator = al, clock = clk, ticks = 0\<rparr>"

definition schedule_policy_init :: "string \<Rightarrow> radix_cache \<Rightarrow> (nat \<Rightarrow> int) \<Rightarrow> sub_allocator \<Rightarrow> schedule_policy result" where
  "schedule_policy_init s c clk al =
     rbind (validate_and_adjust_policy s (disable c)) (\<lambda>p.
       Inr \<lparr>sp_policy = p, sp_tree = c, sp_queue_tree = queue_tree_init clk al\<rparr>)"

definition determine_active_policy :: "schedule_policy \<Rightarrow> cache_req list \<Rightarrow> policy" where
  "determine_active_policy S q = (if sp_policy S = LPM \<and> 128 < length q then FCFS else sp_policy S)"

text \<open>Both thresholds are read from the environment when the module is loaded; the model has their defaults.\<close>

definition in_batch_check_threshold :: nat where
  "in_batch_check_threshold = 32"

definition in_batch_deprioritize_threshold :: nat where
  "in_batch_deprioritize_threshold = 32"

text \<open>One round of \<open>_compute_prefix_matches\<close>: the state is the deprioritized ids, the tree cache and the
  queue tree. The values inserted into the queue tree are never read.\<close>

type_synonym match_state = "nat list \<times> radix_cache \<times> radix_cache"

definition match_round :: "cache_req \<Rightarrow> match_state \<Rightarrow> (cache_req \<times> match_state) result" where
  "match_round r = (\<lambda>(dep, c, t).
     rbind (req_match_key r) (\<lambda>(key, r1).
     rbind (match_prefix key c) (\<lambda>(indices, node, c1).
     let r2 = r1\<lparr>rq_prefix := indices, rq_last_node := Some node\<rparr> in
     if length indices \<le> in_batch_check_threshold then
       rbind (match_prefix key t) (\<lambda>(in_batch, _, t1).
       if in_batch_deprioritize_threshold \<le> length in_batch then Inr (r2, (rq_id r # dep, c1, t1))
       else rbind (radix_insert key (replicate (key_len key) 0) t1) (\<lambda>(_, t2). Inr (r2, (dep, c1, t2))))
     else Inr (r2, (dep, c1, t)))))"

fun match_rounds :: "cache_req list \<Rightarrow> match_state \<Rightarrow> (cache_req list \<times> match_state) result" where
  "match_rounds [] st = Inr ([], st)"
| "match_rounds (r # rs) st =
     rbind (match_round r st) (\<lambda>(r1, st1). rbind (match_rounds rs st1) (\<lambda>(rs1, st2). Inr (r1 # rs1, st2)))"

definition compute_prefix_matches ::
    "schedule_policy \<Rightarrow> cache_req list \<Rightarrow> (nat list \<times> cache_req list \<times> schedule_policy) result" where
  "compute_prefix_matches S q =
     rbind (match_rounds q ([], sp_tree S, radix_reset (sp_queue_tree S))) (\<lambda>(q1, (dep, c, t)).
       Inr (dep, q1, S\<lparr>sp_tree := c, sp_queue_tree := t\<rparr>))"

text \<open>\<open>float("inf")\<close> is above every length: keys are pairs whose first component marks it.\<close>

definition sort_by_longest_prefix :: "nat list \<Rightarrow> cache_req list \<Rightarrow> cache_req list" where
  "sort_by_longest_prefix dep q =
     sort_key (\<lambda>r. if rq_id r \<notin> set dep then (False, - int (length (rq_prefix r))) else (True, 0)) q"

definition sort_by_longest_output :: "cache_req list \<Rightarrow> cache_req list" where
  "sort_by_longest_output q = sort_key (\<lambda>r. - rq_max_new r) q"

text \<open>\<open>_sort_by_dfs_weight\<close>. The dictionaries have defaults, so they are functions; the keys are the
  \<open>last_node\<close>s. The recursions take fuel; a path of the tree visits a node at most once, so \<open>next_id\<close> rounds
  are enough (Python's recursion limit is not modelled).\<close>

definition last_node_to_reqs :: "cache_req list \<Rightarrow> nat option \<Rightarrow> cache_req list" where
  "last_node_to_reqs q = foldl (\<lambda>d r. d(rq_last_node r := d (rq_last_node r) @ [r])) (\<lambda>_. []) q"

primrec calc_weight :: "nat \<Rightarrow> radix_cache \<Rightarrow> nat \<Rightarrow> (nat \<Rightarrow> int) \<Rightarrow> (nat \<Rightarrow> int) result" where
  "calc_weight 0 c cur w = Inl NonTermination"
| "calc_weight (Suc fuel) c cur w =
     for_m (\<lambda>ch w. rbind (calc_weight fuel c ch w) (\<lambda>w. Inr (w(cur := w cur + w ch)))) (map snd (children (nodes c cur))) w"

primrec get_dfs_priority ::
    "nat \<Rightarrow> radix_cache \<Rightarrow> (nat \<Rightarrow> int) \<Rightarrow> (nat option \<Rightarrow> cache_req list) \<Rightarrow> nat \<Rightarrow> cache_req list \<Rightarrow> cache_req list result" where
  "get_dfs_priority 0 c w d cur q = Inl NonTermination"
| "get_dfs_priority (Suc fuel) c w d cur q =
     rbind (for_m (get_dfs_priority fuel c w d) (sort_key (\<lambda>x. - w x) (map snd (children (nodes c cur)))) q) (\<lambda>q.
       Inr (q @ d (Some cur)))"

definition sort_by_dfs_weight :: "cache_req list \<Rightarrow> radix_cache \<Rightarrow> cache_req list result" where
  "sort_by_dfs_weight q c =
     (let d = last_node_to_reqs q in
      rbind (calc_weight (next_id c) c (root_node c) (\<lambda>n. int (length (d (Some n))))) (\<lambda>w.
        get_dfs_priority (next_id c) c w d (root_node c) []))"

definition calc_priority ::
    "(cache_req list \<Rightarrow> cache_req list) \<Rightarrow> schedule_policy \<Rightarrow> cache_req list
       \<Rightarrow> (bool \<times> cache_req list \<times> schedule_policy) result" where
  "calc_priority shuffle S q =
     (if sp_policy S = FCFS then Inr (False, q, S)
      else let p = determine_active_policy S q in
        if is_cache_aware p then
          rbind (compute_prefix_matches S q) (\<lambda>(dep, q1, S1).
          if p = LPM then Inr (True, sort_by_longest_prefix dep q1, S1)
          else rbind (sort_by_dfs_weight q1 (sp_tree S1)) (\<lambda>q2. Inr (True, q2, S1)))
        else Inr (False, (case p of LOF \<Rightarrow> sort_by_longest_output q | RANDOM \<Rightarrow> shuffle q | _ \<Rightarrow> q), S))"

section \<open>Subtrees\<close>

definition kid_rel :: "radix_cache \<Rightarrow> nat set \<Rightarrow> (nat \<times> nat) set" where
  "kid_rel c L = {(n, m). n \<in> L \<and> m \<in> kids c L n}"

definition subtree :: "radix_cache \<Rightarrow> nat set \<Rightarrow> nat \<Rightarrow> nat set" where
  "subtree c L n = (kid_rel c L)\<^sup>* `` {n}"

lemma kid_longer:
  assumes wf: "tree_wf c L P" and m: "m \<in> kids c L n"
  shows "length (P n) < length (P m)" "m \<in> L"
proof -
  from m have mL: "m \<in> L" "m \<noteq> root_node c" "parent (nodes c m) = Some n" by (auto simp: kids_def)
  from tree_nodeE [OF wf mL(1,2)] mL(3) have "P m = P n @ node_path (nodes c m)" "node_path (nodes c m) \<noteq> []"
    by (metis key_len_0 length_0_conv option.inject)+
  then show "length (P n) < length (P m)" by simp
  show "m \<in> L" by (rule mL(1))
qed

lemma subtree_longer:
  assumes wf: "tree_wf c L P" and m: "m \<in> subtree c L n"
  shows "length (P n) \<le> length (P m)"
proof -
  from m have "(n, m) \<in> (kid_rel c L)\<^sup>*" by (simp add: subtree_def)
  then show ?thesis
    by (induction rule: rtrancl_induct) (use kid_longer(1) [OF wf] in \<open>force simp: kid_rel_def\<close>)+
qed

lemma subtree_subset:
  assumes "n \<in> L"
  shows "subtree c L n \<subseteq> L"
proof
  fix m assume "m \<in> subtree c L n"
  then have "(n, m) \<in> (kid_rel c L)\<^sup>*" by (simp add: subtree_def)
  then show "m \<in> L" using assms by (induction rule: rtrancl_induct) (auto simp: kid_rel_def kids_def)
qed

lemma subtree_unfold:
  assumes "n \<in> L"
  shows "subtree c L n = insert n (\<Union>m \<in> kids c L n. subtree c L m)"
proof (intro equalityI subsetI)
  fix x assume "x \<in> subtree c L n"
  then have "(n, x) \<in> (kid_rel c L)\<^sup>*" by (simp add: subtree_def)
  then show "x \<in> insert n (\<Union>m \<in> kids c L n. subtree c L m)"
    by (cases rule: converse_rtranclE) (auto simp: subtree_def kid_rel_def)
next
  fix x assume "x \<in> insert n (\<Union>m \<in> kids c L n. subtree c L m)"
  then show "x \<in> subtree c L n"
    using assms by (auto simp: subtree_def kid_rel_def intro: converse_rtrancl_into_rtrancl)
qed

lemma subtree_disjoint:
  assumes wf: "tree_wf c L P" and m: "m1 \<in> kids c L n" "m2 \<in> kids c L n" "m1 \<noteq> m2"
  shows "subtree c L m1 \<inter> subtree c L m2 = {}"
proof (rule ccontr)
  let ?E = "kid_rel c L"
  assume "subtree c L m1 \<inter> subtree c L m2 \<noteq> {}"
  then obtain x where x: "(m1, x) \<in> ?E\<^sup>*" "(m2, x) \<in> ?E\<^sup>*" by (auto simp: subtree_def)
  have sv: "single_valued (?E\<inverse>)" by (auto simp: single_valued_def kid_rel_def kids_def)
  have "(x, m1) \<in> (?E\<inverse>)\<^sup>*" "(x, m2) \<in> (?E\<inverse>)\<^sup>*" using x by (simp_all add: rtrancl_converse)
  from single_valued_confluent [OF sv this] have "(m2, m1) \<in> ?E\<^sup>* \<or> (m1, m2) \<in> ?E\<^sup>*"
    by (auto simp: rtrancl_converse)
  moreover have False if ab: "(a, b) \<in> ?E\<^sup>*" "a \<noteq> b" "a \<in> kids c L n" "b \<in> kids c L n" for a b
  proof -
    from ab(1,2) obtain y where y: "(a, y) \<in> ?E\<^sup>*" "(y, b) \<in> ?E" by (meson rtranclE)
    then have "y = n" using ab(4) by (simp add: kid_rel_def kids_def)
    with y(1) have "length (P a) \<le> length (P n)" using subtree_longer [OF wf, of n a] by (simp add: subtree_def)
    with kid_longer(1) [OF wf ab(3)] show False by simp
  qed
  ultimately show False using m by blast
qed

lemma subtree_not_self:
  assumes "tree_wf c L P" "m \<in> kids c L n"
  shows "n \<notin> subtree c L m"
  using subtree_longer [OF assms(1), of n m] kid_longer(1) [OF assms] by auto

lemma subtree_root:
  assumes wf: "tree_wf c L P"
  shows "subtree c L (root_node c) = L"
proof
  show "subtree c L (root_node c) \<subseteq> L" by (rule subtree_subset [OF tree_wfD(2) [OF wf]])
  have "(root_node c, n) \<in> (kid_rel c L)\<^sup>*" if "n \<in> L" for n
    using that
  proof (induction "length (P n)" arbitrary: n rule: less_induct)
    case less
    show ?case
    proof (cases "n = root_node c")
      case False
      from tree_nodeE [OF wf less.prems False] obtain m where m: "m \<in> L" "parent (nodes c n) = Some m" by metis
      then have k: "n \<in> kids c L m" using less.prems False by (simp add: kids_def)
      then have "(root_node c, m) \<in> (kid_rel c L)\<^sup>*" using less.hyps kid_longer(1) [OF wf k] m(1) by blast
      with k m(1) show ?thesis by (auto simp: kid_rel_def intro: rtrancl_into_rtrancl)
    qed simp
  qed
  then show "L \<subseteq> subtree c L (root_node c)" by (auto simp: subtree_def)
qed

text \<open>How many nodes lie deeper than a node bounds the recursion below it.\<close>

definition deeper :: "(nat \<Rightarrow> annotated) \<Rightarrow> nat set \<Rightarrow> nat \<Rightarrow> nat" where
  "deeper P L n = card {m \<in> L. length (P n) < length (P m)}"

lemma deeper_kid:
  assumes wf: "tree_wf c L P" and m: "m \<in> kids c L n"
  shows "deeper P L m < deeper P L n"
  unfolding deeper_def
  by (rule psubset_card_mono) (use tree_wfD(1) [OF wf] kid_longer [OF wf m] in auto)

lemma deeper_root:
  assumes wf: "tree_wf c L P"
  shows "deeper P L (root_node c) < next_id c"
proof -
  have "{m \<in> L. length (P (root_node c)) < length (P m)} \<subset> L" using tree_wfD(2) [OF wf] by auto
  then have "deeper P L (root_node c) < card L" unfolding deeper_def by (rule psubset_card_mono [OF tree_wfD(1) [OF wf]])
  also have "card L \<le> card {..<next_id c}" by (rule card_mono) (use tree_wfD(3) [OF wf] in auto)
  finally show ?thesis by simp
qed

section \<open>The depth-first order\<close>

lemma for_m_append_list:
  assumes "\<And>x q. x \<in> set xs \<Longrightarrow> f x q = Inr (q @ g x)"
  shows "for_m f xs q = Inr (q @ concat (map g xs))"
  using assms by (induction xs arbitrary: q) auto

lemma concat_concat_map: "concat (map (\<lambda>m. concat (map f (g m))) xs) = concat (map f (concat (map g xs)))"
  by (induction xs) auto

text \<open>The recursion appends, in some order, the requests of every node of the subtree once.\<close>

lemma get_dfs_priority_ok:
  assumes wf: "tree_wf c L P" and "n \<in> L" "deeper P L n < fuel"
  shows "\<exists>ns. (\<forall>q. get_dfs_priority fuel c w d n q = Inr (q @ concat (map (\<lambda>m. d (Some m)) ns)))
    \<and> distinct ns \<and> set ns = subtree c L n"
  using assms(2,3)
proof (induction fuel arbitrary: n)
  case (Suc fuel)
  let ?ch = "sort_key (\<lambda>x. - w x) (map snd (children (nodes c n)))"
  note ch = children_kids [OF wf Suc.prems(1)]
  have set_ch: "set ?ch = kids c L n" using ch(1) by simp
  have "\<exists>ns. (\<forall>q. get_dfs_priority fuel c w d m q = Inr (q @ concat (map (\<lambda>m. d (Some m)) ns)))
    \<and> distinct ns \<and> set ns = subtree c L m" if m: "m \<in> set ?ch" for m
    using Suc.IH [of m] deeper_kid [OF wf] kid_longer(2) [OF wf] m Suc.prems unfolding set_ch by fastforce
  then obtain ord where ord: "\<And>m q. m \<in> set ?ch \<Longrightarrow> get_dfs_priority fuel c w d m q = Inr (q @ concat (map (\<lambda>m. d (Some m)) (ord m)))"
    "\<And>m. m \<in> set ?ch \<Longrightarrow> distinct (ord m)" "\<And>m. m \<in> set ?ch \<Longrightarrow> set (ord m) = subtree c L m" by metis
  let ?ns = "concat (map ord ?ch) @ [n]"
  have "for_m (get_dfs_priority fuel c w d) ?ch q = Inr (q @ concat (map (\<lambda>m. concat (map (\<lambda>m. d (Some m)) (ord m))) ?ch))" for q
    by (rule for_m_append_list) (rule ord(1))
  moreover have "concat (map (\<lambda>m. concat (map (\<lambda>m. d (Some m)) (ord m))) ?ch) = concat (map (\<lambda>m. d (Some m)) (concat (map ord ?ch)))"
    by (rule concat_concat_map)
  ultimately have run: "get_dfs_priority (Suc fuel) c w d n q = Inr (q @ concat (map (\<lambda>m. d (Some m)) ?ns))" for q
    by simp
  have "set (concat (map ord ?ch)) = (\<Union>m \<in> kids c L n. subtree c L m)" using ord(3) set_ch by auto
  moreover have "distinct (concat (map ord ?ch))"
  proof (rule distinct_concat)
    have "distinct ?ch" using ch(2) by simp
    moreover have "inj_on ord (set ?ch)"
    proof (rule inj_onI)
      fix a b assume ab: "a \<in> set ?ch" "b \<in> set ?ch" "ord a = ord b"
      then have "subtree c L a = subtree c L b" using ord(3) by metis
      moreover have "a \<in> subtree c L a" by (simp add: subtree_def)
      ultimately show "a = b" using subtree_disjoint [OF wf] ab(1,2) set_ch by blast
    qed
    ultimately show "distinct (map ord ?ch)" by (simp only: distinct_map)
    show "distinct ys" if "ys \<in> set (map ord ?ch)" for ys using that ord(2) by auto
    show "set ys \<inter> set zs = {}" if "ys \<in> set (map ord ?ch)" "zs \<in> set (map ord ?ch)" "ys \<noteq> zs" for ys zs
    proof -
      from that obtain a b where ab: "a \<in> set ?ch" "b \<in> set ?ch" "ys = ord a" "zs = ord b"
        unfolding list.set_map by blast
      then have "a \<noteq> b" using that(3) by auto
      then have "subtree c L a \<inter> subtree c L b = {}" using subtree_disjoint [OF wf] ab(1,2) unfolding set_ch by blast
      then show ?thesis using ord(3) ab by metis
    qed
  qed
  moreover have "n \<notin> (\<Union>m \<in> kids c L n. subtree c L m)" using subtree_not_self [OF wf] by blast
  ultimately have "distinct ?ns" "set ?ns = subtree c L n" using subtree_unfold [OF Suc.prems(1), of c] by auto
  with run show ?case by blast
qed simp

text \<open>\<open>_calc_weight\<close> gives every node of the subtree the number of requests at and below it.\<close>

definition weight_of :: "radix_cache \<Rightarrow> nat set \<Rightarrow> (nat \<Rightarrow> int) \<Rightarrow> nat \<Rightarrow> int" where
  "weight_of c L w n = (\<Sum>y \<in> subtree c L n. w y)"

lemma weight_of_cong: "(\<And>y. y \<in> subtree c L n \<Longrightarrow> v y = w y) \<Longrightarrow> weight_of c L v n = weight_of c L w n"
  by (simp add: weight_of_def)

lemma subtree_trans: "m \<in> subtree c L n \<Longrightarrow> x \<in> subtree c L m \<Longrightarrow> x \<in> subtree c L n"
  by (auto simp: subtree_def)

lemma weight_loop_ok:
  assumes wf: "tree_wf c L P" and n: "n \<in> L" and ms: "distinct ms" "set ms \<subseteq> kids c L n"
    and rec: "\<And>m w. m \<in> set ms \<Longrightarrow> \<exists>w1. g m w = Inr (w1(n := w1 n + w1 m)) \<and> (\<forall>x. x \<notin> subtree c L m \<longrightarrow> w1 x = w x)
      \<and> (\<forall>x \<in> subtree c L m. w1 x = weight_of c L w x)"
  shows "\<exists>w1. for_m g ms w = Inr w1
    \<and> (\<forall>x. x \<noteq> n \<longrightarrow> x \<notin> (\<Union>m \<in> set ms. subtree c L m) \<longrightarrow> w1 x = w x)
    \<and> (\<forall>m \<in> set ms. \<forall>x \<in> subtree c L m. w1 x = weight_of c L w x)
    \<and> w1 n = w n + (\<Sum>m\<leftarrow>ms. weight_of c L w m)"
  using ms rec
proof (induction ms arbitrary: w)
  case (Cons m ms)
  obtain wa where wa: "g m w = Inr (wa(n := wa n + wa m))" "\<forall>x. x \<notin> subtree c L m \<longrightarrow> wa x = w x"
    "\<forall>x \<in> subtree c L m. wa x = weight_of c L w x" using Cons.prems(3) [OF list.set_intros(1), of w] by blast
  have nm: "n \<notin> subtree c L m" by (rule subtree_not_self [OF wf]) (use Cons.prems(2) in simp)
  have self: "m \<in> subtree c L m" by (simp add: subtree_def)
  define wb where "wb = wa(n := wa n + wa m)"
  have wb: "wb n = w n + weight_of c L w m" using wa nm self by (simp add: wb_def)
  obtain w1 where w1: "for_m g ms wb = Inr w1"
    "\<forall>x. x \<noteq> n \<longrightarrow> x \<notin> (\<Union>m \<in> set ms. subtree c L m) \<longrightarrow> w1 x = wb x"
    "\<forall>m \<in> set ms. \<forall>x \<in> subtree c L m. w1 x = weight_of c L wb x"
    "w1 n = wb n + (\<Sum>m\<leftarrow>ms. weight_of c L wb m)"
    using Cons.IH [of wb] Cons.prems by auto
  have dis: "subtree c L m \<inter> subtree c L k = {}" "n \<notin> subtree c L k" if "k \<in> set ms" for k
    using subtree_disjoint [OF wf, of m n k] subtree_not_self [OF wf, of k n] Cons.prems(1,2) that by auto
  have same: "weight_of c L wb x = weight_of c L w x" if k: "k \<in> set ms" "x \<in> subtree c L k" for k x
  proof (rule weight_of_cong)
    fix y assume "y \<in> subtree c L x"
    then have y: "y \<in> subtree c L k" by (rule subtree_trans [OF k(2)])
    then show "wb y = w y" using dis [OF k(1)] wa(2) by (auto simp: wb_def)
  qed
  have "weight_of c L wb k = weight_of c L w k" if "k \<in> set ms" for k
    by (rule same [OF that]) (simp add: subtree_def)
  then have "(\<Sum>m\<leftarrow>ms. weight_of c L wb m) = (\<Sum>m\<leftarrow>ms. weight_of c L w m)" by (simp cong: map_cong)
  moreover have "w1 x = weight_of c L w x" if "x \<in> subtree c L m" for x
  proof -
    have "x \<noteq> n" "x \<notin> (\<Union>m \<in> set ms. subtree c L m)" using that nm dis by blast+
    then show ?thesis using w1(2) wa(3) that by (simp add: wb_def)
  qed
  moreover have "w1 x = w x" if "x \<noteq> n" "x \<notin> (\<Union>m \<in> set (m # ms). subtree c L m)" for x
    using w1(2) wa(2) that by (simp add: wb_def)
  ultimately show ?case
    using w1 wa(1) [folded wb_def] same wb by (intro exI [of _ w1]) auto
qed simp

lemma calc_weight_ok:
  assumes wf: "tree_wf c L P" and "n \<in> L" "deeper P L n < fuel"
  shows "\<exists>w1. calc_weight fuel c n w = Inr w1 \<and> (\<forall>x. x \<notin> subtree c L n \<longrightarrow> w1 x = w x)
    \<and> (\<forall>x \<in> subtree c L n. w1 x = weight_of c L w x)"
  using assms(2,3)
proof (induction fuel arbitrary: n w)
  case (Suc fuel)
  note ch = children_kids [OF wf Suc.prems(1)]
  define g where "g = (\<lambda>ch w. rbind (calc_weight fuel c ch w) (\<lambda>w. Inr (w(n := w n + w ch))))"
  have rec: "\<exists>w1. g m w = Inr (w1(n := w1 n + w1 m)) \<and> (\<forall>x. x \<notin> subtree c L m \<longrightarrow> w1 x = w x)
      \<and> (\<forall>x \<in> subtree c L m. w1 x = weight_of c L w x)" if "m \<in> set (map snd (children (nodes c n)))" for m w
    using Suc.IH [of m w] deeper_kid [OF wf, of m n] kid_longer(2) [OF wf, of m n] that Suc.prems unfolding ch(1)
    by (auto simp: g_def)
  have sub: "set (map snd (children (nodes c n))) \<subseteq> kids c L n" using ch(1) by simp
  from weight_loop_ok [OF wf Suc.prems(1) ch(2) sub rec, of w]
  obtain w1 where w1: "calc_weight (Suc fuel) c n w = Inr w1"
    "\<forall>x. x \<noteq> n \<longrightarrow> x \<notin> (\<Union>m \<in> kids c L n. subtree c L m) \<longrightarrow> w1 x = w x"
    "\<forall>m \<in> kids c L n. \<forall>x \<in> subtree c L m. w1 x = weight_of c L w x"
    "w1 n = w n + (\<Sum>m\<leftarrow>map snd (children (nodes c n)). weight_of c L w m)"
    unfolding ch(1) calc_weight.simps g_def [symmetric] by blast
  have fin: "finite (subtree c L m)" if "m \<in> L" for m
    by (rule finite_subset [OF subtree_subset [OF that] tree_wfD(1) [OF wf]])
  have kL: "kids c L n \<subseteq> L" by (auto simp: kids_def)
  have "weight_of c L w n = w n + (\<Sum>y \<in> (\<Union>m \<in> kids c L n. subtree c L m). w y)"
    unfolding weight_of_def subtree_unfold [OF Suc.prems(1)]
    using subtree_not_self [OF wf] fin kL finite_subset [OF kL tree_wfD(1) [OF wf]] by (subst sum.insert) auto
  also have "(\<Sum>y \<in> (\<Union>m \<in> kids c L n. subtree c L m). w y) = (\<Sum>m \<in> kids c L n. weight_of c L w m)"
    unfolding weight_of_def
    by (rule sum.UNION_disjoint) (use fin kL finite_subset [OF kL tree_wfD(1) [OF wf]] subtree_disjoint [OF wf] in auto)
  also have "\<dots> = (\<Sum>m\<leftarrow>map snd (children (nodes c n)). weight_of c L w m)"
    unfolding ch(1) [symmetric] by (rule sum_list_distinct_conv_sum_set [OF ch(2), symmetric])
  finally have "w1 n = weight_of c L w n" using w1(4) by simp
  then show ?case using w1 subtree_unfold [OF Suc.prems(1), of c] by (intro exI [of _ w1]) auto
qed simp

section \<open>In-batch matching\<close>

definition key_of :: "cache_req \<Rightarrow> radix_key" where
  "key_of r = (case req_match_key r of Inr (k, _) \<Rightarrow> k | Inl _ \<Rightarrow> \<lparr>token_ids = [], extra_key = None, key_dp_rank = None\<rparr>)"

text \<open>The reference: two keys of a namespace that agree on the first \<open>in_batch_deprioritize_threshold\<close>
  tokens collide; a request whose cached prefix is short is deprioritized when its key collides with the
  key of an earlier one that was kept.\<close>

definition collides :: "radix_key \<Rightarrow> radix_key \<Rightarrow> bool" where
  "collides k1 k2 \<longleftrightarrow> key_ns k1 = key_ns k2 \<and> in_batch_deprioritize_threshold \<le> key_len k1
     \<and> in_batch_deprioritize_threshold \<le> key_len k2
     \<and> take in_batch_deprioritize_threshold (token_ids k1) = take in_batch_deprioritize_threshold (token_ids k2)"

fun in_batch_ref :: "radix_key list \<Rightarrow> nat list \<Rightarrow> cache_req list \<Rightarrow> nat list" where
  "in_batch_ref kept dep [] = dep"
| "in_batch_ref kept dep (r # rs) =
     (if length (rq_prefix r) \<le> in_batch_check_threshold then
        if \<exists>k \<in> set kept. collides k (key_of r) then in_batch_ref kept (rq_id r # dep) rs
        else in_batch_ref (key_of r # kept) dep rs
      else in_batch_ref kept dep rs)"

definition token_content :: "radix_cache \<Rightarrow> nat set \<Rightarrow> (nat \<Rightarrow> annotated) \<Rightarrow> ((string option \<times> nat option) \<times> tok list) set" where
  "token_content c L P = (\<lambda>(ns, ps). (ns, map fst ps)) ` content c L P"

definition queue_tree_ok :: "radix_cache \<Rightarrow> radix_key list \<Rightarrow> bool" where
  "queue_tree_ok t kept \<longleftrightarrow> (\<exists>L P. radix_inv t L P (\<lambda>_. 0) \<and> \<not> disable t \<and> \<not> is_eagle t \<and> cache_page_size t = 1
     \<and> token_content t L P = {(key_ns k, ts) |k ts. k \<in> set kept \<and> token_ids k \<noteq> [] \<and> prefix ts (token_ids k)})"

lemma queue_reset_ok: "cache_page_size t = 1 \<Longrightarrow> \<not> disable t \<Longrightarrow> \<not> is_eagle t \<Longrightarrow> queue_tree_ok (radix_reset t) []"
  unfolding queue_tree_ok_def
  by (rule exI [of _ "{root_node (radix_reset t)}"], rule exI [of _ "\<lambda>_. []"])
    (use radix_reset_inv [of t] in \<open>simp add: token_content_def radix_reset_content\<close>,
     simp add: radix_reset_def new_tree_node_def)

lemma lookup_plain: "\<not> is_eagle c \<Longrightarrow> cache_page_size c = 1 \<Longrightarrow> lookup_key c key = key"
  by (simp add: lookup_key_def aligned_key_def key_convert_def)

text \<open>The in-batch lookup finds a run of the threshold's length exactly when the key collides.\<close>

lemma queue_match_ok:
  assumes "queue_tree_ok t kept"
  shows "\<exists>vs n t1. match_prefix key t = Inr (vs, n, t1) \<and> queue_tree_ok t1 kept
    \<and> (in_batch_deprioritize_threshold \<le> length vs \<longleftrightarrow> (\<exists>k \<in> set kept. collides k key))"
proof (cases "token_ids key = []")
  case True
  then show ?thesis using assms
    by (simp add: match_prefix_def key_len_def collides_def in_batch_deprioritize_threshold_def)
next
  case False
  let ?N = in_batch_deprioritize_threshold
  obtain L P where t: "radix_inv t L P (\<lambda>_. 0)" "\<not> disable t" "\<not> is_eagle t" "cache_page_size t = 1"
    and tc: "token_content t L P = {(key_ns k, ts) |k ts. k \<in> set kept \<and> token_ids k \<noteq> [] \<and> prefix ts (token_ids k)}"
    using assms by (auto simp: queue_tree_ok_def)
  note lk = lookup_plain [OF t(3,4)]
  have ne: "cache_page_size t = 1 \<Longrightarrow> token_ids (lookup_key t key) \<noteq> []" using False by (simp add: lk)
  from match_prefix_walked [OF t(1,2) False ne] obtain vs n t1 L1 P1
    where m: "match_prefix key t = Inr (vs, n, t1)"
      and w: "walked t L P (\<lambda>_. 0) (root_node t) key (length vs) vs n t1 L1 P1" unfolding lk by blast
  note wf = radix_invD(1) [OF t(1)]
  have ext: "radix_inv t1 L1 P1 (\<lambda>_. 0)" "tree_ext t L P t1 L1 P1" "length vs \<le> key_len key" using w by (auto simp: walked_def)
  have ok: "queue_tree_ok t1 kept"
    unfolding queue_tree_ok_def using ext t tc
    by (intro exI [of _ L1] exI [of _ P1]) (auto simp: tree_ext_def same_frame_def token_content_def)
  have "\<exists>k \<in> set kept. collides k key" if N: "?N \<le> length vs"
  proof -
    have "0 < length vs" using N unfolding in_batch_deprioritize_threshold_def by linarith
    from walked_content [OF w wf this]
    have "(key_ns key, map fst (zip (take (length vs) (token_ids key)) vs)) \<in> token_content t L P"
      by (force simp: token_content_def)
    then have "(key_ns key, take (length vs) (token_ids key)) \<in> token_content t L P" using ext(3) by (simp add: key_len_def)
    then obtain k where k: "k \<in> set kept" "key_ns k = key_ns key" "prefix (take (length vs) (token_ids key)) (token_ids k)"
      unfolding tc by auto
    then obtain zs where "token_ids k = take (length vs) (token_ids key) @ zs" by (auto simp: prefix_def)
    then have "take ?N (token_ids k) = take ?N (token_ids key)" "length vs \<le> key_len k"
      using N ext(3) by (auto simp: key_len_def min_def)
    with k N ext(3) show ?thesis by (auto simp: collides_def)
  qed
  moreover have "?N \<le> length vs" if "k \<in> set kept" "collides k key" for k
  proof -
    have "token_ids k \<noteq> []" using that(2) by (auto simp: collides_def key_len_def in_batch_deprioritize_threshold_def)
    moreover have "prefix (take ?N (token_ids key)) (token_ids k)"
      using that(2) unfolding collides_def by (metis take_is_prefix)
    ultimately have "(key_ns key, take ?N (token_ids key)) \<in> token_content t L P"
      unfolding tc mem_Collect_eq using that unfolding collides_def by (intro exI [of _ k] exI conjI) simp_all
    then obtain ps where ps: "(key_ns key, ps) \<in> content t L P" "map fst ps = take ?N (token_ids key)"
      by (auto simp: token_content_def)
    have "length ps < length vs + cache_page_size t"
      by (rule walked_longest [OF w wf]) (use ps t(4) take_is_prefix in auto)
    moreover have "length ps = ?N" using arg_cong [OF ps(2), of length] that(2) by (simp add: collides_def key_len_def)
    ultimately show ?thesis using t(4) by simp
  qed
  ultimately show ?thesis using m ok by blast
qed

lemma queue_insert_ok:
  assumes "queue_tree_ok t kept"
  shows "\<exists>j t1. radix_insert key (replicate (key_len key) 0) t = Inr (j, t1) \<and> queue_tree_ok t1 (key # kept)"
proof -
  obtain L P where t: "radix_inv t L P (\<lambda>_. 0)" "\<not> disable t" "\<not> is_eagle t" "cache_page_size t = 1"
    and tc: "token_content t L P = {(key_ns k, ts) |k ts. k \<in> set kept \<and> token_ids k \<noteq> [] \<and> prefix ts (token_ids k)}"
    using assms by (auto simp: queue_tree_ok_def)
  let ?v = "replicate (key_len key) (0::int)"
  have k: "key = key_convert t key" "cache_page_size t dvd key_len key" "?v = (if is_eagle t then take (key_len key) ?v else ?v)"
    "length ?v = key_len key" using t by (simp_all add: key_convert_def)
  obtain j us n c1 L1 P1 t1 L' P' where r: "radix_insert key ?v t = Inr (j, t1)"
    and w: "walked t L P (\<lambda>_. 0) (root_node t) key j us n c1 L1 P1" and inv: "radix_inv t1 L' P' (\<lambda>_. 0)"
    and fr: "cache_page_size t1 = cache_page_size t" "disable t1 = disable t" "is_eagle t1 = is_eagle t"
    and ct: "content t1 L' P' = content t L P \<union> {(key_ns key, ps) |ps. prefix ps (zip (token_ids key) (us @ drop j ?v)) \<and> key_len key \<noteq> 0}"
    by (rule radix_insert_walked [OF t(1,2) k(1,2,3,4)])
  have len: "length (us @ drop j ?v) = length (token_ids key)" using w by (simp add: walked_def key_len_def)
  have "(\<lambda>(ns, ps). (ns, map fst ps)) ` {(key_ns key, ps) |ps. prefix ps (zip (token_ids key) (us @ drop j ?v)) \<and> key_len key \<noteq> 0}
      = {(key_ns key, ts) |ts. token_ids key \<noteq> [] \<and> prefix ts (token_ids key)}" (is "?A = ?B")
  proof (intro equalityI subsetI)
    fix x assume "x \<in> ?A"
    then show "x \<in> ?B" using map_mono_prefix [of _ _ fst] len by (fastforce simp: key_len_def)
  next
    fix x assume "x \<in> ?B"
    then obtain ts where ts: "x = (key_ns key, ts)" "token_ids key \<noteq> []" "prefix ts (token_ids key)" by blast
    let ?ps = "take (length ts) (zip (token_ids key) (us @ drop j ?v))"
    have "map fst ?ps = take (length ts) (token_ids key)" using len by (simp add: take_map [symmetric])
    also have "\<dots> = ts" using ts(3) by (auto simp: prefix_def)
    finally have "map fst ?ps = ts" .
    moreover have "(key_ns key, ?ps) \<in> {(key_ns key, ps) |ps. prefix ps (zip (token_ids key) (us @ drop j ?v)) \<and> key_len key \<noteq> 0}"
      using ts(2) by (simp add: take_is_prefix key_len_def)
    ultimately show "x \<in> ?A" unfolding ts(1) by (intro image_eqI [where x = "(key_ns key, ?ps)"]) (simp_all only: prod.case)
  qed
  then have "token_content t1 L' P' = token_content t L P \<union> {(key_ns key, ts) |ts. token_ids key \<noteq> [] \<and> prefix ts (token_ids key)}"
    by (simp add: token_content_def ct image_Un)
  then have "token_content t1 L' P' = {(key_ns k, ts) |k ts. k \<in> set (key # kept) \<and> token_ids k \<noteq> [] \<and> prefix ts (token_ids k)}"
    unfolding tc by auto
  then have "queue_tree_ok t1 (key # kept)" unfolding queue_tree_ok_def using inv fr t by auto
  with r show ?thesis by blast
qed

section \<open>The prefix matches of a queue\<close>

text \<open>What the scan may change of a request.\<close>

definition rest_of :: "cache_req \<Rightarrow> cache_req" where
  "rest_of r = r\<lparr>rq_fill_ids := [], rq_prefix := [], rq_last_node := None\<rparr>"

text \<open>A request whose lookup does not raise: its radix ids cover its prompt, and, under EAGLE with page size 1, its key
  is not a single token, which has no bigram.\<close>

definition req_ready :: "radix_cache \<Rightarrow> cache_req \<Rightarrow> bool" where
  "req_ready c r \<longleftrightarrow> length (rq_radix_ids r) = length (rq_origin_ids r)
     \<and> (is_eagle c \<and> cache_page_size c = 1 \<longrightarrow> length (token_ids (key_of r)) \<noteq> 1)"

lemma key_of_scanned [simp]: "key_of (r\<lparr>rq_fill_ids := f, rq_prefix := p, rq_last_node := n\<rparr>) = key_of r"
proof -
  let ?r = "r\<lparr>rq_fill_ids := f, rq_prefix := p, rq_last_node := n\<rparr>"
  have key: "key_of q = (case build_radix_key q (int (length (fst (adjust_max_prefix_ids q)))) of Inr k \<Rightarrow> k
      | Inl _ \<Rightarrow> \<lparr>token_ids = [], extra_key = None, key_dp_rank = None\<rparr>)" for q
  proof -
    have "build_radix_key (snd (adjust_max_prefix_ids q)) m = build_radix_key q m" for m
      by (simp add: adjust_max_prefix_ids_def build_radix_key_def Let_def)
    then show ?thesis
      by (cases "build_radix_key q (int (length (fst (adjust_max_prefix_ids q))))")
        (simp_all add: key_of_def req_match_key_def split_beta)
  qed
  have "fst (adjust_max_prefix_ids ?r) = fst (adjust_max_prefix_ids r)" by (simp add: adjust_max_prefix_ids_def Let_def)
  moreover have "build_radix_key ?r m = build_radix_key r m" for m by (simp add: build_radix_key_def Let_def)
  ultimately show ?thesis by (simp only: key)
qed

lemma req_match_key_of:
  assumes "length (rq_radix_ids r) = length (rq_origin_ids r)"
  shows "req_match_key r = Inr (key_of r, r\<lparr>rq_fill_ids := rq_origin_ids r @ rq_output_ids r\<rparr>)"
  using req_match_key_ok [OF assms] by (auto simp: key_of_def)

lemma convert_to_bigram_ne: "ts \<noteq> [] \<Longrightarrow> length ts \<noteq> 1 \<Longrightarrow> convert_to_bigram_key ts \<noteq> []"
  by (cases ts; cases "tl ts") (auto simp: convert_to_bigram_key_def)

lemma tree_match_ok:
  assumes inv: "radix_inv c L P H" and "\<not> disable c" 
    and safe: "is_eagle c \<and> cache_page_size c = 1 \<longrightarrow> length (token_ids key) \<noteq> 1"
  shows "\<exists>vs n c1 L1 P1. match_prefix key c = Inr (vs, n, c1) \<and> radix_inv c1 L1 P1 H \<and> tree_ext c L P c1 L1 P1 \<and> n \<in> L1"
proof (cases "token_ids key = []")
  case True
  then show ?thesis using inv tree_wfD(2) [OF radix_invD(1) [OF inv]]
    by (intro exI [of _ "[]"] exI [of _ "root_node c"] exI [of _ c] exI [of _ L] exI [of _ P])
      (simp add: match_prefix_def key_len_def)
next
  case False
  have ne: "token_ids (lookup_key c key) \<noteq> []" if "cache_page_size c = 1"
    using False safe that convert_to_bigram_ne [of "token_ids key"]
    by (auto simp: lookup_key_def aligned_key_def key_convert_def)
  from match_prefix_walked [OF inv assms(2) False ne] show ?thesis unfolding walked_def by blast
qed

lemma match_round_ok:
  assumes inv: "radix_inv c L P H" and "\<not> disable c" "req_ready c r" and t: "queue_tree_ok t kept"
  shows "\<exists>r2 dep2 c2 L2 P2 t2. match_round r (dep, c, t) = Inr (r2, dep2, c2, t2)
    \<and> rest_of r2 = rest_of r \<and> key_of r2 = key_of r \<and> rq_id r2 = rq_id r
    \<and> radix_inv c2 L2 P2 H \<and> tree_ext c L P c2 L2 P2 \<and> (\<exists>n \<in> L2. rq_last_node r2 = Some n)
    \<and> (if length (rq_prefix r2) \<le> in_batch_check_threshold then
         (if \<exists>k \<in> set kept. collides k (key_of r) then dep2 = rq_id r # dep \<and> queue_tree_ok t2 kept
          else dep2 = dep \<and> queue_tree_ok t2 (key_of r # kept))
       else dep2 = dep \<and> queue_tree_ok t2 kept)"
proof -
  from assms(3) have rr: "length (rq_radix_ids r) = length (rq_origin_ids r)"
      "is_eagle c \<and> cache_page_size c = 1 \<longrightarrow> length (token_ids (key_of r)) \<noteq> 1"
    by (simp_all add: req_ready_def)
  obtain vs n c1 L1 P1 where m: "match_prefix (key_of r) c = Inr (vs, n, c1)" "radix_inv c1 L1 P1 H" "tree_ext c L P c1 L1 P1" "n \<in> L1"
    using tree_match_ok [OF inv assms(2) rr(2)] by blast
  obtain us k t1 where u: "match_prefix (key_of r) t = Inr (us, k, t1)" "queue_tree_ok t1 kept"
    "in_batch_deprioritize_threshold \<le> length us \<longleftrightarrow> (\<exists>k \<in> set kept. collides k (key_of r))"
    using queue_match_ok [OF t] by blast
  obtain j t2 where i: "radix_insert (key_of r) (replicate (key_len (key_of r)) 0) t1 = Inr (j, t2)" "queue_tree_ok t2 (key_of r # kept)"
    using queue_insert_ok [OF u(2)] by blast
  define r2 where "r2 = r\<lparr>rq_fill_ids := rq_origin_ids r @ rq_output_ids r, rq_prefix := vs, rq_last_node := Some n\<rparr>"
  have r2: "rest_of r2 = rest_of r" "key_of r2 = key_of r" "rq_id r2 = rq_id r" "rq_prefix r2 = vs" "rq_last_node r2 = Some n"
    by (simp_all add: r2_def rest_of_def)
  note run = match_round_def [of r, THEN fun_cong, of "(dep, c, t)", unfolded prod.case req_match_key_of [OF rr(1)] rbind_Inr m(1) Let_def,
      simplified, folded r2_def]
  show ?thesis
  proof (cases "length vs \<le> in_batch_check_threshold")
    case False
    then have "match_round r (dep, c, t) = Inr (r2, dep, c1, t)" unfolding run by simp
    with r2 m t False show ?thesis by auto
  next
    case True
    show ?thesis
    proof (cases "\<exists>k \<in> set kept. collides k (key_of r)")
      case col: True
      then have "match_round r (dep, c, t) = Inr (r2, rq_id r # dep, c1, t1)" unfolding run using True u by simp
      with r2 m u True col show ?thesis
        by (intro exI [of _ r2] exI [of _ "rq_id r # dep"] exI [of _ c1] exI [of _ L1] exI [of _ P1] exI [of _ t1]) simp
    next
      case col: False
      then have "match_round r (dep, c, t) = Inr (r2, dep, c1, t2)" unfolding run using True u i by simp
      with r2 m i True col show ?thesis
        by (intro exI [of _ r2] exI [of _ dep] exI [of _ c1] exI [of _ L1] exI [of _ P1] exI [of _ t2]) simp
    qed
  qed
qed

lemma match_rounds_ok:
  assumes "radix_inv c L P H" "\<not> disable c" "\<forall>r \<in> set q. req_ready c r" "queue_tree_ok t kept"
  shows "\<exists>q1 c1 L1 P1 t1. match_rounds q (dep, c, t) = Inr (q1, in_batch_ref kept dep q1, c1, t1)
    \<and> map rest_of q1 = map rest_of q \<and> map key_of q1 = map key_of q
    \<and> radix_inv c1 L1 P1 H \<and> tree_ext c L P c1 L1 P1 \<and> (\<forall>r \<in> set q1. \<exists>n \<in> L1. rq_last_node r = Some n)
    \<and> (\<exists>kept1. queue_tree_ok t1 kept1)"
  using assms
proof (induction q arbitrary: c L P t kept dep)
  case Nil
  then show ?case by (intro exI [of _ "[]"] exI [of _ c] exI [of _ L] exI [of _ P] exI [of _ t]) auto
next
  case (Cons r q)
  have rdy: "req_ready c r" using Cons.prems(3) by simp
  obtain r2 dep2 c2 L2 P2 t2 where m: "match_round r (dep, c, t) = Inr (r2, dep2, c2, t2)"
    "rest_of r2 = rest_of r" "key_of r2 = key_of r" "rq_id r2 = rq_id r"
    "radix_inv c2 L2 P2 H" "tree_ext c L P c2 L2 P2" "\<exists>n \<in> L2. rq_last_node r2 = Some n"
    and upd: "if length (rq_prefix r2) \<le> in_batch_check_threshold then
         (if \<exists>k \<in> set kept. collides k (key_of r) then dep2 = rq_id r # dep \<and> queue_tree_ok t2 kept
          else dep2 = dep \<and> queue_tree_ok t2 (key_of r # kept))
       else dep2 = dep \<and> queue_tree_ok t2 kept"
    using match_round_ok [OF Cons.prems(1,2) rdy Cons.prems(4), of dep] by (elim exE conjE) (rule that; assumption)
  obtain kept2 where k2: "queue_tree_ok t2 kept2"
    "\<And>q1. in_batch_ref kept2 dep2 q1 = in_batch_ref kept dep (r2 # q1)"
    using upd m(3,4) that by (auto split: if_splits)
  have fr: "\<not> disable c2" "\<forall>r \<in> set q. req_ready c2 r"
    using m(6) Cons.prems(2,3) by (auto simp: tree_ext_def same_frame_def req_ready_def)
  obtain q1 c1 L1 P1 t1 kept1 where q1: "match_rounds q (dep2, c2, t2) = Inr (q1, in_batch_ref kept2 dep2 q1, c1, t1)"
    "map rest_of q1 = map rest_of q" "map key_of q1 = map key_of q"
    "radix_inv c1 L1 P1 H" "tree_ext c2 L2 P2 c1 L1 P1" "\<forall>r \<in> set q1. \<exists>n \<in> L1. rq_last_node r = Some n" "queue_tree_ok t1 kept1"
    using Cons.IH [OF m(5) fr k2(1), of dep2] by blast
  have "match_rounds (r # q) (dep, c, t) = Inr (r2 # q1, in_batch_ref kept dep (r2 # q1), c1, t1)"
    using m(1) q1(1) k2(2) by simp
  moreover have "tree_ext c L P c1 L1 P1" by (rule tree_ext_trans [OF m(6) q1(5)])
  moreover have "\<exists>n \<in> L1. rq_last_node r2 = Some n" using m(7) q1(5) by (auto simp: tree_ext_def)
  ultimately show ?case using q1 m
    by (intro exI [of _ "r2 # q1"] exI [of _ c1] exI [of _ L1] exI [of _ P1] exI [of _ t1]) auto
qed

section \<open>The depth-first sort\<close>

lemma last_node_to_reqs_eq: "last_node_to_reqs q n = filter (\<lambda>r. rq_last_node r = n) q"
proof -
  have "foldl (\<lambda>d r. d(rq_last_node r := d (rq_last_node r) @ [r])) d q n = d n @ filter (\<lambda>r. rq_last_node r = n) q" for d
    by (induction q arbitrary: d) auto
  then show ?thesis by (simp add: last_node_to_reqs_def)
qed

lemma mset_by_node:
  assumes "distinct ns" "\<forall>r \<in> set q. \<exists>n \<in> set ns. rq_last_node r = Some n"
  shows "mset (concat (map (\<lambda>n. filter (\<lambda>r. rq_last_node r = Some n) q) ns)) = mset q"
  using assms(2)
proof (induction q)
  case (Cons r q)
  then obtain n where n: "n \<in> set ns" "rq_last_node r = Some n" by auto
  then obtain as bs where ns: "ns = as @ n # bs" "n \<notin> set as" "n \<notin> set bs"
    using assms(1) by (metis distinct.simps(2) distinct_append not_distinct_conv_prefix split_list_first distinct_append disjoint_iff)
  have drop: "map (\<lambda>n. filter (\<lambda>r. rq_last_node r = Some n) (r # q)) xs = map (\<lambda>n. filter (\<lambda>r. rq_last_node r = Some n) q) xs"
    if "n \<notin> set xs" for xs
    using that n(2) by (induction xs) auto
  have "mset (concat (map (\<lambda>n. filter (\<lambda>r. rq_last_node r = Some n) (r # q)) ns))
      = add_mset r (mset (concat (map (\<lambda>n. filter (\<lambda>r. rq_last_node r = Some n) q) ns)))"
    unfolding ns(1) map_append list.map concat_append concat.simps(2) drop [OF ns(2)] drop [OF ns(3)] using n(2) by simp
  with Cons show ?case by simp
qed simp

lemma sort_by_dfs_weight_ok:
  assumes wf: "tree_wf c L P" and q: "\<forall>r \<in> set q. \<exists>n \<in> L. rq_last_node r = Some n"
  shows "\<exists>q1. sort_by_dfs_weight q c = Inr q1 \<and> mset q1 = mset q"
proof -
  let ?d = "last_node_to_reqs q" and ?r = "root_node c"
  note root = tree_wfD(2) [OF wf] deeper_root [OF wf]
  obtain w where w: "calc_weight (next_id c) c ?r (\<lambda>n. int (length (?d (Some n)))) = Inr w"
    using calc_weight_ok [OF wf root] by blast
  obtain ns where ns: "get_dfs_priority (next_id c) c w ?d ?r [] = Inr ([] @ concat (map (\<lambda>m. ?d (Some m)) ns))"
    "distinct ns" "set ns = subtree c L ?r"
    using get_dfs_priority_ok [OF wf root] by blast
  have "mset (concat (map (\<lambda>m. ?d (Some m)) ns)) = mset q"
    unfolding last_node_to_reqs_eq by (rule mset_by_node [OF ns(2)]) (use q ns(3) subtree_root [OF wf] in auto)
  then show ?thesis using w ns(1) by (simp add: sort_by_dfs_weight_def Let_def)
qed

section \<open>The policy\<close>

definition policy_ok :: "schedule_policy \<Rightarrow> (nat \<Rightarrow> nat) \<Rightarrow> bool" where
  "policy_ok S H \<longleftrightarrow> (\<exists>L P. radix_inv (sp_tree S) L P H) \<and> (is_cache_aware (sp_policy S) \<longrightarrow> \<not> disable (sp_tree S))
     \<and> cache_page_size (sp_queue_tree S) = 1 \<and> \<not> disable (sp_queue_tree S) \<and> \<not> is_eagle (sp_queue_tree S)"

lemma schedule_policy_init_ok:
  assumes "schedule_policy_init s c clk al = Inr S" "radix_inv c L P H"
  shows "policy_ok S H"
proof -
  obtain p where p: "validate_and_adjust_policy s (disable c) = Inr p"
    and S: "S = \<lparr>sp_policy = p, sp_tree = c, sp_queue_tree = queue_tree_init clk al\<rparr>"
    using assms(1) by (auto simp: schedule_policy_init_def rbind_eq_Inr_iff)
  have "is_cache_aware p \<longrightarrow> \<not> disable c"
    using p by (auto simp: validate_and_adjust_policy_def cache_agnostic_def is_cache_aware_def split: option.splits if_splits)
  moreover have "cache_page_size (queue_tree_init clk al) = 1" "\<not> disable (queue_tree_init clk al)" "\<not> is_eagle (queue_tree_init clk al)"
    by (simp_all add: queue_tree_init_def radix_reset_def new_tree_node_def)
  ultimately show ?thesis unfolding policy_ok_def S using assms(2) by (intro conjI) (simp, blast, simp_all)
qed

lemma compute_prefix_matches_ok:
  assumes ok: "policy_ok S H" and aware: "is_cache_aware (sp_policy S)" and q: "\<forall>r \<in> set q. req_ready (sp_tree S) r"
  shows "\<exists>q1 S1. compute_prefix_matches S q = Inr (in_batch_ref [] [] q1, q1, S1) \<and> policy_ok S1 H \<and> sp_policy S1 = sp_policy S
    \<and> map rest_of q1 = map rest_of q
    \<and> (\<exists>L P. tree_wf (sp_tree S1) L P \<and> (\<forall>r \<in> set q1. \<exists>n \<in> L. rq_last_node r = Some n))"
proof -
  obtain L P where inv: "radix_inv (sp_tree S) L P H" and nd: "\<not> disable (sp_tree S)"
    and t: "cache_page_size (sp_queue_tree S) = 1" "\<not> disable (sp_queue_tree S)" "\<not> is_eagle (sp_queue_tree S)"
    using ok aware by (auto simp: policy_ok_def)
  obtain q1 c1 L1 P1 t1 kept1 where m: "match_rounds q ([], sp_tree S, radix_reset (sp_queue_tree S)) = Inr (q1, in_batch_ref [] [] q1, c1, t1)"
    "map rest_of q1 = map rest_of q" "radix_inv c1 L1 P1 H" "tree_ext (sp_tree S) L P c1 L1 P1"
    "\<forall>r \<in> set q1. \<exists>n \<in> L1. rq_last_node r = Some n" "queue_tree_ok t1 kept1"
    using match_rounds_ok [OF inv nd q queue_reset_ok [OF t], of "[]"] by blast
  have "policy_ok (S\<lparr>sp_tree := c1, sp_queue_tree := t1\<rparr>) H"
    using m(3,4,6) nd by (auto simp: policy_ok_def queue_tree_ok_def tree_ext_def same_frame_def)
  then show ?thesis using m radix_invD(1) [OF m(3)]
    by (intro exI [of _ q1] exI [of _ "S\<lparr>sp_tree := c1, sp_queue_tree := t1\<rparr>"]) (auto simp: compute_prefix_matches_def)
qed

lemma mset_sort_by_longest_prefix: "mset (sort_by_longest_prefix dep q) = mset q"
  by (simp add: sort_by_longest_prefix_def)


lemma calc_priority_ok:
  assumes ok: "policy_ok S H"
    and q: "is_cache_aware (determine_active_policy S q) \<longrightarrow> (\<forall>r \<in> set q. req_ready (sp_tree S) r)" and sh: "\<And>xs. mset (shuffle xs) = mset xs"
  shows "\<exists>b q1 S1. calc_priority shuffle S q = Inr (b, q1, S1) \<and> policy_ok S1 H \<and> mset (map rest_of q1) = mset (map rest_of q)"
proof (cases "is_cache_aware (determine_active_policy S q)")
  case False
  then show ?thesis using ok sh
    by (auto simp: calc_priority_def Let_def sort_by_longest_output_def is_cache_aware_def split: policy.splits)
next
  case True
  then have aware: "is_cache_aware (sp_policy S)" "sp_policy S \<noteq> FCFS"
    by (auto simp: determine_active_policy_def is_cache_aware_def split: if_splits)
  obtain q1 S1 where m: "compute_prefix_matches S q = Inr (in_batch_ref [] [] q1, q1, S1)" "policy_ok S1 H"
    "map rest_of q1 = map rest_of q" "\<exists>L P. tree_wf (sp_tree S1) L P \<and> (\<forall>r \<in> set q1. \<exists>n \<in> L. rq_last_node r = Some n)"
    using compute_prefix_matches_ok [OF ok aware(1) mp [OF q True]] by blast
  have eq: "mset (map rest_of q2) = mset (map rest_of q)" if "mset q2 = mset q1" for q2
    using that m(3) by (metis mset_map)
  show ?thesis
  proof (cases "determine_active_policy S q = LPM")
    case lpm: True
    then show ?thesis using m True aware eq [OF mset_sort_by_longest_prefix]
      by (intro exI [of _ True] exI [of _ "sort_by_longest_prefix (in_batch_ref [] [] q1) q1"] exI [of _ S1])
        (simp add: calc_priority_def Let_def)
  next
    case False
    obtain q2 where "sort_by_dfs_weight q1 (sp_tree S1) = Inr q2" "mset q2 = mset q1"
      using m(4) sort_by_dfs_weight_ok by blast
    then show ?thesis using m False True aware eq
      by (intro exI [of _ True] exI [of _ q2] exI [of _ S1]) (simp add: calc_priority_def Let_def)
  qed
qed

section \<open>Properties\<close>

text \<open>A policy over an empty cache and a request of three tokens, for the examples.\<close>

definition demo_policy :: "string \<Rightarrow> schedule_policy result" where
  "demo_policy s = schedule_policy_init s (demo_cache 1) int (kv_allocator (demo_cache 1))"

definition demo_waiting :: "nat \<Rightarrow> cache_req" where
  "demo_waiting k = \<lparr>rq_id = k, rq_pool_idx = None, rq_is_chunked = 0, rq_committed_len = 0, rq_rank = Some 0,
     rq_recurrent = None, rq_track = None, rq_next_track = None, rq_last_track = None,
     rq_origin_ids = [1, 2, 3], rq_radix_ids = [1, 2, 3], rq_output_ids = [], rq_fill_ids = [], rq_extra_key = None,
     rq_max_new = int k, rq_return_logprob = False, rq_logprob_start = 0, rq_return_hidden = False, rq_hidden_len = 0,
     rq_prefix = [], rq_last_node = None, rq_protected_len = 0, rq_matched_len = 0, rq_allocated_len = 0,
     rq_committed_freed = False, rq_over_freed = False, rq_swa_evicted = 0\<rparr>"

lemma demo_policy_dfs: "\<exists>S. demo_policy ''dfs-weight'' = Inr S \<and> sp_policy S = DFS_WEIGHT \<and> sp_tree S = demo_cache 1"
  by (simp add: demo_policy_def schedule_policy_init_def validate_and_adjust_policy_def cache_aware_def)


lemma demo_policy_ok: "demo_policy s = Inr S \<Longrightarrow> policy_ok S (\<lambda>_. 0)"
  unfolding demo_policy_def using demo_cache_inv [OF zero_less_one] schedule_policy_init_ok by blast

lemma demo_waiting_ready: "req_ready (demo_cache 1) (demo_waiting k)"
  by (simp add: req_ready_def demo_waiting_def)

text \<open>C18. No policy loses or duplicates a request. On a well-formed tree cache \<open>calc_priority\<close> returns
  without an exception, whatever the policy (longest prefix, depth-first weight with its two recursions
  over the tree, longest output, shuffle or first come): the queue afterwards holds exactly the requests
  it held before, changed at most in the attributes of the prefix match, and the cache's invariant and
  locks are kept. The cache-aware policies look every request up, so for them every request needs radix ids for
  its whole prompt and, under EAGLE with page size 1, a key that is not a single token (C40 shows that the
  lookup of such a key raises); the other policies need nothing of the requests.\<close>

theorem calc_priority_permutes:
  assumes "policy_ok S H"
    and "is_cache_aware (determine_active_policy S q) \<longrightarrow> (\<forall>r \<in> set q. req_ready (sp_tree S) r)"
    and "\<And>xs. mset (shuffle xs) = mset xs"
  shows "\<exists>b q1 S1. calc_priority shuffle S q = Inr (b, q1, S1) \<and> policy_ok S1 H \<and> mset (map rest_of q1) = mset (map rest_of q)"
  by (rule calc_priority_ok [OF assms])

theorem calc_priority_permutes_witness:
  "\<exists>S b q1 S1. demo_policy ''dfs-weight'' = Inr S \<and> calc_priority rev S [demo_waiting 1, demo_waiting 2] = Inr (b, q1, S1)
     \<and> mset (map rest_of q1) = mset (map rest_of [demo_waiting 1, demo_waiting 2])"
proof -
  obtain S where S: "demo_policy ''dfs-weight'' = Inr S" "sp_tree S = demo_cache 1" using demo_policy_dfs by blast
  have q: "\<forall>r \<in> set [demo_waiting 1, demo_waiting 2]. req_ready (sp_tree S) r" using S(2) demo_waiting_ready by simp
  have sh: "mset (rev xs) = mset xs" for xs :: "cache_req list" by simp
  from calc_priority_permutes [OF demo_policy_ok [OF S(1)] impI [OF q], of rev] sh S(1) show ?thesis by blast
qed



end
