(* ===== verification/Kv_Release.thy ===== *)
theory Kv_Release
  imports Cache_Req Radix_Evict
begin

text \<open>
  How a request's KV slots come and go: the request methods of the prefix cache (\<open>cache_finished_req\<close> and
  \<open>cache_unfinished_req\<close> of \<open>mem_cache/radix_cache.py\<close>) and the entry points of \<open>mem_cache/common.py\<close> that
  allocate with eviction and release. The state is the prefix cache, which holds the allocator, beside the request pool. A request
  without a request slot does not reach the cache methods (\<open>release_kv_cache\<close> returns early); the model raises
  there.
\<close>

section \<open>The prefix cache's request methods\<close>

record kv_world =
  kw_tree :: radix_cache
  kw_pool :: req_pool

definition set_alloc :: "sub_allocator \<Rightarrow> kv_world \<Rightarrow> kv_world" where
  "set_alloc al W = W\<lparr>kw_tree := (kw_tree W)\<lparr>kv_allocator := al\<rparr>\<rparr>"

definition world_free :: "int list \<Rightarrow> nat \<Rightarrow> kv_world \<Rightarrow> kv_world result" where
  "world_free xs d W = rbind (sub_free xs d (kv_allocator (kw_tree W))) (\<lambda>al. Inr (set_alloc al W))"

definition nonzero :: "int list \<Rightarrow> int list" where
  "nonzero xs = filter (\<lambda>x. x \<noteq> 0) xs"

definition req_read :: "cache_req \<Rightarrow> int \<Rightarrow> req_pool \<Rightarrow> int list result" where
  "req_read r n P = (case rq_pool_idx r of None \<Rightarrow> Inl TypeError | Some i \<Rightarrow> pool_read (int i) n P)"

definition dec_lock_node :: "nat option \<Rightarrow> radix_cache \<Rightarrow> radix_cache result" where
  "dec_lock_node n c = (case n of None \<Rightarrow> if disable c then Inr c else Inl AttributeError
     | Some k \<Rightarrow> rbind (dec_lock_ref k c) (\<lambda>(_, c1). Inr c1))"

text \<open>The start of the range the request owns: \<open>cache_protected_len\<close>, one less for the unmatched token that
  EAGLE carries along.\<close>

definition old_prefix_len :: "radix_cache \<Rightarrow> cache_req \<Rightarrow> int" where
  "old_prefix_len c r =
     (if is_eagle c \<and> rq_matched_len r < rq_protected_len r then rq_protected_len r - 1 else rq_protected_len r)"

definition page_aligned_len :: "radix_cache \<Rightarrow> int \<Rightarrow> int" where
  "page_aligned_len c n = (let actual = (if is_eagle c then n - 1 else n) in
     if cache_page_size c \<noteq> 1 then actual div int (cache_page_size c) * int (cache_page_size c) else actual)"

definition token_len :: "radix_cache \<Rightarrow> int \<Rightarrow> int" where
  "token_len c n = (if is_eagle c then n + 1 else n)"

definition key_slice :: "int \<Rightarrow> radix_key \<Rightarrow> radix_key" where
  "key_slice n k = k\<lparr>token_ids := py_slice (token_ids k) 0 n\<rparr>"

definition finished_insert :: "cache_req \<Rightarrow> bool \<Rightarrow> radix_key \<Rightarrow> int list \<Rightarrow> int \<Rightarrow> kv_world \<Rightarrow> kv_world result" where
  "finished_insert r is_insert key kv pal W =
     (let c = kw_tree W; old = old_prefix_len c r; d = req_rank r in
      if is_insert then
        rbind (radix_insert (key_slice (token_len c pal) key) (py_slice kv 0 pal) c) (\<lambda>(new, c1).
          world_free (py_slice kv old (int new)) d (W\<lparr>kw_tree := c1\<rparr>))
      else world_free (py_slice kv old pal) d W)"

definition cache_finished_req :: "cache_req \<Rightarrow> bool \<Rightarrow> kv_world \<Rightarrow> (cache_req \<times> kv_world) result" where
  "cache_finished_req r0 is_insert W =
     (case pop_committed_kv_cache r0 of (n, r) \<Rightarrow>
      let c = kw_tree W; d = req_rank r in
      if disable c then
        rbind (req_read r n (kw_pool W)) (\<lambda>kv. rbind (world_free (nonzero kv) d W) (\<lambda>W1. Inr (r, W1)))
      else
        rbind (build_radix_key r n) (\<lambda>key.
        rbind (req_read r n (kw_pool W)) (\<lambda>kv0.
        let kv = nonzero kv0; pal = page_aligned_len c n in
        rbind (if cache_page_size c \<noteq> 1 then world_free (py_slice kv pal (int (length kv))) d W else Inr W) (\<lambda>W1.
        rbind (finished_insert r is_insert key kv pal W1) (\<lambda>W2.
        rbind (dec_lock_node (rq_last_node r) (kw_tree W2)) (\<lambda>c3. Inr (r, W2\<lparr>kw_tree := c3\<rparr>)))))))"

definition cache_unfinished_req :: "cache_req \<Rightarrow> kv_world \<Rightarrow> (cache_req \<times> kv_world) result" where
  "cache_unfinished_req r W =
     (let c = kw_tree W; d = req_rank r; n = int (length (rq_fill_ids r)) in
      if disable c then Inr (r, W)
      else
        rbind (req_read r n (kw_pool W)) (\<lambda>kv.
        let pal = page_aligned_len c n;
            vals = (if cache_page_size c \<noteq> 1 then py_slice kv 0 pal else kv);
            old = old_prefix_len c r in
        rbind (build_radix_key r (token_len c pal)) (\<lambda>key.
        rbind (radix_insert key vals c) (\<lambda>(new, c1).
        rbind (world_free (py_slice kv old (int new)) d (W\<lparr>kw_tree := c1\<rparr>)) (\<lambda>W1.
        rbind (match_prefix key (kw_tree W1)) (\<lambda>(idx, node, c2).
        case rq_pool_idx r of None \<Rightarrow> Inl TypeError
        | Some i \<Rightarrow>
            rbind (pool_write (int i) (nat old) (py_slice idx old (int (length idx))) (kw_pool W1)) (\<lambda>P2.
            rbind (dec_lock_node (rq_last_node r) c2) (\<lambda>c3.
            rbind (inc_lock_ref node c3) (\<lambda>(_, c4).
            let m = int (length idx);
                prefix = (if cache_page_size c \<noteq> 1 then idx @ py_slice kv m (int (length kv))
                          else if is_eagle c then idx @ py_slice kv (n - 1) (int (length kv)) else idx) in
            Inr (r\<lparr>rq_matched_len := m, rq_protected_len := m, rq_prefix := prefix, rq_last_node := Some node\<rparr>,
                 \<lparr>kw_tree = c4, kw_pool = P2\<rparr>))))))))))"

section \<open>Allocation with eviction, and release\<close>

definition evict_from_tree_cache :: "(int list \<Rightarrow> nat) \<Rightarrow> nat \<Rightarrow> nat \<Rightarrow> radix_cache \<Rightarrow> radix_cache result" where
  "evict_from_tree_cache pick num_tokens d c =
     rbind (sub_available_size d (kv_allocator c)) (\<lambda>avail.
       if avail < num_tokens then rbind (evict pick (int num_tokens) (Some d) c) (\<lambda>(_, c1). Inr c1) else Inr c)"

text \<open>Without the saved state that speculative decoding asks for (\<open>backup_state\<close> copies the allocator, which
  is a value here).\<close>

definition alloc_token_slots :: "(int list \<Rightarrow> nat) \<Rightarrow> nat \<Rightarrow> nat \<Rightarrow> radix_cache \<Rightarrow> (int list \<times> radix_cache) result" where
  "alloc_token_slots pick num_tokens d c =
     rbind (evict_from_tree_cache pick num_tokens d c) (\<lambda>c1.
     rbind (sub_alloc num_tokens d (kv_allocator c1)) (\<lambda>(out, al).
       case out of None \<Rightarrow> Inl RuntimeError | Some xs \<Rightarrow> Inr (xs, c1\<lparr>kv_allocator := al\<rparr>)))"

definition alloc_paged_token_slots_extend ::
    "(int list \<Rightarrow> nat) \<Rightarrow> int list \<Rightarrow> int list \<Rightarrow> int list \<Rightarrow> nat \<Rightarrow> nat \<Rightarrow> radix_cache \<Rightarrow> (int list \<times> radix_cache) result" where
  "alloc_paged_token_slots_extend pick prefix_lens seq_lens last_loc extend_num_tokens d c =
     (let p = (case kv_allocator c of Tok a \<Rightarrow> page_size a | Pag a \<Rightarrow> page_size a);
          num_tokens = extend_num_tokens + length seq_lens * p in
      rbind (evict_from_tree_cache pick num_tokens d c) (\<lambda>c1.
      rbind (sub_alloc_extend prefix_lens seq_lens last_loc extend_num_tokens d (kv_allocator c1)) (\<lambda>(out, al).
        case out of None \<Rightarrow> Inl RuntimeError | Some xs \<Rightarrow> Inr (xs, c1\<lparr>kv_allocator := al\<rparr>))))"

text \<open>\<open>spec\<close> says that a speculative algorithm is configured.\<close>

definition release_kv_cache :: "cache_req \<Rightarrow> bool \<Rightarrow> bool \<Rightarrow> bool \<Rightarrow> kv_world \<Rightarrow> (cache_req \<times> kv_world) result" where
  "release_kv_cache r is_insert allow_overallocated spec W =
     (case rq_pool_idx r of None \<Rightarrow> Inr (r, W)
      | Some i \<Rightarrow>
          rbind (cache_finished_req r is_insert W) (\<lambda>(r1, W1).
          case pop_overallocated_kv_cache r1 of ((start0, end_p), r2) \<Rightarrow>
          if \<not> (allow_overallocated \<or> spec) \<and> start0 \<noteq> end_p then Inl AssertionError
          else
            let p = int (cache_page_size (kw_tree W1));
                start_p = (if 1 < p then num_pages_of p start0 * p else start0) in
            rbind (if start_p < end_p
                   then rbind (np_get (rp_table (kw_pool W1)) (int i)) (\<lambda>row.
                          world_free (nonzero (py_slice row start_p end_p)) (req_rank r) W1)
                   else Inr W1) (\<lambda>W2.
            rbind (pool_free r2 (kw_pool W2)) (\<lambda>(r3, P). Inr (r3, W2\<lparr>kw_pool := P\<rparr>)))))"

end
