(* ===== verification/Kv_Lifecycle.thy ===== *)
theory Kv_Lifecycle
  imports Kv_Release
begin

text \<open>
  What the release and caching paths do to the slots: every KV slot of a rank is free, held by the prefix tree
  or owned by one live request, and \<open>cache_unfinished_req\<close>, \<open>release_kv_cache\<close> and \<open>alloc_token_slots\<close> move slots
  between the three without losing or duplicating one. Page size 1; conservation holds without EAGLE, and the lemmas on
  the release, which cover both, show the one slot that EAGLE loses.
\<close>

section \<open>The slots of the tree, the allocator and the requests\<close>

text \<open>\<open>X r\<close> are the slots of rank \<open>r\<close> that live requests own; no slot is in two places. The page size is 1, so
  that the allocator takes any extent.\<close>

definition kv_ok :: "radix_cache \<Rightarrow> nat set \<Rightarrow> (nat \<Rightarrow> int multiset) \<Rightarrow> bool" where
  "kv_ok c L X \<longleftrightarrow> (\<forall>xs. sub_whole (kv_allocator c) xs) \<and> (\<forall>r. tree_slots c L r \<noteq> {#} \<longrightarrow> sub_ok (kv_allocator c) r)
     \<and> (\<forall>r. sub_ok (kv_allocator c) r \<longrightarrow> set_mset (tree_slots c L r + X r) \<subseteq> sub_slots (kv_allocator c) r
          \<and> (\<forall>s. count (mset (sub_avail (kv_allocator c) r) + tree_slots c L r + X r) s \<le> 1))"

definition rank_total :: "radix_cache \<Rightarrow> nat set \<Rightarrow> nat \<Rightarrow> int multiset" where
  "rank_total c L r = mset (sub_avail (kv_allocator c) r) + tree_slots c L r"

lemma kv_okD:
  assumes "kv_ok c L X"
  shows "sub_whole (kv_allocator c) xs" "tree_slots c L r \<noteq> {#} \<Longrightarrow> sub_ok (kv_allocator c) r"
    "sub_ok (kv_allocator c) r \<Longrightarrow> set_mset (tree_slots c L r + X r) \<subseteq> sub_slots (kv_allocator c) r"
    "sub_ok (kv_allocator c) r \<Longrightarrow> count (mset (sub_avail (kv_allocator c) r) + tree_slots c L r + X r) s \<le> 1"
  using assms by (simp_all add: kv_ok_def)

lemma kv_ok_slots_ok:
  assumes wf: "tree_wf c L P" and ok: "kv_ok c L X"
  shows "slots_ok c L"
  unfolding slots_ok_def
proof (intro conjI ballI allI impI)
  fix n assume n: "n \<in> L - {root_node c}"
  then obtain m where "token_ids (node_key (nodes c n)) \<noteq> []" "length (node_value (nodes c n)) = key_len (node_key (nodes c n))"
    using tree_nodeE [OF wf, of n] by (metis Diff_iff insertI1)
  then have "node_value (nodes c n) \<noteq> []" by (auto simp: key_len_def)
  moreover have "mset (node_value (nodes c n)) \<subseteq># tree_slots c L (node_dp_rank (nodes c n))"
    using tree_slots_remove [OF tree_wfD(1) [OF wf], of n c "node_dp_rank (nodes c n)"] n by simp
  ultimately have "tree_slots c L (node_dp_rank (nodes c n)) \<noteq> {#}" by auto
  then show "sub_ok (kv_allocator c) (node_dp_rank (nodes c n))" by (rule kv_okD(2) [OF ok])
  show "sub_whole (kv_allocator c) (node_value (nodes c n))" by (rule kv_okD(1) [OF ok])
next
  fix r assume r: "sub_ok (kv_allocator c) r"
  show "set_mset (tree_slots c L r) \<subseteq> sub_slots (kv_allocator c) r" using kv_okD(3) [OF ok r] by auto
  fix s
  show "count (mset (sub_avail (kv_allocator c) r) + tree_slots c L r) s \<le> 1" using kv_okD(4) [OF ok r, of s] by simp
qed

lemma sub_slots_pos: "sub_ok a r \<Longrightarrow> s \<in> sub_slots a r \<Longrightarrow> s \<noteq> 0"
  by (cases a) auto

text \<open>Freeing slots of a request.\<close>

lemma free_held:
  assumes ok: "kv_ok c L X" and d: "sub_ok (kv_allocator c) d" and xs: "mset xs \<subseteq># X d"
  shows "\<exists>al. sub_free xs d (kv_allocator c) = Inr al \<and> kv_ok (c\<lparr>kv_allocator := al\<rparr>) L (X(d := X d - mset xs))
    \<and> (\<forall>q. sub_ok al q = sub_ok (kv_allocator c) q)
    \<and> (\<forall>q. rank_total (c\<lparr>kv_allocator := al\<rparr>) L q = rank_total c L q + (if q = d then mset xs else {#}))"
proof -
  let ?a = "kv_allocator c"
  have "distinct (sub_avail ?a d @ xs)"
  proof (rule count_le_1_distinct, rule allI)
    fix s
    have "count (mset xs) s \<le> count (X d) s" using xs by (rule mset_subset_eq_count)
    moreover have "count (mset (sub_avail ?a d) + tree_slots c L d + X d) s \<le> 1" by (rule kv_okD(4) [OF ok d])
    ultimately show "count (mset (sub_avail ?a d @ xs)) s \<le> 1" by simp
  qed
  moreover have "set xs \<subseteq> sub_slots ?a d"
    using kv_okD(3) [OF ok d] set_mset_mono [OF xs] by auto
  ultimately obtain al where al: "sub_free xs d ?a = Inr al" "sub_ok al d" "sub_slots al = sub_slots ?a" "sub_whole al = sub_whole ?a"
    "mset (sub_avail al d) = mset (sub_avail ?a d) + mset xs"
    using sub.free_law [OF d kv_okD(1) [OF ok]] by blast
  have okq: "sub_ok al q = sub_ok ?a q" for q by (rule sub_ok_rank [OF d al(2,1)])
  have av: "mset (sub_avail al q) = mset (sub_avail ?a q) + (if q = d then mset xs else {#})" for q
    using al(5) sub_free_other [OF al(1), of q] by simp
  have ts: "tree_slots (c\<lparr>kv_allocator := al\<rparr>) L = tree_slots c L" by (rule ext) (simp add: tree_slots_def)
  let ?X = "X(d := X d - mset xs)"
  have "kv_ok (c\<lparr>kv_allocator := al\<rparr>) L ?X"
    unfolding kv_ok_def
  proof (intro conjI allI impI)
    show "sub_whole (kv_allocator (c\<lparr>kv_allocator := al\<rparr>)) ys" for ys using kv_okD(1) [OF ok] al(4) by simp
    show "sub_ok (kv_allocator (c\<lparr>kv_allocator := al\<rparr>)) q" if "tree_slots (c\<lparr>kv_allocator := al\<rparr>) L q \<noteq> {#}" for q
      using kv_okD(2) [OF ok] that by (simp add: ts okq)
    fix q assume "sub_ok (kv_allocator (c\<lparr>kv_allocator := al\<rparr>)) q"
    then have q: "sub_ok ?a q" by (simp add: okq)
    have "set_mset (?X q) \<subseteq> set_mset (X q)" by (auto dest: in_diffD)
    then show "set_mset (tree_slots (c\<lparr>kv_allocator := al\<rparr>) L q + ?X q) \<subseteq> sub_slots (kv_allocator (c\<lparr>kv_allocator := al\<rparr>)) q"
      using kv_okD(3) [OF ok q] by (auto simp: ts al(3))
    fix s
    have "mset (sub_avail al q) + ?X q = mset (sub_avail ?a q) + X q"
      using xs by (simp add: av)
    then have eq: "mset (sub_avail al q) + tree_slots c L q + ?X q = mset (sub_avail ?a q) + tree_slots c L q + X q"
      by (metis (no_types, lifting) add.assoc add.commute)
    have "kv_allocator (c\<lparr>kv_allocator := al\<rparr>) = al" by simp
    show "count (mset (sub_avail (kv_allocator (c\<lparr>kv_allocator := al\<rparr>)) q) + tree_slots (c\<lparr>kv_allocator := al\<rparr>) L q + ?X q) s \<le> 1"
      unfolding \<open>kv_allocator _ = al\<close> ts eq by (rule kv_okD(4) [OF ok q])
  qed
  moreover have "rank_total (c\<lparr>kv_allocator := al\<rparr>) L q = rank_total c L q + (if q = d then mset xs else {#})" for q
    by (simp add: rank_total_def ts av)
  ultimately show ?thesis using al(1) okq by blast
qed

text \<open>What a walk to the root that moves locks keeps.\<close>

lemma relocked_slots: "relocked c L P c' \<Longrightarrow> tree_slots c' L r = tree_slots c L r"
  by (rule tree_slots_cong) (auto simp: relocked_def node_dp_rank_def)

lemma relocked_kv_ok:
  assumes "relocked c L P c'"
  shows "kv_ok c' L X = kv_ok c L X" "rank_total c' L r = rank_total c L r"
proof -
  have "kv_allocator c' = kv_allocator c" using assms by (simp add: relocked_def)
  then show "kv_ok c' L X = kv_ok c L X" "rank_total c' L r = rank_total c L r"
    by (simp_all add: kv_ok_def rank_total_def relocked_slots [OF assms])
qed

text \<open>Inserting slots of a request, one per token of the converted key: the part of the key that was cached already stays with the request, the
  rest goes to the tree.\<close>

lemma insert_held:
  assumes inv: "radix_inv c L P H" and nd: "\<not> disable c" and p1: "cache_page_size c = 1"
    and ok: "kv_ok c L X" and k1: "k = key_convert c key" and d: "d = (case key_dp_rank k of None \<Rightarrow> 0 | Some r \<Rightarrow> r)" "sub_ok (kv_allocator c) d"
    and len: "length vals = key_len k" and vals: "mset (drop m vals) \<subseteq># X d"
    and n: "n \<in> L" "n \<noteq> root_node c \<longrightarrow> key_ns (node_key (nodes c n)) = key_ns k" "prefix (map fst (P n)) (token_ids k)" "length (P n) = m"
  shows "\<exists>j us c' L' P'. radix_insert key vals c = Inr (j, c') \<and> radix_inv c' L' P' H \<and> kv_ok c' L' (X(d := X d - mset (drop j vals)))
    \<and> (\<forall>q. rank_total c' L' q = rank_total c L q + (if q = d then mset (drop j vals) else {#}))
    \<and> L \<subseteq> L' \<and> (\<forall>x \<in> L. P' x = P x) \<and> m \<le> j \<and> j \<le> length vals \<and> length us = j
    \<and> content c' L' P' = content c L P \<union> {(key_ns k, ps) |ps. prefix ps (zip (token_ids k) (us @ drop j vals)) \<and> key_len k \<noteq> 0}
    \<and> (0 < j \<longrightarrow> (key_ns k, zip (take j (token_ids k)) us) \<in> content c L P)
    \<and> kv_allocator c' = kv_allocator c \<and> disable c' = disable c \<and> is_eagle c' = is_eagle c \<and> cache_page_size c' = cache_page_size c
    \<and> root_node c' = root_node c"
proof -
  have k: "k = key_convert c key" "cache_page_size c dvd key_len k" "vals = (if is_eagle c then take (key_len k) vals else vals)"
    using k1 p1 len by simp_all
  note wf = radix_invD(1) [OF inv]
  obtain j us n1 c1 L1 P1 c' L' P' where r: "radix_insert key vals c = Inr (j, c')" and w: "walked c L P H (root_node c) k j us n1 c1 L1 P1"
    and i': "radix_inv c' L' P' H" "L \<subseteq> L'" "\<forall>x\<in>L. P' x = P x \<and> lock_ref (nodes c' x) = lock_ref (nodes c x)"
    and fr: "kv_allocator c' = kv_allocator c" "root_node c' = root_node c" "cache_page_size c' = cache_page_size c"
      "disable c' = disable c" "is_eagle c' = is_eagle c"
    and ct: "content c' L' P' = content c L P \<union> {(key_ns k, ps) |ps. prefix ps (zip (token_ids k) (us @ drop j vals)) \<and> key_len k \<noteq> 0}"
    and ts0: "\<forall>r. tree_slots c' L' r = tree_slots c L r + (if r = (case key_dp_rank k of None \<Rightarrow> 0 | Some r \<Rightarrow> r) then mset (drop j vals) else {#})"
    by (rule radix_insert_walked [OF inv nd k len])
  have ts: "tree_slots c' L' r = tree_slots c L r + (if r = d then mset (drop j vals) else {#})" for r using ts0 d(1) by simp
  have j: "j \<le> length vals" "length us = j" using w len by (auto simp: walked_def)
  have mj: "m \<le> j"
  proof (cases "n = root_node c")
    case True
    then show ?thesis using n(4) tree_wfD(5) [OF wf] by simp
  next
    case False
    then have "(key_ns k, P n) \<in> content c L P" using n(1,2) by (auto simp: content_def)
    from walked_longest [OF w wf k(2) this n(3)] show ?thesis using n(4) p1 by simp
  qed
  have sub: "mset (drop j vals) \<subseteq># X d"
  proof -
    have "drop j vals = drop (j - m) (drop m vals)" using mj by simp
    then have "mset (drop j vals) \<subseteq># mset (drop m vals)" by (metis append_take_drop_id mset_append mset_subset_eq_add_right)
    then show ?thesis using vals by (rule subset_mset.order_trans)
  qed
  let ?X = "X(d := X d - mset (drop j vals))"
  have tot: "tree_slots c' L' q + ?X q = tree_slots c L q + X q" for q
    using sub by (simp add: ts)
  have "kv_ok c' L' ?X"
    unfolding kv_ok_def
  proof (intro conjI allI impI)
    show "sub_whole (kv_allocator c') ys" for ys using kv_okD(1) [OF ok] fr by simp
    show "sub_ok (kv_allocator c') q" if "tree_slots c' L' q \<noteq> {#}" for q
      using kv_okD(2) [OF ok, of q] that d(2) by (auto simp: ts fr split: if_splits)
    fix q assume "sub_ok (kv_allocator c') q"
    then have q: "sub_ok (kv_allocator c) q" by (simp add: fr)
    show "set_mset (tree_slots c' L' q + ?X q) \<subseteq> sub_slots (kv_allocator c') q" unfolding tot fr by (rule kv_okD(3) [OF ok q])
    show "count (mset (sub_avail (kv_allocator c') q) + tree_slots c' L' q + ?X q) s \<le> 1" for s
      using kv_okD(4) [OF ok q, of s] unfolding add.assoc tot fr by (simp only: add.assoc)
  qed
  moreover have "rank_total c' L' q = rank_total c L q + (if q = d then mset (drop j vals) else {#})" for q
    by (simp add: rank_total_def ts fr)
  moreover have "0 < j \<longrightarrow> (key_ns k, zip (take j (token_ids k)) us) \<in> content c L P" using walked_content [OF w wf] by blast
  ultimately show ?thesis using r i' j mj ct fr by (intro exI [of _ j] exI [of _ us] exI [of _ c'] exI [of _ L'] exI [of _ P']) auto
qed

section \<open>A request and its slots\<close>

text \<open>The row of the request: what lies before \<open>cache_protected_len\<close> is the path of \<open>last_node\<close>, which the request
  holds locked, and the rest up to \<open>kv_allocated_len\<close> is its own.\<close>

definition req_row :: "kv_world \<Rightarrow> cache_req \<Rightarrow> int list" where
  "req_row W r = (case rq_pool_idx r of None \<Rightarrow> [] | Some i \<Rightarrow> rp_table (kw_pool W) ! i)"

definition own_slots :: "kv_world \<Rightarrow> cache_req \<Rightarrow> int list" where
  "own_slots W r = drop (nat (rq_protected_len r)) (take (nat (rq_allocated_len r)) (req_row W r))"

definition req_holds :: "kv_world \<Rightarrow> nat set \<Rightarrow> (nat \<Rightarrow> annotated) \<Rightarrow> (nat \<Rightarrow> nat) \<Rightarrow> cache_req \<Rightarrow> nat \<Rightarrow> nat \<Rightarrow> bool" where
  "req_holds W L P H r i n \<longleftrightarrow> rq_pool_idx r = Some i \<and> i < length (rp_table (kw_pool W)) \<and> rq_last_node r = Some n \<and> n \<in> L \<and> 0 < H n
     \<and> rq_protected_len r = int (length (P n)) \<and> map snd (P n) = take (length (P n)) (req_row W r)
     \<and> map fst (P n) = take (length (P n)) (map Tok_Id (key_seq r))
     \<and> (n \<noteq> root_node (kw_tree W) \<longrightarrow> key_ns (node_key (nodes (kw_tree W) n)) = (rq_extra_key r, rq_rank r))
     \<and> rq_protected_len r \<le> rq_committed_len r \<and> rq_committed_len r \<le> rq_allocated_len r
     \<and> rq_allocated_len r \<le> int (length (req_row W r)) \<and> rq_committed_len r \<le> int (length (key_seq r))
     \<and> 0 \<notin> set (take (nat (rq_allocated_len r)) (req_row W r)) \<and> length (rq_radix_ids r) = length (rq_origin_ids r)
     \<and> \<not> rq_committed_freed r \<and> \<not> rq_over_freed r"

definition plain_tree :: "radix_cache \<Rightarrow> bool" where
  "plain_tree c \<longleftrightarrow> \<not> disable c \<and> \<not> is_eagle c \<and> cache_page_size c = 1"

text \<open>The same with or without EAGLE, for the lemmas that do not depend on it.\<close>

definition unit_tree :: "bool \<Rightarrow> radix_cache \<Rightarrow> bool" where
  "unit_tree b c \<longleftrightarrow> \<not> disable c \<and> is_eagle c = b \<and> cache_page_size c = 1"

lemma plain_tree_iff: "plain_tree c = unit_tree False c"
  by (simp add: plain_tree_def unit_tree_def)

lemma world_free_eq: "sub_free xs d (kv_allocator (kw_tree W)) = Inr al \<Longrightarrow> world_free xs d W = Inr (set_alloc al W)"
  by (simp add: world_free_def)

lemma world_free_held:
  assumes inv: "radix_inv (kw_tree W) L P H" and pl: "unit_tree b (kw_tree W)" and ok: "kv_ok (kw_tree W) L X"
    and d: "sub_ok (kv_allocator (kw_tree W)) d" and xs: "mset xs \<subseteq># X d"
  shows "\<exists>W1. world_free xs d W = Inr W1 \<and> radix_inv (kw_tree W1) L P H \<and> unit_tree b (kw_tree W1)
    \<and> kv_ok (kw_tree W1) L (X(d := X d - mset xs)) \<and> (\<forall>q. sub_ok (kv_allocator (kw_tree W1)) q = sub_ok (kv_allocator (kw_tree W)) q)
    \<and> (\<forall>q. rank_total (kw_tree W1) L q = rank_total (kw_tree W) L q + (if q = d then mset xs else {#})) \<and> kw_pool W1 = kw_pool W
    \<and> content (kw_tree W1) L P = content (kw_tree W) L P \<and> nodes (kw_tree W1) = nodes (kw_tree W) \<and> root_node (kw_tree W1) = root_node (kw_tree W)"
proof -
  obtain al where al: "sub_free xs d (kv_allocator (kw_tree W)) = Inr al" "kv_ok ((kw_tree W)\<lparr>kv_allocator := al\<rparr>) L (X(d := X d - mset xs))"
    "\<forall>q. sub_ok al q = sub_ok (kv_allocator (kw_tree W)) q"
    "\<forall>q. rank_total ((kw_tree W)\<lparr>kv_allocator := al\<rparr>) L q = rank_total (kw_tree W) L q + (if q = d then mset xs else {#})"
    using free_held [OF ok d xs] by blast
  then show ?thesis using inv pl world_free_eq [OF al(1)]
    by (intro exI [of _ "set_alloc al W"]) (simp add: set_alloc_def unit_tree_def content_def)
qed

lemma slice_split:
  assumes "m \<le> j" "j \<le> length xs"
  shows "mset (drop m xs) = mset (drop m (take j xs)) + mset (drop j xs)"
proof -
  have "drop m xs = drop m (take j xs) @ drop j xs"
    using assms by (metis append_take_drop_id drop_append length_take min.absorb2 diff_is_0_eq drop0)
  then show ?thesis by simp
qed

lemma mset_sub_diff: "A + B \<subseteq># C \<Longrightarrow> A \<subseteq># C - B"
  by (simp add: subseteq_mset_def add_le_imp_le_diff)

lemma py_slice_drop_take: "py_slice xs (int m) (int j) = drop m (take j xs)"
  by (simp add: py_slice_nonneg drop_take)

text \<open>The tokens that the cache keys a request by, and how many of its committed slots they cover: EAGLE's keys are
  bigrams, one fewer than the tokens.\<close>

definition cache_toks :: "bool \<Rightarrow> int list \<Rightarrow> tok list" where
  "cache_toks b ts = (if b then convert_to_bigram_key (map Tok_Id ts) else map Tok_Id ts)"

definition keyed_len :: "bool \<Rightarrow> nat \<Rightarrow> nat" where
  "keyed_len b n = (if b then n - 1 else n)"

lemma convert_to_bigram_toks:
  "convert_to_bigram_key (map Tok_Id ts) = map (\<lambda>i. Bigram (Tok_Id (ts ! i)) (Tok_Id (ts ! Suc i))) [0..<length ts - 1]"
proof (cases "length ts < 2")
  case False
  then have "ts \<noteq> []" by auto
  then have "\<not> is_pair (hd (map Tok_Id ts))" by (simp add: hd_map is_pair_def)
  then show ?thesis using False by (auto simp: convert_to_bigram_key_def nth_tl intro!: nth_equalityI)
qed (auto simp: convert_to_bigram_key_def)

lemma length_cache_toks [simp]: "length (cache_toks b ts) = keyed_len b (length ts)"
  by (simp add: cache_toks_def keyed_len_def convert_to_bigram_toks)

lemma cache_toks_take: "N \<le> length ts \<Longrightarrow> cache_toks b (take N ts) = take (keyed_len b N) (cache_toks b ts)"
  by (auto simp: cache_toks_def keyed_len_def convert_to_bigram_toks take_map min_def intro!: nth_equalityI)

text \<open>\<open>cache_finished_req\<close>: of the committed slots that the request owns and the key covers each is freed or goes to
  the tree.\<close>

lemma finished_insert_ok:
  assumes inv: "radix_inv (kw_tree W) L P H" and pl: "unit_tree b (kw_tree W)" and ok: "kv_ok (kw_tree W) L X"
    and d: "d = req_rank r" "sub_ok (kv_allocator (kw_tree W)) d"
    and n: "n \<in> L" "n \<noteq> root_node (kw_tree W) \<longrightarrow> key_ns (node_key (nodes (kw_tree W) n)) = key_ns k"
      "prefix (map fst (P n)) (token_ids k)" "old_prefix_len (kw_tree W) r = int (length (P n))"
    and key: "key_dp_rank k = rq_rank r" "length kv = key_len k" "k = key_convert (kw_tree W) key"
      "int (key_len key) = token_len (kw_tree W) (int (length kv))"
    and own: "mset (drop (length (P n)) kv) \<subseteq># X d"
  shows "\<exists>W1 L1 P1. finished_insert r is_insert key (kv @ rest) (int (length kv)) W = Inr W1 \<and> radix_inv (kw_tree W1) L1 P1 H
    \<and> unit_tree b (kw_tree W1) \<and> kv_ok (kw_tree W1) L1 (X(d := X d - mset (drop (length (P n)) kv)))
    \<and> (\<forall>q. sub_ok (kv_allocator (kw_tree W1)) q = sub_ok (kv_allocator (kw_tree W)) q)
    \<and> (\<forall>q. rank_total (kw_tree W1) L1 q = rank_total (kw_tree W) L q + (if q = d then mset (drop (length (P n)) kv) else {#}))
    \<and> kw_pool W1 = kw_pool W \<and> L \<subseteq> L1"
proof -
  let ?c = "kw_tree W" and ?m = "length (P n)"
  from pl have p: "\<not> disable ?c" "is_eagle ?c = b" "cache_page_size ?c = 1" by (simp_all add: unit_tree_def)
  have rank: "d = (case key_dp_rank k of None \<Rightarrow> 0 | Some r \<Rightarrow> r)"
    using d(1) key(1) by (simp add: req_rank_def split: option.splits)
  show ?thesis
  proof (cases is_insert)
    case False
    have "finished_insert r is_insert key (kv @ rest) (int (length kv)) W = world_free (drop ?m kv) d W"
      using False by (simp add: finished_insert_def Let_def n(4) d(1) py_slice_drop_take)
    with world_free_held [OF inv pl ok d(2) own] show ?thesis by (metis subset_refl)
  next
    case True
    have ks: "key_slice (token_len ?c (int (length kv))) key = key"
      unfolding key(4) [symmetric] by (simp add: key_slice_def py_slice_prefix key_len_def)
    have vs: "py_slice (kv @ rest) 0 (int (length kv)) = kv" by (simp add: py_slice_prefix)
    obtain j c1 L1 P1 where ins: "radix_insert key kv ?c = Inr (j, c1)" "radix_inv c1 L1 P1 H" "kv_ok c1 L1 (X(d := X d - mset (drop j kv)))"
      "\<forall>q. rank_total c1 L1 q = rank_total ?c L q + (if q = d then mset (drop j kv) else {#})" "L \<subseteq> L1" "?m \<le> j" "j \<le> length kv"
      "kv_allocator c1 = kv_allocator ?c" and fr: "disable c1 = disable ?c" "is_eagle c1 = is_eagle ?c" "cache_page_size c1 = cache_page_size ?c"
      using insert_held [OF inv p(1,3) ok key(3) rank d(2) key(2) own n(1,2,3) refl] by (elim exE conjE) (rule that; assumption)
    have pl1: "unit_tree b c1" using fr p by (simp add: unit_tree_def)
    note sp = slice_split [OF ins(6,7)]
    let ?X1 = "X(d := X d - mset (drop j kv))" and ?W1 = "W\<lparr>kw_tree := c1\<rparr>"
    have sub: "mset (drop ?m (take j kv)) \<subseteq># ?X1 d"
      using mset_sub_diff [OF own [unfolded sp]] by simp
    have w1: "radix_inv (kw_tree ?W1) L1 P1 H" "unit_tree b (kw_tree ?W1)" "kv_ok (kw_tree ?W1) L1 ?X1" "sub_ok (kv_allocator (kw_tree ?W1)) d"
      using ins d(2) pl1 by simp_all
    obtain W2 where W2: "world_free (drop ?m (take j kv)) d ?W1 = Inr W2" "radix_inv (kw_tree W2) L1 P1 H" "unit_tree b (kw_tree W2)"
      "kv_ok (kw_tree W2) L1 (?X1(d := ?X1 d - mset (drop ?m (take j kv))))"
      "\<forall>q. sub_ok (kv_allocator (kw_tree W2)) q = sub_ok (kv_allocator (kw_tree ?W1)) q"
      "\<forall>q. rank_total (kw_tree W2) L1 q = rank_total (kw_tree ?W1) L1 q + (if q = d then mset (drop ?m (take j kv)) else {#})"
      "kw_pool W2 = kw_pool ?W1"
      using world_free_held [OF w1 sub] by blast
    have "?X1(d := ?X1 d - mset (drop ?m (take j kv))) = X(d := X d - mset (drop ?m kv))"
      unfolding sp by (simp add: union_commute)
    with W2(4) have "kv_ok (kw_tree W2) L1 (X(d := X d - mset (drop ?m kv)))" by (simp only:)
    moreover have "rank_total (kw_tree W2) L1 q = rank_total ?c L q + (if q = d then mset (drop ?m kv) else {#})" for q
      using W2(6) ins(4) unfolding sp by (simp add: ac_simps)
    moreover have "finished_insert r is_insert key (kv @ rest) (int (length kv)) W = Inr W2"
      using True ins(1,7) W2(1) by (simp add: finished_insert_def Let_def ks vs n(4) d(1) py_slice_drop_take)
    ultimately show ?thesis using W2 ins by (intro exI [of _ W2] exI [of _ L1] exI [of _ P1]) simp
  qed
qed

lemma req_holdsD:
  assumes "req_holds W L P H r i n"
  shows "rq_pool_idx r = Some i" "i < length (rp_table (kw_pool W))" "rq_last_node r = Some n" "n \<in> L" "0 < H n"
    "rq_protected_len r = int (length (P n))" "map fst (P n) = take (length (P n)) (map Tok_Id (key_seq r))"
    "n \<noteq> root_node (kw_tree W) \<longrightarrow> key_ns (node_key (nodes (kw_tree W) n)) = (rq_extra_key r, rq_rank r)"
    "rq_protected_len r \<le> rq_committed_len r" "rq_committed_len r \<le> rq_allocated_len r" "rq_allocated_len r \<le> int (length (req_row W r))"
    "rq_committed_len r \<le> int (length (key_seq r))" "0 \<notin> set (take (nat (rq_allocated_len r)) (req_row W r))"
    "length (rq_radix_ids r) = length (rq_origin_ids r)" "\<not> rq_committed_freed r" "\<not> rq_over_freed r" "req_row W r = rp_table (kw_pool W) ! i"
    "map snd (P n) = take (length (P n)) (req_row W r)"
  using assms by (auto simp: req_holds_def req_row_def)

text \<open>What the release needs of the request, with or without EAGLE: the range it frees starts where the path of its
  node ends, and the path is keyed by the request's tokens.\<close>

definition unit_holds :: "bool \<Rightarrow> kv_world \<Rightarrow> nat set \<Rightarrow> (nat \<Rightarrow> annotated) \<Rightarrow> (nat \<Rightarrow> nat) \<Rightarrow> cache_req \<Rightarrow> nat \<Rightarrow> nat \<Rightarrow> bool" where
  "unit_holds b W L P H r i n \<longleftrightarrow> rq_pool_idx r = Some i \<and> i < length (rp_table (kw_pool W)) \<and> rq_last_node r = Some n \<and> n \<in> L \<and> 0 < H n
     \<and> old_prefix_len (kw_tree W) r = int (length (P n))
     \<and> map fst (P n) = take (length (P n)) (cache_toks b (key_seq r))
     \<and> (n \<noteq> root_node (kw_tree W) \<longrightarrow> key_ns (node_key (nodes (kw_tree W) n)) = (rq_extra_key r, rq_rank r))
     \<and> length (P n) \<le> keyed_len b (nat (rq_committed_len r)) \<and> 0 \<le> rq_committed_len r \<and> (b \<longrightarrow> 0 < rq_committed_len r)
     \<and> rq_committed_len r \<le> rq_allocated_len r
     \<and> rq_allocated_len r \<le> int (length (req_row W r)) \<and> rq_committed_len r \<le> int (length (key_seq r))
     \<and> 0 \<notin> set (take (nat (rq_allocated_len r)) (req_row W r)) \<and> length (rq_radix_ids r) = length (rq_origin_ids r)
     \<and> \<not> rq_committed_freed r \<and> \<not> rq_over_freed r"

lemma unit_holdsD:
  assumes "unit_holds b W L P H r i n"
  shows "rq_pool_idx r = Some i" "i < length (rp_table (kw_pool W))" "rq_last_node r = Some n" "n \<in> L" "0 < H n"
    "old_prefix_len (kw_tree W) r = int (length (P n))" "map fst (P n) = take (length (P n)) (cache_toks b (key_seq r))"
    "n \<noteq> root_node (kw_tree W) \<longrightarrow> key_ns (node_key (nodes (kw_tree W) n)) = (rq_extra_key r, rq_rank r)"
    "length (P n) \<le> keyed_len b (nat (rq_committed_len r))" "rq_committed_len r \<le> rq_allocated_len r"
    "rq_allocated_len r \<le> int (length (req_row W r))" "rq_committed_len r \<le> int (length (key_seq r))"
    "0 \<notin> set (take (nat (rq_allocated_len r)) (req_row W r))" "length (rq_radix_ids r) = length (rq_origin_ids r)"
    "\<not> rq_committed_freed r" "\<not> rq_over_freed r" "req_row W r = rp_table (kw_pool W) ! i" "0 \<le> rq_committed_len r"
    "b \<longrightarrow> 0 < rq_committed_len r"
  using assms by (auto simp: unit_holds_def req_row_def)

lemma req_holds_unit: "req_holds W L P H r i n \<Longrightarrow> plain_tree (kw_tree W) \<Longrightarrow> unit_holds False W L P H r i n"
  by (auto simp: req_holds_def unit_holds_def plain_tree_def old_prefix_len_def cache_toks_def keyed_len_def)

lemma cache_finished_ok:
  assumes inv: "radix_inv (kw_tree W) L P H" and pl: "unit_tree b (kw_tree W)" and ok: "kv_ok (kw_tree W) L X"
    and h: "unit_holds b W L P H r i n" and d: "d = req_rank r" "sub_ok (kv_allocator (kw_tree W)) d"
    and N: "N = nat (rq_committed_len r)" "K = keyed_len b N"
    and own: "mset (drop (length (P n)) (take K (req_row W r))) \<subseteq># X d"
  shows "\<exists>W1 L1 P1. cache_finished_req r is_insert W = Inr (r\<lparr>rq_committed_freed := True\<rparr>, W1)
    \<and> radix_inv (kw_tree W1) L1 P1 (H(n := H n - 1)) \<and> unit_tree b (kw_tree W1)
    \<and> kv_ok (kw_tree W1) L1 (X(d := X d - mset (drop (length (P n)) (take K (req_row W r)))))
    \<and> (\<forall>q. sub_ok (kv_allocator (kw_tree W1)) q = sub_ok (kv_allocator (kw_tree W)) q)
    \<and> (\<forall>q. rank_total (kw_tree W1) L1 q = rank_total (kw_tree W) L q + (if q = d then mset (drop (length (P n)) (take K (req_row W r))) else {#}))
    \<and> kw_pool W1 = kw_pool W"
proof -
  note hd = unit_holdsD [OF h]
  let ?c = "kw_tree W" and ?kv = "take N (req_row W r)" and ?kk = "take K (req_row W r)" and ?r1 = "r\<lparr>rq_committed_freed := True\<rparr>"
  from pl have p: "\<not> disable ?c" "is_eagle ?c = b" "cache_page_size ?c = 1" by (simp_all add: unit_tree_def)
  have NN: "rq_committed_len r = int N" using N hd(18) by simp
  have K: "K \<le> N" "page_aligned_len ?c (int N) = int K" "token_len ?c (int K) = int N"
    using p N(2) hd(19) NN by (auto simp: page_aligned_len_def token_len_def keyed_len_def Let_def)
  define key where "key = \<lparr>token_ids = map Tok_Id (take N (key_seq r)), extra_key = rq_extra_key r, key_dp_rank = rq_rank r\<rparr>"
  define k where "k = key_convert ?c key"
  have toks: "token_ids k = take K (cache_toks b (key_seq r))" "key_len key = N"
    using p(2) hd(12) NN N(2) cache_toks_take [of N "key_seq r" b]
    by (simp_all add: k_def key_convert_def key_def key_len_def) (auto simp: cache_toks_def)
  have kf: "key_dp_rank k = rq_rank r" "key_ns k = (rq_extra_key r, rq_rank r)"
    by (simp_all add: k_def key_convert_def key_def key_ns_def)
  have pop: "pop_committed_kv_cache r = (int N, ?r1)" using hd(15) NN by (simp add: pop_committed_kv_cache_def)
  have bk: "build_radix_key ?r1 (int N) = Inr key"
    using build_radix_key_ok [of ?r1 "int N"] hd(14) by (simp add: key_def py_slice_prefix key_seq_def)
  have rd: "req_read ?r1 (int N) (kw_pool W) = Inr ?kv"
    using hd(1,2,17) by (simp add: req_read_def pool_read_def py_slice_prefix)
  have nz: "nonzero ?kv = ?kv"
  proof -
    have "set ?kv \<subseteq> set (take (nat (rq_allocated_len r)) (req_row W r))"
      by (rule set_take_subset_set_take) (use hd(10) NN in linarith)
    then show ?thesis unfolding nonzero_def using hd(13) by (intro filter_True) auto
  qed
  have len: "length ?kk = K" using hd(10,11) NN K(1) by simp
  have split: "?kv = ?kk @ drop K ?kv"
    by (metis K(1) append_take_drop_id min_absorb1 take_take)
  have klen: "key_len k = K" using toks(1) hd(12) NN N(2) by (simp add: key_len_def keyed_len_def min_def)
  have pre: "prefix (map fst (P n)) (token_ids k)"
  proof -
    have "length (P n) \<le> K" using hd(9) unfolding N(1) [symmetric] N(2) [symmetric] .
    then have "take (length (P n)) (token_ids k) = take (length (P n)) (cache_toks b (key_seq r))"
      unfolding toks(1) by (simp add: min_absorb1)
    then show ?thesis unfolding hd(7) by (metis take_is_prefix)
  qed
  have ns: "n \<noteq> root_node ?c \<longrightarrow> key_ns (node_key (nodes ?c n)) = key_ns k" using hd(8) kf(2) by simp
  have opl: "old_prefix_len ?c ?r1 = old_prefix_len ?c r" by (simp add: old_prefix_len_def)
  have d1: "d = req_rank ?r1" and pr: "old_prefix_len ?c ?r1 = int (length (P n))"
    and kr: "key_dp_rank k = rq_rank ?r1" "length ?kk = key_len k" "k = key_convert ?c key"
      "int (key_len key) = token_len ?c (int (length ?kk))"
    using d(1) hd(6) len klen kf toks(2) K(3) opl by (simp_all add: req_rank_def k_def)
  obtain W1 L1 P1 where W1: "finished_insert ?r1 is_insert key (?kk @ drop K ?kv) (int (length ?kk)) W = Inr W1" "radix_inv (kw_tree W1) L1 P1 H"
    "unit_tree b (kw_tree W1)" "kv_ok (kw_tree W1) L1 (X(d := X d - mset (drop (length (P n)) ?kk)))"
    "\<forall>q. sub_ok (kv_allocator (kw_tree W1)) q = sub_ok (kv_allocator ?c) q"
    "\<forall>q. rank_total (kw_tree W1) L1 q = rank_total ?c L q + (if q = d then mset (drop (length (P n)) ?kk) else {#})"
    "kw_pool W1 = kw_pool W" "L \<subseteq> L1"
    using finished_insert_ok [OF inv pl ok d1 d(2) hd(4) ns pre pr kr own] by blast
  have fi: "finished_insert ?r1 is_insert key ?kv (int K) W = Inr W1" using W1(1) unfolding split [symmetric] len .
  have nd1: "\<not> disable (kw_tree W1)" and nL1: "n \<in> L1" using W1(3,8) hd(4) by (auto simp: unit_tree_def)
  obtain e c2 where c2: "dec_lock_ref n (kw_tree W1) = Inr (e, c2)" "relocked (kw_tree W1) L1 P1 c2" "radix_inv c2 L1 P1 (H(n := H n - 1))"
    using dec_lock_ref_ok [OF W1(2) nL1 nd1 hd(5)] by blast
  have "cache_finished_req r is_insert W = Inr (?r1, W1\<lparr>kw_tree := c2\<rparr>)"
    using fi c2(1) hd(3) p bk rd nz K(2)
    by (simp add: cache_finished_req_def pop Let_def dec_lock_node_def)
  moreover have "unit_tree b c2" "kv_allocator c2 = kv_allocator (kw_tree W1)" using c2(2) W1(3) by (auto simp: relocked_def unit_tree_def)
  ultimately show ?thesis using W1 c2 relocked_kv_ok [OF c2(2)]
    by (intro exI [of _ "W1\<lparr>kw_tree := c2\<rparr>"] exI [of _ L1] exI [of _ P1]) simp
qed

text \<open>\<open>release_kv_cache\<close>: the slots of the request that its key covers and the ones allocated beyond the committed length
  are freed or go to the tree, its lock and its request slot are given back.\<close>

definition given_back :: "bool \<Rightarrow> nat \<Rightarrow> kv_world \<Rightarrow> cache_req \<Rightarrow> int list" where
  "given_back b m W r = drop m (take (keyed_len b (nat (rq_committed_len r))) (req_row W r))
     @ drop (nat (rq_committed_len r)) (take (nat (rq_allocated_len r)) (req_row W r))"

lemma release_unit_ok:
  assumes inv: "radix_inv (kw_tree W) L P H" and pl: "unit_tree b (kw_tree W)" and ok: "kv_ok (kw_tree W) L X"
    and h: "unit_holds b W L P H r i n" and d: "d = req_rank r" "sub_ok (kv_allocator (kw_tree W)) d"
    and own: "mset (given_back b (length (P n)) W r) \<subseteq># X d" and over: "allow \<or> spec \<or> rq_committed_len r = rq_allocated_len r"
  shows "\<exists>r1 W1 L1 P1. release_kv_cache r is_insert allow spec W = Inr (r1, W1)
    \<and> radix_inv (kw_tree W1) L1 P1 (H(n := H n - 1)) \<and> unit_tree b (kw_tree W1)
    \<and> kv_ok (kw_tree W1) L1 (X(d := X d - mset (given_back b (length (P n)) W r)))
    \<and> (\<forall>q. sub_ok (kv_allocator (kw_tree W1)) q = sub_ok (kv_allocator (kw_tree W)) q)
    \<and> (\<forall>q. rank_total (kw_tree W1) L1 q = rank_total (kw_tree W) L q + (if q = d then mset (given_back b (length (P n)) W r) else {#}))
    \<and> rq_pool_idx r1 = None \<and> kw_pool W1 = (kw_pool W)\<lparr>rp_free := rp_free (kw_pool W) @ [i]\<rparr>"
proof -
  note hd = unit_holdsD [OF h]
  define N where "N = nat (rq_committed_len r)"
  define A where "A = nat (rq_allocated_len r)"
  define K where "K = keyed_len b N"
  let ?m = "length (P n)" and ?row = "req_row W r" and ?r1 = "r\<lparr>rq_committed_freed := True\<rparr>"
  have NA: "rq_committed_len r = int N" "rq_allocated_len r = int A" "N \<le> A" "A \<le> length ?row"
    using hd(10,11,18) by (auto simp: N_def A_def)
  have sp: "mset (given_back b ?m W r) = mset (drop ?m (take K ?row)) + mset (drop N (take A ?row))"
    by (simp add: given_back_def K_def N_def A_def)
  have own1: "mset (drop ?m (take K ?row)) \<subseteq># X d" and own2: "mset (drop N (take A ?row)) \<subseteq># X d - mset (drop ?m (take K ?row))"
    using own unfolding sp by (auto intro: mset_sub_diff subset_mset.order_trans [OF mset_subset_eq_add_left] simp: union_commute)
  obtain W1 L1 P1 where W1: "cache_finished_req r is_insert W = Inr (?r1, W1)"
    "radix_inv (kw_tree W1) L1 P1 (H(n := H n - 1))" "unit_tree b (kw_tree W1)"
    "kv_ok (kw_tree W1) L1 (X(d := X d - mset (drop ?m (take K ?row))))"
    "\<forall>q. sub_ok (kv_allocator (kw_tree W1)) q = sub_ok (kv_allocator (kw_tree W)) q"
    "\<forall>q. rank_total (kw_tree W1) L1 q = rank_total (kw_tree W) L q + (if q = d then mset (drop ?m (take K ?row)) else {#})"
    "kw_pool W1 = kw_pool W"
    using cache_finished_ok [OF inv pl ok h d N_def K_def own1] by blast
  let ?X1 = "X(d := X d - mset (drop ?m (take K ?row)))" and ?tail = "drop N (take A ?row)"
  have d1: "sub_ok (kv_allocator (kw_tree W1)) d" and sub1: "mset ?tail \<subseteq># ?X1 d" using W1(5) d(2) own2 by simp_all
  obtain W2 where W2: "world_free ?tail d W1 = Inr W2" "radix_inv (kw_tree W2) L1 P1 (H(n := H n - 1))" "unit_tree b (kw_tree W2)"
    "kv_ok (kw_tree W2) L1 (?X1(d := ?X1 d - mset ?tail))" "\<forall>q. sub_ok (kv_allocator (kw_tree W2)) q = sub_ok (kv_allocator (kw_tree W1)) q"
    "\<forall>q. rank_total (kw_tree W2) L1 q = rank_total (kw_tree W1) L1 q + (if q = d then mset ?tail else {#})" "kw_pool W2 = kw_pool W1"
    using world_free_held [OF W1(2,3,4) d1 sub1] by blast
  have nz: "nonzero ?tail = ?tail"
    unfolding nonzero_def using hd(13) by (intro filter_True) (auto simp: A_def dest: in_set_dropD)
  have pop: "pop_overallocated_kv_cache ?r1 = ((int N, int A), ?r1\<lparr>rq_over_freed := True\<rparr>)"
    using hd(16) NA by (simp add: pop_overallocated_kv_cache_def)
  have p1: "cache_page_size (kw_tree W1) = 1" using W1(3) by (simp add: unit_tree_def)
  have row: "np_get (rp_table (kw_pool W1)) (int i) = Inr ?row" using hd(2,17) W1(7) by simp
  define r2 where "r2 = ?r1\<lparr>rq_over_freed := True, rq_pool_idx := None\<rparr>"
  have eqX: "?X1(d := ?X1 d - mset ?tail) = X(d := X d - mset (given_back b ?m W r))" unfolding sp by simp
  have tot: "rank_total (kw_tree W2) L1 q = rank_total (kw_tree W) L q + (if q = d then mset (given_back b ?m W r) else {#})" for q
    using W2(6) W1(6) unfolding sp by (simp add: ac_simps)
  have run: "release_kv_cache r is_insert allow spec W = rbind (if N < A then world_free ?tail d W1 else Inr W1)
      (\<lambda>W2. rbind (pool_free (?r1\<lparr>rq_over_freed := True\<rparr>) (kw_pool W2)) (\<lambda>(r3, P). Inr (r3, W2\<lparr>kw_pool := P\<rparr>)))"
    using hd(1) W1(1) pop p1 row over NA nz d(1)
    by (auto simp: release_kv_cache_def Let_def py_slice_drop_take)
  show ?thesis
  proof (cases "N < A")
    case True
    have "release_kv_cache r is_insert allow spec W = Inr (r2, W2\<lparr>kw_pool := (kw_pool W2)\<lparr>rp_free := rp_free (kw_pool W2) @ [i]\<rparr>\<rparr>)"
      unfolding run using True W2(1) hd(1) by (simp add: pool_free_def r2_def)
    then show ?thesis using W2 W1(5,7) eqX tot
      by (intro exI [of _ r2] exI [of _ "W2\<lparr>kw_pool := (kw_pool W2)\<lparr>rp_free := rp_free (kw_pool W2) @ [i]\<rparr>\<rparr>"] exI [of _ L1] exI [of _ P1])
        (simp add: r2_def)
  next
    case False
    then have e: "?tail = []" by simp
    have "release_kv_cache r is_insert allow spec W = Inr (r2, W1\<lparr>kw_pool := (kw_pool W1)\<lparr>rp_free := rp_free (kw_pool W1) @ [i]\<rparr>\<rparr>)"
      unfolding run using False hd(1) by (simp add: pool_free_def r2_def)
    then show ?thesis using W1 sp e
      by (intro exI [of _ r2] exI [of _ "W1\<lparr>kw_pool := (kw_pool W1)\<lparr>rp_free := rp_free (kw_pool W1) @ [i]\<rparr>\<rparr>"] exI [of _ L1] exI [of _ P1])
        (simp add: r2_def)
  qed
qed

text \<open>Without EAGLE the key covers every committed slot, so all that the request owned is given back.\<close>

lemma given_back_plain:
  assumes "req_holds W L P H r i n"
  shows "mset (given_back False (length (P n)) W r) = mset (own_slots W r)"
proof -
  note hd = req_holdsD [OF assms]
  have "length (P n) \<le> nat (rq_committed_len r)" "nat (rq_committed_len r) \<le> nat (rq_allocated_len r)"
    "nat (rq_allocated_len r) \<le> length (req_row W r)" using hd(6,9,10,11) by auto
  then show ?thesis
    using slice_split [of "length (P n)" "nat (rq_committed_len r)" "take (nat (rq_allocated_len r)) (req_row W r)"] hd(6)
    by (simp add: given_back_def own_slots_def keyed_len_def min_absorb1)
qed

lemma release_ok:
  assumes inv: "radix_inv (kw_tree W) L P H" and pl: "plain_tree (kw_tree W)" and ok: "kv_ok (kw_tree W) L X"
    and h: "req_holds W L P H r i n" and d: "d = req_rank r" "sub_ok (kv_allocator (kw_tree W)) d"
    and own: "mset (own_slots W r) \<subseteq># X d" and over: "allow \<or> spec \<or> rq_committed_len r = rq_allocated_len r"
  shows "\<exists>r1 W1 L1 P1. release_kv_cache r is_insert allow spec W = Inr (r1, W1)
    \<and> radix_inv (kw_tree W1) L1 P1 (H(n := H n - 1)) \<and> kv_ok (kw_tree W1) L1 (X(d := X d - mset (own_slots W r)))
    \<and> (\<forall>q. rank_total (kw_tree W1) L1 q = rank_total (kw_tree W) L q + (if q = d then mset (own_slots W r) else {#}))
    \<and> rq_pool_idx r1 = None \<and> kw_pool W1 = (kw_pool W)\<lparr>rp_free := rp_free (kw_pool W) @ [i]\<rparr>"
proof -
  note gb = given_back_plain [OF h]
  show ?thesis
    using release_unit_ok [OF inv pl [unfolded plain_tree_iff] ok req_holds_unit [OF h pl] d _ over, unfolded gb, OF own, of is_insert]
    by (elim exE conjE) (intro exI conjI; assumption)
qed

section \<open>An unfinished request\<close>

text \<open>After an insertion the lookup of the key returns the slots of the whole key: the tree's for the part it had,
  the inserted ones for the rest; and where the request's row is the path of a node, the tree has the row's slots.\<close>

lemma match_inserted:
  assumes inv: "radix_inv c L P H" and pl: "plain_tree c"
    and ct: "content c L P = content c0 L0 P0 \<union> {(key_ns key, ps) |ps. prefix ps (zip (token_ids key) vals) \<and> key_len key \<noteq> 0}"
    and len: "length vals = key_len key"
  shows "\<exists>node c1 L1 P1. match_prefix key c = Inr (vals, node, c1) \<and> radix_inv c1 L1 P1 H \<and> tree_ext c L P c1 L1 P1 \<and> node \<in> L1
    \<and> P1 node = zip (token_ids key) vals \<and> (node \<noteq> root_node c \<longrightarrow> key_ns (node_key (nodes c1 node)) = key_ns key)"
proof (cases "token_ids key = []")
  case True
  then have "vals = []" using len by (simp add: key_len_def)
  then show ?thesis using True inv radix_invD(1) [OF inv] tree_wfD(2,5) [OF radix_invD(1) [OF inv]]
    by (intro exI [of _ "root_node c"] exI [of _ c] exI [of _ L] exI [of _ P]) (simp add: match_prefix_def key_len_def)
next
  case False
  from pl have p: "\<not> disable c" "\<not> is_eagle c" "cache_page_size c = 1" by (simp_all add: plain_tree_def)
  have lk: "lookup_key c key = key" using p by (simp add: lookup_key_def aligned_key_def key_convert_def)
  note wf = radix_invD(1) [OF inv]
  have ne: "cache_page_size c = 1 \<Longrightarrow> token_ids (lookup_key c key) \<noteq> []" using False by (simp add: lk)
  obtain vs node c1 L1 P1 where m: "match_prefix key c = Inr (vs, node, c1)"
    and w: "walked c L P H (root_node c) key (length vs) vs node c1 L1 P1"
    using match_prefix_walked [OF inv p(1) False ne] unfolding lk by blast
  have whole: "(key_ns key, zip (token_ids key) vals) \<in> content c L P"
    unfolding ct using False by (auto simp: key_len_def)
  have "prefix (map fst (zip (token_ids key) vals)) (token_ids key)" using len by (simp add: key_len_def)
  from walked_longest [OF w wf _ whole this] have "key_len key < length vs + 1" using p(3) len by (simp add: key_len_def)
  moreover have wd: "length vs \<le> key_len key" "P1 node = P (root_node c) @ zip (take (length vs) (token_ids key)) vs"
    "radix_inv c1 L1 P1 H" "tree_ext c L P c1 L1 P1" "node \<in> L1" "node \<noteq> root_node c \<longrightarrow> key_ns (node_key (nodes c1 node)) = key_ns key"
    using w by (auto simp: walked_def)
  ultimately have lv: "length vs = key_len key" by simp
  have "0 < length vs" using lv False by (simp add: key_len_def)
  from walked_content [OF w wf this] have got: "(key_ns key, zip (token_ids key) vs) \<in> content c L P" using lv by (simp add: key_len_def)
  have "zip (token_ids key) vs = zip (token_ids key) vals"
    by (rule content_functional [OF wf got whole]) (use lv len p(3) in \<open>simp_all add: key_len_def\<close>)
  then have "map snd (zip (token_ids key) vs) = map snd (zip (token_ids key) vals)" by simp
  then have "vs = vals" using lv len by (simp add: key_len_def)
  then show ?thesis using m wd lv tree_wfD(5) [OF wf] by (auto simp: key_len_def)
qed

lemma take_matched:
  assumes inv: "radix_inv c L P H" and p1: "cache_page_size c = 1" and n: "n \<in> L" "n \<noteq> root_node c \<longrightarrow> key_ns (node_key (nodes c n)) = key_ns key"
    and pre: "map fst (P n) = take (length (P n)) (token_ids key)"
    and us: "0 < j \<longrightarrow> (key_ns key, zip (take j (token_ids key)) us) \<in> content c L P" "length us = j" "j \<le> key_len key" and m: "length (P n) \<le> j"
  shows "map snd (P n) = take (length (P n)) us"
proof (cases "n = root_node c")
  case True
  then show ?thesis using tree_wfD(5) [OF radix_invD(1) [OF inv]] by simp
next
  case False
  let ?m = "length (P n)"
  note wf = radix_invD(1) [OF inv]
  show ?thesis
  proof (cases "?m = 0")
    case nz: False
    have a: "(key_ns key, P n) \<in> content c L P" using n False by (auto simp: content_def)
    have "(key_ns key, take ?m (zip (take j (token_ids key)) us)) \<in> content c L P"
      by (rule content_prefix [of _ "zip (take j (token_ids key)) us"]) (use us(1) m nz in \<open>auto simp: take_is_prefix\<close>)
    then have b: "(key_ns key, zip (take ?m (token_ids key)) (take ?m us)) \<in> content c L P"
      using m by (simp add: take_zip min_absorb1)
    have "P n = zip (take ?m (token_ids key)) (take ?m us)"
      by (rule content_functional [OF wf a b]) (use pre us(2,3) m p1 in \<open>simp_all add: key_len_def\<close>)
    then have "map snd (P n) = map snd (zip (take ?m (token_ids key)) (take ?m us))" by simp
    then show ?thesis using us(2,3) m by (simp add: key_len_def)
  qed simp
qed

lemma path_slots:
  assumes wf: "tree_wf c L P" and "n \<in> L" "n \<noteq> root_node c"
  shows "set (map snd (P n)) \<subseteq> set_mset (tree_slots c L (node_dp_rank (nodes c n)))"
  using assms(2,3)
proof (induction "length (P n)" arbitrary: n rule: less_induct)
  case less
  from tree_nodeE [OF wf less.prems] obtain m where m: "m \<in> L" "P n = P m @ node_path (nodes c n)" "node_path (nodes c n) \<noteq> []"
    "m \<noteq> root_node c \<longrightarrow> key_ns (node_key (nodes c m)) = key_ns (node_key (nodes c n))" "token_ids (node_key (nodes c n)) \<noteq> []"
    by (metis key_len_0 length_0_conv)
  have "mset (node_value (nodes c n)) \<subseteq># tree_slots c L (node_dp_rank (nodes c n))"
    using tree_slots_remove [OF tree_wfD(1) [OF wf] less.prems, of "node_dp_rank (nodes c n)"] by simp
  then have own: "set (map snd (node_path (nodes c n))) \<subseteq> set_mset (tree_slots c L (node_dp_rank (nodes c n)))"
    by (force simp: node_path_def dest: set_mset_mono set_zip_rightD)
  show ?case
  proof (cases "m = root_node c")
    case True
    then show ?thesis using own m(2) tree_wfD(5) [OF wf] by simp
  next
    case False
    then have "node_dp_rank (nodes c m) = node_dp_rank (nodes c n)"
      using m(1,4,5) tree_nodeE [OF wf m(1) False] by (metis key_ns_def node_dp_rank_def prod.inject)
    moreover have "set (map snd (P m)) \<subseteq> set_mset (tree_slots c L (node_dp_rank (nodes c m)))"
      by (rule less.hyps) (use m False in auto)
    ultimately show ?thesis using own m(2) by simp
  qed
qed

lemma pool_write_row:
  assumes "i < length (rp_table Q)" "m + length vals \<le> length (rp_table Q ! i)"
  shows "pool_write (int i) m vals Q
    = Inr (Q\<lparr>rp_table := (rp_table Q)[i := take m (rp_table Q ! i) @ vals @ drop (m + length vals) (rp_table Q ! i)]\<rparr>)"
  using assms by (simp add: pool_write_def np_set_slice_fits)

lemma world_lookup_ok:
  fixes W :: kv_world
  assumes inv: "radix_inv (kw_tree W) L P H" and pl: "plain_tree (kw_tree W)" and ok: "kv_ok (kw_tree W) L X"
    and d: "d = req_rank r" "sub_ok (kv_allocator (kw_tree W)) d"
    and n: "n \<in> L" "n \<noteq> root_node (kw_tree W) \<longrightarrow> key_ns (node_key (nodes (kw_tree W) n)) = key_ns key"
      "map fst (P n) = take (length (P n)) (token_ids key)" "length (P n) \<le> key_len key"
    and key: "key_dp_rank key = rq_rank r" "length kv = key_len key" and own: "mset (drop (length (P n)) kv) \<subseteq># X d"
  shows "\<exists>j W1 idx node c2 L2 P2. radix_insert key kv (kw_tree W) = Inr (j, kw_tree W1)
      \<and> kw_pool W1 = kw_pool W
      \<and> (\<exists>W2. world_free (drop (length (P n)) (take j kv)) d W1 = Inr W2 \<and> kw_pool W2 = kw_pool W
           \<and> match_prefix key (kw_tree W2) = Inr (idx, node, c2))
    \<and> radix_inv c2 L2 P2 H \<and> plain_tree c2 \<and> kv_ok c2 L2 (X(d := X d - mset (drop (length (P n)) kv)))
    \<and> (\<forall>q. sub_ok (kv_allocator c2) q = sub_ok (kv_allocator (kw_tree W)) q)
    \<and> (\<forall>q. rank_total c2 L2 q = rank_total (kw_tree W) L q + (if q = d then mset (drop (length (P n)) kv) else {#}))
    \<and> L \<subseteq> L2 \<and> node \<in> L2 \<and> P2 node = zip (token_ids key) idx \<and> length idx = key_len key
    \<and> (node \<noteq> root_node c2 \<longrightarrow> key_ns (node_key (nodes c2 node)) = key_ns key) \<and> map snd (P n) = take (length (P n)) idx"
proof -
  let ?c = "kw_tree W" and ?m = "length (P n)"
  from pl have p: "\<not> disable ?c" "\<not> is_eagle ?c" "cache_page_size ?c = 1" by (simp_all add: plain_tree_def)
  have rank: "d = (case key_dp_rank key of None \<Rightarrow> 0 | Some r \<Rightarrow> r)"
    using d(1) key(1) by (simp add: req_rank_def split: option.splits)
  have kc: "key = key_convert ?c key" using p(2) by (simp add: key_convert_def)
  have pre: "prefix (map fst (P n)) (token_ids key)" unfolding n(3) by (simp add: take_is_prefix)
  obtain j us c1 L1 P1 where ins: "radix_insert key kv ?c = Inr (j, c1)" "radix_inv c1 L1 P1 H" "kv_ok c1 L1 (X(d := X d - mset (drop j kv)))"
    "\<forall>q. rank_total c1 L1 q = rank_total ?c L q + (if q = d then mset (drop j kv) else {#})" "L \<subseteq> L1" "?m \<le> j" "j \<le> length kv" "length us = j"
    "content c1 L1 P1 = content ?c L P \<union> {(key_ns key, ps) |ps. prefix ps (zip (token_ids key) (us @ drop j kv)) \<and> key_len key \<noteq> 0}"
    "0 < j \<longrightarrow> (key_ns key, zip (take j (token_ids key)) us) \<in> content ?c L P" "kv_allocator c1 = kv_allocator ?c"
    and fr: "disable c1 = disable ?c" "is_eagle c1 = is_eagle ?c" "cache_page_size c1 = cache_page_size ?c"
    using insert_held [OF inv p(1,3) ok kc rank d(2) key(2) own n(1,2) pre refl] by (elim exE conjE) (rule that; assumption)
  let ?W1 = "W\<lparr>kw_tree := c1\<rparr>" and ?X1 = "X(d := X d - mset (drop j kv))" and ?idx = "us @ drop j kv"
  note sp = slice_split [OF ins(6,7)]
  have w1: "radix_inv (kw_tree ?W1) L1 P1 H" "plain_tree (kw_tree ?W1)" "kv_ok (kw_tree ?W1) L1 ?X1" "sub_ok (kv_allocator (kw_tree ?W1)) d"
    using ins d(2) fr p by (simp_all add: plain_tree_def)
  have sub: "mset (drop ?m (take j kv)) \<subseteq># ?X1 d" using mset_sub_diff [OF own [unfolded sp]] by simp
  obtain W2 where W2: "world_free (drop ?m (take j kv)) d ?W1 = Inr W2" "radix_inv (kw_tree W2) L1 P1 H" "plain_tree (kw_tree W2)"
    "kv_ok (kw_tree W2) L1 (?X1(d := ?X1 d - mset (drop ?m (take j kv))))"
    "\<forall>q. sub_ok (kv_allocator (kw_tree W2)) q = sub_ok (kv_allocator (kw_tree ?W1)) q"
    "\<forall>q. rank_total (kw_tree W2) L1 q = rank_total (kw_tree ?W1) L1 q + (if q = d then mset (drop ?m (take j kv)) else {#})"
    "kw_pool W2 = kw_pool ?W1" "content (kw_tree W2) L1 P1 = content (kw_tree ?W1) L1 P1"
    using world_free_held [where b = False, folded plain_tree_iff, OF w1 sub] by blast
  have ct2: "content (kw_tree W2) L1 P1 = content ?c L P \<union> {(key_ns key, ps) |ps. prefix ps (zip (token_ids key) ?idx) \<and> key_len key \<noteq> 0}"
    using W2(8) ins(9) by simp
  have li: "length ?idx = key_len key" using ins(7,8) key(2) by simp
  obtain node c2 L2 P2 where m: "match_prefix key (kw_tree W2) = Inr (?idx, node, c2)" "radix_inv c2 L2 P2 H"
    "tree_ext (kw_tree W2) L1 P1 c2 L2 P2" "node \<in> L2" "P2 node = zip (token_ids key) ?idx"
    "node \<noteq> root_node (kw_tree W2) \<longrightarrow> key_ns (node_key (nodes c2 node)) = key_ns key"
    using match_inserted [OF W2(2,3) ct2 li] by blast
  note x = tree_extD [OF m(3)]
  have al2: "kv_allocator c2 = kv_allocator (kw_tree W2)" "plain_tree c2"
    using x(8) W2(3) by (simp_all add: same_frame_def plain_tree_def)
  have "?X1(d := ?X1 d - mset (drop ?m (take j kv))) = X(d := X d - mset (drop ?m kv))"
    unfolding sp by (simp add: union_commute)
  with W2(4) have "kv_ok (kw_tree W2) L1 (X(d := X d - mset (drop ?m kv)))" by (simp only:)
  then have "kv_ok c2 L2 (X(d := X d - mset (drop ?m kv)))"
    unfolding kv_ok_def al2(1) x(9) .
  moreover have "rank_total c2 L2 q = rank_total ?c L q + (if q = d then mset (drop ?m kv) else {#})" for q
  proof -
    have "rank_total c2 L2 q = rank_total (kw_tree W2) L1 q" by (simp add: rank_total_def al2 x(9))
    then show ?thesis using W2(6) ins(4) unfolding sp by (simp add: ac_simps)
  qed
  moreover have "map snd (P n) = take ?m ?idx"
    using take_matched [OF inv p(3) n(1,2,3) ins(10,8) _ ins(6)] ins(6,7,8) key(2) by simp
  moreover have "\<forall>q. sub_ok (kv_allocator c2) q = sub_ok (kv_allocator ?c) q" using al2 W2(5) ins(11) by simp
  moreover have "\<exists>W2. world_free (drop ?m (take j kv)) d ?W1 = Inr W2 \<and> kw_pool W2 = kw_pool W \<and> match_prefix key (kw_tree W2) = Inr (?idx, node, c2)"
    using W2(1,7) m(1) by auto
  moreover have "node \<noteq> root_node c2 \<longrightarrow> key_ns (node_key (nodes c2 node)) = key_ns key" using m(6) x(3) by simp
  moreover have "L \<subseteq> L2" using ins(5) x(2) by blast
  ultimately show ?thesis using ins(1) m(2,4,5) li al2(2)
    by (intro exI [of _ j] exI [of _ ?W1] exI [of _ ?idx] exI [of _ node] exI [of _ c2] exI [of _ L2] exI [of _ P2]) simp
qed

lemma cache_unfinished_ok:
  assumes inv: "radix_inv (kw_tree W) L P H" and pl: "plain_tree (kw_tree W)" and ok: "kv_ok (kw_tree W) L X"
    and h: "req_holds W L P H r i n" and d: "d = req_rank r" "sub_ok (kv_allocator (kw_tree W)) d"
    and own: "mset (own_slots W r) \<subseteq># X d"
    and N: "N = length (rq_fill_ids r)" "rq_protected_len r \<le> int N" "int N \<le> rq_committed_len r"
  defines "H1 \<equiv> (\<lambda>node. (H(n := H n - 1))(node := Suc ((H(n := H n - 1)) node)))"
    and "gone \<equiv> drop (nat (rq_protected_len r)) (take N (req_row W r))"
  shows "\<exists>r1 W1 L1 P1 node. cache_unfinished_req r W = Inr (r1, W1) \<and> radix_inv (kw_tree W1) L1 P1 (H1 node) \<and> plain_tree (kw_tree W1)
    \<and> req_holds W1 L1 P1 (H1 node) r1 i node \<and> rq_protected_len r1 = int N \<and> rq_prefix r1 = take N (req_row W1 r1)
    \<and> mset (own_slots W r) = mset gone + mset (own_slots W1 r1) \<and> kv_ok (kw_tree W1) L1 (X(d := X d - mset gone))
    \<and> (\<forall>q. rank_total (kw_tree W1) L1 q = rank_total (kw_tree W) L q + (if q = d then mset gone else {#}))"
proof -
  note hd = req_holdsD [OF h]
  let ?c = "kw_tree W" and ?m = "length (P n)" and ?row = "req_row W r" and ?kv = "take N (req_row W r)"
  define A where "A = nat (rq_allocated_len r)"
  from pl have p: "\<not> disable ?c" "\<not> is_eagle ?c" "cache_page_size ?c = 1" by (simp_all add: plain_tree_def)
  have NA: "rq_allocated_len r = int A" "?m \<le> N" "N \<le> A" "A \<le> length ?row" "N \<le> length (key_seq r)"
    using hd(6,9,10,11,12) N by (auto simp: A_def)
  have gone: "gone = drop ?m ?kv" using hd(6) by (simp add: gone_def)
  have own_eq: "own_slots W r = drop ?m (take A ?row)" using hd(6) by (simp add: own_slots_def A_def)
  have take_N: "take N (take A ?row) = ?kv" using NA(3) by (simp add: min_absorb1)
  have sp: "mset (own_slots W r) = mset (drop ?m ?kv) + mset (drop N (take A ?row))"
    using slice_split [of ?m N "take A ?row"] NA by (simp add: own_eq take_N)
  have own1: "mset (drop ?m ?kv) \<subseteq># X d" using own unfolding sp by (rule subset_mset.order_trans [rotated]) simp
  define key where "key = \<lparr>token_ids = map Tok_Id (take N (key_seq r)), extra_key = rq_extra_key r, key_dp_rank = rq_rank r\<rparr>"
  have bk: "build_radix_key r (int N) = Inr key" using build_radix_key_ok [OF hd(14), of "int N"] by (simp add: key_def py_slice_prefix)
  have rd: "req_read r (int N) (kw_pool W) = Inr ?kv" using hd(1,2,17) by (simp add: req_read_def pool_read_def py_slice_prefix)
  have klen: "key_len key = N" and kvlen: "length ?kv = key_len key" using NA by (simp_all add: key_def key_len_def)
  have fst_m: "map fst (P n) = take ?m (token_ids key)" using hd(7) NA(2) by (simp add: key_def take_map min_absorb1)
  have ns: "n \<noteq> root_node ?c \<longrightarrow> key_ns (node_key (nodes ?c n)) = key_ns key" using hd(8) by (simp add: key_def key_ns_def)
  have kr: "key_dp_rank key = rq_rank r" and mk: "?m \<le> key_len key" using NA(2) klen by (simp_all add: key_def)
  obtain j W1 idx node c2 L2 P2 W2 where ins: "radix_insert key ?kv ?c = Inr (j, kw_tree W1)" "kw_pool W1 = kw_pool W"
    "world_free (drop ?m (take j ?kv)) d W1 = Inr W2" "kw_pool W2 = kw_pool W" "match_prefix key (kw_tree W2) = Inr (idx, node, c2)"
    and c2: "radix_inv c2 L2 P2 H" "plain_tree c2" "kv_ok c2 L2 (X(d := X d - mset (drop ?m ?kv)))"
    "\<forall>q. sub_ok (kv_allocator c2) q = sub_ok (kv_allocator ?c) q"
    "\<forall>q. rank_total c2 L2 q = rank_total ?c L q + (if q = d then mset (drop ?m ?kv) else {#})"
    "L \<subseteq> L2" "node \<in> L2" "P2 node = zip (token_ids key) idx" "length idx = key_len key"
    "node \<noteq> root_node c2 \<longrightarrow> key_ns (node_key (nodes c2 node)) = key_ns key" "map snd (P n) = take ?m idx"
    using world_lookup_ok [OF inv pl ok d hd(4) ns fst_m mk kr kvlen own1] by (elim exE conjE) (rule that; assumption)
  have W1: "W\<lparr>kw_tree := kw_tree W1\<rparr> = W1" using ins(2) by simp
  define row1 where "row1 = take ?m ?row @ drop ?m idx @ drop N ?row"
  have idx: "take ?m ?row = take ?m idx" using c2(11) hd(18) by simp
  have row1: "row1 = idx @ drop N ?row" unfolding row1_def idx by (metis append_assoc append_take_drop_id)
  have li: "length idx = N" using c2(9) klen by simp
  have wr: "pool_write (int i) ?m (drop ?m idx) (kw_pool W) = Inr ((kw_pool W)\<lparr>rp_table := (rp_table (kw_pool W))[i := row1]\<rparr>)"
    using pool_write_row [OF hd(2), of ?m "drop ?m idx"] li NA hd(17) by (simp add: row1_def)
  have nd2: "\<not> disable c2" using c2(2) by (simp add: plain_tree_def)
  have nL2: "n \<in> L2" using c2(6) hd(4) by blast
  obtain e3 c3 where c3: "dec_lock_ref n c2 = Inr (e3, c3)" "relocked c2 L2 P2 c3" "radix_inv c3 L2 P2 (H(n := H n - 1))"
    using dec_lock_ref_ok [OF c2(1) nL2 nd2 hd(5)] by blast
  have nd3: "\<not> disable c3" using c3(2) nd2 by (simp add: relocked_def)
  obtain e4 c4 where c4: "inc_lock_ref node c3 = Inr (e4, c4)" "relocked c3 L2 P2 c4" "radix_inv c4 L2 P2 (H1 node)"
    using inc_lock_ref_ok [OF c3(3) c2(7) nd3] unfolding H1_def by blast
  have rel: "relocked c2 L2 P2 c4" by (rule relocked_trans [OF c3(2) c4(2)])
  define r1 where "r1 = r\<lparr>rq_matched_len := int N, rq_protected_len := int N, rq_prefix := idx, rq_last_node := Some node\<rparr>"
  define W4 where "W4 = \<lparr>kw_tree = c4, kw_pool = (kw_pool W)\<lparr>rp_table := (rp_table (kw_pool W))[i := row1]\<rparr>\<rparr>"
  have old: "old_prefix_len ?c r = int ?m" using p hd(6) by (simp add: old_prefix_len_def)
  have run: "cache_unfinished_req r W = Inr (r1, W4)"
    using p rd bk ins wr c3(1) c4(1) hd(1,3) li
    by (simp add: cache_unfinished_req_def Let_def N(1) [symmetric] page_aligned_len_def token_len_def old W1 py_slice_drop_take
        d(1) dec_lock_node_def r1_def W4_def)
  have row4: "req_row W4 r1 = row1" using hd(1,2) by (simp add: req_row_def W4_def r1_def)
  have pl4: "plain_tree c4" "kv_allocator c4 = kv_allocator c2" "root_node c4 = root_node c2" "nodes c4 node = nodes c2 node \<or> node_key (nodes c4 node) = node_key (nodes c2 node)"
    using rel c2(2) by (auto simp: relocked_def plain_tree_def)
  have key4: "node_key (nodes c4 node) = node_key (nodes c2 node)" using rel by (simp add: relocked_def)
  have nzi: "0 \<notin> set idx"
  proof (cases "node = root_node c2")
    case True
    then have "zip (token_ids key) idx = []" using c2(8) tree_wfD(5) [OF radix_invD(1) [OF c2(1)]] by simp
    then have "idx = []" using c2(9) by (cases idx; cases "token_ids key") (auto simp: key_len_def)
    then show ?thesis by simp
  next
    case False
    have "map snd (P2 node) = idx" using c2(8,9) by (simp add: key_len_def)
    then have sub: "set idx \<subseteq> set_mset (tree_slots c2 L2 (node_dp_rank (nodes c2 node)))"
      using path_slots [OF radix_invD(1) [OF c2(1)] c2(7) False] by simp
    show ?thesis
    proof
      assume z: "0 \<in> set idx"
      then have ne: "tree_slots c2 L2 (node_dp_rank (nodes c2 node)) \<noteq> {#}" using sub by auto
      note okr = kv_okD(2) [OF c2(3) ne]
      from kv_okD(3) [OF c2(3) okr] sub z have "0 \<in> sub_slots (kv_allocator c2) (node_dp_rank (nodes c2 node))" by auto
      with sub_slots_pos [OF okr] show False by blast
    qed
  qed
  have take_row1: "take A row1 = idx @ drop N (take A ?row)" using NA li by (simp add: row1 drop_take)
  have holds: "req_holds W4 L2 P2 (H1 node) r1 i node"
    unfolding req_holds_def row4
  proof (intro conjI)
    show "map snd (P2 node) = take (length (P2 node)) row1" using c2(8,9) by (simp add: row1 key_len_def)
    show "map fst (P2 node) = take (length (P2 node)) (map Tok_Id (key_seq r1))"
      using c2(8,9) klen NA(5) by (simp add: key_def key_len_def r1_def key_seq_def take_map)
    show "node \<noteq> root_node (kw_tree W4) \<longrightarrow> key_ns (node_key (nodes (kw_tree W4) node)) = (rq_extra_key r1, rq_rank r1)"
      using c2(10) by (simp add: W4_def pl4(3) key4 key_def key_ns_def r1_def)
    have "set (drop N (take A ?row)) \<subseteq> set (take A ?row)" by (rule set_drop_subset)
    then show "0 \<notin> set (take (nat (rq_allocated_len r1)) row1)"
      using nzi hd(13) take_row1 NA(1) by (auto simp: r1_def)
    show "rq_protected_len r1 = int (length (P2 node))" using c2(8,9) klen by (simp add: r1_def key_len_def)
    show "i < length (rp_table (kw_pool W4))" using hd(2) by (simp add: W4_def)
    show "rq_allocated_len r1 \<le> int (length row1)" using NA li by (simp add: r1_def row1)
    show "0 < H1 node node" by (simp add: H1_def)
  qed (use hd N c2(7) li in \<open>simp_all add: r1_def key_seq_def\<close>)
  have own4: "own_slots W4 r1 = drop N (take A ?row)"
    using take_row1 li NA(1) by (simp add: own_slots_def row4) (simp add: r1_def)
  have f1: "rq_prefix r1 = idx" "rq_protected_len r1 = int N" by (simp_all add: r1_def)
  have "rq_prefix r1 = take N (req_row W4 r1)" using li unfolding row4 row1 f1(1) by simp
  moreover have "kv_ok c4 L2 (X(d := X d - mset gone))" "rank_total c4 L2 q = rank_total c2 L2 q" for q
    using c2(3) relocked_kv_ok [OF rel] by (simp_all add: gone)
  moreover have "mset (own_slots W r) = mset gone + mset (own_slots W4 r1)" using sp own4 gone by simp
  moreover have "kw_tree W4 = c4" by (simp add: W4_def)
  ultimately show ?thesis using run holds c4(3) pl4(1) c2(5) f1(2)
    by (intro exI [of _ r1] exI [of _ W4] exI [of _ L2] exI [of _ P2] exI [of _ node]) (simp add: gone)
qed

section \<open>Allocation with eviction\<close>

lemma whole_aligned:
  assumes "\<forall>xs. sub_whole a xs" "sub_ok a r"
  shows "sub_aligned a n"
proof (cases a)
  case (Pag b)
  with assms(1) have "whole_pages b [0]" by simp
  then obtain pages where "[0] = concat (map (page_tokens (page_size b)) pages)" by (auto simp: whole_pages_def)
  then have "length [0::int] = length pages * page_size b" by (metis length_concat_page_tokens)
  then show ?thesis using Pag by simp
qed simp

lemma sub_alloc_other:
  assumes "sub_alloc n r s = Inr (out, s')" "q \<noteq> r"
  shows "sub_avail s' q = sub_avail s q"
  using assms
  by (cases s) (auto simp: rbind_eq_Inr_iff token_alloc_def paged_alloc_def paged_avail_def ensure_free_pages_def merge_and_sort_free_def Let_def split: if_splits)

lemma sub_alloc_ok: "sub_ok s r \<Longrightarrow> sub_ok s' r \<Longrightarrow> sub_alloc n r s = Inr (out, s') \<Longrightarrow> sub_ok s' q = sub_ok s q"
  by (cases s) (auto simp: rbind_eq_Inr_iff token_alloc_def paged_alloc_def ensure_free_pages_def merge_and_sort_free_def Let_def split: if_splits)

text \<open>Taking free slots for a request.\<close>

lemma alloc_held:
  assumes ok: "kv_ok c L X" and d: "sub_ok (kv_allocator c) d"
  shows "if n \<le> length (sub_avail (kv_allocator c) d)
    then \<exists>xs al. sub_alloc n d (kv_allocator c) = Inr (Some xs, al) \<and> length xs = n
      \<and> kv_ok (c\<lparr>kv_allocator := al\<rparr>) L (X(d := X d + mset xs))
      \<and> (\<forall>q. rank_total c L q = rank_total (c\<lparr>kv_allocator := al\<rparr>) L q + (if q = d then mset xs else {#}))
    else \<exists>al. sub_alloc n d (kv_allocator c) = Inr (None, al)"
proof -
  let ?a = "kv_allocator c"
  have al: "sub_aligned ?a n" by (rule whole_aligned [OF _ d]) (use kv_okD(1) [OF ok] in blast)
  obtain out al' where o: "sub_alloc n d ?a = Inr (out, al')" using sub.alloc_total [OF d al] by blast
  show ?thesis
  proof (cases out)
    case None
    then show ?thesis using o sub.alloc_none [OF d al, of al'] by auto
  next
    case (Some xs)
    note k = sub.alloc_keeps [OF d al o]
    note s = sub.alloc_some [OF d al o [unfolded Some]]
    have okq: "sub_ok al' q = sub_ok ?a q" for q using sub_alloc_ok [OF d _ o] k by blast
    have av: "mset (sub_avail ?a q) = mset (sub_avail al' q) + (if q = d then mset xs else {#})" for q
      using s sub_alloc_other [OF o, of q] by simp
    let ?c = "c\<lparr>kv_allocator := al'\<rparr>" and ?X = "X(d := X d + mset xs)"
    have ts: "tree_slots ?c L = tree_slots c L" by (rule ext) (simp add: tree_slots_def)
    have tot: "mset (sub_avail al' q) + tree_slots c L q + ?X q = mset (sub_avail ?a q) + tree_slots c L q + X q" for q
      by (simp add: av ac_simps)
    have fr: "kv_allocator ?c = al'" by simp
    have "kv_ok ?c L ?X"
      unfolding kv_ok_def fr ts
    proof (intro conjI allI impI)
      show "sub_whole al' ys" for ys using kv_okD(1) [OF ok] k by simp
      show "sub_ok al' q" if "tree_slots c L q \<noteq> {#}" for q using kv_okD(2) [OF ok that] by (simp add: okq)
      fix q assume "sub_ok al' q"
      then have q: "sub_ok ?a q" by (simp add: okq)
      have "set xs \<subseteq> sub_slots ?a d" using sub.avail_slots [OF d] s by (metis Un_subset_iff set_mset_mset set_mset_union)
      then show "set_mset (tree_slots c L q + ?X q) \<subseteq> sub_slots al' q"
        using kv_okD(3) [OF ok q] k by (auto split: if_splits)
      show "count (mset (sub_avail al' q) + tree_slots c L q + ?X q) s \<le> 1" for s
        unfolding tot by (rule kv_okD(4) [OF ok q])
    qed
    moreover have "rank_total c L q = rank_total ?c L q + (if q = d then mset xs else {#})" for q
      by (simp add: rank_total_def ts av ac_simps)
    moreover have "n \<le> length (sub_avail ?a d)" using s by (metis le_add2 size_mset size_union)
    ultimately show ?thesis using o Some s by auto
  qed
qed

text \<open>What eviction does to the slots.\<close>

lemma evicted_slots:
  assumes wf: "tree_wf c L P" and e: "evicted dp c L k c' L'"
  shows "tree_slots c L q = tree_slots c' L' q + tree_slots c (L - L') q"
proof -
  have sub: "L' \<subseteq> L" "root_node c' = root_node c" using e by (auto simp: evicted_def)
  have same: "node_value (nodes c' n) = node_value (nodes c n)" "node_dp_rank (nodes c' n) = node_dp_rank (nodes c n)" for n
    using e by (auto simp: evicted_def intro: node_dp_rank_cong)
  have "{n \<in> L - {root_node c}. node_dp_rank (nodes c n) = q} =
      {n \<in> L' - {root_node c}. node_dp_rank (nodes c n) = q} \<union> {n \<in> L - L' - {root_node c}. node_dp_rank (nodes c n) = q}"
    using sub by auto
  moreover have "finite L" by (rule tree_wfD(1) [OF wf])
  ultimately show ?thesis
    unfolding tree_slots_def same sub(2) using sub(1)
    by (simp add: sum.union_disjoint [OF finite_subset finite_subset] disjoint_iff)
      (subst sum.union_disjoint, auto intro: finite_subset)
qed

lemma evicted_kv_ok:
  assumes wf: "tree_wf c L P" and ok: "kv_ok c L X" and e: "evicted dp c L k c' L'"
  shows "kv_ok c' L' X" "rank_total c' L' q = rank_total c L q"
proof -
  let ?a = "kv_allocator c"
  note ts = evicted_slots [OF wf e]
  have al: "sub_slots (kv_allocator c') = sub_slots ?a" "sub_whole (kv_allocator c') = sub_whole ?a" "sub_ok (kv_allocator c') = sub_ok ?a"
    "mset (sub_avail (kv_allocator c') q) = mset (sub_avail ?a q) + tree_slots c (L - L') q" for q
    using e by (simp_all add: evicted_def)
  have tot: "mset (sub_avail (kv_allocator c') q) + tree_slots c' L' q = mset (sub_avail ?a q) + tree_slots c L q" for q
    unfolding ts al by (simp add: ac_simps)
  show "rank_total c' L' q = rank_total c L q" by (simp only: rank_total_def tot)
  show "kv_ok c' L' X"
    unfolding kv_ok_def al(1-3) tot
  proof (intro conjI allI impI)
    show "sub_whole ?a ys" for ys by (rule kv_okD(1) [OF ok])
    show "sub_ok ?a q" if "tree_slots c' L' q \<noteq> {#}" for q using kv_okD(2) [OF ok, of q] that by (simp add: ts)
    fix q assume q: "sub_ok ?a q"
    show "set_mset (tree_slots c' L' q + X q) \<subseteq> sub_slots ?a q" using kv_okD(3) [OF ok q] by (auto simp: ts)
    show "count (mset (sub_avail ?a q) + tree_slots c L q + X q) s \<le> 1" for s by (rule kv_okD(4) [OF ok q])
  qed
qed

lemma evicted_count:
  assumes inv: "radix_inv c L P H" and e: "evicted (Some d) c L k c' L'"
  shows "length (sub_avail (kv_allocator c') d) = length (sub_avail (kv_allocator c) d) + k" "int k \<le> evictable_size d c"
proof -
  note wf = radix_invD(1) [OF inv]
  have g: "L' \<subseteq> L" "root_node c \<in> L'" "\<forall>n\<in>L - L'. lock_ref (nodes c n) = 0 \<and> node_dp_rank (nodes c n) = d"
    "k = (\<Sum>n\<in>L - L'. length (node_value (nodes c n)))"
    "mset (sub_avail (kv_allocator c') d) = mset (sub_avail (kv_allocator c) d) + tree_slots c (L - L') d"
    using e by (auto simp: evicted_def rank_match_def)
  have fin: "finite (L - {root_node c})" using tree_wfD(1) [OF wf] by simp
  have "{n \<in> L - L' - {root_node c}. node_dp_rank (nodes c n) = d} = L - L'" using g by auto
  then have "size (tree_slots c (L - L') d) = k" using g(4) by (simp add: tree_slots_def size_multiset_sum)
  then show "length (sub_avail (kv_allocator c') d) = length (sub_avail (kv_allocator c) d) + k"
    using arg_cong [OF g(5), of size] by simp
  have "int k = (\<Sum>n\<in>L - L'. if node_dp_rank (nodes c n) = d \<and> \<not> lock_ref (nodes c n) > 0 then int (length (node_value (nodes c n))) else 0)"
    using g(3,4) by simp
  also have "\<dots> \<le> (\<Sum>n\<in>L - {root_node c}. if node_dp_rank (nodes c n) = d \<and> \<not> lock_ref (nodes c n) > 0
        then int (length (node_value (nodes c n))) else 0)"
    using g(2) by (intro sum_mono2 [OF fin]) auto
  also have "\<dots> = evictable_size d c"
    using radix_invD(3) [OF inv] by (simp add: evictable_size_def sizes_ok_def ranked_size_def)
  finally show "int k \<le> evictable_size d c" .
qed

lemma alloc_token_slots_ok:
  assumes pick: "heap_pick pick" and inv: "radix_inv c L P H" and nd: "\<not> disable c" and ok: "kv_ok c L X"
    and d: "sub_ok (kv_allocator c) d"
  shows "if int n \<le> int (length (sub_avail (kv_allocator c) d)) + evictable_size d c
    then \<exists>xs c' L'. alloc_token_slots pick n d c = Inr (xs, c') \<and> length xs = n \<and> radix_inv c' L' P H
      \<and> L' \<subseteq> L \<and> (\<forall>m\<in>L. 0 < H m \<longrightarrow> m \<in> L') \<and> kv_ok c' L' (X(d := X d + mset xs))
      \<and> (\<forall>q. rank_total c L q = rank_total c' L' q + (if q = d then mset xs else {#}))
    else alloc_token_slots pick n d c = Inl RuntimeError"
proof -
  let ?av = "length (sub_avail (kv_allocator c) d)"
  note wf = radix_invD(1) [OF inv]
  have "\<exists>c1 L1. evict_from_tree_cache pick n d c = Inr c1 \<and> radix_inv c1 L1 P H \<and> L1 \<subseteq> L \<and> (\<forall>m\<in>L. 0 < H m \<longrightarrow> m \<in> L1)
      \<and> kv_ok c1 L1 X \<and> (\<forall>q. rank_total c1 L1 q = rank_total c L q) \<and> sub_ok (kv_allocator c1) d
      \<and> (n \<le> length (sub_avail (kv_allocator c1) d) \<longleftrightarrow> int n \<le> int ?av + evictable_size d c)"
  proof (cases "?av < n")
    case True
    obtain k c1 L1 where e: "evict pick (int n) (Some d) c = Inr (k, c1)" "radix_inv c1 L1 P H" "L1 \<subseteq> L"
      "\<forall>m\<in>L. 0 < H m \<longrightarrow> m \<in> L1" "min (int n) (evictable_size d c) \<le> int k" "evicted (Some d) c L k c1 L1"
      using evict_ok [OF pick inv kv_ok_slots_ok [OF wf ok] nd, of "int n" d] by (elim exE conjE) (rule that; assumption)
    note ek = evicted_kv_ok [OF wf ok e(6)] and ec = evicted_count [OF inv e(6)]
    have "sub_ok (kv_allocator c1) d" using e(6) d by (simp add: evicted_def)
    moreover have "n \<le> length (sub_avail (kv_allocator c1) d) \<longleftrightarrow> int n \<le> int ?av + evictable_size d c"
      using ec e(5) by linarith
    ultimately show ?thesis using True e ek sub_available_size_eq [OF d]
      by (intro exI [of _ c1] exI [of _ L1]) (simp add: evict_from_tree_cache_def)
  next
    case False
    have "0 \<le> evictable_size d c"
      using radix_invD(3) [OF inv] by (simp add: evictable_size_def sizes_ok_def ranked_size_def sum_nonneg)
    then show ?thesis using False inv ok d sub_available_size_eq [OF d]
      by (intro exI [of _ c] exI [of _ L]) (simp add: evict_from_tree_cache_def)
  qed
  then obtain c1 L1 where c1: "evict_from_tree_cache pick n d c = Inr c1" "radix_inv c1 L1 P H" "L1 \<subseteq> L" "\<forall>m\<in>L. 0 < H m \<longrightarrow> m \<in> L1"
    "kv_ok c1 L1 X" "\<forall>q. rank_total c1 L1 q = rank_total c L q" "sub_ok (kv_allocator c1) d"
    "n \<le> length (sub_avail (kv_allocator c1) d) \<longleftrightarrow> int n \<le> int ?av + evictable_size d c" by (elim exE conjE) (rule that; assumption)
  note al = alloc_held [OF c1(5,7), of n]
  show ?thesis
  proof (cases "n \<le> length (sub_avail (kv_allocator c1) d)")
    case True
    then obtain xs al' where a: "sub_alloc n d (kv_allocator c1) = Inr (Some xs, al')" "length xs = n"
      "kv_ok (c1\<lparr>kv_allocator := al'\<rparr>) L1 (X(d := X d + mset xs))"
      "\<forall>q. rank_total c1 L1 q = rank_total (c1\<lparr>kv_allocator := al'\<rparr>) L1 q + (if q = d then mset xs else {#})"
      using al by auto
    have "radix_inv (c1\<lparr>kv_allocator := al'\<rparr>) L1 P H" using c1(2) by simp
    moreover have "alloc_token_slots pick n d c = Inr (xs, c1\<lparr>kv_allocator := al'\<rparr>)" using c1(1) a(1) by (simp add: alloc_token_slots_def)
    moreover have "\<forall>q. rank_total c L q = rank_total (c1\<lparr>kv_allocator := al'\<rparr>) L1 q + (if q = d then mset xs else {#})"
      using a(4) c1(6) by metis
    ultimately show ?thesis
      unfolding c1(8) [symmetric] if_P [OF True]
      using c1(3,4) a(2,3) by - (intro exI conjI; assumption)
  next
    case False
    then show ?thesis using c1(1,8) al by (auto simp: alloc_token_slots_def)
  qed
qed

section \<open>EAGLE\<close>

text \<open>Under EAGLE the path of the request's node is a prefix of its bigrams; the request owns its row from where
  that path ends.\<close>

definition eagle_holds :: "kv_world \<Rightarrow> nat set \<Rightarrow> (nat \<Rightarrow> annotated) \<Rightarrow> (nat \<Rightarrow> nat) \<Rightarrow> cache_req \<Rightarrow> nat \<Rightarrow> nat \<Rightarrow> bool" where
  "eagle_holds W L P H r i n \<longleftrightarrow> unit_tree True (kw_tree W) \<and> unit_holds True W L P H r i n"

definition eagle_slots :: "kv_world \<Rightarrow> cache_req \<Rightarrow> int list" where
  "eagle_slots W r = drop (nat (old_prefix_len (kw_tree W) r)) (take (nat (rq_allocated_len r)) (req_row W r))"

definition last_committed :: "kv_world \<Rightarrow> cache_req \<Rightarrow> int" where
  "last_committed W r = req_row W r ! (nat (rq_committed_len r) - 1)"

lemma given_back_eagle:
  assumes "eagle_holds W L P H r i n"
  shows "mset (eagle_slots W r) = add_mset (last_committed W r) (mset (given_back True (length (P n)) W r))"
proof -
  from assms have "unit_holds True W L P H r i n" by (simp add: eagle_holds_def)
  note hd = unit_holdsD [OF this]
  define N where "N = nat (rq_committed_len r)"
  define A where "A = nat (rq_allocated_len r)"
  let ?m = "length (P n)" and ?row = "req_row W r" and ?xs = "take A (req_row W r)"
  have NA: "?m \<le> N - 1" "0 < N" "N \<le> A" "A \<le> length ?row"
    using hd(9,10,11,18,19) by (auto simp: N_def A_def keyed_len_def)
  have t: "take (N - 1) ?xs = take (N - 1) ?row" using NA by (simp add: min_absorb1)
  have "mset (drop ?m ?xs) = mset (drop ?m (take (N - 1) ?row)) + mset (drop (N - 1) ?xs)"
    using slice_split [of ?m "N - 1" ?xs] NA unfolding t by simp
  also have "drop (N - 1) ?xs = ?row ! (N - 1) # drop N ?xs"
    using Cons_nth_drop_Suc [of "N - 1" ?xs] NA by simp
  finally show ?thesis
    using hd(6) by (simp add: eagle_slots_def given_back_def last_committed_def keyed_len_def N_def A_def)
qed

lemma eagle_release_ok:
  assumes inv: "radix_inv (kw_tree W) L P H" and ok: "kv_ok (kw_tree W) L X" and h: "eagle_holds W L P H r i n"
    and d: "d = req_rank r" "sub_ok (kv_allocator (kw_tree W)) d" and own: "mset (eagle_slots W r) \<subseteq># X d"
    and over: "allow \<or> spec \<or> rq_committed_len r = rq_allocated_len r"
  shows "\<exists>r1 W1 L1 P1. release_kv_cache r is_insert allow spec W = Inr (r1, W1) \<and> rq_pool_idx r1 = None
    \<and> kw_pool W1 = (kw_pool W)\<lparr>rp_free := rp_free (kw_pool W) @ [i]\<rparr>
    \<and> radix_inv (kw_tree W1) L1 P1 (H(n := H n - 1))
    \<and> kv_ok (kw_tree W1) L1 (X(d := X d - (mset (eagle_slots W r) - {#last_committed W r#})))
    \<and> (\<forall>q. rank_total (kw_tree W1) L1 q = rank_total (kw_tree W) L q
         + (if q = d then mset (eagle_slots W r) - {#last_committed W r#} else {#}))
    \<and> last_committed W r \<in># mset (eagle_slots W r) \<and> last_committed W r \<notin># rank_total (kw_tree W1) L1 d"
proof -
  let ?x = "last_committed W r" and ?g = "mset (given_back True (length (P n)) W r)"
  note gb = given_back_eagle [OF h]
  from h have u: "unit_tree True (kw_tree W)" "unit_holds True W L P H r i n" by (simp_all add: eagle_holds_def)
  have sub: "?g \<subseteq># X d" using own unfolding gb by (rule subset_mset.order_trans [rotated]) simp
  obtain r1 W1 L1 P1 where W1: "release_kv_cache r is_insert allow spec W = Inr (r1, W1)" "radix_inv (kw_tree W1) L1 P1 (H(n := H n - 1))"
    "kv_ok (kw_tree W1) L1 (X(d := X d - ?g))" "\<forall>q. sub_ok (kv_allocator (kw_tree W1)) q = sub_ok (kv_allocator (kw_tree W)) q"
    "\<forall>q. rank_total (kw_tree W1) L1 q = rank_total (kw_tree W) L q + (if q = d then ?g else {#})"
    "rq_pool_idx r1 = None" "kw_pool W1 = (kw_pool W)\<lparr>rp_free := rp_free (kw_pool W) @ [i]\<rparr>"
    using release_unit_ok [OF inv u(1) ok u(2) d sub over, of is_insert] by (elim exE conjE) (rule that; assumption)
  have dd: "sub_ok (kv_allocator (kw_tree W1)) d" using W1(4) d(2) by simp
  have "?x \<in># X d - ?g"
    using mset_sub_diff [of "{#?x#}" ?g "X d"] own unfolding gb single_subset_iff by simp
  then have "0 < count ((X(d := X d - ?g)) d) ?x" unfolding fun_upd_same by (simp only: count_greater_zero_iff)
  with kv_okD(4) [OF W1(3) dd, of ?x] have "count (rank_total (kw_tree W1) L1 d) ?x = 0"
    unfolding rank_total_def count_union by linarith
  then have nin: "?x \<notin># rank_total (kw_tree W1) L1 d" by (simp only: not_in_iff)
  have g: "mset (eagle_slots W r) - {#?x#} = ?g" and x: "?x \<in># mset (eagle_slots W r)" unfolding gb by simp_all
  show ?thesis unfolding g
    by (rule exI [of _ r1], rule exI [of _ W1], rule exI [of _ L1], rule exI [of _ P1]) (intro conjI W1(1-3,5-7) x nin)
qed

section \<open>Properties\<close>

text \<open>A cache with one leaf of one token on a rank with eight slots, and a request that holds the leaf locked and
  owns two more slots.\<close>

definition demo_tree :: "tok \<Rightarrow> radix_cache" where
  "demo_tree t = (demo_fresh 1)
     \<lparr>nodes := (\<lambda>n. if n = 0 then \<lparr>children = [(With_Both ''lora'' 0 (One t), 1)], parent = None,
          node_key = \<lparr>token_ids = [], extra_key = None, key_dp_rank = None\<rparr>, node_value = [], lock_ref = 1, last_access_time = 5\<rparr>
        else \<lparr>children = [], parent = Some 0, node_key = \<lparr>token_ids = [t], extra_key = Some ''lora'', key_dp_rank = Some 0\<rparr>,
          node_value = [3], lock_ref = 1, last_access_time = 6\<rparr>),
      next_id := 2, root_node := 0, protected_sizes := (\<lambda>_. 0)(0 := 1),
      kv_allocator := Tok \<lparr>pool_size = 8, page_size = 1, dp_size = 1, size_per_rank = 8, is_not_in_free_group = True,
        free_group = [[]], free_slots = [[1, 2, 6, 7, 8]], origin_size = 8\<rparr>\<rparr>"

definition demo_pool :: req_pool where
  "demo_pool = \<lparr>rp_size = 1, rp_max_context = 8, rp_table = [[3, 4, 5, 0, 0, 0, 0, 0]], rp_free = [], rp_host_buf = None\<rparr>"

definition demo_held :: cache_req where
  "demo_held = \<lparr>rq_id = 0, rq_pool_idx = Some 0, rq_is_chunked = 0, rq_committed_len = 3, rq_rank = Some 0, rq_recurrent = None,
     rq_track = None, rq_next_track = None, rq_last_track = None, rq_origin_ids = [7, 9], rq_radix_ids = [7, 9], rq_output_ids = [11],
     rq_fill_ids = [7, 9], rq_extra_key = Some ''lora'', rq_max_new = 4, rq_return_logprob = False, rq_logprob_start = 0,
     rq_return_hidden = False, rq_hidden_len = 0, rq_prefix = [3], rq_last_node = Some 1, rq_protected_len = 1, rq_matched_len = 1,
     rq_allocated_len = 3, rq_committed_freed = False, rq_over_freed = False, rq_swa_evicted = 0\<rparr>"

definition demo_world :: kv_world where
  "demo_world = \<lparr>kw_tree = demo_tree (Tok_Id 7), kw_pool = demo_pool\<rparr>"

definition demo_eagle_world :: kv_world where
  "demo_eagle_world = \<lparr>kw_tree = (demo_tree (Bigram (Tok_Id 7) (Tok_Id 9)))\<lparr>is_eagle := True\<rparr>, kw_pool = demo_pool\<rparr>"

definition demo_owned :: "nat \<Rightarrow> int multiset" where
  "demo_owned = (\<lambda>r. if r = 0 then {#4, 5#} else {#})"

definition demo_holds :: "nat \<Rightarrow> nat" where
  "demo_holds = (\<lambda>n. if n = 1 then 1 else 0)"

lemma demo_tree_inv: "radix_inv ((demo_tree t)\<lparr>is_eagle := b\<rparr>) {0, 1} (\<lambda>n. if n = 1 then [(t, 3)] else []) demo_holds"
proof -
  have l: "{0, 1} - {0 :: nat} = {1}" "{0, Suc 0} - {0} = {Suc 0}" by auto
  have k: "{m \<in> {Suc 0}. P m} = (if P (Suc 0) then {Suc 0} else {})" for P by auto
  show ?thesis
    by (simp add: radix_inv_def tree_wf_def locks_ok_def sizes_ok_def ranked_size_def children_ok_def node_ok_def kids_def demo_tree_def
        demo_fresh_def demo_holds_def key_len_def node_path_def node_dp_rank_def get_child_key_def plain_key_of_def l k)
qed

lemma demo_tree_kv: "kv_ok ((demo_tree t)\<lparr>is_eagle := b\<rparr>) {0, 1} demo_owned"
  and demo_tree_ok: "sub_ok (kv_allocator (demo_tree t)) r \<longleftrightarrow> r = 0"
proof -
  let ?c = "(demo_tree t)\<lparr>is_eagle := b\<rparr>"
  have d: "root_node ?c = 0" "node_dp_rank (nodes ?c 1) = 0" "node_value (nodes ?c 1) = [3]" "sub_ok (kv_allocator ?c) r \<longleftrightarrow> r = 0"
    "sub_whole (kv_allocator ?c) xs" "sub_slots (kv_allocator ?c) 0 = {1..8}" "sub_avail (kv_allocator ?c) 0 = [1, 2, 6, 7, 8]" for r xs
    by (auto simp: demo_tree_def demo_fresh_def node_dp_rank_def token_inv_def rank_ok_def)
  then show "sub_ok (kv_allocator (demo_tree t)) r \<longleftrightarrow> r = 0" by simp
  have "{n \<in> {0, 1} - {0}. node_dp_rank (nodes ?c n) = r} = (if r = 0 then {1} else {})" for r using d(2) by auto
  then have ts: "tree_slots ?c {0, 1} r = (if r = 0 then {#3#} else {#})" for r unfolding tree_slots_def d(1) using d(3) by simp
  show "kv_ok ?c {0, 1} demo_owned"
    unfolding kv_ok_def ts d(4) using d(5,6,7) by (auto simp: demo_owned_def)
qed

lemma demo_world_ok:
  "radix_inv (kw_tree demo_world) {0, 1} (\<lambda>n. if n = 1 then [(Tok_Id 7, 3)] else []) demo_holds"
  "plain_tree (kw_tree demo_world)" "kv_ok (kw_tree demo_world) {0, 1} demo_owned"
  "req_holds demo_world {0, 1} (\<lambda>n. if n = 1 then [(Tok_Id 7, 3)] else []) demo_holds demo_held 0 1"
  "0 = req_rank demo_held" "sub_ok (kv_allocator (kw_tree demo_world)) 0" "own_slots demo_world demo_held = [4, 5]"
  "mset (own_slots demo_world demo_held) \<subseteq># demo_owned 0"
proof -
  have e: "(demo_tree t)\<lparr>is_eagle := False\<rparr> = demo_tree t" for t by (simp add: demo_tree_def demo_fresh_def)
  show "radix_inv (kw_tree demo_world) {0, 1} (\<lambda>n. if n = 1 then [(Tok_Id 7, 3)] else []) demo_holds"
    using demo_tree_inv [where t = "Tok_Id 7" and b = False] by (simp add: demo_world_def e)
  show "kv_ok (kw_tree demo_world) {0, 1} demo_owned"
    using demo_tree_kv [where t = "Tok_Id 7" and b = False] by (simp add: demo_world_def e)
  show "plain_tree (kw_tree demo_world)" by (simp add: plain_tree_def demo_world_def demo_tree_def demo_fresh_def)
  show "req_holds demo_world {0, 1} (\<lambda>n. if n = 1 then [(Tok_Id 7, 3)] else []) demo_holds demo_held 0 1"
    by (simp add: req_holds_def req_row_def demo_world_def demo_pool_def demo_held_def demo_holds_def key_seq_def demo_tree_def demo_fresh_def
        key_ns_def)
  show "0 = req_rank demo_held" by (simp add: demo_held_def req_rank_def)
  show "sub_ok (kv_allocator (kw_tree demo_world)) 0" by (simp add: demo_world_def demo_tree_ok)
  show o: "own_slots demo_world demo_held = [4, 5]" by (simp add: own_slots_def req_row_def demo_world_def demo_pool_def demo_held_def)
  show "mset (own_slots demo_world demo_held) \<subseteq># demo_owned 0" unfolding o by (simp add: demo_owned_def)
qed

lemma demo_eagle_ok:
  "radix_inv (kw_tree demo_eagle_world) {0, 1} (\<lambda>n. if n = 1 then [(Bigram (Tok_Id 7) (Tok_Id 9), 3)] else []) demo_holds"
  "kv_ok (kw_tree demo_eagle_world) {0, 1} demo_owned"
  "eagle_holds demo_eagle_world {0, 1} (\<lambda>n. if n = 1 then [(Bigram (Tok_Id 7) (Tok_Id 9), 3)] else []) demo_holds demo_held 0 1"
  "sub_ok (kv_allocator (kw_tree demo_eagle_world)) 0" "eagle_slots demo_eagle_world demo_held = [4, 5]" "last_committed demo_eagle_world demo_held = 5"
proof -
  show "radix_inv (kw_tree demo_eagle_world) {0, 1} (\<lambda>n. if n = 1 then [(Bigram (Tok_Id 7) (Tok_Id 9), 3)] else []) demo_holds"
    "kv_ok (kw_tree demo_eagle_world) {0, 1} demo_owned"
    using demo_tree_inv [where t = "Bigram (Tok_Id 7) (Tok_Id 9)" and b = True] demo_tree_kv [where t = "Bigram (Tok_Id 7) (Tok_Id 9)" and b = True]
    by (simp_all add: demo_eagle_world_def)
  have row: "req_row demo_eagle_world demo_held = [3, 4, 5, 0, 0, 0, 0, 0]"
    by (simp add: req_row_def demo_eagle_world_def demo_pool_def demo_held_def)
  have old: "old_prefix_len (kw_tree demo_eagle_world) demo_held = 1" by (simp add: old_prefix_len_def demo_held_def)
  show "eagle_slots demo_eagle_world demo_held = [4, 5]" "last_committed demo_eagle_world demo_held = 5"
    by (simp_all add: eagle_slots_def last_committed_def row old) (simp_all add: demo_held_def)
  have "cache_toks True (key_seq demo_held) = [Bigram (Tok_Id 7) (Tok_Id 9), Bigram (Tok_Id 9) (Tok_Id 11)]"
    by (simp add: cache_toks_def key_seq_def demo_held_def convert_to_bigram_key_def is_pair_def)
  then show "eagle_holds demo_eagle_world {0, 1} (\<lambda>n. if n = 1 then [(Bigram (Tok_Id 7) (Tok_Id 9), 3)] else []) demo_holds demo_held 0 1"
    by (simp add: eagle_holds_def unit_holds_def unit_tree_def row old keyed_len_def)
      (simp add: demo_held_def demo_holds_def key_seq_def demo_eagle_world_def demo_pool_def demo_tree_def demo_fresh_def key_ns_def)
  show "sub_ok (kv_allocator (kw_tree demo_eagle_world)) 0" by (simp add: demo_eagle_world_def demo_tree_ok)
qed

text \<open>C7. Releasing a request conserves the slots. With an enabled prefix cache of page size 1 and without EAGLE (the
  default; C36 shows the slot that EAGLE loses), for a request that holds its last node locked and owns the rest of
  its row, \<open>release_kv_cache\<close>, with or without inserting into the tree, does not raise, provided that slots allocated
  beyond the committed length are allowed, or a speculative algorithm is configured, or there are none (otherwise its
  assertion fails); every slot the request owned is afterwards either free or in the tree, once, and no other slot
  moved; the lock is given back, the request slot is free again, and the invariants of tree and allocator hold.\<close>

theorem release_conserves:
  assumes "radix_inv (kw_tree W) L P H" "plain_tree (kw_tree W)" "kv_ok (kw_tree W) L X"
    and "req_holds W L P H r i n" "d = req_rank r" "sub_ok (kv_allocator (kw_tree W)) d"
    and "mset (own_slots W r) \<subseteq># X d" "allow \<or> spec \<or> rq_committed_len r = rq_allocated_len r"
  shows "\<exists>r1 W1 L1 P1. release_kv_cache r is_insert allow spec W = Inr (r1, W1)
    \<and> radix_inv (kw_tree W1) L1 P1 (H(n := H n - 1)) \<and> kv_ok (kw_tree W1) L1 (X(d := X d - mset (own_slots W r)))
    \<and> (\<forall>q. rank_total (kw_tree W1) L1 q = rank_total (kw_tree W) L q + (if q = d then mset (own_slots W r) else {#}))
    \<and> rq_pool_idx r1 = None \<and> kw_pool W1 = (kw_pool W)\<lparr>rp_free := rp_free (kw_pool W) @ [i]\<rparr>"
  using release_ok [OF assms, of is_insert] by (elim exE conjE) (intro exI conjI; assumption)

theorem release_conserves_witness:
  "\<exists>r1 W1 L1. release_kv_cache demo_held True False False demo_world = Inr (r1, W1) \<and> rq_pool_idx r1 = None \<and> rp_free (kw_pool W1) = [0]
    \<and> rank_total (kw_tree W1) L1 0 = rank_total (kw_tree demo_world) {0, 1} 0 + {#4, 5#}"
proof -
  have over: "False \<or> False \<or> rq_committed_len demo_held = rq_allocated_len demo_held" by (simp add: demo_held_def)
  have fr: "rp_free (kw_pool demo_world) = []" by (simp add: demo_world_def demo_pool_def)
  obtain r1 W1 L1 where w: "release_kv_cache demo_held True False False demo_world = Inr (r1, W1)" "rq_pool_idx r1 = None"
    "kw_pool W1 = (kw_pool demo_world)\<lparr>rp_free := rp_free (kw_pool demo_world) @ [0]\<rparr>"
    "rank_total (kw_tree W1) L1 0 = rank_total (kw_tree demo_world) {0, 1} 0 + (if 0 = (0::nat) then mset (own_slots demo_world demo_held) else {#})"
    using release_conserves [OF demo_world_ok(1-6,8) over, of True] by blast
  have "rank_total (kw_tree W1) L1 0 = rank_total (kw_tree demo_world) {0, 1} 0 + {#4, 5#}" using w(4) unfolding demo_world_ok(7) by simp
  then show ?thesis using w(1-3) fr by auto
qed

text \<open>C8. Caching an unfinished request (a chunk boundary) conserves the slots and leaves the request well placed.
  With an enabled prefix cache of page size 1 and without EAGLE (with larger pages only the whole pages of a chunk
  enter the tree, so that the claim on the whole chunk is about page size 1), \<open>cache_unfinished_req\<close> does not raise;
  the slots of the chunk that the request owned go to the tree, or, where the tree had the tokens already, back to
  the allocator, and the request's row is rewritten to the tree's slots; afterwards the request holds the node of
  the whole chunk locked, its old node released, its prefix is the chunk's slots, and what it still owns is exactly
  what it owned less the chunk.\<close>

theorem cache_unfinished_conserves:
  assumes "radix_inv (kw_tree W) L P H" "plain_tree (kw_tree W)" "kv_ok (kw_tree W) L X"
    and "req_holds W L P H r i n" "d = req_rank r" "sub_ok (kv_allocator (kw_tree W)) d"
    and "mset (own_slots W r) \<subseteq># X d"
    and "N = length (rq_fill_ids r)" "rq_protected_len r \<le> int N" "int N \<le> rq_committed_len r"
    and "gone = drop (nat (rq_protected_len r)) (take N (req_row W r))"
  shows "\<exists>r1 W1 L1 P1 H1 node. cache_unfinished_req r W = Inr (r1, W1)
    \<and> H1 = (H(n := H n - 1))(node := Suc ((H(n := H n - 1)) node)) \<and> radix_inv (kw_tree W1) L1 P1 H1
    \<and> req_holds W1 L1 P1 H1 r1 i node \<and> rq_protected_len r1 = int N \<and> rq_prefix r1 = take N (req_row W1 r1)
    \<and> mset (own_slots W r) = mset gone + mset (own_slots W1 r1) \<and> kv_ok (kw_tree W1) L1 (X(d := X d - mset gone))
    \<and> (\<forall>q. rank_total (kw_tree W1) L1 q = rank_total (kw_tree W) L q + (if q = d then mset gone else {#}))"
  using cache_unfinished_ok [OF assms(1-10)] unfolding assms(11) [symmetric] by (elim exE conjE) (intro exI conjI; (assumption | rule refl))

theorem cache_unfinished_conserves_witness:
  "\<exists>r1 W1. cache_unfinished_req demo_held demo_world = Inr (r1, W1) \<and> rq_protected_len r1 = 2 \<and> mset (own_slots W1 r1) = {#5#}"
proof -
  have h: "2 = length (rq_fill_ids demo_held)" "rq_protected_len demo_held \<le> int 2" "int 2 \<le> rq_committed_len demo_held"
    "[4] = drop (nat (rq_protected_len demo_held)) (take 2 (req_row demo_world demo_held))"
    by (simp_all add: demo_held_def req_row_def demo_world_def demo_pool_def)
  from cache_unfinished_conserves [OF demo_world_ok(1-6,8) h]
  show ?thesis by (elim exE conjE) (auto simp: demo_world_ok(7) add_mset_commute)
qed

text \<open>C9. Allocation with eviction succeeds exactly when it can. With an allocator of page size 1, \<open>alloc_token_slots\<close>
  returns \<open>num_tokens\<close> slots if and only if the free slots of the rank and the evictable tokens of the tree
  together suffice, and raises the out-of-memory error otherwise. On success the slots were free or evicted, so
  that no slot of a request or of a remaining node is handed out, and every node that a request holds is still
  in the tree.\<close>

theorem alloc_token_slots_iff:
  assumes "heap_pick pick" "radix_inv c L P H" "\<not> disable c" "kv_ok c L X" "sub_ok (kv_allocator c) d"
  shows "if int n \<le> int (length (sub_avail (kv_allocator c) d)) + evictable_size d c
    then \<exists>xs c' L'. alloc_token_slots pick n d c = Inr (xs, c') \<and> length xs = n \<and> radix_inv c' L' P H
      \<and> L' \<subseteq> L \<and> (\<forall>m\<in>L. 0 < H m \<longrightarrow> m \<in> L') \<and> kv_ok c' L' (X(d := X d + mset xs))
      \<and> (\<forall>q. rank_total c L q = rank_total c' L' q + (if q = d then mset xs else {#}))
    else alloc_token_slots pick n d c = Inl RuntimeError"
  by (rule alloc_token_slots_ok [OF assms])

theorem alloc_token_slots_iff_witness:
  "\<exists>pick. heap_pick pick \<and> (\<exists>xs c'. alloc_token_slots pick 2 0 demo_evictable = Inr (xs, c') \<and> length xs = 2)
    \<and> alloc_token_slots pick 3 0 demo_evictable = Inl RuntimeError"
proof -
  obtain pick where pick: "heap_pick pick" using heap_pick_exists by blast
  let ?X = "\<lambda>_. {#} :: int multiset"
  have d: "\<not> disable demo_evictable" "sub_ok (kv_allocator demo_evictable) 0" "sub_whole (kv_allocator demo_evictable) xs"
    "sub_avail (kv_allocator demo_evictable) 0 = []" "evictable_size 0 demo_evictable = 2" "root_node demo_evictable = 0"
    "sub_ok (kv_allocator demo_evictable) r \<longleftrightarrow> r = 0" "node_dp_rank (nodes demo_evictable 1) = 0" for xs r
    by (auto simp: demo_evictable_def demo_fresh_def demo_key_def node_dp_rank_def token_inv_def rank_ok_def evictable_size_def)
  have "tree_slots demo_evictable {0, 1} r = {#}" if "r \<noteq> 0" for r
  proof -
    have "{n \<in> {0, 1} - {0}. node_dp_rank (nodes demo_evictable n) = r} = {}" using d(8) that by auto
    then show ?thesis unfolding tree_slots_def d(6) by (simp only: sum.empty)
  qed
  then have kv: "kv_ok demo_evictable {0, 1} ?X"
    using demo_evictable_ok(2) d(3,7) unfolding kv_ok_def slots_ok_def by auto
  note t = alloc_token_slots_iff [OF pick demo_evictable_ok(1) d(1) kv d(2)]
  show ?thesis using t [of 2] t [of 3] pick by (intro exI [of _ pick]) (auto simp: d(4,5))
qed

text \<open>C36. The slot that EAGLE loses. With EAGLE and page size 1, releasing a request, with or without insertion into the
  tree and with or without slots allocated beyond the committed length, does not raise and gives back its request slot
  and its lock, but of the slots it owned all except the last committed one: those are afterwards free or in the tree,
  once, while the last committed slot, which was the request's own, is neither free nor in the tree, so that nothing can
  give it out or evict it again. (As in C7, slots beyond the committed length need \<open>allow_overallocated\<close> or a speculative
  algorithm; otherwise the release asserts.)\<close>

theorem eagle_release_leaks:
  assumes "radix_inv (kw_tree W) L P H" "kv_ok (kw_tree W) L X" "eagle_holds W L P H r i n"
    and "d = req_rank r" "sub_ok (kv_allocator (kw_tree W)) d" "mset (eagle_slots W r) \<subseteq># X d"
    and "allow \<or> spec \<or> rq_committed_len r = rq_allocated_len r"
  shows "\<exists>r1 W1 L1 P1. release_kv_cache r is_insert allow spec W = Inr (r1, W1) \<and> rq_pool_idx r1 = None
    \<and> kw_pool W1 = (kw_pool W)\<lparr>rp_free := rp_free (kw_pool W) @ [i]\<rparr>
    \<and> radix_inv (kw_tree W1) L1 P1 (H(n := H n - 1))
    \<and> kv_ok (kw_tree W1) L1 (X(d := X d - (mset (eagle_slots W r) - {#last_committed W r#})))
    \<and> (\<forall>q. rank_total (kw_tree W1) L1 q = rank_total (kw_tree W) L q
         + (if q = d then mset (eagle_slots W r) - {#last_committed W r#} else {#}))
    \<and> last_committed W r \<in># mset (eagle_slots W r) \<and> last_committed W r \<notin># rank_total (kw_tree W1) L1 d"
  by (rule eagle_release_ok [OF assms])

theorem eagle_release_leaks_witness:
  "\<exists>r1 W1 L1 r2 W2 L2. release_kv_cache demo_held True False True demo_eagle_world = Inr (r1, W1) \<and> 5 \<notin># rank_total (kw_tree W1) L1 0
     \<and> rank_total (kw_tree W1) L1 0 = rank_total (kw_tree demo_eagle_world) {0, 1} 0 + {#4#}
     \<and> release_kv_cache demo_held False False True demo_eagle_world = Inr (r2, W2) \<and> 5 \<notin># rank_total (kw_tree W2) L2 0"
proof -
  have own: "mset (eagle_slots demo_eagle_world demo_held) \<subseteq># demo_owned 0" unfolding demo_eagle_ok(5) by (simp add: demo_owned_def)
  have over: "False \<or> True \<or> rq_committed_len demo_held = rq_allocated_len demo_held" by simp
  note t = eagle_release_leaks [OF demo_eagle_ok(1-3) demo_world_ok(5) demo_eagle_ok(4) own over, unfolded demo_eagle_ok(5,6)]
  obtain r1 W1 L1 where a: "release_kv_cache demo_held True False True demo_eagle_world = Inr (r1, W1)" "5 \<notin># rank_total (kw_tree W1) L1 0"
    "\<forall>q. rank_total (kw_tree W1) L1 q = rank_total (kw_tree demo_eagle_world) {0, 1} q + (if q = 0 then mset [4, 5] - {#5#} else {#})"
    using t [of True] by (elim exE conjE) (rule that; assumption)
  obtain r2 W2 L2 where b: "release_kv_cache demo_held False False True demo_eagle_world = Inr (r2, W2)" "5 \<notin># rank_total (kw_tree W2) L2 0"
    using t [of False] by (elim exE conjE) (rule that; assumption)
  have "rank_total (kw_tree W1) L1 0 = rank_total (kw_tree demo_eagle_world) {0, 1} 0 + {#4#}" using a(3) by simp
  with a(1,2) b show ?thesis by blast
qed

end
