(* ===== verification/V4_Allocator.thy ===== *)
theory V4_Allocator
  imports Sgl_Prelude
begin

text \<open>
  \<open>mem_cache/deepseek_v4/allocator.py\<close>: the allocator for DeepSeek V4, with pages of history and independent pages of
  the sliding window. An extension is planned over symbolic pages first, so that estimating and allocating
  agree, and committed only when both pools suffice; a release is checked as a whole before anything changes.
  The lists that the code keeps per rank are one record here. The arguments are one-dimensional integer arrays, as the
  callers pass them.
\<close>

section \<open>State\<close>

record v4_rank =
  v4_free :: "nat list"
  v4_swa_free :: "nat list"
  v4_map :: "nat list"
  v4_ends :: "nat list"
  v4_swa_page :: "nat list"
  v4_live :: "nat list"
  v4_group :: "int list list"

record v4_allocator =
  v4_size :: nat
  v4_page_size :: nat
  v4_dp_size :: nat
  v4_size_swa :: nat
  v4_ranks :: "v4_rank list"
  v4_outside :: bool

definition v4_size_per_rank :: "v4_allocator \<Rightarrow> nat" where
  "v4_size_per_rank a = v4_size a div v4_dp_size a"

definition v4_pages_per_rank :: "v4_allocator \<Rightarrow> nat" where
  "v4_pages_per_rank a = v4_size_per_rank a div v4_page_size a"

definition v4_swa_pages_per_rank :: "v4_allocator \<Rightarrow> nat" where
  "v4_swa_pages_per_rank a = v4_size_swa a div v4_dp_size a div v4_page_size a"

definition v4_clear_rank :: "v4_allocator \<Rightarrow> v4_rank \<Rightarrow> v4_rank" where
  "v4_clear_rank a R = R\<lparr>v4_free := [1..<Suc (v4_pages_per_rank a)], v4_swa_free := [1..<Suc (v4_swa_pages_per_rank a)],
     v4_map := replicate (length (v4_map R)) 0, v4_ends := replicate (length (v4_ends R)) 0,
     v4_swa_page := replicate (length (v4_swa_page R)) 0, v4_live := replicate (length (v4_live R)) 0, v4_group := []\<rparr>"

definition v4_check_rank :: "int \<Rightarrow> v4_allocator \<Rightarrow> unit result" where
  "v4_check_rank d a = raise_unless ValueError (0 \<le> d \<and> d < int (v4_dp_size a))"

definition v4_rank_at :: "int \<Rightarrow> v4_allocator \<Rightarrow> v4_rank result" where
  "v4_rank_at d a = rbind (v4_check_rank d a) (\<lambda>_. np_get (v4_ranks a) d)"

definition v4_set_rank :: "int \<Rightarrow> v4_rank \<Rightarrow> v4_allocator \<Rightarrow> v4_allocator" where
  "v4_set_rank d R a = a\<lparr>v4_ranks := (v4_ranks a)[nat d := R]\<rparr>"

definition v4_clear :: "int option \<Rightarrow> v4_allocator \<Rightarrow> v4_allocator result" where
  "v4_clear d a = (case d of
     None \<Rightarrow> Inr (a\<lparr>v4_ranks := map (v4_clear_rank a) (v4_ranks a), v4_outside := True\<rparr>)
   | Some r \<Rightarrow> rbind (v4_rank_at r a) (\<lambda>R. Inr ((v4_set_rank r (v4_clear_rank a R) a)\<lparr>v4_outside := True\<rparr>)))"

definition v4_init :: "nat \<Rightarrow> nat \<Rightarrow> nat \<Rightarrow> nat \<Rightarrow> v4_allocator result" where
  "v4_init n_full n_swa p dp =
     (if dp = 0 \<or> p = 0 then Inl ZeroDivisionError
      else let a = \<lparr>v4_size = n_full, v4_page_size = p, v4_dp_size = dp, v4_size_swa = n_swa, v4_ranks = [], v4_outside = True\<rparr>;
               n = v4_pages_per_rank a + 1 in
        v4_clear None (a\<lparr>v4_ranks := replicate dp
          \<lparr>v4_free = [], v4_swa_free = [], v4_map = replicate (v4_size_per_rank a + p) 0, v4_ends = replicate n 0,
           v4_swa_page = replicate n 0, v4_live = replicate n 0, v4_group = []\<rparr>\<rparr>))"

definition v4_full_available :: "int \<Rightarrow> v4_allocator \<Rightarrow> nat result" where
  "v4_full_available d a = rbind (v4_rank_at d a) (\<lambda>R. Inr (length (v4_free R) * v4_page_size a))"

definition v4_swa_available :: "int \<Rightarrow> v4_allocator \<Rightarrow> nat result" where
  "v4_swa_available d a = rbind (v4_rank_at d a) (\<lambda>R. Inr (length (v4_swa_free R) * v4_page_size a))"

definition v4_available :: "int \<Rightarrow> v4_allocator \<Rightarrow> nat result" where
  "v4_available d a = rbind (v4_full_available d a) (\<lambda>x. rbind (v4_swa_available d a) (\<lambda>y. Inr (min x y)))"

section \<open>The plan of an extension\<close>

text \<open>A segment is a page (negative for a page to be allocated), an offset in it and a number of tokens.\<close>

type_synonym v4_segment = "int \<times> nat \<times> nat"

record v4_demand =
  history_pages :: nat
  swa_pages :: nat
  demand_page_size :: nat

definition history_tokens :: "v4_demand \<Rightarrow> nat" where
  "history_tokens d = history_pages d * demand_page_size d"

definition swa_tokens :: "v4_demand \<Rightarrow> nat" where
  "swa_tokens d = swa_pages d * demand_page_size d"

text \<open>The loop over new pages. The page size is positive, as the constructor divides by it.\<close>

function plan_new :: "nat \<Rightarrow> nat \<Rightarrow> nat \<Rightarrow> v4_segment list \<times> nat" where
  "plan_new p cnt new_count =
     (if cnt = 0 \<or> p = 0 then ([], new_count)
      else let tk = min cnt p; (segs, n) = plan_new p (cnt - tk) (Suc new_count) in
        ((- int (Suc new_count), 0, tk) # segs, n))"
  by pat_completeness auto
termination
  by (relation "measure (\<lambda>(p, cnt, n). cnt)") auto

declare plan_new.simps [simp del]

text \<open>One request of the batch; the state of the loop is the segments, the number of new pages and the tails seen.\<close>

definition plan_seq :: "nat \<Rightarrow> nat \<Rightarrow> v4_rank \<Rightarrow> int \<times> int \<times> int \<Rightarrow> v4_segment list \<times> nat \<times> int set
    \<Rightarrow> (v4_segment list \<times> nat \<times> int set) result" where
  "plan_seq p n_pages R seq st = (case seq of (pre, end_len, tail) \<Rightarrow> case st of (segs, new_count, seen) \<Rightarrow>
     let cnt = nat (end_len - pre) in
     if cnt = 0 then Inr st
     else if pre \<noteq> 0 then
       let page = tail div int p; offset = tail mod int p in
       if page \<le> 0 \<or> int n_pages < page \<or> offset \<noteq> (pre - 1) mod int p \<or> int (v4_ends R ! nat page) \<noteq> offset + 1 \<or> page \<in> seen
       then Inl ValueError
       else let used = nat (pre mod int p); tk = (if used \<noteq> 0 then min cnt (p - used) else 0);
                first = (if used \<noteq> 0 then [(page, used, tk)] else []);
                (more, n) = plan_new p (cnt - tk) new_count in
         Inr (segs @ first @ more, n, insert page seen)
     else if tail \<noteq> -1 \<and> tail \<noteq> 0 then Inl ValueError
     else let (more, n) = plan_new p cnt new_count in Inr (segs @ more, n, seen))"

definition needs_swa :: "v4_rank \<Rightarrow> v4_segment \<Rightarrow> bool" where
  "needs_swa R seg \<longleftrightarrow> fst seg < 0 \<or> v4_swa_page R ! nat (fst seg) = 0"

definition v4_plan :: "int list \<Rightarrow> int list \<Rightarrow> int list \<Rightarrow> int \<Rightarrow> nat \<Rightarrow> nat \<Rightarrow> v4_rank \<Rightarrow> (v4_demand \<times> v4_segment list) result" where
  "v4_plan prefix_lens seq_lens last_loc num_tokens p n_pages R =
     (if length prefix_lens \<noteq> length seq_lens \<or> length seq_lens \<noteq> length last_loc \<or> (\<exists>x\<in>set prefix_lens. x < 0)
        \<or> list_ex (\<lambda>(s, x). s < x) (zip seq_lens prefix_lens) then Inl ValueError
      else if sum_list (map2 (-) seq_lens prefix_lens) \<noteq> num_tokens then Inl ValueError
      else rbind (for_m (plan_seq p n_pages R) (zip prefix_lens (zip seq_lens last_loc)) ([], 0, {})) (\<lambda>(segs, n, seen).
        Inr (\<lparr>history_pages = n, swa_pages = length (filter (needs_swa R) segs), demand_page_size = p\<rparr>, segs)))"

definition estimate_extend :: "int list \<Rightarrow> int list \<Rightarrow> int list \<Rightarrow> int \<Rightarrow> int \<Rightarrow> v4_allocator \<Rightarrow> v4_demand result" where
  "estimate_extend pre seq tails n d a = rbind (v4_rank_at d a) (\<lambda>R.
     rbind (v4_plan pre seq tails n (v4_page_size a) (v4_pages_per_rank a) R) (\<lambda>(dem, _). Inr dem))"

definition estimate_decode :: "int list \<Rightarrow> int list \<Rightarrow> int \<Rightarrow> v4_allocator \<Rightarrow> v4_demand result" where
  "estimate_decode seq tails d a = estimate_extend (map (\<lambda>x. x - 1) seq) seq tails (int (length seq)) d a"

definition can_allocate :: "v4_demand \<Rightarrow> int \<Rightarrow> v4_allocator \<Rightarrow> bool result" where
  "can_allocate dem d a = rbind (v4_full_available d a) (\<lambda>x.
     if \<not> history_tokens dem \<le> x then Inr False
     else rbind (v4_swa_available d a) (\<lambda>y. Inr (swa_tokens dem \<le> y)))"

section \<open>Allocation\<close>

text \<open>A write: page, window page, end of the page, slots, window slots.\<close>

type_synonym v4_write = "nat \<times> nat \<times> nat \<times> nat list \<times> nat list"

fun resolve_segments :: "nat \<Rightarrow> v4_rank \<Rightarrow> nat list \<Rightarrow> v4_segment list \<Rightarrow> nat list \<Rightarrow> v4_write list result" where
  "resolve_segments p R pages [] swa = Inr []"
| "resolve_segments p R pages ((page0, offset, cnt) # segs) swa =
     rbind (if page0 < 0 then np_get pages (- page0 - 1) else Inr (nat page0)) (\<lambda>page.
     rbind (np_get (v4_swa_page R) (int page)) (\<lambda>w0.
     rbind (if w0 \<noteq> 0 then Inr (w0, swa) else (case swa of [] \<Rightarrow> Inl StopIteration | w # ws \<Rightarrow> Inr (w, ws))) (\<lambda>(w, rest).
     rbind (resolve_segments p R pages segs rest) (\<lambda>writes.
       Inr ((page, w, offset + cnt, [page * p + offset..<page * p + offset + cnt], [w * p + offset..<w * p + offset + cnt]) # writes)))))"

fun write_map :: "nat list \<Rightarrow> nat list \<Rightarrow> nat list \<Rightarrow> nat list" where
  "write_map m (l # ls) (v # vs) = write_map (m[l := v]) ls vs"
| "write_map m _ _ = m"

definition commit_write :: "v4_write \<Rightarrow> v4_rank \<Rightarrow> v4_rank" where
  "commit_write wr R = (case wr of (page, w, end_p, loc, swa_loc) \<Rightarrow>
     R\<lparr>v4_live := (v4_live R)[page := (if v4_swa_page R ! page = 0 then length loc else v4_live R ! page + length loc)],
       v4_ends := (v4_ends R)[page := end_p], v4_swa_page := (v4_swa_page R)[page := w],
       v4_map := write_map (v4_map R) loc swa_loc\<rparr>)"

definition v4_alloc_extend :: "int list \<Rightarrow> int list \<Rightarrow> int list \<Rightarrow> int \<Rightarrow> int \<Rightarrow> v4_allocator \<Rightarrow> (nat list option \<times> v4_allocator) result" where
  "v4_alloc_extend pre seq tails n d a = rbind (v4_rank_at d a) (\<lambda>R.
     rbind (v4_plan pre seq tails n (v4_page_size a) (v4_pages_per_rank a) R) (\<lambda>(dem, segs).
     rbind (can_allocate dem d a) (\<lambda>fits.
     if \<not> fits then Inr (None, a)
     else rbind (resolve_segments (v4_page_size a) R (take (history_pages dem) (v4_free R)) segs (take (swa_pages dem) (v4_swa_free R))) (\<lambda>writes.
       let R1 = R\<lparr>v4_free := drop (history_pages dem) (v4_free R), v4_swa_free := drop (swa_pages dem) (v4_swa_free R)\<rparr> in
       Inr (Some (concat (map (\<lambda>(_, _, _, loc, _). loc) writes)), v4_set_rank d (fold commit_write writes R1) a)))))"

definition v4_alloc_decode :: "int list \<Rightarrow> int list \<Rightarrow> int \<Rightarrow> v4_allocator \<Rightarrow> (nat list option \<times> v4_allocator) result" where
  "v4_alloc_decode seq tails d a = v4_alloc_extend (map (\<lambda>x. x - 1) seq) seq tails (int (length seq)) d a"

definition v4_alloc :: "int \<Rightarrow> int \<Rightarrow> v4_allocator \<Rightarrow> (nat list option \<times> v4_allocator) result" where
  "v4_alloc need d a = (if need < 0 \<or> need mod int (v4_page_size a) \<noteq> 0 then Inl ValueError
     else v4_alloc_extend [0] [need] [-1] need d a)"

section \<open>Release\<close>

text \<open>\<open>np.unique(indices)\<close>, the pages it touches, and the check of one page.\<close>

definition touched_pages :: "nat \<Rightarrow> int list \<Rightarrow> nat list" where
  "touched_pages p idx = remdups (map (\<lambda>i. nat i div p) (sort (remdups idx)))"

definition covered :: "nat \<Rightarrow> bool \<Rightarrow> v4_rank \<Rightarrow> nat list \<Rightarrow> nat \<Rightarrow> unit result" where
  "covered p swa_only R idx page =
     (let requested = filter (\<lambda>i. i div p = page) idx in
      if swa_only
      then rbind (np_get (v4_live R) (int page)) (\<lambda>expected.
             raise_unless ValueError (length (filter (\<lambda>i. v4_map R ! i \<noteq> 0) requested) = expected))
      else rbind (np_get (v4_ends R) (int page)) (\<lambda>expected.
             raise_unless ValueError (length (filter (\<lambda>i. i < page * p + expected) requested) = expected)))"

definition v4_release_pages :: "int list \<Rightarrow> bool \<Rightarrow> nat \<Rightarrow> v4_rank \<Rightarrow> nat list result" where
  "v4_release_pages idx swa_only p R =
     (if list_ex (\<lambda>i. i < int p \<or> int (length (v4_map R)) \<le> i) idx then Inl ValueError
      else let unique = map nat (sort (remdups idx)); pages = touched_pages p idx in
        rbind (map_m (covered p swa_only R unique) pages) (\<lambda>_. Inr pages))"

definition free_swa_pages :: "nat \<Rightarrow> nat list \<Rightarrow> v4_rank \<Rightarrow> v4_rank" where
  "free_swa_pages p pages R =
     (let mapped = filter (\<lambda>g. v4_swa_page R ! g \<noteq> 0) pages in
      R\<lparr>v4_swa_free := (if mapped = [] then v4_swa_free R else sort (v4_swa_free R @ map (\<lambda>g. v4_swa_page R ! g) mapped)),
        v4_map := fold (\<lambda>g m. write_map m [g * p..<(g + 1) * p] (replicate p 0)) mapped (v4_map R),
        v4_swa_page := fold (\<lambda>g s. s[g := 0]) pages (v4_swa_page R),
        v4_live := fold (\<lambda>g s. s[g := 0]) pages (v4_live R)\<rparr>)"

definition free_full_pages :: "nat \<Rightarrow> nat list \<Rightarrow> v4_rank \<Rightarrow> v4_rank" where
  "free_full_pages p pages R =
     (let live = filter (\<lambda>g. v4_ends R ! g \<noteq> 0) pages in
      if live = [] then R
      else let R1 = free_swa_pages p live R in
        R1\<lparr>v4_ends := fold (\<lambda>g s. s[g := 0]) live (v4_ends R1), v4_free := sort (v4_free R1 @ live)\<rparr>)"

definition v4_free_swa :: "int list \<Rightarrow> int \<Rightarrow> v4_allocator \<Rightarrow> v4_allocator result" where
  "v4_free_swa idx d a = rbind (v4_rank_at d a) (\<lambda>R.
     rbind (v4_release_pages idx True (v4_page_size a) R) (\<lambda>pages. Inr (v4_set_rank d (free_swa_pages (v4_page_size a) pages R) a)))"

definition v4_free_idx :: "int list \<Rightarrow> int \<Rightarrow> v4_allocator \<Rightarrow> v4_allocator result" where
  "v4_free_idx idx d a = rbind (v4_rank_at d a) (\<lambda>R.
     if \<not> v4_outside a then Inr (v4_set_rank d (R\<lparr>v4_group := v4_group R @ [idx]\<rparr>) a)
     else rbind (v4_release_pages idx False (v4_page_size a) R) (\<lambda>pages. Inr (v4_set_rank d (free_full_pages (v4_page_size a) pages R) a)))"

definition v4_count_swa_mapped :: "int list \<Rightarrow> int \<Rightarrow> v4_allocator \<Rightarrow> nat result" where
  "v4_count_swa_mapped idx d a = rbind (v4_rank_at d a) (\<lambda>R.
     rbind (np_take (v4_map R) idx) (\<lambda>vs. Inr (length (filter (\<lambda>v. v \<noteq> 0) vs))))"

definition v4_backup_state :: "v4_allocator \<Rightarrow> v4_rank list \<times> bool" where
  "v4_backup_state a = (v4_ranks a, v4_outside a)"

definition v4_restore_state :: "v4_rank list \<times> bool \<Rightarrow> v4_allocator \<Rightarrow> v4_allocator" where
  "v4_restore_state st a = a\<lparr>v4_ranks := fst st, v4_outside := snd st\<rparr>"

definition v4_free_group_begin :: "v4_allocator \<Rightarrow> v4_allocator result" where
  "v4_free_group_begin a = (if \<not> v4_outside a then Inl ValueError else Inr (a\<lparr>v4_outside := False\<rparr>))"

definition v4_free_group_end :: "v4_allocator \<Rightarrow> v4_allocator result" where
  "v4_free_group_end a =
     rbind (map_m (\<lambda>R. v4_release_pages (concat (v4_group R)) False (v4_page_size a) R) (v4_ranks a)) (\<lambda>pages.
       Inr (a\<lparr>v4_outside := True,
              v4_ranks := map (\<lambda>(ps, R). (free_full_pages (v4_page_size a) ps R)\<lparr>v4_group := []\<rparr>) (zip pages (v4_ranks a))\<rparr>))"

end
