(* ===== verification/V4_Ledger.thy ===== *)
theory V4_Ledger
  imports V4_Allocator
begin

text \<open>
  The ledger of one rank of the DeepSeek V4 allocator: the invariant \<open>v4_inv\<close> over free pages, window pages, mapping and
  counts, what a plan guarantees (\<open>plan_ok\<close>), that committing a plan that fits keeps the invariant (\<open>extend_rank\<close>), and what
  freeing pages and checking a release do to it.
\<close>

section \<open>The ledger of one rank\<close>

text \<open>The slots that hold tokens: the first \<open>ends\<close> of each page.\<close>

definition v4_slots :: "nat \<Rightarrow> nat \<Rightarrow> v4_rank \<Rightarrow> nat set" where
  "v4_slots p N R = {g * p + k |g k. 1 \<le> g \<and> g \<le> N \<and> k < v4_ends R ! g}"

text \<open>\<open>N\<close> history pages and \<open>M\<close> window pages of size \<open>p\<close>; \<open>Fp\<close> and \<open>Sp\<close> are pages that are on no free list and in no use
  (between the commits of an extension). A history page without tokens is free, a window page serves at most one history
  page, a slot maps to the same offset of the window page of its page or to nothing, and \<open>v4_live\<close> counts the mapped slots.\<close>

definition pages_ok :: "nat \<Rightarrow> nat \<Rightarrow> v4_rank \<Rightarrow> bool" where
  "pages_ok p N R \<longleftrightarrow> 0 < p \<and> length (v4_ends R) = Suc N \<and> length (v4_swa_page R) = Suc N \<and> length (v4_live R) = Suc N
     \<and> Suc N * p \<le> length (v4_map R) \<and> (\<forall>g. 1 \<le> g \<and> g \<le> N \<longrightarrow> v4_ends R ! g \<le> p \<and> (v4_swa_page R ! g \<noteq> 0 \<longrightarrow> v4_ends R ! g \<noteq> 0)
        \<and> (\<forall>k<p. v4_map R ! (g * p + k) \<noteq> 0 \<longrightarrow>
              v4_swa_page R ! g \<noteq> 0 \<and> k < v4_ends R ! g \<and> v4_map R ! (g * p + k) = v4_swa_page R ! g * p + k)
        \<and> v4_live R ! g = card {k. k < p \<and> v4_map R ! (g * p + k) \<noteq> 0})"

definition free_ok :: "nat \<Rightarrow> v4_rank \<Rightarrow> nat set \<Rightarrow> bool" where
  "free_ok N R Fp \<longleftrightarrow> distinct (v4_free R) \<and> set (v4_free R) \<inter> Fp = {}
     \<and> set (v4_free R) \<union> Fp = {g. 1 \<le> g \<and> g \<le> N \<and> v4_ends R ! g = 0}"

definition swa_ok :: "nat \<Rightarrow> nat \<Rightarrow> v4_rank \<Rightarrow> nat set \<Rightarrow> bool" where
  "swa_ok N M R Sp \<longleftrightarrow> distinct (v4_swa_free R) \<and> set (v4_swa_free R) \<inter> Sp = {}
     \<and> set (v4_swa_free R) \<union> Sp = {1..M} - {v4_swa_page R ! g |g. 1 \<le> g \<and> g \<le> N}
     \<and> (\<forall>g. 1 \<le> g \<and> g \<le> N \<longrightarrow> v4_swa_page R ! g \<le> M)
     \<and> (\<forall>g h. 1 \<le> g \<and> g \<le> N \<and> 1 \<le> h \<and> h \<le> N \<and> v4_swa_page R ! g = v4_swa_page R ! h \<and> v4_swa_page R ! g \<noteq> 0 \<longrightarrow> g = h)"

definition v4_inv :: "nat \<Rightarrow> nat \<Rightarrow> nat \<Rightarrow> v4_rank \<Rightarrow> nat set \<Rightarrow> nat set \<Rightarrow> bool" where
  "v4_inv p N M R Fp Sp \<longleftrightarrow> pages_ok p N R \<and> free_ok N R Fp \<and> swa_ok N M R Sp"

lemma pages_okD:
  assumes "pages_ok p N R"
  shows "0 < p" "length (v4_ends R) = Suc N" "length (v4_swa_page R) = Suc N" "length (v4_live R) = Suc N" "Suc N * p \<le> length (v4_map R)"
    "1 \<le> g \<Longrightarrow> g \<le> N \<Longrightarrow> v4_ends R ! g \<le> p" "1 \<le> g \<Longrightarrow> g \<le> N \<Longrightarrow> v4_swa_page R ! g \<noteq> 0 \<Longrightarrow> v4_ends R ! g \<noteq> 0"
    "1 \<le> g \<Longrightarrow> g \<le> N \<Longrightarrow> k < p \<Longrightarrow> v4_map R ! (g * p + k) \<noteq> 0 \<Longrightarrow>
       v4_swa_page R ! g \<noteq> 0 \<and> k < v4_ends R ! g \<and> v4_map R ! (g * p + k) = v4_swa_page R ! g * p + k"
    "1 \<le> g \<Longrightarrow> g \<le> N \<Longrightarrow> v4_live R ! g = card {k. k < p \<and> v4_map R ! (g * p + k) \<noteq> 0}"
  using assms by (simp_all add: pages_ok_def)

lemma page_index:
  assumes "h * p + k = g * p + j" "k < p" "j < (p :: nat)"
  shows "h = g" "k = j"
proof -
  have "(h * p + k) div p = h" "(g * p + j) div p = g" using assms(2,3) by simp_all
  then show "h = g" using assms(1) by simp
  then show "k = j" using assms(1) by simp
qed

lemma page_bound: "g \<le> N \<Longrightarrow> k < p \<Longrightarrow> g * p + k < Suc N * (p :: nat)"
  using mult_le_mono1 [of g N p] by (simp add: add.commute add_less_le_mono)

lemma length_write_map [simp]: "length (write_map m ls vs) = length m"
  by (induction m ls vs rule: write_map.induct) auto

lemma write_map_nth:
  assumes "a + c \<le> length m"
  shows "write_map m [a..<a + c] [b..<b + c] ! j = (if a \<le> j \<and> j < a + c then b + (j - a) else m ! j)"
  using assms
proof (induction c arbitrary: a b m)
  case (Suc c)
  have u: "[a..<a + Suc c] = a # [Suc a..<Suc a + c]" "[b..<b + Suc c] = b # [Suc b..<Suc b + c]" by (simp_all add: upt_rec)
  have "write_map (m[a := b]) [Suc a..<Suc a + c] [Suc b..<Suc b + c] ! j =
      (if Suc a \<le> j \<and> j < Suc a + c then Suc b + (j - Suc a) else m[a := b] ! j)"
    using Suc.prems by (intro Suc.IH) simp
  then show ?case unfolding u using Suc.prems by (auto simp: nth_list_update Suc_le_eq)
qed simp

text \<open>One write of an extension.\<close>

lemma commit_pages:
  assumes ok: "pages_ok p N R" and g: "1 \<le> g" "g \<le> N" and c: "0 < c" "v4_ends R ! g + c \<le> p" and w: "v4_swa_page R ! g \<noteq> 0 \<longrightarrow> w = v4_swa_page R ! g" "w \<noteq> 0"
  defines "off \<equiv> v4_ends R ! g"
  defines "R' \<equiv> commit_write (g, w, off + c, [g * p + off..<g * p + off + c], [w * p + off..<w * p + off + c]) R"
  shows "pages_ok p N R'" "v4_slots p N R' = v4_slots p N R \<union> {g * p + off..<g * p + off + c}"
    "v4_slots p N R \<inter> {g * p + off..<g * p + off + c} = {}"
    "v4_map R' ! j = (if g * p + off \<le> j \<and> j < g * p + off + c then w * p + off + (j - (g * p + off)) else v4_map R ! j)"
    "v4_ends R' = (v4_ends R)[g := off + c]" "v4_swa_page R' = (v4_swa_page R)[g := w]" "v4_free R' = v4_free R" "v4_swa_free R' = v4_swa_free R"
proof -
  note d = pages_okD [OF ok]
  show e: "v4_ends R' = (v4_ends R)[g := off + c]" and s: "v4_swa_page R' = (v4_swa_page R)[g := w]"
    and "v4_free R' = v4_free R" "v4_swa_free R' = v4_swa_free R" by (simp_all add: R'_def commit_write_def)
  have lv: "v4_live R' = (v4_live R)[g := (if v4_swa_page R ! g = 0 then c else v4_live R ! g + c)]" by (simp add: R'_def commit_write_def)
  have len: "g * p + off + c \<le> length (v4_map R)"
  proof -
    have "g * p + off + c \<le> Suc g * p" using c(2) by (simp add: off_def)
    also have "\<dots> \<le> Suc N * p" using g(2) by (intro mult_le_mono1) simp
    finally show ?thesis using d(5) by simp
  qed
  show m: "v4_map R' ! j = (if g * p + off \<le> j \<and> j < g * p + off + c then w * p + off + (j - (g * p + off)) else v4_map R ! j)" for j
    using write_map_nth [OF len, of "w * p + off" j] by (simp add: R'_def commit_write_def)
  have mk: "v4_map R' ! (h * p + k) = (if h = g \<and> off \<le> k \<and> k < off + c then w * p + k else v4_map R ! (h * p + k))" if "k < p" for h k
  proof (cases "g * p + off \<le> h * p + k \<and> h * p + k < g * p + off + c")
    case True
    then obtain i where i: "h * p + k = g * p + i" "off \<le> i" "i < off + c"
      by (metis add.assoc add_le_cancel_left le_iff_add nat_add_left_cancel_less)
    then have "h = g" "k = i" using page_index [OF i(1) that] c(2) by (auto simp: off_def)
    then show ?thesis using True i m by simp
  next
    case False
    then show ?thesis using m by auto
  qed
  have "pages_ok p N R'"
    unfolding pages_ok_def
  proof (intro conjI allI impI)
    show "length (v4_ends R') = Suc N" "length (v4_swa_page R') = Suc N" "length (v4_live R') = Suc N" "0 < p" using d by (simp_all add: e s lv)
    show "Suc N * p \<le> length (v4_map R')" using d(5) by (simp add: R'_def commit_write_def)
    fix h assume h: "1 \<le> h \<and> h \<le> N"
    show "v4_ends R' ! h \<le> p" using h d(6) c(2) g d(2) by (cases "h = g") (simp_all add: e off_def)
    show "v4_ends R' ! h \<noteq> 0" if "v4_swa_page R' ! h \<noteq> 0" using that h d(7) c(1) g d(2,3) by (cases "h = g") (simp_all add: e s)
    fix k assume k: "k < p" "v4_map R' ! (h * p + k) \<noteq> 0"
    show "v4_swa_page R' ! h \<noteq> 0" "k < v4_ends R' ! h" "v4_map R' ! (h * p + k) = v4_swa_page R' ! h * p + k"
      using d(8) [of h k] h k w g d(2,3) mk [OF k(1), of h] by (cases "h = g"; auto simp: e s off_def split: if_splits)+
  next
    fix h assume h: "1 \<le> h \<and> h \<le> N"
    show "v4_live R' ! h = card {k. k < p \<and> v4_map R' ! (h * p + k) \<noteq> 0}"
    proof (cases "h = g")
      case False
      then have "{k. k < p \<and> v4_map R' ! (h * p + k) \<noteq> 0} = {k. k < p \<and> v4_map R ! (h * p + k) \<noteq> 0}" using mk by auto
      then show ?thesis using False d(9) h by (simp add: lv)
    next
      case True
      let ?old = "{k. k < p \<and> v4_map R ! (g * p + k) \<noteq> 0}"
      have "{k. k < p \<and> v4_map R' ! (g * p + k) \<noteq> 0} = ?old \<union> {off..<off + c}"
      proof -
        have "0 < w * p + k" for k using w(2) d(1) by simp
        then show ?thesis using mk c(2) by (auto simp: off_def)
      qed
      moreover have "?old \<inter> {off..<off + c} = {}" using d(8) g by (force simp: off_def)
      ultimately have "card {k. k < p \<and> v4_map R' ! (g * p + k) \<noteq> 0} = card ?old + c" by (simp add: card_Un_disjoint)
      moreover have "v4_swa_page R ! g = 0 \<Longrightarrow> ?old = {}" using d(8) g by blast
      ultimately show ?thesis using True d(9) [of g] g d(4) by (auto simp: lv)
    qed
  qed
  then show "pages_ok p N R'" .
  have e': "v4_ends R' ! h = (if h = g then off + c else v4_ends R ! h)" if "h \<le> N" for h
    using that g(2) d(2) by (simp add: e nth_list_update)
  have sl: "x \<in> v4_slots p N R' \<longleftrightarrow> x \<in> v4_slots p N R \<or> x \<in> {g * p + off..<g * p + off + c}" for x
  proof
    assume "x \<in> v4_slots p N R'"
    then obtain h k where hk: "x = h * p + k" "1 \<le> h" "h \<le> N" "k < v4_ends R' ! h" by (auto simp: v4_slots_def)
    show "x \<in> v4_slots p N R \<or> x \<in> {g * p + off..<g * p + off + c}"
    proof (cases "h = g \<and> off \<le> k")
      case False
      then have "k < v4_ends R ! h" using hk(3,4) e' [of h] by (auto simp: off_def split: if_splits)
      then show ?thesis using hk by (auto simp: v4_slots_def)
    qed (use hk e' in auto)
  next
    assume "x \<in> v4_slots p N R \<or> x \<in> {g * p + off..<g * p + off + c}"
    then show "x \<in> v4_slots p N R'"
    proof
      assume "x \<in> v4_slots p N R"
      then obtain h k where "x = h * p + k" "1 \<le> h" "h \<le> N" "k < v4_ends R ! h" by (auto simp: v4_slots_def)
      moreover from this have "k < v4_ends R' ! h" using e' [of h] by (auto simp: off_def)
      ultimately show ?thesis by (auto simp: v4_slots_def)
    next
      assume x: "x \<in> {g * p + off..<g * p + off + c}"
      then have "x = g * p + (x - g * p)" "x - g * p < v4_ends R' ! g" using e' [OF g(2)] by auto
      then show ?thesis using g unfolding v4_slots_def by blast
    qed
  qed
  then show "v4_slots p N R' = v4_slots p N R \<union> {g * p + off..<g * p + off + c}" by blast
  show "v4_slots p N R \<inter> {g * p + off..<g * p + off + c} = {}"
  proof (rule ccontr)
    assume "v4_slots p N R \<inter> {g * p + off..<g * p + off + c} \<noteq> {}"
    then obtain h k where hk: "1 \<le> h" "h \<le> N" "k < v4_ends R ! h" "g * p + off \<le> h * p + k" "h * p + k < g * p + off + c"
      by (auto simp: v4_slots_def)
    then obtain i where i: "h * p + k = g * p + i" "off \<le> i" "i < off + c"
      by (metis add.assoc add_le_cancel_left le_iff_add nat_add_left_cancel_less)
    have "k < p" using hk(3) d(6) [OF hk(1,2)] by simp
    then have "h = g" "k = i" using page_index [OF i(1)] i(3) c(2) by (auto simp: off_def)
    then show False using hk(3) i(2) by (simp add: off_def)
  qed
qed

lemma commit_free:
  assumes "free_ok N R Fp" "1 \<le> g" "g \<le> N" "v4_ends R ! g = 0 \<longrightarrow> g \<in> Fp" "length (v4_ends R) = Suc N"
    "v4_free R' = v4_free R" "v4_ends R' = (v4_ends R)[g := n]" "0 < n"
  shows "free_ok N R' (Fp - {g})"
proof -
  have f: "distinct (v4_free R)" "set (v4_free R) \<inter> Fp = {}" "set (v4_free R) \<union> Fp = {h. 1 \<le> h \<and> h \<le> N \<and> v4_ends R ! h = 0}"
    using assms(1) by (auto simp: free_ok_def)
  have "g \<notin> set (v4_free R)"
  proof
    assume "g \<in> set (v4_free R)"
    with f(3) have "v4_ends R ! g = 0" by blast
    with assms(4) f(2) \<open>g \<in> _\<close> show False by blast
  qed
  moreover have "{h. 1 \<le> h \<and> h \<le> N \<and> v4_ends R' ! h = 0} = {h. 1 \<le> h \<and> h \<le> N \<and> v4_ends R ! h = 0} - {g}"
    using assms(3,5,7,8) by (auto simp: nth_list_update split: if_splits)
  ultimately show ?thesis using f unfolding free_ok_def assms(6) by blast
qed

lemma commit_swa:
  assumes "swa_ok N M R Sp" "1 \<le> g" "g \<le> N" "length (v4_swa_page R) = Suc N"
    and w: "if v4_swa_page R ! g \<noteq> 0 then w = v4_swa_page R ! g else w \<in> Sp"
    and "v4_swa_free R' = v4_swa_free R" "v4_swa_page R' = (v4_swa_page R)[g := w]"
  shows "swa_ok N M R' (if v4_swa_page R ! g \<noteq> 0 then Sp else Sp - {w})"
proof (cases "v4_swa_page R ! g = 0")
  case False
  then have "v4_swa_page R' = v4_swa_page R" using assms(7) w by (metis list_update_id)
  then show ?thesis using assms(1,6) False by (simp add: swa_ok_def)
next
  case True
  let ?V = "{v4_swa_page R ! h |h. 1 \<le> h \<and> h \<le> N}" and ?V' = "{v4_swa_page R' ! h |h. 1 \<le> h \<and> h \<le> N}"
  have f: "distinct (v4_swa_free R)" "set (v4_swa_free R) \<inter> Sp = {}" "set (v4_swa_free R) \<union> Sp = {1..M} - ?V"
    "\<And>h. 1 \<le> h \<Longrightarrow> h \<le> N \<Longrightarrow> v4_swa_page R ! h \<le> M"
    "\<And>h k. 1 \<le> h \<Longrightarrow> h \<le> N \<Longrightarrow> 1 \<le> k \<Longrightarrow> k \<le> N \<Longrightarrow> v4_swa_page R ! h = v4_swa_page R ! k \<Longrightarrow> v4_swa_page R ! h \<noteq> 0 \<Longrightarrow> h = k"
    using assms(1) unfolding swa_ok_def by blast+
  have wS: "w \<in> Sp" "w \<in> {1..M}" "w \<notin> ?V" using w True f(3) by auto
  have s': "v4_swa_page R' ! h = (if h = g then w else v4_swa_page R ! h)" if "h \<le> N" for h
    using that assms(3,4,7) by (simp add: nth_list_update)
  have V: "{1..M} - ?V' = {1..M} - ?V - {w}"
  proof -
    let ?W = "(!) (v4_swa_page R) ` ({1..N} - {g})"
    have g1: "{1..N} = insert g ({1..N} - {g})" using assms(2,3) by auto
    have "?V' = (!) (v4_swa_page R') ` {1..N}" by auto
    also have "\<dots> = insert (v4_swa_page R' ! g) ((!) (v4_swa_page R') ` ({1..N} - {g}))" using g1 by (metis image_insert)
    also have "(!) (v4_swa_page R') ` ({1..N} - {g}) = ?W" by (rule image_cong [OF refl]) (use s' in auto)
    finally have "?V' = insert w ?W" using s' [OF assms(3)] by simp
    moreover have "?V = insert 0 ?W"
    proof -
      have "?V = (!) (v4_swa_page R) ` {1..N}" by auto
      also have "\<dots> = insert (v4_swa_page R ! g) ?W" using g1 by (metis image_insert)
      finally show ?thesis using True by simp
    qed
    ultimately show ?thesis by auto
  qed
  have "g' = h" if "1 \<le> g'" "g' \<le> N" "1 \<le> h" "h \<le> N" "v4_swa_page R' ! g' = v4_swa_page R' ! h" "v4_swa_page R' ! g' \<noteq> 0" for g' h
  proof (cases "g' = g \<or> h = g")
    case True
    then show ?thesis using that s' wS(3) by (auto split: if_splits)
  next
    case False
    then show ?thesis using that s' f(5) [of g' h] by auto
  qed
  moreover have "v4_swa_page R' ! h \<le> M" if "1 \<le> h" "h \<le> N" for h using f(4) [OF that] s' [OF that(2)] wS(2) by auto
  ultimately show ?thesis
    unfolding swa_ok_def assms(6) V using True f(1,2) f(3) [symmetric] wS(1) by (intro conjI) (auto simp only: if_False if_True simp_thms)
qed

text \<open>The segments of a plan, resolved against the pages to be taken.\<close>

definition seg_page :: "nat list \<Rightarrow> v4_segment \<Rightarrow> nat" where
  "seg_page pages seg = (if fst seg < 0 then pages ! nat (- fst seg - 1) else nat (fst seg))"

definition seg_ok :: "nat \<Rightarrow> nat \<Rightarrow> v4_rank \<Rightarrow> nat list \<Rightarrow> v4_segment \<Rightarrow> bool" where
  "seg_ok p N R pages seg \<longleftrightarrow> (case seg of (page, off, c) \<Rightarrow> 0 < c \<and> off + c \<le> p
     \<and> (page < 0 \<longrightarrow> nat (- page - 1) < length pages) \<and> 1 \<le> seg_page pages seg \<and> seg_page pages seg \<le> N
     \<and> off = v4_ends R ! seg_page pages seg)"

lemma needs_swa_seg:
  assumes "pages_ok p N R" "seg_ok p N R pages seg" "fst seg < 0 \<longrightarrow> v4_ends R ! seg_page pages seg = 0"
  shows "needs_swa R seg \<longleftrightarrow> v4_swa_page R ! seg_page pages seg = 0"
proof -
  have "1 \<le> seg_page pages seg" "seg_page pages seg \<le> N" using assms(2) by (cases seg; simp add: seg_ok_def)+
  then have "fst seg < 0 \<Longrightarrow> v4_swa_page R ! seg_page pages seg = 0" using pages_okD(7) [OF assms(1)] assms(3) by blast
  then show ?thesis by (auto simp: needs_swa_def seg_page_def)
qed

text \<open>All writes of a plan.\<close>

lemma commit_all:
  assumes ok: "v4_inv p N M R' (set (map (seg_page pages) segs) \<inter> {g. v4_ends R' ! g = 0}) (set swa)"
    and segs: "\<forall>seg\<in>set segs. seg_ok p N R pages seg \<and> (fst seg < 0 \<longrightarrow> v4_ends R ! seg_page pages seg = 0)"
    and dist: "distinct (map (seg_page pages) segs)" "distinct swa" "length swa = length (filter (needs_swa R) segs)"
    and R0: "pages_ok p N R"
    and same: "\<forall>seg\<in>set segs. v4_ends R' ! seg_page pages seg = v4_ends R ! seg_page pages seg
      \<and> v4_swa_page R' ! seg_page pages seg = v4_swa_page R ! seg_page pages seg"
  shows "\<exists>writes. resolve_segments p R pages segs swa = Inr writes \<and> v4_inv p N M (fold commit_write writes R') {} {}
    \<and> (let out = concat (map (\<lambda>(_, _, _, loc, _). loc) writes); Rf = fold commit_write writes R' in
       distinct out \<and> length out = sum_list (map (\<lambda>(_, _, c). c) segs) \<and> set out \<inter> v4_slots p N R' = {}
       \<and> v4_slots p N Rf = v4_slots p N R' \<union> set out \<and> (\<forall>x\<in>set out. v4_map Rf ! x \<noteq> 0)
       \<and> (\<forall>x. v4_map R' ! x \<noteq> 0 \<longrightarrow> x \<notin> set out \<longrightarrow> v4_map Rf ! x = v4_map R' ! x)
       \<and> v4_free Rf = v4_free R' \<and> v4_swa_free Rf = v4_swa_free R')"
  using ok segs dist same
proof (induction segs arbitrary: R' swa)
  case Nil
  then show ?case by (simp add: v4_inv_def)
next
  case (Cons seg segs)
  obtain page off c where seg: "seg = (page, off, c)" by (cases seg)
  define g where "g = seg_page pages seg"
  have ok: "pages_ok p N R'" "free_ok N R' (set (map (seg_page pages) (seg # segs)) \<inter> {g. v4_ends R' ! g = 0})" "swa_ok N M R' (set swa)"
    using Cons.prems(1) by (simp_all add: v4_inv_def)
  have so: "0 < c" "off + c \<le> p" "page < 0 \<longrightarrow> nat (- page - 1) < length pages" "1 \<le> g" "g \<le> N" "off = v4_ends R ! g"
    using Cons.prems(2) by (auto simp: seg_ok_def seg g_def)
  have sm: "v4_ends R' ! g = off" "v4_swa_page R' ! g = v4_swa_page R ! g" using Cons.prems(6) so(6) by (auto simp: g_def)
  have nw: "needs_swa R seg \<longleftrightarrow> v4_swa_page R ! g = 0"
    using needs_swa_seg [OF R0, of pages seg] Cons.prems(2) by (simp add: g_def)
  define w where "w = (if v4_swa_page R ! g \<noteq> 0 then v4_swa_page R ! g else hd swa)"
  define rest where "rest = (if v4_swa_page R ! g \<noteq> 0 then swa else tl swa)"
  have sw: "v4_swa_page R ! g = 0 \<Longrightarrow> swa = w # rest" using Cons.prems(5) nw by (cases swa) (auto simp: w_def rest_def)
  have w: "if v4_swa_page R' ! g \<noteq> 0 then w = v4_swa_page R' ! g else w \<in> set swa"
    using sm(2) sw by (cases "v4_swa_page R ! g = 0") (metis list.set_intros(1), simp add: w_def)
  have w0: "w \<noteq> 0"
  proof (cases "v4_swa_page R ! g = 0")
    case True
    then have "w \<in> set swa" using sw by (metis list.set_intros(1))
    then have "w \<in> {1..M}" using ok(3) unfolding swa_ok_def by blast
    then show ?thesis by simp
  qed (simp add: w_def)
  let ?wr = "(g, w, off + c, [g * p + off..<g * p + off + c], [w * p + off..<w * p + off + c])"
  define R1 where "R1 = commit_write ?wr R'"
  have cp: "v4_ends R' ! g + c \<le> p" "v4_swa_page R' ! g \<noteq> 0 \<longrightarrow> w = v4_swa_page R' ! g" using so sm w by auto
  note cm = commit_pages [OF ok(1) so(4,5,1) cp w0, unfolded sm(1), folded R1_def]
  have sub: "set (map (seg_page pages) segs) \<inter> {h. v4_ends R1 ! h = 0} = (set (map (seg_page pages) (seg # segs)) \<inter> {h. v4_ends R' ! h = 0}) - {g}"
    using Cons.prems(3) so(1,5) pages_okD(2) [OF ok(1)] unfolding cm(5) by (auto simp: g_def nth_list_update)
  have fp: "free_ok N R1 (set (map (seg_page pages) segs) \<inter> {h. v4_ends R1 ! h = 0})"
    unfolding sub by (rule commit_free [OF ok(2) so(4,5) _ pages_okD(2) [OF ok(1)] cm(7,5)]) (use so(1) in \<open>auto simp: g_def\<close>)
  have "swa_ok N M R1 (if v4_swa_page R' ! g \<noteq> 0 then set swa else set swa - {w})"
    by (rule commit_swa [OF ok(3) so(4,5) pages_okD(3) [OF ok(1)] w cm(8,6)])
  moreover have "(if v4_swa_page R' ! g \<noteq> 0 then set swa else set swa - {w}) = set rest"
  proof (cases "v4_swa_page R ! g = 0")
    case True
    have "set swa = insert w (set rest)" "w \<notin> set rest" using sw [OF True] Cons.prems(4) by (metis list.set(2), metis distinct.simps(2))
    then show ?thesis using True sm(2) by simp
  qed (simp add: sm(2) rest_def)
  ultimately have inv1: "v4_inv p N M R1 (set (map (seg_page pages) segs) \<inter> {h. v4_ends R1 ! h = 0}) (set rest)"
    using cm(1) fp by (simp add: v4_inv_def)
  have d1: "distinct rest" "length rest = length (filter (needs_swa R) segs)"
    using Cons.prems(4,5) nw sw by (auto simp: rest_def distinct_tl)
  have ng: "seg_page pages s \<noteq> g" if "s \<in> set segs" for s using Cons.prems(3) that by (auto simp: g_def intro: rev_image_eqI)
  have same1: "\<forall>s\<in>set segs. v4_ends R1 ! seg_page pages s = v4_ends R ! seg_page pages s \<and> v4_swa_page R1 ! seg_page pages s = v4_swa_page R ! seg_page pages s"
  proof
    fix s assume s: "s \<in> set segs"
    have "g \<noteq> seg_page pages s" using ng [OF s] by simp
    then show "v4_ends R1 ! seg_page pages s = v4_ends R ! seg_page pages s \<and> v4_swa_page R1 ! seg_page pages s = v4_swa_page R ! seg_page pages s"
      using Cons.prems(6) s unfolding cm(5,6) by simp
  qed
  obtain writes where wr: "resolve_segments p R pages segs rest = Inr writes" and IH: "v4_inv p N M (fold commit_write writes R1) {} {}"
    "let out = concat (map (\<lambda>(_, _, _, loc, _). loc) writes); Rf = fold commit_write writes R1 in
       distinct out \<and> length out = sum_list (map (\<lambda>(_, _, c). c) segs) \<and> set out \<inter> v4_slots p N R1 = {}
       \<and> v4_slots p N Rf = v4_slots p N R1 \<union> set out \<and> (\<forall>x\<in>set out. v4_map Rf ! x \<noteq> 0)
       \<and> (\<forall>x. v4_map R1 ! x \<noteq> 0 \<longrightarrow> x \<notin> set out \<longrightarrow> v4_map Rf ! x = v4_map R1 ! x)
       \<and> v4_free Rf = v4_free R1 \<and> v4_swa_free Rf = v4_swa_free R1"
    using Cons.IH [OF inv1 _ _ d1 same1] Cons.prems(2,3) by auto
  define out where "out = concat (map (\<lambda>(_, _, _, loc, _). loc) writes)"
  define Rf where "Rf = fold commit_write writes R1"
  note ih = IH(2) [unfolded Let_def, folded out_def Rf_def]
  have res: "resolve_segments p R pages (seg # segs) swa = Inr (?wr # writes)"
  proof -
    have "(if page < 0 then np_get pages (- page - 1) else Inr (nat page)) = Inr g"
      using so(3) by (auto simp: g_def seg_page_def seg)
    moreover have "np_get (v4_swa_page R) (int g) = Inr (v4_swa_page R ! g)" using so(5) pages_okD(3) [OF R0] by simp
    moreover have "(if v4_swa_page R ! g \<noteq> 0 then Inr (v4_swa_page R ! g, swa) else (case swa of [] \<Rightarrow> Inl StopIteration | w # ws \<Rightarrow> Inr (w, ws))) = Inr (w, rest)"
      using sw by (cases swa) (auto simp: w_def rest_def)
    ultimately show ?thesis using wr by (simp add: seg)
  qed
  let ?loc = "[g * p + off..<g * p + off + c]"
  have nz: "v4_map R1 ! x \<noteq> 0" if "x \<in> set ?loc" for x
  proof -
    have "0 < w * p" using w0 pages_okD(1) [OF ok(1)] by simp
    moreover have "v4_map R1 ! x = w * p + off + (x - (g * p + off))"
      using cm(4) [of x] that by (simp only: set_upt atLeastLessThan_iff if_True simp_thms)
    ultimately show ?thesis by linarith
  qed
  have sl: "v4_slots p N R1 = v4_slots p N R' \<union> set ?loc" "v4_slots p N R' \<inter> set ?loc = {}" using cm(2,3) by simp_all
  have "distinct (?loc @ out)" "length (?loc @ out) = sum_list (map (\<lambda>(_, _, c). c) (seg # segs))" "set (?loc @ out) \<inter> v4_slots p N R' = {}"
    "v4_slots p N Rf = v4_slots p N R' \<union> set (?loc @ out)" "v4_free Rf = v4_free R'" "v4_swa_free Rf = v4_swa_free R'"
    using ih sl cm(7,8) by (auto simp: seg)
  moreover have "\<forall>x\<in>set (?loc @ out). v4_map Rf ! x \<noteq> 0" using ih nz sl(1) by (metis Un_iff set_append)
  moreover have "v4_map Rf ! x = v4_map R' ! x" if "v4_map R' ! x \<noteq> 0" "x \<notin> set (?loc @ out)" for x
    using ih cm(4) [of x] that by auto
  ultimately show ?case
    using res IH(1) by (intro exI [of _ "?wr # writes"]) (simp add: R1_def [symmetric] Rf_def [symmetric] out_def [symmetric] Let_def)
qed

section \<open>The plan\<close>

text \<open>New pages are numbered in order, each segment fits a page.\<close>

lemma plan_new_facts:
  assumes "plan_new p c n = (segs, m)" "0 < p"
  shows "n \<le> m \<and> map fst segs = map (\<lambda>k. - int (Suc k)) [n..<m] \<and> sum_list (map (\<lambda>(_, _, c). c) segs) = c
    \<and> (\<forall>(page, off, c)\<in>set segs. 0 < c \<and> off = 0 \<and> c \<le> p)"
  using assms
proof (induction p c n arbitrary: segs m rule: plan_new.induct)
  case (1 p c n)
  show ?case
  proof (cases "c = 0 \<or> p = 0")
    case True
    then show ?thesis using "1.prems" by (auto simp: plan_new.simps)
  next
    case False
    obtain segs' m' where r: "plan_new p (c - min c p) (Suc n) = (segs', m')" by fastforce
    have e: "segs = (- int (Suc n), 0, min c p) # segs'" "m = m'" using "1.prems" r False by (auto simp: plan_new.simps [of p c n] Let_def)
    have ih: "Suc n \<le> m' \<and> map fst segs' = map (\<lambda>k. - int (Suc k)) [Suc n..<m'] \<and> sum_list (map (\<lambda>(_, _, c). c) segs') = c - min c p
      \<and> (\<forall>(page, off, c)\<in>set segs'. 0 < c \<and> off = 0 \<and> c \<le> p)"
      by (rule "1.IH" [OF False refl r "1.prems"(2)])
    have "[n..<m'] = n # [Suc n..<m']" using ih by (simp add: upt_rec)
    then show ?thesis using ih e False by auto
  qed
qed

text \<open>What the loop over the batch keeps: old pages are live tails, seen and distinct.\<close>

definition plan_ok :: "nat \<Rightarrow> nat \<Rightarrow> v4_rank \<Rightarrow> v4_segment list \<times> nat \<times> int set \<Rightarrow> nat \<Rightarrow> bool" where
  "plan_ok p N R st tot \<longleftrightarrow> (case st of (segs, n, seen) \<Rightarrow> distinct (map fst segs)
     \<and> {x \<in> set (map fst segs). x < 0} = (\<lambda>k. - int (Suc k)) ` {0..<n} \<and> {x \<in> set (map fst segs). 0 \<le> x} \<subseteq> seen
     \<and> sum_list (map (\<lambda>(_, _, c). c) segs) = tot
     \<and> (\<forall>(page, off, c)\<in>set segs. 0 < c \<and> off + c \<le> p \<and> (page < 0 \<longrightarrow> off = 0)
          \<and> (0 \<le> page \<longrightarrow> 1 \<le> nat page \<and> nat page \<le> N \<and> off = v4_ends R ! nat page \<and> 0 < off)))"

lemma plan_ok_new:
  assumes ok: "plan_ok p N R (segs, n, seen) tot" and new: "plan_new p c n = (extra, m)" and p: "0 < p"
  shows "plan_ok p N R (segs @ extra, m, seen) (tot + c)"
proof -
  note f = plan_new_facts [OF new p]
  have neg: "x < 0" if "x \<in> set (map fst extra)" for x using f that by auto
  have d: "distinct (map fst extra)" using f by (auto simp: distinct_map inj_on_def)
  have s: "set (map fst extra) = (\<lambda>k. - int (Suc k)) ` {n..<m}" using f by (metis list.set_map set_upt)
  have old: "distinct (map fst segs)" "{x \<in> set (map fst segs). x < 0} = (\<lambda>k. - int (Suc k)) ` {0..<n}"
    "{x \<in> set (map fst segs). 0 \<le> x} \<subseteq> seen" "sum_list (map (\<lambda>(_, _, c). c) segs) = tot"
    "\<forall>(page, off, c)\<in>set segs. 0 < c \<and> off + c \<le> p \<and> (page < 0 \<longrightarrow> off = 0)
          \<and> (0 \<le> page \<longrightarrow> 1 \<le> nat page \<and> nat page \<le> N \<and> off = v4_ends R ! nat page \<and> 0 < off)"
    using ok by (simp_all add: plan_ok_def)
  have dis: "set (map fst segs) \<inter> set (map fst extra) = {}"
  proof (rule ccontr)
    assume "set (map fst segs) \<inter> set (map fst extra) \<noteq> {}"
    then obtain x where x: "x \<in> set (map fst segs)" "x \<in> set (map fst extra)" by blast
    then have "x \<in> (\<lambda>k. - int (Suc k)) ` {0..<n}" "x \<in> (\<lambda>k. - int (Suc k)) ` {n..<m}" using neg old(2) s by blast+
    then show False by auto
  qed
  have "{x \<in> set (map fst (segs @ extra)). x < 0} = (\<lambda>k. - int (Suc k)) ` {0..<n} \<union> (\<lambda>k. - int (Suc k)) ` {n..<m}"
    using old(2) s neg by auto
  also have "\<dots> = (\<lambda>k. - int (Suc k)) ` {0..<m}" using f by (simp add: image_Un [symmetric] ivl_disj_un)
  finally have n': "{x \<in> set (map fst (segs @ extra)). x < 0} = (\<lambda>k. - int (Suc k)) ` {0..<m}" .
  have pos: "{x \<in> set (map fst (segs @ extra)). 0 \<le> x} \<subseteq> seen"
  proof
    fix x assume "x \<in> {x \<in> set (map fst (segs @ extra)). 0 \<le> x}"
    then have "x \<in> set (map fst segs) \<or> x \<in> set (map fst extra)" "0 \<le> x" by auto
    then show "x \<in> seen" using old(3) neg [of x] by fastforce
  qed
  have all: "\<forall>(page, off, c)\<in>set extra. 0 < c \<and> off + c \<le> p \<and> (page < 0 \<longrightarrow> off = 0)
          \<and> (0 \<le> page \<longrightarrow> 1 \<le> nat page \<and> nat page \<le> N \<and> off = v4_ends R ! nat page \<and> 0 < off)"
  proof clarify
    fix page off c assume x: "(page, off, c) \<in> set extra"
    then have "page \<in> set (map fst extra)" by (metis fst_conv in_set_conv_nth length_map nth_map nth_mem)
    then have "page < 0" by (rule neg)
    then show "0 < c \<and> off + c \<le> p \<and> (page < 0 \<longrightarrow> off = 0)
          \<and> (0 \<le> page \<longrightarrow> 1 \<le> nat page \<and> nat page \<le> N \<and> off = v4_ends R ! nat page \<and> 0 < off)" using f x by auto
  qed
  show ?thesis unfolding plan_ok_def prod.case using old(1,4,5) d dis n' pos all f by auto
qed

lemma mod_pred:
  assumes "0 < p" "(x :: int) mod p \<noteq> 0"
  shows "(x - 1) mod p + 1 = x mod p"
proof -
  have "x - 1 = (x mod p - 1) + p * (x div p)" by (simp add: algebra_simps)
  then have "(x - 1) mod p = (x mod p - 1) mod p" by (metis mod_mult_self2)
  also have "\<dots> = x mod p - 1" using assms pos_mod_bound [of p x] pos_mod_sign [of p x] by (intro mod_pos_pos_trivial) linarith+
  finally show ?thesis by simp
qed

lemma plan_seq_ok:
  assumes ok: "plan_ok p N R st tot" and run: "plan_seq p N R (pre, e, t) st = Inr st'" and b: "0 \<le> pre" "pre \<le> e" "0 < p"
  shows "plan_ok p N R st' (tot + nat (e - pre))"
proof -
  obtain segs n seen where st: "st = (segs, n, seen)" by (cases st)
  let ?c = "nat (e - pre)"
  consider "?c = 0" | "?c \<noteq> 0" "pre = 0" | "?c \<noteq> 0" "pre \<noteq> 0" by blast
  then show ?thesis
  proof cases
    case 1
    then show ?thesis using run ok by (simp add: plan_seq_def st)
  next
    case 2
    obtain extra m where x: "plan_new p ?c n = (extra, m)" by fastforce
    have "st' = (segs @ extra, m, seen)" using run 2 x by (auto simp: plan_seq_def st Let_def split: if_splits)
    then show ?thesis using plan_ok_new [OF ok [unfolded st] x b(3)] by simp
  next
    case 3
    define page where "page = t div int p"
    define used where "used = nat (pre mod int p)"
    define tk where "tk = (if used \<noteq> 0 then min ?c (p - used) else 0)"
    define first where "first = (if used \<noteq> 0 then [(page, used, tk)] else [])"
    obtain extra m where x: "plan_new p (?c - tk) n = (extra, m)" by fastforce
    have g: "\<not> (page \<le> 0 \<or> int N < page \<or> t mod int p \<noteq> (pre - 1) mod int p \<or> int (v4_ends R ! nat page) \<noteq> t mod int p + 1 \<or> page \<in> seen)"
      using run 3 unfolding plan_seq_def st prod.case Let_def page_def [symmetric] by (auto split: if_splits)
    have st': "st' = (segs @ first @ extra, m, insert page seen)"
      using run 3 g unfolding plan_seq_def st prod.case Let_def page_def [symmetric] used_def [symmetric] tk_def [symmetric] first_def [symmetric]
      by (simp add: x)
    have old: "distinct (map fst segs)" "{x \<in> set (map fst segs). x < 0} = (\<lambda>k. - int (Suc k)) ` {0..<n}"
      "{x \<in> set (map fst segs). 0 \<le> x} \<subseteq> seen" "sum_list (map (\<lambda>(_, _, c). c) segs) = tot"
      "\<forall>(page, off, c)\<in>set segs. 0 < c \<and> off + c \<le> p \<and> (page < 0 \<longrightarrow> off = 0)
          \<and> (0 \<le> page \<longrightarrow> 1 \<le> nat page \<and> nat page \<le> N \<and> off = v4_ends R ! nat page \<and> 0 < off)"
      using ok by (simp_all add: plan_ok_def st)
    have "plan_ok p N R (segs @ first, n, insert page seen) (tot + tk)"
    proof (cases "used = 0")
      case True
      then show ?thesis using old by (auto simp: plan_ok_def first_def tk_def)
    next
      case False
      then have "pre mod int p \<noteq> 0" by (auto simp: used_def)
      then have "int used = t mod int p + 1" using mod_pred [of "int p" pre] g b(3) by (simp add: used_def)
      then have ue: "used = v4_ends R ! nat page" using g by simp
      have ul: "used < p" using pos_mod_bound [of "int p" pre] b(3) by (simp add: used_def nat_less_iff)
      have tk: "0 < tk" "used + tk \<le> p" using 3(1) ul False by (auto simp: tk_def)
      have np: "page \<notin> set (map fst segs)" using old(3) g by auto
      have neg: "{x \<in> set (map fst (segs @ first)). x < 0} = {x \<in> set (map fst segs). x < 0}" using g by (auto simp: first_def)
      have "\<forall>(page, off, c)\<in>set (segs @ first). 0 < c \<and> off + c \<le> p \<and> (page < 0 \<longrightarrow> off = 0)
          \<and> (0 \<le> page \<longrightarrow> 1 \<le> nat page \<and> nat page \<le> N \<and> off = v4_ends R ! nat page \<and> 0 < off)"
        using old(5) tk ue g False by (auto simp: first_def)
      moreover have "{x \<in> set (map fst (segs @ first)). 0 \<le> x} \<subseteq> insert page seen" using old(3) by (auto simp: first_def)
      ultimately show ?thesis unfolding plan_ok_def prod.case neg using old(1,2,4) np False by (auto simp: first_def)
    qed
    from plan_ok_new [OF this x b(3)] have "plan_ok p N R ((segs @ first) @ extra, m, insert page seen) (tot + tk + (?c - tk))" .
    moreover have "tk \<le> ?c" by (auto simp: tk_def)
    ultimately show ?thesis by (simp add: st')
  qed
qed

lemma plan_batch_ok:
  assumes "plan_ok p N R st tot" "for_m (plan_seq p N R) qs st = Inr st'" "\<forall>(pre, e, t)\<in>set qs. 0 \<le> pre \<and> pre \<le> e" "0 < p"
  shows "plan_ok p N R st' (tot + sum_list (map (\<lambda>(pre, e, t). nat (e - pre)) qs))"
  using assms
proof (induction qs arbitrary: st tot)
  case (Cons q qs)
  obtain pre e t where q: "q = (pre, e, t)" by (cases q)
  obtain st1 where st1: "plan_seq p N R (pre, e, t) st = Inr st1" "for_m (plan_seq p N R) qs st1 = Inr st'"
    using Cons.prems(2) q by (auto simp: rbind_eq_Inr_iff)
  have "plan_ok p N R st1 (tot + nat (e - pre))" using plan_seq_ok [OF Cons.prems(1) st1(1)] Cons.prems(3,4) q by simp
  from Cons.IH [OF this st1(2) _ Cons.prems(4)] Cons.prems(3) q show ?case by (simp add: add.assoc)
qed simp

lemma int_sum_list_nat: "\<forall>x\<in>set xs. 0 \<le> x \<Longrightarrow> int (sum_list (map nat xs)) = sum_list xs"
  by (induction xs) auto

lemma v4_plan_ok:
  assumes run: "v4_plan pre sq tails n p N R = Inr (dem, segs)" and p: "0 < p"
  shows "\<exists>seen. plan_ok p N R (segs, history_pages dem, seen) (nat n) \<and> swa_pages dem = length (filter (needs_swa R) segs) \<and> demand_page_size dem = p"
proof -
  let ?qs = "zip pre (zip sq tails)"
  have l: "length pre = length sq" "length sq = length tails" "\<not> (\<exists>x\<in>set pre. x < 0)" "\<not> list_ex (\<lambda>(s, x). s < x) (zip sq pre)"
    "sum_list (map2 (-) sq pre) = n"
    using run by (auto simp: v4_plan_def split: if_splits)
  have fm: "\<exists>m seen. for_m (plan_seq p N R) ?qs ([], 0, {}) = Inr (segs, m, seen)
      \<and> dem = \<lparr>history_pages = m, swa_pages = length (filter (needs_swa R) segs), demand_page_size = p\<rparr>"
    using run l by (auto simp: v4_plan_def rbind_eq_Inr_iff)
  then obtain m seen where f: "for_m (plan_seq p N R) ?qs ([], 0, {}) = Inr (segs, m, seen)"
    "dem = \<lparr>history_pages = m, swa_pages = length (filter (needs_swa R) segs), demand_page_size = p\<rparr>" by blast
  have pw: "0 \<le> pre ! i \<and> pre ! i \<le> sq ! i" if "i < length sq" for i
  proof -
    have "(sq ! i, pre ! i) \<in> set (zip sq pre)" using that l(1) by (auto simp: in_set_zip)
    then have "\<not> sq ! i < pre ! i" using l(4) by (auto simp: list_ex_iff)
    moreover have "\<not> pre ! i < 0" using l(1,3) that by (metis nth_mem)
    ultimately show ?thesis by simp
  qed
  have q: "\<forall>(a, e, t)\<in>set ?qs. 0 \<le> a \<and> a \<le> e" using pw l(1,2) by (auto simp: in_set_zip)
  have "map (\<lambda>(a, e, t). nat (e - a)) ?qs = map nat (map2 (-) sq pre)"
    using l(1,2) by (intro nth_equalityI) auto
  moreover have "int (sum_list (map nat (map2 (-) sq pre))) = sum_list (map2 (-) sq pre)"
  proof -
    have "\<forall>x\<in>set (map2 (-) sq pre). 0 \<le> x" using pw l(1) by (auto simp: in_set_zip)
    then show ?thesis by (rule int_sum_list_nat)
  qed
  ultimately have tot: "sum_list (map (\<lambda>(a, e, t). nat (e - a)) ?qs) = nat n" using l(5) by simp
  have "plan_ok p N R ([], 0, {}) 0" by (simp add: plan_ok_def)
  from plan_batch_ok [OF this f(1) q p] show ?thesis using tot f(2) by auto
qed

section \<open>Extension\<close>

lemma plan_segments:
  assumes inv: "v4_inv p N M R {} {}" and pl: "plan_ok p N R (segs, n, seen) tot" and n: "n \<le> length (v4_free R)"
  defines "pages \<equiv> take n (v4_free R)"
  shows "\<forall>seg\<in>set segs. seg_ok p N R pages seg \<and> (fst seg < 0 \<longrightarrow> v4_ends R ! seg_page pages seg = 0)"
    "distinct (map (seg_page pages) segs)"
    "set (map (seg_page pages) segs) \<inter> {g. v4_ends R ! g = 0} = set pages"
proof -
  have f: "distinct (v4_free R)" "set (v4_free R) = {g. 1 \<le> g \<and> g \<le> N \<and> v4_ends R ! g = 0}" using inv by (auto simp: v4_inv_def free_ok_def)
  have lp: "length pages = n" using n by (simp add: pages_def)
  have dp: "distinct pages" "set pages \<subseteq> set (v4_free R)" using f(1) by (auto simp: pages_def dest: in_set_takeD)
  have d: "distinct (map fst segs)" "{x \<in> set (map fst segs). x < 0} = (\<lambda>k. - int (Suc k)) ` {0..<n}"
    "\<forall>(page, off, c)\<in>set segs. 0 < c \<and> off + c \<le> p \<and> (page < 0 \<longrightarrow> off = 0)
          \<and> (0 \<le> page \<longrightarrow> 1 \<le> nat page \<and> nat page \<le> N \<and> off = v4_ends R ! nat page \<and> 0 < off)"
    using pl by (simp_all add: plan_ok_def)
  have neg: "\<exists>k<n. fst seg = - int (Suc k) \<and> seg_page pages seg = pages ! k" if s: "seg \<in> set segs" "fst seg < 0" for seg
  proof -
    have "fst seg \<in> {x \<in> set (map fst segs). x < 0}" using s by auto
    then obtain k where "k < n" "fst seg = - int (Suc k)" unfolding d(2) by auto
    then show ?thesis by (auto simp: seg_page_def)
  qed
  have new0: "pages ! k \<in> set (v4_free R)" if "k < n" for k using that lp dp(2) by (metis nth_mem subsetD)
  have live: "0 < v4_ends R ! seg_page pages seg" if "seg \<in> set segs" "\<not> fst seg < 0" for seg
    using that d(3) by (cases seg) (auto simp: seg_page_def)
  show all: "\<forall>seg\<in>set segs. seg_ok p N R pages seg \<and> (fst seg < 0 \<longrightarrow> v4_ends R ! seg_page pages seg = 0)"
  proof
    fix seg assume s: "seg \<in> set segs"
    obtain page off c where seg: "seg = (page, off, c)" by (cases seg)
    show "seg_ok p N R pages seg \<and> (fst seg < 0 \<longrightarrow> v4_ends R ! seg_page pages seg = 0)"
    proof (cases "page < 0")
      case True
      then obtain k where k: "k < n" "page = - int (Suc k)" "seg_page pages seg = pages ! k" using neg [OF s] seg by auto
      then show ?thesis using new0 [OF k(1)] f(2) d(3) s lp seg by (auto simp: seg_ok_def)
    next
      case False
      then show ?thesis using d(3) s seg by (auto simp: seg_ok_def seg_page_def)
    qed
  qed
  show "distinct (map (seg_page pages) segs)"
    unfolding distinct_map
  proof (rule conjI)
    show "distinct segs" using d(1) by (simp add: distinct_map)
    show "inj_on (seg_page pages) (set segs)"
    proof (rule inj_onI)
      fix s t assume st: "s \<in> set segs" "t \<in> set segs" "seg_page pages s = seg_page pages t"
      have same: "(fst s < 0) = (fst t < 0)" using all live st by (metis less_irrefl)
      have "fst s = fst t"
      proof (cases "fst s < 0")
        case True
        then obtain k l where "k < n" "fst s = - int (Suc k)" "seg_page pages s = pages ! k" "l < n" "fst t = - int (Suc l)" "seg_page pages t = pages ! l"
          using neg st same by metis
        then show ?thesis using st(3) dp(1) lp by (simp add: nth_eq_iff_index_eq)
      next
        case False
        then show ?thesis using st(3) same by (simp add: seg_page_def)
      qed
      then show "s = t" using d(1) st(1,2) unfolding distinct_map by (metis inj_onD)
    qed
  qed
  show "set (map (seg_page pages) segs) \<inter> {g. v4_ends R ! g = 0} = set pages"
  proof (intro equalityI subsetI)
    fix g assume "g \<in> set (map (seg_page pages) segs) \<inter> {g. v4_ends R ! g = 0}"
    then obtain s where s: "s \<in> set segs" "g = seg_page pages s" "v4_ends R ! g = 0" by auto
    then have "fst s < 0" using live by (metis less_irrefl)
    then show "g \<in> set pages" using neg [OF s(1)] s(2) lp by (metis nth_mem)
  next
    fix g assume g: "g \<in> set pages"
    then obtain k where k: "k < n" "g = pages ! k" using lp by (metis in_set_conv_nth)
    then have "- int (Suc k) \<in> {x \<in> set (map fst segs). x < 0}" unfolding d(2) by auto
    then obtain s where "s \<in> set segs" "fst s = - int (Suc k)" by auto
    then have "seg_page pages s = g" "s \<in> set segs" using k(2) by (auto simp: seg_page_def)
    then show "g \<in> set (map (seg_page pages) segs) \<inter> {g. v4_ends R ! g = 0}" using g dp(2) f(2) by auto
  qed
qed

text \<open>The committed extension of one rank.\<close>

lemma extend_rank:
  assumes inv: "v4_inv p N M R {} {}" and pl: "plan_ok p N R (segs, n, seen) tot" and n: "n \<le> length (v4_free R)"
    and m: "m = length (filter (needs_swa R) segs)" "m \<le> length (v4_swa_free R)"
  defines "R1 \<equiv> R\<lparr>v4_free := drop n (v4_free R), v4_swa_free := drop m (v4_swa_free R)\<rparr>"
  shows "\<exists>writes. resolve_segments p R (take n (v4_free R)) segs (take m (v4_swa_free R)) = Inr writes
    \<and> (let out = concat (map (\<lambda>(_, _, _, loc, _). loc) writes); Rf = fold commit_write writes R1 in
       v4_inv p N M Rf {} {} \<and> distinct out \<and> length out = tot \<and> set out \<inter> v4_slots p N R = {}
       \<and> v4_slots p N Rf = v4_slots p N R \<union> set out \<and> (\<forall>x\<in>set out. v4_map Rf ! x \<noteq> 0)
       \<and> (\<forall>x. v4_map R ! x \<noteq> 0 \<longrightarrow> x \<notin> set out \<longrightarrow> v4_map Rf ! x = v4_map R ! x)
       \<and> v4_free Rf = drop n (v4_free R) \<and> v4_swa_free Rf = drop m (v4_swa_free R))"
proof -
  let ?pages = "take n (v4_free R)" and ?swa = "take m (v4_swa_free R)"
  note ps = plan_segments [OF inv pl n]
  have i: "pages_ok p N R" "free_ok N R {}" "swa_ok N M R {}" using inv by (simp_all add: v4_inv_def)
  have eq: "v4_ends R1 = v4_ends R" "v4_swa_page R1 = v4_swa_page R" "v4_map R1 = v4_map R" "v4_live R1 = v4_live R" by (simp_all add: R1_def)
  have p1: "pages_ok p N R1" using i(1) by (simp add: pages_ok_def eq)
  have td: "set (take k xs) \<inter> set (drop k xs) = {}" "set (take k xs) \<union> set (drop k xs) = set xs" if "distinct xs" for k and xs :: "nat list"
    using that by (metis append_take_drop_id distinct_append) (metis append_take_drop_id set_append)
  have fr: "distinct (v4_free R)" "set (v4_free R) = {g. 1 \<le> g \<and> g \<le> N \<and> v4_ends R ! g = 0}" using i(2) by (auto simp: free_ok_def)
  have f1: "free_ok N R1 (set ?pages)"
    unfolding free_ok_def eq using td [OF fr(1), of n] fr by (auto simp: R1_def)
  have sw: "distinct (v4_swa_free R)" using i(3) by (simp add: swa_ok_def)
  have s1: "swa_ok N M R1 (set ?swa)"
    using i(3) td [OF sw, of m] sw unfolding swa_ok_def eq by (simp add: R1_def Int_commute Un_commute)
  have "v4_inv p N M R1 (set (map (seg_page ?pages) segs) \<inter> {g. v4_ends R1 ! g = 0}) (set ?swa)"
    unfolding v4_inv_def eq ps(3) using p1 f1 s1 by simp
  moreover have "length ?swa = length (filter (needs_swa R) segs)" using m by simp
  moreover have "v4_slots p N R1 = v4_slots p N R" by (simp add: v4_slots_def eq)
  ultimately show ?thesis
    using commit_all [of p N M R1 ?pages segs ?swa R] ps(1,2) sw i(1) eq pl
    by (simp add: Let_def plan_ok_def R1_def [symmetric]) (auto simp: R1_def)
qed

section \<open>Release\<close>

lemma fold_zero:
  "length (fold (\<lambda>g s. s[g := 0]) gs xs) = length xs"
  "h < length xs \<Longrightarrow> fold (\<lambda>g s. s[g := (0::nat)]) gs xs ! h = (if h \<in> set gs then 0 else xs ! h)"
  by (induction gs arbitrary: xs) (auto simp: nth_list_update)

lemma write_zero:
  assumes "a + c \<le> length m"
  shows "write_map m [a..<a + c] (replicate c 0) ! j = (if a \<le> j \<and> j < a + c then 0 else m ! j)"
  using assms
proof (induction c arbitrary: a m)
  case (Suc c)
  have u: "[a..<a + Suc c] = a # [Suc a..<Suc a + c]" by (simp add: upt_rec)
  have "write_map (m[a := 0]) [Suc a..<Suc a + c] (replicate c 0) ! j = (if Suc a \<le> j \<and> j < Suc a + c then 0 else m[a := 0] ! j)"
    using Suc.prems by (intro Suc.IH) simp
  then show ?case unfolding u using Suc.prems by (auto simp: nth_list_update Suc_le_eq)
qed simp

lemma fold_zero_pages:
  assumes "\<forall>g\<in>set gs. g \<le> N" "Suc N * p \<le> length m" "0 < p"
  shows "length (fold (\<lambda>g m. write_map m [g * p..<(g + 1) * p] (replicate p 0)) gs m) = length m"
    "k < p \<Longrightarrow> fold (\<lambda>g m. write_map m [g * p..<(g + 1) * p] (replicate p 0)) gs m ! (h * p + k) = (if h \<in> set gs then 0 else m ! (h * p + k))"
proof -
  show l: "length (fold (\<lambda>g m. write_map m [g * p..<(g + 1) * p] (replicate p 0)) gs m) = length m" for m
    by (induction gs arbitrary: m) auto
  assume k: "k < p"
  show "fold (\<lambda>g m. write_map m [g * p..<(g + 1) * p] (replicate p 0)) gs m ! (h * p + k) = (if h \<in> set gs then 0 else m ! (h * p + k))"
    using assms(1,2)
  proof (induction gs arbitrary: m)
    case (Cons g gs)
    let ?m = "write_map m [g * p..<(g + 1) * p] (replicate p 0)"
    have "g * p + p \<le> Suc N * p" using Cons.prems(1) mult_le_mono1 [of "Suc g" "Suc N" p] by simp
    then have "g * p + p \<le> length m" using Cons.prems(2) by linarith
    then have z: "?m ! j = (if g * p \<le> j \<and> j < g * p + p then 0 else m ! j)" for j
      using write_zero [of "g * p" p m j] by (simp add: add.commute)
    have "g * p \<le> h * p + k \<and> h * p + k < g * p + p \<longleftrightarrow> h = g"
    proof
      assume a: "g * p \<le> h * p + k \<and> h * p + k < g * p + p"
      then have "h * p + k = g * p + (h * p + k - g * p)" "h * p + k - g * p < p" by linarith+
      then show "h = g" using page_index(1) [OF _ k] by blast
    qed (use k in simp)
    then have "?m ! (h * p + k) = (if h = g then 0 else m ! (h * p + k))" by (simp only: z)
    moreover have "fold (\<lambda>g m. write_map m [g * p..<(g + 1) * p] (replicate p 0)) gs ?m ! (h * p + k) = (if h \<in> set gs then 0 else ?m ! (h * p + k))"
      using Cons.prems by (intro Cons.IH) auto
    ultimately show ?case by auto
  qed simp
qed

text \<open>Giving back the window pages of some history pages.\<close>

lemma free_swa_pages_ok:
  assumes inv: "v4_inv p N M R Fp {}" and gs: "distinct gs" "\<forall>g\<in>set gs. 1 \<le> g \<and> g \<le> N"
  defines "R' \<equiv> free_swa_pages p gs R"
  shows "v4_inv p N M R' Fp {}" "v4_ends R' = v4_ends R" "v4_free R' = v4_free R"
    "h \<le> N \<Longrightarrow> v4_swa_page R' ! h = (if h \<in> set gs then 0 else v4_swa_page R ! h)"
    "1 \<le> h \<Longrightarrow> h \<le> N \<Longrightarrow> k < p \<Longrightarrow> v4_map R' ! (h * p + k) = (if h \<in> set gs then 0 else v4_map R ! (h * p + k))"
    "length (v4_map R') = length (v4_map R)"
proof -
  have i: "pages_ok p N R" "free_ok N R Fp" "swa_ok N M R {}" using inv by (simp_all add: v4_inv_def)
  note d = pages_okD [OF i(1)]
  let ?mapped = "filter (\<lambda>g. v4_swa_page R ! g \<noteq> 0) gs"
  have mg: "\<forall>g\<in>set ?mapped. g \<le> N" using gs(2) by auto
  show e: "v4_ends R' = v4_ends R" and fr: "v4_free R' = v4_free R" by (simp_all add: R'_def free_swa_pages_def Let_def)
  have len: "length (v4_swa_page R') = Suc N" "length (v4_live R') = Suc N" "length (v4_map R') = length (v4_map R)"
    using d(3,4) fold_zero_pages(1) [OF mg d(5,1)] by (simp_all add: R'_def free_swa_pages_def Let_def fold_zero)
  show "length (v4_map R') = length (v4_map R)" by (rule len(3))
  show sp: "v4_swa_page R' ! h = (if h \<in> set gs then 0 else v4_swa_page R ! h)" if "h \<le> N" for h
    using fold_zero(2) [of h "v4_swa_page R" gs] that d(3) by (simp add: R'_def free_swa_pages_def Let_def)
  have lv: "v4_live R' ! h = (if h \<in> set gs then 0 else v4_live R ! h)" if "h \<le> N" for h
    using fold_zero(2) [of h "v4_live R" gs] that d(4) by (simp add: R'_def free_swa_pages_def Let_def)
  show mp: "v4_map R' ! (h * p + k) = (if h \<in> set gs then 0 else v4_map R ! (h * p + k))" if "1 \<le> h" "h \<le> N" "k < p" for h k
  proof -
    have "v4_map R' ! (h * p + k) = (if h \<in> set ?mapped then 0 else v4_map R ! (h * p + k))"
      using fold_zero_pages(2) [OF mg d(5,1) that(3), of h] by (simp add: R'_def free_swa_pages_def Let_def)
    moreover have "v4_map R ! (h * p + k) = 0" if "v4_swa_page R ! h = 0" using d(8) [of h k] that \<open>1 \<le> h\<close> \<open>h \<le> N\<close> \<open>k < p\<close> by blast
    ultimately show ?thesis by auto
  qed
  have "pages_ok p N R'"
    unfolding pages_ok_def
  proof (intro conjI allI impI)
    show "0 < p" "length (v4_ends R') = Suc N" "length (v4_swa_page R') = Suc N" "length (v4_live R') = Suc N" "Suc N * p \<le> length (v4_map R')"
      using d len e by simp_all
    fix h assume h: "1 \<le> h \<and> h \<le> N"
    show "v4_ends R' ! h \<le> p" using d(6) h by (simp add: e)
    show "v4_ends R' ! h \<noteq> 0" if "v4_swa_page R' ! h \<noteq> 0" using that d(7) [of h] h sp [of h] by (simp add: e split: if_splits)
    show "v4_live R' ! h = card {k. k < p \<and> v4_map R' ! (h * p + k) \<noteq> 0}"
    proof (cases "h \<in> set gs")
      case True
      then have "{k. k < p \<and> v4_map R' ! (h * p + k) \<noteq> 0} = {}" using mp h by auto
      then show ?thesis using True lv h by simp
    next
      case False
      then have "{k. k < p \<and> v4_map R' ! (h * p + k) \<noteq> 0} = {k. k < p \<and> v4_map R ! (h * p + k) \<noteq> 0}" using mp h by auto
      then show ?thesis using False lv h d(9) by simp
    qed
    fix k assume k: "k < p" "v4_map R' ! (h * p + k) \<noteq> 0"
    then have "h \<notin> set gs" "v4_map R ! (h * p + k) \<noteq> 0" using mp [of h k] h by (auto split: if_splits)
    then show "v4_swa_page R' ! h \<noteq> 0" "k < v4_ends R' ! h" "v4_map R' ! (h * p + k) = v4_swa_page R' ! h * p + k"
      using d(8) [of h k] h k(1) mp [of h k] sp [of h] by (simp_all add: e)
  qed
  moreover have "free_ok N R' Fp" using i(2) by (simp add: free_ok_def e fr)
  moreover have "swa_ok N M R' {}"
  proof -
    let ?V = "(!) (v4_swa_page R) ` {1..N}" and ?V' = "(!) (v4_swa_page R') ` {1..N}" and ?G = "map (\<lambda>g. v4_swa_page R ! g) ?mapped"
    have img: "{v4_swa_page Q ! g |g. 1 \<le> g \<and> g \<le> N} = (!) (v4_swa_page Q) ` {1..N}" for Q by auto
    have f: "distinct (v4_swa_free R)" "set (v4_swa_free R) = {1..M} - ?V" "\<And>h. 1 \<le> h \<Longrightarrow> h \<le> N \<Longrightarrow> v4_swa_page R ! h \<le> M"
      "\<And>h k. 1 \<le> h \<Longrightarrow> h \<le> N \<Longrightarrow> 1 \<le> k \<Longrightarrow> k \<le> N \<Longrightarrow> v4_swa_page R ! h = v4_swa_page R ! k \<Longrightarrow> v4_swa_page R ! h \<noteq> 0 \<Longrightarrow> h = k"
      using i(3) unfolding swa_ok_def img Un_empty_right by blast+
    have sf: "mset (v4_swa_free R') = mset (v4_swa_free R @ ?G)"
      by (auto simp: R'_def free_swa_pages_def Let_def filter_empty_conv)
    have dG: "distinct ?G" unfolding distinct_map using gs f(4) by (auto intro!: inj_onI)
    have Gs: "set ?G = {x \<in> (!) (v4_swa_page R) ` set gs. x \<noteq> 0}" by auto
    have sub: "set gs \<subseteq> {1..N}" using gs(2) by auto
    have "distinct (v4_swa_free R @ ?G)" using f(1,2) dG Gs sub by auto
    then have "distinct (v4_swa_free R')" using sf by (metis mset_eq_imp_distinct_iff)
    moreover have "set (v4_swa_free R') = {1..M} - ?V'"
    proof -
      have "set (v4_swa_free R') = set (v4_swa_free R) \<union> set ?G" using mset_eq_setD [OF sf] by simp
      also have "\<dots> = {1..M} - ?V'"
      proof (intro equalityI subsetI)
        fix x assume "x \<in> set (v4_swa_free R) \<union> set ?G"
        then consider "x \<in> {1..M}" "x \<notin> ?V" | g where "g \<in> set gs" "x = v4_swa_page R ! g" "x \<noteq> 0" using f(2) Gs by auto
        then show "x \<in> {1..M} - ?V'"
        proof cases
          case 1
          then show ?thesis using sp by (auto split: if_splits)
        next
          case 2
          then have g: "1 \<le> g" "g \<le> N" using gs(2) by auto
          have "x \<noteq> v4_swa_page R' ! h" if "h \<in> {1..N}" for h
            using that 2 g sp [of h] f(4) [of g h] by (auto split: if_splits)
          then have "x \<notin> ?V'" by blast
          then show ?thesis using f(3) [OF g] 2 by simp
        qed
      next
        fix x assume x: "x \<in> {1..M} - ?V'"
        show "x \<in> set (v4_swa_free R) \<union> set ?G"
        proof (cases "x \<in> ?V")
          case True
          then obtain h where h: "h \<in> {1..N}" "x = v4_swa_page R ! h" by blast
          have "h \<in> set gs"
          proof (rule ccontr)
            assume "h \<notin> set gs"
            then have "x = v4_swa_page R' ! h" using sp [of h] h by simp
            then show False using h(1) x by blast
          qed
          then show ?thesis using h(2) x Gs by auto
        qed (use x f(2) in auto)
      qed
      finally show ?thesis .
    qed
    moreover have "v4_swa_page R' ! h \<le> M" if "1 \<le> h" "h \<le> N" for h using f(3) [OF that] sp [OF that(2)] by auto
    moreover have "g = h" if "1 \<le> g" "g \<le> N" "1 \<le> h" "h \<le> N" "v4_swa_page R' ! g = v4_swa_page R' ! h" "v4_swa_page R' ! g \<noteq> 0" for g h
      using that sp [of g] sp [of h] f(4) [of g h] by (auto split: if_splits)
    ultimately show ?thesis unfolding swa_ok_def img by auto
  qed
  ultimately show "v4_inv p N M R' Fp {}" by (simp add: v4_inv_def)
qed

text \<open>Giving back history pages.\<close>

lemma free_full_pages_ok:
  assumes inv: "v4_inv p N M R {} {}" and gs: "distinct gs" "\<forall>g\<in>set gs. 1 \<le> g \<and> g \<le> N"
  defines "R' \<equiv> free_full_pages p gs R"
  shows "v4_inv p N M R' {} {}" "h \<le> N \<Longrightarrow> v4_ends R' ! h = (if h \<in> set gs then 0 else v4_ends R ! h) \<or> h = 0"
    "1 \<le> h \<Longrightarrow> h \<le> N \<Longrightarrow> k < p \<Longrightarrow> v4_map R' ! (h * p + k) = (if h \<in> set gs then 0 else v4_map R ! (h * p + k))"
proof -
  let ?live = "filter (\<lambda>g. v4_ends R ! g \<noteq> 0) gs"
  have i: "pages_ok p N R" "free_ok N R {}" using inv by (simp_all add: v4_inv_def)
  note d = pages_okD [OF i(1)]
  have lv: "distinct ?live" "\<forall>g\<in>set ?live. 1 \<le> g \<and> g \<le> N" using gs by auto
  have dead: "v4_map R ! (h * p + k) = 0" if "1 \<le> h" "h \<le> N" "k < p" "v4_ends R ! h = 0" for h k
    using d(7) [OF that(1,2)] d(8) [OF that(1-3)] that(4) by blast
  have "v4_inv p N M R' {} {} \<and> (\<forall>h\<le>N. 1 \<le> h \<longrightarrow> v4_ends R' ! h = (if h \<in> set gs then 0 else v4_ends R ! h))
      \<and> (\<forall>h k. 1 \<le> h \<and> h \<le> N \<and> k < p \<longrightarrow> v4_map R' ! (h * p + k) = (if h \<in> set gs then 0 else v4_map R ! (h * p + k)))"
  proof (cases "?live = []")
    case True
    then have "R' = R" by (simp add: R'_def free_full_pages_def)
    moreover have "\<forall>g\<in>set gs. v4_ends R ! g = 0" using True by (simp add: filter_empty_conv)
    ultimately show ?thesis using inv dead by auto
  next
    case False
    define R1 where "R1 = free_swa_pages p ?live R"
    note f = free_swa_pages_ok [OF inv lv, folded R1_def]
    have R': "R' = R1\<lparr>v4_ends := fold (\<lambda>g s. s[g := 0]) ?live (v4_ends R1), v4_free := sort (v4_free R1 @ ?live)\<rparr>"
      using False by (simp add: R'_def free_full_pages_def Let_def R1_def)
    have e: "v4_ends R' ! h = (if h \<in> set ?live then 0 else v4_ends R ! h)" if "h \<le> N" for h
      using fold_zero(2) [of h "v4_ends R" ?live] that d(2) f(2) by (simp add: R')
    have e2: "v4_ends R' ! h = (if h \<in> set gs then 0 else v4_ends R ! h)" if "h \<le> N" for h using e [OF that] by auto
    have same: "v4_swa_page R' = v4_swa_page R1" "v4_map R' = v4_map R1" "v4_live R' = v4_live R1" "v4_swa_free R' = v4_swa_free R1"
      "length (v4_ends R') = Suc N" using d(2) f(2) by (simp_all add: R' fold_zero)
    have p1: "pages_ok p N R1" and s1: "swa_ok N M R1 {}" using f(1) by (simp_all add: v4_inv_def)
    have "pages_ok p N R'"
      unfolding pages_ok_def same
    proof (intro conjI allI impI)
      note q = pages_okD [OF p1]
      show "0 < p" "Suc N = Suc N" "length (v4_swa_page R1) = Suc N" "length (v4_live R1) = Suc N" "Suc N * p \<le> length (v4_map R1)" using q by auto
      fix h assume h: "1 \<le> h \<and> h \<le> N"
      show "v4_ends R' ! h \<le> p" using e [of h] d(6) h by simp
      show "v4_ends R' ! h \<noteq> 0" if "v4_swa_page R1 ! h \<noteq> 0" using that f(4) [of h] e [of h] q(7) [of h] f(2) h by (auto split: if_splits)
      show "v4_live R1 ! h = card {k. k < p \<and> v4_map R1 ! (h * p + k) \<noteq> 0}" using q(9) h by simp
      fix k assume k: "k < p" "v4_map R1 ! (h * p + k) \<noteq> 0"
      then have "h \<notin> set ?live" using f(5) [of h k] h by (auto split: if_splits)
      then show "v4_swa_page R1 ! h \<noteq> 0" "k < v4_ends R' ! h" "v4_map R1 ! (h * p + k) = v4_swa_page R1 ! h * p + k"
        using q(8) [of h k] h k e [of h] f(2) by auto
    qed
    moreover have "free_ok N R' {}"
    proof -
      have fr: "distinct (v4_free R)" "set (v4_free R) = {g. 1 \<le> g \<and> g \<le> N \<and> v4_ends R ! g = 0}" using i(2) by (auto simp: free_ok_def)
      have "{g. 1 \<le> g \<and> g \<le> N \<and> v4_ends R' ! g = 0} = {g. 1 \<le> g \<and> g \<le> N \<and> v4_ends R ! g = 0} \<union> set ?live"
        using e lv(2) by (auto split: if_splits)
      moreover have "set (v4_free R) \<inter> set ?live = {}" using fr(2) by auto
      moreover have "v4_free R' = sort (v4_free R @ ?live)" using f(3) by (simp add: R')
      ultimately show ?thesis using fr lv(1) by (simp add: free_ok_def)
    qed
    moreover have "swa_ok N M R' {}" using s1 by (simp add: swa_ok_def same)
    moreover have "v4_map R' ! (h * p + k) = (if h \<in> set gs then 0 else v4_map R ! (h * p + k))" if "1 \<le> h" "h \<le> N" "k < p" for h k
      using f(5) [OF that] dead [OF that] by (auto simp: same)
    ultimately show ?thesis using e2 by (simp add: v4_inv_def)
  qed
  then show "v4_inv p N M R' {} {}" "h \<le> N \<Longrightarrow> v4_ends R' ! h = (if h \<in> set gs then 0 else v4_ends R ! h) \<or> h = 0"
    "1 \<le> h \<Longrightarrow> h \<le> N \<Longrightarrow> k < p \<Longrightarrow> v4_map R' ! (h * p + k) = (if h \<in> set gs then 0 else v4_map R ! (h * p + k))"
    by (simp_all) (metis le_zero_eq not_less_eq_eq One_nat_def)
qed

text \<open>The check of a release: no slot that holds a token may share a page with the released ones and not be released.\<close>

definition whole_release :: "nat \<Rightarrow> nat \<Rightarrow> v4_rank \<Rightarrow> int list \<Rightarrow> bool" where
  "whole_release p N R idx \<longleftrightarrow> (\<forall>i\<in>set idx. int p \<le> i \<and> i < int (length (v4_map R)))
     \<and> (\<forall>s\<in>v4_slots p N R. (\<exists>i\<in>set idx. nat i div p = s div p) \<longrightarrow> int s \<in> set idx)"

lemma map_m_guard:
  assumes "\<And>x. x \<in> set xs \<Longrightarrow> f x = (if P x then Inr () else Inl e)"
  shows "map_m f xs = (if \<forall>x\<in>set xs. P x then Inr (map (\<lambda>_. ()) xs) else Inl e)"
  using assms by (induction xs) auto

lemma touched_pages_set: "set (touched_pages p idx) = (\<lambda>i. nat i div p) ` set idx" "distinct (touched_pages p idx)"
  by (auto simp: touched_pages_def)

lemma page_div:
  assumes "0 < (p :: nat)"
  shows "i div p = g \<longleftrightarrow> g * p \<le> i \<and> i < g * p + p"
proof
  assume "i div p = g"
  then have "g * p + i mod p = i" using div_mult_mod_eq [of i p] by simp
  then show "g * p \<le> i \<and> i < g * p + p" using mod_less_divisor [OF assms, of i] by linarith
next
  assume "g * p \<le> i \<and> i < g * p + p"
  then have "i = g * p + (i - g * p)" "i - g * p < p" by auto
  then show "i div p = g" by (metis add.commute add.right_neutral assms div_less div_mult_self3 not_less_zero)
qed

lemma covered_full:
  assumes "distinct us" "g \<le> N" "length (v4_ends R) = Suc N" "v4_ends R ! g \<le> p" "0 < p"
  shows "covered p False R us g = (if {g * p..<g * p + v4_ends R ! g} \<subseteq> set us then Inr () else Inl ValueError)"
proof -
  let ?e = "v4_ends R ! g" and ?B = "{g * p..<g * p + v4_ends R ! g}"
  let ?F = "filter (\<lambda>i. i < g * p + v4_ends R ! g) (filter (\<lambda>i. i div p = g) us)"
  have "set ?F = set us \<inter> ?B" using assms(4) by (auto simp: page_div [OF assms(5)])
  then have "length ?F = card (set us \<inter> ?B)" using assms(1) by (metis distinct_card distinct_filter)
  also have "\<dots> = ?e \<longleftrightarrow> ?B \<subseteq> set us"
  proof
    assume "card (set us \<inter> ?B) = ?e"
    then have "set us \<inter> ?B = ?B" by (intro card_subset_eq) auto
    then show "?B \<subseteq> set us" by blast
  next
    assume "?B \<subseteq> set us"
    then have "set us \<inter> ?B = ?B" by blast
    then show "card (set us \<inter> ?B) = ?e" by simp
  qed
  finally show ?thesis using assms(2,3) by (simp add: covered_def raise_unless_def)
qed

lemma page_slots:
  assumes "pages_ok p N R" "1 \<le> g" "g \<le> N"
  shows "{g * p..<g * p + v4_ends R ! g} = {s \<in> v4_slots p N R. s div p = g}"
proof (intro equalityI subsetI)
  note d = pages_okD [OF assms(1)]
  fix s assume s: "s \<in> {g * p..<g * p + v4_ends R ! g}"
  define k where "k = s - g * p"
  have k: "s = g * p + k" "k < v4_ends R ! g" using s by (auto simp: k_def)
  have "k < p" using k(2) d(6) [OF assms(2,3)] by simp
  then show "s \<in> {s \<in> v4_slots p N R. s div p = g}" using k assms(2,3) d(1) by (auto simp: v4_slots_def)
next
  note d = pages_okD [OF assms(1)]
  fix s assume s: "s \<in> {s \<in> v4_slots p N R. s div p = g}"
  then obtain h k where hk: "s = h * p + k" "1 \<le> h" "h \<le> N" "k < v4_ends R ! h" by (auto simp: v4_slots_def)
  have "k < p" using hk(4) d(6) [OF hk(2,3)] by simp
  then have "h = g" using s hk(1) by simp
  then show "s \<in> {g * p..<g * p + v4_ends R ! g}" using hk by simp
qed

lemma release_pages_full:
  assumes ok: "pages_ok p N R" and len: "length (v4_map R) = Suc N * p"
  shows "v4_release_pages idx False p R = (if whole_release p N R idx then Inr (touched_pages p idx) else Inl ValueError)"
    "whole_release p N R idx \<Longrightarrow> \<forall>g\<in>set (touched_pages p idx). 1 \<le> g \<and> g \<le> N"
proof -
  note d = pages_okD [OF ok]
  let ?in = "\<forall>i\<in>set idx. int p \<le> i \<and> i < int (length (v4_map R))" and ?us = "map nat (sort (remdups idx))"
  have rng: "1 \<le> g \<and> g \<le> N" if inr: "?in" and g: "g \<in> set (touched_pages p idx)" for g
  proof -
    obtain i where i: "i \<in> set idx" "g = nat i div p" using g touched_pages_set by blast
    have "int p \<le> i" "i < int (Suc N * p)" using inr i(1) len by auto
    then have "p \<le> nat i" "nat i < Suc N * p" by linarith+
    then show ?thesis using i(2) d(1) by (auto simp: less_mult_imp_div_less less_Suc_eq_le [symmetric] div_greater_zero_iff Suc_le_eq)
  qed
  then show "whole_release p N R idx \<Longrightarrow> \<forall>g\<in>set (touched_pages p idx). 1 \<le> g \<and> g \<le> N" by (auto simp: whole_release_def)
  show "v4_release_pages idx False p R = (if whole_release p N R idx then Inr (touched_pages p idx) else Inl ValueError)"
  proof (cases ?in)
    case False
    then show ?thesis by (auto simp: v4_release_pages_def whole_release_def list_ex_iff not_less not_le)
  next
    case True
    have us: "distinct ?us" "int s \<in> set idx \<longleftrightarrow> s \<in> set ?us" for s
    proof -
      show "distinct ?us" using True by (auto simp: distinct_map intro!: inj_onI) (metis True int_nat_eq nat_0_le of_nat_0_le_iff order_trans)
      show "int s \<in> set idx \<longleftrightarrow> s \<in> set ?us"
      proof
        assume "s \<in> set ?us"
        then obtain i where "i \<in> set idx" "s = nat i" by auto
        moreover have "0 \<le> i" using True \<open>i \<in> set idx\<close> by (metis of_nat_0_le_iff order_trans)
        ultimately show "int s \<in> set idx" by simp
      qed (auto intro: rev_image_eqI)
    qed
    have cov: "covered p False R ?us g = (if {g * p..<g * p + v4_ends R ! g} \<subseteq> set ?us then Inr () else Inl ValueError)"
      if "g \<in> set (touched_pages p idx)" for g
      using covered_full [OF us(1) _ d(2)] rng [OF True that] d(1,6) by blast
    have "(\<forall>g\<in>set (touched_pages p idx). {g * p..<g * p + v4_ends R ! g} \<subseteq> set ?us) \<longleftrightarrow> whole_release p N R idx"
    proof -
      have "(\<forall>g\<in>set (touched_pages p idx). {g * p..<g * p + v4_ends R ! g} \<subseteq> set ?us) \<longleftrightarrow>
          (\<forall>g\<in>set (touched_pages p idx). \<forall>s\<in>v4_slots p N R. s div p = g \<longrightarrow> int s \<in> set idx)"
        using page_slots [OF ok] rng [OF True] us(2) by (intro ball_cong refl) blast
      also have "\<dots> \<longleftrightarrow> (\<forall>s\<in>v4_slots p N R. (\<exists>i\<in>set idx. nat i div p = s div p) \<longrightarrow> int s \<in> set idx)"
        unfolding touched_pages_set by fastforce
      finally show ?thesis unfolding whole_release_def using True by simp
    qed
    then have "map_m (covered p False R ?us) (touched_pages p idx) =
        (if whole_release p N R idx then Inr (map (\<lambda>_. ()) (touched_pages p idx)) else Inl ValueError)"
      using map_m_guard [where f = "covered p False R ?us" and xs = "touched_pages p idx"
          and P = "\<lambda>g. {g * p..<g * p + v4_ends R ! g} \<subseteq> set ?us", OF cov] by simp
    moreover have "\<not> list_ex (\<lambda>i. i < int p \<or> int (length (v4_map R)) \<le> i) idx" using True by (auto simp: list_ex_iff)
    ultimately show ?thesis by (simp add: v4_release_pages_def Let_def)
  qed
qed

end
