(* ===== verification/V4_Client.thy ===== *)
theory V4_Client
  imports V4_Ledger
begin

text \<open>
  The DeepSeek V4 allocator as its callers see it: allocation and release on any rank against the ledger, every sequence of
  calls, and the demand of a decoding step.
\<close>

section \<open>The allocator\<close>

definition v4_ok :: "v4_allocator \<Rightarrow> bool" where
  "v4_ok a \<longleftrightarrow> 0 < v4_page_size a \<and> length (v4_ranks a) = v4_dp_size a \<and>
     (\<forall>R\<in>set (v4_ranks a). v4_inv (v4_page_size a) (v4_pages_per_rank a) (v4_swa_pages_per_rank a) R {} {}
        \<and> length (v4_map R) = v4_size_per_rank a + v4_page_size a)"

lemma v4_rank_at_ok:
  assumes "v4_ok a"
  shows "v4_rank_at d a = (if 0 \<le> d \<and> d < int (v4_dp_size a) then Inr (v4_ranks a ! nat d) else Inl ValueError)"
  using assms by (auto simp: v4_rank_at_def v4_check_rank_def raise_unless_def v4_ok_def)

lemma v4_rank_inv:
  assumes "v4_ok a" "0 \<le> d" "d < int (v4_dp_size a)"
  shows "v4_inv (v4_page_size a) (v4_pages_per_rank a) (v4_swa_pages_per_rank a) (v4_ranks a ! nat d) {} {}"
    "length (v4_map (v4_ranks a ! nat d)) = v4_size_per_rank a + v4_page_size a"
  using assms by (auto simp: v4_ok_def)

lemma v4_set_rank_fields [simp]:
  "v4_page_size (v4_set_rank d R a) = v4_page_size a" "v4_size_per_rank (v4_set_rank d R a) = v4_size_per_rank a"
  "v4_pages_per_rank (v4_set_rank d R a) = v4_pages_per_rank a" "v4_swa_pages_per_rank (v4_set_rank d R a) = v4_swa_pages_per_rank a"
  "v4_dp_size (v4_set_rank d R a) = v4_dp_size a" "v4_ranks (v4_set_rank d R a) = (v4_ranks a)[nat d := R]"
  by (simp_all add: v4_set_rank_def v4_size_per_rank_def v4_pages_per_rank_def v4_swa_pages_per_rank_def)

lemma v4_ok_set_rank:
  assumes "v4_ok a" "v4_inv (v4_page_size a) (v4_pages_per_rank a) (v4_swa_pages_per_rank a) R {} {}"
    "length (v4_map R) = v4_size_per_rank a + v4_page_size a"
  shows "v4_ok (v4_set_rank d R a)"
  using assms set_update_subset_insert [of "v4_ranks a" "nat d" R] by (auto simp: v4_ok_def)

lemma v4_ok_flag [simp]: "v4_ok (a\<lparr>v4_outside := b\<rparr>) = v4_ok a"
  by (simp add: v4_ok_def v4_size_per_rank_def v4_pages_per_rank_def v4_swa_pages_per_rank_def)

lemma v4_inv_group [simp]: "v4_inv p N M (R\<lparr>v4_group := x\<rparr>) A B = v4_inv p N M R A B"
  by (simp add: v4_inv_def pages_ok_def free_ok_def swa_ok_def)

lemma v4_inv_cleared:
  assumes len: "length (v4_map R) = v4_size_per_rank a + v4_page_size a" "length (v4_ends R) = Suc (v4_pages_per_rank a)"
      "length (v4_swa_page R) = Suc (v4_pages_per_rank a)" "length (v4_live R) = Suc (v4_pages_per_rank a)"
    and p: "0 < v4_page_size a"
  shows "v4_inv (v4_page_size a) (v4_pages_per_rank a) (v4_swa_pages_per_rank a) (v4_clear_rank a R) {} {}"
    "length (v4_map (v4_clear_rank a R)) = v4_size_per_rank a + v4_page_size a"
proof -
  let ?R = "v4_clear_rank a R" and ?p = "v4_page_size a" and ?N = "v4_pages_per_rank a" and ?M = "v4_swa_pages_per_rank a"
  have room: "Suc ?N * ?p \<le> v4_size_per_rank a + ?p"
    by (simp add: v4_pages_per_rank_def)
  have z: "v4_map ?R ! (g * ?p + k) = 0" if "g \<le> ?N" "k < ?p" for g k
    using page_bound [OF that] room len(1) by (simp add: v4_clear_rank_def)
  have "pages_ok ?p ?N ?R" unfolding pages_ok_def using len p room z by (auto simp: v4_clear_rank_def)
  moreover have "free_ok ?N ?R {}" using len by (auto simp: free_ok_def v4_clear_rank_def)
  moreover have "swa_ok ?N ?M ?R {}" using len by (auto simp: swa_ok_def v4_clear_rank_def)
  ultimately show "v4_inv ?p ?N ?M ?R {} {}" by (simp add: v4_inv_def)
  show "length (v4_map ?R) = v4_size_per_rank a + ?p" using len by (simp add: v4_clear_rank_def)
qed

lemma v4_inv_lengths:
  assumes "v4_inv p N M R A B"
  shows "length (v4_ends R) = Suc N" "length (v4_swa_page R) = Suc N" "length (v4_live R) = Suc N" "0 < p"
  using assms by (simp_all add: v4_inv_def pages_ok_def)

lemma v4_init_ok:
  assumes "v4_init n_full n_swa p dp = Inr a"
  shows "v4_ok a" "v4_outside a" "v4_page_size a = p" "v4_dp_size a = dp"
proof -
  have nz: "dp \<noteq> 0" "p \<noteq> 0" using assms by (auto simp: v4_init_def split: if_splits)
  define a0 where "a0 = \<lparr>v4_size = n_full, v4_page_size = p, v4_dp_size = dp, v4_size_swa = n_swa, v4_ranks = [], v4_outside = True\<rparr>"
  define R0 where "R0 = \<lparr>v4_free = [], v4_swa_free = [], v4_map = replicate (v4_size_per_rank a0 + p) 0, v4_ends = replicate (v4_pages_per_rank a0 + 1) 0,
           v4_swa_page = replicate (v4_pages_per_rank a0 + 1) 0, v4_live = replicate (v4_pages_per_rank a0 + 1) 0, v4_group = []\<rparr>"
  have cl: "v4_clear_rank (a0\<lparr>v4_ranks := xs\<rparr>) = v4_clear_rank a0" for xs
    by (rule ext) (simp add: v4_clear_rank_def v4_pages_per_rank_def v4_swa_pages_per_rank_def v4_size_per_rank_def)
  have "v4_init n_full n_swa p dp = v4_clear None (a0\<lparr>v4_ranks := replicate dp R0\<rparr>)"
    using nz by (simp add: v4_init_def Let_def a0_def R0_def)
  then have a: "a = a0\<lparr>v4_ranks := replicate dp (v4_clear_rank a0 R0), v4_outside := True\<rparr>"
    using assms by (simp add: v4_clear_def cl)
  have "length (v4_map R0) = v4_size_per_rank a0 + v4_page_size a0" "length (v4_ends R0) = Suc (v4_pages_per_rank a0)"
    "length (v4_swa_page R0) = Suc (v4_pages_per_rank a0)" "length (v4_live R0) = Suc (v4_pages_per_rank a0)" "0 < v4_page_size a0"
    using nz by (simp_all add: R0_def a0_def)
  note c = v4_inv_cleared [OF this]
  have f: "v4_size_per_rank a = v4_size_per_rank a0" "v4_pages_per_rank a = v4_pages_per_rank a0" "v4_swa_pages_per_rank a = v4_swa_pages_per_rank a0"
    "v4_page_size a = v4_page_size a0"
    by (simp_all add: a v4_pages_per_rank_def v4_swa_pages_per_rank_def v4_size_per_rank_def)
  show "v4_outside a" "v4_page_size a = p" "v4_dp_size a = dp" by (simp_all add: a a0_def)
  show "v4_ok a" unfolding v4_ok_def f using c nz by (auto simp: a a0_def)
qed

text \<open>A release that is accepted touches pages of the pool only.\<close>

lemma map_m_InrD:
  assumes "map_m f xs = Inr ys" "x \<in> set xs"
  shows "\<exists>y. f x = Inr y"
  using assms by (induction xs arbitrary: ys) (auto simp: rbind_eq_Inr_iff)

lemma release_pages_range:
  assumes rel: "v4_release_pages idx b p R = Inr gs" and ok: "pages_ok p N R"
  shows "distinct gs" "\<forall>g\<in>set gs. 1 \<le> g \<and> g \<le> N"
proof -
  let ?us = "map nat (sort (remdups idx))"
  have gs: "gs = touched_pages p idx" and r: "\<forall>i\<in>set idx. int p \<le> i"
    and m: "\<exists>us. map_m (covered p b R ?us) (touched_pages p idx) = Inr us"
    using rel by (auto simp: v4_release_pages_def Let_def rbind_eq_Inr_iff list_ex_iff not_less split: if_splits)
  show "distinct gs" by (simp add: gs touched_pages_set)
  show "\<forall>g\<in>set gs. 1 \<le> g \<and> g \<le> N"
  proof
    fix g assume g: "g \<in> set gs"
    then obtain i where i: "i \<in> set idx" "g = nat i div p" using touched_pages_set gs by blast
    have "p \<le> nat i" using r i(1) by (metis nat_int nat_mono)
    then have lo: "1 \<le> g" using i(2) pages_okD(1) [OF ok] by (simp add: Suc_le_eq div_greater_zero_iff)
    have "\<exists>y. covered p b R ?us g = Inr y" using m map_m_InrD g gs by metis
    then have "g < Suc N" using pages_okD(2,4) [OF ok]
      by (auto simp: covered_def Let_def rbind_eq_Inr_iff np_get_def np_pos_def split: if_splits option.splits)
    then show "1 \<le> g \<and> g \<le> N" using lo by simp
  qed
qed

text \<open>The mapping keeps its length.\<close>

lemma free_swa_pages_length: "length (v4_map (free_swa_pages p gs R)) = length (v4_map R)"
proof -
  have "length (fold (\<lambda>g m. write_map m [g * p..<(g + 1) * p] (replicate p 0)) hs m) = length m" for hs m
    by (induction hs arbitrary: m) auto
  then show ?thesis by (simp add: free_swa_pages_def Let_def)
qed

lemma free_full_pages_length: "length (v4_map (free_full_pages p gs R)) = length (v4_map R)"
  by (simp add: free_full_pages_def Let_def free_swa_pages_length)

lemma commit_length: "length (v4_map (fold commit_write ws R)) = length (v4_map R)"
  by (induction ws arbitrary: R) (auto simp: commit_write_def)

lemma plan_error:
  assumes "v4_plan pre sq tails n p N R = Inl e"
  shows "e = ValueError"
proof -
  have s: "x = ValueError" if "plan_seq p N R q st = Inl x" for q st x
    using that by (auto simp: plan_seq_def Let_def split: if_splits prod.splits)
  have f: "x = ValueError" if "for_m (plan_seq p N R) qs st = Inl x" for qs st x
    using that
  proof (induction qs arbitrary: st)
    case (Cons q qs)
    then show ?case by (cases "plan_seq p N R q st") (auto dest: s)
  qed simp
  show ?thesis using assms by (auto simp: v4_plan_def rbind_def split: if_splits sum.splits prod.splits dest: f)
qed

lemma plan_total:
  assumes "v4_plan pre sq tails n p N R = Inr x"
  shows "0 \<le> n"
proof -
  have l: "length pre = length sq" "\<not> list_ex (\<lambda>(s, x). s < x) (zip sq pre)" "sum_list (map2 (-) sq pre) = n"
    using assms by (auto simp: v4_plan_def split: if_splits)
  have "0 \<le> sum_list (map2 (-) sq pre)" using l(2) by (intro sum_list_nonneg) (auto simp: list_ex_iff)
  then show ?thesis using l(3) by simp
qed


text \<open>What an extension does on one rank: its demand decides, and the slots it returns are new.\<close>

definition extends_rank :: "nat \<Rightarrow> nat \<Rightarrow> nat \<Rightarrow> v4_demand \<Rightarrow> int \<Rightarrow> nat list \<Rightarrow> v4_rank \<Rightarrow> v4_rank \<Rightarrow> bool" where
  "extends_rank p N M dem n out R R' \<longleftrightarrow> v4_inv p N M R' {} {} \<and> distinct out \<and> int (length out) = n \<and> set out \<inter> v4_slots p N R = {}
     \<and> v4_slots p N R' = v4_slots p N R \<union> set out \<and> (\<forall>x\<in>set out. v4_map R' ! x \<noteq> 0)
     \<and> (\<forall>x. v4_map R ! x \<noteq> 0 \<longrightarrow> x \<notin> set out \<longrightarrow> v4_map R' ! x = v4_map R ! x)
     \<and> v4_free R' = drop (history_pages dem) (v4_free R) \<and> v4_swa_free R' = drop (swa_pages dem) (v4_swa_free R)"

lemma can_allocate_ok:
  assumes "v4_ok a" "0 \<le> d" "d < int (v4_dp_size a)" "demand_page_size dem = v4_page_size a"
  shows "can_allocate dem d a = Inr (history_pages dem \<le> length (v4_free (v4_ranks a ! nat d)) \<and> swa_pages dem \<le> length (v4_swa_free (v4_ranks a ! nat d)))"
proof -
  have "0 < v4_page_size a" using assms(1) by (simp add: v4_ok_def)
  then show ?thesis using assms(2-4) v4_rank_at_ok [OF assms(1), of d]
    by (simp add: can_allocate_def v4_full_available_def v4_swa_available_def history_tokens_def swa_tokens_def)
qed

lemma v4_alloc_extend_rank:
  assumes ok: "v4_ok a" and d: "0 \<le> d" "d < int (v4_dp_size a)"
    and plan: "v4_plan pre sq tails n (v4_page_size a) (v4_pages_per_rank a) (v4_ranks a ! nat d) = Inr (dem, segs)"
  shows "if history_pages dem \<le> length (v4_free (v4_ranks a ! nat d)) \<and> swa_pages dem \<le> length (v4_swa_free (v4_ranks a ! nat d))
    then \<exists>out R'. v4_alloc_extend pre sq tails n d a = Inr (Some out, v4_set_rank d R' a)
      \<and> extends_rank (v4_page_size a) (v4_pages_per_rank a) (v4_swa_pages_per_rank a) dem n out (v4_ranks a ! nat d) R'
      \<and> length (v4_map R') = v4_size_per_rank a + v4_page_size a
    else v4_alloc_extend pre sq tails n d a = Inr (None, a)"
proof -
  define R where "R = v4_ranks a ! nat d"
  note i = v4_rank_inv [OF ok d, folded R_def]
  have rk: "v4_rank_at d a = Inr R" using v4_rank_at_ok [OF ok, of d] d by (simp add: R_def)
  obtain seen where p: "plan_ok (v4_page_size a) (v4_pages_per_rank a) R (segs, history_pages dem, seen) (nat n)"
    "swa_pages dem = length (filter (needs_swa R) segs)" "demand_page_size dem = v4_page_size a"
    using v4_plan_ok [OF plan v4_inv_lengths(4) [OF i(1)]] unfolding R_def by blast
  note c = can_allocate_ok [OF ok d p(3), folded R_def]
  show ?thesis
  proof (cases "history_pages dem \<le> length (v4_free R) \<and> swa_pages dem \<le> length (v4_swa_free R)")
    case True
    then obtain ws where ws: "resolve_segments (v4_page_size a) R (take (history_pages dem) (v4_free R)) segs (take (swa_pages dem) (v4_swa_free R)) = Inr ws"
      "extends_rank (v4_page_size a) (v4_pages_per_rank a) (v4_swa_pages_per_rank a) dem n (concat (map (\<lambda>(_, _, _, loc, _). loc) ws)) R
         (fold commit_write ws (R\<lparr>v4_free := drop (history_pages dem) (v4_free R), v4_swa_free := drop (swa_pages dem) (v4_swa_free R)\<rparr>))"
      using extend_rank [OF i(1) p(1) _ p(2)] plan_total [OF plan] unfolding extends_rank_def Let_def by auto
    have "length (v4_map (fold commit_write ws (R\<lparr>v4_free := drop (history_pages dem) (v4_free R), v4_swa_free := drop (swa_pages dem) (v4_swa_free R)\<rparr>)))
        = v4_size_per_rank a + v4_page_size a" using i(2) by (simp add: commit_length)
    then show ?thesis using ws True by (auto simp: v4_alloc_extend_def rk plan [folded R_def] c Let_def simp flip: R_def)
  next
    case False
    then show ?thesis by (auto simp: v4_alloc_extend_def rk plan [folded R_def] c simp flip: R_def)
  qed
qed

text \<open>C11. Planning before committing: \<open>estimate_extend\<close> and \<open>alloc_extend\<close> of the DeepSeek V4 allocator reject the same calls, always with
  \<open>ValueError\<close>, and otherwise \<open>alloc_extend\<close> returns \<open>None\<close> and changes nothing exactly when the estimated demand exceeds a pool. When
  it succeeds it returns as many distinct slots as tokens, none of which held a token; these slots and the ones before hold tokens now, every new slot has a window slot,
  the mappings of the others are kept, both free lists lose exactly the estimated pages, and the ledger stays consistent.\<close>

theorem v4_alloc_extend_correct:
  assumes "v4_ok a" and "0 \<le> d" "d < int (v4_dp_size a)"
  shows "case estimate_extend pre sq tails n d a of
      Inl e \<Rightarrow> e = ValueError \<and> v4_alloc_extend pre sq tails n d a = Inl ValueError
    | Inr dem \<Rightarrow>
        if history_pages dem \<le> length (v4_free (v4_ranks a ! nat d)) \<and> swa_pages dem \<le> length (v4_swa_free (v4_ranks a ! nat d))
        then \<exists>out R'. v4_alloc_extend pre sq tails n d a = Inr (Some out, v4_set_rank d R' a)
          \<and> extends_rank (v4_page_size a) (v4_pages_per_rank a) (v4_swa_pages_per_rank a) dem n out (v4_ranks a ! nat d) R'
          \<and> v4_ok (v4_set_rank d R' a)
        else v4_alloc_extend pre sq tails n d a = Inr (None, a)"
proof -
  have rk: "v4_rank_at d a = Inr (v4_ranks a ! nat d)" using v4_rank_at_ok [OF assms(1), of d] assms by simp
  show ?thesis
  proof (cases "v4_plan pre sq tails n (v4_page_size a) (v4_pages_per_rank a) (v4_ranks a ! nat d)")
    case (Inl e)
    then show ?thesis using plan_error [OF Inl] by (simp add: estimate_extend_def v4_alloc_extend_def rk)
  next
    case (Inr x)
    obtain dem segs where x: "x = (dem, segs)" by (cases x)
    have "v4_ok (v4_set_rank d R' a)" if "extends_rank (v4_page_size a) (v4_pages_per_rank a) (v4_swa_pages_per_rank a) dem n out R R'"
      "length (v4_map R') = v4_size_per_rank a + v4_page_size a" for out R R'
      using that by (intro v4_ok_set_rank [OF assms(1)]) (simp_all add: extends_rank_def)
    then show ?thesis using v4_alloc_extend_rank [OF assms Inr [unfolded x]] Inr x
      by (auto simp: estimate_extend_def rk split: if_splits) blast
  qed
qed

lemma slot_page:
  assumes "s \<in> v4_slots p N R" "pages_ok p N R"
  obtains g k where "s = g * p + k" "1 \<le> g" "g \<le> N" "k < v4_ends R ! g" "k < p" "s div p = g"
proof -
  obtain g k where h: "s = g * p + k" "1 \<le> g" "g \<le> N" "k < v4_ends R ! g" using assms(1) by (auto simp: v4_slots_def)
  have "k < p" using pages_okD(6) [OF assms(2) h(2,3)] h(4) by simp
  then show ?thesis using that h by simp
qed

lemma free_full_rank:
  assumes inv: "v4_inv p N M R {} {}" and wr: "whole_release p N R idx" and rng: "\<forall>g\<in>set (touched_pages p idx). 1 \<le> g \<and> g \<le> N"
  defines "R' \<equiv> free_full_pages p (touched_pages p idx) R"
  shows "v4_slots p N R' = v4_slots p N R - nat ` set idx"
    "s \<in> v4_slots p N R \<Longrightarrow> v4_map R' ! s = (if s \<in> nat ` set idx then 0 else v4_map R ! s)"
proof -
  have po: "pages_ok p N R" using inv by (simp add: v4_inv_def)
  note f = free_full_pages_ok [OF inv touched_pages_set(2) rng, folded R'_def]
  have e: "v4_ends R' ! h = (if h \<in> set (touched_pages p idx) then 0 else v4_ends R ! h)" if "1 \<le> h" "h \<le> N" for h
    using f(2) [OF that(2)] that(1) by simp
  have mem: "s \<in> nat ` set idx \<longleftrightarrow> s div p \<in> set (touched_pages p idx)" if "s \<in> v4_slots p N R" for s
    using wr that by (auto simp: touched_pages_set whole_release_def) (metis imageI nat_int)
  show "v4_slots p N R' = v4_slots p N R - nat ` set idx"
  proof (intro equalityI subsetI)
    fix s assume "s \<in> v4_slots p N R'"
    then obtain g k where g: "s = g * p + k" "1 \<le> g" "g \<le> N" "k < v4_ends R' ! g" by (auto simp: v4_slots_def)
    then have ng: "g \<notin> set (touched_pages p idx)" "k < v4_ends R ! g" using e [OF g(2,3)] by (auto split: if_splits)
    have "k < p" using pages_okD(6) [OF po g(2,3)] ng(2) by simp
    then have "s div p = g" using g(1) by simp
    moreover have "s \<in> v4_slots p N R" using g(1-3) ng(2) by (auto simp: v4_slots_def)
    ultimately show "s \<in> v4_slots p N R - nat ` set idx" using mem ng(1) by simp
  next
    fix s assume s: "s \<in> v4_slots p N R - nat ` set idx"
    obtain g k where g: "s = g * p + k" "1 \<le> g" "g \<le> N" "k < v4_ends R ! g" "s div p = g" using s slot_page [OF _ po] by (metis DiffD1)
    have "g \<notin> set (touched_pages p idx)" using mem [of s] s g(5) by auto
    then have "k < v4_ends R' ! g" using g(4) e [OF g(2,3)] by simp
    then show "s \<in> v4_slots p N R'" unfolding v4_slots_def using g(1-3) by blast
  qed
  assume s: "s \<in> v4_slots p N R"
  obtain g k where g: "s = g * p + k" "1 \<le> g" "g \<le> N" "k < p" "s div p = g" using slot_page [OF s po] .
  then show "v4_map R' ! s = (if s \<in> nat ` set idx then 0 else v4_map R ! s)" using f(3) [OF g(2-4)] mem [OF s] by simp
qed

text \<open>C13. Releasing history slots outside a group raises \<open>ValueError\<close> exactly when an index is padding or out of range or when a released page holds a token
  that is not released; otherwise exactly the released slots stop holding tokens, they lose their window slots, all other mappings are kept, and the ledger stays consistent.\<close>

theorem v4_free_correct:
  assumes ok: "v4_ok a" and d: "0 \<le> d" "d < int (v4_dp_size a)" and out: "v4_outside a" and al: "v4_page_size a dvd v4_size_per_rank a"
  shows "if whole_release (v4_page_size a) (v4_pages_per_rank a) (v4_ranks a ! nat d) idx
    then \<exists>R'. v4_free_idx idx d a = Inr (v4_set_rank d R' a) \<and> v4_ok (v4_set_rank d R' a)
      \<and> v4_slots (v4_page_size a) (v4_pages_per_rank a) R' = v4_slots (v4_page_size a) (v4_pages_per_rank a) (v4_ranks a ! nat d) - nat ` set idx
      \<and> (\<forall>s\<in>v4_slots (v4_page_size a) (v4_pages_per_rank a) (v4_ranks a ! nat d).
           v4_map R' ! s = (if s \<in> nat ` set idx then 0 else v4_map (v4_ranks a ! nat d) ! s))
    else v4_free_idx idx d a = Inl ValueError"
proof -
  define R p N where "R = v4_ranks a ! nat d" and "p = v4_page_size a" and "N = v4_pages_per_rank a"
  note i = v4_rank_inv [OF ok d, folded R_def p_def N_def]
  have rk: "v4_rank_at d a = Inr R" using v4_rank_at_ok [OF ok, of d] d by (simp add: R_def)
  have po: "pages_ok p N R" using i(1) by (simp add: v4_inv_def)
  have len: "length (v4_map R) = Suc N * p" using i(2) al by (simp add: N_def p_def v4_pages_per_rank_def)
  note rel = release_pages_full [OF po len, of idx]
  show ?thesis
  proof (cases "whole_release p N R idx")
    case True
    let ?gs = "touched_pages p idx" and ?R' = "free_full_pages p (touched_pages p idx) R"
    note r = free_full_rank [OF i(1) True rel(2) [OF True]]
    have "v4_ok (v4_set_rank d ?R' a)"
      using free_full_pages_ok(1) [OF i(1) touched_pages_set(2) rel(2) [OF True]] i(2)
      by (intro v4_ok_set_rank [OF ok]) (simp_all add: free_full_pages_length p_def N_def)
    moreover have "v4_free_idx idx d a = Inr (v4_set_rank d ?R' a)" using True rel(1) out rk by (simp add: v4_free_idx_def flip: p_def)
    ultimately show ?thesis using True r unfolding R_def p_def N_def by (simp only: if_True) blast
  next
    case False
    then show ?thesis using rel(1) out rk by (simp add: v4_free_idx_def flip: p_def N_def R_def)
  qed
qed


section \<open>Runs\<close>

text \<open>Any client of the allocator: it may call every operation with any arguments, and a call that raises leaves the state as it was, since every check
  comes before the first assignment.\<close>

datatype v4_op =
    V4_Extend "int list" "int list" "int list" int int
  | V4_Decode "int list" "int list" int
  | V4_Alloc int int
  | V4_Free "int list" int
  | V4_Free_Swa "int list" int
  | V4_Clear "int option"
  | V4_Group_Begin
  | V4_Group_End

fun v4_call :: "v4_op \<Rightarrow> v4_allocator \<Rightarrow> v4_allocator result" where
  "v4_call (V4_Extend pre sq tails n d) a = map_sum id snd (v4_alloc_extend pre sq tails n d a)"
| "v4_call (V4_Decode sq tails d) a = map_sum id snd (v4_alloc_decode sq tails d a)"
| "v4_call (V4_Alloc n d) a = map_sum id snd (v4_alloc n d a)"
| "v4_call (V4_Free idx d) a = v4_free_idx idx d a"
| "v4_call (V4_Free_Swa idx d) a = v4_free_swa idx d a"
| "v4_call (V4_Clear d) a = v4_clear d a"
| "v4_call V4_Group_Begin a = v4_free_group_begin a"
| "v4_call V4_Group_End a = v4_free_group_end a"

definition v4_step :: "v4_op \<Rightarrow> v4_allocator \<Rightarrow> v4_allocator" where
  "v4_step opn a = (case v4_call opn a of Inl e \<Rightarrow> a | Inr b \<Rightarrow> b)"

lemma v4_rank_at_InrD:
  assumes "v4_ok a" "v4_rank_at d a = Inr R"
  shows "0 \<le> d" "d < int (v4_dp_size a)" "R = v4_ranks a ! nat d"
  using assms v4_rank_at_ok [OF assms(1), of d] by (auto split: if_splits)

lemma v4_extend_ok:
  assumes ok: "v4_ok a" and run: "v4_alloc_extend pre sq tails n d a = Inr (out, b)"
  shows "v4_ok b"
proof -
  obtain R x where R: "v4_rank_at d a = Inr R" and x: "v4_plan pre sq tails n (v4_page_size a) (v4_pages_per_rank a) R = Inr x"
    using run by (auto simp: v4_alloc_extend_def rbind_eq_Inr_iff)
  note r = v4_rank_at_InrD [OF ok R]
  obtain dem segs where "x = (dem, segs)" by (cases x)
  then show ?thesis using v4_alloc_extend_rank [OF ok r(1,2), of pre sq tails n dem segs] x run ok r(3)
    by (auto simp: extends_rank_def intro: v4_ok_set_rank split: if_splits)
qed

lemma v4_free_full_ok:
  assumes "v4_inv p N M R {} {}" "v4_release_pages idx b p R = Inr gs"
  shows "v4_inv p N M (free_full_pages p gs R) {} {}" "v4_inv p N M (free_swa_pages p gs R) {} {}"
proof -
  have "pages_ok p N R" using assms(1) by (simp add: v4_inv_def)
  note r = release_pages_range [OF assms(2) this]
  show "v4_inv p N M (free_full_pages p gs R) {} {}" by (rule free_full_pages_ok(1) [OF assms(1) r])
  show "v4_inv p N M (free_swa_pages p gs R) {} {}" by (rule free_swa_pages_ok(1) [OF assms(1) r])
qed

lemma v4_free_ok:
  assumes ok: "v4_ok a" and run: "v4_free_idx idx d a = Inr b"
  shows "v4_ok b"
proof -
  obtain R where R: "v4_rank_at d a = Inr R" using run by (auto simp: v4_free_idx_def rbind_eq_Inr_iff)
  note r = v4_rank_at_InrD [OF ok R]
  note i = v4_rank_inv [OF ok r(1,2), folded r(3)]
  show ?thesis using run i by (auto simp: v4_free_idx_def R rbind_eq_Inr_iff free_full_pages_length
        intro!: v4_ok_set_rank [OF ok] v4_free_full_ok(1) split: if_splits)
qed

lemma v4_free_swa_ok:
  assumes ok: "v4_ok a" and run: "v4_free_swa idx d a = Inr b"
  shows "v4_ok b"
proof -
  obtain R where R: "v4_rank_at d a = Inr R" using run by (auto simp: v4_free_swa_def rbind_eq_Inr_iff)
  note r = v4_rank_at_InrD [OF ok R]
  note i = v4_rank_inv [OF ok r(1,2), folded r(3)]
  show ?thesis using run i by (auto simp: v4_free_swa_def R rbind_eq_Inr_iff free_swa_pages_length
        intro!: v4_ok_set_rank [OF ok] v4_free_full_ok(2) split: if_splits)
qed

lemma v4_clear_ok:
  assumes ok: "v4_ok a" and run: "v4_clear d a = Inr b"
  shows "v4_ok b"
proof -
  have c: "v4_inv (v4_page_size a) (v4_pages_per_rank a) (v4_swa_pages_per_rank a) (v4_clear_rank a R) {} {}"
    "length (v4_map (v4_clear_rank a R)) = v4_size_per_rank a + v4_page_size a" if "R \<in> set (v4_ranks a)" for R
    using ok that v4_inv_lengths [of "v4_page_size a" "v4_pages_per_rank a" "v4_swa_pages_per_rank a" R "{}" "{}"] v4_inv_cleared [of R a]
    by (auto simp: v4_ok_def)
  show ?thesis
  proof (cases d)
    case None
    then show ?thesis using run c ok
      by (auto simp: v4_clear_def v4_ok_def v4_size_per_rank_def v4_pages_per_rank_def v4_swa_pages_per_rank_def)
  next
    case (Some r)
    then obtain R where R: "v4_rank_at r a = Inr R" using run by (auto simp: v4_clear_def rbind_eq_Inr_iff)
    have "R \<in> set (v4_ranks a)" using v4_rank_at_InrD [OF ok R] ok by (simp add: v4_ok_def)
    then have "v4_ok (v4_set_rank r (v4_clear_rank a R) a)" using v4_ok_set_rank [OF ok c] by blast
    then show ?thesis using Some R run by (auto simp: v4_clear_def)
  qed
qed

lemma map_m_length: "map_m f xs = Inr ys \<Longrightarrow> length ys = length xs"
  by (induction xs arbitrary: ys) (auto simp: rbind_eq_Inr_iff)

lemma map_m_zip:
  assumes "map_m f xs = Inr ys" "(y, x) \<in> set (zip ys xs)"
  shows "f x = Inr y" "x \<in> set xs"
  using assms by (induction xs arbitrary: ys) (auto simp: rbind_eq_Inr_iff)

lemma v4_group_end_ok:
  assumes ok: "v4_ok a" and run: "v4_free_group_end a = Inr b"
  shows "v4_ok b"
proof -
  let ?p = "v4_page_size a"
  obtain gss where m: "map_m (\<lambda>R. v4_release_pages (concat (v4_group R)) False ?p R) (v4_ranks a) = Inr gss"
    and b: "b = a\<lparr>v4_outside := True, v4_ranks := map (\<lambda>(ps, R). (free_full_pages ?p ps R)\<lparr>v4_group := []\<rparr>) (zip gss (v4_ranks a))\<rparr>"
    using run by (auto simp: v4_free_group_end_def rbind_eq_Inr_iff)
  have "length gss = length (v4_ranks a)" using m by (rule map_m_length)
  moreover have "v4_inv ?p (v4_pages_per_rank a) (v4_swa_pages_per_rank a) (free_full_pages ?p gs R) {} {}
      \<and> length (v4_map (free_full_pages ?p gs R)) = v4_size_per_rank a + ?p" if "(gs, R) \<in> set (zip gss (v4_ranks a))" for gs R
    using map_m_zip [OF m that] ok v4_free_full_ok(1) by (auto simp: v4_ok_def free_full_pages_length)
  ultimately show ?thesis using ok
    by (auto simp: b v4_ok_def v4_size_per_rank_def v4_pages_per_rank_def v4_swa_pages_per_rank_def)
qed

lemma v4_call_ok:
  assumes ok: "v4_ok a" and run: "v4_call opn a = Inr b"
  shows "v4_ok b"
proof -
  have e: "v4_ok c" if "map_sum id snd (v4_alloc_extend pre sq tails n d a) = Inr c" for pre sq tails n d c
    using that v4_extend_ok [OF ok] by (cases "v4_alloc_extend pre sq tails n d a") auto
  show ?thesis
    using run ok by (cases opn) (auto simp: v4_alloc_decode_def v4_alloc_def v4_free_group_begin_def split: if_splits
        intro: e v4_free_ok v4_free_swa_ok v4_clear_ok v4_group_end_ok)
qed

lemma v4_run_ok: "v4_ok a \<Longrightarrow> v4_ok (fold v4_step ops a)"
  by (induction ops arbitrary: a) (auto simp: v4_step_def split: sum.splits dest: v4_call_ok)


lemma v4_inv_counts:
  assumes "v4_inv p N M R {} {}"
  shows "length (v4_free R) + card {g. 1 \<le> g \<and> g \<le> N \<and> v4_ends R ! g \<noteq> 0} = N"
    "length (v4_swa_free R) + card {g. 1 \<le> g \<and> g \<le> N \<and> v4_swa_page R ! g \<noteq> 0} = M"
proof -
  have f: "distinct (v4_free R)" "set (v4_free R) = {g. 1 \<le> g \<and> g \<le> N \<and> v4_ends R ! g = 0}" and s: "swa_ok N M R {}"
    using assms by (auto simp: v4_inv_def free_ok_def)
  have "{1..N} = {g. 1 \<le> g \<and> g \<le> N \<and> v4_ends R ! g = 0} \<union> {g. 1 \<le> g \<and> g \<le> N \<and> v4_ends R ! g \<noteq> 0}" by auto
  then have "card {1..N} = card {g. 1 \<le> g \<and> g \<le> N \<and> v4_ends R ! g = 0} + card {g. 1 \<le> g \<and> g \<le> N \<and> v4_ends R ! g \<noteq> 0}"
    by (simp only:) (rule card_Un_disjoint; auto)
  then show "length (v4_free R) + card {g. 1 \<le> g \<and> g \<le> N \<and> v4_ends R ! g \<noteq> 0} = N" using distinct_card [OF f(1)] f(2) by simp
  let ?G = "{g. 1 \<le> g \<and> g \<le> N \<and> v4_swa_page R ! g \<noteq> 0}" and ?V = "{v4_swa_page R ! g |g. 1 \<le> g \<and> g \<le> N}"
  have inj: "inj_on ((!) (v4_swa_page R)) ?G" and le: "(!) (v4_swa_page R) ` ?G \<subseteq> {1..M}"
    and sf: "distinct (v4_swa_free R)" "set (v4_swa_free R) = {1..M} - ?V"
    using s unfolding swa_ok_def by (auto intro!: inj_onI simp: Suc_le_eq)
  have "{1..M} - ?V = {1..M} - (!) (v4_swa_page R) ` ?G" by force
  then have "length (v4_swa_free R) = card {1..M} - card ((!) (v4_swa_page R) ` ?G)"
    using distinct_card [OF sf(1)] sf(2) card_Diff_subset [OF _ le] by (metis finite_atLeastAtMost finite_subset le)
  moreover have "card ((!) (v4_swa_page R) ` ?G) \<le> M" using card_mono [OF _ le] by simp
  ultimately show "length (v4_swa_free R) + card ?G = M" using card_image [OF inj] by simp
qed

text \<open>C12. Whatever sequence of calls a client makes on a fresh DeepSeek V4 allocator, rejected calls included, the ledger stays consistent on every rank:
  each history page is free or holds tokens, each window page is free or serves exactly one history page, a slot maps to the same offset of the
  window page of its page, the live counts are exact, and no page of either pool is lost.\<close>

theorem v4_run_conserves:
  assumes "v4_init n_full n_swa p dp = Inr a0"
  shows "let a = fold v4_step ops a0; N = v4_pages_per_rank a; M = v4_swa_pages_per_rank a in v4_ok a \<and>
    (\<forall>R\<in>set (v4_ranks a). length (v4_free R) + card {g. 1 \<le> g \<and> g \<le> N \<and> v4_ends R ! g \<noteq> 0} = N
       \<and> length (v4_swa_free R) + card {g. 1 \<le> g \<and> g \<le> N \<and> v4_swa_page R ! g \<noteq> 0} = M)"
proof -
  have "v4_ok (fold v4_step ops a0)" using v4_run_ok v4_init_ok(1) [OF assms] .
  then show ?thesis unfolding Let_def v4_ok_def using v4_inv_counts by blast
qed

definition v4_small :: v4_allocator where
  "v4_small = (case v4_init 12 12 4 1 of Inr a \<Rightarrow> a)"

definition v4_used :: v4_allocator where
  "v4_used = fold v4_step [V4_Extend [0] [6] [-1] 6 0] v4_small"

lemma v4_small: "v4_init 12 12 4 1 = Inr v4_small" "v4_dp_size v4_small = 1" "v4_dp_size v4_used = 1" "v4_outside v4_used"
  "v4_page_size v4_used = 4" "v4_size_per_rank v4_used = 12"
  by code_simp+

lemma v4_small_ok: "v4_ok v4_small" "v4_ok v4_used"
  using v4_init_ok(1) [OF v4_small(1)] v4_run_ok [of v4_small] unfolding v4_used_def by blast+

theorem v4_run_conserves_witness:
  "v4_init 12 12 4 1 = Inr v4_small \<and> v4_ok (fold v4_step [V4_Extend [0] [6] [-1] 6 0, V4_Free_Swa [4, 5, 6, 7] 0, V4_Free [4] 0, V4_Decode [7] [9] 0] v4_small)
   \<and> map v4_swa_free (v4_ranks (fold v4_step [V4_Extend [0] [6] [-1] 6 0, V4_Free_Swa [4, 5, 6, 7] 0, V4_Free [4] 0, V4_Decode [7] [9] 0] v4_small)) = [[1, 3]]"
proof (intro conjI)
  show "v4_ok (fold v4_step [V4_Extend [0] [6] [-1] 6 0, V4_Free_Swa [4, 5, 6, 7] 0, V4_Free [4] 0, V4_Decode [7] [9] 0] v4_small)"
    using v4_run_conserves [OF v4_small(1)] unfolding Let_def by blast
  show "map v4_swa_free (v4_ranks (fold v4_step [V4_Extend [0] [6] [-1] 6 0, V4_Free_Swa [4, 5, 6, 7] 0, V4_Free [4] 0, V4_Decode [7] [9] 0] v4_small)) = [[1, 3]]"
    by code_simp
qed (rule v4_small(1))

theorem v4_alloc_extend_correct_witness:
  "\<exists>R'. v4_alloc_extend [6] [9] [9] 3 0 v4_used = Inr (Some [10, 11, 12], v4_set_rank 0 R' v4_used)
     \<and> v4_slots 4 3 R' = v4_slots 4 3 (v4_ranks v4_used ! 0) \<union> {10, 11, 12}
     \<and> v4_alloc_extend [6] [9] [8] 3 0 v4_used = Inl ValueError \<and> v4_alloc_extend [6] [13] [9] 7 0 v4_used = Inr (None, v4_used)"
proof -
  have d: "(0 :: int) \<le> 0" "(0 :: int) < int (v4_dp_size v4_used)" by (simp_all add: v4_small)
  note t = v4_alloc_extend_correct [OF v4_small_ok(2) d]
  have e: "estimate_extend [6] [9] [9] 3 0 v4_used = Inr \<lparr>history_pages = 1, swa_pages = 1, demand_page_size = 4\<rparr>"
    "estimate_extend [6] [9] [8] 3 0 v4_used = Inl ValueError"
    "estimate_extend [6] [13] [9] 7 0 v4_used = Inr \<lparr>history_pages = 2, swa_pages = 2, demand_page_size = 4\<rparr>"
    "map_sum id fst (v4_alloc_extend [6] [9] [9] 3 0 v4_used) = Inr (Some [10, 11, 12])"
    "length (v4_free (v4_ranks v4_used ! 0)) = 1" "length (v4_swa_free (v4_ranks v4_used ! 0)) = 1" "v4_pages_per_rank v4_used = 3"
    by code_simp+
  obtain out R' where o: "v4_alloc_extend [6] [9] [9] 3 0 v4_used = Inr (Some out, v4_set_rank 0 R' v4_used)"
    "v4_slots 4 3 R' = v4_slots 4 3 (v4_ranks v4_used ! 0) \<union> set out"
    using t [of "[6]" "[9]" "[9]" 3] by (auto simp: e v4_small extends_rank_def)
  have "out = [10, 11, 12]" using o(1) e(4) by simp
  then show ?thesis using o t [of "[6]" "[9]" "[8]" 3] t [of "[6]" "[13]" "[9]" 7] by (auto simp: e)
qed

theorem v4_free_correct_witness:
  "(\<exists>R'. v4_free_idx [9, 8, 4, 5, 6, 7] 0 v4_used = Inr (v4_set_rank 0 R' v4_used) \<and> v4_slots 4 3 R' = v4_slots 4 3 (v4_ranks v4_used ! 0) - {4, 5, 6, 7, 8, 9})
   \<and> v4_free_idx [4, 5, 6] 0 v4_used = Inl ValueError \<and> \<not> whole_release 4 3 (v4_ranks v4_used ! 0) [4, 5, 6]"
proof -
  have d: "(0 :: int) \<le> 0" "(0 :: int) < int (v4_dp_size v4_used)" "v4_page_size v4_used dvd v4_size_per_rank v4_used" by (simp_all add: v4_small)
  note t = v4_free_correct [OF v4_small_ok(2) d(1,2) v4_small(4) d(3)]
  have N: "v4_pages_per_rank v4_used = 3" by code_simp
  have e: "map_sum id (\<lambda>_. ()) (v4_free_idx [9, 8, 4, 5, 6, 7] 0 v4_used) = Inr ()" "v4_free_idx [4, 5, 6] 0 v4_used = Inl ValueError"
    by code_simp+
  have "v4_free_idx [9, 8, 4, 5, 6, 7] 0 v4_used \<noteq> Inl ValueError" using e(1) by auto
  then obtain R' where r: "v4_free_idx [9, 8, 4, 5, 6, 7] 0 v4_used = Inr (v4_set_rank 0 R' v4_used)"
    "v4_slots 4 3 R' = v4_slots 4 3 (v4_ranks v4_used ! 0) - nat ` set [9, 8, 4, 5, 6, 7]"
    using t [of "[9, 8, 4, 5, 6, 7]"] by (auto simp: N v4_small split: if_splits)
  moreover have "nat ` set [9, 8, 4, 5, 6, 7] = {4, 5, 6, 7, 8, 9}" by auto
  ultimately show ?thesis using t [of "[4, 5, 6]"] e(2) by (auto simp: N v4_small split: if_splits)
qed

section \<open>Demand of a decoding step\<close>

lemma plan_new_none: "plan_new p 0 n = ([], n)"
  by (simp add: plan_new.simps [of p 0])

lemma plan_new_one: "0 < p \<Longrightarrow> plan_new p (Suc 0) n = ([(- int (Suc n), 0, 1)], Suc n)"
  by (subst plan_new.simps) (simp add: plan_new_none min_def)

lemma length_filter_zip: "length xs = length ys \<Longrightarrow> length (filter (\<lambda>(x, y). P x) (zip xs ys)) = length (filter P xs)"
  by (induction xs ys rule: list_induct2) auto

text \<open>One decoding request adds one segment, on a new page exactly when its page is full.\<close>

lemma plan_seq_decode:
  assumes p: "0 < p" and run: "plan_seq p N R (s - 1, s, t) (segs, n, seen) = Inr (segs', n', seen')"
  shows "\<exists>seg. segs' = segs @ [seg] \<and> (fst seg < 0 \<longleftrightarrow> (s - 1) mod int p = 0) \<and> n' = n + (if (s - 1) mod int p = 0 then 1 else 0)"
proof (cases "(s - 1) mod int p = 0")
  case True
  then show ?thesis using run plan_new_one [OF p, of n] by (auto simp: plan_seq_def Let_def split: if_splits)
next
  case False
  let ?u = "nat ((s - 1) mod int p)"
  have "?u < p" using p by (simp add: nat_less_iff)
  moreover have "0 \<le> (s - 1) mod int p" using p by simp
  then have "?u \<noteq> 0" using False by linarith
  moreover have "s - 1 \<noteq> 0" using False by auto
  ultimately show ?thesis using run False plan_new_none [of p n]
    by (auto simp: plan_seq_def Let_def min_def split: if_splits)
qed

lemma plan_decode_batch:
  assumes "0 < p" "for_m (plan_seq p N R) (map (\<lambda>(s, t). (s - 1, s, t)) qs) (segs, n, seen) = Inr (segs', n', seen')"
  shows "\<exists>new. segs' = segs @ new \<and> length new = length qs \<and> n' = n + length (filter (\<lambda>(s, t). (s - 1) mod int p = 0) qs)
    \<and> length (filter (\<lambda>seg. fst seg < 0) new) = length (filter (\<lambda>(s, t). (s - 1) mod int p = 0) qs)"
  using assms(2)
proof (induction qs arbitrary: segs n seen)
  case (Cons q qs)
  obtain s t where q: "q = (s, t)" by (cases q)
  obtain segs1 n1 seen1 where st: "plan_seq p N R (s - 1, s, t) (segs, n, seen) = Inr (segs1, n1, seen1)"
    and rest: "for_m (plan_seq p N R) (map (\<lambda>(s, t). (s - 1, s, t)) qs) (segs1, n1, seen1) = Inr (segs', n', seen')"
    using Cons.prems by (auto simp: q rbind_eq_Inr_iff)
  show ?case using plan_seq_decode [OF assms(1) st] Cons.IH [OF rest] by (auto simp: q)
qed simp

text \<open>A decoding step of the DeepSeek V4 allocator demands exactly one history page for each request whose tokens fill their pages, and for each
  request at most one window page, which every new history page needs.\<close>

theorem v4_decode_demand:
  assumes "v4_ok a" "estimate_decode sq tails d a = Inr dem"
  shows "history_pages dem = length (filter (\<lambda>s. (s - 1) mod int (v4_page_size a) = 0) sq)
    \<and> history_pages dem \<le> swa_pages dem \<and> swa_pages dem \<le> length sq"
proof -
  let ?p = "v4_page_size a" and ?pre = "map (\<lambda>x. x - 1) sq"
  obtain R segs where plan: "v4_plan ?pre sq tails (int (length sq)) ?p (v4_pages_per_rank a) R = Inr (dem, segs)"
    using assms(2) by (auto simp: estimate_decode_def estimate_extend_def rbind_eq_Inr_iff)
  have p: "0 < ?p" using assms(1) by (simp add: v4_ok_def)
  have len: "length sq = length tails" using plan by (auto simp: v4_plan_def split: if_splits)
  note flt = length_filter_zip [OF len, of "\<lambda>s. (s - 1) mod int ?p = 0"]
  have z: "zip ?pre (zip sq tails) = map (\<lambda>(s, t). (s - 1, s, t)) (zip sq tails)"
    using len by (simp add: list_eq_iff_nth_eq)
  obtain n seen where f: "for_m (plan_seq ?p (v4_pages_per_rank a) R) (map (\<lambda>(s, t). (s - 1, s, t)) (zip sq tails)) ([], 0, {}) = Inr (segs, n, seen)"
    and dem: "history_pages dem = n" "swa_pages dem = length (filter (needs_swa R) segs)"
    using plan unfolding z [symmetric] by (auto simp: v4_plan_def rbind_eq_Inr_iff split: if_splits)
  have neg: "filter (\<lambda>seg. fst seg < 0) segs = filter (\<lambda>seg. fst seg < 0) (filter (needs_swa R) segs)"
    by (auto simp: needs_swa_def intro: filter_cong)
  have "n = length (filter (\<lambda>s. (s - 1) mod int ?p = 0) sq)" "length segs = length sq" "length (filter (\<lambda>seg. fst seg < 0) segs) = n"
    using plan_decode_batch [OF p f] len flt by auto
  then show ?thesis using dem length_filter_le [of "needs_swa R" segs] neg length_filter_le [of "\<lambda>seg. fst seg < 0" "filter (needs_swa R) segs"] by simp
qed

theorem v4_decode_demand_witness:
  "estimate_decode [7] [9] 0 v4_used = Inr \<lparr>history_pages = 0, swa_pages = 0, demand_page_size = 4\<rparr>
   \<and> (0 :: nat) = length (filter (\<lambda>s. (s - 1) mod int (v4_page_size v4_used) = 0) [7])"
proof
  show e: "estimate_decode [7] [9] 0 v4_used = Inr \<lparr>history_pages = 0, swa_pages = 0, demand_page_size = 4\<rparr>" by code_simp
  show "(0 :: nat) = length (filter (\<lambda>s. (s - 1) mod int (v4_page_size v4_used) = 0) [7])"
    using v4_decode_demand [OF v4_small_ok(2) e] by simp
qed

end
