(* ===== verification/Chunk_Cache.thy ===== *)
theory Chunk_Cache
  imports Kv_Release V4_Client
begin

text \<open>
  \<open>mem_cache/chunk_cache.py\<close>: the cache without a tree, which serves when prefix caching is off, in its plain form
  and in the one for DeepSeek V4, where the window slots that no later query reads are reclaimed while the
  request runs (\<open>reclaim_completed_v4_swa\<close> of \<open>mem_cache/common.py\<close>). Its \<open>reset\<close>, \<open>evict\<close>, \<open>inc_lock_ref\<close> and
  \<open>dec_lock_ref\<close> do nothing.
\<close>

section \<open>The cache without a tree\<close>

datatype any_allocator = Plain_Alloc sub_allocator | Hybrid_Alloc swa_allocator | V4_Pool v4_allocator

fun any_free :: "int list \<Rightarrow> nat \<Rightarrow> any_allocator \<Rightarrow> any_allocator result" where
  "any_free xs d (Plain_Alloc a) = rbind (sub_free xs d a) (\<lambda>a. Inr (Plain_Alloc a))"
| "any_free xs d (Hybrid_Alloc a) = rbind (swa_free xs d a) (\<lambda>a. Inr (Hybrid_Alloc a))"
| "any_free xs d (V4_Pool a) = rbind (v4_free_idx xs (int d) a) (\<lambda>a. Inr (V4_Pool a))"

fun any_free_swa :: "int list \<Rightarrow> nat \<Rightarrow> any_allocator \<Rightarrow> any_allocator result" where
  "any_free_swa xs d (Plain_Alloc a) = Inl AttributeError"
| "any_free_swa xs d (Hybrid_Alloc a) = rbind (free_swa xs d a) (\<lambda>a. Inr (Hybrid_Alloc a))"
| "any_free_swa xs d (V4_Pool a) = rbind (v4_free_swa xs (int d) a) (\<lambda>a. Inr (V4_Pool a))"

record chunk_cache =
  ck_pool :: req_pool
  ck_alloc :: any_allocator
  ck_page_size :: nat
  ck_window :: int

definition chunk_finished_req :: "cache_req \<Rightarrow> chunk_cache \<Rightarrow> (cache_req \<times> chunk_cache) result" where
  "chunk_finished_req r0 K =
     (case pop_committed_kv_cache r0 of (n, r) \<Rightarrow>
      rbind (req_read r n (ck_pool K)) (\<lambda>kv.
      rbind (any_free kv (req_rank r) (ck_alloc K)) (\<lambda>a. Inr (r, K\<lparr>ck_alloc := a\<rparr>))))"

definition chunk_unfinished_req :: "cache_req \<Rightarrow> chunk_cache \<Rightarrow> cache_req result" where
  "chunk_unfinished_req r K =
     rbind (req_read r (int (length (rq_fill_ids r))) (ck_pool K)) (\<lambda>kv. Inr (r\<lparr>rq_prefix := kv\<rparr>))"

definition v4_match_prefix :: "cache_req option \<Rightarrow> chunk_cache \<Rightarrow> int list result" where
  "v4_match_prefix req K = (case req of None \<Rightarrow> Inr []
     | Some r \<Rightarrow> (case rq_pool_idx r of None \<Rightarrow> Inr [] | Some i \<Rightarrow> pool_read (int i) (rq_committed_len r) (ck_pool K)))"

definition v4_unfinished_req :: "cache_req \<Rightarrow> chunk_cache \<Rightarrow> cache_req result" where
  "v4_unfinished_req r K = rbind (req_read r (rq_committed_len r) (ck_pool K)) (\<lambda>kv. Inr (r\<lparr>rq_prefix := kv\<rparr>))"

definition v4_release_req :: "cache_req \<Rightarrow> chunk_cache \<Rightarrow> (cache_req \<times> chunk_cache) result" where
  "v4_release_req r K = (case rq_pool_idx r of None \<Rightarrow> Inr (r, K)
     | Some i \<Rightarrow>
         rbind (pool_read (int i) (rq_allocated_len r) (ck_pool K)) (\<lambda>kv.
         rbind (any_free (nonzero kv) (req_rank r) (ck_alloc K)) (\<lambda>a.
         rbind (np_get (rp_table (ck_pool K)) (int i)) (\<lambda>row.
         let r1 = r\<lparr>rq_prefix := [], rq_last_node := None, rq_protected_len := 0, rq_committed_freed := True,
                    rq_over_freed := True, rq_committed_len := 0, rq_allocated_len := 0, rq_swa_evicted := 0\<rparr>;
             P1 = (ck_pool K)\<lparr>rp_table := (rp_table (ck_pool K))[i := replicate (length row) 0]\<rparr> in
         rbind (pool_free r1 P1) (\<lambda>(r2, P2). Inr (r2, K\<lparr>ck_alloc := a, ck_pool := P2\<rparr>))))))"

text \<open>\<open>reclaim_completed_v4_swa\<close>, on a V4 cache.\<close>

definition reclaim_completed_v4_swa :: "cache_req \<Rightarrow> chunk_cache \<Rightarrow> (cache_req \<times> chunk_cache) result" where
  "reclaim_completed_v4_swa r K = (case rq_pool_idx r of None \<Rightarrow> Inr (r, K)
     | Some i \<Rightarrow>
         let e0 = max 0 (rq_committed_len r - ck_window K + 1) in
         if ck_page_size K = 0 then Inl ZeroDivisionError
         else let e = e0 div int (ck_page_size K) * int (ck_page_size K) in
           if e \<le> rq_swa_evicted r then Inr (r, K)
           else rbind (np_get (rp_table (ck_pool K)) (int i)) (\<lambda>row.
             rbind (any_free_swa (py_slice row (rq_swa_evicted r) e) (req_rank r) (ck_alloc K)) (\<lambda>a.
               Inr (r\<lparr>rq_swa_evicted := e\<rparr>, K\<lparr>ck_alloc := a\<rparr>))))"

section \<open>The window of the next query\<close>

text \<open>Where the reclaimed part ends: the last page boundary before the window of the next query.\<close>

definition reclaim_end :: "cache_req \<Rightarrow> chunk_cache \<Rightarrow> int" where
  "reclaim_end r K = max 0 (rq_committed_len r - ck_window K + 1) div int (ck_page_size K) * int (ck_page_size K)"

lemma reclaim_end_bounds:
  assumes "0 < ck_page_size K"
  shows "0 \<le> reclaim_end r K" "reclaim_end r K \<le> max 0 (rq_committed_len r - ck_window K + 1)"
    "max 0 (rq_committed_len r - ck_window K + 1) - reclaim_end r K < int (ck_page_size K)"
proof -
  let ?e = "max 0 (rq_committed_len r - ck_window K + 1)" and ?p = "int (ck_page_size K)"
  have p: "0 < ?p" using assms by simp
  have e: "?e = reclaim_end r K + ?e mod ?p" unfolding reclaim_end_def by simp
  have "0 \<le> ?e mod ?p" "?e mod ?p < ?p" using p by simp_all
  then show "reclaim_end r K \<le> ?e" "?e - reclaim_end r K < ?p" using e by linarith+
  show "0 \<le> reclaim_end r K" unfolding reclaim_end_def using p by (simp add: pos_imp_zdiv_nonneg_iff)
qed

lemma reclaim_idle:
  assumes "rq_pool_idx r = Some i" "0 < ck_page_size K" "reclaim_end r K \<le> rq_swa_evicted r"
  shows "reclaim_completed_v4_swa r K = Inr (r, K)"
  using assms by (simp add: reclaim_completed_v4_swa_def Let_def reclaim_end_def [symmetric])

end
