(* ===== verification/V4_Request.thy ===== *)
theory V4_Request
  imports Chunk_Cache
begin

text \<open>
  The life of a request under DeepSeek V4: its extent grows by \<open>alloc_extend\<close>, the pages before its window are reclaimed
  while it runs, and its release gives everything back.
\<close>

section \<open>Accepted releases\<close>

lemma covered_swa:
  assumes ok: "pages_ok p N R" and g: "1 \<le> g" "g \<le> N" and us: "distinct us"
    and cov: "\<forall>k<p. v4_map R ! (g * p + k) \<noteq> 0 \<longrightarrow> g * p + k \<in> set us"
  shows "covered p True R us g = Inr ()"
proof -
  note d = pages_okD [OF ok]
  let ?F = "filter (\<lambda>i. v4_map R ! i \<noteq> 0) (filter (\<lambda>i. i div p = g) us)"
  have "set ?F = (\<lambda>k. g * p + k) ` {k. k < p \<and> v4_map R ! (g * p + k) \<noteq> 0}"
  proof (intro equalityI subsetI)
    fix i assume "i \<in> set ?F"
    then have i: "v4_map R ! i \<noteq> 0" "g * p \<le> i" "i < g * p + p" using page_div [OF d(1), of i g] by auto
    then show "i \<in> (\<lambda>k. g * p + k) ` {k. k < p \<and> v4_map R ! (g * p + k) \<noteq> 0}" by (intro rev_image_eqI [of "i - g * p"]) auto
  qed (use cov in auto)
  then have "length ?F = card {k. k < p \<and> v4_map R ! (g * p + k) \<noteq> 0}"
    using us by (metis (no_types, lifting) card_image distinct_card distinct_filter inj_on_add)
  then show ?thesis using d(4,9) g by (simp add: covered_def raise_unless_def)
qed

lemma release_accepts:
  assumes ok: "pages_ok p N R" and rng: "\<forall>i\<in>set idx. int p \<le> i \<and> nat i div p \<le> N"
    and cov: "\<forall>g\<in>(\<lambda>i. nat i div p) ` set idx. if b then \<forall>k<p. v4_map R ! (g * p + k) \<noteq> 0 \<longrightarrow> int (g * p + k) \<in> set idx
       else \<forall>k<v4_ends R ! g. int (g * p + k) \<in> set idx"
  shows "v4_release_pages idx b p R = Inr (touched_pages p idx)" "\<forall>g\<in>set (touched_pages p idx). 1 \<le> g \<and> g \<le> N"
proof -
  note d = pages_okD [OF ok]
  let ?us = "map nat (sort (remdups idx))"
  have pos: "0 \<le> i" "p \<le> nat i" if "i \<in> set idx" for i using rng that by (metis of_nat_0_le_iff order_trans) (use rng that in force)
  have us: "distinct ?us" using pos(1) by (auto simp: distinct_map intro!: inj_onI) (metis int_nat_eq)
  have us2: "s \<in> set ?us" if "int s \<in> set idx" for s using that by (force intro: rev_image_eqI)
  show t: "\<forall>g\<in>set (touched_pages p idx). 1 \<le> g \<and> g \<le> N"
    unfolding touched_pages_set using rng pos(2) d(1) by (auto simp: Suc_le_eq div_greater_zero_iff)
  have c: "covered p b R ?us g = Inr ()" if g: "g \<in> set (touched_pages p idx)" for g
  proof (cases b)
    case True
    then show ?thesis using covered_swa [OF ok _ _ us, of g] t g cov us2 unfolding touched_pages_set by auto
  next
    case False
    have "{g * p..<g * p + v4_ends R ! g} \<subseteq> set ?us"
    proof
      fix s assume "s \<in> {g * p..<g * p + v4_ends R ! g}"
      then have "s = g * p + (s - g * p)" "s - g * p < v4_ends R ! g" by auto
      then have "int s \<in> set idx" using cov g False unfolding touched_pages_set by metis
      then show "s \<in> set ?us" by (rule us2)
    qed
    then show ?thesis using covered_full [OF us _ d(2), of g] t g d(1,6) False by auto
  qed
  have "i < int (length (v4_map R))" if i: "i \<in> set idx" for i
  proof -
    have "nat i div p < Suc N" using rng i by (simp add: less_Suc_eq_le)
    then have "nat i < Suc N * p" using div_less_iff_less_mult [OF d(1)] by blast
    then show ?thesis using d(5) pos(1) [OF i] by linarith
  qed
  then have "\<not> list_ex (\<lambda>i. i < int p \<or> int (length (v4_map R)) \<le> i) idx" using rng by (fastforce simp: list_ex_iff)
  then show "v4_release_pages idx b p R = Inr (touched_pages p idx)"
    using map_m_total [where f = "covered p b R ?us" and g = "\<lambda>_. ()", OF c] by (simp add: v4_release_pages_def Let_def)
qed

section \<open>The extent of a request\<close>

text \<open>Token \<open>j\<close> lies at its offset in the page of its block of tokens; these pages hold nothing else.\<close>

definition extent :: "nat \<Rightarrow> nat list \<Rightarrow> nat \<Rightarrow> nat list" where
  "extent p pages n = map (\<lambda>j. pages ! (j div p) * p + j mod p) [0..<n]"

definition owns :: "nat \<Rightarrow> nat \<Rightarrow> v4_rank \<Rightarrow> nat list \<Rightarrow> nat \<Rightarrow> bool" where
  "owns p N R pages n \<longleftrightarrow> distinct pages \<and> set pages \<subseteq> {1..N} \<and> n \<le> length pages * p \<and> (\<forall>k<length pages. k * p < n)
     \<and> {s \<in> v4_slots p N R. s div p \<in> set pages} = set (extent p pages n)"

lemma extent_nth: "j < n \<Longrightarrow> extent p pages n ! j = pages ! (j div p) * p + j mod p" and extent_length [simp]: "length (extent p pages n) = n"
  by (simp_all add: extent_def)

lemma owns_block:
  assumes "owns p N R pages n" "0 < p" "j < n"
  shows "j div p < length pages" "pages ! (j div p) \<in> {1..N}"
proof -
  show k: "j div p < length pages" using assms by (auto simp: owns_def div_less_iff_less_mult)
  then show "pages ! (j div p) \<in> {1..N}" using assms(1) nth_mem [OF k] unfolding owns_def by blast
qed

text \<open>The blocks of a request are its pages: a slot of page \<open>k\<close> is a token of block \<open>k\<close>.\<close>

lemma extent_in_page:
  assumes "owns p N R pages n" "0 < p" "x \<in> set (extent p pages n)" "k < length pages" "x div p = pages ! k"
  shows "k * p + x mod p < n" "x = extent p pages n ! (k * p + x mod p)"
proof -
  obtain j where j: "j < n" "x = pages ! (j div p) * p + j mod p" using assms(3) by (auto simp: extent_def)
  have "pages ! (j div p) = pages ! k" using assms(2,5) j(2) by simp
  then have "j div p = k" using assms(1,4) owns_block(1) [OF assms(1,2) j(1)] by (simp add: owns_def nth_eq_iff_index_eq)
  moreover have "x mod p = j mod p" using j(2) assms(2) by simp
  ultimately have "k * p + x mod p = j" using div_mult_mod_eq [of j p] by simp
  then show "k * p + x mod p < n" "x = extent p pages n ! (k * p + x mod p)" using j by (simp_all add: extent_nth)
qed

lemma extent_distinct:
  assumes "owns p N R pages n" "0 < p"
  shows "distinct (extent p pages n)"
  unfolding extent_def distinct_map
proof (intro conjI inj_onI distinct_upt)
  fix i j assume ij: "i \<in> set [0..<n]" "j \<in> set [0..<n]" "pages ! (i div p) * p + i mod p = pages ! (j div p) * p + j mod p"
  have e: "pages ! (i div p) = pages ! (j div p)" "i mod p = j mod p" using page_index [OF ij(3)] assms(2) by simp_all
  have "i div p = j div p" using e(1) assms(1) owns_block(1) [OF assms] ij(1,2) by (simp add: owns_def nth_eq_iff_index_eq)
  then show "i = j" using e(2) by (metis div_mult_mod_eq)
qed

text \<open>The tail of a request is what \<open>_plan\<close> checks for.\<close>

lemma owns_tail:
  assumes o: "owns p N R pages n" and ok: "pages_ok p N R" and n: "0 < n"
  shows "v4_ends R ! (pages ! ((n - 1) div p)) = (n - 1) mod p + 1"
proof -
  note d = pages_okD [OF ok]
  let ?k = "(n - 1) div p" and ?g = "pages ! ((n - 1) div p)"
  have k: "?k < length pages" "1 \<le> ?g" "?g \<le> N" using owns_block [OF o d(1), of "n - 1"] n by auto
  have "{?g * p..<?g * p + v4_ends R ! ?g} = {s \<in> v4_slots p N R. s div p = ?g}" by (rule page_slots [OF ok k(2,3)])
  also have "\<dots> = {s \<in> set (extent p pages n). s div p = ?g}" using o k(1) nth_mem [OF k(1)] unfolding owns_def by auto
  also have "\<dots> = {?g * p..<?g * p + ((n - 1) mod p + 1)}"
  proof (intro equalityI subsetI)
    fix x assume x: "x \<in> {s \<in> set (extent p pages n). s div p = ?g}"
    then have "?k * p + x mod p < n" using extent_in_page(1) [OF o d(1) _ k(1)] by simp
    then have "x mod p \<le> (n - 1) mod p" using div_mult_mod_eq [of "n - 1" p] by linarith
    moreover have "?g * p + x mod p = x" using x div_mult_mod_eq [of x p] by simp
    ultimately show "x \<in> {?g * p..<?g * p + ((n - 1) mod p + 1)}" unfolding atLeastLessThan_iff by linarith
  next
    fix x assume x: "x \<in> {?g * p..<?g * p + ((n - 1) mod p + 1)}"
    define i where "i = x - ?g * p"
    have i: "x = ?g * p + i" "i \<le> (n - 1) mod p" using x by (auto simp: i_def)
    have ip: "i < p" using i(2) mod_less_divisor [OF d(1), of "n - 1"] by linarith
    have lt: "?k * p + i < n" using i(2) div_mult_mod_eq [of "n - 1" p] n by linarith
    have "extent p pages n ! (?k * p + i) = x" using lt ip i(1) by (simp add: extent_nth)
    then have "x \<in> set (extent p pages n)" using lt by (metis extent_length nth_mem)
    then show "x \<in> {s \<in> set (extent p pages n). s div p = ?g}" using i(1) ip by simp
  qed
  finally have "card {?g * p..<?g * p + v4_ends R ! ?g} = card {?g * p..<?g * p + ((n - 1) mod p + 1)}" by (rule arg_cong)
  then show ?thesis by simp
qed


section \<open>Reclaiming the window\<close>

text \<open>The tokens of some whole blocks of a request, and the pages they touch.\<close>

lemma extent_blocks:
  assumes o: "owns p N R pages n" and p: "0 < p" and le: "k1 * p \<le> n" "k0 \<le> k1"
  defines "xs \<equiv> drop (k0 * p) (take (k1 * p) (map int (extent p pages n)))"
  shows "x \<in> set xs \<longleftrightarrow> (\<exists>j. k0 * p \<le> j \<and> j < k1 * p \<and> x = int (extent p pages n ! j))"
    "(\<lambda>i. nat i div p) ` set xs = {pages ! k |k. k0 \<le> k \<and> k < k1}"
proof -
  have kp: "k0 * p \<le> k1 * p" using le(2) by simp
  show mem: "x \<in> set xs \<longleftrightarrow> (\<exists>j. k0 * p \<le> j \<and> j < k1 * p \<and> x = int (extent p pages n ! j))" for x
  proof
    assume "x \<in> set xs"
    then obtain i where i: "i < length xs" "xs ! i = x" by (auto simp: in_set_conv_nth)
    then have "k0 * p + i < k1 * p" "x = int (extent p pages n ! (k0 * p + i))" using le(1) kp by (auto simp: xs_def)
    then show "\<exists>j. k0 * p \<le> j \<and> j < k1 * p \<and> x = int (extent p pages n ! j)" by (intro exI [of _ "k0 * p + i"]) simp
  next
    assume "\<exists>j. k0 * p \<le> j \<and> j < k1 * p \<and> x = int (extent p pages n ! j)"
    then obtain j where j: "k0 * p \<le> j" "j < k1 * p" "x = int (extent p pages n ! j)" by blast
    then have "j - k0 * p < length xs" "xs ! (j - k0 * p) = x" using le(1) kp by (auto simp: xs_def)
    then show "x \<in> set xs" by (metis nth_mem)
  qed
  have blk: "int (extent p pages n ! j) \<in> set xs" "nat (int (extent p pages n ! j)) div p = pages ! (j div p)" if "k0 * p \<le> j" "j < k1 * p" for j
  proof -
    show "int (extent p pages n ! j) \<in> set xs" using that mem by blast
    have "extent p pages n ! j div p = pages ! (j div p)" using that le p by (simp add: extent_nth)
    then show "nat (int (extent p pages n ! j)) div p = pages ! (j div p)" by (simp only: nat_int)
  qed
  show "(\<lambda>i. nat i div p) ` set xs = {pages ! k |k. k0 \<le> k \<and> k < k1}"
  proof (intro equalityI subsetI)
    fix g assume "g \<in> (\<lambda>i. nat i div p) ` set xs"
    then obtain j where j: "k0 * p \<le> j" "j < k1 * p" "g = pages ! (j div p)" using mem blk(2) by auto
    then show "g \<in> {pages ! k |k. k0 \<le> k \<and> k < k1}" using p by (auto simp: div_less_iff_less_mult less_eq_div_iff_mult_less_eq)
  next
    fix g assume "g \<in> {pages ! k |k. k0 \<le> k \<and> k < k1}"
    then obtain k where k: "g = pages ! k" "k0 \<le> k" "k < k1" by blast
    then have "k0 * p \<le> k * p" "k * p < k1 * p" using p by simp_all
    note bk = blk [OF this]
    have "g = nat (int (extent p pages n ! (k * p))) div p" using bk(2) k(1) p by simp
    then show "g \<in> (\<lambda>i. nat i div p) ` set xs" using bk(1) by (rule rev_image_eqI [rotated])
  qed
qed

lemma reclaim_blocks:
  assumes inv: "v4_inv p N M R {} {}" and o: "owns p N R pages n" and le: "k1 * p \<le> n" "k0 \<le> k1"
  defines "xs \<equiv> drop (k0 * p) (take (k1 * p) (map int (extent p pages n)))"
  defines "R' \<equiv> free_swa_pages p (touched_pages p xs) R"
  shows "v4_release_pages xs True p R = Inr (touched_pages p xs)" "v4_inv p N M R' {} {}" "v4_ends R' = v4_ends R"
    "s \<in> v4_slots p N R \<Longrightarrow> v4_map R' ! s = (if s \<in> nat ` set xs then 0 else v4_map R ! s)"
proof -
  have ok: "pages_ok p N R" using inv by (simp add: v4_inv_def)
  note d = pages_okD [OF ok]
  note b = extent_blocks [OF o d(1) le, folded xs_def]
  have k1: "k < length pages" if "k < k1" for k
  proof -
    have "k * p < n" using that le(1) d(1) by (metis mult_less_mono1 order_less_le_trans)
    then show ?thesis using owns_block(1) [OF o d(1), of "k * p"] d(1) by simp
  qed
  have pg: "1 \<le> g \<and> g \<le> N" if "g \<in> (\<lambda>i. nat i div p) ` set xs" for g
  proof -
    obtain k where "g = pages ! k" "k < k1" using \<open>g \<in> (\<lambda>i. nat i div p) ` set xs\<close> unfolding b(2) by blast
    then show ?thesis using nth_mem [OF k1] o unfolding owns_def by (metis atLeastAtMost_iff subsetD)
  qed
  have whole: "int s \<in> set xs" if sl: "s \<in> v4_slots p N R" and sd: "s div p \<in> (\<lambda>i. nat i div p) ` set xs" for s
  proof -
    obtain k where k: "s div p = pages ! k" "k0 \<le> k" "k < k1" using sd unfolding b(2) by blast
    have "s \<in> set (extent p pages n)" using o sl k(1) nth_mem [OF k1 [OF k(3)]] unfolding owns_def by auto
    note e = extent_in_page [OF o d(1) this k1 [OF k(3)] k(1)]
    have "k0 * p \<le> k * p" "Suc k * p \<le> k1 * p" using k(2,3) by (metis mult_le_mono1, metis mult_le_mono1 Suc_leI)
    moreover have "s mod p < p" using d(1) by simp
    ultimately have "k0 * p \<le> k * p + s mod p" "k * p + s mod p < k1 * p" unfolding mult_Suc by linarith+
    then show ?thesis using e(2) b(1) by metis
  qed
  have rng: "\<forall>i\<in>set xs. int p \<le> i \<and> nat i div p \<le> N"
  proof
    fix i assume i: "i \<in> set xs"
    have "1 \<le> nat i div p \<and> nat i div p \<le> N" by (rule pg) (use i in blast)
    moreover from this have "p \<le> nat i" using d(1) by (simp add: Suc_le_eq div_greater_zero_iff)
    ultimately show "int p \<le> i \<and> nat i div p \<le> N" using d(1) by linarith
  qed
  have mapped: "g * p + k \<in> v4_slots p N R" if "1 \<le> g" "g \<le> N" "k < p" "v4_map R ! (g * p + k) \<noteq> 0" for g k
    using d(8) [OF that] that(1,2) by (auto simp: v4_slots_def)
  have cov: "\<forall>g\<in>(\<lambda>i. nat i div p) ` set xs. \<forall>k<p. v4_map R ! (g * p + k) \<noteq> 0 \<longrightarrow> int (g * p + k) \<in> set xs"
    using pg mapped whole by (simp add: ball_simps del: of_nat_add of_nat_mult)
  have cov': "\<forall>g\<in>(\<lambda>i. nat i div p) ` set xs. if True then \<forall>k<p. v4_map R ! (g * p + k) \<noteq> 0 \<longrightarrow> int (g * p + k) \<in> set xs
       else \<forall>k<v4_ends R ! g. int (g * p + k) \<in> set xs" using cov by simp
  note ra = release_accepts [OF ok rng cov']
  show "v4_release_pages xs True p R = Inr (touched_pages p xs)" by (rule ra(1))
  note f = free_swa_pages_ok [OF inv touched_pages_set(2) ra(2), folded R'_def]
  show "v4_inv p N M R' {} {}" "v4_ends R' = v4_ends R" by (rule f(1), rule f(2))
  assume s: "s \<in> v4_slots p N R"
  obtain g k where g: "s = g * p + k" "1 \<le> g" "g \<le> N" "k < p" "s div p = g" using slot_page [OF s ok] .
  have "s \<in> nat ` set xs \<longleftrightarrow> g \<in> set (touched_pages p xs)"
    unfolding touched_pages_set using whole [OF s] g(5) by (auto intro: rev_image_eqI [of "int s"])
  then show "v4_map R' ! s = (if s \<in> nat ` set xs then 0 else v4_map R ! s)" using f(5) [OF g(2-4)] g(1) by simp
qed


text \<open>A request of a V4 cache: its row holds its extent, the mark of the reclaimed part is a page boundary.\<close>

definition v4_live_req :: "cache_req \<Rightarrow> chunk_cache \<Rightarrow> v4_allocator \<Rightarrow> nat \<Rightarrow> nat list \<Rightarrow> nat \<Rightarrow> bool" where
  "v4_live_req r K a i pages n \<longleftrightarrow> rq_pool_idx r = Some i \<and> i < length (rp_table (ck_pool K)) \<and> n \<le> length (rp_table (ck_pool K) ! i)
     \<and> take n (rp_table (ck_pool K) ! i) = map int (extent (v4_page_size a) pages n) \<and> req_rank r < v4_dp_size a
     \<and> ck_alloc K = V4_Pool a \<and> ck_page_size K = v4_page_size a
     \<and> owns (v4_page_size a) (v4_pages_per_rank a) (v4_ranks a ! req_rank r) pages n"

lemma reclaim_runs:
  assumes i: "rq_pool_idx r = Some i" "i < length (rp_table (ck_pool K))" and p: "0 < ck_page_size K"
    and ev: "0 \<le> rq_swa_evicted r" and lt: "rq_swa_evicted r < reclaim_end r K"
    and f: "any_free_swa (drop (nat (rq_swa_evicted r)) (take (nat (reclaim_end r K)) (rp_table (ck_pool K) ! i))) (req_rank r) (ck_alloc K) = Inr b"
  shows "reclaim_completed_v4_swa r K = Inr (r\<lparr>rq_swa_evicted := reclaim_end r K\<rparr>, K\<lparr>ck_alloc := b\<rparr>)"
proof -
  have "py_slice row (rq_swa_evicted r) (reclaim_end r K) = drop (nat (rq_swa_evicted r)) (take (nat (reclaim_end r K)) row)" for row :: "int list"
    using ev lt by (simp add: py_slice_nonneg drop_take)
  then show ?thesis
    using i p f lt by (simp add: reclaim_completed_v4_swa_def Let_def reclaim_end_def [symmetric])
qed

lemma v4_set_rank_same: "d < length (v4_ranks a) \<Longrightarrow> v4_set_rank (int d) (v4_ranks a ! d) a = a"
  by (simp add: v4_set_rank_def)

text \<open>What a reclaiming of blocks \<open>k0\<close> to \<open>k1\<close> does to the slots of the rank.\<close>

definition reclaimed :: "nat \<Rightarrow> nat \<Rightarrow> nat list \<Rightarrow> nat \<Rightarrow> int \<Rightarrow> int \<Rightarrow> v4_rank \<Rightarrow> v4_rank \<Rightarrow> bool" where
  "reclaimed p N pages n lo hi R R' \<longleftrightarrow> v4_ends R' = v4_ends R
     \<and> (\<forall>j<n. v4_map R' ! (extent p pages n ! j) = (if lo \<le> int j \<and> int j < hi then 0 else v4_map R ! (extent p pages n ! j)))
     \<and> (\<forall>s\<in>v4_slots p N R. s div p \<notin> set pages \<longrightarrow> v4_map R' ! s = v4_map R ! s)"

lemma reclaim_rank:
  assumes inv: "v4_inv p N M R {} {}" and o: "owns p N R pages n" and le: "k1 * p \<le> n" "k0 \<le> k1"
  defines "xs \<equiv> drop (k0 * p) (take (k1 * p) (map int (extent p pages n)))"
  shows "reclaimed p N pages n (int (k0 * p)) (int (k1 * p)) R (free_swa_pages p (touched_pages p xs) R)"
proof -
  let ?e = "extent p pages n" and ?R' = "free_swa_pages p (touched_pages p xs) R"
  have p: "0 < p" using v4_inv_lengths(4) [OF inv] .
  note b = reclaim_blocks [OF inv o le, folded xs_def] and m = extent_blocks(1) [OF o p le, folded xs_def]
  have sl: "?e ! j \<in> v4_slots p N R" if "j < n" for j
  proof -
    have "?e ! j \<in> set ?e" using that by simp
    then show ?thesis using o unfolding owns_def by blast
  qed
  have pg: "?e ! j div p \<in> set pages" if "j < n" for j
    using owns_block(1) [OF o p that] that p by (simp add: extent_nth)
  have mem: "?e ! j \<in> nat ` set xs \<longleftrightarrow> k0 * p \<le> j \<and> j < k1 * p" if j: "j < n" for j
  proof
    assume "?e ! j \<in> nat ` set xs"
    then obtain j' where j': "k0 * p \<le> j'" "j' < k1 * p" "?e ! j = ?e ! j'" using m by auto
    then have "j = j'" using nth_eq_iff_index_eq [OF extent_distinct [OF o p], of j j'] j le(1) by simp
    then show "k0 * p \<le> j \<and> j < k1 * p" using j' by simp
  next
    assume "k0 * p \<le> j \<and> j < k1 * p"
    then have "int (?e ! j) \<in> set xs" using m by blast
    then show "?e ! j \<in> nat ` set xs" by (intro rev_image_eqI) auto
  qed
  have "v4_map ?R' ! s = v4_map R ! s" if s: "s \<in> v4_slots p N R" "s div p \<notin> set pages" for s
  proof -
    have "s \<notin> nat ` set xs"
    proof
      assume "s \<in> nat ` set xs"
      then obtain j where "j < k1 * p" "s = ?e ! j" using m by auto
      then show False using pg [of j] le(1) s(2) by simp
    qed
    then show ?thesis using b(4) [OF s(1)] by simp
  qed
  moreover have "v4_map ?R' ! (?e ! j) = (if int (k0 * p) \<le> int j \<and> int j < int (k1 * p) then 0 else v4_map R ! (?e ! j))" if "j < n" for j
    unfolding of_nat_le_iff of_nat_less_iff mem [OF that, symmetric] by (rule b(4) [OF sl [OF that]])
  ultimately show ?thesis using b(3) unfolding reclaimed_def by blast
qed

section \<open>Releasing a request\<close>

lemma owned_release:
  assumes inv: "v4_inv p N M R {} {}" and o: "owns p N R pages n"
  defines "xs \<equiv> map int (extent p pages n)"
  shows "nonzero xs = xs" "whole_release p N R xs" "v4_release_pages xs False p R = Inr (touched_pages p xs)"
    "\<forall>g\<in>set (touched_pages p xs). 1 \<le> g \<and> g \<le> N"
proof -
  have ok: "pages_ok p N R" using inv by (simp add: v4_inv_def)
  note d = pages_okD [OF ok]
  have sl: "{s \<in> v4_slots p N R. s div p \<in> set pages} = set (extent p pages n)" using o by (simp add: owns_def)
  have x: "p \<le> x" "x div p \<le> N" "x div p \<in> set pages" "x < length (v4_map R)" if "x \<in> set (extent p pages n)" for x
  proof -
    have "x \<in> v4_slots p N R" using that sl by blast
    then obtain g k where g: "x = g * p + k" "1 \<le> g" "g \<le> N" "k < p" "x div p = g" by (rule slot_page [OF _ ok])
    show "x div p \<in> set pages" using that sl by blast
    show "x div p \<le> N" using g by simp
    show "x < length (v4_map R)" using page_bound [OF g(3,4)] d(5) g(1) by simp
    have "1 * p \<le> g * p" using g(2) by (rule mult_le_mono1)
    then show "p \<le> x" using g(1) unfolding mult_1 by linarith
  qed
  have idx: "\<exists>y\<in>set (extent p pages n). i = int y" if "i \<in> set xs" for i using that by (auto simp: xs_def)
  have whole: "int s \<in> set xs" if "s \<in> v4_slots p N R" "i \<in> set xs" "nat i div p = s div p" for s i
  proof -
    have "s div p \<in> set pages" using idx [OF that(2)] that(3) x(3) by fastforce
    then have "s \<in> set (extent p pages n)" using that(1) sl by blast
    then show ?thesis by (simp add: xs_def)
  qed
  show "nonzero xs = xs" using x(1) d(1) by (auto simp: nonzero_def xs_def filter_id_conv intro: order_less_le_trans)
  show "whole_release p N R xs" unfolding whole_release_def using whole idx x(1,4) by fastforce
  have rng: "\<forall>i\<in>set xs. int p \<le> i \<and> nat i div p \<le> N" using idx x(1,2) by fastforce
  have cov: "\<forall>g\<in>(\<lambda>i. nat i div p) ` set xs. if False then \<forall>k<p. v4_map R ! (g * p + k) \<noteq> 0 \<longrightarrow> int (g * p + k) \<in> set xs
       else \<forall>k<v4_ends R ! g. int (g * p + k) \<in> set xs"
  proof (intro ballI, unfold if_False, intro allI impI)
    fix g k assume g: "g \<in> (\<lambda>i. nat i div p) ` set xs" and k: "k < v4_ends R ! g"
    then obtain i where i: "i \<in> set xs" "g = nat i div p" by blast
    have gN: "1 \<le> g" "g \<le> N" using i idx [OF i(1)] x(3) [of "nat i"] o by (auto simp: owns_def)
    have "k < p" using k d(6) [OF gN] by simp
    then have "nat i div p = (g * p + k) div p" using i(2) by simp
    moreover have "g * p + k \<in> v4_slots p N R" unfolding v4_slots_def using gN k by blast
    ultimately show "int (g * p + k) \<in> set xs" using whole i(1) by blast
  qed
  show "v4_release_pages xs False p R = Inr (touched_pages p xs)" by (rule release_accepts(1) [OF ok rng cov])
  show "\<forall>g\<in>set (touched_pages p xs). 1 \<le> g \<and> g \<le> N" by (rule release_accepts(2) [OF ok rng cov])
qed

section \<open>Growing a request\<close>

lemma plan_new_step:
  "0 < p \<Longrightarrow> 0 < c \<Longrightarrow> plan_new p c k = (let (segs, m) = plan_new p (c - min c p) (Suc k) in ((- int (Suc k), 0, min c p) # segs, m))"
  by (subst plan_new.simps) (simp add: Let_def split: prod.splits)

lemma plan_new_count:
  assumes "plan_new p c k = (segs, m)" "0 < p"
  shows "k \<le> m" "c \<le> (m - k) * p" "k < m \<Longrightarrow> (m - k - 1) * p < c"
proof -
  have "k \<le> m \<and> c \<le> (m - k) * p \<and> (k < m \<longrightarrow> (m - k - 1) * p < c)"
    using assms
  proof (induction p c k arbitrary: segs m rule: plan_new.induct)
    case (1 p c k)
    show ?case
    proof (cases "c = 0")
      case True
      then show ?thesis using "1.prems" by (simp add: plan_new_none)
    next
      case False
      then obtain segs' where rest: "plan_new p (c - min c p) (Suc k) = (segs', m)"
        using "1.prems" plan_new_step [of p c k] by (auto simp: Let_def split: prod.splits)
      note IH = "1.IH" [OF _ refl rest "1.prems"(2)]
      have I: "Suc k \<le> m" "c - min c p \<le> (m - Suc k) * p" "Suc k < m \<longrightarrow> (m - Suc k - 1) * p < c - min c p"
        using IH False "1.prems"(2) by auto
      have mk: "m - k = Suc (m - Suc k)" using I(1) by simp
      have "c \<le> (m - k) * p" unfolding mk mult_Suc using I(2) by linarith
      moreover have "(m - k - 1) * p < c"
      proof (cases "Suc k < m")
        case True
        then have e: "m - k - 1 = Suc (m - Suc k - 1)" by simp
        have "c - min c p > 0" using I(3) True by linarith
        then have "min c p = p" by auto
        then show ?thesis unfolding e mult_Suc using I(3) True by linarith
      next
        case False
        then have "m - k - 1 = 0" using I(1) by simp
        then show ?thesis using \<open>c \<noteq> 0\<close> by simp
      qed
      ultimately show ?thesis using I(1) by simp
    qed
  qed
  then show "k \<le> m" "c \<le> (m - k) * p" "k < m \<Longrightarrow> (m - k - 1) * p < c" by auto
qed

text \<open>The slots of the new pages, in order.\<close>

lemma resolve_new:
  assumes "plan_new p c k = (segs, m)" "0 < p" "m \<le> length pages" "resolve_segments p R pages segs swa = Inr ws"
  shows "concat (map (\<lambda>(_, _, _, loc, _). loc) ws) = map (\<lambda>j. pages ! (k + j div p) * p + j mod p) [0..<c]"
  using assms
proof (induction p c k arbitrary: segs swa ws rule: plan_new.induct)
  case (1 p c k)
  show ?case
  proof (cases "c = 0")
    case True
    then show ?thesis using "1.prems" by (simp add: plan_new_none)
  next
    case False
    then obtain segs' where rest: "plan_new p (c - min c p) (Suc k) = (segs', m)" and segs: "segs = (- int (Suc k), 0, min c p) # segs'"
      using "1.prems" plan_new_step [of p c k] by (auto simp: Let_def split: prod.splits)
    have "k < m" using plan_new_count(1) [OF rest] "1.prems"(2) by simp
    then have pg: "np_get pages (- (- int (Suc k)) - 1) = Inr (pages ! k)" using "1.prems"(3) by simp
    obtain w swa' ws' where r: "resolve_segments p R pages segs' swa' = Inr ws'"
      and ws: "ws = (pages ! k, w, min c p, [pages ! k * p..<pages ! k * p + min c p], [w * p..<w * p + min c p]) # ws'"
      using "1.prems"(4) pg unfolding segs by (auto simp: rbind_eq_Inr_iff split: if_splits list.splits)
    have IH: "concat (map (\<lambda>(_, _, _, loc, _). loc) ws') = map (\<lambda>j. pages ! (Suc k + j div p) * p + j mod p) [0..<c - min c p]"
      using "1.IH" [OF _ refl rest] False "1.prems"(2,3) r by auto
    let ?f = "\<lambda>j. pages ! (k + j div p) * p + j mod p"
    have fst: "[pages ! k * p..<pages ! k * p + min c p] = map ?f [0..<min c p]"
      by (intro nth_equalityI) auto
    have snd: "map (\<lambda>j. pages ! (Suc k + j div p) * p + j mod p) [0..<c - min c p] = map ?f [min c p..<c]"
      by (intro nth_equalityI) (use "1.prems"(2) in \<open>auto simp: min_def div_add_self1\<close>)
    have sp: "[0..<c] = [0..<min c p] @ [min c p..<c]" by (metis le_add_diff_inverse min.cobounded1 upt_add_eq_append zero_le)
    have "concat (map (\<lambda>(_, _, _, loc, _). loc) ws) = [pages ! k * p..<pages ! k * p + min c p] @ concat (map (\<lambda>(_, _, _, loc, _). loc) ws')"
      by (simp add: ws)
    then show ?thesis unfolding IH fst snd by (simp only: sp map_append)
  qed
qed


text \<open>The call for one request: its tail is its last slot, or the padding value of an empty prefix.\<close>

definition tail_of :: "nat \<Rightarrow> nat list \<Rightarrow> nat \<Rightarrow> int" where
  "tail_of p pages n = (if n = 0 then -1 else int (extent p pages n ! (n - 1)))"

definition grow_take :: "nat \<Rightarrow> nat \<Rightarrow> nat \<Rightarrow> nat" where
  "grow_take p n c = (if n mod p \<noteq> 0 then min c (p - n mod p) else 0)"

definition grow_first :: "nat \<Rightarrow> nat list \<Rightarrow> nat \<Rightarrow> nat \<Rightarrow> v4_segment list" where
  "grow_first p pages n c = (if n mod p \<noteq> 0 then [(int (pages ! (n div p)), n mod p, grow_take p n c)] else [])"

lemma div_pred: "n mod p \<noteq> 0 \<Longrightarrow> (n - 1) div p = n div (p :: nat)"
  by (metis Suc_pred' div_Suc gr0I mod_0)

lemma plan_single:
  assumes o: "owns p N R pages n" and ok: "pages_ok p N R" and c: "0 < c" and new: "plan_new p (c - grow_take p n c) 0 = (segs, m)"
  shows "v4_plan [int n] [int (n + c)] [tail_of p pages n] (int c) p N R =
    Inr (\<lparr>history_pages = m, swa_pages = length (filter (needs_swa R) (grow_first p pages n c @ segs)), demand_page_size = p\<rparr>, grow_first p pages n c @ segs)"
proof -
  note d = pages_okD [OF ok]
  have "plan_seq p N R (int n, int (n + c), tail_of p pages n) ([], 0, {}) = Inr (grow_first p pages n c @ segs, m, if n = 0 then {} else {int (pages ! ((n - 1) div p))})"
  proof (cases "n = 0")
    case True
    then show ?thesis using new c by (simp add: plan_seq_def tail_of_def grow_first_def grow_take_def)
  next
    case False
    let ?g = "pages ! ((n - 1) div p)"
    have t: "tail_of p pages n = int (?g * p + (n - 1) mod p)" using False by (simp add: tail_of_def extent_nth)
    have dm: "tail_of p pages n div int p = int ?g" "tail_of p pages n mod int p = int ((n - 1) mod p)"
      unfolding t by (simp_all flip: zdiv_int zmod_int add: d(1))
    have g: "1 \<le> ?g" "?g \<le> N" using owns_block(2) [OF o d(1), of "n - 1"] False by auto
    have pre: "(int n - 1) mod int p = int ((n - 1) mod p)" using False by (simp add: zmod_int of_nat_diff)
    have e: "v4_ends R ! ?g = (n - 1) mod p + 1" using owns_tail [OF o ok] False by simp
    have u: "nat (int n mod int p) = n mod p" by (simp flip: zmod_int)
    have cnt: "nat (int (n + c) - int n) = c" by simp
    show ?thesis
      unfolding plan_seq_def prod.case cnt Let_def dm pre u using False c g e new
      by (simp add: grow_first_def grow_take_def) (use div_pred [of n p] in simp)
  qed
  then show ?thesis by (simp add: v4_plan_def)
qed

lemma owns_used:
  assumes o: "owns p N R pages n" and ok: "pages_ok p N R" and g: "g \<in> set pages"
  shows "v4_ends R ! g \<noteq> 0"
proof -
  note d = pages_okD [OF ok]
  obtain k where k: "k < length pages" "g = pages ! k" using g by (auto simp: in_set_conv_nth)
  have "k * p < n" using o k(1) by (simp add: owns_def)
  then have "g * p \<in> set (extent p pages n)" using extent_nth [of "k * p" n p pages] d(1) k(2) by (metis add.right_neutral extent_length mod_mult_self2_is_0 nonzero_mult_div_cancel_right not_less_zero nth_mem)
  then have "g * p \<in> {s \<in> v4_slots p N R. s div p = g}" using o d(1) unfolding owns_def by auto
  moreover have "1 \<le> g" "g \<le> N" using o g unfolding owns_def by auto
  ultimately have "g * p \<in> {g * p..<g * p + v4_ends R ! g}" using page_slots [OF ok] by blast
  then show ?thesis by simp
qed

lemma grow_pages:
  assumes o: "owns p N R pages n" and p: "0 < p" and new: "plan_new p (c - grow_take p n c) 0 = (segs, m)"
  shows "n + c \<le> (length pages + m) * p" "k < length pages + m \<Longrightarrow> k * p < n + c"
    "c = grow_take p n c \<or> n + grow_take p n c = length pages * p"
proof -
  note q = plan_new_count [OF new p, unfolded diff_zero]
  have L: "n \<le> length pages * p" "\<And>k. k < length pages \<Longrightarrow> k * p < n" using o by (simp_all add: owns_def)
  have full: "n = length pages * p" if "n mod p = 0"
  proof -
    have nd: "n = n div p * p" using that by (metis add.right_neutral div_mult_mod_eq)
    have "\<not> n div p < length pages" using L(2) [of "n div p"] nd by linarith
    then have "length pages * p \<le> n div p * p" by simp
    then show ?thesis using nd L(1) by linarith
  qed
  have part: "length pages = Suc (n div p)" if "n mod p \<noteq> 0"
  proof -
    have "n div p < length pages"
    proof (rule ccontr)
      assume "\<not> n div p < length pages"
      then have "length pages * p \<le> n div p * p" by simp
      then show False using L(1) div_mult_mod_eq [of n p] that by linarith
    qed
    moreover have "\<not> Suc (n div p) < length pages"
    proof
      assume "Suc (n div p) < length pages"
      then have "Suc (n div p) * p < n" by (rule L(2))
      then show False using dividend_less_div_times [OF p, of n] by simp
    qed
    ultimately show ?thesis by simp
  qed
  show al: "c = grow_take p n c \<or> n + grow_take p n c = length pages * p"
  proof (cases "n mod p = 0")
    case True
    then show ?thesis using full by (simp add: grow_take_def)
  next
    case False
    have "n + (p - n mod p) = Suc (n div p) * p" using div_mult_mod_eq [of n p] mod_less_divisor [OF p, of n] unfolding mult_Suc by linarith
    then show ?thesis using part False by (simp add: grow_take_def min_def)
  qed
  have le: "grow_take p n c \<le> c" "n + grow_take p n c \<le> length pages * p"
  proof -
    show "grow_take p n c \<le> c" by (simp add: grow_take_def)
    have "n + (p - n mod p) = Suc (n div p) * p" using div_mult_mod_eq [of n p] mod_less_divisor [OF p, of n] unfolding mult_Suc by linarith
    then show "n + grow_take p n c \<le> length pages * p" using part L(1) by (auto simp: grow_take_def min_def)
  qed
  show "n + c \<le> (length pages + m) * p" unfolding distrib_right using q(2) le by linarith
  assume k: "k < length pages + m"
  show "k * p < n + c"
  proof (cases "k < length pages")
    case True
    then show ?thesis using L(2) by (simp add: trans_less_add1)
  next
    case False
    then have m: "0 < m" using k by simp
    then have "0 < c - grow_take p n c" using q(3) by linarith
    then have eq: "n + grow_take p n c = length pages * p" using al by linarith
    have "k * p \<le> (length pages + (m - 1)) * p" using k m by (intro mult_le_mono1) linarith
    then show ?thesis using q(3) m eq le(1) unfolding distrib_right by simp
  qed
qed


lemma extent_split: "extent p pages (n + c) = extent p pages n @ map (\<lambda>j. pages ! (j div p) * p + j mod p) [n..<n + c]"
  unfolding extent_def by (subst upt_add_eq_append) simp_all

lemma extent_append: "n \<le> length pages * p \<Longrightarrow> 0 < p \<Longrightarrow> extent p (pages @ qs) n = extent p pages n"
  unfolding extent_def by (intro map_cong refl) (simp add: nth_append div_less_iff_less_mult)

lemma resolve_append:
  "resolve_segments p R pages (xs @ ys) swa = Inr ws \<Longrightarrow>
     \<exists>ws1 ws2 swa'. ws = ws1 @ ws2 \<and> resolve_segments p R pages xs swa = Inr ws1 \<and> resolve_segments p R pages ys swa' = Inr ws2"
proof (induction xs arbitrary: swa ws)
  case Nil
  then show ?case by auto
next
  case (Cons x xs)
  obtain page off cnt where x: "x = (page, off, cnt)" by (cases x)
  obtain pg w0 w rest ws0 where
    h: "(if page < 0 then np_get pages (- page - 1) else Inr (nat page)) = Inr pg" "np_get (v4_swa_page R) (int pg) = Inr w0"
      "(if w0 \<noteq> 0 then Inr (w0, swa) else (case swa of [] \<Rightarrow> Inl StopIteration | w # ws \<Rightarrow> Inr (w, ws))) = Inr (w, rest)"
      "resolve_segments p R pages (xs @ ys) rest = Inr ws0"
      "ws = (pg, w, off + cnt, [pg * p + off..<pg * p + off + cnt], [w * p + off..<w * p + off + cnt]) # ws0"
    using Cons.prems unfolding x append_Cons resolve_segments.simps by (simp only: rbind_eq_Inr_iff split_paired_Ex prod.case sum.inject) blast
  from Cons.IH [OF h(4)] obtain ws1 ws2 swa' where
    i: "ws0 = ws1 @ ws2" "resolve_segments p R pages xs rest = Inr ws1" "resolve_segments p R pages ys swa' = Inr ws2" by blast
  have "resolve_segments p R pages (x # xs) swa = Inr ((pg, w, off + cnt, [pg * p + off..<pg * p + off + cnt], [w * p + off..<w * p + off + cnt]) # ws1)"
    unfolding x resolve_segments.simps h(1-3) rbind_Inr prod.case i(2) by simp
  then show ?case using i h(5) by auto
qed

lemma grow_out:
  assumes o: "owns p N R pages n" and p: "0 < p" and new: "plan_new p (c - grow_take p n c) 0 = (segs, m)" and m: "m \<le> length free"
    and run: "resolve_segments p R (take m free) (grow_first p pages n c @ segs) swa = Inr ws"
  shows "extent p (pages @ take m free) (n + c) = extent p pages n @ concat (map (\<lambda>(_, _, _, loc, _). loc) ws)"
proof -
  let ?ps = "pages @ take m free" and ?t = "grow_take p n c" and ?loc = "\<lambda>ws. concat (map (\<lambda>(_ :: nat, _ :: nat, _ :: nat, loc, _ :: nat list). loc) ws)"
  let ?f = "\<lambda>j. (pages @ take m free) ! (j div p) * p + j mod p"
  have L: "n \<le> length pages * p" using o by (simp add: owns_def)
  obtain ws1 ws2 swa' where w: "ws = ws1 @ ws2" "resolve_segments p R (take m free) (grow_first p pages n c) swa = Inr ws1"
    "resolve_segments p R (take m free) segs swa' = Inr ws2" using resolve_append [OF run] by blast
  have tc: "?t \<le> c" by (simp add: grow_take_def)
  have l1: "?loc ws1 = map ?f [n..<n + ?t]"
  proof (cases "n mod p = 0")
    case True
    then show ?thesis using w(2) by (simp add: grow_first_def grow_take_def)
  next
    case False
    have "n div p * p < n" using False div_mult_mod_eq [of n p] by linarith
    then have g: "n div p < length pages" using L by (metis mult_less_cancel2 order_less_le_trans)
    have blk: "?f (n + i) = pages ! (n div p) * p + n mod p + i" if "i < ?t" for i
    proof -
      have "i < p - n mod p" using that False by (simp add: grow_take_def)
      then have lt: "n mod p + i < p" by linarith
      have e: "n + i = n div p * p + (n mod p + i)" using div_mult_mod_eq [of n p] by simp
      have "(q * p + k) div p = q" "(q * p + k) mod p = k" if "k < p" for q k using that by simp_all
      from this [OF lt, of "n div p", folded e] show ?thesis using g by (simp add: nth_append)
    qed
    have "?loc ws1 = [pages ! (n div p) * p + n mod p..<pages ! (n div p) * p + n mod p + ?t]"
      using w(2) False by (auto simp: grow_first_def rbind_eq_Inr_iff split: if_splits list.splits)
    also have "\<dots> = map ?f [n..<n + ?t]" by (intro nth_equalityI) (use blk in auto)
    finally show ?thesis .
  qed
  have "?loc ws2 = map (\<lambda>j. take m free ! (0 + j div p) * p + j mod p) [0..<c - ?t]"
    by (rule resolve_new [OF new p _ w(3)]) (use m in simp)
  also have "\<dots> = map ?f [n + ?t..<n + c]"
  proof (cases "c = ?t")
    case False
    then have al: "n + ?t = length pages * p" using grow_pages(3) [OF o p new] by simp
    have "?f (length pages * p + i) = take m free ! (i div p) * p + i mod p" for i
      using p by (simp add: nth_append div_add1_eq)
    then show ?thesis unfolding al by (intro nth_equalityI) (use al in auto)
  qed (use tc in simp)
  finally have l2: "?loc ws2 = map ?f [n + ?t..<n + c]" .
  have "[n..<n + c] = [n..<n + ?t] @ [n + ?t..<n + c]" using tc by (metis le_add1 le_add_diff_inverse add.assoc upt_add_eq_append)
  then show ?thesis unfolding extent_split extent_append [OF L p] w(1) by (simp add: l1 l2)
qed

lemma owns_others:
  assumes o: "owns p N R q m" and pg: "set out \<subseteq> {s. s div p \<notin> set q}" and sl: "v4_slots p N R' = v4_slots p N R \<union> set out"
  shows "owns p N R' q m"
proof -
  have "{s \<in> v4_slots p N R'. s div p \<in> set q} = {s \<in> v4_slots p N R. s div p \<in> set q}" using pg unfolding sl by blast
  then show ?thesis using o unfolding owns_def by simp
qed

lemma owns_grown:
  assumes inv: "v4_inv p N M R {} {}" and o: "owns p N R pages n" and new: "plan_new p (c - grow_take p n c) 0 = (segs, m)"
    and m: "m \<le> length (v4_free R)" and sl: "v4_slots p N R' = v4_slots p N R \<union> set out"
    and out: "extent p (pages @ take m (v4_free R)) (n + c) = extent p pages n @ out"
  shows "owns p N R' (pages @ take m (v4_free R)) (n + c)" "set out \<subseteq> {s. s div p \<in> set (pages @ take m (v4_free R))}"
    "owns p N R q k \<Longrightarrow> set q \<inter> set pages = {} \<Longrightarrow> set q \<inter> set (pages @ take m (v4_free R)) = {}"
proof -
  let ?ps = "pages @ take m (v4_free R)"
  have ok: "pages_ok p N R" and fr: "distinct (v4_free R)" "set (v4_free R) = {g. 1 \<le> g \<and> g \<le> N \<and> v4_ends R ! g = 0}"
    using inv by (auto simp: v4_inv_def free_ok_def)
  note d = pages_okD [OF ok]
  have tk: "set (take m (v4_free R)) \<subseteq> set (v4_free R)" by (rule set_take_subset)
  have free: "set q \<inter> set (take m (v4_free R)) = {}" if "owns p N R q k" for q k using owns_used [OF that ok] fr(2) tk by blast
  show "owns p N R q k \<Longrightarrow> set q \<inter> set pages = {} \<Longrightarrow> set q \<inter> set ?ps = {}" using free by auto
  note g = grow_pages [OF o d(1) new]
  have len: "length ?ps = length pages + m" using m by simp
  show pg: "set out \<subseteq> {s. s div p \<in> set ?ps}"
  proof
    fix x assume "x \<in> set out"
    then have "x \<in> set (extent p ?ps (n + c))" unfolding out by simp
    then obtain j where j: "j < n + c" "x = ?ps ! (j div p) * p + j mod p" by (auto simp: extent_def)
    have "j div p < length ?ps" using j(1) g(1) d(1) unfolding len div_less_iff_less_mult [OF d(1)] by linarith
    then have "?ps ! (j div p) \<in> set ?ps" by (rule nth_mem)
    moreover have "x div p = ?ps ! (j div p)" using j(2) d(1) by simp
    ultimately show "x \<in> {s. s div p \<in> set ?ps}" by simp
  qed
  have noslot: "s div p \<notin> set (take m (v4_free R))" if s: "s \<in> v4_slots p N R" for s
  proof -
    obtain h i where "s div p = h" "i < v4_ends R ! h" using slot_page [OF s ok] by metis
    then show ?thesis using fr(2) tk by auto
  qed
  have "{s \<in> v4_slots p N R'. s div p \<in> set ?ps} = {s \<in> v4_slots p N R. s div p \<in> set pages} \<union> set out"
    using noslot pg unfolding sl set_append by blast
  also have "\<dots> = set (extent p ?ps (n + c))" using o unfolding out owns_def by auto
  finally show "owns p N R' ?ps (n + c)" unfolding owns_def len
  proof (intro conjI allI impI)
    show "distinct ?ps" using o fr(1) free [OF o] unfolding owns_def by simp
    show "set ?ps \<subseteq> {1..N}" using o fr(2) tk unfolding owns_def by auto
  qed (use g in simp_all)
qed

lemma grow_request:
  assumes ok: "v4_ok a" and d: "0 \<le> d" "d < int (v4_dp_size a)" and c: "0 < c"
    and o: "owns (v4_page_size a) (v4_pages_per_rank a) (v4_ranks a ! nat d) pages n"
  shows "\<exists>dem. estimate_extend [int n] [int (n + c)] [tail_of (v4_page_size a) pages n] (int c) d a = Inr dem
    \<and> (let R = v4_ranks a ! nat d; pages' = pages @ take (history_pages dem) (v4_free R) in
       if history_pages dem \<le> length (v4_free R) \<and> swa_pages dem \<le> length (v4_swa_free R)
       then \<exists>out R'. v4_alloc_extend [int n] [int (n + c)] [tail_of (v4_page_size a) pages n] (int c) d a = Inr (Some out, v4_set_rank d R' a)
         \<and> v4_ok (v4_set_rank d R' a) \<and> extent (v4_page_size a) pages' (n + c) = extent (v4_page_size a) pages n @ out
         \<and> owns (v4_page_size a) (v4_pages_per_rank a) R' pages' (n + c)
         \<and> (\<forall>q m. owns (v4_page_size a) (v4_pages_per_rank a) R q m \<and> set q \<inter> set pages = {} \<longrightarrow>
              owns (v4_page_size a) (v4_pages_per_rank a) R' q m \<and> set q \<inter> set pages' = {})
       else v4_alloc_extend [int n] [int (n + c)] [tail_of (v4_page_size a) pages n] (int c) d a = Inr (None, a))"
proof -
  define p N R where "p = v4_page_size a" and "N = v4_pages_per_rank a" and "R = v4_ranks a ! nat d"
  note inv = v4_rank_inv [OF ok d, folded p_def N_def R_def]
  have po: "pages_ok p N R" and p: "0 < p" using inv(1) by (simp_all add: v4_inv_def pages_ok_def)
  have o: "owns p N R pages n" using o by (simp add: p_def N_def R_def)
  obtain segs m where new: "plan_new p (c - grow_take p n c) 0 = (segs, m)" by fastforce
  define all where "all = grow_first p pages n c @ segs"
  define dem where "dem = \<lparr>history_pages = m, swa_pages = length (filter (needs_swa R) all), demand_page_size = p\<rparr>"
  have plan: "v4_plan [int n] [int (n + c)] [tail_of p pages n] (int c) p N R = Inr (dem, all)"
    using plan_single [OF o po c new] by (simp add: dem_def all_def)
  have rk: "v4_rank_at d a = Inr R" using v4_rank_at_ok [OF ok, of d] d by (simp add: R_def)
  have est: "estimate_extend [int n] [int (n + c)] [tail_of p pages n] (int c) d a = Inr dem"
    using plan by (simp add: estimate_extend_def rk flip: p_def N_def)
  note ex = v4_alloc_extend_rank [OF ok d, folded p_def N_def R_def, OF plan]
  let ?fits = "history_pages dem \<le> length (v4_free R) \<and> swa_pages dem \<le> length (v4_swa_free R)" and ?ps = "pages @ take m (v4_free R)"
  have m: "history_pages dem = m" by (simp add: dem_def)
  have grown: "\<exists>out R'. v4_alloc_extend [int n] [int (n + c)] [tail_of p pages n] (int c) d a = Inr (Some out, v4_set_rank d R' a)
      \<and> v4_ok (v4_set_rank d R' a) \<and> extent p ?ps (n + c) = extent p pages n @ out \<and> owns p N R' ?ps (n + c)
      \<and> (\<forall>q k. owns p N R q k \<and> set q \<inter> set pages = {} \<longrightarrow> owns p N R' q k \<and> set q \<inter> set ?ps = {})" if fits: ?fits
  proof -
    obtain out R' where r: "v4_alloc_extend [int n] [int (n + c)] [tail_of p pages n] (int c) d a = Inr (Some out, v4_set_rank d R' a)"
      "extends_rank p N (v4_swa_pages_per_rank a) dem (int c) out R R'" "length (v4_map R') = v4_size_per_rank a + p"
      using ex unfolding if_P [OF fits] by blast
    have sl: "v4_slots p N R' = v4_slots p N R \<union> set out" and i': "v4_inv p N (v4_swa_pages_per_rank a) R' {} {}"
      using r(2) by (simp_all add: extends_rank_def)
    have ok': "v4_ok (v4_set_rank d R' a)" using i' r(3) by (intro v4_ok_set_rank [OF ok]) (simp_all add: p_def N_def)
    have ml: "m \<le> length (v4_free R)" using fits m by simp
    obtain ws where "resolve_segments p R (take m (v4_free R)) all (take (swa_pages dem) (v4_swa_free R)) = Inr ws"
      "out = concat (map (\<lambda>(_, _, _, loc, _). loc) ws)"
      using r(1) plan rk fits m by (auto simp: v4_alloc_extend_def rbind_eq_Inr_iff Let_def split: if_splits simp flip: p_def N_def)
    then have e: "extent p ?ps (n + c) = extent p pages n @ out" using grow_out [OF o p new ml] unfolding all_def by blast
    note g = owns_grown [OF inv(1) o new ml sl e]
    have "owns p N R' q k" if q: "owns p N R q k" "set q \<inter> set pages = {}" for q k
      using g(2) g(3) [OF q] by (intro owns_others [OF q(1) _ sl]) blast
    then show ?thesis using r(1) ok' e g(1,3) by blast
  qed
  show ?thesis unfolding Let_def p_def [symmetric] N_def [symmetric] R_def [symmetric]
    apply (rule exI [of _ dem], rule conjI [OF est], rule iffD2 [OF if_split], rule conjI, rule impI)
    subgoal premises fits using grown [OF fits] unfolding m .
    apply (rule impI)
    subgoal premises nofit using ex unfolding if_not_P [OF nofit] .
    done
qed

section \<open>Properties\<close>

text \<open>A request of six tokens on two pages.\<close>

definition v4_req :: cache_req where
  "v4_req = \<lparr>rq_id = 0, rq_pool_idx = Some 0, rq_is_chunked = 0, rq_committed_len = 6, rq_rank = None, rq_recurrent = None,
     rq_track = None, rq_next_track = None, rq_last_track = None, rq_origin_ids = [1, 2, 3, 4, 5, 6], rq_radix_ids = [1, 2, 3, 4, 5, 6],
     rq_output_ids = [], rq_fill_ids = [1, 2, 3, 4, 5, 6], rq_extra_key = None, rq_max_new = 4, rq_return_logprob = False, rq_logprob_start = 0,
     rq_return_hidden = False, rq_hidden_len = 0, rq_prefix = [], rq_last_node = None, rq_protected_len = 0, rq_matched_len = 0,
     rq_allocated_len = 6, rq_committed_freed = False, rq_over_freed = False, rq_swa_evicted = 0\<rparr>"

definition v4_cache :: chunk_cache where
  "v4_cache = \<lparr>ck_pool = \<lparr>rp_size = 1, rp_max_context = 8, rp_table = [[4, 5, 6, 7, 8, 9, 0, 0]], rp_free = [], rp_host_buf = None\<rparr>,
     ck_alloc = V4_Pool v4_used, ck_page_size = 4, ck_window = 2\<rparr>"

lemma v4_used_facts: "v4_ends (v4_ranks v4_used ! 0) = [0, 4, 2, 0]" "v4_pages_per_rank v4_used = 3" "extent 4 [1, 2] 6 = [4, 5, 6, 7, 8, 9]"
  "length (v4_ranks v4_used) = 1"
  by code_simp+

lemma v4_used_owns: "owns 4 3 (v4_ranks v4_used ! 0) [1, 2] 6"
proof -
  let ?R = "v4_ranks v4_used ! 0"
  have "v4_inv 4 3 (v4_swa_pages_per_rank v4_used) ?R {} {}"
    using v4_rank_inv(1) [OF v4_small_ok(2), of 0] by (simp add: v4_small v4_used_facts)
  then have ok: "pages_ok 4 3 ?R" by (simp add: v4_inv_def)
  have "{s \<in> v4_slots 4 3 ?R. s div 4 \<in> set [1, 2]} = {s \<in> v4_slots 4 3 ?R. s div 4 = 1} \<union> {s \<in> v4_slots 4 3 ?R. s div 4 = 2}" by auto
  also have "\<dots> = {4..<8} \<union> {8..<10}" using page_slots [OF ok, of 1] page_slots [OF ok, of 2] by (simp add: v4_used_facts)
  also have "\<dots> = set (extent 4 [1, 2] 6)" unfolding v4_used_facts by auto
  finally show ?thesis unfolding owns_def by (auto simp: less_Suc_eq)
qed

lemma v4_req_live: "v4_live_req v4_req v4_cache v4_used 0 [1, 2] 6" "req_rank v4_req = 0"
  using v4_used_owns by (simp_all add: v4_live_req_def v4_req_def v4_cache_def req_rank_def v4_small v4_used_facts del: One_nat_def)

text \<open>C26. Reclaiming window slots under DeepSeek V4 never touches the window of the next query. On a request that owns its extent and whose mark is a page
  boundary, \<open>reclaim_completed_v4_swa\<close> does not raise; exactly the tokens between the old and the new mark lose their window slots, whose pages are free
  again; the new mark lies before the window, from position \<open>committed - window + 1\<close> on; the mapping of every other slot is as it was, those of
  other requests included; the history stays, the mark never moves back, and a second call does nothing.\<close>

theorem reclaim_keeps_window:
  assumes "v4_ok a" "v4_live_req r K a i pages n" "rq_committed_len r \<le> int n" "0 < ck_window K"
    and "0 \<le> rq_swa_evicted r" "rq_swa_evicted r mod int (v4_page_size a) = 0"
  shows "\<exists>r1 K1 R'. reclaim_completed_v4_swa r K = Inr (r1, K1) \<and> ck_alloc K1 = V4_Pool (v4_set_rank (int (req_rank r)) R' a)
    \<and> v4_ok (v4_set_rank (int (req_rank r)) R' a) \<and> rq_swa_evicted r1 = max (rq_swa_evicted r) (reclaim_end r K)
    \<and> reclaimed (v4_page_size a) (v4_pages_per_rank a) pages n (rq_swa_evicted r) (reclaim_end r K) (v4_ranks a ! req_rank r) R'
    \<and> reclaim_end r K \<le> max 0 (rq_committed_len r - ck_window K + 1) \<and> reclaim_completed_v4_swa r1 K1 = Inr (r1, K1)"
proof -
  define p N R where "p = v4_page_size a" and "N = v4_pages_per_rank a" and "R = v4_ranks a ! req_rank r"
  have L: "rq_pool_idx r = Some i" "i < length (rp_table (ck_pool K))" "take n (rp_table (ck_pool K) ! i) = map int (extent p pages n)"
    "req_rank r < v4_dp_size a" "ck_alloc K = V4_Pool a" "ck_page_size K = p" "owns p N R pages n"
    using assms(2) by (simp_all add: v4_live_req_def p_def N_def R_def)
  have p: "0 < p" "0 < ck_page_size K" using assms(1) L(6) by (simp_all add: v4_ok_def p_def)
  have d: "(0 :: int) \<le> int (req_rank r)" "int (req_rank r) < int (v4_dp_size a)" using L(4) by simp_all
  note inv = v4_rank_inv [OF assms(1) d, unfolded nat_int, folded p_def N_def R_def]
  note E = reclaim_end_bounds [OF p(2), of r]
  show ?thesis
  proof (cases "rq_swa_evicted r < reclaim_end r K")
    case False
    then have "reclaim_completed_v4_swa r K = Inr (r, K)" using reclaim_idle [OF L(1) p(2)] by simp
    moreover have "v4_set_rank (int (req_rank r)) R a = a" using L(4) assms(1) by (simp add: R_def v4_set_rank_same v4_ok_def)
    moreover have "reclaimed p N pages n (rq_swa_evicted r) (reclaim_end r K) R R" using False by (auto simp: reclaimed_def)
    ultimately show ?thesis using False E(2) assms(1) L(5) unfolding p_def N_def R_def
      by (intro exI [of _ r] exI [of _ K] exI [of _ "v4_ranks a ! req_rank r"] conjI) simp_all
  next
    case True
    define k0 k1 where "k0 = nat (rq_swa_evicted r div int p)" and "k1 = nat (reclaim_end r K div int p)"
    have k: "rq_swa_evicted r = int (k0 * p)" "reclaim_end r K = int (k1 * p)"
    proof -
      have "rq_swa_evicted r = rq_swa_evicted r div int p * int p" using assms(6) unfolding p_def by (simp add: mod_0_imp_dvd)
      moreover have "0 \<le> rq_swa_evicted r div int p" using assms(5) p(1) by (simp add: pos_imp_zdiv_nonneg_iff)
      ultimately show "rq_swa_evicted r = int (k0 * p)" by (simp add: k0_def)
      have "reclaim_end r K = reclaim_end r K div int p * int p" using p(1) by (simp add: reclaim_end_def L(6))
      moreover have "0 \<le> reclaim_end r K div int p" using E(1) p(1) by (simp add: pos_imp_zdiv_nonneg_iff)
      ultimately show "reclaim_end r K = int (k1 * p)" by (simp add: k1_def)
    qed
    have "int (k1 * p) \<le> int n" using E(2) assms(3,4) k(2) by linarith
    moreover have "k0 * p < k1 * p" using True unfolding k of_nat_less_iff .
    ultimately have le: "k1 * p \<le> n" "k0 \<le> k1" by (simp_all del: of_nat_mult)
    let ?xs = "drop (k0 * p) (take (k1 * p) (map int (extent p pages n)))"
    let ?R' = "free_swa_pages p (touched_pages p ?xs) R" and ?a = "v4_set_rank (int (req_rank r)) (free_swa_pages p (touched_pages p ?xs) R) a"
    let ?r1 = "r\<lparr>rq_swa_evicted := reclaim_end r K\<rparr>" and ?K1 = "K\<lparr>ck_alloc := V4_Pool ?a\<rparr>"
    note b = reclaim_blocks [OF inv(1) L(7) le]
    have tk: "take (k1 * p) (rp_table (ck_pool K) ! i) = take (k1 * p) (map int (extent p pages n))"
      using le(1) by (metis L(3) min_absorb1 take_take)
    have "v4_free_swa ?xs (int (req_rank r)) a = Inr ?a"
      using b(1) v4_rank_at_ok [OF assms(1), of "int (req_rank r)"] d by (simp add: v4_free_swa_def flip: p_def R_def)
    then have "any_free_swa (drop (nat (rq_swa_evicted r)) (take (nat (reclaim_end r K)) (rp_table (ck_pool K) ! i))) (req_rank r) (ck_alloc K) = Inr (V4_Pool ?a)"
      unfolding k nat_int tk L(5) by simp
    note run = reclaim_runs [OF L(1,2) p(2) assms(5) True this]
    have same: "reclaim_end ?r1 ?K1 = reclaim_end r K" by (simp add: reclaim_end_def)
    have again: "reclaim_completed_v4_swa ?r1 ?K1 = Inr (?r1, ?K1)"
      by (rule reclaim_idle) (use L(1) p(2) same in simp_all)
    have ok: "v4_ok ?a" using b(2) inv(2) by (intro v4_ok_set_rank [OF assms(1)]) (simp_all add: p_def N_def R_def free_swa_pages_length)
    note rr = reclaim_rank [OF inv(1) L(7) le, folded k]
    show ?thesis unfolding p_def [symmetric] N_def [symmetric] R_def [symmetric]
      using run ok rr True E(2) again by (intro exI [of _ ?r1] exI [of _ ?K1] exI [of _ ?R'] conjI) simp_all
  qed
qed


theorem reclaim_keeps_window_witness:
  "\<exists>r1 K1 R'. reclaim_completed_v4_swa v4_req v4_cache = Inr (r1, K1) \<and> rq_swa_evicted r1 = 4 \<and> ck_alloc K1 = V4_Pool (v4_set_rank 0 R' v4_used)
     \<and> v4_map R' ! 4 = 0 \<and> v4_map R' ! 9 = v4_map (v4_ranks v4_used ! 0) ! 9"
proof -
  have f: "rq_committed_len v4_req \<le> int 6" "0 < ck_window v4_cache" "0 \<le> rq_swa_evicted v4_req" "rq_swa_evicted v4_req mod int (v4_page_size v4_used) = 0"
    and e: "rq_swa_evicted v4_req = 0" "reclaim_end v4_req v4_cache = 4"
    by (simp_all add: v4_req_def v4_cache_def reclaim_end_def)
  obtain r1 K1 R' where w: "reclaim_completed_v4_swa v4_req v4_cache = Inr (r1, K1)" "rq_swa_evicted r1 = max 0 4"
    "ck_alloc K1 = V4_Pool (v4_set_rank 0 R' v4_used)" "reclaimed 4 3 [1, 2] 6 0 4 (v4_ranks v4_used ! 0) R'"
    using reclaim_keeps_window [OF v4_small_ok(2) v4_req_live(1) f] unfolding v4_req_live(2) e v4_small v4_used_facts of_nat_0 by blast
  have m: "v4_map R' ! ([4, 5, 6, 7, 8, 9] ! j) = (if (0 :: int) \<le> int j \<and> int j < 4 then 0 else v4_map (v4_ranks v4_used ! 0) ! ([4, 5, 6, 7, 8, 9] ! j))"
    if "j < 6" for j using w(4) that unfolding reclaimed_def v4_used_facts(3) by blast
  show ?thesis using w(1-3) m [of 0] m [of 5] by auto
qed

text \<open>C27. Releasing a request of a V4 cache that owns its extent gives everything back. \<open>release_req\<close> does not raise; exactly the slots of its extent stop holding
  tokens, both pools stay consistent, the mappings of all other slots are kept, its row is zero, its request slot is free, both release marks are set, and a second release
  changes nothing.\<close>

theorem v4_release_complete:
  assumes "v4_ok a" "v4_live_req r K a i pages n" "rq_allocated_len r = int n" "v4_outside a"
  shows "\<exists>r1 K1 R'. v4_release_req r K = Inr (r1, K1) \<and> ck_alloc K1 = V4_Pool (v4_set_rank (int (req_rank r)) R' a)
    \<and> v4_ok (v4_set_rank (int (req_rank r)) R' a)
    \<and> v4_slots (v4_page_size a) (v4_pages_per_rank a) R' =
        v4_slots (v4_page_size a) (v4_pages_per_rank a) (v4_ranks a ! req_rank r) - set (extent (v4_page_size a) pages n)
    \<and> (\<forall>s\<in>v4_slots (v4_page_size a) (v4_pages_per_rank a) R'. v4_map R' ! s = v4_map (v4_ranks a ! req_rank r) ! s)
    \<and> rq_pool_idx r1 = None \<and> rq_committed_freed r1 \<and> rq_over_freed r1
    \<and> rp_table (ck_pool K1) = (rp_table (ck_pool K))[i := replicate (length (rp_table (ck_pool K) ! i)) 0]
    \<and> rp_free (ck_pool K1) = rp_free (ck_pool K) @ [i] \<and> v4_release_req r1 K1 = Inr (r1, K1)"
proof -
  define p N R where "p = v4_page_size a" and "N = v4_pages_per_rank a" and "R = v4_ranks a ! req_rank r"
  let ?xs = "map int (extent p pages n)" and ?d = "int (req_rank r)"
  have L: "rq_pool_idx r = Some i" "i < length (rp_table (ck_pool K))" "take n (rp_table (ck_pool K) ! i) = ?xs"
    "req_rank r < v4_dp_size a" "ck_alloc K = V4_Pool a" "owns p N R pages n"
    using assms(2) by (simp_all add: v4_live_req_def p_def N_def R_def)
  have d: "(0 :: int) \<le> ?d" "?d < int (v4_dp_size a)" using L(4) by simp_all
  note inv = v4_rank_inv [OF assms(1) d, unfolded nat_int, folded p_def N_def R_def]
  note rel = owned_release [OF inv(1) L(6)]
  define R' where "R' = free_full_pages p (touched_pages p ?xs) R"
  note fr = free_full_rank [OF inv(1) rel(2,4), folded R'_def]
  have "v4_ok (v4_set_rank ?d R' a)"
    using free_full_pages_ok(1) [OF inv(1) touched_pages_set(2) rel(4)] inv(2)
    by (intro v4_ok_set_rank [OF assms(1)]) (simp_all add: R'_def free_full_pages_length p_def N_def)
  moreover have "v4_free_idx ?xs ?d a = Inr (v4_set_rank ?d R' a)"
    using rel(3) v4_rank_at_ok [OF assms(1), of ?d] d assms(4) by (simp add: v4_free_idx_def R'_def flip: p_def R_def)
  moreover have "pool_read (int i) (rq_allocated_len r) (ck_pool K) = Inr ?xs" using L(2,3) assms(3) by (simp add: pool_read_def py_slice_prefix)
  moreover have "np_get (rp_table (ck_pool K)) (int i) = Inr (rp_table (ck_pool K) ! i)" using L(2) by simp
  moreover have im: "nat ` set ?xs = set (extent p pages n)" by (auto simp: image_image)
  moreover have "\<forall>s\<in>v4_slots p N R'. v4_map R' ! s = v4_map R ! s" using fr im by auto
  ultimately show ?thesis using L(1,5) rel(1) fr(1) unfolding p_def [symmetric] N_def [symmetric] R_def [symmetric]
    by (simp add: v4_release_req_def pool_free_def Let_def)  blast
qed


theorem v4_release_complete_witness:
  "\<exists>r1 K1 R'. v4_release_req v4_req v4_cache = Inr (r1, K1) \<and> ck_alloc K1 = V4_Pool (v4_set_rank 0 R' v4_used)
     \<and> v4_slots 4 3 R' = v4_slots 4 3 (v4_ranks v4_used ! 0) - {4, 5, 6, 7, 8, 9} \<and> rp_free (ck_pool K1) = [0] \<and> rq_pool_idx r1 = None"
proof -
  have f: "rq_allocated_len v4_req = int 6" and e: "rp_free (ck_pool v4_cache) = []" by (simp_all add: v4_req_def v4_cache_def)
  have x: "set (extent 4 [1, 2] 6) = {4, 5, 6, 7, 8, 9}" unfolding v4_used_facts by auto
  show ?thesis using v4_release_complete [OF v4_small_ok(2) v4_req_live(1) f v4_small(4)] unfolding v4_req_live(2) v4_small v4_used_facts(2) x e of_nat_0 by auto
qed

text \<open>C14. A request that owns its extent can always ask for more: the estimate accepts its tail; when both pools suffice, the slots that \<open>alloc_extend\<close> returns
  continue its extent in place, on its last page and then on new pages in order, the request owns the longer extent, and every other request keeps its own;
  otherwise \<open>alloc_extend\<close> returns \<open>None\<close> and changes nothing. The pages taken are exactly those that the longer extent needs.\<close>

theorem v4_request_grows:
  assumes "v4_ok a" and "0 \<le> d" "d < int (v4_dp_size a)" and "0 < c"
    and "owns (v4_page_size a) (v4_pages_per_rank a) (v4_ranks a ! nat d) pages n"
  shows "\<exists>dem. estimate_extend [int n] [int (n + c)] [tail_of (v4_page_size a) pages n] (int c) d a = Inr dem
    \<and> (let R = v4_ranks a ! nat d; pages' = pages @ take (history_pages dem) (v4_free R) in
       if history_pages dem \<le> length (v4_free R) \<and> swa_pages dem \<le> length (v4_swa_free R)
       then \<exists>out R'. v4_alloc_extend [int n] [int (n + c)] [tail_of (v4_page_size a) pages n] (int c) d a = Inr (Some out, v4_set_rank d R' a)
         \<and> v4_ok (v4_set_rank d R' a) \<and> extent (v4_page_size a) pages' (n + c) = extent (v4_page_size a) pages n @ out
         \<and> owns (v4_page_size a) (v4_pages_per_rank a) R' pages' (n + c)
         \<and> (\<forall>q m. owns (v4_page_size a) (v4_pages_per_rank a) R q m \<and> set q \<inter> set pages = {} \<longrightarrow>
              owns (v4_page_size a) (v4_pages_per_rank a) R' q m \<and> set q \<inter> set pages' = {})
       else v4_alloc_extend [int n] [int (n + c)] [tail_of (v4_page_size a) pages n] (int c) d a = Inr (None, a))"
  by (rule grow_request [OF assms])

theorem v4_request_grows_witness:
  "\<exists>R'. v4_alloc_extend [6] [9] [9] 3 0 v4_used = Inr (Some [10, 11, 12], v4_set_rank 0 R' v4_used) \<and> owns 4 3 R' [1, 2, 3] 9"
proof -
  have d: "(0 :: int) \<le> 0" "(0 :: int) < int (v4_dp_size v4_used)" "(0 :: nat) < 3" by (simp_all add: v4_small)
  have o: "owns (v4_page_size v4_used) (v4_pages_per_rank v4_used) (v4_ranks v4_used ! nat 0) [1, 2] 6"
    using v4_used_owns by (simp add: v4_small v4_used_facts)
  have e: "estimate_extend [6] [9] [9] 3 0 v4_used = Inr \<lparr>history_pages = 1, swa_pages = 1, demand_page_size = 4\<rparr>"
    "v4_free (v4_ranks v4_used ! 0) = [3]" "v4_swa_free (v4_ranks v4_used ! 0) = [3]" "extent 4 [1, 2, 3] 9 = [4, 5, 6, 7, 8, 9, 10, 11, 12]" by code_simp+
  have t: "tail_of 4 [1, 2] 6 = 9" by code_simp
  obtain out R' where "v4_alloc_extend [6] [9] [9] 3 0 v4_used = Inr (Some out, v4_set_rank 0 R' v4_used)"
    "extent 4 [1, 2, 3] 9 = extent 4 [1, 2] 6 @ out" "owns 4 3 R' [1, 2, 3] 9"
    using v4_request_grows [OF v4_small_ok(2) d o] by (auto simp: v4_small t e v4_used_facts(2) Let_def simp del: One_nat_def)
  then show ?thesis by (auto simp: v4_used_facts(3) e(4) simp del: One_nat_def)
qed

end
