(* ===== verification/V4_Capacity.thy ===== *)
theory V4_Capacity
  imports V4_Client Req_Pool
begin

text \<open>
  \<open>mem_cache/deepseek_v4/capacity.py\<close>, with the cache specification and the buffer layouts of \<open>pool.py\<close> and \<open>state.py\<close>: how many requests,
  history pages and window pages fit the memory of a device, and the pools built from that budget. Buffers are represented by their
  layers and shapes. The ratio of window to history pages is a floating-point number in the code; here it is
  the function \<open>\<lambda>pages. math.ceil(pages * swa_full_tokens_ratio)\<close>, an argument. The layout switch of the environment
  (\<open>native_hca_layout\<close>) and the size of the mesh axis are arguments, too.
\<close>

section \<open>The specification of the cache\<close>

record cache_spec =
  compress_ratios :: "int list"
  head_dim :: int
  index_head_dim :: int
  sliding_window_size :: "int option"

definition cache_spec_init :: "int list \<Rightarrow> int \<Rightarrow> int \<Rightarrow> int option \<Rightarrow> cache_spec result" where
  "cache_spec_init ratios h ih w =
     (if ratios = [] \<or> list_ex (\<lambda>r. r \<notin> {0, 4, 128}) ratios then Inl ValueError
      else if h \<le> 0 \<or> ih \<le> 0 then Inl ValueError
      else Inr \<lparr>compress_ratios = ratios, head_dim = h, index_head_dim = ih, sliding_window_size = w\<rparr>)"

definition cache_spec_from_config :: "int \<Rightarrow> int list \<Rightarrow> int \<Rightarrow> int \<Rightarrow> int option \<Rightarrow> cache_spec result" where
  "cache_spec_from_config n ratios h ih w =
     (if n \<le> 0 \<or> int (length ratios) < n then Inl ValueError else cache_spec_init (take (nat n) ratios) h ih w)"

definition spec_layers :: "int \<Rightarrow> cache_spec \<Rightarrow> nat list" where
  "spec_layers ratio s = filter (\<lambda>i. compress_ratios s ! i = ratio) [0..<length (compress_ratios s)]"

definition history_bytes_per_page :: "int \<Rightarrow> cache_spec \<Rightarrow> int" where
  "history_bytes_per_page p s = 2 * (int (length (spec_layers 4 s)) * (head_dim s + index_head_dim s) * (p div 4)
     + int (length (spec_layers 128 s)) * head_dim s * (p div 128))"

definition swa_bytes_per_token :: "cache_spec \<Rightarrow> int" where
  "swa_bytes_per_token s = 2 * int (length (compress_ratios s)) * head_dim s"

definition state_bytes_per_request :: "cache_spec \<Rightarrow> int" where
  "state_bytes_per_request s = 4 * (int (length (spec_layers 4 s)) * 8 * 4 * (head_dim s + index_head_dim s)
     + int (length (spec_layers 128 s)) * 128 * 2 * head_dim s)"

section \<open>Planning\<close>

record pool_budget =
  max_num_reqs :: int
  budget_history_tokens :: int
  budget_swa_tokens :: int
  state_bytes_per_device :: int
  kv_bytes_per_device :: int
  available_bytes_per_device :: int

definition allocated_bytes_per_device :: "pool_budget \<Rightarrow> int" where
  "allocated_bytes_per_device b = state_bytes_per_device b + kv_bytes_per_device b"

definition validate_swa_pool_size :: "int \<Rightarrow> int option \<Rightarrow> int \<Rightarrow> unit result" where
  "validate_swa_pool_size swa_tok window p = (case window of
     None \<Rightarrow> Inl ValueError
   | Some w \<Rightarrow> if w \<le> 0 then Inl ValueError else raise_unless ValueError (\<not> swa_tok \<le> w + p))"

definition swa_pages_for :: "(int \<Rightarrow> int) \<Rightarrow> int \<Rightarrow> int" where
  "swa_pages_for ceil_ratio pages = max 1 (ceil_ratio pages)"

definition size_for :: "(int \<Rightarrow> int) \<Rightarrow> int \<Rightarrow> int \<Rightarrow> int \<Rightarrow> int" where
  "size_for ceil_ratio history_page swa_page pages =
     (pages + 1) * history_page + (swa_pages_for ceil_ratio pages + 1) * swa_page"

text \<open>The binary search for the largest number of pages that fits.\<close>

function search_pages :: "(int \<Rightarrow> int) \<Rightarrow> int \<Rightarrow> int \<Rightarrow> int \<Rightarrow> int" where
  "search_pages bytes budget lo hi =
     (if lo < hi
      then let mid = (lo + hi + 1) div 2 in
        if bytes mid \<le> budget then search_pages bytes budget mid hi else search_pages bytes budget lo (mid - 1)
      else lo)"
  by pat_completeness auto
termination
  by (relation "measure (\<lambda>(f, b, lo, hi). nat (hi - lo))") auto

declare search_pages.simps [simp del]

definition default_num_reqs :: "int option \<Rightarrow> int \<Rightarrow> int \<Rightarrow> int \<Rightarrow> int" where
  "default_num_reqs req available state_cell dp = (case req of
     Some n \<Rightarrow> n
   | None \<Rightarrow> min 2048 (max dp (available div max 1 (4 * state_cell))) div dp * dp)"

definition search_limit :: "int \<Rightarrow> int \<Rightarrow> int \<Rightarrow> int option \<Rightarrow> int" where
  "search_limit kv_budget history_page p max_total =
     (let hi = min (max 0 (kv_budget div max 1 history_page)) ((2 ^ 31 - 1) div p - 1) in
      case max_total of None \<Rightarrow> hi | Some m \<Rightarrow> min hi (m div p))"

definition plan_deepseek_v4_pools ::
    "cache_spec \<Rightarrow> int \<Rightarrow> int option \<Rightarrow> int \<Rightarrow> int \<Rightarrow> bool \<Rightarrow> (int \<Rightarrow> int) \<Rightarrow> int option \<Rightarrow> pool_budget result" where
  "plan_deepseek_v4_pools s available req p dp ratio_ok ceil_ratio max_total =
     (if p \<notin> {128, 256} \<or> dp \<le> 0 then Inl ValueError
      else if \<not> ratio_ok then Inl ValueError
      else
       let state_cell = state_bytes_per_request s; history_page = history_bytes_per_page p s; swa_page = swa_bytes_per_token s * p;
           reqs = default_num_reqs req available state_cell dp in
       if reqs \<le> 0 then Inl ValueError
       else
        let state_bytes = (reqs + 1) * state_cell; kv_budget = available - state_bytes;
            lo = search_pages (size_for ceil_ratio history_page swa_page) kv_budget 0 (search_limit kv_budget history_page p max_total) in
        if lo < 1 then Inl ValueError
        else let swa_pages = swa_pages_for ceil_ratio lo in
          rbind (validate_swa_pool_size (swa_pages * p) (sliding_window_size s) p) (\<lambda>_.
          if (swa_pages + 1) * p > 2 ^ 31 - 1 then Inl ValueError
          else Inr \<lparr>max_num_reqs = reqs, budget_history_tokens = lo * p * dp, budget_swa_tokens = swa_pages * p * dp,
                 state_bytes_per_device = state_bytes, kv_bytes_per_device = size_for ceil_ratio history_page swa_page lo,
                 available_bytes_per_device = available\<rparr>))"

section \<open>Building\<close>

text \<open>A family of buffers: its name, its layers, the shape of each buffer.\<close>

type_synonym buffer_layout = "(string \<times> nat list \<times> int list) list"

definition buffer_nbytes :: "int \<Rightarrow> buffer_layout \<Rightarrow> int" where
  "buffer_nbytes itemsize layout = sum_list (map (\<lambda>(_, ls, shape). int (length ls) * (prod_list shape * itemsize)) layout)"

definition kv_layout :: "bool \<Rightarrow> int \<Rightarrow> int \<Rightarrow> int \<Rightarrow> int \<Rightarrow> cache_spec \<Rightarrow> buffer_layout" where
  "kv_layout native n n_swa p dp s =
     (let pages = (n div dp div p + 1) * dp in
      [(''swa'', [0..<length (compress_ratios s)], [(n_swa div dp + p) * dp, head_dim s]),
       (''c4'', spec_layers 4 s, [pages, p div 4, head_dim s]),
       (''c128'', spec_layers 128 s, if native then [pages, 1, p div 128, head_dim s] else [pages, p div 128, head_dim s]),
       (''indexer'', spec_layers 4 s, [pages, p div 4, index_head_dim s])])"

definition kv_pool_init :: "bool \<Rightarrow> int \<Rightarrow> int \<Rightarrow> int \<Rightarrow> int \<Rightarrow> cache_spec \<Rightarrow> int \<Rightarrow> buffer_layout result" where
  "kv_pool_init native n n_swa p dp s mesh_data =
     (if p \<notin> {128, 256} then Inl ValueError
      else if dp \<le> 0 \<or> mesh_data \<noteq> dp then Inl ValueError
      else if list_ex (\<lambda>k. k \<le> 0 \<or> k mod (p * dp) \<noteq> 0) [n, n_swa] then Inl ValueError
      else Inr (kv_layout native n n_swa p dp s))"

definition state_layout :: "bool \<Rightarrow> int \<Rightarrow> int \<Rightarrow> cache_spec \<Rightarrow> buffer_layout" where
  "state_layout native n dp s =
     (let slots = (n + 1) * dp in
      [(''c4'', spec_layers 4 s, [slots, 8, 4 * head_dim s]),
       (''c128'', spec_layers 128 s, if native then [slots, 128, 2, head_dim s] else [slots, 128, 2 * head_dim s]),
       (''indexer'', spec_layers 4 s, [slots, 8, 4 * index_head_dim s])])"

definition state_pool_init :: "bool \<Rightarrow> int \<Rightarrow> int \<Rightarrow> cache_spec \<Rightarrow> int \<Rightarrow> buffer_layout result" where
  "state_pool_init native n dp s mesh_data =
     (if n \<le> 0 \<or> dp \<le> 0 \<or> mesh_data \<noteq> dp then Inl ValueError else Inr (state_layout native n dp s))"

definition build_deepseek_v4_pools ::
    "bool \<Rightarrow> cache_spec \<Rightarrow> pool_budget \<Rightarrow> int \<Rightarrow> int \<Rightarrow> nat \<Rightarrow> int \<Rightarrow> req_pool option
      \<Rightarrow> (req_pool \<times> buffer_layout \<times> buffer_layout \<times> v4_allocator) result" where
  "build_deepseek_v4_pools native s b p mesh_data ctx dp req =
     rbind (case req of None \<Rightarrow> Inr (req_pool_init (nat (max_num_reqs b)) ctx)
            | Some P \<Rightarrow> if int (rp_size P) \<noteq> max_num_reqs b then Inl ValueError else Inr P) (\<lambda>P.
     rbind (kv_pool_init native (budget_history_tokens b) (budget_swa_tokens b) p dp s mesh_data) (\<lambda>kv.
     rbind (state_pool_init native (max_num_reqs b) dp s mesh_data) (\<lambda>st.
     rbind (v4_init (nat (budget_history_tokens b)) (nat (budget_swa_tokens b)) (nat p) (nat dp)) (\<lambda>a.
     if (buffer_nbytes 2 kv + buffer_nbytes 4 st) div dp \<noteq> allocated_bytes_per_device b then Inl ValueError
     else Inr (P, kv, st, a)))))"

section \<open>The search\<close>

lemma search_pages_correct:
  assumes mono: "\<And>x y. 0 \<le> x \<Longrightarrow> x \<le> y \<Longrightarrow> bytes x \<le> bytes y" and "0 \<le> lo" "lo \<le> hi" "lo = 0 \<or> bytes lo \<le> budget"
  shows "lo \<le> search_pages bytes budget lo hi \<and> search_pages bytes budget lo hi \<le> hi
    \<and> (search_pages bytes budget lo hi = 0 \<or> bytes (search_pages bytes budget lo hi) \<le> budget)
    \<and> (\<forall>q. search_pages bytes budget lo hi < q \<longrightarrow> q \<le> hi \<longrightarrow> budget < bytes q)"
  using assms(2-4)
proof (induction "nat (hi - lo)" arbitrary: lo hi rule: less_induct)
  case less
  let ?mid = "(lo + hi + 1) div 2"
  show ?case
  proof (cases "lo < hi")
    case False
    then show ?thesis using less.prems search_pages.simps [of bytes budget lo hi] by auto
  next
    case True
    then have mid: "lo < ?mid" "?mid \<le> hi" by auto
    show ?thesis
    proof (cases "bytes ?mid \<le> budget")
      case True
      have e: "search_pages bytes budget lo hi = search_pages bytes budget ?mid hi" using \<open>lo < hi\<close> True search_pages.simps [of bytes budget lo hi] by simp
      have "nat (hi - ?mid) < nat (hi - lo)" using mid by linarith
      from less.hyps [OF this] show ?thesis unfolding e using less.prems mid True by force
    next
      case False
      have e: "search_pages bytes budget lo hi = search_pages bytes budget lo (?mid - 1)" using \<open>lo < hi\<close> False search_pages.simps [of bytes budget lo hi] by simp
      have "nat (?mid - 1 - lo) < nat (hi - lo)" using mid by linarith
      note IH = less.hyps [OF this less.prems(1) _ less.prems(3)]
      have big: "budget < bytes q" if "?mid \<le> q" for q using mono [of ?mid q] that False mid less.prems(1) by linarith
      have small: "budget < bytes q" if "search_pages bytes budget lo (?mid - 1) < q" "q \<le> ?mid - 1" for q using IH that mid by simp
      have "lo \<le> search_pages bytes budget lo (?mid - 1)" "search_pages bytes budget lo (?mid - 1) \<le> ?mid - 1"
        "search_pages bytes budget lo (?mid - 1) = 0 \<or> bytes (search_pages bytes budget lo (?mid - 1)) \<le> budget" using IH mid by simp_all
      then show ?thesis unfolding e using mid(2) big small by (intro conjI allI impI) (linarith | metis zle_diff1_eq linorder_not_le)+
    qed
  qed
qed

lemma spec_ok:
  assumes "cache_spec_init ratios h ih w = Inr s"
  shows "0 < head_dim s" "0 < index_head_dim s" "compress_ratios s \<noteq> []"
  using assms by (auto simp: cache_spec_init_def split: if_splits)

lemma spec_bytes_nonneg:
  assumes "0 < head_dim s" "0 < index_head_dim s" "0 \<le> p"
  shows "0 \<le> history_bytes_per_page p s" "0 \<le> swa_bytes_per_token s"
  using assms by (simp_all add: history_bytes_per_page_def swa_bytes_per_token_def pos_imp_zdiv_nonneg_iff)

lemma size_for_mono:
  assumes "\<And>x y. 0 \<le> x \<Longrightarrow> x \<le> y \<Longrightarrow> cr x \<le> cr y" "0 \<le> hp" "0 \<le> sp" "0 \<le> x" "x \<le> y"
  shows "size_for cr hp sp x \<le> size_for cr hp sp y"
  using assms(1) [OF assms(4,5)] assms(2,3,5) by (auto simp: size_for_def swa_pages_for_def intro!: add_mono mult_right_mono)


text \<open>The caps of the search: the budget, the width of a location, and the total that the caller allows.\<close>

lemma search_limit_caps:
  assumes "0 < p" "0 \<le> hp" "q \<le> search_limit B hp p mt"
  shows "(q + 1) * p \<le> 2 ^ 31 - 1" "mt = Some m \<Longrightarrow> q * p \<le> m"
proof -
  have q: "q \<le> (2 ^ 31 - 1) div p - 1" "mt = Some m \<Longrightarrow> q \<le> m div p"
    using assms(3) by (auto simp: search_limit_def Let_def split: option.splits)
  have dm: "x div p * p \<le> x" for x :: int using assms(1) div_mult_mod_eq [of x p] pos_mod_sign [OF assms(1), of x] by linarith
  have "(q + 1) * p \<le> (2 ^ 31 - 1) div p * p" using q(1) assms(1) by (intro mult_right_mono) auto
  then show "(q + 1) * p \<le> 2 ^ 31 - 1" using dm [of "2 ^ 31 - 1"] by linarith
  assume "mt = Some m"
  then have "q * p \<le> m div p * p" using q(2) assms(1) by (intro mult_right_mono) auto
  then show "q * p \<le> m" using dm [of m] by linarith
qed

lemma search_limit_reaches:
  assumes "0 < p" "0 \<le> hp" "1 \<le> q" "(q + 1) * p \<le> 2 ^ 31 - 1" "\<forall>m. mt = Some m \<longrightarrow> q * p \<le> m" "q * hp \<le> B" "hp = 0 \<longrightarrow> q \<le> B"
  shows "q \<le> search_limit B hp p mt"
proof -
  have le: "x \<le> y div d" if "x * d \<le> y" "0 < d" for x y d :: int
    using that zdiv_mono1 [of "x * d" y d] by simp
  have "q \<le> B div max 1 hp" using assms(2,6,7) le [of q "max 1 hp" B] by (cases "hp = 0") (auto simp: max_def)
  moreover have "q + 1 \<le> (2 ^ 31 - 1) div p" using le [OF assms(4,1)] .
  moreover have "q \<le> m div p" if "mt = Some m" for m using le [of q p m] assms(1,5) that by blast
  ultimately show ?thesis using assms(3) by (auto simp: search_limit_def Let_def split: option.splits)
qed

lemma plan_InrD:
  assumes "plan_deepseek_v4_pools s available req p dp ratio_ok cr mt = Inr b"
  defines "hp \<equiv> history_bytes_per_page p s" and "sp \<equiv> swa_bytes_per_token s * p" and "B \<equiv> available - state_bytes_per_device b"
  defines "lo \<equiv> search_pages (size_for cr hp sp) B 0 (search_limit B hp p mt)"
  shows "p = 128 \<or> p = 256" "0 < dp" "0 < max_num_reqs b" "1 \<le> lo" "state_bytes_per_device b = (max_num_reqs b + 1) * state_bytes_per_request s"
    "budget_history_tokens b = lo * p * dp" "budget_swa_tokens b = swa_pages_for cr lo * p * dp" "kv_bytes_per_device b = size_for cr hp sp lo"
    "(swa_pages_for cr lo + 1) * p \<le> 2 ^ 31 - 1" "\<exists>w. sliding_window_size s = Some w \<and> 0 < w \<and> w + p < swa_pages_for cr lo * p"
  using assms by (auto simp: plan_deepseek_v4_pools_def Let_def rbind_eq_Inr_iff validate_swa_pool_size_def raise_unless_def
      split: if_splits option.splits)

text \<open>C28. The plan of the DeepSeek V4 pools fits and is the largest that does. State and KV bytes together do not exceed the available bytes; every location of both pools
  fits 32 bits; the window pool admits a request; the cap of the caller is kept; and no larger number of history pages within the
  address width and the cap would fit. \<open>cr\<close> is the rounded product with the ratio, which grows with the number of pages.\<close>

theorem plan_pools_maximal:
  assumes "cache_spec_init ratios h ih w = Inr s" and "\<forall>x y. 0 \<le> x \<and> x \<le> y \<longrightarrow> cr x \<le> cr y"
    and "plan_deepseek_v4_pools s available req p dp ratio_ok cr mt = Inr b"
  shows "\<exists>pages. 1 \<le> pages \<and> budget_history_tokens b = pages * p * dp \<and> budget_swa_tokens b = swa_pages_for cr pages * p * dp
    \<and> kv_bytes_per_device b = size_for cr (history_bytes_per_page p s) (swa_bytes_per_token s * p) pages
    \<and> allocated_bytes_per_device b \<le> available
    \<and> (pages + 1) * p \<le> 2 ^ 31 - 1 \<and> (swa_pages_for cr pages + 1) * p \<le> 2 ^ 31 - 1
    \<and> (\<exists>win. sliding_window_size s = Some win \<and> 0 < win \<and> win + p < swa_pages_for cr pages * p)
    \<and> (\<forall>m. mt = Some m \<longrightarrow> pages * p \<le> m)
    \<and> (\<forall>q>pages. (q + 1) * p \<le> 2 ^ 31 - 1 \<longrightarrow> (\<forall>m. mt = Some m \<longrightarrow> q * p \<le> m) \<longrightarrow>
         (history_bytes_per_page p s = 0 \<longrightarrow> q \<le> available - state_bytes_per_device b) \<longrightarrow>
         available < state_bytes_per_device b + size_for cr (history_bytes_per_page p s) (swa_bytes_per_token s * p) q)"
proof -
  define hp sp B where "hp = history_bytes_per_page p s" and "sp = swa_bytes_per_token s * p" and "B = available - state_bytes_per_device b"
  define lo where "lo = search_pages (size_for cr hp sp) B 0 (search_limit B hp p mt)"
  note P = plan_InrD [OF assms(3), folded hp_def sp_def B_def, folded lo_def]
  note sp = spec_ok [OF assms(1)]
  have p: "0 < p" using P(1) by auto
  have nn: "0 \<le> hp" "0 \<le> sp" using spec_bytes_nonneg [OF sp(1,2), of p] p by (simp_all add: hp_def sp_def)
  have mono: "size_for cr hp sp x \<le> size_for cr hp sp y" if "0 \<le> x" "x \<le> y" for x y
    by (rule size_for_mono) (use assms(2) nn that in auto)
  have lim: "0 \<le> search_limit B hp p mt"
  proof (rule ccontr)
    assume "\<not> 0 \<le> search_limit B hp p mt"
    then have "lo = 0" unfolding lo_def by (subst search_pages.simps) simp
    then show False using P(4) by simp
  qed
  note S = search_pages_correct [of "size_for cr hp sp" 0 "search_limit B hp p mt" B, OF mono _ lim, folded lo_def, simplified]
  have fit: "size_for cr hp sp lo \<le> B" using S P(4) by auto
  have caps: "(lo + 1) * p \<le> 2 ^ 31 - 1" "\<forall>m. mt = Some m \<longrightarrow> lo * p \<le> m" using search_limit_caps [OF p nn(1)] S by blast+
  have best: "available < state_bytes_per_device b + size_for cr hp sp q"
    if q: "lo < q" "(q + 1) * p \<le> 2 ^ 31 - 1" "\<forall>m. mt = Some m \<longrightarrow> q * p \<le> m" "hp = 0 \<longrightarrow> q \<le> B" for q
  proof (rule ccontr)
    assume "\<not> ?thesis"
    then have le: "size_for cr hp sp q \<le> B" by (simp add: B_def)
    have "0 \<le> (swa_pages_for cr q + 1) * sp" using nn(2) by (simp add: swa_pages_for_def)
    then have "q * hp \<le> B" using le nn(1) unfolding size_for_def by (simp add: distrib_right)
    then have "q \<le> search_limit B hp p mt" using search_limit_reaches [OF p nn(1) _ q(2,3) _ q(4)] P(4) q(1) by simp
    then show False using S q(1) le by auto
  qed
  have "allocated_bytes_per_device b \<le> available" using fit P(8) by (simp add: allocated_bytes_per_device_def B_def)
  then show ?thesis unfolding hp_def [symmetric] sp_def [symmetric] B_def [symmetric]
    using P(4,6-10) caps best by - (rule exI [of _ lo], intro conjI; blast)
qed


section \<open>The pools of a plan\<close>

lemma kv_bytes:
  assumes "0 < dp" "0 < p" "n = lo * p * dp" "m = sw * p * dp"
  shows "buffer_nbytes 2 (kv_layout native n m p dp s) = dp * ((lo + 1) * history_bytes_per_page p s + (sw + 1) * (swa_bytes_per_token s * p))"
proof -
  have d: "n div dp div p = lo" "m div dp = sw * p" using assms by simp_all
  show ?thesis by (simp add: kv_layout_def Let_def d buffer_nbytes_def history_bytes_per_page_def swa_bytes_per_token_def algebra_simps)
qed

lemma state_bytes: "buffer_nbytes 4 (state_layout native n dp s) = dp * ((n + 1) * state_bytes_per_request s)"
  by (simp add: state_layout_def Let_def buffer_nbytes_def state_bytes_per_request_def algebra_simps)

lemma v4_init_free:
  assumes "v4_init n m p dp = Inr a" "R \<in> set (v4_ranks a)"
  shows "length (v4_free R) = n div dp div p" "length (v4_swa_free R) = m div dp div p"
  using assms by (auto simp: v4_init_def v4_clear_def v4_clear_rank_def Let_def v4_pages_per_rank_def v4_swa_pages_per_rank_def
      v4_size_per_rank_def split: if_splits)

text \<open>C29. A plan can be built: with a mesh of the planned width and no request pool or one of the planned size, \<open>build_deepseek_v4_pools\<close> does not raise; in
  particular the bytes of all buffer shapes, in either layout, are what the plan counted. The allocator starts consistent, and every rank
  has its share of the planned history and window tokens free.\<close>

theorem plan_build_succeeds:
  assumes "plan_deepseek_v4_pools s available req p dp ratio_ok cr mt = Inr b" and "\<forall>P. rp = Some P \<longrightarrow> int (rp_size P) = max_num_reqs b"
  shows "\<exists>P kv st a. build_deepseek_v4_pools native s b p dp ctx dp rp = Inr (P, kv, st, a) \<and> int (rp_size P) = max_num_reqs b \<and> v4_ok a
    \<and> (\<forall>d. 0 \<le> d \<and> d < dp \<longrightarrow> v4_full_available d a = Inr (nat (budget_history_tokens b div dp))
         \<and> v4_swa_available d a = Inr (nat (budget_swa_tokens b div dp)))"
proof -
  define hp sp B where "hp = history_bytes_per_page p s" and "sp = swa_bytes_per_token s * p" and "B = available - state_bytes_per_device b"
  define lo where "lo = search_pages (size_for cr hp sp) B 0 (search_limit B hp p mt)"
  define sw where "sw = swa_pages_for cr lo"
  note P = plan_InrD [OF assms(1), folded hp_def sp_def B_def, folded lo_def, folded sw_def]
  have p: "0 < p" "0 < dp" using P(1,2) by auto
  have sw: "1 \<le> sw" by (simp add: sw_def swa_pages_for_def)
  let ?kv = "kv_layout native (budget_history_tokens b) (budget_swa_tokens b) p dp s" and ?st = "state_layout native (max_num_reqs b) dp s"
  have kv: "kv_pool_init native (budget_history_tokens b) (budget_swa_tokens b) p dp s dp = Inr ?kv"
  proof -
    have "0 < lo * p * dp" "0 < sw * p * dp" using P(4) sw p by simp_all
    moreover have "lo * p * dp mod (p * dp) = 0" "sw * p * dp mod (p * dp) = 0" by (simp_all add: mult.assoc)
    ultimately show ?thesis using P(1,2) unfolding kv_pool_init_def P(6,7) by auto
  qed
  have st: "state_pool_init native (max_num_reqs b) dp s dp = Inr ?st" using P(2,3) by (simp add: state_pool_init_def)
  obtain a where a: "v4_init (nat (budget_history_tokens b)) (nat (budget_swa_tokens b)) (nat p) (nat dp) = Inr a"
    using p by (auto simp: v4_init_def v4_clear_def Let_def)
  have "(buffer_nbytes 2 ?kv + buffer_nbytes 4 ?st) div dp = allocated_bytes_per_device b"
    unfolding kv_bytes [OF p(2,1) P(6,7)] state_bytes distrib_left [symmetric] using p(2) P(5,8)
    by (simp add: allocated_bytes_per_device_def size_for_def hp_def sp_def flip: sw_def)
  moreover obtain Q where "(case rp of None \<Rightarrow> Inr (req_pool_init (nat (max_num_reqs b)) ctx)
      | Some P \<Rightarrow> if int (rp_size P) \<noteq> max_num_reqs b then Inl ValueError else Inr P) = Inr Q" "int (rp_size Q) = max_num_reqs b"
    using assms(2) P(3) by (cases rp) (auto simp: req_pool_init_def)
  ultimately have run: "build_deepseek_v4_pools native s b p dp ctx dp rp = Inr (Q, ?kv, ?st, a)" "int (rp_size Q) = max_num_reqs b"
    by (simp_all add: build_deepseek_v4_pools_def kv st a)
  note ok = v4_init_ok [OF a]
  have "v4_full_available d a = Inr (nat (budget_history_tokens b div dp)) \<and> v4_swa_available d a = Inr (nat (budget_swa_tokens b div dp))"
    if d: "0 \<le> d" "d < dp" for d
  proof -
    have "v4_rank_at d a = Inr (v4_ranks a ! nat d)" "v4_ranks a ! nat d \<in> set (v4_ranks a)"
      using v4_rank_at_ok [OF ok(1), of d] d ok(1,4) by (auto simp: v4_ok_def nat_less_iff)
    moreover have "nat (budget_history_tokens b) div nat dp div nat p = nat lo" "nat (budget_swa_tokens b) div nat dp div nat p = nat sw"
      using p P(4,6,7) sw by (simp_all flip: nat_div_distrib)
    ultimately show ?thesis using v4_init_free [OF a] ok(3) P(4,6,7) sw p
      by (simp add: v4_full_available_def v4_swa_available_def nat_mult_distrib)
  qed
  then show ?thesis using run ok(1) by blast
qed

definition spec_small :: cache_spec where
  "spec_small = \<lparr>compress_ratios = [0, 4, 128], head_dim = 8, index_head_dim = 4, sliding_window_size = Some 128\<rparr>"

lemma spec_small: "cache_spec_init [0, 4, 128] 8 4 (Some 128) = Inr spec_small"
  by code_simp

definition budget_small :: pool_budget where
  "budget_small = (case plan_deepseek_v4_pools spec_small 1048576 (Some 3) 128 2 True id (Some 384) of Inr b \<Rightarrow> b)"

lemma budget_small: "plan_deepseek_v4_pools spec_small 1048576 (Some 3) 128 2 True id (Some 384) = Inr budget_small"
  "budget_history_tokens budget_small = 768" "budget_swa_tokens budget_small = 768"
  by code_simp+

theorem plan_pools_maximal_witness:
  "plan_deepseek_v4_pools spec_small 1048576 (Some 3) 128 2 True id (Some 384) = Inr budget_small \<and> budget_history_tokens budget_small = 768
   \<and> allocated_bytes_per_device budget_small \<le> 1048576"
proof -
  have m: "\<forall>x y. 0 \<le> x \<and> x \<le> y \<longrightarrow> id x \<le> (id y :: int)" by simp
  show ?thesis using plan_pools_maximal [OF spec_small m budget_small(1)] budget_small by blast
qed

theorem plan_build_succeeds_witness:
  "\<exists>P kv st a. build_deepseek_v4_pools True spec_small budget_small 128 2 256 2 None = Inr (P, kv, st, a) \<and> v4_full_available 1 a = Inr 384"
proof -
  have n: "\<forall>P. (None :: req_pool option) = Some P \<longrightarrow> int (rp_size P) = max_num_reqs budget_small" by simp
  show ?thesis using plan_build_succeeds [OF budget_small(1) n, of True 256] unfolding budget_small by fastforce
qed

end
