(* ===== verification/Py_Text.thy ===== *)
theory Py_Text
  imports Sgl_Prelude "HOL-Library.Sublist"
begin

text \<open>
  The string operations of Python that the output parsers use. A text is the list of its code points, so that the
  tags outside ASCII are texts too; \<open>str\<close> turns a literal into a text.
\<close>

type_synonym py_str = "nat list"

definition str :: "string \<Rightarrow> py_str" where
  "str s = map of_char s"

text \<open>\<open>str.isspace\<close> of one code point.\<close>

definition is_space :: "nat \<Rightarrow> bool" where
  "is_space c \<longleftrightarrow> (9 \<le> c \<and> c \<le> 13) \<or> (28 \<le> c \<and> c \<le> 32) \<or> c = 133 \<or> c = 160 \<or> c = 5760 \<or> (8192 \<le> c \<and> c \<le> 8202)
     \<or> c = 8232 \<or> c = 8233 \<or> c = 8239 \<or> c = 8287 \<or> c = 12288"

definition lstrip :: "py_str \<Rightarrow> py_str" where
  "lstrip s = dropWhile is_space s"

definition rstrip :: "py_str \<Rightarrow> py_str" where
  "rstrip s = rev (dropWhile is_space (rev s))"

definition strip :: "py_str \<Rightarrow> py_str" where
  "strip s = rstrip (lstrip s)"

text \<open>\<open>s.find(p)\<close>, and \<open>p in s\<close>.\<close>

fun find_sub :: "py_str \<Rightarrow> py_str \<Rightarrow> nat option" where
  "find_sub p [] = (if p = [] then Some 0 else None)"
| "find_sub p (c # cs) = (if prefix p (c # cs) then Some 0 else map_option Suc (find_sub p cs))"

definition contains :: "py_str \<Rightarrow> py_str \<Rightarrow> bool" where
  "contains p s \<longleftrightarrow> find_sub p s \<noteq> None"

text \<open>\<open>s.replace(p, "")\<close>.\<close>

function remove_all :: "py_str \<Rightarrow> py_str \<Rightarrow> py_str" where
  "remove_all p [] = []"
| "remove_all p (c # cs) =
     (if p \<noteq> [] \<and> prefix p (c # cs) then remove_all p (drop (length p) (c # cs)) else c # remove_all p cs)"
  by pat_completeness auto
termination
  by (relation "measure (\<lambda>(p, s). length s)") auto

text \<open>\<open>str.lower\<close>, as far as ASCII results go: the Kelvin sign is the one code point outside ASCII whose lower case is
  a single ASCII letter.\<close>

definition lower_char :: "nat \<Rightarrow> nat" where
  "lower_char c = (if 65 \<le> c \<and> c \<le> 90 then c + 32 else if c = 8490 then 107 else c)"

definition lower :: "py_str \<Rightarrow> py_str" where
  "lower s = map lower_char s"

section \<open>Lemmas\<close>

lemma find_sub_Some:
  "find_sub p s = Some i \<longleftrightarrow> i \<le> length s \<and> prefix p (drop i s) \<and> (\<forall>j<i. \<not> prefix p (drop j s))"
proof (induction s arbitrary: i)
  case (Cons c cs)
  show ?case
  proof (cases i)
    case (Suc k)
    have all: "(\<forall>j<Suc k. \<not> prefix p (drop j (c # cs))) \<longleftrightarrow> \<not> prefix p (c # cs) \<and> (\<forall>j<k. \<not> prefix p (drop j cs))"
      by (auto simp: less_Suc_eq_0_disj)
    then show ?thesis using Cons.IH [of k] Suc by (auto simp: less_Suc_eq_0_disj)
  qed auto
qed auto

lemma contains_iff: "contains p s \<longleftrightarrow> (\<exists>a b. s = a @ p @ b)"
proof (induction s)
  case (Cons c cs)
  have "(\<exists>a b. c # cs = a @ p @ b) \<longleftrightarrow> prefix p (c # cs) \<or> (\<exists>a b. cs = a @ p @ b)"
    by (auto simp: prefix_def Cons_eq_append_conv)
  then show ?case using Cons.IH by (auto simp: contains_def)
qed (auto simp: contains_def)

text \<open>A tag that starts with a character the text does not have.\<close>

lemma not_contains_hd: "p \<noteq> [] \<Longrightarrow> hd p \<notin> set s \<Longrightarrow> \<not> contains p s"
  by (cases p) (auto simp: contains_iff)

lemma prefix_hd_in: "p \<noteq> [] \<Longrightarrow> prefix p s \<Longrightarrow> hd p \<in> set s"
  by (cases p) (auto simp: prefix_def)

lemma find_sub_skip:
  assumes "p \<noteq> []" "hd p \<notin> set a" "prefix p s"
  shows "find_sub p (a @ s) = Some (length a)"
proof -
  have "\<not> prefix p (drop j (a @ s))" if "j < length a" for j
  proof
    assume "prefix p (drop j (a @ s))"
    then have "hd p = hd (drop j (a @ s))" using assms(1) by (cases p) (auto simp: prefix_def)
    also have "\<dots> = a ! j" using that by (simp add: hd_drop_conv_nth hd_append)
    finally show False using assms(2) that by simp
  qed
  then show ?thesis using assms(3) by (simp add: find_sub_Some)
qed

lemma remove_all_id: "\<not> contains p s \<Longrightarrow> remove_all p s = s"
proof (induction s)
  case (Cons c cs)
  then have "\<not> prefix p (c # cs)" "\<not> contains p cs" by (auto simp: contains_def split: if_splits)
  then show ?case using Cons.IH by simp
qed simp

lemma remove_all_hd: "p \<noteq> [] \<Longrightarrow> remove_all p (p @ s) = remove_all p s"
  by (cases p) auto

lemma strip_idem [simp]: "strip (strip s) = strip s"
proof -
  have r: "rstrip (rstrip s) = rstrip s" for s by (simp add: rstrip_def)
  have "lstrip (rstrip (lstrip s)) = rstrip (lstrip s)"
  proof (cases "rstrip (lstrip s) = []")
    case False
    then obtain c cs where c: "lstrip s = c # cs" by (cases "lstrip s") (auto simp: rstrip_def)
    then have "\<not> is_space c" by (metis hd_dropWhile list.distinct(1) list.sel(1) lstrip_def)
    then have "hd (rstrip (c # cs)) = c" by (simp add: rstrip_def dropWhile_append)
    then show ?thesis using False \<open>\<not> is_space c\<close> c by (cases "rstrip (lstrip s)") (auto simp: lstrip_def)
  qed (simp add: lstrip_def)
  then show ?thesis by (simp add: strip_def r)
qed

end
