(* ===== verification/Reasoning_Parser.thy ===== *)
theory Reasoning_Parser
  imports Py_Text
begin

text \<open>
  \<open>reasoning_parser.py\<close>: the separation of a model's output into reasoning and answer, in one go
  (\<open>detect_and_parse\<close>) and chunk by chunk (\<open>parse_streaming_increment\<close>). A detector is a record with the class that
  selects its overridden methods; a method returns its result and the detector.
\<close>

section \<open>Detectors\<close>

record parse_result =
  normal_text :: py_str
  reasoning_text :: py_str

datatype detector_class = Base_Detector | Gemma4_Detector | Ling3_Detector

record detector =
  det_class :: detector_class
  think_start_token :: py_str
  think_end_token :: py_str
  in_reasoning :: bool
  stream_reasoning :: bool
  tool_start_token :: "py_str option"
  det_buffer :: py_str
  stripped_think_start :: bool

abbreviation no_text :: parse_result where
  "no_text \<equiv> \<lparr>normal_text = [], reasoning_text = []\<rparr>"

definition base_detector :: "detector_class \<Rightarrow> py_str \<Rightarrow> py_str \<Rightarrow> bool \<Rightarrow> bool \<Rightarrow> py_str option \<Rightarrow> detector" where
  "base_detector cls start_tok end_tok force stream tool =
     \<lparr>det_class = cls, think_start_token = start_tok, think_end_token = end_tok, in_reasoning = force, stream_reasoning = stream,
      tool_start_token = tool, det_buffer = [], stripped_think_start = False\<rparr>"

definition deepseek_r1_detector :: "bool \<Rightarrow> detector" where
  "deepseek_r1_detector stream = base_detector Base_Detector (str ''<think>'') (str ''</think>'') True stream None"

definition qwen3_detector :: "bool \<Rightarrow> detector" where
  "qwen3_detector stream = base_detector Base_Detector (str ''<think>'') (str ''</think>'') True stream None"

text \<open>The tags of Kimi are framed by the code points 9665 and 9655.\<close>

definition kimi_detector :: "bool \<Rightarrow> detector" where
  "kimi_detector stream =
     base_detector Base_Detector (9665 # str ''think'' @ [9655]) (9665 # str ''/think'' @ [9655]) False stream None"

definition glm45_detector :: "detector_class \<Rightarrow> bool \<Rightarrow> bool \<Rightarrow> detector" where
  "glm45_detector cls stream force =
     base_detector cls (str ''<think>'') (str ''</think>'') force stream (Some (str ''<tool_call>''))"

definition gemma_start :: py_str where
  "gemma_start = str ''<|channel>thought'' @ [10]"

definition gemma_short :: py_str where
  "gemma_short = str ''thought'' @ [10]"

definition gemma4_detector :: "bool \<Rightarrow> detector" where
  "gemma4_detector stream = base_detector Gemma4_Detector gemma_start (str ''<channel|>'') False stream None"

definition ling3_detector :: "bool \<Rightarrow> detector" where
  "ling3_detector stream = glm45_detector Ling3_Detector stream True"

section \<open>One-time parsing\<close>

text \<open>\<open>text.split(tok, maxsplit=1)\<close> of a text that contains the token.\<close>

definition split_at :: "py_str \<Rightarrow> py_str \<Rightarrow> py_str \<times> py_str" where
  "split_at tok s = (case find_sub tok s of None \<Rightarrow> (s, []) | Some i \<Rightarrow> (take i s, drop (i + length tok) s))"

definition base_detect_and_parse :: "py_str \<Rightarrow> detector \<Rightarrow> parse_result" where
  "base_detect_and_parse s D =
     (if \<not> (in_reasoning D \<or> prefix (think_start_token D) s) then \<lparr>normal_text = s, reasoning_text = []\<rparr>
      else let processed = strip (remove_all (think_start_token D) s) in
        if \<not> contains (think_end_token D) processed then
          (case tool_start_token D of
             None \<Rightarrow> \<lparr>normal_text = [], reasoning_text = processed\<rparr>
           | Some tool \<Rightarrow>
               (case find_sub tool processed of
                  None \<Rightarrow> \<lparr>normal_text = [], reasoning_text = processed\<rparr>
                | Some i \<Rightarrow> \<lparr>normal_text = drop i processed, reasoning_text = strip (take i processed)\<rparr>))
        else (case split_at (think_end_token D) processed of
                (r, n) \<Rightarrow> \<lparr>normal_text = strip n, reasoning_text = r\<rparr>))"

definition gemma_detect_and_parse :: "py_str \<Rightarrow> detector \<Rightarrow> parse_result \<times> detector" where
  "gemma_detect_and_parse s0 D0 =
     (let (s, D1) =
        (if prefix gemma_start s0 then (drop (length gemma_start) s0, D0\<lparr>in_reasoning := True\<rparr>)
         else if prefix gemma_short s0 then (drop (length gemma_short) s0, D0\<lparr>in_reasoning := True\<rparr>)
         else (s0, D0));
        D = (if \<not> in_reasoning D1 \<and> contains (str ''<channel|>'') s then D1\<lparr>in_reasoning := True\<rparr> else D1) in
      if \<not> in_reasoning D then (\<lparr>normal_text = s, reasoning_text = []\<rparr>, D)
      else let processed = strip s in
        if \<not> contains (think_end_token D) processed then (\<lparr>normal_text = [], reasoning_text = processed\<rparr>, D)
        else (case split_at (think_end_token D) processed of
                (r, n) \<Rightarrow> (\<lparr>normal_text = strip n, reasoning_text = strip r\<rparr>, D)))"

definition detect_and_parse :: "py_str \<Rightarrow> detector \<Rightarrow> parse_result \<times> detector" where
  "detect_and_parse s D = (case det_class D of
     Base_Detector \<Rightarrow> (base_detect_and_parse s D, D)
   | Gemma4_Detector \<Rightarrow> gemma_detect_and_parse s D
   | Ling3_Detector \<Rightarrow>
       (let res = base_detect_and_parse s D in
        (if reasoning_text res \<noteq> [] \<and> normal_text res = [] \<and> \<not> contains (str ''<tool_call>'') s
         then \<lparr>normal_text = reasoning_text res, reasoning_text = []\<rparr> else res, D)))"

section \<open>Streaming\<close>

definition is_partial :: "py_str list \<Rightarrow> py_str \<Rightarrow> bool" where
  "is_partial toks s \<longleftrightarrow> list_ex (\<lambda>t. prefix s t \<and> t \<noteq> s) toks"

definition end_of_reasoning :: "py_str \<Rightarrow> detector \<Rightarrow> parse_result \<times> detector" where
  "end_of_reasoning s D = (case split_at (think_end_token D) s of
     (r, n) \<Rightarrow> (\<lparr>normal_text = n, reasoning_text = rstrip r\<rparr>, D\<lparr>det_buffer := [], in_reasoning := False\<rparr>))"

text \<open>\<open>if self.tool_start_token:\<close>, which the empty text does not satisfy.\<close>

definition tool_token :: "detector \<Rightarrow> py_str option" where
  "tool_token D = (case tool_start_token D of None \<Rightarrow> None | Some t \<Rightarrow> if t = [] then None else Some t)"

text \<open>The part of both streaming methods behind the handling of the start tag. \<open>new\<close> is the chunk, \<open>s\<close> the current text.\<close>

definition emit :: "py_str option \<Rightarrow> py_str \<Rightarrow> py_str \<Rightarrow> detector \<Rightarrow> parse_result \<times> detector" where
  "emit tool new s D =
     (if in_reasoning D \<and> contains (think_end_token D) s then end_of_reasoning s D
      else if in_reasoning D then
        (case (case tool of None \<Rightarrow> None | Some t \<Rightarrow> find_sub t s) of
           Some i \<Rightarrow> (\<lparr>normal_text = drop i s, reasoning_text = take i s\<rparr>, D\<lparr>det_buffer := [], in_reasoning := False\<rparr>)
         | None \<Rightarrow>
             if stream_reasoning D then (\<lparr>normal_text = [], reasoning_text = s\<rparr>, D\<lparr>det_buffer := []\<rparr>)
             else (no_text, D))
      else (\<lparr>normal_text = new, reasoning_text = []\<rparr>, D\<lparr>det_buffer := []\<rparr>))"

definition base_streaming :: "py_str \<Rightarrow> detector \<Rightarrow> parse_result \<times> detector" where
  "base_streaming new D0 =
     (let D = D0\<lparr>det_buffer := det_buffer D0 @ new\<rparr>;
          s = det_buffer D;
          toks = [think_start_token D, think_end_token D] @ (case tool_token D of None \<Rightarrow> [] | Some t \<Rightarrow> [t]) in
      if is_partial toks s then (no_text, D)
      else if \<not> stripped_think_start D \<and> contains (think_start_token D) s
      then emit (tool_token D) new (remove_all (think_start_token D) s) (D\<lparr>stripped_think_start := True, in_reasoning := True\<rparr>)
      else emit (tool_token D) new s D)"

definition gemma_streaming :: "py_str \<Rightarrow> detector \<Rightarrow> parse_result \<times> detector" where
  "gemma_streaming new D0 =
     (let D = D0\<lparr>det_buffer := det_buffer D0 @ new\<rparr>;
          s = det_buffer D in
      if is_partial [think_start_token D, gemma_short, think_end_token D] s then (no_text, D)
      else if \<not> stripped_think_start D \<and> prefix gemma_start s
      then emit None new (drop (length gemma_start) s) (D\<lparr>stripped_think_start := True, in_reasoning := True\<rparr>)
      else if \<not> stripped_think_start D \<and> prefix gemma_short s
      then emit None new (drop (length gemma_short) s) (D\<lparr>stripped_think_start := True, in_reasoning := True\<rparr>)
      else emit None new s D)"

definition parse_streaming_increment :: "py_str \<Rightarrow> detector \<Rightarrow> parse_result \<times> detector" where
  "parse_streaming_increment new D = (case det_class D of
     Gemma4_Detector \<Rightarrow> gemma_streaming new D
   | _ \<Rightarrow> base_streaming new D)"

section \<open>ReasoningParser\<close>

definition detector_map :: "bool \<Rightarrow> (py_str \<times> detector) list" where
  "detector_map stream =
     [(str ''deepseek-r1'', deepseek_r1_detector stream), (str ''qwen3'', qwen3_detector stream), (str ''mimo'', qwen3_detector stream),
      (str ''kimi'', kimi_detector stream), (str ''glm45'', glm45_detector Base_Detector stream False), (str ''gemma4'', gemma4_detector stream),
      (str ''ling3'', ling3_detector stream)]"

definition reasoning_parser :: "py_str option \<Rightarrow> bool \<Rightarrow> detector result" where
  "reasoning_parser model_type stream =
     (case model_type of None \<Rightarrow> Inl ValueError
      | Some m \<Rightarrow> if m = [] then Inl ValueError
          else (case map_of (detector_map stream) (lower m) of None \<Rightarrow> Inl ValueError | Some D \<Rightarrow> Inr D))"

definition parse_non_stream :: "py_str \<Rightarrow> detector \<Rightarrow> (py_str \<times> py_str) \<times> detector" where
  "parse_non_stream s D = (case detect_and_parse s D of (res, D1) \<Rightarrow> ((reasoning_text res, normal_text res), D1))"

definition parse_stream_chunk :: "py_str \<Rightarrow> detector \<Rightarrow> (py_str \<times> py_str) \<times> detector" where
  "parse_stream_chunk s D = (case parse_streaming_increment s D of (res, D1) \<Rightarrow> ((reasoning_text res, normal_text res), D1))"

end
