(* ===== verification/Reasoning_Stream.thy ===== *)
theory Reasoning_Stream
  imports Reasoning_Parser
begin

text \<open>
  Streaming against one-time parsing. On an output of the form the detectors expect, cut into chunks in any way that
  lets a tag begin with a chunk, the texts put together from the chunks are those of the one-time parser up to
  surrounding white space. Two losses of the streaming method are shown as well: text that looked like the
  beginning of a tag disappears, and without streaming of the reasoning the opening tag is not removed.
\<close>

section \<open>Tags and clean texts\<close>

text \<open>The tags of a detector: none is a prefix of another, and the character a tag starts with occurs nowhere else in
  a tag. A text is clean if it has none of these characters.\<close>

definition tags :: "detector \<Rightarrow> py_str list" where
  "tags D = [think_start_token D, think_end_token D] @ (case tool_token D of None \<Rightarrow> [] | Some t \<Rightarrow> [t])"

definition tags_ok :: "detector \<Rightarrow> bool" where
  "tags_ok D \<longleftrightarrow> det_class D \<noteq> Gemma4_Detector \<and> distinct (tags D)
     \<and> \<not> is_space (hd (think_end_token D)) \<and> \<not> is_space (last (think_end_token D))
     \<and> (\<forall>t\<in>set (tags D). t \<noteq> [] \<and> (\<forall>u\<in>set (tags D). (prefix t u \<longrightarrow> t = u) \<and> hd t \<notin> set (tl u)))"

definition clean :: "detector \<Rightarrow> py_str \<Rightarrow> bool" where
  "clean D s \<longleftrightarrow> (\<forall>t\<in>set (tags D). hd t \<notin> set s)"

lemma tags_in: "think_start_token D \<in> set (tags D)" "think_end_token D \<in> set (tags D)" "tool_token D = Some t \<Longrightarrow> t \<in> set (tags D)"
  by (auto simp: tags_def)

lemma tags_okD:
  assumes "tags_ok D" "t \<in> set (tags D)"
  shows "t \<noteq> []" "u \<in> set (tags D) \<Longrightarrow> prefix t u \<Longrightarrow> t = u" "u \<in> set (tags D) \<Longrightarrow> hd t \<notin> set (tl u)"
  using assms by (auto simp: tags_ok_def)

lemma clean_append [simp]: "clean D (a @ b) \<longleftrightarrow> clean D a \<and> clean D b"
  by (auto simp: clean_def)

lemma clean_Nil [simp]: "clean D []"
  by (simp add: clean_def)

lemma clean_concat: "clean D (concat cs) \<longleftrightarrow> (\<forall>c\<in>set cs. clean D c)"
  by (auto simp: clean_def)

lemma clean_not_contains: "tags_ok D \<Longrightarrow> clean D s \<Longrightarrow> t \<in> set (tags D) \<Longrightarrow> \<not> contains t s"
  by (rule not_contains_hd) (auto simp: clean_def tags_okD)

lemma not_partial:
  assumes ok: "tags_ok D" and w: "clean D w" and s: "s = w @ u" "w = [] \<longrightarrow> u = [] \<or> (\<exists>t\<in>set (tags D). prefix t u)" "s \<noteq> []"
  shows "\<not> is_partial (tags D) s"
proof
  assume "is_partial (tags D) s"
  then obtain t where t: "t \<in> set (tags D)" "prefix s t" "t \<noteq> s" by (auto simp: is_partial_def list_ex_iff)
  show False
  proof (cases "w = []")
    case True
    then obtain t' where t': "t' \<in> set (tags D)" "prefix t' s" using s by auto
    then have "t' = t" using tags_okD(2) [OF ok t'(1) t(1)] t(2) prefix_order.trans by blast
    then show False using t(2,3) t'(2) prefix_order.antisym by blast
  next
    case False
    then have "hd t = hd w" using s(1) t(2) by (auto simp: prefix_def)
    then show False using w t(1) False by (auto simp: clean_def)
  qed
qed

lemma start_not_partial: "tags_ok D \<Longrightarrow> \<not> is_partial (tags D) (think_start_token D @ v)"
proof -
  assume ok: "tags_ok D"
  have "\<exists>t\<in>set (tags D). prefix t (think_start_token D @ v)" using tags_in(1) by (intro bexI [of _ "think_start_token D"]) simp_all
  then show ?thesis using not_partial [OF ok clean_Nil, of "think_start_token D @ v" "think_start_token D @ v"] tags_okD(1) [OF ok tags_in(1)] by simp
qed

text \<open>A tag of the detector occurs in \<open>w @ e @ v\<close> only where \<open>e\<close> is.\<close>

lemma other_tag_not_in:
  assumes ok: "tags_ok D" and c: "clean D w" "clean D v" and t: "t \<in> set (tags D)" "e \<in> set (tags D)" "t \<noteq> e"
  shows "\<not> contains t (w @ e @ v)"
proof
  assume "contains t (w @ e @ v)"
  then obtain a b where eq: "w @ e @ v = a @ t @ b" by (auto simp: contains_iff)
  obtain x xs where x: "t = x # xs" using tags_okD(1) [OF ok t(1)] by (cases t) auto
  have out: "x \<notin> set w" "x \<notin> set v" "x \<notin> set (tl e)"
    using c t x tags_okD(3) [OF ok t(1,2)] by (auto simp: clean_def)
  have at: "(w @ e @ v) ! length a = x" and lt: "length a < length (w @ e @ v)" unfolding eq x by simp_all
  have "length a = length w"
  proof (rule ccontr)
    assume ne: "length a \<noteq> length w"
    define k where "k = length a - length w"
    consider "length a < length w" | "length w < length a" "k < length e" | "length w < length a" "\<not> k < length e"
      using ne by linarith
    then show False
    proof cases
      case 1
      then show ?thesis using at out(1) by (auto simp: nth_append)
    next
      case 2
      then have "e ! k = x" "k = Suc (k - 1)" using at by (auto simp: nth_append k_def)
      then have "tl e ! (k - 1) = x" "k - 1 < length (tl e)" using 2(2) by (simp_all add: nth_tl)
      then show ?thesis using out(3) nth_mem by blast
    next
      case 3
      then have "v ! (k - length e) = x" "k - length e < length v" using at lt by (auto simp: nth_append k_def)
      then show ?thesis using out(2) nth_mem by blast
    qed
  qed
  then have "prefix t (e @ v)" using eq by (simp add: append_eq_append_conv prefix_def)
  then have "prefix t e \<or> prefix e t" by (metis prefixI prefix_same_cases)
  then show False using tags_okD(2) [OF ok] t by blast
qed

section \<open>One chunk\<close>

lemma base_streaming_eq:
  assumes "tags_ok D0" "D = D0\<lparr>det_buffer := s\<rparr>" "s = det_buffer D0 @ new"
  shows "parse_streaming_increment new D0 =
    (if is_partial (tags D0) s then (no_text, D)
     else if \<not> stripped_think_start D0 \<and> contains (think_start_token D0) s
     then emit (tool_token D0) new (remove_all (think_start_token D0) s) (D\<lparr>stripped_think_start := True, in_reasoning := True\<rparr>)
     else emit (tool_token D0) new s D)"
proof -
  have "det_class D0 \<noteq> Gemma4_Detector" using assms(1) by (simp add: tags_ok_def)
  then have "parse_streaming_increment new D0 = base_streaming new D0"
    by (cases "det_class D0") (simp_all add: parse_streaming_increment_def)
  moreover have "tool_token D = tool_token D0" "tags D = tags D0" unfolding assms(2) by (simp_all add: tool_token_def tags_def)
  ultimately show ?thesis
    unfolding base_streaming_def Let_def assms(2,3) by (simp add: tags_def tool_token_def)
qed

lemma emit_stream:
  assumes ok: "tags_ok D" and c: "clean D s" and r: "in_reasoning D" "stream_reasoning D"
  shows "emit (tool_token D) new s D = (\<lparr>normal_text = [], reasoning_text = s\<rparr>, D\<lparr>det_buffer := []\<rparr>)"
proof -
  have "find_sub t s = None" if "tool_token D = Some t" for t
    using clean_not_contains [OF ok c tags_in(3) [OF that]] by (simp add: contains_def)
  then show ?thesis using clean_not_contains [OF ok c tags_in(2)] r by (cases "tool_token D") (simp_all add: emit_def)
qed

text \<open>A clean chunk in reasoning mode is streamed, one outside is passed on.\<close>

lemma chunk_clean:
  assumes ok: "tags_ok D" and c: "clean D s" and b: "det_buffer D = []" and st: "stream_reasoning D"
  shows "parse_stream_chunk s D = ((if in_reasoning D then (s, []) else ([], s)), D)"
proof (cases "s = []")
  case True
  have "is_partial (tags D) []" using tags_okD(1) [OF ok tags_in(1)] by (simp add: is_partial_def tags_def)
  then show ?thesis
    using base_streaming_eq [OF ok refl refl, of s] b True by (simp add: parse_stream_chunk_def)
next
  case False
  have buf: "D\<lparr>det_buffer := []\<rparr> = D" "D\<lparr>det_buffer := s, det_buffer := []\<rparr> = D" using b by simp_all
  have np: "\<not> is_partial (tags D) s" using not_partial [OF ok c, of s "[]"] False by simp
  have ns: "\<not> contains (think_start_token D) s" by (rule clean_not_contains [OF ok c tags_in(1)])
  let ?D = "D\<lparr>det_buffer := s\<rparr>"
  have eq: "tool_token ?D = tool_token D" "tags ?D = tags D" by (simp_all add: tool_token_def tags_def)
  have ok': "tags_ok ?D" "clean ?D s" using ok c by (simp_all add: tags_ok_def clean_def eq)
  have "parse_streaming_increment s D = emit (tool_token D) s s ?D"
    using base_streaming_eq [OF ok refl refl, of s] b np ns by simp
  then show ?thesis
    using emit_stream [OF ok', of s] st b eq(1)
    by (cases "in_reasoning D") (simp_all add: parse_stream_chunk_def, simp_all add: emit_def)
qed

lemma buffer_irrelevant [simp]:
  "tags (D\<lparr>det_buffer := b\<rparr>) = tags D" "tool_token (D\<lparr>det_buffer := b\<rparr>) = tool_token D" "tags_ok (D\<lparr>det_buffer := b\<rparr>) = tags_ok D"
  "clean (D\<lparr>det_buffer := b\<rparr>) = clean D"
  "tags (D\<lparr>in_reasoning := r\<rparr>) = tags D" "tool_token (D\<lparr>in_reasoning := r\<rparr>) = tool_token D" "tags_ok (D\<lparr>in_reasoning := r\<rparr>) = tags_ok D"
  "clean (D\<lparr>in_reasoning := r\<rparr>) = clean D"
  "tags (D\<lparr>stripped_think_start := r\<rparr>) = tags D" "tool_token (D\<lparr>stripped_think_start := r\<rparr>) = tool_token D"
  "tags_ok (D\<lparr>stripped_think_start := r\<rparr>) = tags_ok D" "clean (D\<lparr>stripped_think_start := r\<rparr>) = clean D"
proof -
  show t: "tool_token (D\<lparr>det_buffer := b\<rparr>) = tool_token D" "tool_token (D\<lparr>in_reasoning := r\<rparr>) = tool_token D"
    "tool_token (D\<lparr>stripped_think_start := r\<rparr>) = tool_token D" by (simp_all add: tool_token_def)
  show g: "tags (D\<lparr>det_buffer := b\<rparr>) = tags D" "tags (D\<lparr>in_reasoning := r\<rparr>) = tags D" "tags (D\<lparr>stripped_think_start := r\<rparr>) = tags D"
    by (simp_all add: tags_def t)
  show "tags_ok (D\<lparr>det_buffer := b\<rparr>) = tags_ok D" "tags_ok (D\<lparr>in_reasoning := r\<rparr>) = tags_ok D"
    "tags_ok (D\<lparr>stripped_think_start := r\<rparr>) = tags_ok D" by (simp_all add: tags_ok_def g)
  show "clean (D\<lparr>det_buffer := b\<rparr>) = clean D" "clean (D\<lparr>in_reasoning := r\<rparr>) = clean D" "clean (D\<lparr>stripped_think_start := r\<rparr>) = clean D"
    by (rule ext, simp add: clean_def g)+
qed

text \<open>A beginning of a tag is kept in the buffer.\<close>

lemma chunk_partial:
  assumes ok: "tags_ok D" and t: "t \<in> set (tags D)" and p: "strict_prefix (det_buffer D @ c) t"
  shows "parse_stream_chunk c D = (([], []), D\<lparr>det_buffer := det_buffer D @ c\<rparr>)"
proof -
  have "is_partial (tags D) (det_buffer D @ c)" using t p by (auto simp: is_partial_def list_ex_iff strict_prefix_def)
  then show ?thesis using base_streaming_eq [OF ok refl refl, of c] by (simp add: parse_stream_chunk_def)
qed

text \<open>The chunk that completes the end tag.\<close>

lemma chunk_end:
  assumes ok: "tags_ok D" and r: "in_reasoning D" and c: "clean D w" "clean D v" and s: "det_buffer D @ c = w @ think_end_token D @ v"
  shows "parse_stream_chunk c D = ((rstrip w, v), D\<lparr>det_buffer := [], in_reasoning := False\<rparr>)"
proof -
  let ?e = "think_end_token D" and ?s = "w @ think_end_token D @ v"
  have ne: "?e \<noteq> []" by (rule tags_okD(1) [OF ok tags_in(2)])
  have np: "\<not> is_partial (tags D) ?s"
    by (rule not_partial [OF ok c(1) refl]) (use tags_in(2) ne in \<open>auto intro!: bexI [of _ ?e]\<close>)
  have ns: "\<not> contains (think_start_token D) ?s"
    by (rule other_tag_not_in [OF ok c tags_in(1,2)]) (use ok in \<open>simp add: tags_ok_def tags_def\<close>)
  have "hd ?e \<notin> set w" using c(1) tags_in(2) by (auto simp: clean_def)
  then have f: "find_sub ?e ?s = Some (length w)" using find_sub_skip [OF ne, of w "?e @ v"] by simp
  then have sp: "split_at ?e ?s = (w, v)" by (simp add: split_at_def)
  have "parse_streaming_increment c D = emit (tool_token D) c ?s (D\<lparr>det_buffer := ?s\<rparr>)"
    using base_streaming_eq [OF ok refl s [symmetric]] np ns by simp
  then show ?thesis using r f sp by (simp add: parse_stream_chunk_def emit_def end_of_reasoning_def contains_def)
qed

text \<open>The chunk that completes the start tag.\<close>

lemma chunk_start:
  assumes ok: "tags_ok D" and r: "\<not> stripped_think_start D" "stream_reasoning D" and c: "clean D v"
    and s: "det_buffer D @ c = think_start_token D @ v"
  shows "parse_stream_chunk c D = ((v, []), D\<lparr>det_buffer := [], stripped_think_start := True, in_reasoning := True\<rparr>)"
proof -
  let ?t = "think_start_token D" and ?D = "D\<lparr>det_buffer := think_start_token D @ v, stripped_think_start := True, in_reasoning := True\<rparr>"
  have ne: "?t \<noteq> []" by (rule tags_okD(1) [OF ok tags_in(1)])
  note np = start_not_partial [OF ok, of v]
  have "?t @ v = [] @ ?t @ v" by simp
  then have ct: "contains ?t (?t @ v)" unfolding contains_iff by blast
  have rm: "remove_all ?t (?t @ v) = v"
    using remove_all_hd [OF ne] remove_all_id [OF clean_not_contains [OF ok c tags_in(1)]] by simp
  have "parse_streaming_increment c D = emit (tool_token D) c v ?D"
    using base_streaming_eq [OF ok refl s [symmetric]] np ct rm r(1) by simp
  moreover have "emit (tool_token D) c v ?D = (\<lparr>normal_text = [], reasoning_text = v\<rparr>, ?D\<lparr>det_buffer := []\<rparr>)"
    using emit_stream [of ?D v c] ok c r(2) by simp
  ultimately show ?thesis by (simp add: parse_stream_chunk_def)
qed

section \<open>A whole stream\<close>

text \<open>The texts that a client puts together from the results of the chunks.\<close>

fun stream_all :: "py_str list \<Rightarrow> detector \<Rightarrow> (py_str \<times> py_str) \<times> detector" where
  "stream_all [] D = (([], []), D)"
| "stream_all (c # cs) D = (case parse_stream_chunk c D of ((r, n), D1) \<Rightarrow>
     (case stream_all cs D1 of ((r', n'), D2) \<Rightarrow> ((r @ r', n @ n'), D2)))"

lemma stream_all_append:
  "stream_all (xs @ ys) D = (case stream_all xs D of ((r, n), D1) \<Rightarrow>
     (case stream_all ys D1 of ((r', n'), D2) \<Rightarrow> ((r @ r', n @ n'), D2)))"
  by (induction xs arbitrary: D) (auto split: prod.splits)

lemma stream_clean:
  assumes "tags_ok D" "det_buffer D = []" "stream_reasoning D" "\<forall>c\<in>set cs. clean D c"
  shows "stream_all cs D = ((if in_reasoning D then (concat cs, []) else ([], concat cs)), D)"
  using assms(4) by (induction cs) (auto simp: chunk_clean [OF assms(1) _ assms(2,3)])

lemma stream_partial:
  assumes "tags_ok D" "t \<in> set (tags D)" "strict_prefix (det_buffer D @ concat cs) t"
  shows "stream_all cs D = (([], []), D\<lparr>det_buffer := det_buffer D @ concat cs\<rparr>)"
  using assms
proof (induction cs arbitrary: D)
  case (Cons c cs)
  have "strict_prefix (det_buffer D @ c) t"
    using Cons.prems(3) by (metis append.assoc concat.simps(2) prefixI prefix_order.le_less_trans)
  then have "parse_stream_chunk c D = (([], []), D\<lparr>det_buffer := det_buffer D @ c\<rparr>)" by (rule chunk_partial [OF Cons.prems(1,2)])
  then show ?case using Cons.IH [of "D\<lparr>det_buffer := det_buffer D @ c\<rparr>"] Cons.prems by simp
qed simp

text \<open>A tag that begins with a chunk, cut into chunks anywhere: all but the last are kept back.\<close>

lemma stream_pieces:
  assumes ok: "tags_ok D" and b: "det_buffer D = []" and es: "es \<noteq> []" "strict_prefix (concat (butlast es)) t" and t: "t \<in> set (tags D)"
    and last: "parse_stream_chunk (last es) (D\<lparr>det_buffer := concat (butlast es)\<rparr>) = (out, D')"
  shows "stream_all es D = (out, D')"
proof -
  have "stream_all (butlast es) D = (([], []), D\<lparr>det_buffer := concat (butlast es)\<rparr>)"
    using stream_partial [OF ok t, of "butlast es"] es(2) b by simp
  then show ?thesis
    using stream_all_append [of "butlast es" "[last es]" D] last es(1) by (cases out) simp
qed

text \<open>The chunks of a whole output: an opening tag (unless the detector starts in reasoning), clean reasoning, the end
  tag, a clean answer. A tag may be cut anywhere, but begins with a chunk, or else is inside one.\<close>

definition opened :: "detector \<Rightarrow> py_str list \<Rightarrow> py_str \<Rightarrow> bool" where
  "opened D ss t0 \<longleftrightarrow> (in_reasoning D \<and> ss = [] \<and> t0 = []) \<or>
     (\<not> stripped_think_start D \<and> ss \<noteq> [] \<and> strict_prefix (concat (butlast ss)) (think_start_token D)
       \<and> concat ss = think_start_token D @ t0 \<and> clean D t0)"

definition closed :: "detector \<Rightarrow> py_str list \<Rightarrow> py_str \<Rightarrow> py_str \<Rightarrow> bool" where
  "closed D es w v \<longleftrightarrow> es \<noteq> [] \<and> concat es = w @ think_end_token D @ v \<and> clean D w \<and> clean D v
     \<and> (if w = [] then strict_prefix (concat (butlast es)) (think_end_token D) else length es = 1)"

lemma concat_butlast_last: "es \<noteq> [] \<Longrightarrow> concat (butlast es) @ last es = concat es"
  by (metis append_butlast_last_id concat.simps concat_append append_Nil2)

lemma stream_opened:
  assumes ok: "tags_ok D" and b: "det_buffer D = []" and st: "stream_reasoning D" and o: "opened D ss t0"
  shows "\<exists>D1. stream_all ss D = ((t0, []), D1) \<and> tags_ok D1 \<and> clean D1 = clean D \<and> det_buffer D1 = [] \<and> stream_reasoning D1 \<and> in_reasoning D1
    \<and> think_end_token D1 = think_end_token D"
proof (cases "ss = []")
  case True
  then show ?thesis using o ok b st by (auto simp: opened_def)
next
  case False
  with o have n: "\<not> stripped_think_start D" "strict_prefix (concat (butlast ss)) (think_start_token D)"
    "concat ss = think_start_token D @ t0" "clean D t0" by (auto simp: opened_def)
  let ?D = "D\<lparr>det_buffer := concat (butlast ss)\<rparr>"
  have "parse_stream_chunk (last ss) ?D = ((t0, []), ?D\<lparr>det_buffer := [], stripped_think_start := True, in_reasoning := True\<rparr>)"
    by (rule chunk_start) (use ok n st concat_butlast_last [OF False] in simp_all)
  from stream_pieces [OF ok b False n(2) tags_in(1) this] show ?thesis using ok st by simp
qed

lemma stream_closed:
  assumes ok: "tags_ok D" and b: "det_buffer D = []" and r: "in_reasoning D" and c: "closed D es w v"
  shows "stream_all es D = ((rstrip w, v), D\<lparr>in_reasoning := False\<rparr>)"
proof -
  from c have n: "es \<noteq> []" "concat es = w @ think_end_token D @ v" "clean D w" "clean D v" by (auto simp: closed_def)
  have bl: "D\<lparr>det_buffer := [], in_reasoning := False\<rparr> = D\<lparr>in_reasoning := False\<rparr>" using b by simp
  show ?thesis
  proof (cases "w = []")
    case True
    with c have sp: "strict_prefix (concat (butlast es)) (think_end_token D)" by (simp add: closed_def)
    let ?D = "D\<lparr>det_buffer := concat (butlast es)\<rparr>"
    have "parse_stream_chunk (last es) ?D = ((rstrip w, v), ?D\<lparr>det_buffer := [], in_reasoning := False\<rparr>)"
      by (rule chunk_end) (use ok n r concat_butlast_last [OF n(1)] in simp_all)
    then have "parse_stream_chunk (last es) ?D = ((rstrip w, v), D\<lparr>in_reasoning := False\<rparr>)" using bl by simp
    from stream_pieces [OF ok b n(1) sp tags_in(2) this] show ?thesis .
  next
    case False
    with c have "length es = 1" by (simp add: closed_def)
    then obtain e where e: "es = [e]" by (auto simp: length_Suc_conv)
    have "parse_stream_chunk e D = ((rstrip w, v), D\<lparr>det_buffer := [], in_reasoning := False\<rparr>)"
      by (rule chunk_end) (use ok n r b e in simp_all)
    then show ?thesis using e bl by simp
  qed
qed

lemma stream_output:
  assumes ok: "tags_ok D" and b: "det_buffer D = []" and st: "stream_reasoning D"
    and o: "opened D ss t0" and c: "closed D es w v" and cl: "\<forall>c\<in>set ts. clean D c" "\<forall>c\<in>set us. clean D c"
  shows "fst (stream_all (ss @ ts @ es @ us) D) = (t0 @ concat ts @ rstrip w, v @ concat us)"
proof -
  obtain D1 where D1: "stream_all ss D = ((t0, []), D1)" "tags_ok D1" "clean D1 = clean D" "det_buffer D1 = []" "stream_reasoning D1" "in_reasoning D1"
    "think_end_token D1 = think_end_token D"
    using stream_opened [OF ok b st o] by blast
  have t: "stream_all ts D1 = ((concat ts, []), D1)" using stream_clean [OF D1(2,4,5), of ts] cl(1) D1(3,6) by simp
  have e: "stream_all es D1 = ((rstrip w, v), D1\<lparr>in_reasoning := False\<rparr>)"
    by (rule stream_closed) (use D1 c in \<open>simp_all add: closed_def\<close>)
  have u: "stream_all us (D1\<lparr>in_reasoning := False\<rparr>) = (([], concat us), D1\<lparr>in_reasoning := False\<rparr>)"
    using stream_clean [of "D1\<lparr>in_reasoning := False\<rparr>" us] cl(2) D1 by simp
  show ?thesis by (simp add: stream_all_append D1(1) t e u)
qed

section \<open>One-time parsing of the same text\<close>

lemma rstrip_append_nonspace: "\<not> is_space x \<Longrightarrow> rstrip (a @ x # b) = a @ x # rstrip b"
  by (simp add: rstrip_def dropWhile_append)

lemma lstrip_append_nonspace: "\<not> is_space x \<Longrightarrow> lstrip (a @ x # b) = lstrip a @ x # b"
  by (auto simp: lstrip_def dropWhile_append)

lemma strip_frame:
  assumes "e \<noteq> []" "\<not> is_space (hd e)" "\<not> is_space (last e)"
  shows "strip (a @ e @ b) = lstrip a @ e @ rstrip b"
proof -
  obtain x xs where x: "e = x # xs" using assms(1) by (cases e) auto
  obtain ys y where y: "e = ys @ [y]" using assms(1) by (cases e rule: rev_cases) auto
  have "lstrip (a @ e @ b) = lstrip a @ e @ b" using lstrip_append_nonspace [of x a "xs @ b"] assms(2) x by simp
  moreover have "rstrip ((lstrip a @ ys) @ y # b) = (lstrip a @ ys) @ y # rstrip b"
    by (rule rstrip_append_nonspace) (use assms(3) y in simp)
  ultimately show ?thesis by (simp add: strip_def y)
qed

lemma strip_rstrip [simp]: "strip (a @ rstrip b) = strip (a @ b)"
proof -
  have sp: "\<forall>x\<in>set q. is_space x" if "b = rstrip b @ q" for q
  proof -
    have "rev b = takeWhile is_space (rev b) @ dropWhile is_space (rev b)" by simp
    then have "b = rstrip b @ rev (takeWhile is_space (rev b))" unfolding rstrip_def by (metis rev_append rev_rev_ident)
    then have "q = rev (takeWhile is_space (rev b))" using that by (metis same_append_eq)
    then show ?thesis by (auto dest: set_takeWhileD)
  qed
  have "rev b = takeWhile is_space (rev b) @ dropWhile is_space (rev b)" by simp
  then obtain q where q: "b = rstrip b @ q" unfolding rstrip_def by (metis rev_append rev_rev_ident)
  have drop: "strip (s @ q) = strip s" for s
  proof (cases "\<forall>x\<in>set s. is_space x")
    case True
    then have "lstrip s = []" "lstrip (s @ q) = []" using sp [OF q] by (auto simp: lstrip_def)
    then show ?thesis by (simp add: strip_def)
  next
    case False
    then have "lstrip (s @ q) = lstrip s @ q" by (auto simp: lstrip_def dropWhile_append)
    moreover have "rstrip (t @ q) = rstrip t" for t
      using sp [OF q] dropWhile_append2 [of "rev q" is_space "rev t"] by (simp add: rstrip_def)
    ultimately show ?thesis by (simp add: strip_def)
  qed
  from drop [of "a @ rstrip b"] q show ?thesis by simp
qed

lemma strip_lstrip [simp]: "strip (lstrip a) = strip a"
  by (simp add: strip_def lstrip_def)

lemma one_time_output:
  assumes ok: "tags_ok D" and b: "det_class D = Base_Detector" and o: "opened D ss t0"
    and cl: "clean D T" "clean D U"
  shows "fst (parse_non_stream (concat ss @ T @ think_end_token D @ U) D) =
    (lstrip (t0 @ T), strip U)"
proof -
  let ?e = "think_end_token D" and ?t = "think_start_token D" and ?s = "concat ss @ T @ think_end_token D @ U"
  have ne: "?e \<noteq> []" "?t \<noteq> []" using tags_okD(1) [OF ok] tags_in(1,2) by blast+
  have c0: "clean D (t0 @ T)" using o cl by (auto simp: opened_def)
  have ns: "\<not> contains ?t ((t0 @ T) @ ?e @ U)"
    by (rule other_tag_not_in [OF ok c0 cl(2) tags_in(1,2)]) (use ok in \<open>simp add: tags_ok_def tags_def\<close>)
  have rm: "remove_all ?t ?s = (t0 @ T) @ ?e @ U \<and> (in_reasoning D \<or> prefix ?t ?s)"
  proof (cases "ss = []")
    case True
    then show ?thesis using o remove_all_id [OF ns] by (auto simp: opened_def)
  next
    case False
    then have "?s = ?t @ (t0 @ T) @ ?e @ U" using o by (simp add: opened_def)
    then show ?thesis using remove_all_hd [OF ne(2)] remove_all_id [OF ns] by simp
  qed
  have st: "strip ((t0 @ T) @ ?e @ U) = lstrip (t0 @ T) @ ?e @ rstrip U"
    by (rule strip_frame) (use ne ok in \<open>simp_all add: tags_ok_def\<close>)
  have "set (lstrip (t0 @ T)) \<subseteq> set (t0 @ T)" unfolding lstrip_def by (auto dest: set_dropWhileD)
  then have "hd ?e \<notin> set (lstrip (t0 @ T))" using c0 tags_in(2) by (auto simp: clean_def)
  then have f: "find_sub ?e (lstrip (t0 @ T) @ ?e @ rstrip U) = Some (length (lstrip (t0 @ T)))"
    using find_sub_skip [OF ne(1)] by simp
  have "base_detect_and_parse ?s D = \<lparr>normal_text = strip (rstrip U), reasoning_text = lstrip (t0 @ T)\<rparr>"
    using rm st f by (simp add: base_detect_and_parse_def Let_def contains_def split_at_def)
  then show ?thesis using b strip_rstrip [of "[]" U] by (simp add: parse_non_stream_def detect_and_parse_def)
qed

section \<open>Two losses\<close>

text \<open>The end tag behind an opening tag.\<close>

lemma find_end_behind_start:
  assumes ok: "tags_ok D" and c: "clean D w"
  shows "find_sub (think_end_token D) (think_start_token D @ w @ think_end_token D @ v) = Some (length (think_start_token D @ w))"
proof -
  let ?e = "think_end_token D" and ?t = "think_start_token D" and ?s = "think_start_token D @ w @ think_end_token D @ v"
  note ne = tags_okD(1) [OF ok tags_in(2)]
  have "\<not> prefix ?e (drop j ?s)" if j: "j < length (?t @ w)" for j
  proof
    assume p: "prefix ?e (drop j ?s)"
    show False
    proof (cases j)
      case 0
      then have "prefix ?e ?t \<or> prefix ?t ?e" using p by (metis drop0 prefixI prefix_same_cases)
      moreover have "?t \<noteq> ?e" using ok by (simp add: tags_ok_def tags_def)
      ultimately show False using tags_okD(2) [OF ok tags_in(1) tags_in(2)] tags_okD(2) [OF ok tags_in(2) tags_in(1)] by auto
    next
      case (Suc k)
      have "hd ?e = hd (drop j ?s)" using p ne by (cases ?e) (auto simp: prefix_def)
      also have "\<dots> = (?t @ w) ! j" using j by (simp add: hd_drop_conv_nth nth_append)
      also have "\<dots> = (tl ?t @ w) ! k" using Suc tags_okD(1) [OF ok tags_in(1)] by (cases ?t) auto
      finally have "hd ?e \<in> set (tl ?t @ w)" using j Suc nth_mem [of k "tl ?t @ w"] by auto
      then show False using tags_okD(3) [OF ok tags_in(2,1)] c tags_in(2) by (auto simp: clean_def)
    qed
  qed
  then show ?thesis by (simp add: find_sub_Some)
qed

lemma emit_hold:
  assumes "in_reasoning D" "\<not> stream_reasoning D" "\<not> contains (think_end_token D) s" "\<And>t. tool_token D = Some t \<Longrightarrow> \<not> contains t s"
  shows "emit (tool_token D) new s D = (no_text, D)"
  using assms by (cases "tool_token D") (auto simp: emit_def contains_def)

lemma accumulate_keeps_tag:
  assumes ok: "tags_ok D" and d: "\<not> stream_reasoning D" "\<not> stripped_think_start D" "det_buffer D = []" and c: "clean D w" "clean D v"
  shows "fst (stream_all [think_start_token D, w, think_end_token D @ v] D) = (rstrip (think_start_token D @ w), v)"
proof -
  let ?e = "think_end_token D" and ?t = "think_start_token D"
  let ?D1 = "D\<lparr>det_buffer := think_start_token D, stripped_think_start := True, in_reasoning := True\<rparr>"
  let ?D2 = "?D1\<lparr>det_buffer := think_start_token D @ w\<rparr>"
  let ?s = "think_start_token D @ w @ think_end_token D @ v"
  have dt: "distinct (tags D)" using ok by (simp add: tags_ok_def)
  have okD: "tags_ok ?D1" "tags_ok ?D2" using ok by simp_all
  have diff: "t \<noteq> ?t" if "t = ?e \<or> tool_token D = Some t" for t using dt that by (auto simp: tags_def)
  have no: "\<not> contains t ([] @ ?t @ w)" "\<not> contains t []" if "t = ?e \<or> tool_token D = Some t" for t
  proof -
    have t: "t \<in> set (tags D)" using that tags_in(2,3) by blast
    show "\<not> contains t ([] @ ?t @ w)" by (rule other_tag_not_in [OF ok clean_Nil c(1) t tags_in(1) diff [OF that]])
    show "\<not> contains t []" by (rule clean_not_contains [OF ok clean_Nil t])
  qed
  have "?t = [] @ ?t @ []" by simp
  then have ct: "contains ?t ?t" unfolding contains_iff by blast
  have rm: "remove_all ?t ?t = []" using remove_all_hd [OF tags_okD(1) [OF ok tags_in(1)], of "[]"] by simp
  have "parse_streaming_increment ?t D = emit (tool_token D) ?t [] ?D1"
    using base_streaming_eq [OF ok refl, of ?t ?t] start_not_partial [OF ok, of "[]"] ct rm d(2,3) by simp
  moreover have "emit (tool_token ?D1) ?t [] ?D1 = (no_text, ?D1)" by (rule emit_hold) (use d(1) no(2) in simp_all)
  ultimately have 1: "parse_stream_chunk ?t D = (([], []), ?D1)" by (simp add: parse_stream_chunk_def)
  have "parse_streaming_increment w ?D1 = emit (tool_token D) w (?t @ w) ?D2"
    using base_streaming_eq [OF okD(1) refl refl, of w] start_not_partial [OF ok, of w] by simp
  moreover have "emit (tool_token ?D2) w (?t @ w) ?D2 = (no_text, ?D2)" by (rule emit_hold) (use d(1) no(1) in simp_all)
  ultimately have 2: "parse_stream_chunk w ?D1 = (([], []), ?D2)" by (simp add: parse_stream_chunk_def)
  have f: "find_sub ?e ?s = Some (length (?t @ w))" by (rule find_end_behind_start [OF ok c(1)])
  have "parse_streaming_increment (?e @ v) ?D2 = emit (tool_token D) (?e @ v) ?s (?D2\<lparr>det_buffer := ?s\<rparr>)"
    using base_streaming_eq [OF okD(2) refl refl, of "?e @ v"] start_not_partial [OF ok, of "w @ ?e @ v"] by simp
  then have "fst (parse_stream_chunk (?e @ v) ?D2) = (rstrip (?t @ w), v)"
    using f by (simp add: parse_stream_chunk_def emit_def contains_def end_of_reasoning_def split_at_def)
  then show ?thesis using 1 2 by (auto split: prod.splits)
qed

lemma drops_partial:
  assumes ok: "tags_ok D" and d: "\<not> in_reasoning D" "det_buffer D = []" and t: "t \<in> set (tags D)" "strict_prefix p t"
    and u: "\<not> is_partial (tags D) (p @ u)" "\<not> contains (think_start_token D) (p @ u)"
  shows "fst (stream_all [p, u] D) = ([], u)"
proof -
  have 1: "parse_stream_chunk p D = (([], []), D\<lparr>det_buffer := p\<rparr>)" using chunk_partial [OF ok t(1), of p] t(2) d(2) by simp
  let ?D = "D\<lparr>det_buffer := p\<rparr>"
  have okD: "tags_ok ?D" using ok by simp
  have "parse_streaming_increment u ?D = emit (tool_token D) u (p @ u) (?D\<lparr>det_buffer := p @ u\<rparr>)"
    using base_streaming_eq [OF okD refl refl, of u] u by simp
  then show ?thesis using 1 d(1) by (simp add: parse_stream_chunk_def emit_def)
qed

section \<open>The detectors of the program\<close>

lemma tags_ok_class: "tags_ok (D\<lparr>det_class := c\<rparr>) \<longleftrightarrow> tags_ok (D\<lparr>det_class := Base_Detector\<rparr>)" if "c \<noteq> Gemma4_Detector"
  using that by (simp add: tags_ok_def tags_def tool_token_def)

lemma tags_ok_flags: "tags_ok (base_detector c s e f st tool) \<longleftrightarrow> tags_ok (base_detector c s e True True tool)"
  by (simp add: tags_ok_def tags_def tool_token_def base_detector_def)

lemma tags_ok_think: "tags_ok (base_detector Base_Detector (str ''<think>'') (str ''</think>'') True True None)"
  by code_simp

lemma tags_ok_kimi: "tags_ok (base_detector Base_Detector (9665 # str ''think'' @ [9655]) (9665 # str ''/think'' @ [9655]) True True None)"
  by (simp add: tags_ok_def tags_def tool_token_def base_detector_def str_def is_space_def)

lemma tags_ok_glm: "tags_ok (base_detector Base_Detector (str ''<think>'') (str ''</think>'') True True (Some (str ''<tool_call>'')))"
  "tags_ok (base_detector Ling3_Detector (str ''<think>'') (str ''</think>'') True True (Some (str ''<tool_call>'')))"
  by code_simp+

lemma reasoning_parser_ok:
  assumes "reasoning_parser m stream = Inr D" "det_class D \<noteq> Gemma4_Detector"
  shows "tags_ok D" "det_buffer D = []" "stream_reasoning D = stream" "\<not> stripped_think_start D"
proof -
  have "D \<in> set (map snd (detector_map stream))"
    using assms(1) by (auto simp: reasoning_parser_def split: option.splits if_splits dest!: map_of_SomeD intro: rev_image_eqI)
  then have D: "D \<in> {deepseek_r1_detector stream, qwen3_detector stream, kimi_detector stream, glm45_detector Base_Detector stream False,
      gemma4_detector stream, ling3_detector stream}" by (auto simp: detector_map_def)
  note defs = deepseek_r1_detector_def qwen3_detector_def kimi_detector_def glm45_detector_def gemma4_detector_def ling3_detector_def
  show "det_buffer D = []" "stream_reasoning D = stream" "\<not> stripped_think_start D" using D by (auto simp: defs base_detector_def)
  have "D \<noteq> gemma4_detector stream" using assms(2) by (auto simp: defs base_detector_def)
  then show "tags_ok D"
    using D tags_ok_think tags_ok_kimi tags_ok_glm tags_ok_flags unfolding defs by blast
qed

section \<open>Properties\<close>

text \<open>C21. Streaming agrees with one-time parsing. With \<open>stream_reasoning=True\<close> and for every detector of the program
  without overridden methods (all but Gemma 4 and Ling 3), take a stream that opens the reasoning (or not, where the
  detector starts in it), carries reasoning, closes it and carries an answer, where reasoning and answer contain no
  character that begins a tag of the detector and the tags are cut into chunks anywhere as long as a tag begins with a
  chunk (or lies inside one, for the end tag). Streaming gives exactly the reasoning and the answer, and the one-time
  parser gives the same on the whole text, up to surrounding white space. With \<open>stream_reasoning=False\<close> this fails:
  \<open>accumulate_keeps_start_tag\<close> below.\<close>

theorem stream_matches_one_time:
  assumes "reasoning_parser m True = Inr D" "det_class D = Base_Detector"
    and "opened D ss t0" "closed D es w v" "\<forall>c\<in>set ts. clean D c" "\<forall>c\<in>set us. clean D c"
  shows "fst (stream_all (ss @ ts @ es @ us) D) = (t0 @ concat ts @ rstrip w, v @ concat us)
    \<and> (let (r, n) = fst (stream_all (ss @ ts @ es @ us) D); (r1, n1) = fst (parse_non_stream (concat (ss @ ts @ es @ us)) D) in
       strip r1 = strip r \<and> n1 = strip n)"
proof -
  note D = reasoning_parser_ok [OF assms(1)]
  have ok: "tags_ok D" "det_buffer D = []" "stream_reasoning D" using D assms(2) by simp_all
  note out = stream_output [OF ok assms(3-6)]
  have "clean D (concat ts @ w)" "clean D (v @ concat us)"
    using assms(4-6) by (auto simp: closed_def clean_concat)
  from one_time_output [OF ok(1) assms(2,3) this]
  have "fst (parse_non_stream (concat (ss @ ts @ es @ us)) D) = (lstrip (t0 @ concat ts @ w), strip (v @ concat us))"
    using assms(4) by (simp add: closed_def)
  moreover have "strip (t0 @ concat ts @ rstrip w) = strip (t0 @ concat ts @ w)"
    using strip_rstrip [of "t0 @ concat ts" w] by simp
  ultimately show ?thesis using out by simp
qed

theorem stream_matches_one_time_witness:
  "fst (stream_all [str ''<thi'', str ''nk>a'', str ''b'', str ''</'', str ''think>'', str ''c''] (glm45_detector Base_Detector True False)) =
     (str ''ab'', str ''c'')"
proof -
  let ?D = "glm45_detector Base_Detector True False"
  have p: "reasoning_parser (Some (str ''GLM45'')) True = Inr ?D" "det_class ?D = Base_Detector" by code_simp+
  have h: "opened ?D [str ''<thi'', str ''nk>a''] (str ''a'')" "closed ?D [str ''</'', str ''think>''] [] []"
    "\<forall>c\<in>set [str ''b'']. clean ?D c" "\<forall>c\<in>set [str ''c'']. clean ?D c" by code_simp+
  from stream_matches_one_time [OF p h] show ?thesis by (simp add: str_def rstrip_def)
qed

text \<open>C37. Text outside the reasoning gets lost in streaming. When a chunk is a proper beginning of a tag it is held back; if the
  next chunk shows that it was no tag, only that next chunk is passed on, while the one-time parser returns both.\<close>

theorem stream_drops_held_text:
  assumes "reasoning_parser m stream = Inr D" "det_class D = Base_Detector" "\<not> in_reasoning D"
    and "t \<in> set (tags D)" "strict_prefix p t" "\<not> is_partial (tags D) (p @ u)" "\<not> contains (think_start_token D) (p @ u)"
  shows "fst (stream_all [p, u] D) = ([], u) \<and> fst (parse_non_stream (p @ u) D) = ([], p @ u)"
proof -
  note D = reasoning_parser_ok [OF assms(1)]
  have ok: "tags_ok D" "det_buffer D = []" using D assms(2) by simp_all
  have "\<not> prefix (think_start_token D) (p @ u)" using assms(7) by (metis append_Nil contains_iff prefixE)
  then show ?thesis
    using drops_partial [OF ok(1) assms(3) ok(2) assms(4-7)] assms(2,3)
    by (simp add: parse_non_stream_def detect_and_parse_def base_detect_and_parse_def)
qed

theorem stream_drops_held_text_witness:
  "fst (stream_all [str ''<'', str ''5 is true''] (glm45_detector Base_Detector True False)) = ([], str ''5 is true'')"
proof -
  let ?D = "glm45_detector Base_Detector True False"
  have h: "reasoning_parser (Some (str ''glm45'')) True = Inr ?D" "det_class ?D = Base_Detector" "\<not> in_reasoning ?D"
    "str ''<think>'' \<in> set (tags ?D)" "strict_prefix (str ''<'') (str ''<think>'')" "\<not> is_partial (tags ?D) (str ''<'' @ str ''5 is true'')"
    "\<not> contains (think_start_token ?D) (str ''<'' @ str ''5 is true'')" by code_simp+
  from stream_drops_held_text [OF h] show ?thesis by simp
qed

text \<open>Without streaming of the reasoning the opening tag stays in the reasoning text when it came in a chunk of its own.\<close>

theorem accumulate_keeps_start_tag:
  assumes "reasoning_parser m False = Inr D" "det_class D = Base_Detector" "clean D w" "clean D v"
  shows "fst (stream_all [think_start_token D, w, think_end_token D @ v] D) = (rstrip (think_start_token D @ w), v)"
  using accumulate_keeps_tag [of D w v] reasoning_parser_ok [OF assms(1)] assms(2-4) by simp

end
