(* ===== verification/Spec2Isabelle.thy ===== *)
theory Spec2Isabelle
  imports Radix_Evict Dp_Routing Expert_Location Prefill_Tree Req_Ledger Schedule_Policy Kv_Lifecycle V4_Request V4_Capacity Reasoning_Stream
begin

text \<open>
  A verification of the host-side core of SGLang-Jax: the part of the serving runtime that decides which request runs
  where and which memory it owns. Paths are relative to \<open>src/python/sgl_jax/srt/\<close>.

  \<^bold>\<open>The program.\<close> Requests arrive at the scheduler, which assigns each to a data-parallel rank
  (\<open>managers/dp_*.py\<close>), orders the waiting queue (\<open>managers/schedule_policy.py\<close>), admits requests into a prefill batch
  within token budgets (\<open>PrefillAdder\<close>), gives each a request slot (\<open>mem_cache/memory_pool.py\<close>) and KV slots
  (\<open>mem_cache/allocator.py\<close>), reuses and caches KV slots through a prefix tree (\<open>mem_cache/radix_cache.py\<close>) or none
  (\<open>mem_cache/chunk_cache.py\<close>), and releases them (\<open>mem_cache/common.py\<close>). Experts of mixture models are placed by the
  load balancer (\<open>eplb\<close>). Generated text is split into reasoning and answer (\<open>reasoning_parser.py\<close>).

  \<^bold>\<open>Conventions.\<close> An operation that may raise returns \<open>error + 'a\<close> (\<open>result\<close>, with \<open>rbind\<close>, \<open>for_m\<close> and \<open>map_m\<close> of
  \<open>Sgl_Prelude\<close>); an object is a record that the operation takes and returns; Python's integers are \<open>int\<close>, a size or
  index that is never negative is \<open>nat\<close>; numpy indexing and slicing keep their rules for negative and out-of-range
  indices (\<open>np_get\<close>, \<open>np_take\<close>, \<open>np_put\<close>, \<open>py_slice\<close>). The \<open>int32\<close> arrays of slots are lists of unbounded integers: slots are
  below the pool size, so no value leaves the width. Objects with identity (tree nodes) live in a heap indexed by
  their ids.

  \<^bold>\<open>Theories.\<close>
  \<^item> \<open>Sgl_Prelude\<close>: results, numpy and Python list operations, shared lemmas. \<open>Py_Text\<close>: Python strings as code points.
  \<^item> \<open>Kv_Interface\<close>: the contract of a slot allocator as the locale \<open>kv_pool\<close>, and the conservation theorem of any client of
    it. \<open>Kv_Allocator\<close>: \<open>TokenToKVPoolAllocator\<close> and \<open>PagedTokenToKVPoolAllocator\<close>, both interpretations of the contract;
    \<open>alloc_extend\<close> and \<open>alloc_decode\<close> against a reference; free groups. \<open>Swa_Allocator\<close>: the hybrid allocator over two of
    them, with the map from full to window slots, and the union type \<open>sub_allocator\<close> that interprets the contract again.
  \<^item> \<open>Radix_Cache\<close>: data and operations of the prefix cache. \<open>Radix_Tree\<close>: its invariant \<open>radix_inv c L P H\<close>, where \<open>L\<close> are the
    linked nodes, \<open>P\<close> the path (tokens with slots) of each and \<open>H\<close> how often clients hold each. \<open>Radix_Walk\<close>: \<open>match_prefix\<close>
    and \<open>insert\<close> refine the set of cached paths (\<open>content\<close>). \<open>Radix_Locks\<close>: \<open>inc_lock_ref\<close>, \<open>dec_lock_ref\<close>; a release right
    after an acquisition restores the cache exactly. \<open>Radix_Evict\<close>: eviction
    against the allocator.
  \<^item> \<open>Req_Pool\<close>, \<open>Req_Ledger\<close>: \<open>ReqToTokenPool\<close>, \<open>HybridReqToTokenPool\<close> and the recurrent component's slot hand-over, with the
    ledger of all slots over any run of operations. \<open>Cache_Req\<close>: the request attributes and keys.
  \<^item> \<open>Kv_Release\<close>, \<open>Kv_Lifecycle\<close>: \<open>cache_finished_req\<close>, \<open>cache_unfinished_req\<close>, \<open>alloc_token_slots\<close>, \<open>release_kv_cache\<close> on tree, allocator
    and request pool together. \<open>Chunk_Cache\<close>: the caches without a tree and the reclaiming of window slots.
  \<^item> \<open>V4_Allocator\<close>, \<open>V4_Ledger\<close>, \<open>V4_Client\<close>: \<open>DeepseekV4TokenToKVPoolAllocator\<close> (\<open>mem_cache/deepseek_v4/allocator.py\<close>), which plans an
    extension over symbolic pages before it commits to the history and window pools; the invariant \<open>v4_inv\<close> of a rank and any run
    of calls. \<open>V4_Request\<close>: the extent that one request owns, as it grows, is reclaimed behind its window and is released, through the cache of
    \<open>Chunk_Cache\<close>. \<open>V4_Capacity\<close>: the plan of the pools (\<open>mem_cache/deepseek_v4/capacity.py\<close>, the layouts of \<open>pool.py\<close> and \<open>state.py\<close>), found by binary search,
    and the pools built from it.
  \<^item> \<open>Schedule_Policy\<close>: the order of the queue, over the prefix cache. \<open>Prefill_Adder\<close>: admission over the locale
    \<open>node_locks\<close>, what it asks of a prefix cache; \<open>Prefill_Tree\<close>: its interpretation on the radix cache. \<open>Dp_Routing\<close>: load snapshot,
    router, intake; the scheduler's prefix probe is an argument, assumed not to raise.
  \<^item> \<open>Eplb\<close>, \<open>Expert_Location\<close>: placement and dispatch of experts.
  \<^item> \<open>Reasoning_Parser\<close>, \<open>Reasoning_Stream\<close>: one-time and streaming separation of the output.

  \<^bold>\<open>What is shown.\<close> Memory, at page size 1 and without EAGLE: every slot of a rank is at any time free, in the tree or owned by one
  request, and every operation from allocation to release keeps this and does not raise on the states it can meet (a release with
  slots beyond the committed length asserts unless they are allowed); with EAGLE a release loses exactly the last committed slot; allocation with
  eviction fails exactly when free and evictable slots do not suffice. The DeepSeek V4 allocator estimates exactly what it then takes,
  changes nothing when it refuses, and keeps both pools consistent under any sequence of calls; a request keeps its extent in order until it is released; the pools are the
  largest that fit the device. The prefix cache is a longest-prefix map with
  exact sizes and locks. Scheduling: routing, ordering and admission lose, duplicate and overcharge nothing; admission is exact and, when it
  refuses, leaves no trace in the cache. Placement: every
  expert has a replica and dispatch reaches it. Text: streaming of the reasoning agrees with one-time parsing where no text looks like a tag. Seven places where the code
  does not do what it means to are listed as findings, most with a theorem that exhibits the behaviour.

  \<^bold>\<open>Loops and fuel.\<close> The walks of the tree take as fuel one more than the key length (each step consumes at least one
  token), walks to the root and over the tree the number of nodes ever created, eviction the leaves plus that number;
  the error \<open>NonTermination\<close> stands for running out, and the theorems that an operation returns show that it does not occur.

  \<^bold>\<open>Parameters.\<close> The clock, the choice of the heap among equal keys (\<open>heap_pick\<close>), \<open>random.shuffle\<close>, floating-point rounding and
  the tie order of \<open>argsort\<close> in the balancer, the rounded product with the ratio of window to history pages in the V4 plan, and the request estimates of routing are arguments; the theorems quantify over
  them.

  \<^bold>\<open>Not modelled.\<close> Device code (kernels, layers, models, model execution and loading, device KV pools), processes and
  their messages (scheduler loop, tokenizer and detokenizer managers, entry points, disaggregation), speculative decoding
  workers, multimodal generation, LoRA weights, grammar backends, configuration and command line, benchmarks; the prefix
  caches for sliding windows and for mixed components and the host tier, which repeat the radix tree's structure with
  more kinds of slots. The theorems on release and caching are for page size 1. Values that the
  modules read from the environment (the thresholds of in-batch matching, the clip of the output estimate) have their defaults.
\<close>

end
